(* ===== verification/Prelude.thy ===== *)
theory Prelude
  imports Main "HOL-Library.Word" "HOL-Library.Multiset"
begin

text \<open>
  The prelude of the development: C characters and C strings as the server uses them,
  the \<open>ctype\<close> predicates and \<open>string.h\<close> routines it calls (all in the C
  locale), and the generic lemmas the components share.

  A C string is modelled by the list of its bytes without the terminator: reading the list
  at its length gives the terminating NUL (\<open>cget\<close>). A pointer that walks over a string
  is the suffix it still has to read, or an index into the string when the code compares
  or subtracts pointers.
\<close>

named_theorems ctype \<open>classification and case folding of C characters\<close>
named_theorems cscan \<open>scanning of C strings\<close>

section \<open>Characters\<close>

type_synonym cstring = "char list"
type_synonym u32 = "32 word"
type_synonym u64 = "64 word"

abbreviation NUL :: char where "NUL \<equiv> CHR 0x00"
abbreviation TAB :: char where "TAB \<equiv> CHR 0x09"
abbreviation LF :: char where "LF \<equiv> CHR 0x0A"
abbreviation CR :: char where "CR \<equiv> CHR 0x0D"
abbreviation DQUOTE :: char where "DQUOTE \<equiv> CHR 0x22"
abbreviation SQUOTE :: char where "SQUOTE \<equiv> CHR 0x27"
abbreviation BSLASH :: char where "BSLASH \<equiv> CHR 0x5C"

definition CRLF :: cstring where "CRLF = [CR, LF]"

definition ccode :: "char \<Rightarrow> nat" where
  "ccode c = of_char c"

definition c_isspace :: "char \<Rightarrow> bool" where
  "c_isspace c \<longleftrightarrow> c = CHR '' '' \<or> (9 \<le> ccode c \<and> ccode c \<le> 13)"

definition c_isdigit :: "char \<Rightarrow> bool" where
  "c_isdigit c \<longleftrightarrow> 48 \<le> ccode c \<and> ccode c \<le> 57"

definition c_isupper :: "char \<Rightarrow> bool" where
  "c_isupper c \<longleftrightarrow> 65 \<le> ccode c \<and> ccode c \<le> 90"

definition c_islower :: "char \<Rightarrow> bool" where
  "c_islower c \<longleftrightarrow> 97 \<le> ccode c \<and> ccode c \<le> 122"

definition c_isalpha :: "char \<Rightarrow> bool" where
  "c_isalpha c \<longleftrightarrow> c_isupper c \<or> c_islower c"

definition c_isalnum :: "char \<Rightarrow> bool" where
  "c_isalnum c \<longleftrightarrow> c_isalpha c \<or> c_isdigit c"

definition c_isxdigit :: "char \<Rightarrow> bool" where
  "c_isxdigit c \<longleftrightarrow> c_isdigit c \<or> (65 \<le> ccode c \<and> ccode c \<le> 70) \<or> (97 \<le> ccode c \<and> ccode c \<le> 102)"

definition c_iscntrl :: "char \<Rightarrow> bool" where
  "c_iscntrl c \<longleftrightarrow> ccode c < 32 \<or> ccode c = 127"

definition c_isprint :: "char \<Rightarrow> bool" where
  "c_isprint c \<longleftrightarrow> 32 \<le> ccode c \<and> ccode c < 127"

definition c_isascii :: "char \<Rightarrow> bool" where
  "c_isascii c \<longleftrightarrow> ccode c < 128"

definition c_tolower :: "char \<Rightarrow> char" where
  "c_tolower c = (if c_isupper c then char_of (ccode c + 32) else c)"

lemmas c_class_defs =
  c_isspace_def c_isdigit_def c_isupper_def c_islower_def c_isalpha_def c_isalnum_def
  c_isxdigit_def c_iscntrl_def c_isprint_def c_isascii_def c_tolower_def ccode_def

lemma ccode_less [simp]: "ccode c < 256"
  by (simp add: ccode_def)

lemma ccode_inject [simp]: "ccode c = ccode d \<longleftrightarrow> c = d"
  by (simp add: ccode_def)

lemma ccode_char_of [simp]: "n < 256 \<Longrightarrow> ccode (char_of n) = n"
  by (simp add: ccode_def)

lemma char_of_ccode [simp]: "char_of (ccode c) = c"
  by (simp add: ccode_def)

lemma c_isspace_NUL [simp, ctype]: "\<not> c_isspace NUL"
  by (simp add: c_class_defs)

lemma c_isdigit_NUL [simp, ctype]: "\<not> c_isdigit NUL"
  by (simp add: c_class_defs)

lemma c_isxdigit_NUL [simp, ctype]: "\<not> c_isxdigit NUL"
  by (simp add: c_class_defs)

lemma c_isupper_tolower [simp, ctype]: "\<not> c_isupper (c_tolower c)"
  by (auto simp: c_tolower_def c_isupper_def)

lemma c_tolower_idem [simp, ctype]: "c_tolower (c_tolower c) = c_tolower c"
  using c_isupper_tolower [of c] by (subst c_tolower_def) simp

lemma c_tolower_NUL_iff [simp, ctype]: "c_tolower c = NUL \<longleftrightarrow> c = NUL"
proof -
  have "ccode NUL = 0" by (simp add: ccode_def)
  moreover have "ccode (c_tolower c) = 0 \<longleftrightarrow> ccode c = 0"
    by (auto simp: c_tolower_def c_isupper_def)
  ultimately show ?thesis by (metis ccode_inject)
qed

section \<open>C strings\<close>

definition nul_free :: "cstring \<Rightarrow> bool" where
  "nul_free s \<longleftrightarrow> NUL \<notin> set s"

text \<open>\<open>s[i]\<close> for an index up to and including the terminator.\<close>

definition cget :: "cstring \<Rightarrow> nat \<Rightarrow> char" where
  "cget s i = (if i < length s then s ! i else NUL)"

lemma cget_simps [simp, cscan]:
  "cget [] i = NUL"
  "cget (c # s) 0 = c"
  "cget (c # s) (Suc i) = cget s i"
  by (auto simp: cget_def)

lemma cget_not_NUL: "cget s i = c \<Longrightarrow> c \<noteq> NUL \<Longrightarrow> i < length s \<and> s ! i = c"
  by (auto simp: cget_def split: if_splits)

lemma cget_append [cscan]:
  "cget (s @ t) i = (if i < length s then s ! i else cget t (i - length s))"
  by (auto simp: cget_def nth_append)

lemma nul_free_simps [simp]:
  "nul_free []"
  "nul_free (c # s) \<longleftrightarrow> c \<noteq> NUL \<and> nul_free s"
  "nul_free (s @ t) \<longleftrightarrow> nul_free s \<and> nul_free t"
  by (auto simp: nul_free_def)

lemma nul_free_take [intro]: "nul_free s \<Longrightarrow> nul_free (take n s)"
  by (auto simp: nul_free_def dest: in_set_takeD)

lemma nul_free_drop [intro]: "nul_free s \<Longrightarrow> nul_free (drop n s)"
  by (auto simp: nul_free_def dest: in_set_dropD)

lemma nul_free_dropWhile [intro]: "nul_free s \<Longrightarrow> nul_free (dropWhile P s)"
  by (auto simp: nul_free_def dest: set_dropWhileD)

lemma nul_free_takeWhile [intro]: "nul_free s \<Longrightarrow> nul_free (takeWhile P s)"
  by (auto simp: nul_free_def dest: set_takeWhileD)

text \<open>\<open>strchr\<close>: the index of the first occurrence, the terminator included.\<close>

fun strchr :: "cstring \<Rightarrow> char \<Rightarrow> nat option" where
  "strchr [] c = (if c = NUL then Some 0 else None)"
| "strchr (x # s) c = (if x = c then Some 0 else map_option Suc (strchr s c))"

text \<open>\<open>strrchr\<close> for a character other than NUL: the index of the last occurrence.\<close>

fun strrchr :: "cstring \<Rightarrow> char \<Rightarrow> nat option" where
  "strrchr [] c = None"
| "strrchr (x # s) c =
     (case strrchr s c of Some i \<Rightarrow> Some (Suc i) | None \<Rightarrow> if x = c then Some 0 else None)"

lemma strchr_None [cscan]: "c \<noteq> NUL \<Longrightarrow> strchr s c = None \<longleftrightarrow> c \<notin> set s"
  by (induction s) auto

lemma strchr_SomeD:
  "strchr s c = Some i \<Longrightarrow> i \<le> length s \<and> cget s i = c \<and> c \<notin> set (take i s)"
  by (induction s arbitrary: i) (auto split: if_splits)

lemma strrchr_None [cscan]: "strrchr s c = None \<longleftrightarrow> c \<notin> set s"
  by (induction s) (auto split: option.splits)

lemma strrchr_SomeD:
  "strrchr s c = Some i \<Longrightarrow> i < length s \<and> s ! i = c \<and> c \<notin> set (drop (Suc i) s)"
proof (induction s arbitrary: i)
  case (Cons x s)
  show ?case
  proof (cases "strrchr s c")
    case None
    with Cons.prems show ?thesis by (auto simp: cscan split: if_splits)
  next
    case (Some j)
    with Cons.prems Cons.IH [of j] show ?thesis by auto
  qed
qed simp

text \<open>\<open>strncmp (a, b, n) == 0\<close> and \<open>strncasecmp (a, b, n) == 0\<close>.\<close>

fun strneq :: "cstring \<Rightarrow> cstring \<Rightarrow> nat \<Rightarrow> bool" where
  "strneq a b 0 = True"
| "strneq [] b (Suc n) = (b = [])"
| "strneq (x # a) b (Suc n) = (case b of [] \<Rightarrow> False | y # b' \<Rightarrow> x = y \<and> strneq a b' n)"

fun strncaseeq :: "cstring \<Rightarrow> cstring \<Rightarrow> nat \<Rightarrow> bool" where
  "strncaseeq a b 0 = True"
| "strncaseeq [] b (Suc n) = (b = [])"
| "strncaseeq (x # a) b (Suc n) =
     (case b of [] \<Rightarrow> False | y # b' \<Rightarrow> c_tolower x = c_tolower y \<and> strncaseeq a b' n)"

text \<open>\<open>strcasecmp (a, b) == 0\<close>.\<close>

definition strcaseeq :: "cstring \<Rightarrow> cstring \<Rightarrow> bool" where
  "strcaseeq a b \<longleftrightarrow> map c_tolower a = map c_tolower b"

lemma strneq_take: "strneq a b n \<longleftrightarrow> take n a = take n b"
  by (induction a b n rule: strneq.induct) (auto split: list.splits)

lemma strncaseeq_take:
  "strncaseeq a b n \<longleftrightarrow> map c_tolower (take n a) = map c_tolower (take n b)"
  by (induction a b n rule: strncaseeq.induct) (auto split: list.splits)

section \<open>Generic lemmas on lists\<close>

lemma dropWhile_length [simp]: "length (dropWhile P s) \<le> length s"
  by (rule length_dropWhile_le)

lemma takeWhile_eq_self: "(\<And>x. x \<in> set xs \<Longrightarrow> P x) \<Longrightarrow> takeWhile P xs = xs"
  by (induction xs) auto

lemma dropWhile_all: "(\<And>x. x \<in> set xs \<Longrightarrow> P x) \<Longrightarrow> dropWhile P xs = []"
  by (induction xs) auto

lemma dropWhile_Cons_less: "dropWhile P s = x # t \<Longrightarrow> length t < length s"
  using length_dropWhile_le [of P s] by simp

lemma dropWhile_Cons_not: "dropWhile P s = x # t \<Longrightarrow> \<not> P x"
  using hd_dropWhile [of P s] by simp

lemma hd_dropWhile_not: "dropWhile P s \<noteq> [] \<Longrightarrow> \<not> P (hd (dropWhile P s))"
  by (rule hd_dropWhile)

end
