(* ===== verification/Test_Char.thy ===== *)
theory Test_Char
  imports Prelude
begin

text \<open>
  The character class table of \<^verbatim>\<open>server/gen_test_char.c\<close>: the program that writes
  \<^verbatim>\<open>test_char.h\<close> computes one byte of flags for each character code, and
  \<open>TEST_CHAR\<close> of \<^verbatim>\<open>server/util.c\<close> tests a flag of it. The Unix build is modelled
  (no \<open>NEED_ENHANCED_ESCAPES\<close>).
\<close>

unbundle bit_operations_syntax

type_synonym u8 = "8 word"

definition T_ESCAPE_SHELL_CMD :: u8 where "T_ESCAPE_SHELL_CMD = 0x01"
definition T_ESCAPE_PATH_SEGMENT :: u8 where "T_ESCAPE_PATH_SEGMENT = 0x02"
definition T_OS_ESCAPE_PATH :: u8 where "T_OS_ESCAPE_PATH = 0x04"
definition T_HTTP_TOKEN_STOP :: u8 where "T_HTTP_TOKEN_STOP = 0x08"
definition T_ESCAPE_LOGITEM :: u8 where "T_ESCAPE_LOGITEM = 0x10"
definition T_ESCAPE_FORENSIC :: u8 where "T_ESCAPE_FORENSIC = 0x20"

definition shell_specials :: cstring where
  "shell_specials = ''&;`'' @ [SQUOTE, DQUOTE] @ ''|*?~<>^()[]{}$'' @ [BSLASH, LF]"

definition segment_plain :: cstring where
  "segment_plain = ''$-_.+!*'' @ [SQUOTE] @ ''(),:@&=~''"

definition os_path_plain :: cstring where
  "os_path_plain = ''$-_.+!*'' @ [SQUOTE] @ ''(),:@&=/~''"

definition http_separators :: cstring where
  "http_separators = '' '' @ [TAB] @ ''()<>@,;:'' @ [BSLASH, DQUOTE] @ ''/[]?={}''"

text \<open>The six tests of the loop body, in its order, as the conditions that set a flag.\<close>

definition is_shell_special :: "char \<Rightarrow> bool" where
  "is_shell_special c \<longleftrightarrow> c \<noteq> NUL \<and> strchr shell_specials c \<noteq> None"

definition is_segment_escape :: "char \<Rightarrow> bool" where
  "is_segment_escape c \<longleftrightarrow> \<not> c_isalnum c \<and> strchr segment_plain c = None"

definition is_os_path_escape :: "char \<Rightarrow> bool" where
  "is_os_path_escape c \<longleftrightarrow> \<not> c_isalnum c \<and> strchr os_path_plain c = None"

definition is_token_stop :: "char \<Rightarrow> bool" where
  "is_token_stop c \<longleftrightarrow> c \<noteq> NUL \<and> (c_iscntrl c \<or> strchr http_separators c \<noteq> None)"

definition is_log_escape :: "char \<Rightarrow> bool" where
  "is_log_escape c \<longleftrightarrow> c \<noteq> NUL \<and> (\<not> c_isprint c \<or> c = DQUOTE \<or> c = BSLASH \<or> c_iscntrl c)"

definition is_forensic_escape :: "char \<Rightarrow> bool" where
  "is_forensic_escape c \<longleftrightarrow> \<not> c_isprint c \<or> c = CHR '':'' \<or> c = CHR ''|'' \<or> c = CHR ''%'' \<or>
     c_iscntrl c \<or> c = NUL"

definition test_char_table :: "char \<Rightarrow> u8" where
  "test_char_table c =
     (let flags = 0;
          flags = (if is_shell_special c then flags OR T_ESCAPE_SHELL_CMD else flags);
          flags = (if is_segment_escape c then flags OR T_ESCAPE_PATH_SEGMENT else flags);
          flags = (if is_os_path_escape c then flags OR T_OS_ESCAPE_PATH else flags);
          flags = (if is_token_stop c then flags OR T_HTTP_TOKEN_STOP else flags);
          flags = (if is_log_escape c then flags OR T_ESCAPE_LOGITEM else flags);
          flags = (if is_forensic_escape c then flags OR T_ESCAPE_FORENSIC else flags)
      in flags)"

definition TEST_CHAR :: "char \<Rightarrow> u8 \<Rightarrow> bool" where
  "TEST_CHAR c f \<longleftrightarrow> test_char_table c AND f \<noteq> 0"

lemmas flag_defs = T_ESCAPE_SHELL_CMD_def T_ESCAPE_PATH_SEGMENT_def T_OS_ESCAPE_PATH_def
  T_HTTP_TOKEN_STOP_def T_ESCAPE_LOGITEM_def T_ESCAPE_FORENSIC_def

lemma TEST_CHAR_flags [simp, ctype]:
  "TEST_CHAR c T_ESCAPE_SHELL_CMD \<longleftrightarrow> is_shell_special c"
  "TEST_CHAR c T_ESCAPE_PATH_SEGMENT \<longleftrightarrow> is_segment_escape c"
  "TEST_CHAR c T_OS_ESCAPE_PATH \<longleftrightarrow> is_os_path_escape c"
  "TEST_CHAR c T_HTTP_TOKEN_STOP \<longleftrightarrow> is_token_stop c"
  "TEST_CHAR c T_ESCAPE_LOGITEM \<longleftrightarrow> is_log_escape c"
  "TEST_CHAR c T_ESCAPE_FORENSIC \<longleftrightarrow> is_forensic_escape c"
  unfolding TEST_CHAR_def test_char_table_def Let_def flag_defs
  by (cases "is_shell_special c"; cases "is_segment_escape c"; cases "is_os_path_escape c";
      cases "is_token_stop c"; cases "is_log_escape c"; cases "is_forensic_escape c"; simp)+

lemma in_strchr: "c \<in> set s \<Longrightarrow> strchr s c \<noteq> None"
  by (cases "c = NUL", induction s) (auto simp: strchr_None)

lemma percent_is_escaped [simp]: "is_segment_escape (CHR ''%'')" "is_os_path_escape (CHR ''%'')"
  by (simp_all add: is_segment_escape_def is_os_path_escape_def segment_plain_def os_path_plain_def c_class_defs)

lemma log_plain_isprint: "c \<noteq> NUL \<Longrightarrow> \<not> is_log_escape c \<Longrightarrow> c_isprint c"
  by (simp add: is_log_escape_def)

end
