(* ===== verification/Util_Word.thy ===== *)
theory Util_Word
  imports Prelude
begin

text \<open>
  The word splitters of \<^verbatim>\<open>server/util.c\<close>: \<open>ap_getword\<close> and its variants for header
  fields, \<open>ap_getword_conf\<close> for configuration lines (quotes and backslashes honoured),
  \<open>ap_resolve_env\<close>, and the small string helpers \<open>ap_field_noparam\<close>, \<open>ap_is_url\<close>,
  \<open>ap_ind\<close>, \<open>ap_rind\<close>, \<open>ap_str_tolower\<close>, \<open>ap_content_type_tolower\<close>. A splitter
  returns the word and what \<open>*line\<close> points to afterwards.
\<close>

section \<open>Splitting at a character\<close>

definition getword :: "cstring \<Rightarrow> char \<Rightarrow> cstring \<times> cstring" where
  "getword line stop =
     (let pos = dropWhile (\<lambda>c. c \<noteq> stop) line;
          res = takeWhile (\<lambda>c. c \<noteq> stop) line
      in (res, if stop \<noteq> NUL then dropWhile (\<lambda>c. c = stop) pos else pos))"

definition getword_white :: "cstring \<Rightarrow> cstring \<times> cstring" where
  "getword_white line =
     (takeWhile (\<lambda>c. \<not> c_isspace c) line,
      dropWhile c_isspace (dropWhile (\<lambda>c. \<not> c_isspace c) line))"

text \<open>
  \<open>ap_getword_nulls\<close>; \<open>++pos\<close> steps over the separator that \<open>strchr\<close> found.
\<close>

definition getword_nulls :: "cstring \<Rightarrow> char \<Rightarrow> cstring \<times> cstring" where
  "getword_nulls line stop =
     (case strchr line stop of
        None \<Rightarrow> (line, [])
      | Some pos \<Rightarrow> (take pos line, drop (pos + 1) line))"

lemma getword_split:
  assumes "getword line stop = (res, rest)" "stop \<noteq> NUL"
  shows "\<exists>k. line = res @ replicate k stop @ rest \<and> stop \<notin> set res \<and>
    (rest \<noteq> [] \<longrightarrow> hd rest \<noteq> stop) \<and> (k = 0 \<longrightarrow> rest = [])"
proof -
  let ?pos = "dropWhile (\<lambda>c. c \<noteq> stop) line"
  define k where "k = length (takeWhile (\<lambda>c. c = stop) ?pos)"
  have "takeWhile (\<lambda>c. c = stop) ?pos = replicate k stop"
    unfolding k_def by (rule replicate_eqI [symmetric, THEN sym]) (auto dest: set_takeWhileD)
  then have pos: "?pos = replicate k stop @ rest"
    using assms takeWhile_dropWhile_id [of "\<lambda>c. c = stop" ?pos] by (simp add: getword_def Let_def)
  have res: "res = takeWhile (\<lambda>c. c \<noteq> stop) line" using assms by (simp add: getword_def Let_def)
  have "line = res @ ?pos" by (simp add: res)
  moreover have "stop \<notin> set res" using res by (auto dest: set_takeWhileD)
  moreover have "rest \<noteq> [] \<longrightarrow> hd rest \<noteq> stop"
    using assms hd_dropWhile_not [of "\<lambda>c. c = stop" ?pos] by (auto simp: getword_def Let_def)
  moreover have "k = 0 \<longrightarrow> rest = []"
  proof
    assume "k = 0"
    show "rest = []"
    proof (rule ccontr)
      assume "rest \<noteq> []"
      then have "hd ?pos \<noteq> stop" "?pos \<noteq> []"
        using pos \<open>k = 0\<close> \<open>rest \<noteq> [] \<longrightarrow> hd rest \<noteq> stop\<close> by auto
      with hd_dropWhile_not [of "\<lambda>c. c \<noteq> stop" line] show False by auto
    qed
  qed
  ultimately show ?thesis using pos by metis
qed

text \<open>
  \<open>ap_getword\<close> splits a line at a run of the stop character: the line is the word, the
  run and the rest; the word has no stop character, the rest does not start with one, and the
  run is empty only at the end of the line. Hence the loop over a list of words ends.
\<close>

theorem getword_correct:
  assumes "stop \<noteq> NUL"
  shows "\<exists>k. line = fst (getword line stop) @ replicate k stop @ snd (getword line stop) \<and>
    stop \<notin> set (fst (getword line stop)) \<and>
    (snd (getword line stop) = [] \<or> hd (snd (getword line stop)) \<noteq> stop) \<and>
    (line = [] \<or> length (snd (getword line stop)) < length line)"
proof -
  obtain k where k: "line = fst (getword line stop) @ replicate k stop @ snd (getword line stop)"
    "stop \<notin> set (fst (getword line stop))"
    "snd (getword line stop) \<noteq> [] \<longrightarrow> hd (snd (getword line stop)) \<noteq> stop"
    "k = 0 \<longrightarrow> snd (getword line stop) = []"
    using getword_split [of line stop] assms by (metis prod.collapse)
  have "length line = length (fst (getword line stop)) + k + length (snd (getword line stop))"
    using k(1) by (metis add.assoc length_append length_replicate)
  then have "line = [] \<or> length (snd (getword line stop)) < length line"
    using k(4) by (cases "k = 0") auto
  with k show ?thesis by blast
qed

theorem getword_correct_witness:
  "\<exists>k. ''a,,b'' = fst (getword ''a,,b'' (CHR '','')) @ replicate k (CHR '','') @ snd (getword ''a,,b'' (CHR '','')) \<and>
    CHR '','' \<notin> set (fst (getword ''a,,b'' (CHR '',''))) \<and>
    (snd (getword ''a,,b'' (CHR '','')) = [] \<or> hd (snd (getword ''a,,b'' (CHR '',''))) \<noteq> CHR '','') \<and>
    (''a,,b'' = ''''  \<or> length (snd (getword ''a,,b'' (CHR '',''))) < length ''a,,b'')"
  by (rule getword_correct) simp

section \<open>Words of a configuration line\<close>

text \<open>
  \<open>substring_conf\<close>: \<open>len\<close> counts the characters still to be read; the character after a
  backslash is looked at even when it is the one after the substring.
\<close>

fun substring_conf :: "cstring \<Rightarrow> nat \<Rightarrow> char \<Rightarrow> cstring" where
  "substring_conf s 0 quote = []"
| "substring_conf [] (Suc n) quote = []"
| "substring_conf (c # s) (Suc n) quote =
     (if c = BSLASH \<and> (cget s 0 = BSLASH \<or> (quote \<noteq> NUL \<and> cget s 0 = quote))
      then cget s 0 # substring_conf (tl s) (n - 1) quote
      else c # substring_conf s n quote)"

text \<open>The length of the quoted part: the scan of \<open>strend\<close> in the quoted case.\<close>

fun conf_quoted_len :: "char \<Rightarrow> cstring \<Rightarrow> nat" where
  "conf_quoted_len quote [] = 0"
| "conf_quoted_len quote [c] = (if c = quote then 0 else 1)"
| "conf_quoted_len quote (c # d # s) =
     (if c = quote then 0
      else if c = BSLASH \<and> (d = quote \<or> d = BSLASH) then 2 + conf_quoted_len quote s
      else 1 + conf_quoted_len quote (d # s))"

definition getword_conf :: "cstring \<Rightarrow> cstring \<times> cstring" where
  "getword_conf line =
     (let str = dropWhile c_isspace line
      in if str = [] then ([], str)
         else
           (let quote = hd str;
                (res, strend) =
                  (if quote = DQUOTE \<or> quote = SQUOTE then
                     (let n = conf_quoted_len quote (tl str);
                          strend = drop n (tl str)
                      in (substring_conf (tl str) n quote,
                          if cget strend 0 = quote then tl strend else strend))
                   else
                     (let n = length (takeWhile (\<lambda>c. \<not> c_isspace c) str)
                      in (substring_conf str n NUL, drop n str)))
            in (res, dropWhile c_isspace strend)))"

text \<open>The quoted form of a word: a backslash before each quote and each backslash.\<close>

definition conf_escape :: "char \<Rightarrow> cstring \<Rightarrow> cstring" where
  "conf_escape quote w = concat (map (\<lambda>c. if c = quote \<or> c = BSLASH then [BSLASH, c] else [c]) w)"

lemma conf_escape_Cons:
  "conf_escape q (c # w) = (if c = q \<or> c = BSLASH then [BSLASH, c] else [c]) @ conf_escape q w"
  "conf_escape q [] = []"
  by (auto simp: conf_escape_def)

lemma conf_quoted_len_escape:
  "q \<noteq> BSLASH \<Longrightarrow> conf_quoted_len q (conf_escape q w @ q # rest) = length (conf_escape q w)"
proof (induction w)
  case Nil
  then show ?case by (cases rest) (simp_all add: conf_escape_Cons)
next
  case (Cons c w)
  show ?case
  proof (cases "c = q \<or> c = BSLASH")
    case False
    obtain d t where dt: "conf_escape q w @ q # rest = d # t"
      by (cases "conf_escape q w") auto
    have "conf_escape q (c # w) @ q # rest = c # d # t"
      using False dt by (simp add: conf_escape_Cons)
    with Cons False dt show ?thesis by (simp add: conf_escape_Cons)
  qed (use Cons in \<open>auto simp: conf_escape_Cons\<close>)
qed

lemma substring_conf_escape:
  "q \<noteq> NUL \<Longrightarrow> substring_conf (conf_escape q w @ rest) (length (conf_escape q w)) q = w"
  by (induction w) (auto simp: conf_escape_Cons)

text \<open>
  Every word can be written in a configuration file: \<open>ap_getword_conf\<close> reads the quoted
  form of any word, in double or in single quotes, back as that word and stops at the next
  word.
\<close>

theorem getword_conf_quoted:
  assumes "quote = DQUOTE \<or> quote = SQUOTE"
  shows "getword_conf (quote # conf_escape quote w @ quote # rest) = (w, dropWhile c_isspace rest)"
proof -
  have q: "\<not> c_isspace quote" "quote \<noteq> NUL" "quote \<noteq> BSLASH"
    using assms by (auto simp: c_class_defs)
  with assms conf_quoted_len_escape [of quote w rest] substring_conf_escape [of quote w "quote # rest"]
  show ?thesis by (simp add: getword_conf_def Let_def)
qed

theorem getword_conf_quoted_witness:
  "getword_conf (DQUOTE # conf_escape DQUOTE [CHR ''a'', CHR '' '', DQUOTE, BSLASH] @ DQUOTE # '' on'') =
     ([CHR ''a'', CHR '' '', DQUOTE, BSLASH], dropWhile c_isspace '' on'')"
  by (rule getword_conf_quoted) simp

lemma getword_conf_decreases: "line \<noteq> [] \<Longrightarrow> length (snd (getword_conf line)) < length line"
proof -
  assume "line \<noteq> []"
  let ?s = "dropWhile c_isspace line"
  show ?thesis
  proof (cases ?s)
    case Nil
    then have "getword_conf line = ([], [])" by (simp only: getword_conf_def Let_def Nil list.case if_True)
    with \<open>line \<noteq> []\<close> show ?thesis by simp
  next
    case (Cons c t)
    have lt: "length t < length line" using dropWhile_Cons_less [OF Cons] .
    have nsp: "\<not> c_isspace c" using dropWhile_Cons_not [OF Cons] .
    obtain res strend where rs: "(if c = DQUOTE \<or> c = SQUOTE then
          (let n = conf_quoted_len c t; strend = drop n t
           in (substring_conf t n c, if cget strend 0 = c then tl strend else strend))
        else
          (let n = length (takeWhile (\<lambda>c. \<not> c_isspace c) (c # t))
           in (substring_conf (c # t) n NUL, drop n (c # t)))) = (res, strend)"
      by (rule prod.exhaust)
    have res: "snd (getword_conf line) = dropWhile c_isspace strend"
      unfolding getword_conf_def Let_def
      using rs by (simp only: Cons list.sel list.distinct if_False Let_def prod.case snd_conv)
    have "length strend \<le> length t"
    proof (cases "c = DQUOTE \<or> c = SQUOTE")
      case True
      with rs have "strend = (if cget (drop (conf_quoted_len c t) t) 0 = c
          then tl (drop (conf_quoted_len c t) t) else drop (conf_quoted_len c t) t)"
        by (simp only: if_True Let_def prod.inject)
      then show ?thesis by (simp split: if_split)
    next
      case False
      with rs have "strend = drop (length (takeWhile (\<lambda>c. \<not> c_isspace c) (c # t))) (c # t)"
        by (simp only: if_False Let_def prod.inject)
      then show ?thesis using nsp by simp
    qed
    then have "length (snd (getword_conf line)) \<le> length t"
      unfolding res by (rule le_trans [OF dropWhile_length])
    with lt show ?thesis by simp
  qed
qed

section \<open>Environment variables in a configuration word\<close>

text \<open>
  \<open>ap_resolve_env\<close> collects pieces of the result in a list and joins them; \<open>getenv\<close> is a
  parameter. \<open>resolve_loop\<close> is the \<open>do ... while\<close> loop at the pointer \<open>s\<close>.
\<close>

function (sequential) resolve_loop :: "(cstring \<Rightarrow> cstring option) \<Rightarrow> cstring \<Rightarrow> cstring" where
  "resolve_loop getenv [] = []"
| "resolve_loop getenv (c # s) =
     (if c = CHR ''$'' then
        (case (if cget s 0 = CHR ''{'' then strchr (c # s) (CHR ''}'') else None) of
           Some e \<Rightarrow>
             (case getenv (take (e - 2) (drop 2 (c # s))) of
                Some word \<Rightarrow> word
              | None \<Rightarrow> take (e + 1) (c # s))
             @ resolve_loop getenv (drop (e + 1) (c # s))
         | None \<Rightarrow> c # resolve_loop getenv s)
      else
        takeWhile (\<lambda>x. x \<noteq> CHR ''$'') (c # s) @
        resolve_loop getenv (dropWhile (\<lambda>x. x \<noteq> CHR ''$'') (c # s)))"
  by pat_completeness auto
termination
  by (relation "measure (\<lambda>(g, s). length s)") (auto simp: le_imp_less_Suc)

definition resolve_env :: "(cstring \<Rightarrow> cstring option) \<Rightarrow> cstring \<Rightarrow> cstring" where
  "resolve_env getenv word =
     (case strchr word (CHR ''$'') of
        None \<Rightarrow> word
      | Some s \<Rightarrow> take s word @ resolve_loop getenv (drop s word))"

lemma resolve_loop_plain: "CHR ''$'' \<notin> set u \<Longrightarrow> resolve_loop g (u @ s) = u @ resolve_loop g s"
proof (cases "u = []")
  case False
  assume nod: "CHR ''$'' \<notin> set u"
  then obtain c t where u: "u = c # t" "c \<noteq> CHR ''$''" "CHR ''$'' \<notin> set t" using False by (cases u) auto
  then have d: "dropWhile (\<lambda>x. x \<noteq> CHR ''$'') (t @ s) = dropWhile (\<lambda>x. x \<noteq> CHR ''$'') s"
    and tk: "takeWhile (\<lambda>x. x \<noteq> CHR ''$'') (t @ s) = t @ takeWhile (\<lambda>x. x \<noteq> CHR ''$'') s"
    by (auto intro: dropWhile_append2 takeWhile_append2)
  have "resolve_loop g (u @ s) = u @ takeWhile (\<lambda>x. x \<noteq> CHR ''$'') s @ resolve_loop g (dropWhile (\<lambda>x. x \<noteq> CHR ''$'') s)"
    using u d tk by simp
  also have "takeWhile (\<lambda>x. x \<noteq> CHR ''$'') s @ resolve_loop g (dropWhile (\<lambda>x. x \<noteq> CHR ''$'') s) = resolve_loop g s"
    by (cases s) auto
  finally show ?thesis .
qed simp

lemma resolve_env_eq: "resolve_env g word = resolve_loop g word"
proof (cases "strchr word (CHR ''$'')")
  case None
  then have "CHR ''$'' \<notin> set word" by (simp add: strchr_None)
  with resolve_loop_plain [of word g "[]"] None show ?thesis by (simp add: resolve_env_def)
next
  case (Some i)
  from strchr_SomeD [OF Some] have "CHR ''$'' \<notin> set (take i word)" by simp
  with resolve_loop_plain [of "take i word" g "drop i word"] Some show ?thesis
    by (simp add: resolve_env_def)
qed

lemma resolve_loop_unset: "(\<And>x. g x = None) \<Longrightarrow> resolve_loop g s = s"
proof (induction g s rule: resolve_loop.induct)
  case (2 g c s)
  then show ?case by (auto split: option.splits if_splits)
qed simp

lemma resolve_loop_ref:
  assumes "CHR ''}'' \<notin> set x"
  shows "resolve_loop g (''${'' @ x @ CHR ''}'' # v) =
    (case g x of Some w \<Rightarrow> w | None \<Rightarrow> ''${'' @ x @ ''}'') @ resolve_loop g v"
proof -
  have "strchr (x @ CHR ''}'' # v) (CHR ''}'') = Some (length x)"
    using assms by (induction x) auto
  then have "strchr (''${'' @ x @ CHR ''}'' # v) (CHR ''}'') = Some (length x + 2)" by simp
  then show ?thesis by (simp split: option.split)
qed

text \<open>
  \<open>ap_resolve_env\<close> replaces exactly the references: text before the first dollar sign is
  kept, a reference \<open>${x}\<close> becomes the value of \<open>x\<close> or stays as it is when \<open>x\<close> is not set,
  and the rest is treated the same way.
\<close>

theorem resolve_env_reference:
  assumes "CHR ''$'' \<notin> set u" "CHR ''}'' \<notin> set x"
  shows "resolve_env getenv (u @ ''${'' @ x @ CHR ''}'' # v) =
    u @ (case getenv x of Some w \<Rightarrow> w | None \<Rightarrow> ''${'' @ x @ ''}'') @ resolve_env getenv v"
  using resolve_loop_plain [OF assms(1)] resolve_loop_ref [OF assms(2)] by (simp add: resolve_env_eq)

theorem resolve_env_reference_witness:
  "resolve_env [''HOME'' \<mapsto> ''/root''] (''a'' @ ''${'' @ ''HOME'' @ CHR ''}'' # ''/b'') =
    ''a'' @ (case [''HOME'' \<mapsto> ''/root''] ''HOME'' of Some w \<Rightarrow> w | None \<Rightarrow> ''${'' @ ''HOME'' @ ''}'') @
    resolve_env [''HOME'' \<mapsto> ''/root''] ''/b''"
  by (rule resolve_env_reference) simp_all

section \<open>Small helpers\<close>

fun noparam_trim :: "cstring \<Rightarrow> nat \<Rightarrow> nat" where
  "noparam_trim intype 0 = 0"
| "noparam_trim intype (Suc semi) =
     (if c_isspace (intype ! semi) then noparam_trim intype semi else Suc semi)"

definition field_noparam :: "cstring option \<Rightarrow> cstring option" where
  "field_noparam intype =
     (case intype of
        None \<Rightarrow> None
      | Some t \<Rightarrow>
          (case strchr t (CHR '';'') of
             None \<Rightarrow> Some t
           | Some semi \<Rightarrow> Some (take (noparam_trim t semi) t)))"

fun is_url_scan :: "cstring \<Rightarrow> nat \<Rightarrow> int" where
  "is_url_scan [] x = 0"
| "is_url_scan (c # u) x =
     (if c = CHR '':'' then (if x \<noteq> 0 then 1 else 0)
      else if \<not> c_isalpha c \<and> \<not> c_isdigit c \<and> c \<noteq> CHR ''+'' \<and> c \<noteq> CHR ''-'' \<and> c \<noteq> CHR ''.'' then 0
      else is_url_scan u (x + 1))"

definition is_url :: "cstring \<Rightarrow> int" where
  "is_url u = is_url_scan u 0"

definition ind :: "cstring \<Rightarrow> char \<Rightarrow> int" where
  "ind s c = (case strchr s c of None \<Rightarrow> - 1 | Some i \<Rightarrow> int i)"

definition rind :: "cstring \<Rightarrow> char \<Rightarrow> int" where
  "rind s c = (case strrchr s c of None \<Rightarrow> - 1 | Some i \<Rightarrow> int i)"

fun str_tolower :: "cstring \<Rightarrow> cstring" where
  "str_tolower [] = []"
| "str_tolower (c # str) = c_tolower c # str_tolower str"

definition content_type_tolower :: "cstring \<Rightarrow> cstring" where
  "content_type_tolower str =
     (case strchr str (CHR '';'') of
        None \<Rightarrow> str_tolower str
      | Some semi \<Rightarrow> str_tolower (take semi str) @ CHR '';'' # drop (semi + 1) str)"

lemma str_tolower_map: "str_tolower s = map c_tolower s"
  by (induction s) auto

lemma noparam_trim_le: "noparam_trim t n \<le> n"
  by (induction n) auto

lemma noparam_trim_last: "0 < noparam_trim t n \<Longrightarrow> \<not> c_isspace (t ! (noparam_trim t n - 1))"
  by (induction n) (auto split: if_splits)

lemma content_type_params_kept:
  "CHR '';'' \<notin> set t \<Longrightarrow> content_type_tolower (t @ CHR '';'' # ps) = map c_tolower t @ CHR '';'' # ps"
proof -
  assume "CHR '';'' \<notin> set t"
  then have "strchr (t @ CHR '';'' # ps) (CHR '';'') = Some (length t)" by (induction t) auto
  then show ?thesis by (simp add: content_type_tolower_def str_tolower_map)
qed

end
