(* ===== verification/Util_Escape.thy ===== *)
theory Util_Escape
  imports Test_Char
begin

text \<open>
  Escaping and unescaping of \<^verbatim>\<open>server/util.c\<close> (an ASCII build): the URL routines
  \<open>ap_unescape_url\<close>, \<open>ap_unescape_url_keep2f_ex\<close>, \<open>ap_escape_path_segment\<close> and
  \<open>ap_os_escape_path\<close> with \<open>c2x\<close> and \<open>x2c\<close>, the output routines \<open>ap_escape_html2\<close>,
  \<open>ap_escape_logitem\<close>, \<open>ap_escape_errorlog_item\<close>, \<open>ap_escape_shell_cmd\<close> and
  \<open>ap_escape_quotes\<close>. An encoder and its decoder meet in the locale \<open>codec\<close>.
\<close>

section \<open>Hexadecimal pairs\<close>

definition c2x_digit :: "nat \<Rightarrow> char" where
  "c2x_digit n = ''0123456789abcdef'' ! n"

definition c2x :: "char \<Rightarrow> char \<Rightarrow> cstring" where
  "c2x what prefix = [prefix, c2x_digit (ccode what div 16), c2x_digit (ccode what mod 16)]"

text \<open>
  \<open>x2c\<close> computes in \<open>int\<close> on signed characters and stores the result in a \<open>char\<close>,
  which keeps it modulo 256.
\<close>

definition schar :: "char \<Rightarrow> int" where
  "schar c = (if ccode c < 128 then int (ccode c) else int (ccode c) - 256)"

definition x2c_digit :: "char \<Rightarrow> int" where
  "x2c_digit c = (if schar c \<ge> 65 then ((schar c AND 0xdf) - 65) + 10 else schar c - 48)"

definition x2c :: "char \<Rightarrow> char \<Rightarrow> char" where
  "x2c what0 what1 = char_of (nat ((x2c_digit what0 * 16 + x2c_digit what1) mod 256))"

lemma c2x_digit_cases: "n < 16 \<Longrightarrow> x2c_digit (c2x_digit n) = int n \<and> c_isxdigit (c2x_digit n)"
proof -
  assume "n < 16"
  then have "n \<in> set [0..<16]" by simp
  moreover have "list_all (\<lambda>n. x2c_digit (c2x_digit n) = int n \<and> c_isxdigit (c2x_digit n)) [0..<16]"
    by code_simp
  ultimately show ?thesis by (auto simp only: list_all_iff)
qed

lemma c2x_xdigits:
  "c_isxdigit (c2x_digit (ccode c div 16))" "c_isxdigit (c2x_digit (ccode c mod 16))"
proof -
  have "ccode c div 16 < 16" using ccode_less [of c] by linarith
  then show "c_isxdigit (c2x_digit (ccode c div 16))" "c_isxdigit (c2x_digit (ccode c mod 16))"
    using c2x_digit_cases by simp_all
qed

lemma x2c_c2x: "x2c (c2x_digit (ccode c div 16)) (c2x_digit (ccode c mod 16)) = c"
proof -
  have "ccode c div 16 < 16" using ccode_less [of c] by linarith
  then have "x2c_digit (c2x_digit (ccode c div 16)) * 16 + x2c_digit (c2x_digit (ccode c mod 16)) = int (ccode c)"
    using c2x_digit_cases by (simp add: zdiv_int zmod_int)
  then show ?thesis by (simp add: x2c_def)
qed

section \<open>Unescaping\<close>

abbreviation OK :: int where "OK \<equiv> 0"
abbreviation HTTP_BAD_REQUEST :: int where "HTTP_BAD_REQUEST \<equiv> 400"
abbreviation HTTP_NOT_FOUND :: int where "HTTP_NOT_FOUND \<equiv> 404"

text \<open>
  \<open>ap_unescape_url\<close>. The writing pointer \<open>x\<close> never passes the reading pointer \<open>y\<close>, so
  the loop is a recursion on what \<open>y\<close> still reads that yields the bytes written and the two
  flags. The result is the status and the buffer.
\<close>

fun unescape_loop :: "cstring \<Rightarrow> cstring \<times> bool \<times> bool" where
  "unescape_loop [] = ([], False, False)"
| "unescape_loop (c # y) =
     (if c \<noteq> CHR ''%'' then
        (let (out, badesc, badpath) = unescape_loop y in (c # out, badesc, badpath))
      else if \<not> c_isxdigit (cget y 0) \<or> \<not> c_isxdigit (cget y 1) then
        (let (out, badesc, badpath) = unescape_loop y in (CHR ''%'' # out, True, badpath))
      else
        (let x = x2c (cget y 0) (cget y 1);
             (out, badesc, badpath) = unescape_loop (drop 2 y)
         in (x # out, badesc, badpath \<or> x = CHR ''/'' \<or> x = NUL)))"

definition unescape_url :: "cstring \<Rightarrow> int \<times> cstring" where
  "unescape_url url =
     (if CHR ''%'' \<notin> set url then (OK, url)
      else (let (out, badesc, badpath) = unescape_loop url
            in (if badesc then HTTP_BAD_REQUEST else if badpath then HTTP_NOT_FOUND else OK, out)))"

text \<open>
  \<open>ap_unescape_url_keep2f_ex\<close>. When \<open>%00\<close> is decoded the code moves both pointers one
  byte on without writing, so the byte of the original buffer at \<open>x\<close> stays: the argument
  \<open>url\<close> is that buffer.
\<close>

fun keep2f_loop :: "bool \<Rightarrow> cstring \<Rightarrow> nat \<Rightarrow> cstring \<Rightarrow> cstring \<times> bool \<times> bool" where
  "keep2f_loop decode_2f url x [] = ([], False, False)"
| "keep2f_loop decode_2f url x (c # y) =
     (if c \<noteq> CHR ''%'' then
        (let (out, badesc, badpath) = keep2f_loop decode_2f url (x + 1) y in (c # out, badesc, badpath))
      else if \<not> c_isxdigit (cget y 0) \<or> \<not> c_isxdigit (cget y 1) then
        (let (out, badesc, badpath) = keep2f_loop decode_2f url (x + 1) y in (CHR ''%'' # out, True, badpath))
      else
        (let decoded = x2c (cget y 0) (cget y 1)
         in if decoded = NUL then
              (let (out, badesc, badpath) = keep2f_loop decode_2f url (x + 1) y
               in (cget url x # out, badesc, True))
            else if decoded = CHR ''/'' \<and> \<not> decode_2f then
              (let (out, badesc, badpath) = keep2f_loop decode_2f url (x + 1) y
               in (c # out, badesc, badpath))
            else
              (let (out, badesc, badpath) = keep2f_loop decode_2f url (x + 1) (drop 2 y)
               in (decoded # out, badesc, badpath))))"

definition unescape_url_keep2f_ex :: "cstring \<Rightarrow> bool \<Rightarrow> int \<times> cstring" where
  "unescape_url_keep2f_ex url decode_2f =
     (if CHR ''%'' \<notin> set url then (OK, url)
      else (let (out, badesc, badpath) = keep2f_loop decode_2f url 0 url
            in (if badesc then HTTP_BAD_REQUEST else if badpath then HTTP_NOT_FOUND else OK, out)))"

definition unescape_url_keep2f :: "cstring \<Rightarrow> int \<times> cstring" where
  "unescape_url_keep2f url = unescape_url_keep2f_ex url True"

section \<open>Escaping of paths\<close>

fun escape_path_segment :: "cstring \<Rightarrow> cstring" where
  "escape_path_segment [] = []"
| "escape_path_segment (c # s) =
     (if TEST_CHAR c T_ESCAPE_PATH_SEGMENT then c2x c (CHR ''%'') else [c]) @ escape_path_segment s"

fun os_escape_loop :: "cstring \<Rightarrow> cstring" where
  "os_escape_loop [] = []"
| "os_escape_loop (c # s) =
     (if TEST_CHAR c T_OS_ESCAPE_PATH then c2x c (CHR ''%'') else [c]) @ os_escape_loop s"

definition os_escape_path :: "cstring \<Rightarrow> bool \<Rightarrow> cstring" where
  "os_escape_path path partial =
     (let d = (if partial then []
               else (case strchr path (CHR '':'') of
                       None \<Rightarrow> []
                     | Some colon \<Rightarrow>
                         (case strchr path (CHR ''/'') of
                            None \<Rightarrow> ''./''
                          | Some slash \<Rightarrow> if colon < slash then ''./'' else [])))
      in d @ os_escape_loop path)"

text \<open>The contract of an encoder and its decoder on the inputs for which it holds.\<close>

locale codec =
  fixes enc :: "cstring \<Rightarrow> cstring"
    and dec :: "cstring \<Rightarrow> int \<times> cstring"
    and valid :: "cstring \<Rightarrow> bool"
  assumes dec_enc: "valid s \<Longrightarrow> dec (enc s) = (OK, s)"
begin

lemma enc_inj: "valid s \<Longrightarrow> valid t \<Longrightarrow> enc s = enc t \<Longrightarrow> s = t"
  by (metis dec_enc prod.inject)

lemma dec_status: "valid s \<Longrightarrow> fst (dec (enc s)) = OK"
  by (simp add: dec_enc)

lemma dec_value: "valid s \<Longrightarrow> snd (dec (enc s)) = s"
  by (simp add: dec_enc)

end

lemma unescape_loop_c2x:
  "unescape_loop (c2x c (CHR ''%'') @ s) =
     (let (out, badesc, badpath) = unescape_loop s
      in (c # out, badesc, badpath \<or> c = CHR ''/'' \<or> c = NUL))"
  by (simp add: c2x_def c2x_xdigits x2c_c2x Let_def)

lemma slash_is_escaped: "is_segment_escape (CHR ''/'')"
  by (simp add: is_segment_escape_def segment_plain_def c_class_defs)

lemma unescape_escape_segment:
  "nul_free s \<Longrightarrow> CHR ''/'' \<notin> set s \<Longrightarrow> unescape_loop (escape_path_segment s) = (s, False, False)"
proof (induction s)
  case (Cons c s)
  then show ?case
    by (cases "is_segment_escape c") (auto simp: unescape_loop_c2x)
qed simp

lemma escape_segment_no_percent: "CHR ''%'' \<notin> set (escape_path_segment s) \<Longrightarrow> escape_path_segment s = s"
  by (induction s) (auto simp: c2x_def)

lemma os_escape_no_percent: "CHR ''%'' \<notin> set (os_escape_loop s) \<Longrightarrow> os_escape_loop s = s"
  by (induction s) (auto simp: c2x_def)

lemma slash_is_plain: "\<not> is_os_path_escape (CHR ''/'')"
  by (simp add: is_os_path_escape_def os_path_plain_def c_class_defs)

lemma unescape_os_escape:
  "nul_free s \<Longrightarrow> unescape_loop (os_escape_loop s) = (s, False, False)"
proof (induction s)
  case (Cons c s)
  then show ?case
    by (cases "is_os_path_escape c") (auto simp: unescape_loop_c2x slash_is_plain)
qed simp

lemma unescape_url_segment:
  "nul_free s \<Longrightarrow> CHR ''/'' \<notin> set s \<Longrightarrow> unescape_url (escape_path_segment s) = (OK, s)"
  using escape_segment_no_percent [of s] unescape_escape_segment [of s] by (auto simp: unescape_url_def)

lemma unescape_url_os_path:
  "nul_free s \<Longrightarrow> unescape_url (os_escape_path s True) = (OK, s)"
  using os_escape_no_percent [of s] unescape_os_escape [of s]
  by (auto simp: unescape_url_def os_escape_path_def)

interpretation segment_codec: codec escape_path_segment unescape_url
  "\<lambda>s. nul_free s \<and> CHR ''/'' \<notin> set s"
  by unfold_locales (simp add: unescape_url_segment)

interpretation os_path_codec: codec "\<lambda>s. os_escape_path s True" unescape_url nul_free
  by unfold_locales (simp add: unescape_url_os_path)

text \<open>
  \<open>ap_unescape_url\<close> undoes \<open>ap_escape_path_segment\<close>: for a segment (a C string
  without a slash) it succeeds and gives the segment back.
\<close>

theorem segment_roundtrip:
  "nul_free s \<Longrightarrow> CHR ''/'' \<notin> set s \<Longrightarrow> unescape_url (escape_path_segment s) = (OK, s)"
  by (intro segment_codec.dec_enc conjI)

theorem segment_roundtrip_witness:
  "unescape_url (escape_path_segment ''a b%?;c'') = (OK, ''a b%?;c'') \<and>
   escape_path_segment ''a b%?;c'' = ''a%20b%25%3f%3bc''"
  by (intro conjI segment_roundtrip) (simp_all, code_simp)

text \<open>
  \<open>ap_unescape_url\<close> undoes \<open>ap_os_escape_path\<close> on every path, slashes included
  (with \<open>partial\<close> set, so that no \<open>./\<close> is put in front).
\<close>

theorem os_path_roundtrip:
  "nul_free path \<Longrightarrow> unescape_url (os_escape_path path True) = (OK, path)"
  by (rule os_path_codec.dec_enc)

theorem os_path_roundtrip_witness:
  "unescape_url (os_escape_path ''/a b/100%'' True) = (OK, ''/a b/100%'')"
  by (rule os_path_roundtrip) simp

section \<open>No separator is smuggled in\<close>

lemma xdigit_not_slash: "c_isxdigit c \<Longrightarrow> c \<noteq> CHR ''/'' \<and> c \<noteq> NUL"
  by (auto simp: c_class_defs)

lemma unescape_loop_slashes:
  "unescape_loop s = (out, False, False) \<Longrightarrow> nul_free s \<Longrightarrow>
   nul_free out \<and> count_list out (CHR ''/'') = count_list s (CHR ''/'')"
proof (induction s arbitrary: out rule: unescape_loop.induct)
  case (2 c y)
  show ?case
  proof (cases "c \<noteq> CHR ''%''")
    case True
    then obtain out' where "unescape_loop y = (out', False, False)" "out = c # out'"
      using "2.prems"(1) by (auto split: prod.splits)
    with "2.IH"(1) [OF True] "2.prems"(2) True show ?thesis by simp
  next
    case pc: False
    then have hex: "c_isxdigit (cget y 0)" "c_isxdigit (cget y 1)"
      using "2.prems"(1) by (auto split: prod.splits if_splits)
    then have y: "y = cget y 0 # cget y 1 # drop 2 y"
      using xdigit_not_slash [of "cget y 0"] xdigit_not_slash [of "cget y 1"]
      by (cases y; cases "tl y") auto
    define x where "x = x2c (cget y 0) (cget y 1)"
    obtain out' where out': "unescape_loop (drop 2 y) = (out', False, False)" "out = x # out'" "x \<noteq> CHR ''/''" "x \<noteq> NUL"
      using "2.prems"(1) pc hex by (auto simp: x_def Let_def split: prod.splits)
    have "nul_free (drop 2 y)" using "2.prems"(2) by auto
    with "2.IH"(3) [OF _ _ _ out'(1)] pc hex out' have
      "nul_free out' \<and> count_list out' (CHR ''/'') = count_list (drop 2 y) (CHR ''/'')" by auto
    moreover have "count_list y (CHR ''/'') = count_list (drop 2 y) (CHR ''/'')"
      using xdigit_not_slash [OF hex(1)] xdigit_not_slash [OF hex(2)] by (subst y) simp
    ultimately show ?thesis using out' pc by simp
  qed
qed simp

text \<open>
  C15. When \<open>ap_unescape_url\<close> succeeds, decoding has introduced neither a NUL nor a path
  separator: the result is a C string with as many slashes as the URL had literally.
\<close>

theorem unescape_url_no_new_slash:
  assumes "unescape_url url = (OK, out)" "nul_free url"
  shows "nul_free out \<and> count_list out (CHR ''/'') = count_list url (CHR ''/'')"
  using assms unescape_loop_slashes [of url out]
  by (auto simp: unescape_url_def split: if_splits prod.splits)

theorem unescape_url_no_new_slash_witness:
  "unescape_url ''/a%20b/c'' = (OK, ''/a b/c'') \<and> nul_free ''/a b/c'' \<and>
   count_list ''/a b/c'' (CHR ''/'') = count_list ''/a%20b/c'' (CHR ''/'')"
proof -
  have run: "unescape_url ''/a%20b/c'' = (OK, ''/a b/c'')" by code_simp
  from unescape_url_no_new_slash [OF run] run show ?thesis by simp
qed

section \<open>Escaping of output\<close>

text \<open>\<open>ap_escape_html2\<close>: the counting pass (\<open>j\<close>) and the copying pass.\<close>

fun html_extra :: "bool \<Rightarrow> cstring \<Rightarrow> nat" where
  "html_extra toasc [] = 0"
| "html_extra toasc (c # s) =
     (if c = CHR ''<'' \<or> c = CHR ''>'' then 3
      else if c = CHR ''&'' then 4
      else if c = DQUOTE then 5
      else if toasc \<and> \<not> c_isascii c then 5
      else 0) + html_extra toasc s"

definition html_numeric :: "char \<Rightarrow> cstring" where
  "html_numeric c = ''&#'' @ [char_of (48 + ccode c div 100), char_of (48 + ccode c div 10 mod 10),
     char_of (48 + ccode c mod 10)] @ '';''"

fun html_fill :: "bool \<Rightarrow> cstring \<Rightarrow> cstring" where
  "html_fill toasc [] = []"
| "html_fill toasc (c # s) =
     (if c = CHR ''<'' then ''&lt;''
      else if c = CHR ''>'' then ''&gt;''
      else if c = CHR ''&'' then ''&amp;''
      else if c = DQUOTE then ''&quot;''
      else if toasc \<and> \<not> c_isascii c then html_numeric c
      else [c]) @ html_fill toasc s"

definition escape_html2 :: "cstring \<Rightarrow> bool \<Rightarrow> cstring" where
  "escape_html2 s toasc = (if html_extra toasc s = 0 then s else html_fill toasc s)"

lemma html_fill_length: "length (html_fill toasc s) = length s + html_extra toasc s"
  by (induction s) (auto simp: html_numeric_def)

lemma html_fill_none: "html_extra toasc s = 0 \<Longrightarrow> html_fill toasc s = s"
  by (induction s) (auto split: if_splits)

lemma html_numeric_safe: "set (html_numeric c) \<inter> {CHR ''<'', CHR ''>'', DQUOTE} = {}"
proof -
  have d: "char_of (48 + n) \<notin> {CHR ''<'', CHR ''>'', DQUOTE}" if "n < 10" for n :: nat
  proof -
    have "n \<in> set [0..<10]" using that by simp
    moreover have "list_all (\<lambda>n. char_of (48 + n) \<notin> set [CHR ''<'', CHR ''>'', DQUOTE]) [0..<10::nat]"
      by code_simp
    ultimately show ?thesis by (auto simp only: list_all_iff list.set)
  qed
  have "ccode c div 100 < 10" using ccode_less [of c] by linarith
  then show ?thesis using d [of "ccode c div 100"] d [of "ccode c div 10 mod 10"] d [of "ccode c mod 10"]
    by (auto simp: html_numeric_def)
qed

lemma html_fill_safe: "set (html_fill toasc s) \<inter> {CHR ''<'', CHR ''>'', DQUOTE} = {}"
  using html_numeric_safe by (induction s) auto

text \<open>
  C15. The text \<open>ap_escape_html2\<close> returns has no markup left (no angle bracket and no double
  quote) and fills exactly the bytes its counting pass allocated.
\<close>

theorem escape_html2_safe:
  "set (escape_html2 s toasc) \<inter> {CHR ''<'', CHR ''>'', DQUOTE} = {} \<and>
   length (escape_html2 s toasc) = length s + html_extra toasc s"
  using html_fill_safe [of toasc s] html_fill_length [of toasc s] html_fill_none [of toasc s]
  by (auto simp: escape_html2_def)

text \<open>\<open>ap_escape_logitem\<close> and the bounded \<open>ap_escape_errorlog_item\<close>.\<close>

fun escape_logitem :: "cstring \<Rightarrow> cstring" where
  "escape_logitem [] = []"
| "escape_logitem (c # s) =
     (if TEST_CHAR c T_ESCAPE_LOGITEM then
        BSLASH #
        (if c = CHR 0x08 then ''b''
         else if c = LF then ''n''
         else if c = CR then ''r''
         else if c = TAB then ''t''
         else if c = CHR 0x0B then ''v''
         else if c = BSLASH \<or> c = DQUOTE then [c]
         else c2x c (CHR ''x''))
      else [c]) @ escape_logitem s"

text \<open>
  In \<open>ap_escape_errorlog_item\<close> the bytes written so far are \<open>dest\<close>, so \<open>d\<close> is its
  length; \<open>ep\<close> is \<open>buflen - 1\<close>. The two early exits leave the loop with the backslash
  taken back.
\<close>

fun errorlog_loop :: "nat \<Rightarrow> cstring \<Rightarrow> cstring \<Rightarrow> cstring" where
  "errorlog_loop ep dest [] = dest"
| "errorlog_loop ep dest (c # s) =
     (if \<not> length dest < ep then dest
      else if TEST_CHAR c T_ESCAPE_LOGITEM then
        (let d = dest @ [BSLASH]
         in if ep \<le> length d then dest
            else if c = CHR 0x08 then errorlog_loop ep (d @ ''b'') s
            else if c = LF then errorlog_loop ep (d @ ''n'') s
            else if c = CR then errorlog_loop ep (d @ ''r'') s
            else if c = TAB then errorlog_loop ep (d @ ''t'') s
            else if c = CHR 0x0B then errorlog_loop ep (d @ ''v'') s
            else if c = BSLASH then errorlog_loop ep (d @ [c]) s
            else if c = DQUOTE then errorlog_loop ep (d[length d - 1 := c]) s
            else if ep \<le> length d + 2 then dest
            else errorlog_loop ep (d @ c2x c (CHR ''x'')) s)
      else errorlog_loop ep (dest @ [c]) s)"

definition escape_errorlog_item :: "cstring option \<Rightarrow> nat \<Rightarrow> cstring" where
  "escape_errorlog_item source buflen =
     (case source of
        None \<Rightarrow> []
      | Some s \<Rightarrow> if buflen = 0 then [] else errorlog_loop (buflen - 1) [] s)"

lemma c2x_printable: "c_isprint p \<Longrightarrow> list_all c_isprint (c2x c p)"
proof -
  assume "c_isprint p"
  have d: "c_isprint x" if "c_isxdigit x" for x using that by (auto simp: c_class_defs)
  show ?thesis using d [OF c2x_xdigits(1)] d [OF c2x_xdigits(2)] \<open>c_isprint p\<close> by (simp add: c2x_def)
qed

lemma log_letters_printable: "list_all c_isprint [BSLASH, DQUOTE, CHR ''b'', CHR ''n'', CHR ''r'', CHR ''t'', CHR ''v'', CHR ''x'']"
  by code_simp

lemma errorlog_loop_bound:
  "length dest \<le> ep \<Longrightarrow> length (errorlog_loop ep dest s) \<le> ep"
  by (induction ep dest s rule: errorlog_loop.induct) (auto simp: Let_def c2x_def)

lemma errorlog_loop_printable:
  "list_all c_isprint dest \<Longrightarrow> nul_free s \<Longrightarrow> list_all c_isprint (errorlog_loop ep dest s)"
proof (induction ep dest s rule: errorlog_loop.induct)
  case (2 ep dest c s)
  have "c_isprint (CHR ''x'')" using log_letters_printable by simp
  from c2x_printable [OF this] log_plain_isprint [of c] log_letters_printable 2 show ?case
    by (simp add: Let_def)
qed simp

lemma escape_logitem_printable: "nul_free s \<Longrightarrow> list_all c_isprint (escape_logitem s)"
proof (induction s)
  case (Cons c s)
  have "c_isprint (CHR ''x'')" using log_letters_printable by simp
  from c2x_printable [OF this] log_plain_isprint [of c] log_letters_printable Cons show ?case
    by auto
qed simp

text \<open>
  Log lines cannot be forged: whatever a client sends, \<open>ap_escape_logitem\<close> and
  \<open>ap_escape_errorlog_item\<close> write only printable characters (no line break, no control
  character, no 8-bit byte), and the second stays below the length of its buffer.
\<close>

theorem log_escapes_printable:
  assumes "nul_free s" "0 < buflen"
  shows "list_all c_isprint (escape_logitem s) \<and>
    list_all c_isprint (escape_errorlog_item (Some s) buflen) \<and>
    length (escape_errorlog_item (Some s) buflen) < buflen"
proof -
  have "length (errorlog_loop (buflen - 1) [] s) \<le> buflen - 1" by (rule errorlog_loop_bound) simp
  then show ?thesis
    using assms escape_logitem_printable [of s] errorlog_loop_printable [of "[]" s "buflen - 1"]
    by (simp add: escape_errorlog_item_def)
qed

theorem log_escapes_printable_witness:
  "list_all c_isprint (escape_logitem [CHR ''a'', LF, CHR 0xFF, DQUOTE]) \<and>
   list_all c_isprint (escape_errorlog_item (Some [CHR ''a'', LF, CHR 0xFF, DQUOTE]) 7) \<and>
   length (escape_errorlog_item (Some [CHR ''a'', LF, CHR 0xFF, DQUOTE]) 7) < 7"
  by (rule log_escapes_printable) simp_all

fun escape_shell_cmd :: "cstring \<Rightarrow> cstring" where
  "escape_shell_cmd [] = []"
| "escape_shell_cmd (c # s) =
     (if TEST_CHAR c T_ESCAPE_SHELL_CMD then [BSLASH] else []) @ c # escape_shell_cmd s"

text \<open>
  What a shell sees: reading with a backslash quoting the next character, every unquoted
  character.
\<close>

fun shell_unquoted :: "cstring \<Rightarrow> cstring" where
  "shell_unquoted [] = []"
| "shell_unquoted [c] = [c]"
| "shell_unquoted (c # d # s) = (if c = BSLASH then shell_unquoted s else c # shell_unquoted (d # s))"

fun shell_read :: "cstring \<Rightarrow> cstring" where
  "shell_read [] = []"
| "shell_read [c] = [c]"
| "shell_read (c # d # s) = (if c = BSLASH then d # shell_read s else c # shell_read (d # s))"

lemma backslash_shell_special: "is_shell_special BSLASH"
  by (simp add: is_shell_special_def shell_specials_def)

lemma shell_plain_Cons:
  "c \<noteq> BSLASH \<Longrightarrow> shell_unquoted (c # s) = c # shell_unquoted s \<and> shell_read (c # s) = c # shell_read s"
  by (cases s) auto

text \<open>
  \<open>ap_escape_shell_cmd\<close> is right: no shell metacharacter of the result is unquoted, and a
  shell that removes the quoting backslashes reads the original string.
\<close>

theorem escape_shell_cmd_correct:
  "list_all (\<lambda>c. \<not> is_shell_special c) (shell_unquoted (escape_shell_cmd s)) \<and>
   shell_read (escape_shell_cmd s) = s"
proof (induction s)
  case (Cons c s)
  show ?case
  proof (cases "is_shell_special c")
    case False
    then have "c \<noteq> BSLASH" using backslash_shell_special by auto
    with Cons False show ?thesis by (simp add: shell_plain_Cons)
  qed (use Cons in simp)
qed simp

section \<open>ap_escape_quotes\<close>

text \<open>The first pass computes \<open>newlen\<close>, the second one is the list of the bytes written.\<close>

function (sequential) escape_quotes_newlen :: "cstring \<Rightarrow> nat" where
  "escape_quotes_newlen [] = 0"
| "escape_quotes_newlen (c # s) =
     (if c = DQUOTE then 2 else 1) +
     (if c = BSLASH \<and> cget s 0 \<noteq> NUL then 1 + escape_quotes_newlen (tl s) else escape_quotes_newlen s)"
  by pat_completeness auto
termination by (relation "measure length") auto

function escape_quotes_fill :: "cstring \<Rightarrow> cstring" where
  "escape_quotes_fill inchr =
     (if inchr = [] then []
      else
        (let pair = (cget inchr 0 = BSLASH \<and> cget inchr 1 \<noteq> NUL);
             copied = (if pair then take 2 inchr else []);
             rest = (if pair then drop 2 inchr else inchr);
             slosh = (if cget rest 0 = DQUOTE then [BSLASH] else [])
         in copied @ slosh @ (if rest \<noteq> [] then hd rest # escape_quotes_fill (tl rest) else [])))"
  by pat_completeness auto
termination by (relation "measure length") (auto split: if_splits)

declare escape_quotes_fill.simps [simp del]

definition escape_quotes :: "cstring \<Rightarrow> cstring" where
  "escape_quotes instring = escape_quotes_fill instring"

text \<open>
  A block \<open>\a\"\<close>: the first pass counts its four bytes, the second one writes five, because
  after the pair \<open>\a\<close> it copies the next backslash on its own and then meets a bare quote.
\<close>

definition slosh_block :: cstring where
  "slosh_block = [BSLASH, CHR ''a'', BSLASH, DQUOTE]"

lemma slosh_block_step:
  "escape_quotes_newlen (slosh_block @ s) = 4 + escape_quotes_newlen s"
  "length (escape_quotes_fill (slosh_block @ s)) = 5 + length (escape_quotes_fill s)"
proof -
  show "escape_quotes_newlen (slosh_block @ s) = 4 + escape_quotes_newlen s"
    by (simp add: slosh_block_def)
  have quote: "escape_quotes_fill (DQUOTE # s) = BSLASH # DQUOTE # escape_quotes_fill s"
    by (subst escape_quotes_fill.simps) simp
  have "escape_quotes_fill (slosh_block @ s) =
      [BSLASH, CHR ''a'', BSLASH] @ escape_quotes_fill (DQUOTE # s)"
    by (subst escape_quotes_fill.simps) (simp add: slosh_block_def Let_def)
  then show "length (escape_quotes_fill (slosh_block @ s)) = 5 + length (escape_quotes_fill s)"
    by (simp add: quote)
qed

lemma slosh_blocks_overflow:
  "length (escape_quotes_fill (concat (replicate n slosh_block))) =
   escape_quotes_newlen (concat (replicate n slosh_block)) + n"
  by (induction n) (simp_all add: slosh_block_step escape_quotes_fill.simps [of "[]"])

text \<open>
  The two passes of \<open>ap_escape_quotes\<close> disagree: for every \<open>n\<close> there is a C string for
  which the second pass writes \<open>n\<close> bytes more than the first pass counted, so the copy
  overruns its buffer by as much as the input's author likes.
\<close>

theorem escape_quotes_overflow:
  "\<forall>n. \<exists>instring. nul_free instring \<and>
     length (escape_quotes instring) = escape_quotes_newlen instring + n"
proof
  fix n
  have "nul_free (concat (replicate n slosh_block))" by (auto simp: nul_free_def slosh_block_def)
  then show "\<exists>instring. nul_free instring \<and>
      length (escape_quotes instring) = escape_quotes_newlen instring + n"
    using slosh_blocks_overflow [of n] unfolding escape_quotes_def by blast
qed

text \<open>Without a backslash in the input the passes agree.\<close>

lemma escape_quotes_fits:
  "BSLASH \<notin> set s \<Longrightarrow> length (escape_quotes s) = escape_quotes_newlen s"
  unfolding escape_quotes_def
proof (induction s)
  case (Cons c s)
  then show ?case by (subst escape_quotes_fill.simps) auto
qed (simp add: escape_quotes_fill.simps)

end
