(* ===== verification/Util_Match.thy ===== *)
theory Util_Match
  imports Prelude
begin

text \<open>
  String matching and substitution of \<^verbatim>\<open>server/util.c\<close>: the wildcard matchers
  \<open>ap_strcmp_match\<close> and \<open>ap_strcasecmp_match\<close>, \<open>ap_is_matchexp\<close>,
  \<open>ap_strcasestr\<close>, \<open>ap_stripprefix\<close> and \<open>ap_pregsub\<close>. The two matchers share
  one contract, the locale \<open>glob_matcher\<close>, in which the result code is related to the
  declarative meaning of a pattern (\<open>glob\<close>).
\<close>

section \<open>The wildcard matchers\<close>

text \<open>
  \<open>ap_strcmp_match\<close>: the loop over the pattern is the recursion on the second argument,
  the inner \<open>while (str[x])\<close> loop entered at a star is \<open>strcmp_match_star\<close>.
  Results: 0 match, 1 no match, -1 abort.
\<close>

function (sequential) strcmp_match :: "cstring \<Rightarrow> cstring \<Rightarrow> int"
  and strcmp_match_star :: "cstring \<Rightarrow> cstring \<Rightarrow> int" where
  "strcmp_match str [] = (if str \<noteq> [] then 1 else 0)"
| "strcmp_match str (e # expected) =
     (if str = [] \<and> e \<noteq> CHR ''*'' then - 1
      else if e = CHR ''*'' then
        (let rest = dropWhile (\<lambda>c. c = CHR ''*'') expected
         in if rest = [] then 0 else strcmp_match_star str rest)
      else if e \<noteq> CHR ''?'' \<and> hd str \<noteq> e then 1
      else strcmp_match (tl str) expected)"
| "strcmp_match_star [] expected = - 1"
| "strcmp_match_star (c # str) expected =
     (let ret = strcmp_match (c # str) expected
      in if ret \<noteq> 1 then ret else strcmp_match_star str expected)"
  by pat_completeness auto
termination
  by (relation "measures [case_sum (\<lambda>(s, p). length p) (\<lambda>(s, p). length p),
        case_sum (\<lambda>(s, p). length s) (\<lambda>(s, p). length s), case_sum (\<lambda>_. 0) (\<lambda>_. 1)]")
    (auto simp: less_Suc_eq_le)

function (sequential) strcasecmp_match :: "cstring \<Rightarrow> cstring \<Rightarrow> int"
  and strcasecmp_match_star :: "cstring \<Rightarrow> cstring \<Rightarrow> int" where
  "strcasecmp_match str [] = (if str \<noteq> [] then 1 else 0)"
| "strcasecmp_match str (e # expected) =
     (if str = [] \<and> e \<noteq> CHR ''*'' then - 1
      else if e = CHR ''*'' then
        (let rest = dropWhile (\<lambda>c. c = CHR ''*'') expected
         in if rest = [] then 0 else strcasecmp_match_star str rest)
      else if e \<noteq> CHR ''?'' \<and> c_tolower (hd str) \<noteq> c_tolower e then 1
      else strcasecmp_match (tl str) expected)"
| "strcasecmp_match_star [] expected = - 1"
| "strcasecmp_match_star (c # str) expected =
     (let ret = strcasecmp_match (c # str) expected
      in if ret \<noteq> 1 then ret else strcasecmp_match_star str expected)"
  by pat_completeness auto
termination
  by (relation "measures [case_sum (\<lambda>(s, p). length p) (\<lambda>(s, p). length p),
        case_sum (\<lambda>(s, p). length s) (\<lambda>(s, p). length s), case_sum (\<lambda>_. 0) (\<lambda>_. 1)]")
    (auto simp: less_Suc_eq_le)

fun is_matchexp :: "cstring \<Rightarrow> int" where
  "is_matchexp [] = 0"
| "is_matchexp (c # str) = (if c = CHR ''*'' \<or> c = CHR ''?'' then 1 else is_matchexp str)"

text \<open>What a pattern means: \<open>?\<close> stands for any character and \<open>*\<close> for any string.\<close>

inductive glob :: "(char \<Rightarrow> char \<Rightarrow> bool) \<Rightarrow> cstring \<Rightarrow> cstring \<Rightarrow> bool"
  for eq :: "char \<Rightarrow> char \<Rightarrow> bool" where
  glob_nil: "glob eq [] []"
| glob_star: "glob eq t p \<Longrightarrow> glob eq (s @ t) (CHR ''*'' # p)"
| glob_any: "glob eq s p \<Longrightarrow> glob eq (c # s) (CHR ''?'' # p)"
| glob_char: "e \<noteq> CHR ''*'' \<Longrightarrow> e \<noteq> CHR ''?'' \<Longrightarrow> eq c e \<Longrightarrow> glob eq s p \<Longrightarrow> glob eq (c # s) (e # p)"

inductive_simps glob_nil_iff: "glob eq s []"
inductive_simps glob_star_iff: "glob eq s (CHR ''*'' # p)"
inductive_simps glob_cons_iff: "glob eq s (e # p)"

lemma glob_star_drop: "glob eq s (CHR ''*'' # p) \<longleftrightarrow> (\<exists>k. glob eq (drop k s) p)"
proof
  assume "glob eq s (CHR ''*'' # p)"
  then obtain u t where "s = u @ t" "glob eq t p"
    by (auto simp: glob_star_iff)
  then show "\<exists>k. glob eq (drop k s) p" by (intro exI [of _ "length u"]) simp
next
  assume "\<exists>k. glob eq (drop k s) p"
  then obtain k where "glob eq (drop k s) p" ..
  then have "glob eq (take k s @ drop k s) (CHR ''*'' # p)" by (rule glob_star)
  then show "glob eq s (CHR ''*'' # p)" by simp
qed

lemma glob_stars:
  "glob eq s (CHR ''*'' # dropWhile (\<lambda>c. c = CHR ''*'') p) \<longleftrightarrow> glob eq s (CHR ''*'' # p)"
proof (induction p arbitrary: s)
  case (Cons c p)
  show ?case
  proof (cases "c = CHR ''*''")
    case True
    have "glob eq s (CHR ''*'' # CHR ''*'' # p) \<longleftrightarrow> glob eq s (CHR ''*'' # p)"
      by (simp add: glob_star_drop [of _ _ "CHR ''*'' # p"]) (simp add: glob_star_drop, metis drop_0 drop_drop)
    with True Cons show ?thesis by simp
  qed simp
qed simp

lemma glob_literal_iff:
  "e \<noteq> CHR ''*'' \<Longrightarrow>
   glob eq s (e # p) \<longleftrightarrow> s \<noteq> [] \<and> (e = CHR ''?'' \<or> eq (hd s) e) \<and> glob eq (tl s) p"
  by (cases s) (auto simp: glob_cons_iff)

text \<open>
  The contract of a matcher: the equations both C functions satisfy, over a comparison of a
  subject character with a pattern character.
\<close>

locale glob_matcher =
  fixes m st :: "cstring \<Rightarrow> cstring \<Rightarrow> int"
    and eq :: "char \<Rightarrow> char \<Rightarrow> bool"
  assumes m_nil: "m s [] = (if s \<noteq> [] then 1 else 0)"
    and m_cons: "m s (e # p) =
      (if s = [] \<and> e \<noteq> CHR ''*'' then - 1
       else if e = CHR ''*'' then
         (let r = dropWhile (\<lambda>c. c = CHR ''*'') p in if r = [] then 0 else st s r)
       else if e \<noteq> CHR ''?'' \<and> \<not> eq (hd s) e then 1
       else m (tl s) p)"
    and st_nil: "st [] p = - 1"
    and st_cons: "st (c # s) p = (let r = m (c # s) p in if r \<noteq> 1 then r else st s p)"
begin

definition good :: "cstring \<Rightarrow> cstring \<Rightarrow> int \<Rightarrow> bool" where
  "good s p r \<longleftrightarrow> (r = 0 \<and> glob eq s p) \<or> (r = 1 \<and> \<not> glob eq s p) \<or>
     (r = - 1 \<and> (\<forall>k. \<not> glob eq (drop k s) p))"

lemma st_good:
  assumes m_good: "\<And>s. good s p (m s p)" and "p \<noteq> []" and "hd p \<noteq> CHR ''*''"
  shows "st s p = 0 \<and> (\<exists>k. glob eq (drop k s) p) \<or> st s p = - 1 \<and> (\<forall>k. \<not> glob eq (drop k s) p)"
proof (induction s)
  case Nil
  have "\<not> glob eq [] p"
    using assms(2,3) by (cases p) (auto simp: glob_literal_iff)
  then show ?case by (simp add: st_nil)
next
  case (Cons c s)
  have split: "(\<exists>k. glob eq (drop k (c # s)) p) \<longleftrightarrow> glob eq (c # s) p \<or> (\<exists>k. glob eq (drop k s) p)"
    by (metis drop_0 drop_Suc_Cons not0_implies_Suc)
  from m_good [of "c # s"] Cons show ?case
    unfolding good_def st_cons Let_def by (auto simp: split) (metis drop_0 drop_Suc_Cons not0_implies_Suc)+
qed

lemma m_good: "good s p (m s p)"
proof (induction p arbitrary: s rule: length_induct)
  case (1 p)
  show ?case
  proof (cases p)
    case Nil
    then show ?thesis by (auto simp: good_def m_nil glob_nil_iff)
  next
    case (Cons e q)
    let ?r = "dropWhile (\<lambda>c. c = CHR ''*'') q"
    show ?thesis
    proof (cases "e = CHR ''*''")
      case True
      have star: "glob eq t p \<longleftrightarrow> (\<exists>k. glob eq (drop k t) ?r)" for t
        using glob_stars [of eq t q] by (simp add: Cons True glob_star_drop)
      show ?thesis
      proof (cases "?r = []")
        case True
        have "glob eq s p" unfolding star True by (rule exI [of _ "length s"]) (simp add: glob_nil)
        with True show ?thesis by (simp add: Cons \<open>e = CHR ''*''\<close> m_cons good_def)
      next
        case False
        have len: "length ?r < length p" by (simp add: Cons le_imp_less_Suc)
        with 1 have "good t ?r (m t ?r)" for t by blast
        moreover have "hd ?r \<noteq> CHR ''*''" using hd_dropWhile_not [OF False] .
        ultimately have res: "st s ?r = 0 \<and> (\<exists>k. glob eq (drop k s) ?r) \<or>
            st s ?r = - 1 \<and> (\<forall>k. \<not> glob eq (drop k s) ?r)"
          using st_good False by blast
        have "m s p = st s ?r" using False by (auto simp: Cons True m_cons Let_def)
        with res show ?thesis unfolding good_def star by (auto simp: add.commute)
      qed
    next
      case False
      show ?thesis
      proof (cases s)
        case Nil
        then show ?thesis by (auto simp: good_def Cons False m_cons glob_literal_iff)
      next
        case s: (Cons c t)
        have IH: "good t q (m t q)" using 1 Cons by simp
        have shift: "\<not> glob eq (drop k (c # t)) (e # q)" if "\<forall>k. \<not> glob eq (drop k t) q" for k
        proof -
          have "tl (drop k (c # t)) = drop k t" by (cases k) (simp_all add: tl_drop drop_Suc)
          with that False show ?thesis by (simp add: glob_literal_iff)
        qed
        show ?thesis
        proof (cases "e = CHR ''?'' \<or> eq c e")
          case True
          then have m: "m s p = m t q" and g: "glob eq s p \<longleftrightarrow> glob eq t q"
            using False by (auto simp: Cons s m_cons glob_literal_iff)
          from IH show ?thesis
            unfolding good_def m g unfolding Cons s using shift by blast
        next
          case False
          then show ?thesis
            using \<open>e \<noteq> CHR ''*''\<close> by (simp add: good_def Cons s m_cons glob_literal_iff)
        qed
      qed
    qed
  qed
qed

lemma m_zero_iff: "m s p = 0 \<longleftrightarrow> glob eq s p"
  using m_good [of s p] unfolding good_def by (metis drop_0 one_neq_zero zero_neq_neg_one)

lemma m_abort: "m s p = - 1 \<Longrightarrow> \<not> glob eq (drop k s) p"
  using m_good [of s p] by (auto simp: good_def)

lemma m_range: "m s p \<in> {0, 1, - 1}"
  using m_good [of s p] by (auto simp: good_def)

end

interpretation case_matcher: glob_matcher strcmp_match strcmp_match_star "(=)"
  by unfold_locales simp_all

interpretation nocase_matcher: glob_matcher strcasecmp_match strcasecmp_match_star
  "\<lambda>c e. c_tolower c = c_tolower e"
  by unfold_locales simp_all


text \<open>
  C17. \<open>ap_strcmp_match\<close> and \<open>ap_strcasecmp_match\<close> return 0 exactly when the whole
  subject matches the pattern in the declarative sense (the second one up to case), whatever
  the abort shortcut of the star loop skips.
\<close>

theorem strcmp_match_iff_glob:
  "(strcmp_match str expected = 0 \<longleftrightarrow> glob (=) str expected) \<and>
   (strcasecmp_match str expected = 0 \<longleftrightarrow> glob (\<lambda>c e. c_tolower c = c_tolower e) str expected)"
  by (simp only: case_matcher.m_zero_iff nocase_matcher.m_zero_iff simp_thms)

text \<open>
  The abort code is sound: when \<open>ap_strcmp_match\<close> returns -1, no suffix of the subject
  matches the pattern, which is what lets the star loop of the caller give up at once.
\<close>

theorem strcmp_match_abort:
  "strcmp_match str expected = - 1 \<Longrightarrow> \<not> glob (=) (drop k str) expected"
  by (rule case_matcher.m_abort)

theorem strcmp_match_abort_witness:
  "strcmp_match ''ab'' ''a*bc'' = - 1 \<and> \<not> glob (=) (drop 1 ''ab'') ''a*bc''"
proof -
  have run: "strcmp_match ''ab'' ''a*bc'' = - 1" by code_simp
  from strcmp_match_abort [OF run, of 1] run show ?thesis by blast
qed

text \<open>A pattern without wildcards matches only itself, so \<open>ap_is_matchexp\<close> is the right guard.\<close>

lemma is_matchexp_0_iff: "is_matchexp p = 0 \<longleftrightarrow> CHR ''*'' \<notin> set p \<and> CHR ''?'' \<notin> set p"
  by (induction p) auto

lemma glob_literal: "is_matchexp p = 0 \<Longrightarrow> glob (=) s p \<longleftrightarrow> s = p"
proof (induction p arbitrary: s)
  case Nil
  then show ?case by (auto simp: glob_nil_iff)
next
  case (Cons e p)
  then show ?case
    by (cases s) (auto simp: glob_literal_iff split: if_splits)
qed

section \<open>Substrings and prefixes\<close>

text \<open>
  \<open>ap_strcasestr\<close>. \<open>casestr_inner\<close> is the inner loop after the first characters matched:
  true when it returns or breaks with a match.
\<close>

fun casestr_inner :: "cstring \<Rightarrow> cstring \<Rightarrow> bool" where
  "casestr_inner [] [] = True"
| "casestr_inner [] (y # p2) = False"
| "casestr_inner (x # p1) [] = True"
| "casestr_inner (x # p1) (y # p2) =
     (if c_tolower x = c_tolower y then casestr_inner p1 p2 else False)"

function (sequential) strcasestr_loop :: "cstring \<Rightarrow> cstring \<Rightarrow> cstring option" where
  "strcasestr_loop s1 s2 =
     (case dropWhile (\<lambda>c. c_tolower c \<noteq> c_tolower (hd s2)) s1 of
        [] \<Rightarrow> None
      | x # p1 \<Rightarrow> if casestr_inner p1 (tl s2) then Some (x # p1) else strcasestr_loop p1 s2)"
  by pat_completeness auto
termination
  by (relation "measure (\<lambda>(s1, s2). length s1)") (auto dest: dropWhile_Cons_less)

definition strcasestr :: "cstring \<Rightarrow> cstring \<Rightarrow> cstring option" where
  "strcasestr s1 s2 = (if s2 = [] then Some s1 else strcasestr_loop s1 s2)"

declare strcasestr_loop.simps [simp del]

fun stripprefix_loop :: "cstring \<Rightarrow> cstring \<Rightarrow> cstring option" where
  "stripprefix_loop p1 [] = Some p1"
| "stripprefix_loop [] (y # prefix) = None"
| "stripprefix_loop (x # p1) (y # prefix) = (if x \<noteq> y then None else stripprefix_loop p1 prefix)"

definition stripprefix :: "cstring \<Rightarrow> cstring \<Rightarrow> cstring" where
  "stripprefix bigstring prefix =
     (if prefix = [] then bigstring
      else case stripprefix_loop bigstring prefix of Some p1 \<Rightarrow> p1 | None \<Rightarrow> bigstring)"

text \<open>The reference: the first suffix that has a property.\<close>

fun first_suffix :: "(cstring \<Rightarrow> bool) \<Rightarrow> cstring \<Rightarrow> cstring option" where
  "first_suffix P [] = (if P [] then Some [] else None)"
| "first_suffix P (x # s) = (if P (x # s) then Some (x # s) else first_suffix P s)"

definition case_prefix :: "cstring \<Rightarrow> cstring \<Rightarrow> bool" where
  "case_prefix p s \<longleftrightarrow> map c_tolower (take (length p) s) = map c_tolower p"

lemma case_prefix_simps [simp]:
  "case_prefix [] s"
  "\<not> case_prefix (y # p) []"
  "case_prefix (y # p) (x # s) \<longleftrightarrow> c_tolower x = c_tolower y \<and> case_prefix p s"
  by (auto simp: case_prefix_def)

lemma casestr_inner_prefix: "casestr_inner s p \<longleftrightarrow> case_prefix p s"
  by (induction s p rule: casestr_inner.induct) auto

lemma first_suffix_skip:
  "(\<And>x s. \<not> Q x \<Longrightarrow> \<not> P (x # s)) \<Longrightarrow>
   first_suffix P s = first_suffix P (dropWhile (\<lambda>c. \<not> Q c) s)"
  by (induction s) auto

lemma strcasestr_loop_first:
  "s2 \<noteq> [] \<Longrightarrow> strcasestr_loop s1 s2 = first_suffix (case_prefix s2) s1"
proof (induction s1 s2 rule: strcasestr_loop.induct)
  case (1 s1 s2)
  let ?d = "dropWhile (\<lambda>c. c_tolower c \<noteq> c_tolower (hd s2)) s1"
  obtain y p where s2: "s2 = y # p" using 1(2) by (cases s2) auto
  have skip: "first_suffix (case_prefix s2) s1 = first_suffix (case_prefix s2) ?d"
    by (rule first_suffix_skip) (auto simp: s2)
  show ?case
  proof (cases ?d)
    case Nil
    have "strcasestr_loop s1 s2 = None"
      by (subst strcasestr_loop.simps) (simp only: Nil list.case)
    moreover have "first_suffix (case_prefix s2) s1 = None"
      unfolding skip Nil by (simp add: s2)
    ultimately show ?thesis by simp
  next
    case (Cons x p1)
    have "strcasestr_loop s1 s2 =
        (if casestr_inner p1 (tl s2) then Some (x # p1) else strcasestr_loop p1 s2)"
      by (subst strcasestr_loop.simps) (simp only: Cons list.case)
    moreover have "case_prefix s2 (x # p1) \<longleftrightarrow> casestr_inner p1 (tl s2)"
      using dropWhile_Cons_not [OF Cons] by (simp add: s2 casestr_inner_prefix)
    ultimately show ?thesis
      using 1(1) [OF Cons] 1(2) unfolding skip Cons by simp
  qed
qed

text \<open>
  \<open>ap_strcasestr\<close> returns the first suffix of the haystack that starts, up to case, with
  the needle, and NULL when there is none.
\<close>

theorem strcasestr_first_suffix: "strcasestr s1 s2 = first_suffix (case_prefix s2) s1"
  by (cases s1) (auto simp: strcasestr_def strcasestr_loop_first)

lemma stripprefix_loop_eq:
  "stripprefix_loop s p = (if take (length p) s = p then Some (drop (length p) s) else None)"
  by (induction s p rule: stripprefix_loop.induct) auto

lemma stripprefix_append [simp]: "stripprefix (p @ s) p = s"
  by (simp add: stripprefix_def stripprefix_loop_eq)

lemma stripprefix_other: "take (length p) s \<noteq> p \<Longrightarrow> stripprefix s p = s"
  by (simp add: stripprefix_def stripprefix_loop_eq)

section \<open>Substitution of submatches\<close>

text \<open>
  \<open>ap_pregsub\<close>. \<open>pregsub_no\<close> is the \<open>if\<close> chain that both passes start with: the number
  of the group a character refers to (10 for an ordinary one) and the rest of the input.
  A group is the pair of \<open>rm_so\<close> and \<open>rm_eo\<close>, -1 when it took no part in the match. The
  first pass computes the length, the second one the bytes written through \<open>dst\<close>.
\<close>

type_synonym regmatch = "int \<times> int"

definition pregsub_no :: "char \<Rightarrow> cstring \<Rightarrow> nat \<times> cstring" where
  "pregsub_no c src =
     (if c = CHR ''&'' then (0, src)
      else if c = CHR ''$'' \<and> c_isdigit (cget src 0) then (ccode (cget src 0) - 48, tl src)
      else (10, src))"

definition pregsub_escaped :: "char \<Rightarrow> cstring \<Rightarrow> bool" where
  "pregsub_escaped c src \<longleftrightarrow> c = BSLASH \<and> (cget src 0 = CHR ''$'' \<or> cget src 0 = CHR ''&'')"

lemma pregsub_no_length [simp]: "length (snd (pregsub_no c src)) \<le> length src"
  by (auto simp: pregsub_no_def)

lemma pregsub_no_le: "(no, src') = pregsub_no c src \<Longrightarrow> length src' \<le> length src"
  by (metis pregsub_no_length snd_conv)

function (sequential) pregsub_len :: "nat \<Rightarrow> regmatch list \<Rightarrow> cstring \<Rightarrow> int \<Rightarrow> int" where
  "pregsub_len nmatch pmatch [] len = len"
| "pregsub_len nmatch pmatch (c # src0) len =
     (let (no, src) = pregsub_no c src0
      in if no > 9 then
           pregsub_len nmatch pmatch (if pregsub_escaped c src then tl src else src) (len + 1)
         else if no < nmatch \<and> fst (pmatch ! no) < snd (pmatch ! no) then
           pregsub_len nmatch pmatch src (len + (snd (pmatch ! no) - fst (pmatch ! no)))
         else pregsub_len nmatch pmatch src len)"
  by pat_completeness auto
termination
  by (relation "measure (\<lambda>(n, pm, src, len). length src)") (auto dest!: pregsub_no_le)

function (sequential) pregsub_fill :: "nat \<Rightarrow> regmatch list \<Rightarrow> cstring \<Rightarrow> cstring \<Rightarrow> cstring" where
  "pregsub_fill nmatch pmatch source [] = []"
| "pregsub_fill nmatch pmatch source (c # src0) =
     (let (no, src) = pregsub_no c src0
      in if no > 9 then
           (if pregsub_escaped c src
            then cget src 0 # pregsub_fill nmatch pmatch source (tl src)
            else c # pregsub_fill nmatch pmatch source src)
         else if no < nmatch \<and> fst (pmatch ! no) < snd (pmatch ! no) then
           take (nat (snd (pmatch ! no) - fst (pmatch ! no))) (drop (nat (fst (pmatch ! no))) source)
             @ pregsub_fill nmatch pmatch source src
         else pregsub_fill nmatch pmatch source src)"
  by pat_completeness auto
termination
  by (relation "measure (\<lambda>(n, pm, s, src). length src)") (auto dest!: pregsub_no_le)

definition pregsub ::
  "cstring \<Rightarrow> cstring option \<Rightarrow> nat \<Rightarrow> regmatch list \<Rightarrow> cstring option" where
  "pregsub input source nmatch pmatch =
     (case source of
        None \<Rightarrow> None
      | Some src \<Rightarrow> if nmatch = 0 then Some input else Some (pregsub_fill nmatch pmatch src input))"

text \<open>What \<open>ap_regexec\<close> promises of the groups: a set group lies within the subject.\<close>

definition groups_within :: "nat \<Rightarrow> regmatch list \<Rightarrow> cstring \<Rightarrow> bool" where
  "groups_within nmatch pmatch source \<longleftrightarrow> nmatch \<le> length pmatch \<and>
     list_all (\<lambda>g. fst g < snd g \<longrightarrow> 0 \<le> fst g \<and> snd g \<le> int (length source)) pmatch"

lemma groups_within_copy:
  assumes "groups_within nmatch pmatch source" "no < nmatch" "fst (pmatch ! no) < snd (pmatch ! no)"
  shows "int (length (take (nat (snd (pmatch ! no) - fst (pmatch ! no)))
            (drop (nat (fst (pmatch ! no))) source))) = snd (pmatch ! no) - fst (pmatch ! no)"
proof -
  have "0 \<le> fst (pmatch ! no) \<and> snd (pmatch ! no) \<le> int (length source)"
    using assms by (auto simp: groups_within_def list_all_length)
  then show ?thesis using assms(3) by (simp add: min_def) linarith
qed

lemma pregsub_len_fill:
  "groups_within nmatch pmatch source \<Longrightarrow>
   pregsub_len nmatch pmatch input len = len + int (length (pregsub_fill nmatch pmatch source input))"
proof (induction nmatch pmatch input len rule: pregsub_len.induct)
  case (2 nmatch pmatch c src0 len)
  obtain no src where ns: "pregsub_no c src0 = (no, src)" by fastforce
  note IH = "2.IH" [OF ns [symmetric] refl]
  show ?case
  proof (cases "no > 9")
    case True
    then show ?thesis using IH(1) [OF True "2.prems"] by (simp add: ns)
  next
    case False
    show ?thesis
    proof (cases "no < nmatch \<and> fst (pmatch ! no) < snd (pmatch ! no)")
      case True
      with groups_within_copy [OF "2.prems", of no] IH(2) [OF False True "2.prems"] False
      show ?thesis by (simp add: ns)
    next
      case no_group: False
      show ?thesis using IH(3) [OF False no_group "2.prems"] False no_group by (auto simp: ns)
    qed
  qed
qed simp

text \<open>
  The two passes of \<open>ap_pregsub\<close> agree: when the groups lie within the subject, as the
  matcher promises, the second pass writes exactly the number of bytes the first one
  allocated, so no input overruns the buffer.
\<close>

theorem pregsub_fits_buffer:
  assumes "groups_within nmatch pmatch source"
  shows "int (length (pregsub_fill nmatch pmatch source input)) = pregsub_len nmatch pmatch input 0"
  using pregsub_len_fill [OF assms, of input 0] by simp

theorem pregsub_fits_buffer_witness:
  "groups_within 2 [(0, 5), (1, 3)] ''hello'' \<and>
   int (length (pregsub_fill 2 [(0, 5), (1, 3)] ''hello'' ''<$1-&$7>'')) =
     pregsub_len 2 [(0, 5), (1, 3)] ''<$1-&$7>'' 0"
proof -
  have h: "groups_within 2 [(0, 5), (1, 3)] ''hello''" by (simp add: groups_within_def)
  show ?thesis using h pregsub_fits_buffer [OF h, of "''<$1-&$7>''"] by blast
qed

end
