(* ===== verification/Util_Path.thy ===== *)
theory Util_Path
  imports Prelude
begin

text \<open>
  Path clean-up of \<^verbatim>\<open>server/util.c\<close> (the build without drive letters, UNC paths and
  backslash separators): \<open>ap_getparents\<close>, the in-place removal of dot segments that the
  request processing relies on for security, \<open>ap_no2slash\<close>, the directory prefix routines
  the directory walk uses and \<open>ap_make_full_path\<close>. The lemmas relate them to the segments
  of a path (\<open>path_segs\<close>).
\<close>

section \<open>Segments of a path\<close>

fun path_segs :: "cstring \<Rightarrow> cstring list" where
  "path_segs [] = [[]]"
| "path_segs (c # s) =
     (if c = CHR ''/'' then [] # path_segs s
      else (case path_segs s of [] \<Rightarrow> [[c]] | x # xs \<Rightarrow> (c # x) # xs))"

definition at_boundary :: "cstring \<Rightarrow> nat \<Rightarrow> bool" where
  "at_boundary s l \<longleftrightarrow> l = 0 \<or> s ! (l - 1) = CHR ''/''"

lemma path_segs_ne [simp]: "path_segs s \<noteq> []"
  by (induction s) (auto split: list.splits)

lemma path_segs_slash: "path_segs (u @ CHR ''/'' # v) = path_segs u @ path_segs v"
  by (induction u) (auto split: list.splits simp: Cons_eq_append_conv)

lemma path_segs_last_slash: "path_segs (u @ [CHR ''/'']) = path_segs u @ [[]]"
  using path_segs_slash [of u "[]"] by simp

lemma path_segs_join:
  assumes "at_boundary s l" "l \<le> length s"
  shows "path_segs (take l s @ v) = butlast (path_segs (take l s)) @ path_segs v"
proof (cases "l = 0")
  case False
  with assms have "take l s = take (l - 1) s @ [CHR ''/'']"
    using take_Suc_conv_app_nth [of "l - 1" s] by (simp add: at_boundary_def)
  then obtain u where "take l s = u @ [CHR ''/'']" ..
  then show ?thesis by (simp add: path_segs_slash path_segs_last_slash)
qed simp

lemma set_path_segs_cut:
  assumes "at_boundary s l" "at_boundary s r" "l \<le> r" "r \<le> length s"
  shows "set (path_segs (take l s @ drop r s)) \<subseteq> set (path_segs s)"
proof -
  have r: "path_segs s = butlast (path_segs (take r s)) @ path_segs (drop r s)"
    using path_segs_join [OF assms(2,4), of "drop r s"] by simp
  have "take r s = take l s @ drop l (take r s)" using assms(3) by (metis append_take_drop_id min.absorb1 take_take)
  then have "path_segs (take r s) = butlast (path_segs (take l s)) @ path_segs (drop l (take r s))"
    using path_segs_join [of s l "drop l (take r s)"] assms by simp
  then have "set (butlast (path_segs (take l s))) \<subseteq> set (butlast (path_segs (take r s)))"
    by (simp add: butlast_append)
  moreover have "path_segs (take l s @ drop r s) = butlast (path_segs (take l s)) @ path_segs (drop r s)"
    using assms by (intro path_segs_join) auto
  ultimately show ?thesis using r by auto
qed

lemma set_path_segs_take:
  assumes "at_boundary s l" "l \<le> length s"
  shows "set (path_segs (take l s)) \<subseteq> set (path_segs s) \<union> {[]}"
proof -
  have "path_segs (take l s) = butlast (path_segs (take l s)) @ [[]]"
    using path_segs_join [OF assms, of "[]"] by simp
  moreover have "path_segs s = butlast (path_segs (take l s)) @ path_segs (drop l s)"
    using path_segs_join [OF assms, of "drop l s"] by simp
  ultimately have "set (path_segs (take l s)) = set (butlast (path_segs (take l s))) \<union> {[]}"
      "set (path_segs s) = set (butlast (path_segs (take l s))) \<union> set (path_segs (drop l s))"
    by (metis list.set(1,2) set_append)+
  then show ?thesis by blast
qed

lemma path_segs_Cons_occurs:
  "path_segs s = x # xs \<Longrightarrow>
   (\<exists>v. s = x @ v \<and> (v = [] \<or> hd v = CHR ''/'')) \<and>
   (\<forall>g \<in> set xs. \<exists>u v. s = u @ CHR ''/'' # g @ v \<and> (v = [] \<or> hd v = CHR ''/''))"
proof (induction s arbitrary: x xs)
  case (Cons c s)
  obtain y ys where ps: "path_segs s = y # ys" by (cases "path_segs s") auto
  note IH = Cons.IH [OF ps]
  have ys: "\<exists>u v. c # s = u @ CHR ''/'' # g @ v \<and> (v = [] \<or> hd v = CHR ''/'')" if g: "g \<in> set ys" for g
  proof -
    from g IH obtain u v where uv: "s = u @ CHR ''/'' # g @ v" "v = [] \<or> hd v = CHR ''/''" by blast
    then show ?thesis by (intro exI [of _ "c # u"] exI [of _ v] conjI) simp_all
  qed
  show ?case
  proof (cases "c = CHR ''/''")
    case True
    have y: "\<exists>u v. c # s = u @ CHR ''/'' # y @ v \<and> (v = [] \<or> hd v = CHR ''/'')"
      using IH True by (auto intro: exI [of _ "[]"])
    from Cons.prems ps True have "x = []" "xs = y # ys" by auto
    with True y ys show ?thesis by simp
  next
    case False
    with Cons.prems ps have "x = c # y" "xs = ys" by auto
    with IH ys show ?thesis by simp
  qed
qed simp

lemma path_seg_occurs:
  assumes "g \<in> set (path_segs s)"
  shows "\<exists>u v. s = u @ g @ v \<and> (u = [] \<or> last u = CHR ''/'') \<and> (v = [] \<or> hd v = CHR ''/'')"
proof -
  obtain x xs where ps: "path_segs s = x # xs" by (cases "path_segs s") auto
  note occ = path_segs_Cons_occurs [OF ps]
  from assms ps consider "g = x" | "g \<in> set xs" by auto
  then show ?thesis
  proof cases
    case 1
    with occ show ?thesis by (metis append_Nil)
  next
    case 2
    with occ obtain u v where "s = (u @ [CHR ''/'']) @ g @ v" "v = [] \<or> hd v = CHR ''/''" by fastforce
    then show ?thesis by (metis snoc_eq_iff_butlast)
  qed
qed

section \<open>ap_getparents\<close>

text \<open>
  The four passes over the buffer \<open>name\<close>. Pass a) copies the path onto itself without its
  \<open>./\<close> segments: \<open>l\<close> reads, \<open>w\<close> writes, both from the first dot on.
\<close>

function gp_dots :: "cstring \<Rightarrow> nat \<Rightarrow> nat \<Rightarrow> cstring \<times> nat" where
  "gp_dots name l w =
     (if length name \<le> l then (name, w)
      else if name ! l = CHR ''.'' \<and> cget name (l + 1) = CHR ''/'' \<and> (l = 0 \<or> name ! (l - 1) = CHR ''/'')
      then gp_dots name (l + 2) w
      else gp_dots (name[w := name ! l]) (l + 1) (w + 1))"
  by pat_completeness auto
termination
  by (relation "measure (\<lambda>(name, l, w). length name - l)") auto

text \<open>Pass b): a trailing \<open>.\<close> segment goes, and the path is cut at \<open>w\<close>.\<close>

definition gp_trailing_dot :: "cstring \<Rightarrow> nat \<Rightarrow> cstring" where
  "gp_trailing_dot name w =
     (let w' = (if w = 1 \<and> name ! 0 = CHR ''.'' then w - 1
                else if w > 1 \<and> name ! (w - 1) = CHR ''.'' \<and> name ! (w - 2) = CHR ''/'' then w - 1
                else w)
      in take w' name)"

text \<open>
  The backward scan \<open>while (l >= 0 && !IS_SLASH(name[l])) l--; l++\<close>, entered at
  \<open>l = k - 1\<close>.
\<close>

fun gp_back :: "cstring \<Rightarrow> nat \<Rightarrow> nat" where
  "gp_back name 0 = 0"
| "gp_back name (Suc k) = (if name ! k = CHR ''/'' then Suc k else gp_back name k)"

text \<open>Pass c): every \<open>xx/../\<close> is cut out by moving the rest of the buffer down.\<close>

definition dotdot_at :: "cstring \<Rightarrow> nat \<Rightarrow> bool" where
  "dotdot_at name l \<longleftrightarrow> cget name l = CHR ''.'' \<and> cget name (l + 1) = CHR ''.'' \<and>
     cget name (l + 2) = CHR ''/'' \<and> (l = 0 \<or> name ! (l - 1) = CHR ''/'')"

lemma gp_back_le: "gp_back name k \<le> k"
  by (induction k) auto

lemma gp_back_boundary: "at_boundary name (gp_back name k)"
  by (induction k) (auto simp: at_boundary_def)

lemma dotdot_at_bound: "dotdot_at name l \<Longrightarrow> l + 2 < length name"
  by (auto simp: dotdot_at_def dest!: cget_not_NUL)

function gp_parents :: "cstring \<Rightarrow> nat \<Rightarrow> cstring \<times> nat" where
  "gp_parents name l =
     (if length name \<le> l then (name, l)
      else if dotdot_at name l then
        (let m = l + 3;
             l' = (if 2 \<le> l then gp_back name (l - 1) else 0)
         in gp_parents (take l' name @ drop m name) l')
      else gp_parents name (l + 1))"
  by pat_completeness auto
termination
proof (relation "measure (\<lambda>(name, l). length name - l)", goal_cases)
  case (2 name l m l')
  then show ?case
    using dotdot_at_bound [of name l] gp_back_le [of name "l - 1"] by (auto split: if_splits)
qed auto

declare gp_dots.simps [simp del] gp_parents.simps [simp del]

text \<open>Pass d): a trailing \<open>xx/..\<close> goes; \<open>l\<close> is where pass c) stopped.\<close>

definition gp_trailing_parent :: "cstring \<Rightarrow> nat \<Rightarrow> cstring" where
  "gp_trailing_parent name l =
     (if l = 2 \<and> name ! 0 = CHR ''.'' \<and> name ! 1 = CHR ''.'' then []
      else if l > 2 \<and> name ! (l - 1) = CHR ''.'' \<and> name ! (l - 2) = CHR ''.'' \<and> name ! (l - 3) = CHR ''/''
      then take (if 4 \<le> l then gp_back name (l - 3) else 0) name
      else name)"

definition getparents :: "cstring \<Rightarrow> cstring" where
  "getparents name =
     (let first_dot = length (takeWhile (\<lambda>c. c \<noteq> CHR ''.'') name);
          (name1, w) = gp_dots name first_dot first_dot;
          name2 = gp_trailing_dot name1 w;
          (name3, l) = gp_parents name2 first_dot
      in gp_trailing_parent name3 l)"

section \<open>Dot segments are gone\<close>

text \<open>Pass a) seen as a function on the text: drop \<open>./\<close> wherever a segment starts.\<close>

fun strip_dots :: "bool \<Rightarrow> cstring \<Rightarrow> cstring" where
  "strip_dots b [] = []"
| "strip_dots b [c] = [c]"
| "strip_dots b (c # d # s) =
     (if b \<and> c = CHR ''.'' \<and> d = CHR ''/'' then strip_dots True s
      else c # strip_dots (c = CHR ''/'') (d # s))"

lemma gp_dots_strip:
  "w \<le> l \<Longrightarrow> l \<le> length name \<Longrightarrow> gp_dots name l w = (name', w') \<Longrightarrow>
   w' \<le> length name' \<and>
   take w' name' = take w name @ strip_dots (at_boundary name l) (drop l name)"
proof (induction name l w rule: gp_dots.induct)
  case (1 name l w)
  show ?case
  proof (cases "l = length name")
    case True
    with "1.prems" show ?thesis by (auto simp: gp_dots.simps)
  next
    case False
    with "1.prems" have l: "l < length name" by simp
    define skip where "skip \<longleftrightarrow> name ! l = CHR ''.'' \<and> cget name (l + 1) = CHR ''/'' \<and>
      (l = 0 \<or> name ! (l - 1) = CHR ''/'')"
    show ?thesis
    proof (cases skip)
      case True
      then have nx: "l + 1 < length name" "name ! (l + 1) = CHR ''/''"
        unfolding skip_def by (auto dest!: cget_not_NUL)
      have run: "gp_dots name (l + 2) w = (name', w')"
        using "1.prems"(3) l True by (subst (asm) gp_dots.simps) (simp add: skip_def)
      have "drop l name = CHR ''.'' # CHR ''/'' # drop (l + 2) name"
        using nx l True by (simp add: Cons_nth_drop_Suc [symmetric] skip_def)
      moreover have "at_boundary name l" using True by (simp add: skip_def at_boundary_def)
      moreover have "at_boundary name (l + 2)" using nx by (simp add: at_boundary_def)
      ultimately show ?thesis
        using "1.IH"(1) [OF _ True [unfolded skip_def] _ _ run] l nx "1.prems" by simp
    next
      case False
      let ?n = "name[w := name ! l]"
      have run: "gp_dots ?n (l + 1) (w + 1) = (name', w')"
        using "1.prems"(3) l False by (subst (asm) gp_dots.simps) (auto simp: skip_def)
      have nl: "?n ! l = name ! l" using l by (cases "w = l") auto
      then have b: "at_boundary ?n (l + 1) \<longleftrightarrow> name ! l = CHR ''/''" by (simp add: at_boundary_def)
      have w: "take (w + 1) ?n = take w name @ [name ! l]"
        using l "1.prems"(1) by (simp add: take_Suc_conv_app_nth)
      have d: "drop (l + 1) ?n = drop (l + 1) name" using "1.prems"(1) by simp
      have s: "strip_dots (at_boundary name l) (drop l name) =
          name ! l # strip_dots (name ! l = CHR ''/'') (drop (l + 1) name)"
      proof (cases "l + 1 < length name")
        case True
        then have "drop l name = name ! l # name ! (l + 1) # drop (l + 2) name"
          "drop (l + 1) name = name ! (l + 1) # drop (l + 2) name"
          using l by (simp_all add: Cons_nth_drop_Suc [symmetric])
        moreover have "cget name (l + 1) = name ! (l + 1)" using True by (simp add: cget_def)
        ultimately show ?thesis using False by (auto simp: skip_def at_boundary_def)
      next
        case False
        then have "drop l name = [name ! l]" "drop (l + 1) name = []"
          using l by (simp_all add: Cons_nth_drop_Suc [symmetric])
        then show ?thesis by simp
      qed
      show ?thesis
        using "1.IH"(2) [OF _ False [unfolded skip_def] _ _ run] l "1.prems"(1)
        unfolding b w d s by simp
    qed
  qed
qed

lemma strip_dots_prefix:
  "CHR ''.'' \<notin> set p \<Longrightarrow>
   strip_dots b (p @ s) = p @ strip_dots (if p = [] then b else last p = CHR ''/'') s"
proof (induction p arbitrary: b)
  case (Cons c p)
  show ?case
  proof (cases "p @ s")
    case (Cons d t)
    then have "strip_dots b (c # p @ s) = c # strip_dots (c = CHR ''/'') (p @ s)"
      using \<open>CHR ''.'' \<notin> set (c # p)\<close> by auto
    with Cons.IH Cons.prems show ?thesis by simp
  qed auto
qed simp

lemma strip_dots_segs:
  "path_segs (strip_dots b s) = x # xs \<Longrightarrow>
   ''.'' \<notin> set (butlast (if b then x # xs else xs))"
proof (induction b s arbitrary: x xs rule: strip_dots.induct)
  case (3 b c d s)
  show ?case
  proof (cases "b \<and> c = CHR ''.'' \<and> d = CHR ''/''")
    case True
    with 3 show ?thesis by simp
  next
    case False
    obtain y ys where ps: "path_segs (strip_dots (c = CHR ''/'') (d # s)) = y # ys"
      by (cases "path_segs (strip_dots (c = CHR ''/'') (d # s))") auto
    note IH = "3.IH"(2) [OF False ps]
    show ?thesis
    proof (cases "c = CHR ''/''")
      case True
      with "3.prems" False ps IH show ?thesis by auto
    next
      case c: False
      with "3.prems" False ps have x: "x = c # y" "xs = ys" by auto
      have "y = [] \<and> ys \<noteq> [] \<Longrightarrow> d = CHR ''/''"
        using ps c by (cases s) (auto split: if_splits list.splits)
      with False c IH show ?thesis by (auto simp: x)
    qed
  qed
qed (auto split: if_splits)

lemma path_segs_single: "CHR ''/'' \<notin> set s \<Longrightarrow> path_segs s = [s]"
  by (induction s) auto

lemma last_path_segs:
  obtains u v where "s = u @ v" "u = [] \<or> last u = CHR ''/''" "last (path_segs s) = v"
    "path_segs s = butlast (path_segs u) @ [v]"
proof (cases "CHR ''/'' \<in> set s")
  case True
  then obtain u v where "s = u @ CHR ''/'' # v" "CHR ''/'' \<notin> set v"
    using split_list_last by fastforce
  with that [of "u @ [CHR ''/'']" v] show ?thesis
    by (simp add: path_segs_slash path_segs_single path_segs_last_slash)
next
  case False
  with that [of "[]" s] show ?thesis by (simp add: path_segs_single)
qed

lemma seg_occurs_converse:
  assumes "CHR ''/'' \<notin> set g" "u = [] \<or> last u = CHR ''/''" "v = [] \<or> hd v = CHR ''/''"
  shows "g \<in> set (path_segs (u @ g @ v))"
proof -
  have gv: "g \<in> set (path_segs (g @ v))"
    using assms(1,3) by (cases v) (auto simp: path_segs_single path_segs_slash)
  show ?thesis
  proof (cases "u = []")
    case False
    with assms(2) obtain u' where "u = u' @ [CHR ''/'']" by (metis append_butlast_last_id)
    with gv show ?thesis by (simp add: path_segs_slash)
  qed (use gv in simp)
qed

lemma strip_dots_inner: "''.'' \<notin> set (butlast (path_segs (strip_dots True s)))"
  using strip_dots_segs [of True s] by (cases "path_segs (strip_dots True s)") auto

lemma gp_trailing_dot_segs:
  assumes "w \<le> length name" "''.'' \<notin> set (butlast (path_segs (take w name)))"
  shows "''.'' \<notin> set (path_segs (gp_trailing_dot name w))"
proof -
  define o' where "o' = take w name"
  have len: "length o' = w" using assms(1) by (simp add: o'_def)
  obtain u v where uv: "o' = u @ v" "u = [] \<or> last u = CHR ''/''" "path_segs o' = butlast (path_segs u) @ [v]"
    by (rule last_path_segs)
  have inner: "''.'' \<notin> set (butlast (path_segs u))" using assms(2) uv by (simp add: o'_def)
  have nth: "i < w \<Longrightarrow> name ! i = o' ! i" for i by (simp add: o'_def)
  show ?thesis
  proof (cases "v = ''.''")
    case True
    then have w: "w = Suc (length u)" using len uv by simp
    have "gp_trailing_dot name w = u"
    proof (cases "u = []")
      case True
      with w show ?thesis using nth [of 0] uv \<open>v = ''.''\<close>
        by (simp add: gp_trailing_dot_def)
    next
      case False
      have "name ! (w - 1) = CHR ''.''" using nth [of "w - 1"] w uv(1) True by simp
      moreover have "name ! (w - 2) = CHR ''/''"
        using nth [of "w - 2"] w uv(1,2) False by (simp add: nth_append last_conv_nth)
      moreover have "take (w - 1) name = u"
      proof -
        have "take (w - 1) name = take (w - 1) o'" by (simp add: o'_def min_def)
        then show ?thesis using w uv(1) by simp
      qed
      ultimately show ?thesis using w False by (auto simp: gp_trailing_dot_def)
    qed
    moreover have "path_segs u = butlast (path_segs u) @ [[]]"
      using uv(2) by (cases u rule: rev_cases) (auto simp: path_segs_last_slash)
    ultimately show ?thesis using inner by (metis Un_iff empty_iff insert_iff list.set(1,2) list.simps(3) set_append)
  next
    case False
    have "gp_trailing_dot name w = o'"
    proof (rule ccontr)
      assume "gp_trailing_dot name w \<noteq> o'"
      then have cut: "w \<ge> 1" "name ! (w - 1) = CHR ''.''" "w = 1 \<or> name ! (w - 2) = CHR ''/''"
        by (auto simp: gp_trailing_dot_def o'_def Let_def split: if_splits)
      then have "o' = take (w - 1) o' @ ''.''"
        using len nth [of "w - 1"] take_Suc_conv_app_nth [of "w - 1" o'] by simp
      moreover have "path_segs (take (w - 1) o' @ ''.'') = butlast (path_segs (take (w - 1) o')) @ [''.'']"
        using path_segs_join [of o' "w - 1" "''.''"] cut len nth [of "w - 2"]
        by (auto simp: at_boundary_def numeral_2_eq_2)
      ultimately have "v = ''.''" using uv(3) by simp
      with False show False ..
    qed
    with uv inner False show ?thesis by simp
  qed
qed

text \<open>
  The invariant of pass c): no \<open>../\<close> segment starts before the scan position. Cutting at a
  boundary keeps it, because the character before the cut is a separator.
\<close>

lemma dotdot_at_cut:
  assumes "at_boundary name k" "k \<le> length name" "i < k"
  shows "dotdot_at (take k name @ t) i \<Longrightarrow> dotdot_at name i"
proof -
  assume dd: "dotdot_at (take k name @ t) i"
  have get: "j < k \<Longrightarrow> cget (take k name @ t) j = cget name j" for j
    using assms(2) by (simp add: cget_def nth_append)
  have last: "cget (take k name @ t) (k - 1) = CHR ''/''"
    using assms by (auto simp: at_boundary_def cget_def nth_append)
  have "i + 2 < k"
  proof (rule ccontr)
    assume "\<not> ?thesis"
    with assms(3) have "k - 1 = i \<or> k - 1 = i + 1" by auto
    with last dd show False by (auto simp: dotdot_at_def)
  qed
  moreover have "j < k \<Longrightarrow> (take k name @ t) ! j = name ! j" for j
    using assms(2) by (simp add: nth_append)
  ultimately show ?thesis using dd get by (auto simp: dotdot_at_def)
qed

lemma gp_parents_clean:
  "(\<And>i. i < l \<Longrightarrow> \<not> dotdot_at name i) \<Longrightarrow> l \<le> length name \<Longrightarrow>
   gp_parents name l = (name', l') \<Longrightarrow>
   l' = length name' \<and> (\<forall>i. \<not> dotdot_at name' i) \<and>
   set (path_segs name') \<subseteq> set (path_segs name)"
proof (induction name l rule: gp_parents.induct)
  case (1 name l)
  show ?case
  proof (cases "length name \<le> l")
    case True
    have "\<not> dotdot_at name i" for i
      using 1(3)[of i] 1(4) True dotdot_at_bound [of name i] by (cases "i < l") auto
    with True 1(4,5) show ?thesis by (auto simp: gp_parents.simps)
  next
    case False
    show ?thesis
    proof (cases "dotdot_at name l")
      case True
      let ?k = "if 2 \<le> l then gp_back name (l - 1) else 0"
      let ?n = "take ?k name @ drop (l + 3) name"
      have k: "?k \<le> l" "at_boundary name ?k"
        using gp_back_le [of name "l - 1"] gp_back_boundary [of name "l - 1"]
        by (auto simp: at_boundary_def)
      have m: "l + 3 \<le> length name" "at_boundary name (l + 3)"
        using dotdot_at_bound [OF True] True by (auto simp: dotdot_at_def at_boundary_def cget_def)
      have run: "gp_parents ?n ?k = (name', l')"
        using 1(5) False True by (subst (asm) gp_parents.simps) (simp add: Let_def)
      have f1: "\<not> dotdot_at ?n i" if "i < ?k" for i
        using dotdot_at_cut [OF k(2) _ that] 1(3) [of i] that k m by auto
      have f2: "?k \<le> length ?n" using k(1) m(1) by auto
      have "l' = length name' \<and> (\<forall>i. \<not> dotdot_at name' i) \<and> set (path_segs name') \<subseteq> set (path_segs ?n)"
        using 1(1) [OF False True refl refl f1 f2 run] by blast
      moreover have "set (path_segs ?n) \<subseteq> set (path_segs name)"
        using k m by (intro set_path_segs_cut) auto
      ultimately show ?thesis by blast
    next
      case nodd: False
      have run: "gp_parents name (l + 1) = (name', l')"
        using 1(5) False nodd by (subst (asm) gp_parents.simps) simp
      have "\<not> dotdot_at name i" if "i < l + 1" for i
        using that nodd 1(3) [of i] by (cases "i = l") auto
      then show ?thesis using 1(2) [OF False nodd _ _ run] False by simp
    qed
  qed
qed

lemma no_dotdot_segs:
  assumes nodd: "\<And>i. \<not> dotdot_at s i"
    and trail: "\<And>u. s = u @ ''..'' \<Longrightarrow> u \<noteq> [] \<and> last u \<noteq> CHR ''/''"
  shows "''..'' \<notin> set (path_segs s)"
proof
  assume "''..'' \<in> set (path_segs s)"
  then obtain u v where s: "s = u @ ''..'' @ v" "u = [] \<or> last u = CHR ''/''" "v = [] \<or> hd v = CHR ''/''"
    using path_seg_occurs by blast
  show False
  proof (cases v)
    case Nil
    with s trail [of u] show False by auto
  next
    case (Cons c t)
    with s have "dotdot_at s (length u)"
      by (cases u rule: rev_cases) (auto simp: dotdot_at_def cget_append nth_append numeral_2_eq_2 numeral_3_eq_3)
    with nodd show False by blast
  qed
qed

lemma gp_trailing_parent_clean:
  assumes "\<And>i. \<not> dotdot_at name i" and l: "l = length name"
  shows "''..'' \<notin> set (path_segs (gp_trailing_parent name l)) \<and>
    set (path_segs (gp_trailing_parent name l)) \<subseteq> set (path_segs name) \<union> {[]}"
proof -
  define k where "k = (if 4 \<le> l then gp_back name (l - 3) else 0)"
  have k: "at_boundary name k" "k \<le> length name"
    using gp_back_le [of name "l - 3"] gp_back_boundary [of name "l - 3"] l
    by (auto simp: k_def at_boundary_def)
  have cut: "''..'' \<notin> set (path_segs (take k name)) \<and> set (path_segs (take k name)) \<subseteq> set (path_segs name) \<union> {[]}"
  proof
    show "''..'' \<notin> set (path_segs (take k name))"
    proof (rule no_dotdot_segs)
      show "\<not> dotdot_at (take k name) i" for i
        using dotdot_at_cut [OF k, of i "[]"] dotdot_at_bound [of "take k name" i] assms(1) by (cases "i < k") auto
      show "u \<noteq> [] \<and> last u \<noteq> CHR ''/''" if "take k name = u @ ''..''" for u
      proof -
        have "k > 0" using that by (cases k) auto
        then have "last (take k name) = CHR ''/''"
          using k take_Suc_conv_app_nth [of "k - 1" name] by (simp add: at_boundary_def)
        with that show ?thesis by simp
      qed
    qed
  qed (rule set_path_segs_take [OF k])
  consider "l = 2 \<and> name ! 0 = CHR ''.'' \<and> name ! 1 = CHR ''.''"
    | "l > 2 \<and> name ! (l - 1) = CHR ''.'' \<and> name ! (l - 2) = CHR ''.'' \<and> name ! (l - 3) = CHR ''/''"
    | "\<not> (l = 2 \<and> name ! 0 = CHR ''.'' \<and> name ! 1 = CHR ''.'')"
      "\<not> (l > 2 \<and> name ! (l - 1) = CHR ''.'' \<and> name ! (l - 2) = CHR ''.'' \<and> name ! (l - 3) = CHR ''/'')"
    by blast
  then show ?thesis
  proof cases
    case 1
    then show ?thesis by (simp add: gp_trailing_parent_def)
  next
    case 2
    then have "gp_trailing_parent name l = take k name" by (simp add: gp_trailing_parent_def k_def)
    with cut show ?thesis by simp
  next
    case 3
    then have same: "gp_trailing_parent name l = name" by (auto simp: gp_trailing_parent_def)
    have "''..'' \<notin> set (path_segs name)"
    proof (rule no_dotdot_segs [OF assms(1)])
      show "u \<noteq> [] \<and> last u \<noteq> CHR ''/''" if u: "name = u @ ''..''" for u
        using 3 l by (cases "u = []") (auto simp: u nth_append last_conv_nth)
    qed
    with same show ?thesis by auto
  qed
qed

lemma gp_dots_getparents:
  assumes "gp_dots name d d = (name1, w)" "d = length (takeWhile (\<lambda>c. c \<noteq> CHR ''.'') name)"
  shows "w \<le> length name1 \<and> take w name1 = strip_dots True name"
proof -
  have d: "d \<le> length name" using assms(2) by (simp add: length_takeWhile_le)
  have dotfree: "CHR ''.'' \<notin> set (take d name)"
    using assms(2) by (metis (mono_tags, lifting) set_takeWhileD takeWhile_eq_take)
  have "strip_dots True (take d name @ drop d name) =
      take d name @ strip_dots (if take d name = [] then True else last (take d name) = CHR ''/'') (drop d name)"
    by (rule strip_dots_prefix [OF dotfree])
  moreover have "(if take d name = [] then True else last (take d name) = CHR ''/'') \<longleftrightarrow> at_boundary name d"
    using d by (auto simp: at_boundary_def last_conv_nth)
  ultimately show ?thesis using gp_dots_strip [OF order_refl d assms(1)] by simp
qed

lemma gp_trailing_dot_prefix:
  assumes "gp_dots name d d = (name1, w)" "d = length (takeWhile (\<lambda>c. c \<noteq> CHR ''.'') name)"
    and n2: "name2 = gp_trailing_dot name1 w"
  shows "d \<le> length name2 \<and> (\<forall>i < d. \<not> dotdot_at name2 i)"
proof -
  let ?p = "takeWhile (\<lambda>c. c \<noteq> CHR ''.'') name"
  have dotfree: "CHR ''.'' \<notin> set ?p" by (auto dest: set_takeWhileD)
  note w = gp_dots_getparents [OF assms(1,2)]
  have "strip_dots True (?p @ dropWhile (\<lambda>c. c \<noteq> CHR ''.'') name) =
      ?p @ strip_dots (if ?p = [] then True else last ?p = CHR ''/'') (dropWhile (\<lambda>c. c \<noteq> CHR ''.'') name)"
    by (rule strip_dots_prefix [OF dotfree])
  then obtain r where r: "take w name1 = ?p @ r" using w by auto
  define w' where "w' = length name2"
  have cut: "name2 = take w' name1" "w' = w \<or> (w' = w - 1 \<and> 1 \<le> w \<and> name1 ! (w - 1) = CHR ''.'')"
    using w by (auto simp: n2 w'_def gp_trailing_dot_def Let_def)
  have "length (take w name1) = w" using conjunct1 [OF w] by (simp only: length_take min.absorb2)
  then have "d \<le> w" using r assms(2) by (metis length_append le_add1)
  have nth: "name1 ! i \<noteq> CHR ''.''" if "i < d" for i
  proof -
    have "name1 ! i = take w name1 ! i" using that \<open>d \<le> w\<close> by simp
    also have "\<dots> = ?p ! i" using that assms(2) by (simp add: r nth_append)
    also have "\<dots> \<in> set ?p" using that assms(2) by simp
    finally show ?thesis using dotfree by metis
  qed
  have "d \<le> w'"
  proof (cases "w' = w")
    case False
    with cut(2) nth [of "w - 1"] show ?thesis using \<open>d \<le> w\<close> by (cases "d = w") auto
  qed (use \<open>d \<le> w\<close> in simp)
  moreover have "\<not> dotdot_at name2 i" if "i < d" for i
    using nth [OF that] \<open>d \<le> w'\<close> that cut(1) by (auto simp: dotdot_at_def dest!: cget_not_NUL)
  ultimately show ?thesis by (simp add: w'_def)
qed

lemma getparents_segs:
  "''..'' \<notin> set (path_segs (getparents name)) \<and> ''.'' \<notin> set (path_segs (getparents name))"
proof -
  define d where "d = length (takeWhile (\<lambda>c. c \<noteq> CHR ''.'') name)"
  obtain name1 w where p1: "gp_dots name d d = (name1, w)" by fastforce
  define name2 where "name2 = gp_trailing_dot name1 w"
  obtain name3 l where p3: "gp_parents name2 d = (name3, l)" by fastforce
  have res: "getparents name = gp_trailing_parent name3 l"
    by (simp add: getparents_def Let_def p1 p3 flip: d_def name2_def)
  note p1' = gp_dots_getparents [OF p1 d_def]
  have dot: "''.'' \<notin> set (path_segs name2)"
    unfolding name2_def using p1' strip_dots_inner [of name] by (intro gp_trailing_dot_segs) simp_all
  have dn: "d \<le> length name2 \<and> (\<forall>i < d. \<not> dotdot_at name2 i)"
    by (rule gp_trailing_dot_prefix [OF p1 d_def name2_def])
  then have "l = length name3 \<and> (\<forall>i. \<not> dotdot_at name3 i) \<and> set (path_segs name3) \<subseteq> set (path_segs name2)"
    by (intro gp_parents_clean [OF _ _ p3]) auto
  with gp_trailing_parent_clean [of name3 l] dot res show ?thesis by auto
qed

text \<open>
  C14. The security property of \<open>ap_getparents\<close>: whatever the path, the cleaned path has no
  \<open>..\<close> segment and no \<open>.\<close> segment.
\<close>

theorem getparents_no_dot_segments:
  "''..'' \<notin> set (path_segs (getparents name)) \<and> ''.'' \<notin> set (path_segs (getparents name))"
  by (rule getparents_segs)

section \<open>Clean paths are kept\<close>

lemma strip_dots_id:
  "path_segs s = x # xs \<Longrightarrow> ''.'' \<notin> set (if b then x # xs else xs) \<Longrightarrow> strip_dots b s = s"
proof (induction b s arbitrary: x xs rule: strip_dots.induct)
  case (3 b c d s)
  obtain y ys where ps: "path_segs (d # s) = y # ys" by (metis path_segs_ne list.exhaust)
  have keep: "\<not> (b \<and> c = CHR ''.'' \<and> d = CHR ''/'')" using "3.prems" by auto
  have "strip_dots (c = CHR ''/'') (d # s) = d # s"
    using "3.prems" ps by (intro "3.IH"(2) [OF keep ps]) (auto split: if_splits)
  with keep show ?case by auto
qed auto

lemma gp_parents_id:
  "(\<And>i. \<not> dotdot_at name i) \<Longrightarrow> l \<le> length name \<Longrightarrow> gp_parents name l = (name, length name)"
proof (induction "length name - l" arbitrary: l)
  case 0
  then show ?case by (subst gp_parents.simps) simp
next
  case (Suc n)
  then have "gp_parents name (l + 1) = (name, length name)" by simp
  with Suc.prems Suc.hyps(2) show ?case by (subst gp_parents.simps) auto
qed

lemma no_dotdot_at: "''..'' \<notin> set (path_segs s) \<Longrightarrow> \<not> dotdot_at s i"
proof
  assume no: "''..'' \<notin> set (path_segs s)" and dd: "dotdot_at s i"
  from dotdot_at_bound [OF dd] have len: "i + 2 < length s" .
  then have "s = take i s @ ''..'' @ drop (i + 2) s"
    using dd id_take_nth_drop [of i s] Cons_nth_drop_Suc [of "i + 1" s]
    by (simp add: dotdot_at_def cget_def)
  moreover have "take i s = [] \<or> last (take i s) = CHR ''/''"
  proof (cases "i = 0")
    case False
    with dd len take_Suc_conv_app_nth [of "i - 1" s] show ?thesis by (simp add: dotdot_at_def)
  qed simp
  moreover have "hd (drop (i + 2) s) = CHR ''/''"
    using dd len by (simp add: dotdot_at_def cget_def hd_drop_conv_nth)
  ultimately have "''..'' \<in> set (path_segs s)"
    using seg_occurs_converse [of "''..''" "take i s" "drop (i + 2) s"] by simp
  with no show False ..
qed

lemma gp_trailing_parent_change:
  assumes "gp_trailing_parent name (length name) \<noteq> name"
  obtains u where "name = u @ ''..''" "u = [] \<or> last u = CHR ''/''"
proof -
  let ?l = "length name"
  have c: "2 \<le> ?l" "name ! (?l - 1) = CHR ''.''" "name ! (?l - 2) = CHR ''.''"
    "?l = 2 \<or> name ! (?l - 3) = CHR ''/''"
    using assms by (auto simp: gp_trailing_parent_def split: if_splits)
  have "name = take (?l - 2) name @ ''..''"
    using c id_take_nth_drop [of "?l - 2" name] Cons_nth_drop_Suc [of "?l - 1" name]
    by (simp add: Suc_diff_Suc numeral_2_eq_2)
  moreover have "take (?l - 2) name = [] \<or> last (take (?l - 2) name) = CHR ''/''"
    using c take_Suc_conv_app_nth [of "?l - 3" name]
    by (auto simp: Suc_diff_Suc numeral_2_eq_2 numeral_3_eq_3)
  ultimately show ?thesis by (rule that)
qed

text \<open>
  A path that has no dot segments is returned unchanged; with the previous property this makes the clean-up
  idempotent, so a path that is cleaned twice (by the core and by a mapper) is not changed
  the second time.
\<close>

theorem getparents_clean_unchanged:
  assumes dot: "''.'' \<notin> set (path_segs name)" and dd: "''..'' \<notin> set (path_segs name)"
  shows "getparents name = name"
proof -
  define d where "d = length (takeWhile (\<lambda>c. c \<noteq> CHR ''.'') name)"
  obtain name1 w where p1: "gp_dots name d d = (name1, w)" by fastforce
  have "strip_dots True name = name"
    using dot by (cases "path_segs name") (auto intro: strip_dots_id)
  then have t: "take w name1 = name" "w \<le> length name1" using gp_dots_getparents [OF p1 d_def] by simp_all
  then have w: "w = length name" by auto
  have nth: "i < w \<Longrightarrow> name1 ! i = name ! i" for i using t(1) by (metis nth_take)
  have n2: "gp_trailing_dot name1 w = name"
  proof (rule ccontr)
    assume "gp_trailing_dot name1 w \<noteq> name"
    then have cut: "1 \<le> w" "name ! (w - 1) = CHR ''.''" "w = 1 \<or> name ! (w - 2) = CHR ''/''"
      using t nth [of "w - 1"] nth [of "w - 2"] nth [of 0]
      by (auto simp: gp_trailing_dot_def Let_def split: if_splits)
    then have "name = take (w - 1) name @ ''.''" using w take_Suc_conv_app_nth [of "w - 1" name] by simp
    moreover have "take (w - 1) name = [] \<or> last (take (w - 1) name) = CHR ''/''"
      using cut w take_Suc_conv_app_nth [of "w - 2" name] by (auto simp: Suc_diff_Suc numeral_2_eq_2)
    ultimately have "''.'' \<in> set (path_segs name)"
      using seg_occurs_converse [of "''.''" "take (w - 1) name" "[]"] by simp
    with dot show False ..
  qed
  have "gp_parents name d = (name, length name)"
    using no_dotdot_at [OF dd] by (intro gp_parents_id) (simp_all add: d_def length_takeWhile_le)
  then have "getparents name = gp_trailing_parent name (length name)"
    by (simp add: getparents_def Let_def p1 n2 flip: d_def)
  also have "\<dots> = name"
  proof (rule ccontr)
    assume "gp_trailing_parent name (length name) \<noteq> name"
    then obtain u where u: "name = u @ ''..''" "u = [] \<or> last u = CHR ''/''"
      by (rule gp_trailing_parent_change)
    then have "''..'' \<in> set (path_segs name)"
      using seg_occurs_converse [of "''..''" u "[]"] by simp
    with dd show False ..
  qed
  finally show ?thesis .
qed

theorem getparents_clean_unchanged_witness: "getparents ''/a..b/.c/'' = ''/a..b/.c/''"
  by (rule getparents_clean_unchanged) code_simp+

section \<open>Slashes and directory prefixes\<close>

text \<open>
  \<open>ap_no2slash\<close> writes through \<open>d\<close>, which never overtakes the reading pointer \<open>s\<close>: the
  result is the list of the bytes written.
\<close>

function (sequential) no2slash :: "cstring \<Rightarrow> cstring" where
  "no2slash [] = []"
| "no2slash (c # s) =
     (if c = CHR ''/'' then c # no2slash (dropWhile (\<lambda>x. x = CHR ''/'') s) else c # no2slash s)"
  by pat_completeness auto
termination
  by (relation "measure length") (auto simp: le_imp_less_Suc)

text \<open>
  \<open>ap_make_dirstr_prefix\<close>: the bytes written to \<open>d\<close>. The loop body is
  \<open>dirstr_prefix_loop\<close>; \<open>--n\<close> happens at each slash.
\<close>

fun dirstr_prefix_loop :: "cstring \<Rightarrow> int \<Rightarrow> cstring" where
  "dirstr_prefix_loop [] n = [CHR ''/'']"
| "dirstr_prefix_loop (c # s) n =
     (if c = CHR ''/''
      then (if n - 1 = 0 then [CHR ''/''] else c # dirstr_prefix_loop s (n - 1))
      else c # dirstr_prefix_loop s n)"

definition make_dirstr_prefix :: "cstring \<Rightarrow> int \<Rightarrow> cstring" where
  "make_dirstr_prefix s n = (if n < 1 then [CHR ''/''] else dirstr_prefix_loop s n)"

definition make_dirstr_parent :: "cstring \<Rightarrow> cstring" where
  "make_dirstr_parent s =
     (case strrchr s (CHR ''/'') of None \<Rightarrow> [] | Some i \<Rightarrow> take (i + 1) s)"

fun count_dirs :: "cstring \<Rightarrow> int" where
  "count_dirs [] = 0"
| "count_dirs (c # path) = (if c = CHR ''/'' then 1 else 0) + count_dirs path"

definition make_full_path :: "cstring \<Rightarrow> cstring \<Rightarrow> cstring" where
  "make_full_path src1 src2 =
     (if length src1 = 0 then CHR ''/'' # src2
      else src1 @ (if src1 ! (length src1 - 1) \<noteq> CHR ''/'' then [CHR ''/''] else []) @ src2)"

lemma no2slash_simps [simp]:
  "no2slash (CHR ''/'' # CHR ''/'' # s) = no2slash (CHR ''/'' # s)"
  "c \<noteq> CHR ''/'' \<Longrightarrow> no2slash (c # s) = c # no2slash s"
  by simp_all

lemma no2slash_hd: "s \<noteq> [] \<Longrightarrow> no2slash s \<noteq> [] \<and> hd (no2slash s) = hd s"
  by (cases s) auto

fun has_2slash :: "cstring \<Rightarrow> bool" where
  "has_2slash (c # d # s) \<longleftrightarrow> (c = CHR ''/'' \<and> d = CHR ''/'') \<or> has_2slash (d # s)"
| "has_2slash s \<longleftrightarrow> False"

lemma has_2slash_Cons:
  "has_2slash (c # s) \<longleftrightarrow> (s \<noteq> [] \<and> c = CHR ''/'' \<and> hd s = CHR ''/'') \<or> has_2slash s"
  by (cases s) auto

lemma no2slash_no_2slash: "\<not> has_2slash (no2slash s)"
proof (induction s rule: no2slash.induct)
  case (2 c s)
  show ?case
  proof (cases "c = CHR ''/''")
    case True
    let ?d = "dropWhile (\<lambda>x. x = CHR ''/'') s"
    have "no2slash ?d \<noteq> [] \<Longrightarrow> hd (no2slash ?d) \<noteq> CHR ''/''"
      using no2slash_hd [of ?d] hd_dropWhile_not [of "\<lambda>x. x = CHR ''/''" s] by (cases "?d = []") auto
    with 2 True show ?thesis by (auto simp: has_2slash_Cons)
  next
    case False
    with 2 show ?thesis by (simp add: has_2slash_Cons)
  qed
qed simp

lemma no2slash_id: "\<not> has_2slash s \<Longrightarrow> no2slash s = s"
  by (induction s rule: has_2slash.induct) auto

lemma no2slash_segs_gen:
  "filter (\<lambda>g. g \<noteq> []) (path_segs (no2slash s)) = filter (\<lambda>g. g \<noteq> []) (path_segs s) \<and>
   hd (path_segs (no2slash s)) = hd (path_segs s)"
proof (induction s rule: no2slash.induct)
  case (2 c s)
  show ?case
  proof (cases "c = CHR ''/''")
    case True
    have "filter (\<lambda>g. g \<noteq> []) (path_segs (dropWhile (\<lambda>x. x = CHR ''/'') s)) =
        filter (\<lambda>g. g \<noteq> []) (path_segs s)" by (induction s) auto
    with True 2 show ?thesis by simp
  next
    case False
    obtain x xs y ys where "path_segs (no2slash s) = x # xs" "path_segs s = y # ys"
      by (metis path_segs_ne list.exhaust)
    with False 2 show ?thesis by (auto split: if_splits)
  qed
qed simp

text \<open>
  \<open>ap_no2slash\<close> is right: the result has no two adjacent slashes, a path without them is
  not changed, and the non-empty segments of the path stay the same and in the same order.
\<close>

theorem no2slash_correct:
  "\<not> has_2slash (no2slash s) \<and> no2slash (no2slash s) = no2slash s \<and>
   filter (\<lambda>g. g \<noteq> []) (path_segs (no2slash s)) = filter (\<lambda>g. g \<noteq> []) (path_segs s)"
  by (simp add: no2slash_no_2slash no2slash_id no2slash_segs_gen)

lemma count_dirs_nonneg [simp]: "0 \<le> count_dirs s"
  by (induction s) auto

lemma dirstr_prefix_loop_count:
  "1 \<le> n \<Longrightarrow> n \<le> count_dirs s \<Longrightarrow>
   \<exists>t. s = dirstr_prefix_loop s n @ t \<and> count_dirs (dirstr_prefix_loop s n) = n"
proof (induction s n rule: dirstr_prefix_loop.induct)
  case (2 c s n)
  show ?case
  proof (cases "c = CHR ''/'' \<and> n = 1")
    case False
    then have "\<exists>t. s = dirstr_prefix_loop s (if c = CHR ''/'' then n - 1 else n) @ t \<and>
        count_dirs (dirstr_prefix_loop s (if c = CHR ''/'' then n - 1 else n)) = (if c = CHR ''/'' then n - 1 else n)"
      using 2 by auto
    with False show ?thesis by (auto split: if_splits)
  qed auto
qed simp

lemma dirstr_prefix_loop_slash: "last (dirstr_prefix_loop s n) = CHR ''/'' \<and> dirstr_prefix_loop s n \<noteq> []"
  by (induction s n rule: dirstr_prefix_loop.induct) auto

text \<open>
  What the directory walk relies on: for \<open>n\<close> between 1 and the number of slashes,
  \<open>ap_make_dirstr_prefix\<close> yields the prefix of the path that ends in its \<open>n\<close>-th slash.
\<close>

theorem make_dirstr_prefix_nth:
  assumes "1 \<le> n" "n \<le> count_dirs s"
  shows "\<exists>t. s = make_dirstr_prefix s n @ t \<and> count_dirs (make_dirstr_prefix s n) = n \<and>
    last (make_dirstr_prefix s n) = CHR ''/''"
  using dirstr_prefix_loop_count [OF assms] dirstr_prefix_loop_slash [of s n] assms(1)
  by (auto simp: make_dirstr_prefix_def)

theorem make_dirstr_prefix_nth_witness:
  "\<exists>t. ''/a/b'' = make_dirstr_prefix ''/a/b'' 2 @ t \<and> count_dirs (make_dirstr_prefix ''/a/b'' 2) = 2 \<and>
    last (make_dirstr_prefix ''/a/b'' 2) = CHR ''/''"
  by (rule make_dirstr_prefix_nth) simp_all

text \<open>
  The example in the comment of the function, \<open>c:/a/b 3 ==> c:/a/b\<close>, is not what the code
  does: the loop always writes a slash before it stops.
\<close>

lemma make_dirstr_prefix_doc_example: "make_dirstr_prefix ''c:/a/b'' 3 = ''c:/a/b/''"
  by code_simp

lemma make_dirstr_parent_slash:
  "make_dirstr_parent s = [] \<or> (last (make_dirstr_parent s) = CHR ''/'' \<and>
     CHR ''/'' \<notin> set (drop (length (make_dirstr_parent s)) s))"
proof (cases "strrchr s (CHR ''/'')")
  case (Some i)
  from strrchr_SomeD [OF this] Some show ?thesis
    by (simp add: make_dirstr_parent_def take_Suc_conv_app_nth)
qed (simp add: make_dirstr_parent_def)

end
