(* ===== verification/Util_List.thy ===== *)
theory Util_List
  imports Prelude Test_Char
begin

text \<open>
  The list and token syntax of HTTP header fields, \<open>server/util.c\<close>:
  \<open>ap_size_list_item\<close>, \<open>ap_get_list_item\<close>, \<open>ap_find_list_item\<close>, \<open>ap_get_token\<close>,
  \<open>ap_find_token\<close> and \<open>ap_find_last_token\<close>. A pointer into a field is the suffix it
  points to.
\<close>

section \<open>List items\<close>

text \<open>
  The state of the three item scanners: \<open>in_qpair\<close>, \<open>in_qstr\<close> and the nesting depth
  \<open>in_com\<close> of comments.
\<close>

record item_state =
  in_qpair :: bool
  in_qstr :: bool
  in_com :: nat

definition item_start :: item_state where
  "item_start = \<lparr>in_qpair = False, in_qstr = False, in_com = 0\<rparr>"

definition is_item_dead :: "item_state \<Rightarrow> bool" where
  "is_item_dead st \<longleftrightarrow> in_qpair st \<or> in_qstr st \<or> in_com st \<noteq> 0"

definition item_step :: "item_state \<Rightarrow> char \<Rightarrow> item_state" where
  "item_step st c =
     (if in_qpair st then st\<lparr>in_qpair := False\<rparr>
      else if c = BSLASH then st\<lparr>in_qpair := True\<rparr>
      else if c = DQUOTE then (if in_com st = 0 then st\<lparr>in_qstr := \<not> in_qstr st\<rparr> else st)
      else if c = CHR ''('' then (if \<not> in_qstr st then st\<lparr>in_com := in_com st + 1\<rparr> else st)
      else if c = CHR '')'' then (if in_com st \<noteq> 0 then st\<lparr>in_com := in_com st - 1\<rparr> else st)
      else st)"

definition is_list_sep :: "char \<Rightarrow> bool" where
  "is_list_sep c \<longleftrightarrow> c = CHR '','' \<or> c_isspace c"

text \<open>The number of bytes the scan for the end of the item passes over.\<close>

fun item_len :: "item_state \<Rightarrow> cstring \<Rightarrow> nat" where
  "item_len st [] = 0"
| "item_len st (c # ptr) =
     (if is_item_dead st \<or> c \<noteq> CHR '','' then Suc (item_len (item_step st c) ptr) else 0)"

text \<open>The token with its length (NULL is \<open>None\<close>), and the new value of \<open>*field\<close>.\<close>

definition size_list_item :: "cstring \<Rightarrow> (cstring \<times> nat) option \<times> cstring" where
  "size_list_item field =
     (let token = dropWhile is_list_sep field;
          n = item_len item_start token
      in if n = 0 then (None, token)
         else (Some (token, n), dropWhile is_list_sep (drop n token)))"

text \<open>
  The copy loop of \<open>ap_get_list_item\<close>: the bytes written for one input byte, and the new
  value of \<open>addspace\<close>.
\<close>

definition item_emit :: "item_state \<Rightarrow> int \<Rightarrow> char \<Rightarrow> cstring \<times> int" where
  "item_emit st addspace c =
     (if in_qpair st then ([c], addspace)
      else if c = BSLASH \<or> c = DQUOTE \<or> c = CHR ''('' then
        ((if addspace = 1 then [CHR '' ''] else []) @ [c], 0)
      else if c = CHR '')'' then ([c], 0)
      else if c = CHR '' '' \<or> c = TAB then
        (if addspace \<noteq> 0 then ([], addspace)
         else if in_com st \<noteq> 0 \<or> in_qstr st then ([c], addspace)
         else ([], 1))
      else if c = CHR ''='' \<or> c = CHR ''/'' \<or> c = CHR '';'' then
        ([c], if \<not> (in_com st \<noteq> 0 \<or> in_qstr st) then -1 else addspace)
      else
        ((if addspace = 1 then [CHR '' ''] else []) @
           [if in_com st \<noteq> 0 \<or> in_qstr st then c else c_tolower c], 0))"

fun list_item_copy :: "item_state \<Rightarrow> int \<Rightarrow> cstring \<Rightarrow> cstring" where
  "list_item_copy st addspace [] = []"
| "list_item_copy st addspace (c # ptr) =
     (if is_item_dead st \<or> c \<noteq> CHR '','' then
        fst (item_emit st addspace c) @
        list_item_copy (item_step st c) (snd (item_emit st addspace c)) ptr
      else [])"

definition get_list_item :: "cstring \<Rightarrow> cstring option \<times> cstring" where
  "get_list_item field =
     (case size_list_item field of
        (None, field') \<Rightarrow> (None, field')
      | (Some (tok_start, tok_len), field') \<Rightarrow>
          (Some (list_item_copy item_start 0 tok_start), field'))"

text \<open>
  The copy never runs past the buffer of \<open>tok_len + 1\<close> bytes: a pending space is one that was
  read and not written.
\<close>

lemma list_item_copy_length:
  "length (list_item_copy st addspace ptr) \<le> item_len st ptr + (if addspace = 1 then 1 else 0)"
proof (induction ptr arbitrary: st addspace)
  case (Cons c ptr)
  have "length (fst (item_emit st addspace c)) + (if snd (item_emit st addspace c) = 1 then 1 else 0)
          \<le> Suc (if addspace = 1 then 1 else 0)"
    by (simp add: item_emit_def)
  with Cons.IH [of "item_step st c" "snd (item_emit st addspace c)"] show ?case by auto
qed simp

text \<open>
  \<open>ap_get_list_item\<close> allocates \<open>tok_len + 1\<close> bytes from the length that
  \<open>ap_size_list_item\<close> measures in a first scan and fills them in a second one; for every
  header field the bytes the second scan writes, although it inserts spaces of its own, never
  exceed the measured length.
\<close>

theorem get_list_item_fits:
  "case size_list_item field of
     (None, rest) \<Rightarrow> get_list_item field = (None, rest)
   | (Some (tok_start, tok_len), rest) \<Rightarrow>
       \<exists>item. get_list_item field = (Some item, rest) \<and> length item \<le> tok_len
               \<and> 0 < tok_len \<and> tok_len \<le> length tok_start"
proof -
  have len: "item_len st ptr \<le> length ptr" for st ptr by (induction st ptr rule: item_len.induct) auto
  show ?thesis
    using list_item_copy_length [of item_start 0 "dropWhile is_list_sep field"]
      len [of item_start "dropWhile is_list_sep field"]
    by (auto simp: get_list_item_def size_list_item_def Let_def)
qed

text \<open>All the items of a field, by repeated calls.\<close>

lemma size_list_item_decreases:
  assumes "size_list_item field = (Some t, rest)"
  shows "length rest < length field"
proof -
  let ?token = "dropWhile is_list_sep field"
  let ?n = "item_len item_start ?token"
  have n: "?n \<noteq> 0" and rest: "rest = dropWhile is_list_sep (drop ?n ?token)"
    using assms by (auto simp: size_list_item_def Let_def split: if_splits)
  then have "?token \<noteq> []" by (metis item_len.simps(1))
  then have "length (drop ?n ?token) < length ?token" using n by simp
  also have "\<dots> \<le> length field" by simp
  finally show ?thesis using rest length_dropWhile_le [of is_list_sep "drop ?n ?token"] by simp
qed

function list_items :: "cstring \<Rightarrow> cstring list" where
  "list_items field =
     (case get_list_item field of (None, _) \<Rightarrow> [] | (Some item, rest) \<Rightarrow> item # list_items rest)"
  by pat_completeness auto
termination
proof (relation "measure length", goal_cases)
  case (2 field x rest item)
  then show ?case
    using size_list_item_decreases [of field _ rest]
    by (auto simp: get_list_item_def split: prod.splits option.splits)
qed simp

declare list_items.simps [simp del]

section \<open>Looking for an item\<close>

text \<open>
  \<open>ap_find_list_item\<close>: one byte of the inner loop. \<open>pos\<close> is the part of \<open>tok\<close> still to be
  matched; a mismatch clears \<open>good\<close>, after which \<open>pos\<close> is not read any more.
\<close>

definition good_match :: "bool \<times> cstring \<Rightarrow> char \<Rightarrow> bool \<times> cstring" where
  "good_match gp c =
     (case gp of (good, pos) \<Rightarrow> if good then (cget pos 0 = c, tl pos) else (False, pos))"

definition find_step ::
  "item_state \<Rightarrow> int \<Rightarrow> bool \<times> cstring \<Rightarrow> char \<Rightarrow> int \<times> (bool \<times> cstring)" where
  "find_step st addspace gp c =
     (let spaced = (if addspace = 1 then good_match gp (CHR '' '') else gp)
      in if in_qpair st then (addspace, good_match gp c)
         else if c = BSLASH \<or> c = DQUOTE \<or> c = CHR ''('' then (0, good_match spaced c)
         else if c = CHR '')'' then (0, good_match gp c)
         else if c = CHR '' '' \<or> c = TAB then
           (if addspace \<noteq> 0 \<or> \<not> fst gp then (addspace, gp)
            else if in_com st \<noteq> 0 \<or> in_qstr st then (addspace, good_match gp c)
            else (1, gp))
         else if c = CHR ''='' \<or> c = CHR ''/'' \<or> c = CHR '';'' then
           (if \<not> (in_com st \<noteq> 0 \<or> in_qstr st) then -1 else addspace, good_match gp c)
         else if \<not> fst gp then (addspace, gp)
         else (0, good_match spaced (if in_com st \<noteq> 0 \<or> in_qstr st then c else c_tolower c)))"

text \<open>The inner loop: \<open>addspace\<close>, the outcome of the match and the rest of the line.\<close>

fun find_item :: "item_state \<Rightarrow> int \<Rightarrow> bool \<times> cstring \<Rightarrow> cstring \<Rightarrow> int \<times> (bool \<times> cstring) \<times> cstring" where
  "find_item st addspace gp [] = (addspace, gp, [])"
| "find_item st addspace gp (c # ptr) =
     (if is_item_dead st \<or> c \<noteq> CHR '','' then
        (case find_step st addspace gp c of
           (addspace', gp') \<Rightarrow> find_item (item_step st c) addspace' gp' ptr)
      else (addspace, gp, c # ptr))"

lemma find_item_rest_length: "length (snd (snd (find_item st addspace gp ptr))) \<le> length ptr"
  by (induction st addspace gp ptr rule: find_item.induct) (auto split: prod.splits simp: le_Suc_eq)

lemma find_item_rest_less:
  assumes "c \<noteq> CHR '',''"
  shows "length (snd (snd (find_item st addspace gp (c # ptr)))) < Suc (length ptr)"
  using assms find_item_rest_length [of "item_step st c" _ _ ptr]
  by (simp add: less_Suc_eq_le split: prod.splits)

text \<open>
  The outer loop. \<open>addspace\<close> is declared before it and keeps its value from one item to the
  next. At the end of an item the other three variables are 0 again, or the line is at its
  end, so they are restarted here.
\<close>

function find_list_loop :: "int \<Rightarrow> cstring \<Rightarrow> cstring \<Rightarrow> bool" where
  "find_list_loop addspace tok ptr =
     (case dropWhile is_list_sep ptr of
        [] \<Rightarrow> False
      | c # s \<Rightarrow>
          (case find_item item_start addspace (True, tok) (c # s) of
             (addspace', (good, pos), rest) \<Rightarrow>
               (let good' = (good \<and> pos = [])
                in if rest = [] \<or> good' then good' else find_list_loop addspace' tok rest)))"
  by pat_completeness auto
termination
proof (relation "measure (\<lambda>(addspace, tok, ptr). length ptr)", goal_cases)
  case (2 addspace tok ptr c s x addspace' y rest good pos)
  have "c \<noteq> CHR '',''" using dropWhile_Cons_not [OF 2(1)] by (auto simp: is_list_sep_def)
  from find_item_rest_less [OF this, of item_start addspace "(True, tok)" s] 2
  have "length rest < Suc (length s)" by (metis snd_conv)
  moreover have "length s < length ptr" using dropWhile_Cons_less [OF 2(1)] .
  ultimately show ?case by simp
qed simp

declare find_list_loop.simps [simp del]

definition find_list_item :: "cstring option \<Rightarrow> cstring option \<Rightarrow> bool" where
  "find_list_item line tok =
     (case (line, tok) of (Some l, Some t) \<Rightarrow> find_list_loop 0 t l | _ \<Rightarrow> False)"

text \<open>
  Within one item the search agrees with \<open>ap_get_list_item\<close>: the flag is still set exactly
  when the bytes written so far are a prefix of \<open>tok\<close>, and then \<open>pos\<close> is what is left.
\<close>

definition tracks :: "bool \<times> cstring \<Rightarrow> cstring \<Rightarrow> cstring \<Rightarrow> bool" where
  "tracks gp tok out \<longleftrightarrow> (if fst gp then tok = out @ snd gp else \<not> (\<exists>r. tok = out @ r))"

lemma tracks_match:
  assumes "tracks gp tok out" "c \<noteq> NUL"
  shows "tracks (good_match gp c) tok (out @ [c])"
proof (cases gp)
  case (Pair good pos)
  show ?thesis
  proof (cases good)
    case True
    with assms Pair show ?thesis
      by (cases pos) (auto simp: tracks_def good_match_def)
  next
    case False
    with assms Pair show ?thesis by (auto simp: tracks_def good_match_def)
  qed
qed

lemma tracks_extend: "tracks gp tok out \<Longrightarrow> \<not> fst gp \<Longrightarrow> tracks gp tok (out @ x)"
  by (auto simp: tracks_def)

lemma tracks_fold:
  "tracks gp tok out \<Longrightarrow> NUL \<notin> set w \<Longrightarrow> tracks (fold (\<lambda>x g. good_match g x) w gp) tok (out @ w)"
proof (induction w arbitrary: gp out)
  case (Cons x w)
  have "x \<noteq> NUL" using Cons.prems(2) by auto
  with Cons.IH [OF tracks_match [OF Cons.prems(1), of x]] Cons.prems(2) show ?case by simp
qed simp

lemma find_step_good:
  assumes "fst gp"
  shows "find_step st addspace gp c =
           (snd (item_emit st addspace c), fold (\<lambda>x g. good_match g x) (fst (item_emit st addspace c)) gp)"
proof (cases "in_com st \<noteq> 0 \<or> in_qstr st")
  case True
  then show ?thesis using assms by (simp add: find_step_def item_emit_def Let_def)
next
  case False
  then show ?thesis using assms by (simp add: find_step_def item_emit_def Let_def)
qed

lemma item_emit_not_NUL: "c \<noteq> NUL \<Longrightarrow> NUL \<notin> set (fst (item_emit st addspace c))"
  using c_tolower_NUL_iff [of c] by (auto simp: item_emit_def eq_commute [of NUL])

lemma good_match_bad: "\<not> fst gp \<Longrightarrow> \<not> fst (good_match gp c)"
  by (cases gp) (simp add: good_match_def)

lemma find_step_bad: "\<not> fst gp \<Longrightarrow> \<not> fst (snd (find_step st addspace gp c))"
  by (simp add: find_step_def Let_def good_match_bad)

lemma find_step_tracks:
  assumes tr: "tracks gp tok out" and c: "c \<noteq> NUL"
    and a: "fst gp \<Longrightarrow> addspace = b"
    and e: "item_emit st b c = (w, b')" and f: "find_step st addspace gp c = (addspace', gp')"
  shows "tracks gp' tok (out @ w) \<and> (fst gp' \<longrightarrow> addspace' = b')"
proof (cases "fst gp")
  case False
  then have "\<not> fst gp'" using f find_step_bad [of gp st addspace c] by simp
  moreover have "\<not> (\<exists>r. tok = out @ r)" using tr False by (simp add: tracks_def)
  ultimately show ?thesis by (auto simp: tracks_def)
next
  case True
  with f a e find_step_good [of gp st b c] have eq: "addspace' = b'" "gp' = fold (\<lambda>x g. good_match g x) w gp"
    by auto
  have "NUL \<notin> set w" using e item_emit_not_NUL [OF c, of st b] by simp
  with tracks_fold [OF tr] eq show ?thesis by simp
qed

lemma find_item_tracks:
  assumes "nul_free ptr" "tracks gp tok out" "fst gp \<Longrightarrow> addspace = b"
    and "find_item st addspace gp ptr = (addspace', gp', rest)"
  shows "tracks gp' tok (out @ list_item_copy st b ptr) \<and> rest = drop (item_len st ptr) ptr"
  using assms
proof (induction ptr arbitrary: st addspace gp b out)
  case (Cons c ptr)
  show ?case
  proof (cases "is_item_dead st \<or> c \<noteq> CHR '',''")
    case True
    obtain w b' where e: "item_emit st b c = (w, b')" by (rule prod.exhaust)
    obtain a1 g1 where f: "find_step st addspace gp c = (a1, g1)" by (rule prod.exhaust)
    have st: "tracks g1 tok (out @ w)" "fst g1 \<Longrightarrow> a1 = b'"
      using find_step_tracks [OF Cons.prems(2) _ Cons.prems(3) e f] Cons.prems(1) by auto
    have "find_item (item_step st c) a1 g1 ptr = (addspace', gp', rest)"
      using Cons.prems(4) True f by auto
    from Cons.IH [OF _ st this] Cons.prems(1) True e show ?thesis by auto
  next
    case False
    with Cons.prems show ?thesis by auto
  qed
qed auto

lemma find_item_good:
  assumes "nul_free ptr" "find_item item_start 0 (True, tok) ptr = (addspace', (good, pos), rest)"
  shows "good \<and> pos = [] \<longleftrightarrow> list_item_copy item_start 0 ptr = tok"
    and "rest = drop (item_len item_start ptr) ptr"
  using find_item_tracks [OF assms(1) _ _ assms(2), of tok "[]" 0]
  by (auto simp: tracks_def split: if_splits)

text \<open>
  The value of \<open>addspace\<close> that leaks into the next item matters only when it is 1, a space
  that is still pending, and this needs a blank right before the comma.
\<close>

fun space_before_comma :: "cstring \<Rightarrow> bool" where
  "space_before_comma [] = False"
| "space_before_comma (c # s) \<longleftrightarrow>
     ((c = CHR '' '' \<or> c = TAB) \<and> s \<noteq> [] \<and> hd s = CHR '','') \<or> space_before_comma s"

definition pending_ok :: "item_state \<Rightarrow> int \<Rightarrow> bool \<times> cstring \<Rightarrow> bool" where
  "pending_ok st addspace gp \<longleftrightarrow> (addspace = 1 \<longrightarrow> fst gp \<and> \<not> is_item_dead st)"

lemma space_before_comma_dropWhile: "\<not> space_before_comma s \<Longrightarrow> \<not> space_before_comma (dropWhile P s)"
  by (induction s) auto

lemma space_before_comma_drop: "\<not> space_before_comma s \<Longrightarrow> \<not> space_before_comma (drop n s)"
  by (induction s arbitrary: n) (auto simp: drop_Cons split: nat.splits)

lemma item_emit_pending:
  assumes "addspace = 1 \<Longrightarrow> \<not> is_item_dead st" "snd (item_emit st addspace c) = 1"
  shows "(c = CHR '' '' \<or> c = TAB) \<and> fst (item_emit st addspace c) = [] \<and> \<not> is_item_dead st"
proof (cases "is_item_dead st")
  case True
  with assms have "addspace \<noteq> 1" by blast
  with True assms(2) show ?thesis
    by (simp add: item_emit_def is_item_dead_def split: if_splits)
next
  case False
  with assms(2) show ?thesis
    by (simp add: item_emit_def is_item_dead_def split: if_splits)
qed

lemma item_step_blank: "c = CHR '' '' \<or> c = TAB \<Longrightarrow> \<not> is_item_dead st \<Longrightarrow> item_step st c = st"
  by (auto simp: item_step_def is_item_dead_def)

lemma find_step_bad_addspace:
  assumes "\<not> fst gp" "addspace \<noteq> 1"
  shows "fst (find_step st addspace gp c) \<noteq> 1"
  using assms by (simp add: find_step_def Let_def)

lemma find_step_pending:
  assumes ok: "pending_ok st addspace gp" and one: "fst (find_step st addspace gp c) = 1"
  shows "c = CHR '' '' \<or> c = TAB"
    and "fst (snd (find_step st addspace gp c)) \<and> \<not> is_item_dead (item_step st c)"
proof -
  have good: "fst gp"
    using ok one find_step_bad_addspace [of gp addspace st c] by (cases "addspace = 1") (auto simp: pending_ok_def)
  note st = find_step_good [OF good, of st addspace c]
  have "addspace = 1 \<Longrightarrow> \<not> is_item_dead st" using ok by (simp add: pending_ok_def)
  then have e: "(c = CHR '' '' \<or> c = TAB) \<and> fst (item_emit st addspace c) = [] \<and> \<not> is_item_dead st"
    using one unfolding st by (intro item_emit_pending) simp_all
  then show "c = CHR '' '' \<or> c = TAB" by blast
  show "fst (snd (find_step st addspace gp c)) \<and> \<not> is_item_dead (item_step st c)"
    using e good item_step_blank [of c st] by (simp add: st)
qed

lemma find_item_pending:
  assumes "find_item st addspace gp ptr = (addspace', gp', rest)" "rest \<noteq> []"
    and "pending_ok st addspace gp" "addspace = 1 \<Longrightarrow> ptr \<noteq> [] \<Longrightarrow> hd ptr \<noteq> CHR '',''"
    and "\<not> space_before_comma ptr"
  shows "addspace' \<noteq> 1"
  using assms
proof (induction ptr arbitrary: st addspace gp)
  case (Cons c ptr)
  show ?case
  proof (cases "is_item_dead st \<or> c \<noteq> CHR '',''")
    case True
    obtain a1 g1 where f: "find_step st addspace gp c = (a1, g1)" by (rule prod.exhaust)
    have "find_item (item_step st c) a1 g1 ptr = (addspace', gp', rest)"
      using Cons.prems(1) True f by auto
    moreover have "pending_ok (item_step st c) a1 g1"
      and "a1 = 1 \<Longrightarrow> c = CHR '' '' \<or> c = TAB"
      using find_step_pending [OF Cons.prems(3), of c] f by (auto simp: pending_ok_def)
    ultimately show ?thesis
      using Cons.IH [of "item_step st c" a1 g1] Cons.prems(2,5) by auto
  next
    case False
    with Cons.prems show ?thesis by auto
  qed
qed auto

lemma find_item_start:
  assumes "addspace \<noteq> 1" "\<not> is_list_sep c"
  shows "find_item item_start addspace (True, tok) (c # s) = find_item item_start 0 (True, tok) (c # s)"
proof -
  have c: "c \<noteq> CHR '','' \<and> \<not> c_isspace c" using assms(2) by (auto simp: is_list_sep_def)
  then have "c \<noteq> CHR '' '' \<and> c \<noteq> TAB" by (auto simp: c_isspace_def ccode_def)
  then have "find_step item_start addspace (True, tok) c = find_step item_start 0 (True, tok) c"
    using assms(1) by (simp add: find_step_def item_start_def Let_def)
  with c show ?thesis by simp
qed

lemma list_items_dropWhile: "list_items (dropWhile is_list_sep s) = list_items s"
proof -
  have "get_list_item (dropWhile is_list_sep s) = get_list_item s"
    by (simp add: get_list_item_def size_list_item_def)
  then show ?thesis
    by (simp only: list_items.simps [of s] list_items.simps [of "dropWhile is_list_sep s"])
qed

lemma list_items_Nil: "dropWhile is_list_sep s = [] \<Longrightarrow> list_items s = []"
  by (subst list_items.simps) (simp only: get_list_item_def size_list_item_def item_len.simps, simp)

lemma list_items_Cons:
  assumes "dropWhile is_list_sep s = c # t"
  shows "list_items s = list_item_copy item_start 0 (c # t) # list_items (drop (item_len item_start (c # t)) (c # t))"
proof -
  have "c \<noteq> CHR '',''" using dropWhile_Cons_not [OF assms] by (auto simp: is_list_sep_def)
  then have pos: "item_len item_start (c # t) \<noteq> 0" by simp
  then have "get_list_item s = (Some (list_item_copy item_start 0 (c # t)),
      dropWhile is_list_sep (drop (item_len item_start (c # t)) (c # t)))"
    by (simp only: get_list_item_def size_list_item_def assms Let_def if_False prod.case option.case)
  then show ?thesis
    by (subst list_items.simps) (simp only: prod.case option.case list_items_dropWhile)
qed

lemma find_list_loop_correct:
  "addspace \<noteq> 1 \<Longrightarrow> nul_free ptr \<Longrightarrow> \<not> space_before_comma ptr \<Longrightarrow>
     find_list_loop addspace tok ptr \<longleftrightarrow> tok \<in> set (list_items ptr)"
proof (induction "length ptr" arbitrary: addspace ptr rule: less_induct)
  case less
  show ?case
  proof (cases "dropWhile is_list_sep ptr")
    case Nil
    then show ?thesis
      by (subst find_list_loop.simps) (simp only: Nil list.case list_items_Nil [OF Nil] list.set empty_iff)
  next
    case (Cons c s)
    note sep = dropWhile_Cons_not [OF Cons]
    have nf: "nul_free (c # s)" "\<not> space_before_comma (c # s)"
      using less.prems nul_free_dropWhile [of ptr is_list_sep] space_before_comma_dropWhile [of ptr is_list_sep]
      unfolding Cons by auto
    obtain a' good pos rest where f: "find_item item_start 0 (True, tok) (c # s) = (a', (good, pos), rest)"
      by (metis prod.exhaust)
    note g = find_item_good [OF nf(1) f]
    have loop: "find_list_loop addspace tok ptr =
        (if rest = [] \<or> (good \<and> pos = []) then (good \<and> pos = []) else find_list_loop a' tok rest)"
      by (subst find_list_loop.simps)
        (simp only: Cons list.case find_item_start [OF less.prems(1) sep] f prod.case Let_def)
    have "hd (c # s) \<noteq> CHR '',''" using sep by (auto simp: is_list_sep_def)
    then have lt: "length rest < length ptr"
      using find_item_rest_less [of c item_start 0 "(True, tok)" s] f dropWhile_Cons_less [OF Cons]
      by (metis Suc_leI less_le_trans list.sel(1) snd_conv)
    have "rest \<noteq> [] \<Longrightarrow> a' \<noteq> 1"
      using find_item_pending [OF f _ _ _ nf(2)] by (auto simp: pending_ok_def)
    then have "rest \<noteq> [] \<Longrightarrow> find_list_loop a' tok rest \<longleftrightarrow> tok \<in> set (list_items rest)"
      using less.hyps [OF lt] nf unfolding g(2)
      by (meson nul_free_drop space_before_comma_drop)
    moreover have "rest = [] \<Longrightarrow> list_items rest = []" by (simp add: list_items_Nil)
    moreover have "list_items ptr = list_item_copy item_start 0 (c # s) # list_items rest"
      unfolding g(2) by (rule list_items_Cons [OF Cons])
    ultimately show ?thesis using loop g(1) by auto
  qed
qed

text \<open>
  \<open>ap_find_list_item\<close> finds \<open>tok\<close> in a header field exactly when \<open>tok\<close> is one of the
  canonical items that \<open>ap_get_list_item\<close> extracts from it, for every field in which no item
  is followed by a blank before its comma: the search that never builds an item agrees with
  the extraction on quoted strings, comments, quoted pairs, inserted and dropped spaces.
\<close>

theorem find_list_item_correct:
  assumes "nul_free line" "\<not> space_before_comma line"
  shows "find_list_item (Some line) (Some tok) \<longleftrightarrow> tok \<in> set (list_items line)"
  using assms by (simp add: find_list_item_def find_list_loop_correct)

theorem find_list_item_correct_witness:
  "find_list_item (Some ''W/x, Gzip ; q = 1,b'') (Some ''gzip;q=1'') \<longleftrightarrow>
     ''gzip;q=1'' \<in> set (list_items ''W/x, Gzip ; q = 1,b'')"
  by (rule find_list_item_correct) code_simp+

text \<open>
  Without the condition on blanks it does not: the pending space of an item that was a prefix
  of \<open>tok\<close> is asked of the next item, which is then missed.
\<close>

lemma find_list_item_leak:
  "list_items ''ab , abc'' = [''ab'', ''abc'']"
  "\<not> find_list_item (Some ''ab , abc'') (Some ''abc'')"
  by code_simp+

section \<open>Tokens\<close>

text \<open>\<open>ap_get_token\<close>: the inner loop that passes over a quoted string, then the outer one.\<close>

fun quoted_skip :: "cstring \<Rightarrow> nat" where
  "quoted_skip [] = 0"
| "quoted_skip (c # s) = (if c = DQUOTE then 1 else Suc (quoted_skip s))"

function token_len :: "bool \<Rightarrow> cstring \<Rightarrow> nat" where
  "token_len accept_white [] = 0"
| "token_len accept_white (c # s) =
     (if (accept_white \<or> \<not> c_isspace c) \<and> c \<noteq> CHR '';'' \<and> c \<noteq> CHR '','' then
        (let q = if c = DQUOTE then quoted_skip s else 0
         in Suc (q + token_len accept_white (drop q s)))
      else 0)"
  by pat_completeness auto
termination
  by (relation "measure (\<lambda>(w, s). length s)") auto

definition get_token :: "cstring \<Rightarrow> bool \<Rightarrow> cstring \<times> cstring" where
  "get_token accept_line accept_white =
     (let tok_start = dropWhile c_isspace accept_line;
          n = token_len accept_white tok_start
      in (take n tok_start, dropWhile c_isspace (drop n tok_start)))"

text \<open>The syntax of a token: plain bytes and quoted strings.\<close>

datatype token_piece = Plain char | Quoted cstring

fun piece_text :: "token_piece \<Rightarrow> cstring" where
  "piece_text (Plain c) = [c]"
| "piece_text (Quoted s) = DQUOTE # s @ [DQUOTE]"

fun piece_ok :: "bool \<Rightarrow> token_piece \<Rightarrow> bool" where
  "piece_ok accept_white (Plain c) \<longleftrightarrow>
     c \<noteq> DQUOTE \<and> c \<noteq> CHR '';'' \<and> c \<noteq> CHR '','' \<and> (accept_white \<or> \<not> c_isspace c)"
| "piece_ok accept_white (Quoted s) \<longleftrightarrow> DQUOTE \<notin> set s"

definition token_ends :: "bool \<Rightarrow> cstring \<Rightarrow> bool" where
  "token_ends accept_white s \<longleftrightarrow>
     s = [] \<or> hd s = CHR '';'' \<or> hd s = CHR '','' \<or> (\<not> accept_white \<and> c_isspace (hd s))"

lemma quoted_skip_body: "DQUOTE \<notin> set s \<Longrightarrow> quoted_skip (s @ DQUOTE # t) = Suc (length s)"
  by (induction s) auto

lemma DQUOTE_plain [simp]: "\<not> c_isspace DQUOTE"
  by (simp add: c_class_defs)

lemma token_len_pieces:
  "list_all (piece_ok aw) ps \<Longrightarrow> token_ends aw t \<Longrightarrow>
     token_len aw (concat (map piece_text ps) @ t) = length (concat (map piece_text ps))"
proof (induction ps)
  case Nil
  then show ?case by (cases t) (auto simp: token_ends_def)
next
  case (Cons p ps)
  then show ?case by (cases p) (auto simp: quoted_skip_body Let_def)
qed

text \<open>
  \<open>ap_get_token\<close> reads back any token of a header field: of a token written as plain
  bytes and quoted strings, the latter with blanks, commas and semicolons at will, and ended
  by a separator, it returns exactly the token, without the blanks in front of it, and leaves
  the line at the first byte after the token and its blanks.
\<close>

theorem get_token_reads_back:
  assumes "list_all c_isspace ws" "list_all (piece_ok accept_white) ps" "token_ends accept_white rest"
    and "ps \<noteq> []" "\<not> c_isspace (hd (piece_text (hd ps)))"
  shows "get_token (ws @ concat (map piece_text ps) @ rest) accept_white =
           (concat (map piece_text ps), dropWhile c_isspace rest)"
proof -
  let ?tok = "concat (map piece_text ps)"
  obtain p ps' where ps: "ps = p # ps'" using assms(4) by (cases ps) auto
  have hd: "?tok @ rest \<noteq> []" "\<not> c_isspace (hd (?tok @ rest))"
    using assms(5) ps by (cases p; auto)+
  have "dropWhile c_isspace (ws @ ?tok @ rest) = dropWhile c_isspace (?tok @ rest)"
    using assms(1) by (intro dropWhile_append2) (auto simp: list_all_iff)
  also have "\<dots> = ?tok @ rest" using hd by (metis dropWhile_eq_self_iff)
  finally show ?thesis
    using token_len_pieces [OF assms(2,3)] by (simp only: get_token_def Let_def) simp
qed

theorem get_token_reads_back_witness:
  "get_token (''  '' @ concat (map piece_text [Plain CHR ''a'', Plain CHR ''='', Quoted ''b, c;'']) @ '' , d'') False =
     (concat (map piece_text [Plain CHR ''a'', Plain CHR ''='', Quoted ''b, c;'']), dropWhile c_isspace '' , d'')"
  by (rule get_token_reads_back) code_simp+

text \<open>\<open>ap_find_token\<close>, from one round of its endless loop to the next.\<close>

definition is_token_char :: "char \<Rightarrow> bool" where
  "is_token_char c \<longleftrightarrow> \<not> TEST_CHAR c T_HTTP_TOKEN_STOP"

function find_token_loop :: "cstring \<Rightarrow> cstring \<Rightarrow> bool" where
  "find_token_loop s tok =
     (case dropWhile (\<lambda>c. \<not> is_token_char c) s of
        [] \<Rightarrow> False
      | c # t \<Rightarrow>
          (let n = length (takeWhile is_token_char (c # t));
               s' = drop n (c # t)
           in strncaseeq (c # t) tok n \<or> (s' \<noteq> [] \<and> find_token_loop s' tok)))"
  by pat_completeness auto
termination
proof (relation "measure (\<lambda>(s, tok). length s)", goal_cases)
  case (2 s tok c t x y)
  have "length t < length s" "is_token_char c"
    using dropWhile_Cons_less [OF 2(1)] dropWhile_Cons_not [OF 2(1)] by auto
  with 2 show ?case by simp
qed simp

declare find_token_loop.simps [simp del]

definition find_token :: "cstring option \<Rightarrow> cstring \<Rightarrow> bool" where
  "find_token line tok = (case line of None \<Rightarrow> False | Some l \<Rightarrow> find_token_loop l tok)"

text \<open>\<open>ap_find_last_token\<close>, with the C expression \<open>llen - tlen\<close> on \<open>int\<close>.\<close>

definition find_last_token :: "cstring option \<Rightarrow> cstring \<Rightarrow> bool" where
  "find_last_token line tok =
     (case line of
        None \<Rightarrow> False
      | Some l \<Rightarrow>
          (let lidx = int (length l) - int (length tok)
           in if lidx < 0 \<or> (lidx > 0 \<and> \<not> (c_isspace (cget l (nat (lidx - 1))) \<or> cget l (nat (lidx - 1)) = CHR '',''))
              then False
              else strncaseeq (drop (nat lidx) l) tok (length tok)))"

text \<open>The tokens of a line.\<close>

function http_tokens :: "cstring \<Rightarrow> cstring list" where
  "http_tokens s =
     (case dropWhile (\<lambda>c. \<not> is_token_char c) s of
        [] \<Rightarrow> []
      | c # t \<Rightarrow> takeWhile is_token_char (c # t) # http_tokens (dropWhile is_token_char (c # t)))"
  by pat_completeness auto
termination
proof (relation "measure length", goal_cases)
  case (2 s c t)
  have "length t < length s" "is_token_char c"
    using dropWhile_Cons_less [OF 2] dropWhile_Cons_not [OF 2] by auto
  then show ?case using le_less_trans [OF length_dropWhile_le [of is_token_char t]] by simp
qed simp

declare http_tokens.simps [simp del]

lemma drop_takeWhile: "drop (length (takeWhile P s)) s = dropWhile P s"
  by (simp add: dropWhile_eq_drop)

lemma find_token_loop_iff:
  "find_token_loop s tok \<longleftrightarrow> (\<exists>t\<in>set (http_tokens s). strncaseeq t tok (length t))"
proof (induction s tok rule: find_token_loop.induct)
  case (1 s tok)
  show ?case
  proof (cases "dropWhile (\<lambda>c. \<not> is_token_char c) s")
    case Nil
    then show ?thesis
      by (subst find_token_loop.simps, subst http_tokens.simps) (simp only: Nil list.case list.set, simp)
  next
    case (Cons c t)
    define w where "w = takeWhile is_token_char (c # t)"
    define r where "r = dropWhile is_token_char (c # t)"
    have eq: "strncaseeq (c # t) tok (length w) \<longleftrightarrow> strncaseeq w tok (length w)"
      unfolding w_def by (simp only: strncaseeq_take takeWhile_eq_take [symmetric] take_all [OF order_refl])
    have nil: "r = [] \<Longrightarrow> http_tokens r = []" by (simp add: http_tokens.simps)
    have ih: "r \<noteq> [] \<Longrightarrow> find_token_loop r tok \<longleftrightarrow> (\<exists>t\<in>set (http_tokens r). strncaseeq t tok (length t))"
    proof -
      assume "r \<noteq> []"
      then show ?thesis using 1 [OF Cons refl refl] unfolding drop_takeWhile r_def by blast
    qed
    have f: "find_token_loop s tok \<longleftrightarrow> strncaseeq (c # t) tok (length w) \<or> (r \<noteq> [] \<and> find_token_loop r tok)"
      by (subst find_token_loop.simps) (simp only: Cons list.case Let_def drop_takeWhile w_def r_def)
    have h: "http_tokens s = w # http_tokens r"
      by (subst http_tokens.simps) (simp only: Cons list.case w_def r_def)
    show ?thesis unfolding f h eq using ih nil by (cases "r = []") auto
  qed
qed

text \<open>
  \<open>ap_find_token\<close> answers for the tokens of the line, maximal runs of token characters:
  it succeeds exactly when one of them is, up to case, an initial part of \<open>tok\<close>. So every
  token of the line that equals \<open>tok\<close> is found, but a shorter one is accepted as well.
\<close>

theorem find_token_iff_initial:
  "find_token (Some line) tok \<longleftrightarrow>
     (\<exists>t\<in>set (http_tokens line). map c_tolower t = map c_tolower (take (length t) tok))"
  by (simp add: find_token_def find_token_loop_iff strncaseeq_take)

text \<open>The header \<open>Connection: c\<close> is thus taken for one with the token \<open>close\<close>.\<close>

lemma find_token_accepts_part: "find_token (Some ''keep-alive, C'') ''close''"
  by code_simp

end
