(* ===== verification/Cache_Pqueue.thy ===== *)
theory Cache_Pqueue
  imports Prelude
begin

text \<open>
  The priority queue of the cache, \<open>modules/cache/cache_pqueue.c\<close>: a binary heap in an array
  whose element 0 is not used, with the entry of highest priority at index 1. The callback
  \<open>pri\<close> reads the priority of an entry, \<open>set\<close> and \<open>get\<close> keep in the entry its index in the
  array; the latter are the field \<open>pq_pos\<close>. A read of the array outside the allocated
  elements is a value of the function \<open>pq_d\<close> nothing is known about.
\<close>

named_theorems pqueue \<open>field updates of the queue\<close>

record 'e pqueue =
  pq_size :: nat
  pq_avail :: nat
  pq_step :: nat
  pq_pos :: "'e \<Rightarrow> nat"
  pq_d :: "nat \<Rightarrow> 'e"

section \<open>The operations\<close>

text \<open>\<open>cache_pq_init\<close> after both calls of \<open>malloc\<close>; \<open>mem\<close> is what the new array holds.\<close>

definition pq_init :: "nat \<Rightarrow> ('e \<Rightarrow> nat) \<Rightarrow> (nat \<Rightarrow> 'e) \<Rightarrow> 'e pqueue" where
  "pq_init n pos mem = \<lparr>pq_size = 1, pq_avail = n + 1, pq_step = n + 1, pq_pos = pos, pq_d = mem\<rparr>"

definition pq_count :: "'e pqueue \<Rightarrow> nat" where
  "pq_count q = pq_size q - 1"

text \<open>\<open>q->d[i] = e; q->set(e, i)\<close>\<close>

definition pq_put :: "nat \<Rightarrow> 'e \<Rightarrow> 'e pqueue \<Rightarrow> 'e pqueue" where
  "pq_put i e q = q\<lparr>pq_d := (pq_d q)(i := e), pq_pos := (pq_pos q)(e := i)\<rparr>"

function bubble_loop :: "('e \<Rightarrow> int) \<Rightarrow> 'e \<Rightarrow> 'e pqueue \<Rightarrow> nat \<Rightarrow> 'e pqueue" where
  "bubble_loop pri moving_node q i =
     (if 1 < i \<and> pri (pq_d q (i div 2)) < pri moving_node then
        bubble_loop pri moving_node (pq_put i (pq_d q (i div 2)) q) (i div 2)
      else pq_put i moving_node q)"
  by pat_completeness auto
termination
  by (relation "measure (\<lambda>(pri, m, q, i). i)") auto

declare bubble_loop.simps [simp del]

definition bubble_up :: "('e \<Rightarrow> int) \<Rightarrow> 'e pqueue \<Rightarrow> nat \<Rightarrow> 'e pqueue" where
  "bubble_up pri q i = bubble_loop pri (pq_d q i) q i"

definition maxchild :: "('e \<Rightarrow> int) \<Rightarrow> 'e pqueue \<Rightarrow> nat \<Rightarrow> nat" where
  "maxchild pri q i =
     (let child_node = 2 * i
      in if child_node \<ge> pq_size q then 0
         else if child_node + 1 < pq_size q \<and> pri (pq_d q (child_node + 1)) > pri (pq_d q child_node)
         then child_node + 1 else child_node)"

lemma maxchild_bounds: "maxchild pri q i \<noteq> 0 \<Longrightarrow> i < maxchild pri q i \<and> maxchild pri q i < pq_size q"
  by (auto simp: maxchild_def Let_def split: if_splits)

text \<open>The loop of \<open>cache_pq_percolate_down\<close>.\<close>

function percolate_loop :: "('e \<Rightarrow> int) \<Rightarrow> 'e \<Rightarrow> 'e pqueue \<Rightarrow> nat \<Rightarrow> 'e pqueue" where
  "percolate_loop pri moving_node q i =
     (let child_node = maxchild pri q i
      in if child_node \<noteq> 0 \<and> pri moving_node < pri (pq_d q child_node) then
           percolate_loop pri moving_node (pq_put i (pq_d q child_node) q) child_node
         else pq_put i moving_node q)"
  by pat_completeness auto
termination
proof (relation "measure (\<lambda>(pri, m, q, i). pq_size q - i)", goal_cases)
  case (2 pri m q i x)
  then have "i < maxchild pri q i \<and> maxchild pri q i < pq_size q"
    using maxchild_bounds [of pri q i] by auto
  with 2 show ?case by (auto simp: pq_put_def)
qed simp

declare percolate_loop.simps [simp del]

definition percolate_down :: "('e \<Rightarrow> int) \<Rightarrow> 'e pqueue \<Rightarrow> nat \<Rightarrow> 'e pqueue" where
  "percolate_down pri q i = percolate_loop pri (pq_d q i) q i"

text \<open>
  \<open>cache_pq_insert\<close>: \<open>None\<close> is \<open>APR_EGENERAL\<close>, when the array is full and \<open>realloc\<close> fails.
\<close>

definition pq_insert :: "('e \<Rightarrow> int) \<Rightarrow> bool \<Rightarrow> 'e pqueue \<Rightarrow> 'e \<Rightarrow> 'e pqueue option" where
  "pq_insert pri realloc_ok q d =
     (if pq_size q \<ge> pq_avail q \<and> \<not> realloc_ok then None
      else
        (let q1 = (if pq_size q \<ge> pq_avail q then q\<lparr>pq_avail := pq_size q + pq_step q\<rparr> else q);
             i = pq_size q1;
             q2 = q1\<lparr>pq_size := i + 1, pq_d := (pq_d q1)(i := d)\<rparr>
         in Some (bubble_up pri q2 i)))"

definition pq_change_priority :: "('e \<Rightarrow> int) \<Rightarrow> 'e pqueue \<Rightarrow> int \<Rightarrow> int \<Rightarrow> 'e \<Rightarrow> 'e pqueue" where
  "pq_change_priority pri q old_priority new_priority d =
     (let posn = pq_pos q d
      in if new_priority > old_priority then bubble_up pri q posn else percolate_down pri q posn)"

definition pq_remove :: "('e \<Rightarrow> int) \<Rightarrow> 'e pqueue \<Rightarrow> 'e \<Rightarrow> 'e pqueue" where
  "pq_remove pri q d =
     (let posn = pq_pos q d;
          n = pq_size q - 1;
          q1 = q\<lparr>pq_size := n, pq_d := (pq_d q)(posn := pq_d q n)\<rparr>
      in if pri (pq_d q1 posn) > pri d then bubble_up pri q1 posn else percolate_down pri q1 posn)"

definition pq_pop :: "('e \<Rightarrow> int) \<Rightarrow> 'e pqueue \<Rightarrow> 'e option \<times> 'e pqueue" where
  "pq_pop pri q =
     (if pq_size q = 1 then (None, q)
      else
        (let head = pq_d q 1;
             n = pq_size q - 1;
             q1 = q\<lparr>pq_size := n, pq_d := (pq_d q)(1 := pq_d q n)\<rparr>
         in (Some head, percolate_down pri q1 1)))"

definition pq_peek :: "'e pqueue \<Rightarrow> 'e option" where
  "pq_peek q = (if pq_size q = 1 then None else Some (pq_d q 1))"

text \<open>
  \<open>cache_pq_is_valid\<close>, the check for the debugger, on a subtree. For the index 0,
  which no call reaches, the C function does not return.
\<close>

function subtree_is_valid :: "('e \<Rightarrow> int) \<Rightarrow> 'e pqueue \<Rightarrow> nat \<Rightarrow> bool" where
  "subtree_is_valid pri q pos =
     (if pos = 0 then True
      else
        (2 * pos < pq_size q \<longrightarrow>
           \<not> pri (pq_d q pos) < pri (pq_d q (2 * pos)) \<and> subtree_is_valid pri q (2 * pos)) \<and>
        (2 * pos + 1 < pq_size q \<longrightarrow>
           \<not> pri (pq_d q pos) < pri (pq_d q (2 * pos + 1)) \<and> subtree_is_valid pri q (2 * pos + 1)))"
  by pat_completeness auto
termination
  by (relation "measure (\<lambda>(pri, q, pos). pq_size q - pos)") auto

declare subtree_is_valid.simps [simp del]

definition pq_is_valid :: "('e \<Rightarrow> int) \<Rightarrow> 'e pqueue \<Rightarrow> bool" where
  "pq_is_valid pri q = subtree_is_valid pri q 1"

section \<open>The invariant\<close>

definition heap_at :: "('e \<Rightarrow> int) \<Rightarrow> (nat \<Rightarrow> 'e) \<Rightarrow> nat \<Rightarrow> bool" where
  "heap_at pri a j \<longleftrightarrow> pri (a j) \<le> pri (a (j div 2))"

definition is_heap :: "('e \<Rightarrow> int) \<Rightarrow> 'e pqueue \<Rightarrow> bool" where
  "is_heap pri q \<longleftrightarrow> (\<forall>j. 2 \<le> j \<and> j < pq_size q \<longrightarrow> heap_at pri (pq_d q) j)"

text \<open>Each entry knows its index; so no entry is stored twice.\<close>

definition pos_ok :: "'e pqueue \<Rightarrow> bool" where
  "pos_ok q \<longleftrightarrow> 1 \<le> pq_size q \<and> (\<forall>j. 1 \<le> j \<and> j < pq_size q \<longrightarrow> pq_pos q (pq_d q j) = j)"

definition heap_ok :: "('e \<Rightarrow> int) \<Rightarrow> 'e pqueue \<Rightarrow> bool" where
  "heap_ok pri q \<longleftrightarrow> pos_ok q \<and> is_heap pri q"

text \<open>All indices in use lie in the allocated array.\<close>

definition pq_inv :: "('e \<Rightarrow> int) \<Rightarrow> 'e pqueue \<Rightarrow> bool" where
  "pq_inv pri q \<longleftrightarrow> heap_ok pri q \<and> pq_size q \<le> pq_avail q \<and> 1 \<le> pq_step q"

definition pq_elems :: "'e pqueue \<Rightarrow> 'e set" where
  "pq_elems q = pq_d q ` {1..<pq_size q}"

definition pq_list :: "'e pqueue \<Rightarrow> 'e list" where
  "pq_list q = map (pq_d q) [1..<pq_size q]"

lemma set_pq_list: "set (pq_list q) = pq_elems q"
  by (simp add: pq_list_def pq_elems_def)

text \<open>
  While an entry moves, its slot \<open>i\<close> is a hole. \<open>hole_ok\<close> is the agreement of positions
  around the hole, \<open>up_ok\<close> and \<open>down_ok\<close> the order of the array with the entry put in it.
\<close>

definition hole_ok :: "'e \<Rightarrow> 'e pqueue \<Rightarrow> nat \<Rightarrow> bool" where
  "hole_ok m q i \<longleftrightarrow> 1 \<le> i \<and> i < pq_size q \<and>
     (\<forall>j. 1 \<le> j \<and> j < pq_size q \<and> j \<noteq> i \<longrightarrow> pq_d q j \<noteq> m \<and> pq_pos q (pq_d q j) = j)"

definition up_ok :: "('e \<Rightarrow> int) \<Rightarrow> (nat \<Rightarrow> 'e) \<Rightarrow> nat \<Rightarrow> nat \<Rightarrow> bool" where
  "up_ok pri a n i \<longleftrightarrow> (\<forall>j. 2 \<le> j \<and> j < n \<longrightarrow>
     (j \<noteq> i \<longrightarrow> pri (a j) \<le> pri (a (j div 2))) \<and>
     (2 \<le> i \<and> j div 2 = i \<longrightarrow> pri (a j) \<le> pri (a (i div 2))))"

definition down_ok :: "('e \<Rightarrow> int) \<Rightarrow> (nat \<Rightarrow> 'e) \<Rightarrow> nat \<Rightarrow> nat \<Rightarrow> bool" where
  "down_ok pri a n i \<longleftrightarrow> (\<forall>j. 2 \<le> j \<and> j < n \<longrightarrow>
     (j div 2 \<noteq> i \<longrightarrow> pri (a j) \<le> pri (a (j div 2))) \<and>
     (2 \<le> i \<and> j div 2 = i \<longrightarrow> pri (a j) \<le> pri (a (i div 2))))"

lemma pq_put_simps [simp]:
  "pq_size (pq_put i e q) = pq_size q"
  "pq_d (pq_put i e q) = (pq_d q)(i := e)"
  "pq_pos (pq_put i e q) = (pq_pos q)(e := i)"
  by (auto simp: pq_put_def)

lemma hole_okD: "hole_ok m q i \<Longrightarrow> 1 \<le> j \<Longrightarrow> j < pq_size q \<Longrightarrow> j \<noteq> i \<Longrightarrow> pq_pos q (pq_d q j) = j"
  by (auto simp: hole_ok_def)

lemma hole_put:
  assumes "hole_ok m q i"
  shows "pos_ok (pq_put i m q)"
  using assms by (auto simp: hole_ok_def pos_ok_def)

lemma hole_move:
  assumes "hole_ok m q i" "1 \<le> p" "p < pq_size q" "p \<noteq> i"
  shows "hole_ok m (pq_put i (pq_d q p) q) p"
proof -
  have "pq_d q j \<noteq> pq_d q p" if "1 \<le> j" "j < pq_size q" "j \<noteq> i" "j \<noteq> p" for j
    using that assms hole_okD [OF assms(1), of j] hole_okD [OF assms(1), of p] by metis
  with assms show ?thesis by (auto simp: hole_ok_def)
qed

lemma hole_elems:
  assumes "hole_ok m q i" "1 \<le> p" "p < pq_size q" "p \<noteq> i"
  shows "insert m (pq_d (pq_put i (pq_d q p) q) ` ({1..<pq_size q} - {p})) =
         insert m (pq_d q ` ({1..<pq_size q} - {i}))"
proof -
  have i: "1 \<le> i" "i < pq_size q" using assms by (auto simp: hole_ok_def)
  have "{1..<pq_size q} - {p} = insert i ({1..<pq_size q} - {i, p})"
    and "{1..<pq_size q} - {i} = insert p ({1..<pq_size q} - {i, p})"
    using i assms by auto
  then show ?thesis using assms(4) by (auto simp: image_def)
qed

lemma half_neq: "1 \<le> (i::nat) \<Longrightarrow> i div 2 \<noteq> i"
  by auto

lemma half_pos: "1 \<le> (c::nat) div 2 \<Longrightarrow> 2 \<le> c"
  by auto

lemma bubble_loop_correct:
  assumes "hole_ok m q i" "up_ok pri ((pq_d q)(i := m)) (pq_size q) i"
  shows "heap_ok pri (bubble_loop pri m q i) \<and>
         pq_elems (bubble_loop pri m q i) = insert m (pq_d q ` ({1..<pq_size q} - {i})) \<and>
         pq_size (bubble_loop pri m q i) = pq_size q \<and>
         pq_avail (bubble_loop pri m q i) = pq_avail q \<and> pq_step (bubble_loop pri m q i) = pq_step q"
  using assms
proof (induction pri m q i rule: bubble_loop.induct)
  case (1 pri m q i)
  have i: "1 \<le> i" "i < pq_size q" using 1(2) by (auto simp: hole_ok_def)
  show ?case
  proof (cases "1 < i \<and> pri (pq_d q (i div 2)) < pri m")
    case True
    let ?p = "i div 2" and ?q = "pq_put i (pq_d q (i div 2)) q"
    have p: "1 \<le> ?p" "?p < pq_size q" "?p \<noteq> i" using True i by auto
    have up: "up_ok pri ((pq_d ?q)(?p := m)) (pq_size ?q) ?p"
      unfolding up_ok_def
    proof (intro allI impI)
      fix j assume j: "2 \<le> j \<and> j < pq_size ?q"
      note u = 1(3) [unfolded up_ok_def, rule_format, of j]
      have np: "i div 2 div 2 \<noteq> i" using i(1) by auto
      have up: "2 \<le> ?p \<Longrightarrow> pri (pq_d q ?p) \<le> pri (pq_d q (?p div 2))"
        using 1(3) [unfolded up_ok_def, rule_format, of ?p] p half_neq [of ?p] np by auto
      have n: "?p div 2 \<noteq> ?p" "j div 2 \<noteq> j" using p j half_neq by auto
      have lt: "pri (pq_d q ?p) < pri m" using True by blast
      have np2: "?p div 2 \<noteq> i \<and> ?p \<noteq> i \<and> ?p div 2 \<noteq> ?p" using np n p by blast
      let ?L = "(pq_d ?q)(?p := m)"
      show "(j \<noteq> ?p \<longrightarrow> pri (?L j) \<le> pri (?L (j div 2))) \<and>
        (2 \<le> ?p \<and> j div 2 = ?p \<longrightarrow> pri (?L j) \<le> pri (?L (?p div 2)))"
      proof (cases "j = i")
        case ji: True
        then show ?thesis using up lt np2 by simp
      next
        case ji: False
        then have u1: "pri (pq_d q j) \<le> pri (if j div 2 = i then m else pq_d q (j div 2))"
          using u j by simp
        consider "j = ?p" | "j \<noteq> ?p" "j div 2 = i" | "j \<noteq> ?p" "j div 2 = ?p" | "j \<noteq> ?p" "j div 2 \<noteq> i" "j div 2 \<noteq> ?p"
          by blast
        then show ?thesis
        proof cases
          case 1
          then show ?thesis using np2 by simp
        next
          case 2
          then have "pri (pq_d q j) \<le> pri (pq_d q ?p)" using u j True ji np2 by simp
          then show ?thesis using 2 ji np2 by simp
        next
          case 3
          then show ?thesis using u1 up lt ji np2 by (cases "2 \<le> ?p") simp_all
        next
          case 4
          then show ?thesis using u1 ji np2 by simp
        qed
      qed
    qed
    have "bubble_loop pri m q i = bubble_loop pri m ?q ?p"
      by (subst bubble_loop.simps) (simp only: True simp_thms if_True)
    moreover note 1(1) [OF True hole_move [OF 1(2) p] up] hole_elems [OF 1(2) p]
    ultimately show ?thesis by (simp add: pq_put_def)
  next
    case False
    have eq: "bubble_loop pri m q i = pq_put i m q"
      by (subst bubble_loop.simps) (simp only: False if_False)
    have "is_heap pri (pq_put i m q)"
      unfolding is_heap_def heap_at_def
    proof (intro allI impI)
      fix j assume j: "2 \<le> j \<and> j < pq_size (pq_put i m q)"
      show "pri (pq_d (pq_put i m q) j) \<le> pri (pq_d (pq_put i m q) (j div 2))"
        using 1(3) [unfolded up_ok_def, rule_format, of j] False j by (cases "j = i") auto
    qed
    moreover have "{1..<pq_size q} = insert i ({1..<pq_size q} - {i})" using i by auto
    ultimately show ?thesis
      using hole_put [OF 1(2)] by (auto simp: eq heap_ok_def pq_elems_def pq_put_def image_def)
  qed
qed

lemma maxchild_max:
  assumes "1 \<le> i" "j div 2 = i" "j < pq_size q" "2 \<le> j"
  shows "maxchild pri q i \<noteq> 0 \<and> maxchild pri q i div 2 = i \<and> pri (pq_d q j) \<le> pri (pq_d q (maxchild pri q i))"
proof -
  have "j = 2 * i \<or> j = 2 * i + 1" using assms(2) by auto
  with assms show ?thesis by (auto simp: maxchild_def Let_def)
qed

lemma percolate_loop_correct:
  assumes "hole_ok m q i" "down_ok pri ((pq_d q)(i := m)) (pq_size q) i"
  shows "heap_ok pri (percolate_loop pri m q i) \<and>
         pq_elems (percolate_loop pri m q i) = insert m (pq_d q ` ({1..<pq_size q} - {i})) \<and>
         pq_size (percolate_loop pri m q i) = pq_size q \<and>
         pq_avail (percolate_loop pri m q i) = pq_avail q \<and> pq_step (percolate_loop pri m q i) = pq_step q"
  using assms
proof (induction pri m q i rule: percolate_loop.induct)
  case (1 pri m q i)
  have i: "1 \<le> i" "i < pq_size q" using 1(2) by (auto simp: hole_ok_def)
  let ?c = "maxchild pri q i"
  show ?case
  proof (cases "?c \<noteq> 0 \<and> pri m < pri (pq_d q ?c)")
    case True
    let ?q = "pq_put i (pq_d q ?c) q"
    have c: "1 \<le> ?c" "?c < pq_size q" "?c \<noteq> i" using True maxchild_bounds [of pri q i] by auto
    have cd: "?c div 2 = i" using True by (auto simp: maxchild_def Let_def split: if_splits)
    have down: "down_ok pri ((pq_d ?q)(?c := m)) (pq_size ?q) ?c"
      unfolding down_ok_def
    proof (intro allI impI)
      fix j assume j: "2 \<le> j \<and> j < pq_size ?q"
      note u = 1(3) [unfolded down_ok_def, rule_format, of j]
      have mx: "j div 2 = i \<Longrightarrow> pri (pq_d q j) \<le> pri (pq_d q ?c)"
        using maxchild_max [OF i(1), of j q pri] j by simp
      have uc: "2 \<le> i \<Longrightarrow> pri (pq_d q ?c) \<le> pri (pq_d q (i div 2))"
        using 1(3) [unfolded down_ok_def, rule_format, of ?c] c cd i half_neq [of i] half_pos [of ?c] by auto
      have n: "j div 2 = ?c \<Longrightarrow> j \<noteq> i \<and> j \<noteq> ?c" using j cd i by auto
      show "(j div 2 \<noteq> ?c \<longrightarrow> pri (((pq_d ?q)(?c := m)) j) \<le> pri (((pq_d ?q)(?c := m)) (j div 2))) \<and>
        (2 \<le> ?c \<and> j div 2 = ?c \<longrightarrow> pri (((pq_d ?q)(?c := m)) j) \<le> pri (((pq_d ?q)(?c := m)) (?c div 2)))"
      proof (cases "j = i")
        case True
        then have "2 \<le> i" "j div 2 \<noteq> i" "j div 2 \<noteq> ?c" using j cd by auto
        then show ?thesis using uc True c by simp
      next
        case ji: False
        show ?thesis
        proof (cases "j div 2 = i")
          case ja: True
          then show ?thesis using mx True c cd ji by auto
        next
          case jb: False
          then show ?thesis using u j n cd c ji by auto
        qed
      qed
    qed
    have "percolate_loop pri m q i = percolate_loop pri m ?q ?c"
      by (subst percolate_loop.simps) (simp only: True if_True Let_def simp_thms)
    moreover note 1(1) [OF refl True hole_move [OF 1(2) c] down] hole_elems [OF 1(2) c]
    ultimately show ?thesis by (simp add: pq_put_def)
  next
    case False
    have eq: "percolate_loop pri m q i = pq_put i m q"
      by (subst percolate_loop.simps) (simp only: Let_def False if_False)
    have "is_heap pri (pq_put i m q)"
      unfolding is_heap_def heap_at_def
    proof (intro allI impI)
      fix j assume j: "2 \<le> j \<and> j < pq_size (pq_put i m q)"
      show "pri (pq_d (pq_put i m q) j) \<le> pri (pq_d (pq_put i m q) (j div 2))"
      proof (cases "j div 2 = i")
        case True
        then have "pri (pq_d q j) \<le> pri m"
          using maxchild_max [OF i(1) True, of q pri] j False by auto
        with True j show ?thesis by auto
      next
        case jb: False
        with 1(3) [unfolded down_ok_def, rule_format, of j] j show ?thesis by auto
      qed
    qed
    moreover have "{1..<pq_size q} = insert i ({1..<pq_size q} - {i})" using i by auto
    ultimately show ?thesis
      using hole_put [OF 1(2)] by (auto simp: eq heap_ok_def pq_elems_def pq_put_def image_def)
  qed
qed

lemma heap_root_max:
  assumes "is_heap pri q" "1 \<le> j" "j < pq_size q"
  shows "pri (pq_d q j) \<le> pri (pq_d q 1)"
  using assms(2,3)
proof (induction j rule: less_induct)
  case (less j)
  show ?case
  proof (cases "j = 1")
    case False
    then have j: "2 \<le> j" "1 \<le> j div 2" "j div 2 < j" using less.prems by auto
    then have "pri (pq_d q (j div 2)) \<le> pri (pq_d q 1)" using less.IH less.prems by simp
    moreover have "pri (pq_d q j) \<le> pri (pq_d q (j div 2))"
      using assms(1) j(1) less.prems by (auto simp: is_heap_def heap_at_def)
    ultimately show ?thesis by (rule order_trans [rotated])
  qed simp
qed

lemma pos_ok_inj: "pos_ok q \<Longrightarrow> inj_on (pq_d q) {1..<pq_size q}"
  unfolding pos_ok_def by (intro inj_onI) (metis atLeastLessThan_iff)

lemma pos_ok_get: "pos_ok q \<Longrightarrow> d \<in> pq_elems q \<Longrightarrow>
    pq_d q (pq_pos q d) = d \<and> 1 \<le> pq_pos q d \<and> pq_pos q d < pq_size q"
  by (auto simp: pos_ok_def pq_elems_def)

lemma is_heap_up_ok: "is_heap pri q \<Longrightarrow> i < n \<Longrightarrow> n = pq_size q \<Longrightarrow> up_ok pri (pq_d q) n i"
  unfolding is_heap_def heap_at_def up_ok_def by (metis order_trans)

section \<open>What the operations do\<close>

lemma pq_init_inv: "pq_inv pri (pq_init n pos mem) \<and> pq_elems (pq_init n pos mem) = {}"
  by (simp add: pq_inv_def heap_ok_def pos_ok_def is_heap_def pq_init_def pq_elems_def)

lemma pq_count_card: "pq_inv pri q \<Longrightarrow> pq_count q = card (pq_elems q)"
  using pos_ok_inj [of q] by (simp add: pq_inv_def heap_ok_def pq_count_def pq_elems_def card_image)

lemma pq_insert_correct:
  assumes inv: "pq_inv pri q" and new: "d \<notin> pq_elems q" and ins: "pq_insert pri ok q d = Some q'"
  shows "pq_inv pri q' \<and> pq_elems q' = insert d (pq_elems q)"
proof -
  let ?n = "pq_size q"
  define av where "av = (if ?n \<ge> pq_avail q then ?n + pq_step q else pq_avail q)"
  define q2 where "q2 = q\<lparr>pq_avail := av, pq_size := ?n + 1, pq_d := (pq_d q)(?n := d)\<rparr>"
  have q': "q' = bubble_up pri q2 ?n"
    using ins by (auto simp: pq_insert_def Let_def q2_def av_def split: if_splits)
  have i: "pos_ok q" "is_heap pri q" "1 \<le> pq_step q" using inv by (auto simp: pq_inv_def heap_ok_def)
  have av: "?n + 1 \<le> av" using inv by (auto simp: av_def pq_inv_def)
  have "hole_ok d q2 ?n"
    using i new by (auto simp: hole_ok_def q2_def pos_ok_def pq_elems_def)
  moreover have "up_ok pri ((pq_d q2)(?n := d)) (pq_size q2) ?n"
    using i by (auto simp: up_ok_def q2_def is_heap_def heap_at_def)
  ultimately have r: "heap_ok pri q' \<and> pq_elems q' = insert d (pq_d q2 ` ({1..<pq_size q2} - {?n})) \<and>
      pq_size q' = pq_size q2 \<and> pq_avail q' = pq_avail q2 \<and> pq_step q' = pq_step q2"
    using bubble_loop_correct [of d q2 ?n pri] by (simp add: q' bubble_up_def q2_def)
  have "pq_d q2 ` ({1..<pq_size q2} - {?n}) = pq_elems q"
    by (auto simp: q2_def pq_elems_def image_def)
  with r av i show ?thesis by (simp add: pq_inv_def q2_def)
qed

lemma pq_insert_fails: "pq_insert pri ok q d = None \<longleftrightarrow> pq_size q \<ge> pq_avail q \<and> \<not> ok"
  by (simp add: pq_insert_def Let_def)

text \<open>The last entry moves into the slot of the entry that leaves.\<close>

lemma refill_hole:
  assumes inv: "pq_inv pri q" and p: "1 \<le> p" "p < pq_size q" and q1: "q1 = q\<lparr>pq_size := pq_size q - 1,
      pq_d := (pq_d q)(p := pq_d q (pq_size q - 1))\<rparr>"
  shows "p \<noteq> pq_size q - 1 \<Longrightarrow> hole_ok (pq_d q1 p) q1 p"
    and "p \<noteq> pq_size q - 1 \<Longrightarrow>
           insert (pq_d q1 p) (pq_d q1 ` ({1..<pq_size q1} - {p})) = pq_elems q - {pq_d q p}"
    and "p = pq_size q - 1 \<Longrightarrow> pq_elems q1 = pq_elems q - {pq_d q p}"
proof -
  have pos: "pos_ok q" using inv by (simp add: pq_inv_def heap_ok_def)
  have ne: "pq_d q j \<noteq> pq_d q k" if "1 \<le> j" "j < pq_size q" "1 \<le> k" "k < pq_size q" "j \<noteq> k" for j k
    using pos that unfolding pos_ok_def by metis
  have R: "{1..<pq_size q} = insert (pq_size q - 1) {1..<pq_size q - 1}" using p by auto
  {
    assume l: "p \<noteq> pq_size q - 1"
    then have "p < pq_size q - 1" using p by linarith
    then show "hole_ok (pq_d q1 p) q1 p"
      using p pos ne by (auto simp: hole_ok_def q1 pos_ok_def)
    have "pq_elems q - {pq_d q p} = pq_d q ` ({1..<pq_size q} - {p})"
      using inj_on_image_set_diff [OF pos_ok_inj [OF pos], of "{1..<pq_size q}" "{p}"] p
      by (auto simp: pq_elems_def)
    also have "\<dots> = insert (pq_d q (pq_size q - 1)) (pq_d q ` ({1..<pq_size q - 1} - {p}))"
      using l p by (subst R) auto
    also have "\<dots> = insert (pq_d q1 p) (pq_d q1 ` ({1..<pq_size q1} - {p}))"
      by (auto simp: q1 image_def)
    finally show "insert (pq_d q1 p) (pq_d q1 ` ({1..<pq_size q1} - {p})) = pq_elems q - {pq_d q p}" by simp
  }
  {
    assume l: "p = pq_size q - 1"
    have "pq_elems q - {pq_d q p} = pq_d q ` ({1..<pq_size q} - {p})"
      using inj_on_image_set_diff [OF pos_ok_inj [OF pos], of "{1..<pq_size q}" "{p}"] p
      by (auto simp: pq_elems_def)
    also have "{1..<pq_size q} - {p} = {1..<pq_size q1}" using l p by (auto simp: q1)
    finally show "pq_elems q1 = pq_elems q - {pq_d q p}"
      using l by (auto simp: q1 pq_elems_def image_def)
  }
qed

lemma up_ok_raise:
  assumes "\<forall>j. 2 \<le> j \<and> j < n \<longrightarrow> f j \<le> f (j div 2)" "f p \<le> pri (a p)" "1 \<le> p"
    and "\<And>j. j < n \<Longrightarrow> j \<noteq> p \<Longrightarrow> pri (a j) = f j"
  shows "up_ok pri a n p"
  unfolding up_ok_def
proof (intro allI impI)
  fix j assume j: "2 \<le> j \<and> j < n"
  have h: "f j \<le> f (j div 2)" "j div 2 < n" "j div 2 \<noteq> j" using assms(1) j by auto
  have hp: "2 \<le> p \<Longrightarrow> p < n \<Longrightarrow> f p \<le> f (p div 2)" "p div 2 \<noteq> p" using assms(1,3) by auto
  have vj: "j \<noteq> p \<Longrightarrow> pri (a j) = f j" using assms(4) j by blast
  have vp: "p < n \<Longrightarrow> pri (a (p div 2)) = f (p div 2)" using assms(4) [of "p div 2"] hp by simp
  have vh: "j div 2 \<noteq> p \<Longrightarrow> pri (a (j div 2)) = f (j div 2)" using assms(4) h by blast
  show "(j \<noteq> p \<longrightarrow> pri (a j) \<le> pri (a (j div 2))) \<and>
    (2 \<le> p \<and> j div 2 = p \<longrightarrow> pri (a j) \<le> pri (a (p div 2)))"
    using h hp vj vp vh assms(2) j by (cases "j div 2 = p") auto
qed

lemma down_ok_lower:
  assumes "\<forall>j. 2 \<le> j \<and> j < n \<longrightarrow> f j \<le> f (j div 2)" "pri (a p) \<le> f p" "1 \<le> p"
    and "\<And>j. j < n \<Longrightarrow> j \<noteq> p \<Longrightarrow> pri (a j) = f j"
  shows "down_ok pri a n p"
  unfolding down_ok_def
proof (intro allI impI)
  fix j assume j: "2 \<le> j \<and> j < n"
  have h: "f j \<le> f (j div 2)" "j div 2 < n" "j div 2 \<noteq> j" using assms(1) j by auto
  have hp: "2 \<le> p \<Longrightarrow> p < n \<Longrightarrow> f p \<le> f (p div 2)" "p div 2 \<noteq> p" using assms(1,3) by auto
  have vj: "j \<noteq> p \<Longrightarrow> pri (a j) = f j" using assms(4) j by blast
  have vp: "p < n \<Longrightarrow> pri (a (p div 2)) = f (p div 2)" using assms(4) [of "p div 2"] hp by simp
  have vh: "j div 2 \<noteq> p \<Longrightarrow> pri (a (j div 2)) = f (j div 2)" using assms(4) h by blast
  show "(j div 2 \<noteq> p \<longrightarrow> pri (a j) \<le> pri (a (j div 2))) \<and>
    (2 \<le> p \<and> j div 2 = p \<longrightarrow> pri (a j) \<le> pri (a (p div 2)))"
    using h hp vj vp vh assms(2) j by (cases "j div 2 = p"; cases "j = p") auto
qed

lemma bubble_up_correct:
  assumes "hole_ok (pq_d q i) q i" "up_ok pri (pq_d q) (pq_size q) i" "pq_size q \<le> pq_avail q" "1 \<le> pq_step q"
  shows "pq_inv pri (bubble_up pri q i) \<and> pq_size (bubble_up pri q i) = pq_size q \<and>
         pq_elems (bubble_up pri q i) = insert (pq_d q i) (pq_d q ` ({1..<pq_size q} - {i}))"
  using bubble_loop_correct [of "pq_d q i" q i pri] assms by (simp add: bubble_up_def pq_inv_def)

lemma percolate_down_correct:
  assumes "hole_ok (pq_d q i) q i" "down_ok pri (pq_d q) (pq_size q) i" "pq_size q \<le> pq_avail q" "1 \<le> pq_step q"
  shows "pq_inv pri (percolate_down pri q i) \<and> pq_size (percolate_down pri q i) = pq_size q \<and>
         pq_elems (percolate_down pri q i) = insert (pq_d q i) (pq_d q ` ({1..<pq_size q} - {i}))"
  using percolate_loop_correct [of "pq_d q i" q i pri] assms by (simp add: percolate_down_def pq_inv_def)

text \<open>When the last entry itself leaves, the code writes it back behind the end.\<close>

lemma percolate_down_end:
  assumes inv: "pq_inv pri q" and p: "p = pq_size q - 1" "1 \<le> p"
  shows "pq_inv pri (percolate_down pri (q\<lparr>pq_size := p\<rparr>) p) \<and>
         pq_elems (percolate_down pri (q\<lparr>pq_size := p\<rparr>) p) = pq_elems q - {pq_d q p}"
proof -
  let ?q1 = "q\<lparr>pq_size := p\<rparr>"
  have "maxchild pri ?q1 p = 0" by (simp add: maxchild_def Let_def)
  then have eq: "percolate_down pri ?q1 p = pq_put p (pq_d q p) ?q1"
    unfolding percolate_down_def by (subst percolate_loop.simps) (simp add: Let_def)
  have pos: "pq_pos q (pq_d q j) = j" if "1 \<le> j" "j \<le> p" for j
    using inv p that by (simp add: pq_inv_def heap_ok_def pos_ok_def)
  have ne: "pq_d q j \<noteq> pq_d q p" if "1 \<le> j" "j < p" for j
    using pos [of j] pos [of p] that by (metis less_imp_le order_refl less_irrefl p(2))
  have "pq_inv pri (pq_put p (pq_d q p) ?q1)"
    using inv ne pos p by (auto simp: pq_inv_def heap_ok_def pos_ok_def is_heap_def heap_at_def pq_put_def)
  moreover have "pq_elems (pq_put p (pq_d q p) ?q1) = pq_elems ?q1"
    by (auto simp: pq_elems_def pq_put_def)
  moreover have "pq_elems ?q1 = pq_elems q - {pq_d q p}"
    using refill_hole(3) [OF inv p(2) _ refl p(1)] p by simp
  ultimately show ?thesis by (simp add: eq)
qed

lemma pq_remove_correct:
  assumes inv: "pq_inv pri q" and d: "d \<in> pq_elems q"
  shows "pq_inv pri (pq_remove pri q d) \<and> pq_elems (pq_remove pri q d) = pq_elems q - {d}"
proof -
  let ?p = "pq_pos q d" and ?n = "pq_size q - 1"
  let ?q1 = "q\<lparr>pq_size := ?n, pq_d := (pq_d q)(?p := pq_d q ?n)\<rparr>"
  have g: "pq_d q ?p = d" "1 \<le> ?p" "?p < pq_size q"
    using pos_ok_get [OF _ d] inv by (auto simp: pq_inv_def heap_ok_def)
  have room: "pq_size ?q1 \<le> pq_avail ?q1" "1 \<le> pq_step ?q1" using inv by (auto simp: pq_inv_def)
  have heap: "\<forall>j. 2 \<le> j \<and> j < pq_size ?q1 \<longrightarrow> pri (pq_d q j) \<le> pri (pq_d q (j div 2))"
    using inv by (auto simp: pq_inv_def heap_ok_def is_heap_def heap_at_def)
  show ?thesis
  proof (cases "?p = ?n")
    case True
    then have dn: "pq_d q ?n = d" "1 \<le> ?n" using g by simp_all
    then have c: "\<not> pri d < pri (pq_d q ?n)" by simp
    have "pq_remove pri q d = percolate_down pri (q\<lparr>pq_size := ?n\<rparr>) ?n"
      unfolding pq_remove_def Let_def True using c by simp
    with percolate_down_end [OF inv refl dn(2)] dn(1) show ?thesis by simp
  next
    case False
    note h = refill_hole(1,2) [OF inv g(2,3) refl False]
    show ?thesis
    proof (cases "pri (pq_d ?q1 ?p) > pri d")
      case True
      have "up_ok pri (pq_d ?q1) (pq_size ?q1) ?p"
        by (rule up_ok_raise [OF heap]) (use g True in auto)
      from bubble_up_correct [OF h(1) this room] h(2) g True show ?thesis
        by (simp add: pq_remove_def Let_def)
    next
      case nless: False
      have "down_ok pri (pq_d ?q1) (pq_size ?q1) ?p"
        by (rule down_ok_lower [OF heap]) (use g nless in auto)
      from percolate_down_correct [OF h(1) this room] h(2) g nless show ?thesis
        by (simp add: pq_remove_def Let_def)
    qed
  qed
qed

lemma pq_pop_correct:
  assumes inv: "pq_inv pri q" and pop: "pq_pop pri q = (r, q')"
  shows "case r of None \<Rightarrow> pq_elems q = {} \<and> q' = q
         | Some e \<Rightarrow> e \<in> pq_elems q \<and> (\<forall>x\<in>pq_elems q. pri x \<le> pri e) \<and> pq_inv pri q' \<and>
                     pq_elems q' = pq_elems q - {e}"
proof (cases "pq_size q = 1")
  case True
  with pop show ?thesis by (auto simp: pq_pop_def pq_elems_def)
next
  case False
  let ?e = "pq_d q 1" and ?n = "pq_size q - 1"
  let ?q1 = "q\<lparr>pq_size := ?n, pq_d := (pq_d q)(1 := pq_d q ?n)\<rparr>"
  have n: "1 < pq_size q" using inv False by (auto simp: pq_inv_def heap_ok_def pos_ok_def)
  have r: "r = Some ?e" and q': "q' = percolate_down pri ?q1 1"
    using pop False by (auto simp: pq_pop_def Let_def)
  have e: "?e \<in> pq_elems q" using n by (auto simp: pq_elems_def)
  have heap: "is_heap pri q" using inv by (simp add: pq_inv_def heap_ok_def)
  have mx: "\<forall>x\<in>pq_elems q. pri x \<le> pri ?e" using heap_root_max [OF heap] by (auto simp: pq_elems_def)
  have room: "pq_size ?q1 \<le> pq_avail ?q1" "1 \<le> pq_step ?q1" using inv by (auto simp: pq_inv_def)
  have "pq_inv pri q' \<and> pq_elems q' = pq_elems q - {?e}"
  proof (cases "?n = 1")
    case True
    with percolate_down_end [OF inv refl] q' show ?thesis by simp
  next
    case False
    then have 1: "1 \<noteq> ?n" by simp
    note h = refill_hole(1,2) [OF inv order_refl n refl 1]
    have "down_ok pri (pq_d ?q1) (pq_size ?q1) 1"
      by (rule down_ok_lower [of _ "\<lambda>j. pri (pq_d q j)"])
        (use heap n mx in \<open>auto simp: is_heap_def heap_at_def pq_elems_def\<close>)
    from percolate_down_correct [OF h(1) this room] h(2) q' show ?thesis by simp
  qed
  with r e mx show ?thesis by simp
qed

text \<open>
  A change of priority: \<open>pri\<close> is the order of the array before, \<open>pri'\<close> the one after, which
  differs in the entry \<open>d\<close> only; the two numbers passed need not be its priorities, as long as
  they show the direction of the change.
\<close>

lemma pq_change_priority_correct:
  assumes inv: "pq_inv pri q" and d: "d \<in> pq_elems q"
    and eq: "\<And>x. x \<in> pq_elems q \<Longrightarrow> x \<noteq> d \<Longrightarrow> pri' x = pri x"
    and up: "old < new \<Longrightarrow> pri d \<le> pri' d" and down: "\<not> old < new \<Longrightarrow> pri' d \<le> pri d"
  shows "pq_inv pri' (pq_change_priority pri' q old new d) \<and>
         pq_elems (pq_change_priority pri' q old new d) = pq_elems q"
proof -
  let ?p = "pq_pos q d"
  have pos: "pos_ok q" using inv by (simp add: pq_inv_def heap_ok_def)
  have g: "pq_d q ?p = d" "1 \<le> ?p" "?p < pq_size q" using pos_ok_get [OF pos d] by auto
  have room: "pq_size q \<le> pq_avail q" "1 \<le> pq_step q" using inv by (auto simp: pq_inv_def)
  have heap: "\<forall>j. 2 \<le> j \<and> j < pq_size q \<longrightarrow> pri (pq_d q j) \<le> pri (pq_d q (j div 2))"
    using inv by (auto simp: pq_inv_def heap_ok_def is_heap_def heap_at_def)
  have ne: "pq_d q j \<noteq> d" if "1 \<le> j" "j < pq_size q" "j \<noteq> ?p" for j
    using pos that g unfolding pos_ok_def by metis
  have hole: "hole_ok (pq_d q ?p) q ?p" using g pos ne by (auto simp: hole_ok_def pos_ok_def)
  define f where "f = (\<lambda>j. if j = 0 then pri' (pq_d q 0) else pri (pq_d q j))"
  have hf: "\<forall>j. 2 \<le> j \<and> j < pq_size q \<longrightarrow> f j \<le> f (j div 2)"
    using heap by (auto simp: f_def)
  have same: "pri' (pq_d q j) = f j" if "j < pq_size q" "j \<noteq> ?p" for j
    using that ne [of j] eq [of "pq_d q j"] by (cases "j = 0") (auto simp: f_def pq_elems_def)
  have elems: "insert (pq_d q ?p) (pq_d q ` ({1..<pq_size q} - {?p})) = pq_elems q"
  proof -
    have "{1..<pq_size q} = insert ?p ({1..<pq_size q} - {?p})" using g by auto
    then show ?thesis unfolding pq_elems_def by (metis image_insert)
  qed
  show ?thesis
  proof (cases "old < new")
    case True
    have "up_ok pri' (pq_d q) (pq_size q) ?p"
      by (rule up_ok_raise [OF hf]) (use g up [OF True] same in \<open>auto simp: f_def\<close>)
    from bubble_up_correct [OF hole this room] elems True show ?thesis
      by (simp add: pq_change_priority_def Let_def)
  next
    case False
    have "down_ok pri' (pq_d q) (pq_size q) ?p"
      by (rule down_ok_lower [OF hf]) (use g down [OF False] same in \<open>auto simp: f_def\<close>)
    from percolate_down_correct [OF hole this room] elems False show ?thesis
      by (simp add: pq_change_priority_def Let_def)
  qed
qed

lemma bubble_loop_fields:
  "pq_size (bubble_loop pri m q i) = pq_size q \<and> pq_avail (bubble_loop pri m q i) = pq_avail q"
proof (induction pri m q i rule: bubble_loop.induct)
  case (1 pri m q i)
  then show ?case
    by (cases "1 < i \<and> pri (pq_d q (i div 2)) < pri m") (auto simp: bubble_loop.simps [of pri m q i] pq_put_def)
qed

lemma percolate_loop_fields:
  "pq_size (percolate_loop pri m q i) = pq_size q \<and> pq_avail (percolate_loop pri m q i) = pq_avail q"
proof (induction pri m q i rule: percolate_loop.induct)
  case (1 pri m q i)
  then show ?case
    by (cases "maxchild pri q i \<noteq> 0 \<and> pri m < pri (pq_d q (maxchild pri q i))")
      (auto simp: percolate_loop.simps [of pri m q i] pq_put_def Let_def)
qed

lemma pq_op_fields [simp]:
  "pq_size (pq_remove pri q d) = pq_size q - 1" "pq_avail (pq_remove pri q d) = pq_avail q"
  "pq_size (pq_change_priority pri q old new d) = pq_size q"
  "pq_avail (pq_change_priority pri q old new d) = pq_avail q"
  by (simp_all add: pq_remove_def pq_change_priority_def Let_def bubble_up_def percolate_down_def
      bubble_loop_fields percolate_loop_fields)

lemma pq_pop_fields:
  "pq_pop pri q = (r, q') \<Longrightarrow> pq_size q' \<le> pq_size q \<and> pq_avail q' = pq_avail q"
  by (auto simp: pq_pop_def Let_def percolate_down_def percolate_loop_fields split: if_splits)

lemma pq_insert_room:
  "pq_size q < pq_avail q \<Longrightarrow> \<exists>q'. pq_insert pri ok q d = Some q' \<and> pq_size q' = pq_size q + 1 \<and> pq_avail q' = pq_avail q"
  by (simp add: pq_insert_def Let_def bubble_up_def bubble_loop_fields)

lemma is_valid_iff_heap:
  assumes "1 \<le> pq_size q"
  shows "pq_is_valid pri q \<longleftrightarrow> is_heap pri q"
proof
  assume v: "pq_is_valid pri q"
  have sub: "1 \<le> j \<Longrightarrow> j < pq_size q \<Longrightarrow> subtree_is_valid pri q j \<and> (2 \<le> j \<longrightarrow> heap_at pri (pq_d q) j)" for j
  proof (induction j rule: less_induct)
    case (less j)
    show ?case
    proof (cases "j = 1")
      case True
      with v show ?thesis by (simp add: pq_is_valid_def)
    next
      case False
      let ?p = "j div 2"
      have p: "1 \<le> ?p" "?p < j" "?p \<noteq> 0" using False less.prems by auto
      then have "subtree_is_valid pri q ?p" using less by auto
      moreover have "j = 2 * ?p \<or> j = 2 * ?p + 1" by presburger
      ultimately show ?thesis
        using less.prems subtree_is_valid.simps [of pri q ?p] p(3) unfolding heap_at_def
        by (metis not_le)
    qed
  qed
  show "is_heap pri q" unfolding is_heap_def using sub by auto
next
  assume h: "is_heap pri q"
  have "1 \<le> pos \<Longrightarrow> subtree_is_valid pri q pos" for pos
  proof (induction "pq_size q - pos" arbitrary: pos rule: less_induct)
    case less
    have "heap_at pri (pq_d q) (2 * pos) \<Longrightarrow> \<not> pri (pq_d q pos) < pri (pq_d q (2 * pos))"
      by (simp add: heap_at_def)
    then have e: "\<not> pri (pq_d q pos) < pri (pq_d q (2 * pos)) \<and> subtree_is_valid pri q (2 * pos)"
      if "2 * pos < pq_size q"
      using that h less.hyps [of "2 * pos"] less.prems unfolding is_heap_def by auto
    have "heap_at pri (pq_d q) (2 * pos + 1) \<Longrightarrow> \<not> pri (pq_d q pos) < pri (pq_d q (2 * pos + 1))"
      by (simp add: heap_at_def)
    then have "\<not> pri (pq_d q pos) < pri (pq_d q (2 * pos + 1)) \<and> subtree_is_valid pri q (2 * pos + 1)"
      if "2 * pos + 1 < pq_size q"
      using that h less.hyps [of "2 * pos + 1"] less.prems unfolding is_heap_def by auto
    with e show ?case by (subst subtree_is_valid.simps) simp
  qed
  then show "pq_is_valid pri q" by (simp add: pq_is_valid_def)
qed

section \<open>The contract of a priority queue\<close>

text \<open>
  What the cache relies on: a queue holds a finite set of entries and \<open>pop\<close> takes out one
  of highest priority. \<open>drain\<close> calls \<open>pop\<close> until the queue is empty, or \<open>n\<close> times.
\<close>

fun drain :: "('q \<Rightarrow> 'e option \<times> 'q) \<Rightarrow> nat \<Rightarrow> 'q \<Rightarrow> 'e list" where
  "drain pop 0 q = []"
| "drain pop (Suc n) q =
     (case pop q of (None, q') \<Rightarrow> [] | (Some e, q') \<Rightarrow> e # drain pop n q')"

locale priority_queue =
  fixes inv :: "'q \<Rightarrow> bool"
    and elems :: "'q \<Rightarrow> 'e set"
    and pri :: "'e \<Rightarrow> int"
    and pop :: "'q \<Rightarrow> 'e option \<times> 'q"
  assumes finite_elems: "inv q \<Longrightarrow> finite (elems q)"
    and pop_None: "inv q \<Longrightarrow> pop q = (None, q') \<Longrightarrow> elems q = {} \<and> q' = q"
    and pop_Some: "inv q \<Longrightarrow> pop q = (Some e, q') \<Longrightarrow>
          e \<in> elems q \<and> (\<forall>x\<in>elems q. pri x \<le> pri e) \<and> inv q' \<and> elems q' = elems q - {e}"
begin

lemma drain_set: "inv q \<Longrightarrow> card (elems q) \<le> n \<Longrightarrow> set (drain pop n q) = elems q"
proof (induction n arbitrary: q)
  case 0
  then show ?case using finite_elems by auto
next
  case (Suc n)
  obtain r q' where p: "pop q = (r, q')" by (rule prod.exhaust)
  show ?case
  proof (cases r)
    case None
    with p pop_None [OF Suc.prems(1)] show ?thesis by auto
  next
    case (Some e)
    with p have s: "e \<in> elems q" "inv q'" "elems q' = elems q - {e}"
      using pop_Some [OF Suc.prems(1)] by auto
    then have "card (elems q') \<le> n" using Suc.prems finite_elems by auto
    with Suc.IH [OF s(2)] s p Some show ?thesis by auto
  qed
qed

lemma drain_subset: "inv q \<Longrightarrow> set (drain pop n q) \<subseteq> elems q"
proof (induction n arbitrary: q)
  case (Suc n)
  obtain r q' where p: "pop q = (r, q')" by (rule prod.exhaust)
  show ?case
  proof (cases r)
    case (Some e)
    with p have "e \<in> elems q" "inv q'" "elems q' = elems q - {e}"
      using pop_Some [OF Suc.prems] by auto
    with Suc.IH [of q'] p Some show ?thesis by auto
  qed (use p in simp)
qed simp

lemma drain_sorted: "inv q \<Longrightarrow> sorted_wrt (\<lambda>x y. pri y \<le> pri x) (drain pop n q) \<and> distinct (drain pop n q)"
proof (induction n arbitrary: q)
  case (Suc n)
  obtain r q' where p: "pop q = (r, q')" by (rule prod.exhaust)
  show ?case
  proof (cases r)
    case (Some e)
    with p have s: "\<forall>x\<in>elems q. pri x \<le> pri e" "inv q'" "elems q' = elems q - {e}"
      using pop_Some [OF Suc.prems] by auto
    then show ?thesis using Suc.IH [of q'] drain_subset [OF s(2), of n] p Some by auto
  qed (use p in simp)
qed simp

lemma drain_length: "inv q \<Longrightarrow> length (drain pop n q) = min n (card (elems q))"
proof (induction n arbitrary: q)
  case (Suc n)
  obtain r q' where p: "pop q = (r, q')" by (rule prod.exhaust)
  show ?case
  proof (cases r)
    case None
    with p pop_None [OF Suc.prems] show ?thesis by auto
  next
    case (Some e)
    with p have s: "e \<in> elems q" "inv q'" "elems q' = elems q - {e}"
      using pop_Some [OF Suc.prems] by auto
    then have "card (elems q) = Suc (card (elems q'))"
      using finite_elems [OF Suc.prems] by (metis card_Suc_Diff1)
    with Suc.IH [OF s(2)] p Some show ?thesis by simp
  qed
qed simp

end

lemma pq_elems_finite: "finite (pq_elems q)"
  by (simp add: pq_elems_def)

interpretation pq: priority_queue "pq_inv pri" pq_elems pri "pq_pop pri" for pri
  by unfold_locales (auto simp: pq_elems_finite dest!: pq_pop_correct)

text \<open>
  \<open>cache_pq_print\<close>: the entries it prints. It works on a copy whose positions nobody reads,
  and its loop ends when one entry is left.
\<close>

definition pq_print :: "('e \<Rightarrow> int) \<Rightarrow> 'e pqueue \<Rightarrow> 'e list" where
  "pq_print pri q = drain (pq_pop pri) (pq_count q - 1) q"

lemma pq_print_loses_last:
  assumes "pq_inv pri q" "pq_elems q \<noteq> {}"
  shows "length (pq_print pri q) = card (pq_elems q) - 1"
  using assms by (simp add: pq_print_def pq.drain_length pq_count_card)

section \<open>Properties\<close>

text \<open>
  C25. \<open>cache_pq_insert\<close> keeps the queue well formed: the array is a heap, each entry knows its
  index, every index used lies in the allocated array, and the new entry is added to the
  contents; it fails only when the array is full and cannot be extended.
\<close>

theorem pq_insert_invariant:
  assumes "pq_inv pri q" "d \<notin> pq_elems q"
  shows "case pq_insert pri realloc_ok q d of
           None \<Rightarrow> pq_size q \<ge> pq_avail q \<and> \<not> realloc_ok
         | Some q' \<Rightarrow> pq_inv pri q' \<and> pq_elems q' = insert d (pq_elems q)"
  using pq_insert_correct [OF assms, of realloc_ok] pq_insert_fails [of pri realloc_ok q d]
  by (auto split: option.split)

theorem pq_insert_invariant_witness:
  "case pq_insert (\<lambda>x. x) False (pq_init 3 (\<lambda>_. 0) (\<lambda>_. 0)) (7::int) of
     None \<Rightarrow> pq_size (pq_init 3 (\<lambda>_. 0) (\<lambda>_. 0 :: int)) \<ge> pq_avail (pq_init 3 (\<lambda>_. 0) (\<lambda>_. 0 :: int)) \<and> \<not> False
   | Some q' \<Rightarrow> pq_inv (\<lambda>x. x) q' \<and> pq_elems q' = insert 7 (pq_elems (pq_init 3 (\<lambda>_. 0) (\<lambda>_. 0)))"
  by (rule pq_insert_invariant) (simp_all add: pq_init_inv)

text \<open>
  C24. Taking entries out of the priority queue with \<open>cache_pq_pop\<close> until it is empty yields
  every entry exactly once, in the order of falling priority: the ejection order of the cache.
\<close>

theorem pq_pop_order:
  assumes "pq_inv pri q"
  shows "set (drain (pq_pop pri) (pq_count q) q) = pq_elems q
           \<and> distinct (drain (pq_pop pri) (pq_count q) q)
           \<and> sorted_wrt (\<lambda>x y. pri y \<le> pri x) (drain (pq_pop pri) (pq_count q) q)"
  using pq.drain_set [OF assms] pq.drain_sorted [OF assms] pq_count_card [OF assms] by simp

text \<open>The witness empties a queue of three entries.\<close>

definition pq_sample :: "int pqueue" where
  "pq_sample = the (pq_insert (\<lambda>x. x) True (the (pq_insert (\<lambda>x. x) True
     (the (pq_insert (\<lambda>x. x) True (pq_init 1 (\<lambda>_. 0) (\<lambda>_. 0)) 3)) 9)) 5)"

lemma pq_sample_inv: "pq_inv (\<lambda>x. x) pq_sample \<and> pq_elems pq_sample = {3, 5, 9}"
proof -
  have step: "pq_inv (\<lambda>x. x) q \<Longrightarrow> d \<notin> pq_elems q \<Longrightarrow>
    pq_inv (\<lambda>x. x) (the (pq_insert (\<lambda>x. x) True q d)) \<and>
    pq_elems (the (pq_insert (\<lambda>x. x) True q d)) = insert d (pq_elems q)" for q and d :: int
    using pq_insert_correct [of "\<lambda>x. x" q d True] pq_insert_fails [of "\<lambda>x. x" True q d]
    by (cases "pq_insert (\<lambda>x. x) True q d") auto
  show ?thesis
    by (simp add: pq_sample_def step pq_init_inv insert_commute)
qed

theorem pq_pop_order_witness:
  "set (drain (pq_pop (\<lambda>x. x)) (pq_count pq_sample) pq_sample) = pq_elems pq_sample
     \<and> distinct (drain (pq_pop (\<lambda>x. x)) (pq_count pq_sample) pq_sample)
     \<and> sorted_wrt (\<lambda>x y. y \<le> x) (drain (pq_pop (\<lambda>x. x)) (pq_count pq_sample) pq_sample)"
  by (rule pq_pop_order [OF conjunct1 [OF pq_sample_inv]])

text \<open>
  \<open>cache_pq_remove\<close> takes an entry out of any place of the queue, the last one included, and
  leaves a well-formed queue of the other entries.
\<close>

theorem pq_remove_invariant:
  assumes "pq_inv pri q" "d \<in> pq_elems q"
  shows "pq_inv pri (pq_remove pri q d) \<and> pq_elems (pq_remove pri q d) = pq_elems q - {d}"
  using assms by (rule pq_remove_correct)

theorem pq_remove_invariant_witness:
  "pq_inv (\<lambda>x. x) (pq_remove (\<lambda>x. x) pq_sample 5) \<and>
   pq_elems (pq_remove (\<lambda>x. x) pq_sample 5) = pq_elems pq_sample - {5}"
  by (rule pq_remove_invariant) (simp_all add: pq_sample_inv)

text \<open>
  The debugging check \<open>cache_pq_is_valid\<close>, which visits every subtree, accepts exactly the
  arrays that are heaps.
\<close>

theorem pq_is_valid_complete:
  assumes "1 \<le> pq_size q"
  shows "pq_is_valid pri q \<longleftrightarrow> (\<forall>j. 2 \<le> j \<and> j < pq_size q \<longrightarrow> pri (pq_d q j) \<le> pri (pq_d q (j div 2)))"
  using is_valid_iff_heap [OF assms] by (simp add: is_heap_def heap_at_def)

theorem pq_is_valid_complete_witness:
  "pq_is_valid (\<lambda>x. x) (pq_init 3 (\<lambda>_. 0) (\<lambda>_. 0 :: int)) \<longleftrightarrow>
    (\<forall>j. 2 \<le> j \<and> j < pq_size (pq_init 3 (\<lambda>_. 0) (\<lambda>_. 0 :: int)) \<longrightarrow>
       pq_d (pq_init 3 (\<lambda>_. 0) (\<lambda>_. 0 :: int)) j \<le> pq_d (pq_init 3 (\<lambda>_. 0) (\<lambda>_. 0)) (j div 2))"
  by (rule pq_is_valid_complete) (simp add: pq_init_def)

end
