(* ===== verification/Cache_Hash.thy ===== *)
theory Cache_Hash
  imports Prelude
begin

text \<open>
  The hash table of the cache, \<open>modules/cache/cache_hash.c\<close>, used by \<open>cache_cache.c\<close> with NUL
  terminated keys (\<open>CACHE_HASH_KEY_STRING\<close>). A bucket is the linked list of its entries; the
  pointer \<open>hep\<close> to the \<open>next\<close> field or array slot where a search stops is the number of the
  bucket and the position in its list.
\<close>


section \<open>The table\<close>

record 'v hash_entry =
  he_hash :: u32
  he_key :: cstring
  he_val :: 'v

record 'v cache_hash =
  h_array :: "nat \<Rightarrow> 'v hash_entry list"
  h_count :: int
  h_max :: nat

text \<open>\<open>cache_hash_make\<close>, the case that both allocations succeed.\<close>

definition hash_make :: "nat \<Rightarrow> 'v cache_hash" where
  "hash_make n = \<lparr>h_array = (\<lambda>_. []), h_count = 0, h_max = n\<rparr>"

text \<open>\<open>hash = hash * 33 + *p\<close> over the bytes of the key, on 32 bits.\<close>

definition times33 :: "cstring \<Rightarrow> u32" where
  "times33 key = fold (\<lambda>c hash. hash * 33 + of_nat (ccode c)) key 0"

definition hash_bucket :: "'v cache_hash \<Rightarrow> cstring \<Rightarrow> nat" where
  "hash_bucket ht key = unat (times33 key) mod h_max ht"

text \<open>The scan of the linked list compares hash, length and bytes.\<close>

definition he_matches :: "cstring \<Rightarrow> 'v hash_entry \<Rightarrow> bool" where
  "he_matches key he \<longleftrightarrow>
     he_hash he = times33 key \<and> length (he_key he) = length key \<and> he_key he = key"

fun scan_chain :: "('a \<Rightarrow> bool) \<Rightarrow> 'a list \<Rightarrow> nat" where
  "scan_chain P [] = 0"
| "scan_chain P (he # rest) = (if P he then 0 else Suc (scan_chain P rest))"

text \<open>
  \<open>find_entry\<close>: the position where the scan stopped, and the table, which has a new entry
  there when the key is new and a value is given. \<open>None\<close> when \<open>malloc\<close> fails.
\<close>

definition find_entry ::
  "bool \<Rightarrow> 'v cache_hash \<Rightarrow> cstring \<Rightarrow> 'v option \<Rightarrow> (nat \<times> nat) option \<times> 'v cache_hash" where
  "find_entry malloc_ok ht key val =
     (let b = hash_bucket ht key;
          chain = h_array ht b;
          i = scan_chain (he_matches key) chain
      in if i < length chain then (Some (b, i), ht)
         else
           (case val of
              None \<Rightarrow> (Some (b, i), ht)
            | Some v \<Rightarrow>
                if \<not> malloc_ok then (None, ht)
                else (Some (b, i),
                      ht\<lparr>h_array := (h_array ht)(b := chain @ [\<lparr>he_hash = times33 key, he_key = key, he_val = v\<rparr>]),
                         h_count := h_count ht + 1\<rparr>)))"

definition hash_get :: "'v cache_hash \<Rightarrow> cstring \<Rightarrow> 'v option" where
  "hash_get ht key =
     (case find_entry True ht key None of
        (Some (b, i), _) \<Rightarrow>
          if i < length (h_array ht b) then Some (he_val (h_array ht b ! i)) else None
      | (None, _) \<Rightarrow> None)"

text \<open>\<open>cache_hash_set\<close>: the value returned and the new table. \<open>val\<close> NULL deletes.\<close>

definition hash_set :: "bool \<Rightarrow> 'v cache_hash \<Rightarrow> cstring \<Rightarrow> 'v option \<Rightarrow> 'v option \<times> 'v cache_hash" where
  "hash_set malloc_ok ht key val =
     (case find_entry malloc_ok ht key val of
        (None, ht') \<Rightarrow> (None, ht')
      | (Some (b, i), ht') \<Rightarrow>
          (let chain = h_array ht' b
           in if i < length chain then
                (case val of
                   None \<Rightarrow>
                     (Some (he_val (chain ! i)),
                      ht'\<lparr>h_array := (h_array ht')(b := take i chain @ drop (Suc i) chain),
                          h_count := h_count ht' - 1\<rparr>)
                 | Some v \<Rightarrow>
                     (Some (he_val (chain ! i)),
                      ht'\<lparr>h_array := (h_array ht')(b := chain[i := (chain ! i)\<lparr>he_val := v\<rparr>])\<rparr>))
              else (None, ht')))"

section \<open>Iteration\<close>

text \<open>
  The iterator: \<open>this\<close> and \<open>next\<close> are the rests of a chain from the entry on. \<open>hash_seek\<close> is
  the loop over the array, whose last element is at the index \<open>max\<close>.
\<close>

record 'v hash_index =
  hi_this :: "'v hash_entry list"
  hi_next :: "'v hash_entry list"
  hi_index :: nat

function hash_seek :: "'v cache_hash \<Rightarrow> nat \<Rightarrow> ('v hash_entry list \<times> nat) option" where
  "hash_seek ht index =
     (if index > h_max ht then None
      else if h_array ht index = [] then hash_seek ht (index + 1)
      else Some (h_array ht index, index + 1))"
  by pat_completeness auto
termination
  by (relation "measure (\<lambda>(ht, index). h_max ht + 1 - index)") auto

declare hash_seek.simps [simp del]

definition hash_next :: "'v cache_hash \<Rightarrow> 'v hash_index \<Rightarrow> 'v hash_index option" where
  "hash_next ht hi =
     (if hi_next hi \<noteq> [] then
        Some (hi\<lparr>hi_this := hi_next hi, hi_next := tl (hi_next hi)\<rparr>)
      else
        (case hash_seek ht (hi_index hi) of
           None \<Rightarrow> None
         | Some (chain, index) \<Rightarrow>
             Some \<lparr>hi_this = chain, hi_next = tl chain, hi_index = index\<rparr>))"

definition hash_first :: "'v cache_hash \<Rightarrow> 'v hash_index option" where
  "hash_first ht = hash_next ht \<lparr>hi_this = [], hi_next = [], hi_index = 0\<rparr>"

definition hash_this :: "'v hash_index \<Rightarrow> cstring \<times> 'v" where
  "hash_this hi = (he_key (hd (hi_this hi)), he_val (hd (hi_this hi)))"

section \<open>The invariant\<close>

text \<open>
  Entries hang in the bucket of their hash, no key occurs twice in a chain, the slot behind the
  last bucket stays empty, and \<open>count\<close> is the number of entries.
\<close>

definition chain_ok :: "'v cache_hash \<Rightarrow> nat \<Rightarrow> bool" where
  "chain_ok ht b \<longleftrightarrow> distinct (map he_key (h_array ht b)) \<and>
     (\<forall>he\<in>set (h_array ht b). he_hash he = times33 (he_key he) \<and> hash_bucket ht (he_key he) = b)"

definition hash_inv :: "'v cache_hash \<Rightarrow> bool" where
  "hash_inv ht \<longleftrightarrow> 0 < h_max ht \<and> (\<forall>b. chain_ok ht b) \<and>
     h_count ht = (\<Sum>b<h_max ht. int (length (h_array ht b)))"

text \<open>The abstract value of a table: a finite map.\<close>

definition hash_abs :: "'v cache_hash \<Rightarrow> cstring \<Rightarrow> 'v option" where
  "hash_abs ht key = map_of (map (\<lambda>he. (he_key he, he_val he)) (h_array ht (hash_bucket ht key))) key"

lemma scan_chain_le: "scan_chain P xs \<le> length xs"
  by (induction xs) auto

lemma scan_chain_less: "scan_chain P xs < length xs \<longleftrightarrow> (\<exists>x\<in>set xs. P x)"
  by (induction xs) auto

lemma scan_chain_nth: "scan_chain P xs < length xs \<Longrightarrow> P (xs ! scan_chain P xs)"
  by (induction xs) auto

lemma hash_bucket_less: "hash_inv ht \<Longrightarrow> hash_bucket ht key < h_max ht"
  by (simp add: hash_inv_def hash_bucket_def)

lemma hash_inv_chain: "hash_inv ht \<Longrightarrow> chain_ok ht b"
  by (simp add: hash_inv_def)

lemma chain_matches: "chain_ok ht b \<Longrightarrow> he \<in> set (h_array ht b) \<Longrightarrow> he_matches key he \<longleftrightarrow> he_key he = key"
  by (auto simp: chain_ok_def he_matches_def)

lemma map_of_chain:
  assumes "chain_ok ht b"
  shows "map_of (map (\<lambda>he. (he_key he, he_val he)) (h_array ht b)) key =
    (let i = scan_chain (he_matches key) (h_array ht b)
     in if i < length (h_array ht b) then Some (he_val (h_array ht b ! i)) else None)"
proof -
  have "\<forall>he\<in>set xs. he_matches key he \<longleftrightarrow> he_key he = key \<Longrightarrow>
    map_of (map (\<lambda>he. (he_key he, he_val he)) xs) key =
    (let i = scan_chain (he_matches key) xs in if i < length xs then Some (he_val (xs ! i)) else None)" for xs
    by (induction xs) (auto simp: Let_def)
  then show ?thesis using chain_matches [OF assms] by blast
qed

lemma hash_get_abs: "hash_inv ht \<Longrightarrow> hash_get ht key = hash_abs ht key"
  using map_of_chain [OF hash_inv_chain [of ht "hash_bucket ht key"], of key]
  by (simp add: hash_get_def find_entry_def hash_abs_def Let_def)

lemma hash_make_inv: "0 < n \<Longrightarrow> hash_inv (hash_make n)"
  by (simp add: hash_inv_def hash_make_def chain_ok_def)

lemma hash_make_abs: "hash_abs (hash_make n) = Map.empty"
  by (rule ext) (simp add: hash_abs_def hash_make_def)

section \<open>Setting a value\<close>

abbreviation chain_map :: "'v hash_entry list \<Rightarrow> cstring \<Rightarrow> 'v option" where
  "chain_map chain \<equiv> map_of (map (\<lambda>he. (he_key he, he_val he)) chain)"

lemma sum_bucket:
  fixes f :: "nat \<Rightarrow> int"
  assumes "b < m"
  shows "(\<Sum>x<m. if x = b then v else f x) = (\<Sum>x<m. f x) + v - f b"
proof -
  have "(\<Sum>x<m. if x = b then v else f x) = v + (\<Sum>x\<in>{..<m} - {b}. if x = b then v else f x)"
    using assms by (subst sum.remove [of _ b]) auto
  also have "(\<Sum>x\<in>{..<m} - {b}. if x = b then v else f x) = (\<Sum>x\<in>{..<m} - {b}. f x)"
    by (rule sum.cong) auto
  also have "\<dots> = (\<Sum>x<m. f x) - f b"
    using assms by (subst (2) sum.remove [of _ b]) auto
  finally show ?thesis by simp
qed

lemma bucket_update:
  assumes inv: "hash_inv ht" and b: "b = hash_bucket ht key"
    and d: "distinct (map he_key chain')"
    and ok: "\<And>he. he \<in> set chain' \<Longrightarrow> he_hash he = times33 (he_key he) \<and> hash_bucket ht (he_key he) = b"
    and map: "chain_map chain' = (chain_map (h_array ht b))(key := val)"
    and ht': "ht' = ht\<lparr>h_array := (h_array ht)(b := chain'),
                h_count := h_count ht + int (length chain') - int (length (h_array ht b))\<rparr>"
  shows "hash_inv ht' \<and> hash_abs ht' = (hash_abs ht)(key := val)"
proof -
  have bm: "b < h_max ht" using hash_bucket_less [OF inv] b by simp
  have hb: "hash_bucket ht' k = hash_bucket ht k" for k by (simp add: ht' hash_bucket_def)
  have "chain_ok ht' c" for c
    using d ok hash_inv_chain [OF inv, of c] by (auto simp: chain_ok_def hb) (auto simp: ht' split: if_splits)
  moreover have "h_count ht' = (\<Sum>c<h_max ht. if c = b then int (length chain') else int (length (h_array ht c)))"
    using inv by (simp add: sum_bucket [OF bm] ht' hash_inv_def)
  moreover have "\<dots> = (\<Sum>c<h_max ht'. int (length (h_array ht' c)))"
    by (rule sum.cong) (auto simp: ht')
  ultimately have "hash_inv ht'" using inv by (simp add: hash_inv_def ht')
  moreover have "hash_abs ht' k = ((hash_abs ht)(key := val)) k" for k
  proof (cases "hash_bucket ht k = b")
    case True
    then have "hash_abs ht' k = chain_map chain' k" by (simp add: hash_abs_def hb) (simp add: ht')
    then show ?thesis using True by (simp add: map hash_abs_def)
  next
    case False
    then have "k \<noteq> key" using b by auto
    then show ?thesis using False by (simp add: hash_abs_def hb) (simp add: ht')
  qed
  ultimately show ?thesis by blast
qed

lemma distinct_map_middle:
  assumes "distinct (map f xs)" "i < length xs"
  shows "f (xs ! i) \<notin> f ` set (take i xs)" "f (xs ! i) \<notin> f ` set (drop (Suc i) xs)"
  using assms by (subst (asm) id_take_nth_drop [OF assms(2)], simp)+

lemma chain_map_snoc:
  "he_key he \<notin> he_key ` set xs \<Longrightarrow> chain_map (xs @ [he]) = (chain_map xs)(he_key he \<mapsto> he_val he)"
  by (induction xs) auto

lemma chain_map_delete:
  assumes "distinct (map he_key xs)" "i < length xs"
  shows "chain_map (take i xs @ drop (Suc i) xs) = (chain_map xs)(he_key (xs ! i) := None)"
proof -
  have "chain_map xs = chain_map (take i xs @ xs ! i # drop (Suc i) xs)"
    using id_take_nth_drop [OF assms(2)] by simp
  moreover have "chain_map (take i xs) (he_key (xs ! i)) = None" "chain_map (drop (Suc i) xs) (he_key (xs ! i)) = None"
    using distinct_map_middle [OF assms] by (auto simp: map_of_eq_None_iff image_iff)
  ultimately show ?thesis by (auto simp: map_add_def fun_eq_iff split: option.splits)
qed

lemma chain_map_replace:
  assumes "distinct (map he_key xs)" "i < length xs"
  shows "chain_map (xs[i := (xs ! i)\<lparr>he_val := v\<rparr>]) = (chain_map xs)(he_key (xs ! i) := Some v)"
proof -
  have "chain_map xs = chain_map (take i xs @ xs ! i # drop (Suc i) xs)"
    using id_take_nth_drop [OF assms(2)] by simp
  moreover have "xs[i := (xs ! i)\<lparr>he_val := v\<rparr>] = take i xs @ (xs ! i)\<lparr>he_val := v\<rparr> # drop (Suc i) xs"
    using assms(2) by (simp add: upd_conv_take_nth_drop)
  moreover have "chain_map (take i xs) (he_key (xs ! i)) = None"
    using distinct_map_middle [OF assms] by (auto simp: map_of_eq_None_iff image_iff)
  ultimately show ?thesis by (auto simp: map_add_def fun_eq_iff split: option.splits)
qed

lemma hash_set_correct:
  assumes inv: "hash_inv ht" and set: "hash_set malloc_ok ht key val = (r, ht')"
    and ok: "malloc_ok \<or> val = None \<or> hash_abs ht key \<noteq> None"
  shows "hash_inv ht' \<and> hash_abs ht' = (hash_abs ht)(key := val) \<and>
         r = (if hash_abs ht key = None then val else hash_abs ht key) \<and> h_max ht' = h_max ht"
proof -
  define b where "b = hash_bucket ht key"
  define chain where "chain = h_array ht b"
  define i where "i = scan_chain (he_matches key) chain"
  have co: "chain_ok ht b" by (rule hash_inv_chain [OF inv])
  have dist: "distinct (map he_key chain)"
    and good: "\<And>he. he \<in> set chain \<Longrightarrow> he_hash he = times33 (he_key he) \<and> hash_bucket ht (he_key he) = b"
    using co by (auto simp: chain_ok_def chain_def)
  have abs: "hash_abs ht key = chain_map chain key" by (simp add: hash_abs_def b_def chain_def)
  have cm: "chain_map chain key = (if i < length chain then Some (he_val (chain ! i)) else None)"
    using map_of_chain [OF co, of key] by (simp add: chain_def i_def Let_def)
  show ?thesis
  proof (cases "i < length chain")
    case True
    then have "he_matches key (chain ! i)" unfolding i_def by (rule scan_chain_nth)
    then have ki: "he_key (chain ! i) = key" by (simp add: he_matches_def)
    have fe: "find_entry malloc_ok ht key val = (Some (b, i), ht)"
      using True by (simp add: find_entry_def Let_def b_def chain_def i_def)
    show ?thesis
    proof (cases val)
      case None
      have ht': "ht' = ht\<lparr>h_array := (h_array ht)(b := take i chain @ drop (Suc i) chain), h_count := h_count ht - 1\<rparr>"
        and r: "r = Some (he_val (chain ! i))"
        using set fe None True by (auto simp: hash_set_def Let_def chain_def)
      have "hash_inv ht' \<and> hash_abs ht' = (hash_abs ht)(key := None)"
      proof (rule bucket_update [OF inv b_def])
        show "distinct (map he_key (take i chain @ drop (Suc i) chain))"
          using dist by (subst (asm) id_take_nth_drop [OF True]) auto
        show "chain_map (take i chain @ drop (Suc i) chain) = (chain_map (h_array ht b))(key := None)"
          unfolding chain_map_delete [OF dist True] ki by (simp add: chain_def)
        show "ht' = ht\<lparr>h_array := (h_array ht)(b := take i chain @ drop (Suc i) chain), h_count := h_count ht +
           int (length (take i chain @ drop (Suc i) chain)) - int (length (h_array ht b))\<rparr>"
          using True by (simp add: ht' chain_def [symmetric])
      qed (use good in \<open>auto dest: in_set_takeD in_set_dropD\<close>)
      then show ?thesis using r True cm abs None by (simp add: ht')
    next
      case (Some v)
      let ?chain = "chain[i := (chain ! i)\<lparr>he_val := v\<rparr>]"
      have ht': "ht' = ht\<lparr>h_array := (h_array ht)(b := ?chain)\<rparr>" and r: "r = Some (he_val (chain ! i))"
        using set fe Some True by (auto simp: hash_set_def Let_def chain_def)
      have keys: "map he_key ?chain = map he_key chain"
        using True by (simp add: map_update list_update_same_conv)
      have "hash_inv ht' \<and> hash_abs ht' = (hash_abs ht)(key := Some v)"
      proof (rule bucket_update [OF inv b_def])
        show "distinct (map he_key ?chain)" using dist keys by simp
        show "chain_map ?chain = (chain_map (h_array ht b))(key := Some v)"
          unfolding chain_map_replace [OF dist True] ki by (simp add: chain_def)
        show "ht' = ht\<lparr>h_array := (h_array ht)(b := ?chain),
            h_count := h_count ht + int (length ?chain) - int (length (h_array ht b))\<rparr>"
          by (simp add: ht' chain_def [symmetric])
        show "he_hash he = times33 (he_key he) \<and> hash_bucket ht (he_key he) = b" if "he \<in> set ?chain" for he
        proof -
          have "he = (chain ! i)\<lparr>he_val := v\<rparr> \<or> he \<in> set chain" using that set_update_subset_insert by fast
          then show ?thesis using good [of "chain ! i"] good [of he] True by auto
        qed
      qed
      then show ?thesis using r True cm abs Some by (simp add: ht')
    qed
  next
    case False
    then have i: "i = length chain" using scan_chain_le [of "he_matches key" chain] by (simp add: i_def)
    show ?thesis
    proof (cases val)
      case None
      then have "(r, ht') = (None, ht)"
        using set False by (simp add: hash_set_def find_entry_def Let_def b_def chain_def i_def)
      moreover have "(hash_abs ht)(key := None) = hash_abs ht" using False cm abs by auto
      ultimately show ?thesis using None inv False cm abs by simp
    next
      case (Some v)
      let ?he = "\<lparr>he_hash = times33 key, he_key = key, he_val = v\<rparr>"
      have m: malloc_ok using ok Some False cm abs by simp
      let ?ht1 = "ht\<lparr>h_array := (h_array ht)(b := chain @ [?he]), h_count := h_count ht + 1\<rparr>"
      have fe: "find_entry malloc_ok ht key val = (Some (b, i), ?ht1)"
        using False m Some by (simp add: find_entry_def Let_def b_def chain_def i_def)
      have ht': "ht' = ?ht1" and r: "r = Some v"
        using set fe Some i by (auto simp: hash_set_def Let_def)
      have new: "key \<notin> he_key ` set chain"
        using False cm by (auto simp: map_of_eq_None_iff image_iff split: if_splits)
      have "hash_inv ht' \<and> hash_abs ht' = (hash_abs ht)(key := Some v)"
      proof (rule bucket_update [OF inv b_def])
        show "distinct (map he_key (chain @ [?he]))" using dist new by auto
        show "chain_map (chain @ [?he]) = (chain_map (h_array ht b))(key := Some v)"
          using chain_map_snoc [of ?he chain] new by (simp add: chain_def)
        show "ht' = ht\<lparr>h_array := (h_array ht)(b := chain @ [?he]),
            h_count := h_count ht + int (length (chain @ [?he])) - int (length (h_array ht b))\<rparr>"
          by (simp add: ht' chain_def [symmetric])
      qed (use good b_def in auto)
      then show ?thesis using r False cm abs Some by (simp add: ht')
    qed
  qed
qed

section \<open>The contract of a map\<close>

text \<open>
  What \<open>cache_cache.c\<close> relies on, over the abstract map: a lookup reads it, an update with a
  value or with none writes it and hands out what was there.
\<close>

locale string_map =
  fixes inv :: "'m \<Rightarrow> bool"
    and abs :: "'m \<Rightarrow> cstring \<Rightarrow> 'v option"
    and lookup :: "'m \<Rightarrow> cstring \<Rightarrow> 'v option"
    and upd :: "'m \<Rightarrow> cstring \<Rightarrow> 'v option \<Rightarrow> 'v option \<times> 'm"
  assumes lookup_abs: "inv m \<Longrightarrow> lookup m k = abs m k"
    and upd_inv: "inv m \<Longrightarrow> inv (snd (upd m k v))"
    and upd_abs: "inv m \<Longrightarrow> abs (snd (upd m k v)) = (abs m)(k := v)"
begin

lemma lookup_upd: "inv m \<Longrightarrow> lookup (snd (upd m k v)) k' = (if k' = k then v else lookup m k')"
  by (simp add: lookup_abs upd_inv upd_abs)

lemma upd_fold_inv: "inv m \<Longrightarrow> inv (fold (\<lambda>(k, v) m. snd (upd m k v)) kvs m)"
  by (induction kvs arbitrary: m) (auto simp: upd_inv)

text \<open>After any sequence of updates a lookup yields the last one of its key.\<close>

lemma lookup_fold:
  "inv m \<Longrightarrow> lookup (fold (\<lambda>(k, v) m. snd (upd m k v)) kvs m) k =
     (case map_of (rev kvs) k of Some v \<Rightarrow> v | None \<Rightarrow> lookup m k)"
proof (induction kvs arbitrary: m)
  case (Cons kv kvs)
  obtain k' v where kv: "kv = (k', v)" by (rule prod.exhaust)
  show ?case
    using Cons.IH [OF upd_inv [OF Cons.prems, of k' v]] lookup_upd [OF Cons.prems]
    by (auto simp: kv map_add_def split: option.splits)
qed simp

end

interpretation hm: string_map hash_inv hash_abs hash_get "hash_set True"
proof
  fix ht :: "'v cache_hash" and k val
  assume inv: "hash_inv ht"
  obtain r ht' where "hash_set True ht k val = (r, ht')" by (rule prod.exhaust)
  with hash_set_correct [OF inv this]
  show "hash_inv (snd (hash_set True ht k val))" "hash_abs (snd (hash_set True ht k val)) = (hash_abs ht)(k := val)"
    by simp_all
qed (rule hash_get_abs)

section \<open>Iteration visits every entry\<close>

definition buckets_from :: "'v cache_hash \<Rightarrow> nat \<Rightarrow> 'v hash_entry list" where
  "buckets_from ht n = concat (map (h_array ht) [n..<h_max ht + 1])"

definition hash_rest :: "'v cache_hash \<Rightarrow> 'v hash_index \<Rightarrow> 'v hash_entry list" where
  "hash_rest ht hi = hi_next hi @ buckets_from ht (hi_index hi)"

lemma buckets_from_step: "\<not> index > h_max ht \<Longrightarrow> buckets_from ht index = h_array ht index @ buckets_from ht (index + 1)"
  unfolding buckets_from_def by (subst upt_conv_Cons) auto

lemma hash_seek_rest:
  "case hash_seek ht index of
     None \<Rightarrow> buckets_from ht index = []
   | Some (chain, index') \<Rightarrow> chain \<noteq> [] \<and> buckets_from ht index = chain @ buckets_from ht index'"
proof (induction ht index rule: hash_seek.induct)
  case (1 ht index)
  show ?case
  proof (cases "index > h_max ht")
    case True
    then show ?thesis by (subst hash_seek.simps) (simp add: buckets_from_def)
  next
    case False
    note step = buckets_from_step [OF False]
    show ?thesis
    proof (cases "h_array ht index = []")
      case True
      then have eqs: "buckets_from ht index = buckets_from ht (index + 1)"
        "hash_seek ht index = hash_seek ht (index + 1)"
        using step False by (simp_all add: hash_seek.simps [of ht index])
      show ?thesis unfolding eqs by (rule 1 [OF False True])
    next
      case ne: False
      with step False show ?thesis by (simp add: hash_seek.simps [of ht index])
    qed
  qed
qed

lemma hash_next_rest:
  "case hash_next ht hi of
     None \<Rightarrow> hash_rest ht hi = []
   | Some hi' \<Rightarrow> hi_this hi' \<noteq> [] \<and> hash_rest ht hi = hd (hi_this hi') # hash_rest ht hi'"
proof (cases "hi_next hi")
  case Nil
  have eq: "hash_next ht hi = (case hash_seek ht (hi_index hi) of None \<Rightarrow> None
      | Some (chain, index) \<Rightarrow> Some \<lparr>hi_this = chain, hi_next = tl chain, hi_index = index\<rparr>)"
    and r: "hash_rest ht hi = buckets_from ht (hi_index hi)"
    by (simp_all add: hash_next_def hash_rest_def Nil)
  show ?thesis
  proof (cases "hash_seek ht (hi_index hi)")
    case None
    with hash_seek_rest [of ht "hi_index hi"] show ?thesis unfolding eq r None by simp
  next
    case (Some ci)
    obtain chain index where ci: "ci = (chain, index)" by (rule prod.exhaust)
    with hash_seek_rest [of ht "hi_index hi"] Some
    have "chain \<noteq> []" "hash_rest ht hi = chain @ buckets_from ht index"
      unfolding r by simp_all
    then show ?thesis unfolding eq Some ci by (cases chain) (simp_all add: hash_rest_def)
  qed
next
  case (Cons he rest)
  then show ?thesis by (simp add: hash_next_def hash_rest_def)
qed

text \<open>The loop \<open>for (hi = cache_hash_first(ht); hi; hi = cache_hash_next(hi))\<close>.\<close>

function hash_loop :: "'v cache_hash \<Rightarrow> 'v hash_index \<Rightarrow> (cstring \<times> 'v) list" where
  "hash_loop ht hi =
     hash_this hi # (case hash_next ht hi of None \<Rightarrow> [] | Some hi' \<Rightarrow> hash_loop ht hi')"
  by pat_completeness auto
termination
proof (relation "measure (\<lambda>(ht, hi). length (hash_rest ht hi))", goal_cases)
  case (2 ht hi hi')
  with hash_next_rest [of ht hi] show ?case by simp
qed simp

declare hash_loop.simps [simp del]

definition hash_walk :: "'v cache_hash \<Rightarrow> (cstring \<times> 'v) list" where
  "hash_walk ht = (case hash_first ht of None \<Rightarrow> [] | Some hi \<Rightarrow> hash_loop ht hi)"

lemma hash_loop_rest:
  "hash_loop ht hi = hash_this hi # map (\<lambda>he. (he_key he, he_val he)) (hash_rest ht hi)"
proof (induction ht hi rule: hash_loop.induct)
  case (1 ht hi)
  show ?case
  proof (cases "hash_next ht hi")
    case None
    with hash_next_rest [of ht hi] show ?thesis by (simp add: hash_loop.simps [of ht hi])
  next
    case (Some hi')
    with hash_next_rest [of ht hi] 1 [OF Some] show ?thesis
      by (simp add: hash_loop.simps [of ht hi]) (simp add: hash_this_def)
  qed
qed

lemma hash_walk_rest: "hash_walk ht = map (\<lambda>he. (he_key he, he_val he)) (buckets_from ht 0)"
proof -
  let ?hi = "\<lparr>hi_this = [], hi_next = [], hi_index = 0\<rparr> :: 'a hash_index"
  have r: "hash_rest ht ?hi = buckets_from ht 0" by (simp add: hash_rest_def)
  show ?thesis
  proof (cases "hash_next ht ?hi")
    case None
    with hash_next_rest [of ht ?hi] r show ?thesis by (simp add: hash_walk_def hash_first_def)
  next
    case (Some hi')
    with hash_next_rest [of ht ?hi] r have "buckets_from ht 0 = hd (hi_this hi') # hash_rest ht hi'" by simp
    with Some show ?thesis by (simp add: hash_walk_def hash_first_def hash_loop_rest hash_this_def)
  qed
qed

lemma chain_keys_bucket: "hash_inv ht \<Longrightarrow> he \<in> set (h_array ht b) \<Longrightarrow> hash_bucket ht (he_key he) = b"
  using hash_inv_chain [of ht b] by (auto simp: chain_ok_def)

lemma last_slot_empty:
  assumes "hash_inv ht" "h_max ht \<le> b"
  shows "h_array ht b = []"
proof (rule ccontr)
  assume "h_array ht b \<noteq> []"
  then have "hash_bucket ht (he_key (hd (h_array ht b))) = b"
    using chain_keys_bucket [OF assms(1)] by simp
  with hash_bucket_less [OF assms(1), of "he_key (hd (h_array ht b))"] assms(2) show False by simp
qed

lemma distinct_bucket_keys:
  assumes inv: "hash_inv ht"
  shows "distinct (map he_key (concat (map (h_array ht) [0..<n])))"
proof (induction n)
  case (Suc n)
  have "hash_bucket ht k = n" if "k \<in> he_key ` set (h_array ht n)" for k
    using that chain_keys_bucket [OF inv] by auto
  moreover have "hash_bucket ht k < n" if "k \<in> he_key ` set (concat (map (h_array ht) [0..<n]))" for k
    using that chain_keys_bucket [OF inv] by auto
  ultimately have "he_key ` set (concat (map (h_array ht) [0..<n])) \<inter> he_key ` set (h_array ht n) = {}"
    by fastforce
  moreover have "distinct (map he_key (h_array ht n))"
    using hash_inv_chain [OF inv, of n] by (simp add: chain_ok_def)
  moreover have "concat (map (h_array ht) [0..<Suc n]) = concat (map (h_array ht) [0..<n]) @ h_array ht n"
    by simp
  ultimately show ?case using Suc.IH by (simp add: inf_commute)
qed simp

lemma length_buckets: "int (length (concat (map (h_array ht) [0..<n]))) = (\<Sum>b<n. int (length (h_array ht b)))"
  by (induction n) auto

lemma map_of_buckets:
  assumes "hash_inv ht"
  shows "chain_map (concat (map (h_array ht) [0..<n])) key = (if hash_bucket ht key < n then hash_abs ht key else None)"
proof (induction n)
  case (Suc n)
  have none: "chain_map (h_array ht b) key = None" if "hash_bucket ht key \<noteq> b" for b
    using that chain_keys_bucket [OF assms, of _ b] by (auto simp: map_of_eq_None_iff)
  have "concat (map (h_array ht) [0..<Suc n]) = concat (map (h_array ht) [0..<n]) @ h_array ht n" by simp
  then have e: "chain_map (concat (map (h_array ht) [0..<Suc n])) key =
      (chain_map (concat (map (h_array ht) [0..<n])) ++ chain_map (h_array ht n)) key \<or>
      chain_map (concat (map (h_array ht) [0..<Suc n])) key =
      (chain_map (h_array ht n) ++ chain_map (concat (map (h_array ht) [0..<n]))) key"
    by (simp only: map_append map_of_append) simp
  show ?case
  proof (cases "hash_bucket ht key = n")
    case True
    then have "chain_map (concat (map (h_array ht) [0..<n])) key = None" using Suc.IH by simp
    with e True show ?thesis by (auto simp: map_add_def hash_abs_def split: option.splits)
  next
    case False
    with e none [OF False] Suc.IH show ?thesis by (auto simp: map_add_def split: option.splits)
  qed
qed simp

section \<open>Properties\<close>

text \<open>
  C23. The hash table is a finite map: \<open>cache_hash_set\<close> keeps every chain in the bucket of its
  32-bit hash without duplicate keys and the count of the entries exact, and afterwards
  \<open>cache_hash_get\<close> finds the new value under the key, nothing when NULL was set, and what it
  found before under every other key, whatever collides.
\<close>

theorem hash_get_set:
  assumes "hash_inv ht" "hash_set malloc_ok ht key val = (r, ht')"
    and "malloc_ok \<or> val = None \<or> hash_get ht key \<noteq> None"
  shows "hash_inv ht' \<and> hash_get ht' = (hash_get ht)(key := val)"
  using hash_set_correct [OF assms(1,2)] assms hash_get_abs [OF assms(1)] hash_get_abs [of ht']
  by (auto simp: fun_eq_iff)

theorem hash_get_set_witness:
  "hash_inv (snd (hash_set True (hash_make 1) ''a'' (Some (5::nat)))) \<and>
   hash_get (snd (hash_set True (hash_make 1) ''a'' (Some (5::nat)))) = (hash_get (hash_make 1))(''a'' := Some 5)"
  by (rule hash_get_set [of "hash_make 1" True _ _ "fst (hash_set True (hash_make 1) ''a'' (Some (5::nat)))"])
    (simp_all add: hash_make_inv)

text \<open>
  The loop over \<open>cache_hash_first\<close> and \<open>cache_hash_next\<close> ends after it has visited every entry
  of the table exactly once, \<open>count\<close> entries in all.
\<close>

theorem hash_walk_complete:
  assumes "hash_inv ht"
  shows "map_of (hash_walk ht) = hash_get ht \<and> distinct (map fst (hash_walk ht)) \<and>
         int (length (hash_walk ht)) = h_count ht"
proof -
  let ?es = "concat (map (h_array ht) [0..<h_max ht])"
  have "buckets_from ht 0 = ?es"
    using last_slot_empty [OF assms order_refl] by (simp add: buckets_from_def)
  then have w: "hash_walk ht = map (\<lambda>he. (he_key he, he_val he)) ?es" by (simp only: hash_walk_rest)
  have "map fst (hash_walk ht) = map he_key ?es" unfolding w by (simp only: map_map comp_def fst_conv)
  then have "distinct (map fst (hash_walk ht))" using distinct_bucket_keys [OF assms] by (simp only:)
  moreover have "map_of (hash_walk ht) = hash_get ht"
    unfolding w using map_of_buckets [OF assms, of "h_max ht"] hash_bucket_less [OF assms]
    by (simp only: fun_eq_iff hash_get_abs [OF assms] if_True simp_thms)
  moreover have "int (length (hash_walk ht)) = h_count ht"
    unfolding w length_map length_buckets using assms by (simp add: hash_inv_def)
  ultimately show ?thesis by blast
qed

theorem hash_walk_complete_witness:
  "map_of (hash_walk (hash_make 2 :: nat cache_hash)) = hash_get (hash_make 2) \<and>
   distinct (map fst (hash_walk (hash_make 2 :: nat cache_hash))) \<and>
   int (length (hash_walk (hash_make 2 :: nat cache_hash))) = h_count (hash_make 2 :: nat cache_hash)"
  by (rule hash_walk_complete) (simp add: hash_make_inv)

text \<open>Setting a new key returns the value that was set, not one that was removed.\<close>

lemma hash_set_new_returns_value:
  "fst (hash_set True (hash_make 3) ''k'' (Some (1::nat))) = Some 1"
  by code_simp

end
