(* ===== verification/Cache_Cache.thy ===== *)
theory Cache_Cache
  imports Cache_Pqueue Cache_Hash
begin

text \<open>
  The cache of objects, \<open>modules/cache/cache_cache.c\<close>, over its priority queue and hash table,
  with the callbacks that its client \<open>mod_mem_cache.c\<close> passes to \<open>cache_init\<close>. An object is an
  address; what the callbacks read and write in it is the record \<open>mobj\<close> that \<open>c_obj\<close> holds for
  the address (its \<open>pos\<close> is the field \<open>pq_pos\<close> of the queue). Sizes are \<open>apr_size_t\<close>, 64 bits;
  \<open>long\<close> values (priorities, reference counts, the clock) are taken to stay in range.
\<close>

type_synonym obj = nat

section \<open>Objects and callbacks\<close>

datatype cache_type = CACHE_TYPE_FILE | CACHE_TYPE_HEAP | CACHE_TYPE_MMAP

text \<open>\<open>o_m\<close> is the storage: \<open>None\<close> for NULL, else the bytes written to it so far.\<close>

record mobj =
  o_type :: cache_type
  o_m :: "cstring option"
  o_key :: cstring
  o_len :: u64
  o_priority :: int
  o_total_refs :: int
  o_refcount :: u32
  o_complete :: bool
  o_count :: u64
  o_cleaned :: bool

definition memcache_inc_frequency :: "mobj \<Rightarrow> mobj" where
  "memcache_inc_frequency a = a\<lparr>o_total_refs := o_total_refs a + 1, o_priority := 0\<rparr>"

text \<open>
  The two removal algorithms; the value returned is the priority of the result. In the second
  one \<open>m_len\<close> divides: the invariant of the cache excludes the length 0, for which the C code
  is undefined.
\<close>

definition memcache_lru_algorithm :: "int \<Rightarrow> mobj \<Rightarrow> mobj" where
  "memcache_lru_algorithm queue_clock a =
     (if o_priority a = 0 then a\<lparr>o_priority := queue_clock - o_total_refs a\<rparr> else a)"

definition memcache_gdsf_algorithm :: "int \<Rightarrow> mobj \<Rightarrow> mobj" where
  "memcache_gdsf_algorithm queue_clock a =
     (if o_priority a = 0 then
        a\<lparr>o_priority := queue_clock - (o_total_refs a * 1000) div uint (o_len a)\<rparr>
      else a)"

text \<open>\<open>apr_atomic_dec32\<close> and the clean-up when it reaches 0 (\<open>memcache_cache_free\<close>).\<close>

definition dec_refcount :: "mobj \<Rightarrow> mobj" where
  "dec_refcount a = a\<lparr>o_refcount := o_refcount a - 1\<rparr>"

definition cleanup_cache_object :: "mobj \<Rightarrow> mobj" where
  "cleanup_cache_object a = a\<lparr>o_cleaned := True\<rparr>"

definition memcache_cache_free :: "mobj \<Rightarrow> mobj" where
  "memcache_cache_free a =
     (let a' = dec_refcount a in if o_refcount a' = 0 then cleanup_cache_object a' else a')"

section \<open>The cache\<close>

record cache =
  c_max_entries :: nat
  c_max_size :: u64
  c_current_size :: u64
  c_total_purges :: int
  c_queue_clock :: int
  c_ht :: "obj cache_hash"
  c_pq :: "obj pqueue"
  c_obj :: "obj \<Rightarrow> mobj"

definition cache_pri :: "cache \<Rightarrow> obj \<Rightarrow> int" where
  "cache_pri c e = o_priority (c_obj c e)"

text \<open>\<open>pos\<close>, \<open>mem\<close> and \<open>objs\<close> are what memory holds when the cache is made.\<close>

definition cache_init :: "nat \<Rightarrow> u64 \<Rightarrow> (obj \<Rightarrow> nat) \<Rightarrow> (nat \<Rightarrow> obj) \<Rightarrow> (obj \<Rightarrow> mobj) \<Rightarrow> cache" where
  "cache_init max_entries max_size pos mem objs =
     \<lparr>c_max_entries = max_entries, c_max_size = max_size, c_current_size = 0, c_total_purges = 0,
      c_queue_clock = 0, c_ht = hash_make max_entries, c_pq = pq_init max_entries pos mem, c_obj = objs\<rparr>"

definition cache_find :: "cache \<Rightarrow> cstring \<Rightarrow> obj option" where
  "cache_find c key = hash_get (c_ht c) key"

definition cache_update :: "(int \<Rightarrow> mobj \<Rightarrow> mobj) \<Rightarrow> cache \<Rightarrow> obj \<Rightarrow> cache" where
  "cache_update set_pri c entry =
     (let o1 = set_pri (c_queue_clock c) (c_obj c entry);
          old_priority = o_priority o1;
          o2 = memcache_inc_frequency o1;
          o3 = set_pri (c_queue_clock c) o2;
          new_priority = o_priority o3;
          c1 = c\<lparr>c_obj := (c_obj c)(entry := o3)\<rparr>
      in c1\<lparr>c_pq := pq_change_priority (cache_pri c1) (c_pq c1) old_priority new_priority entry\<rparr>)"

text \<open>The body of the loop of \<open>cache_insert\<close>, for the entry that was popped.\<close>

definition cache_eject :: "cache \<Rightarrow> obj \<Rightarrow> obj pqueue \<Rightarrow> cache" where
  "cache_eject c ejected pq =
     (let priority = cache_pri c ejected
      in c\<lparr>c_pq := pq,
           c_queue_clock := (if c_queue_clock c > priority then priority else c_queue_clock c),
           c_ht := snd (hash_set True (c_ht c) (o_key (c_obj c ejected)) None),
           c_current_size := c_current_size c - o_len (c_obj c ejected),
           c_obj := (c_obj c)(ejected := memcache_cache_free (c_obj c ejected)),
           c_total_purges := c_total_purges c + 1\<rparr>)"

text \<open>
  The loop of \<open>cache_insert\<close>. \<open>None\<close>: the queue is empty and the NULL that \<open>cache_pq_pop\<close>
  returns is dereferenced, or the loop does not end.
\<close>

partial_function (option) insert_loop :: "cache \<Rightarrow> obj \<Rightarrow> cache option" where
  "insert_loop c entry =
     (if pq_count (c_pq c) \<ge> c_max_entries c \<or> c_current_size c + o_len (c_obj c entry) > c_max_size c then
        (case pq_pop (cache_pri c) (c_pq c) of
           (None, pq) \<Rightarrow> None
         | (Some ejected, pq) \<Rightarrow> insert_loop (cache_eject c ejected pq) entry)
      else Some c)"

declare insert_loop.simps [code]

text \<open>\<open>realloc_ok\<close> and \<open>malloc_ok\<close>: the allocations of the queue and of the table succeed.\<close>

definition cache_insert ::
  "(int \<Rightarrow> mobj \<Rightarrow> mobj) \<Rightarrow> bool \<Rightarrow> bool \<Rightarrow> cache \<Rightarrow> obj \<Rightarrow> cache option" where
  "cache_insert set_pri realloc_ok malloc_ok c entry =
     (let c1 = c\<lparr>c_obj := (c_obj c)(entry := set_pri (c_queue_clock c) (c_obj c entry))\<rparr>
      in case insert_loop c1 entry of
           None \<Rightarrow> None
         | Some c2 \<Rightarrow>
             Some (c2\<lparr>c_current_size := c_current_size c2 + o_len (c_obj c2 entry),
                      c_pq := (case pq_insert (cache_pri c2) realloc_ok (c_pq c2) entry of
                                 None \<Rightarrow> c_pq c2 | Some pq \<Rightarrow> pq),
                      c_ht := snd (hash_set malloc_ok (c_ht c2) (o_key (c_obj c2 entry)) (Some entry))\<rparr>))"

definition cache_pop :: "cache \<Rightarrow> obj option \<times> cache" where
  "cache_pop c =
     (case pq_pop (cache_pri c) (c_pq c) of
        (None, pq) \<Rightarrow> (None, c)
      | (Some entry, pq) \<Rightarrow>
          (Some entry,
           c\<lparr>c_pq := pq,
             c_current_size := c_current_size c - o_len (c_obj c entry),
             c_ht := snd (hash_set True (c_ht c) (o_key (c_obj c entry)) None)\<rparr>))"

definition cache_remove :: "cache \<Rightarrow> obj \<Rightarrow> cache" where
  "cache_remove c entry =
     (let entry_size = o_len (c_obj c entry)
      in c\<lparr>c_pq := pq_remove (cache_pri c) (c_pq c) entry,
           c_ht := snd (hash_set True (c_ht c) (o_key (c_obj c entry)) None),
           c_current_size := c_current_size c - entry_size\<rparr>)"

section \<open>The invariant\<close>

definition cache_elems :: "cache \<Rightarrow> obj set" where
  "cache_elems c = pq_elems (c_pq c)"

text \<open>Queue and table hold the same objects, the table under their keys.\<close>

definition index_ok :: "cache \<Rightarrow> bool" where
  "index_ok c \<longleftrightarrow> (\<forall>k e. hash_abs (c_ht c) k = Some e \<longleftrightarrow> e \<in> cache_elems c \<and> o_key (c_obj c e) = k)"

text \<open>The size is the sum of the lengths and within the limits.\<close>

definition size_ok :: "cache \<Rightarrow> bool" where
  "size_ok c \<longleftrightarrow> unat (c_current_size c) = (\<Sum>e\<in>cache_elems c. unat (o_len (c_obj c e))) \<and>
     c_current_size c \<le> c_max_size c \<and> pq_size (c_pq c) \<le> c_max_entries c + 1 \<and>
     c_max_entries c + 1 \<le> pq_avail (c_pq c)"

text \<open>Priorities are negative scores; \<open>obj_ok\<close> holds for the objects of the cache.\<close>

definition obj_ok :: "mobj \<Rightarrow> bool" where
  "obj_ok a \<longleftrightarrow> o_priority a \<le> 0 \<and> 0 \<le> o_total_refs a \<and> o_len a \<noteq> 0"

definition cache_inv :: "cache \<Rightarrow> bool" where
  "cache_inv c \<longleftrightarrow> pq_inv (cache_pri c) (c_pq c) \<and> hash_inv (c_ht c) \<and> index_ok c \<and> size_ok c \<and>
     c_queue_clock c \<le> 0 \<and> 0 < c_max_entries c \<and> (\<forall>e\<in>cache_elems c. obj_ok (c_obj c e))"

lemma cache_init_inv: "0 < n \<Longrightarrow> cache_inv (cache_init n m pos mem objs)"
  using pq_init_inv [of _ n pos mem]
  by (simp add: cache_inv_def cache_init_def hash_make_inv index_ok_def size_ok_def hash_make_abs cache_elems_def)
    (simp add: pq_init_def)

lemma finite_cache_elems: "finite (cache_elems c)"
  by (simp add: cache_elems_def pq_elems_finite)

lemma cache_find_abs: "cache_inv c \<Longrightarrow> cache_find c k = Some e \<longleftrightarrow> e \<in> cache_elems c \<and> o_key (c_obj c e) = k"
  by (simp add: cache_inv_def cache_find_def index_ok_def hash_get_abs)

lemma cache_find_None: "cache_inv c \<Longrightarrow> cache_find c k = None \<longleftrightarrow> (\<forall>e\<in>cache_elems c. o_key (c_obj c e) \<noteq> k)"
  using cache_find_abs [of c k] by (cases "cache_find c k") auto

lemma pq_inv_cong: "(\<And>e. e \<in> pq_elems q \<Longrightarrow> pri e = pri' e) \<Longrightarrow> pq_inv pri q \<longleftrightarrow> pq_inv pri' q"
proof -
  assume eq: "\<And>e. e \<in> pq_elems q \<Longrightarrow> pri e = pri' e"
  have "is_heap pri q = is_heap pri' q"
    unfolding is_heap_def heap_at_def
  proof (intro iff_allI imp_cong refl)
    fix j assume j: "2 \<le> j \<and> j < pq_size q"
    then have "pq_d q j \<in> pq_elems q" "pq_d q (j div 2) \<in> pq_elems q" by (auto simp: pq_elems_def intro!: imageI)
    then show "(pri (pq_d q j) \<le> pri (pq_d q (j div 2))) = (pri' (pq_d q j) \<le> pri' (pq_d q (j div 2)))"
      by (simp add: eq)
  qed
  then show ?thesis by (simp add: pq_inv_def heap_ok_def)
qed

text \<open>Removing an object from table and queue, whichever way it left the queue.\<close>

lemma cache_without:
  assumes inv: "cache_inv c" and e: "e \<in> cache_elems c"
    and q: "pq_inv (cache_pri c) q" "pq_elems q = cache_elems c - {e}" "pq_size q \<le> pq_size (c_pq c)"
      "pq_avail q = pq_avail (c_pq c)"
    and objs: "\<And>x. x \<noteq> e \<Longrightarrow> objs x = c_obj c x" and clock: "clock \<le> c_queue_clock c"
    and c': "c' = c\<lparr>c_pq := q, c_queue_clock := clock,
        c_ht := snd (hash_set True (c_ht c) (o_key (c_obj c e)) None),
        c_current_size := c_current_size c - o_len (c_obj c e), c_obj := objs, c_total_purges := purges\<rparr>"
  shows "cache_inv c' \<and> cache_elems c' = cache_elems c - {e}"
proof -
  obtain r ht where set: "hash_set True (c_ht c) (o_key (c_obj c e)) None = (r, ht)" by (rule prod.exhaust)
  have i: "hash_inv (c_ht c)" "index_ok c" "size_ok c" using inv by (auto simp: cache_inv_def)
  have ht: "hash_inv ht" "hash_abs ht = (hash_abs (c_ht c))(o_key (c_obj c e) := None)"
    using hash_set_correct [OF i(1) set] by auto
  have elems: "cache_elems c' = cache_elems c - {e}" by (simp add: c' cache_elems_def q)
  have pri: "pq_inv (cache_pri c') q"
    using q(1,2) objs by (subst pq_inv_cong [where pri' = "cache_pri c"]) (auto simp: c' cache_pri_def)
  have "index_ok c'"
    unfolding index_ok_def
  proof (intro allI)
    fix k x
    have k: "hash_abs (c_ht c') k = (if k = o_key (c_obj c e) then None else hash_abs (c_ht c) k)"
      using set ht by (simp add: c')
    have ie: "hash_abs (c_ht c) (o_key (c_obj c e)) = Some e" using i(2) e by (auto simp: index_ok_def)
    have ix: "hash_abs (c_ht c) k = Some x \<longleftrightarrow> x \<in> cache_elems c \<and> o_key (c_obj c x) = k"
      using i(2) by (auto simp: index_ok_def)
    have ox: "x \<noteq> e \<Longrightarrow> c_obj c' x = c_obj c x" using objs by (simp add: c')
    show "(hash_abs (c_ht c') k = Some x) = (x \<in> cache_elems c' \<and> o_key (c_obj c' x) = k)"
      unfolding k elems using ie ix ox by (cases "x = e") auto
  qed
  moreover have "size_ok c'"
  proof -
    have le: "o_len (c_obj c e) \<le> c_current_size c"
      using i(3) e finite_cache_elems [of c] by (auto simp: size_ok_def word_le_nat_alt sum.remove)
    have s1: "(\<Sum>x\<in>cache_elems c. unat (o_len (c_obj c x))) =
        unat (o_len (c_obj c e)) + (\<Sum>x\<in>cache_elems c - {e}. unat (o_len (c_obj c x)))"
      using e finite_cache_elems by (rule sum.remove [rotated])
    have s2: "(\<Sum>x\<in>cache_elems c - {e}. unat (o_len (objs x))) = (\<Sum>x\<in>cache_elems c - {e}. unat (o_len (c_obj c x)))"
      using objs by (intro sum.cong) auto
    have sub: "unat (c_current_size c - o_len (c_obj c e)) = unat (c_current_size c) - unat (o_len (c_obj c e))"
      using le by (rule unat_sub)
    then have "c_current_size c - o_len (c_obj c e) \<le> c_max_size c"
      using i(3) by (auto simp: size_ok_def word_le_nat_alt)
    with i(3) s1 s2 sub q show ?thesis unfolding size_ok_def elems by (simp add: c')
  qed
  moreover have "\<forall>x\<in>cache_elems c'. obj_ok (c_obj c' x)"
    using inv objs unfolding elems by (auto simp: cache_inv_def c')
  ultimately show ?thesis
    using inv set ht pri clock elems by (auto simp: cache_inv_def c')
qed

lemma cache_remove_correct:
  assumes "cache_inv c" "e \<in> cache_elems c"
  shows "cache_inv (cache_remove c e) \<and> cache_elems (cache_remove c e) = cache_elems c - {e}"
proof (rule cache_without [OF assms])
  show "pq_inv (cache_pri c) (pq_remove (cache_pri c) (c_pq c) e)"
    "pq_elems (pq_remove (cache_pri c) (c_pq c) e) = cache_elems c - {e}"
    using pq_remove_correct [of "cache_pri c" "c_pq c" e] assms by (auto simp: cache_inv_def cache_elems_def)
  show "cache_remove c e = c\<lparr>c_pq := pq_remove (cache_pri c) (c_pq c) e, c_queue_clock := c_queue_clock c,
      c_ht := snd (hash_set True (c_ht c) (o_key (c_obj c e)) None),
      c_current_size := c_current_size c - o_len (c_obj c e), c_obj := c_obj c, c_total_purges := c_total_purges c\<rparr>"
    by (simp add: cache_remove_def Let_def)
qed simp_all

lemma cache_pop_correct:
  assumes inv: "cache_inv c"
  shows "case cache_pop c of
           (None, c') \<Rightarrow> cache_elems c = {} \<and> c' = c
         | (Some e, c') \<Rightarrow> e \<in> cache_elems c \<and> (\<forall>x\<in>cache_elems c. cache_pri c x \<le> cache_pri c e) \<and>
             cache_inv c' \<and> cache_elems c' = cache_elems c - {e} \<and> c_obj c' = c_obj c"
proof -
  obtain r q where pop: "pq_pop (cache_pri c) (c_pq c) = (r, q)" by (rule prod.exhaust)
  have pinv: "pq_inv (cache_pri c) (c_pq c)" using inv by (simp add: cache_inv_def)
  note p = pq_pop_correct [OF pinv pop] pq_pop_fields [OF pop]
  show ?thesis
  proof (cases r)
    case None
    with p pop show ?thesis by (simp add: cache_pop_def cache_elems_def)
  next
    case (Some e)
    let ?c' = "c\<lparr>c_pq := q, c_current_size := c_current_size c - o_len (c_obj c e),
      c_ht := snd (hash_set True (c_ht c) (o_key (c_obj c e)) None)\<rparr>"
    have e: "e \<in> cache_elems c" and mx: "\<forall>x\<in>cache_elems c. cache_pri c x \<le> cache_pri c e"
      and q: "pq_inv (cache_pri c) q" "pq_elems q = cache_elems c - {e}"
      using p Some by (auto simp: cache_elems_def)
    have "cache_inv ?c' \<and> cache_elems ?c' = cache_elems c - {e}"
      by (rule cache_without [OF inv e q, of "c_obj c" "c_queue_clock c" _ "c_total_purges c"]) (use p in auto)
    with e mx pop Some show ?thesis by (simp add: cache_pop_def)
  qed
qed

lemma cache_eject_correct:
  assumes inv: "cache_inv c" and pop: "pq_pop (cache_pri c) (c_pq c) = (Some e, q)"
  shows "e \<in> cache_elems c \<and> (\<forall>x\<in>cache_elems c. cache_pri c x \<le> cache_pri c e) \<and>
         cache_inv (cache_eject c e q) \<and> cache_elems (cache_eject c e q) = cache_elems c - {e}"
proof -
  have pinv: "pq_inv (cache_pri c) (c_pq c)" using inv by (simp add: cache_inv_def)
  note p = pq_pop_correct [OF pinv pop] pq_pop_fields [OF pop]
  have e: "e \<in> cache_elems c" and mx: "\<forall>x\<in>cache_elems c. cache_pri c x \<le> cache_pri c e"
    and q: "pq_inv (cache_pri c) q" "pq_elems q = cache_elems c - {e}"
    using p by (auto simp: cache_elems_def)
  have "cache_inv (cache_eject c e q) \<and> cache_elems (cache_eject c e q) = cache_elems c - {e}"
    by (rule cache_without [OF inv e q, of "(c_obj c)(e := memcache_cache_free (c_obj c e))"
          "if c_queue_clock c > cache_pri c e then cache_pri c e else c_queue_clock c" _ "c_total_purges c + 1"])
      (use p in \<open>auto simp: cache_eject_def Let_def\<close>)
  with e mx show ?thesis by blast
qed

text \<open>What ejection leaves of the objects: everything but the reference count and the storage.\<close>

definition same_object :: "mobj \<Rightarrow> mobj \<Rightarrow> bool" where
  "same_object a b \<longleftrightarrow> o_key a = o_key b \<and> o_len a = o_len b \<and> o_priority a = o_priority b \<and>
     o_total_refs a = o_total_refs b \<and> o_complete a = o_complete b \<and> o_count a = o_count b"

lemma same_object_refl [simp]: "same_object a a"
  by (simp add: same_object_def)

lemma same_object_trans: "same_object a b \<Longrightarrow> same_object b c \<Longrightarrow> same_object a c"
  by (simp add: same_object_def)

lemma same_object_free [simp]: "same_object a (memcache_cache_free a)"
  by (simp add: same_object_def memcache_cache_free_def dec_refcount_def cleanup_cache_object_def Let_def)

lemma cache_eject_obj:
  "same_object (c_obj c x) (c_obj (cache_eject c e q) x)"
  "x \<noteq> e \<Longrightarrow> c_obj (cache_eject c e q) x = c_obj c x"
  "c_max_entries (cache_eject c e q) = c_max_entries c" "c_max_size (cache_eject c e q) = c_max_size c"
  by (auto simp: cache_eject_def Let_def)

text \<open>
  The loop ends with room for the entry: it ejects objects of the highest scores, the worst
  ones first, and only as long as a limit is exceeded.
\<close>

definition made_room :: "cache \<Rightarrow> obj \<Rightarrow> cache \<Rightarrow> bool" where
  "made_room c entry c' \<longleftrightarrow> cache_inv c' \<and> cache_elems c' \<subseteq> cache_elems c \<and>
     pq_count (c_pq c') < c_max_entries c' \<and> c_current_size c' + o_len (c_obj c' entry) \<le> c_max_size c' \<and>
     c_max_size c' = c_max_size c \<and> c_max_entries c' = c_max_entries c"

definition ejected_worst :: "cache \<Rightarrow> cache \<Rightarrow> bool" where
  "ejected_worst c c' \<longleftrightarrow>
     (\<forall>x. c_obj c' x = (if x \<in> cache_elems c - cache_elems c' then memcache_cache_free (c_obj c x) else c_obj c x)) \<and>
     (\<forall>x\<in>cache_elems c - cache_elems c'. \<forall>y\<in>cache_elems c'. cache_pri c y \<le> cache_pri c x)"

lemma ejected_worst_step:
  assumes ein: "e \<in> cache_elems c" and mx: "\<forall>x\<in>cache_elems c. cache_pri c x \<le> cache_pri c e"
    and elems: "cache_elems (cache_eject c e q) = cache_elems c - {e}"
    and sub: "cache_elems c' \<subseteq> cache_elems (cache_eject c e q)"
    and w: "ejected_worst (cache_eject c e q) c'"
  shows "ejected_worst c c'"
proof -
  let ?d = "cache_eject c e q"
  have objs: "c_obj c' x = (if x \<in> cache_elems c - cache_elems c' then memcache_cache_free (c_obj c x) else c_obj c x)" for x
  proof (cases "x = e")
    case True
    then have "x \<in> cache_elems c - cache_elems c'" "x \<notin> cache_elems ?d - cache_elems c'" using ein sub elems by auto
    then show ?thesis using w True unfolding ejected_worst_def by (simp add: cache_eject_def Let_def)
  next
    case False
    then have "x \<in> cache_elems c - cache_elems c' \<longleftrightarrow> x \<in> cache_elems ?d - cache_elems c'" using elems by blast
    then show ?thesis using w False cache_eject_obj(2) [of x e c q] unfolding ejected_worst_def by simp
  qed
  have worst: "cache_pri c y \<le> cache_pri c x" if x: "x \<in> cache_elems c - cache_elems c'" and y: "y \<in> cache_elems c'" for x y
  proof (cases "x = e")
    case True
    have "y \<in> cache_elems c" using y sub elems by auto
    with mx True show ?thesis by blast
  next
    case False
    have "x \<in> cache_elems ?d - cache_elems c'" using False x elems by blast
    then have "cache_pri ?d y \<le> cache_pri ?d x" using w y unfolding ejected_worst_def by blast
    moreover have "y \<noteq> e" using y sub elems by auto
    ultimately show ?thesis using False by (simp add: cache_pri_def cache_eject_obj)
  qed
  show ?thesis unfolding ejected_worst_def using objs worst by blast
qed

lemma insert_loop_nonempty:
  assumes inv: "cache_inv c" and len: "o_len (c_obj c entry) \<le> c_max_size c"
    and full: "pq_count (c_pq c) \<ge> c_max_entries c \<or> c_current_size c + o_len (c_obj c entry) > c_max_size c"
  shows "cache_elems c \<noteq> {}"
proof
  assume e: "cache_elems c = {}"
  have pinv: "pq_inv (cache_pri c) (c_pq c)" using inv by (simp add: cache_inv_def)
  have "c_current_size c = 0" using inv e by (simp add: cache_inv_def size_ok_def unat_eq_0)
  moreover have "pq_count (c_pq c) = 0" using pq_count_card [OF pinv] e by (simp add: cache_elems_def)
  moreover have "0 < c_max_entries c" using inv by (simp add: cache_inv_def)
  ultimately show False using full len by auto
qed

lemma insert_loop_correct:
  assumes "cache_inv c" "entry \<notin> cache_elems c" "o_len (c_obj c entry) \<le> c_max_size c"
  shows "\<exists>c'. insert_loop c entry = Some c' \<and> made_room c entry c' \<and> ejected_worst c c'"
  using assms
proof (induction "card (cache_elems c)" arbitrary: c rule: less_induct)
  case less
  let ?full = "pq_count (c_pq c) \<ge> c_max_entries c \<or> c_current_size c + o_len (c_obj c entry) > c_max_size c"
  note inv = less.prems(1)
  show ?case
  proof (cases ?full)
    case False
    then have "insert_loop c entry = Some c" by (subst insert_loop.simps) (simp only: if_False)
    with False inv show ?thesis by (auto simp: made_room_def ejected_worst_def not_le not_less)
  next
    case True
    obtain r q where pop: "pq_pop (cache_pri c) (c_pq c) = (r, q)" by (rule prod.exhaust)
    have pinv: "pq_inv (cache_pri c) (c_pq c)" using inv by (simp add: cache_inv_def)
    obtain e where r: "r = Some e"
      using pq_pop_correct [OF pinv pop] insert_loop_nonempty [OF inv less.prems(3) True]
      by (cases r) (auto simp: cache_elems_def)
    let ?d = "cache_eject c e q"
    note ej = cache_eject_correct [OF inv pop [unfolded r]]
    have elems: "cache_elems ?d = cache_elems c - {e}" and ein: "e \<in> cache_elems c"
      and dinv: "cache_inv ?d" and mx: "\<forall>x\<in>cache_elems c. cache_pri c x \<le> cache_pri c e" using ej by blast+
    have ne: "entry \<noteq> e" using ein less.prems(2) by auto
    have card: "card (cache_elems ?d) < card (cache_elems c)"
      unfolding elems using ein finite_cache_elems by (metis card_Diff1_less)
    have new: "entry \<notin> cache_elems ?d" using less.prems(2) elems by blast
    have len: "o_len (c_obj ?d entry) \<le> c_max_size ?d" using less.prems(3) ne by (simp add: cache_eject_obj)
    obtain c' where c': "insert_loop ?d entry = Some c'" "made_room ?d entry c'" "ejected_worst ?d c'"
      using less.hyps [OF card dinv new len] by blast
    have "insert_loop c entry = Some c'"
      using c'(1) by (subst insert_loop.simps) (simp only: True if_True pop r prod.case option.case)
    moreover have sub: "cache_elems c' \<subseteq> cache_elems ?d" using c'(2) by (simp add: made_room_def)
    moreover have "made_room c entry c'"
      using c'(2) elems unfolding made_room_def cache_eject_obj by blast
    ultimately show ?thesis using ejected_worst_step [OF ein mx elems sub c'(3)] by blast
  qed
qed

section \<open>The contract of a removal algorithm\<close>

text \<open>
  A removal algorithm computes a score only for an object without one (priority 0), changes
  nothing else, never scores above the clock, and never raises the score of an object that
  was referenced again.
\<close>

locale eviction_policy =
  fixes set_pri :: "int \<Rightarrow> mobj \<Rightarrow> mobj"
  assumes keeps: "o_priority a \<noteq> 0 \<Longrightarrow> set_pri clock a = a"
    and only_priority: "set_pri clock a = a\<lparr>o_priority := o_priority (set_pri clock a)\<rparr>"
    and below_clock: "o_priority a = 0 \<Longrightarrow> 0 \<le> o_total_refs a \<Longrightarrow> o_priority (set_pri clock a) \<le> clock"
    and falls: "o_priority a = 0 \<Longrightarrow> 0 \<le> o_total_refs a \<Longrightarrow>
          o_priority (set_pri clock (a\<lparr>o_total_refs := o_total_refs a + 1\<rparr>)) \<le> o_priority (set_pri clock a)"
begin

lemma fields [simp]:
  "o_key (set_pri clock a) = o_key a" "o_len (set_pri clock a) = o_len a"
  "o_total_refs (set_pri clock a) = o_total_refs a"
  by (subst only_priority, simp)+

lemma obj_ok_set: "obj_ok a \<Longrightarrow> clock \<le> 0 \<Longrightarrow> obj_ok (set_pri clock a)"
  using below_clock [of a clock] keeps [of a clock] by (cases "o_priority a = 0") (auto simp: obj_ok_def)

text \<open>The change of priority in \<open>cache_update\<close>, old score against new one.\<close>

definition updated :: "int \<Rightarrow> mobj \<Rightarrow> mobj" where
  "updated clock a = set_pri clock (memcache_inc_frequency (set_pri clock a))"

lemma updated_fields:
  "o_key (updated clock a) = o_key a" "o_len (updated clock a) = o_len a"
  "o_total_refs (updated clock a) = o_total_refs a + 1"
  by (simp_all add: updated_def memcache_inc_frequency_def)

lemma updated_ok: "obj_ok a \<Longrightarrow> clock \<le> 0 \<Longrightarrow> obj_ok (updated clock a)"
  unfolding updated_def by (intro obj_ok_set) (auto simp: obj_ok_def memcache_inc_frequency_def)

lemma updated_direction:
  assumes ok: "obj_ok a" and clock: "clock \<le> 0"
  shows "o_priority (set_pri clock a) < o_priority (updated clock a) \<Longrightarrow> o_priority a \<le> o_priority (updated clock a)"
    and "\<not> o_priority (set_pri clock a) < o_priority (updated clock a) \<Longrightarrow> o_priority (updated clock a) \<le> o_priority a"
proof -
  have "o_priority (updated clock a) \<le> o_priority (set_pri clock a) \<and> o_priority (set_pri clock a) \<le> o_priority a"
    if z: "o_priority a = 0"
  proof -
    have s: "set_pri clock a = a\<lparr>o_priority := o_priority (set_pri clock a)\<rparr>" by (rule only_priority)
    have "memcache_inc_frequency (set_pri clock a) = a\<lparr>o_total_refs := o_total_refs a + 1\<rparr>"
      using z by (subst s) (simp add: memcache_inc_frequency_def)
    then show ?thesis
      using falls [OF z, of clock] below_clock [OF z, of clock] ok clock z
      by (simp add: updated_def obj_ok_def)
  qed
  then show "o_priority (set_pri clock a) < o_priority (updated clock a) \<Longrightarrow> o_priority a \<le> o_priority (updated clock a)"
    and "\<not> o_priority (set_pri clock a) < o_priority (updated clock a) \<Longrightarrow> o_priority (updated clock a) \<le> o_priority a"
    using keeps [of a clock] by (cases "o_priority a = 0"; force)+
qed

lemma update_inv:
  assumes inv: "cache_inv c" and e: "e \<in> cache_elems c"
  shows "cache_inv (cache_update set_pri c e) \<and> cache_elems (cache_update set_pri c e) = cache_elems c"
proof -
  let ?a = "c_obj c e" and ?clock = "c_queue_clock c"
  define c1 where "c1 = c\<lparr>c_obj := (c_obj c)(e := updated ?clock ?a)\<rparr>"
  define q where "q = pq_change_priority (cache_pri c1) (c_pq c) (o_priority (set_pri ?clock ?a))
    (o_priority (updated ?clock ?a)) e"
  have eq: "cache_update set_pri c e = c1\<lparr>c_pq := q\<rparr>"
    by (simp add: cache_update_def Let_def c1_def q_def updated_def)
  have clock: "?clock \<le> 0" and ok: "obj_ok ?a" and pinv: "pq_inv (cache_pri c) (c_pq c)"
    using inv e by (auto simp: cache_inv_def)
  have "pq_inv (cache_pri c1) q \<and> pq_elems q = pq_elems (c_pq c)"
    unfolding q_def
  proof (rule pq_change_priority_correct [OF pinv])
    show "e \<in> pq_elems (c_pq c)" using e by (simp add: cache_elems_def)
  qed (use updated_direction [OF ok clock] in \<open>auto simp: c1_def cache_pri_def\<close>)
  then have q: "pq_inv (cache_pri c1) q" "pq_elems q = pq_elems (c_pq c)" by auto
  have pri: "cache_pri (c1\<lparr>c_pq := q\<rparr>) = cache_pri c1" by (rule ext) (simp add: cache_pri_def)
  have elems: "cache_elems (c1\<lparr>c_pq := q\<rparr>) = cache_elems c" by (simp add: cache_elems_def q)
  have keys: "o_key (c_obj c1 x) = o_key (c_obj c x)" "o_len (c_obj c1 x) = o_len (c_obj c x)" for x
    by (auto simp: c1_def updated_fields)
  have "index_ok (c1\<lparr>c_pq := q\<rparr>)"
    using inv keys unfolding index_ok_def elems cache_inv_def by (simp add: c1_def updated_fields)
  moreover have "size_ok (c1\<lparr>c_pq := q\<rparr>)"
    using inv keys unfolding size_ok_def elems cache_inv_def by (simp add: q_def) (simp add: c1_def)
  moreover have "\<forall>x\<in>cache_elems c. obj_ok (c_obj c1 x)"
    using inv updated_ok [OF ok clock] by (auto simp: cache_inv_def c1_def)
  ultimately show ?thesis
    using inv q pri elems unfolding eq by (simp add: cache_inv_def c1_def)
qed

lemma insert_inv:
  assumes inv: "cache_inv c" and new: "e \<notin> cache_elems c" and key: "cache_find c (o_key (c_obj c e)) = None"
    and ok: "obj_ok (c_obj c e)" and len: "o_len (c_obj c e) \<le> c_max_size c"
    and no_wrap: "unat (o_len (c_obj c e)) + unat (c_max_size c) < 2 ^ 64"
  shows "\<exists>c'. cache_insert set_pri realloc_ok True c e = Some c' \<and> cache_inv c' \<and>
     e \<in> cache_elems c' \<and> cache_elems c' - {e} \<subseteq> cache_elems c \<and>
     (\<forall>x\<in>cache_elems c - cache_elems c'. \<forall>y\<in>cache_elems c' - {e}. cache_pri c y \<le> cache_pri c x) \<and>
     c_max_size c' = c_max_size c \<and> c_max_entries c' = c_max_entries c \<and>
     (\<forall>x. c_obj c' x = (if x = e then set_pri (c_queue_clock c) (c_obj c e)
        else if x \<in> cache_elems c - cache_elems c' then memcache_cache_free (c_obj c x) else c_obj c x))"
proof -
  let ?a = "c_obj c e"
  define c1 where "c1 = c\<lparr>c_obj := (c_obj c)(e := set_pri (c_queue_clock c) ?a)\<rparr>"
  have o1: "x \<noteq> e \<Longrightarrow> c_obj c1 x = c_obj c x" "o_key (c_obj c1 x) = o_key (c_obj c x)"
    "o_len (c_obj c1 x) = o_len (c_obj c x)" for x by (auto simp: c1_def)
  have el1: "cache_elems c1 = cache_elems c" by (simp add: c1_def cache_elems_def)
  have pri1: "x \<in> cache_elems c \<Longrightarrow> cache_pri c1 x = cache_pri c x" for x
    using new o1(1) [of x] by (cases "x = e") (auto simp: cache_pri_def)
  have "pq_inv (cache_pri c1) (c_pq c)"
    using inv pri1 by (subst pq_inv_cong [where pri' = "cache_pri c"]) (auto simp: cache_inv_def cache_elems_def)
  moreover have "index_ok c1" "size_ok c1"
    using inv o1 el1 unfolding cache_inv_def index_ok_def size_ok_def by (auto simp: c1_def)
  moreover have "\<forall>x\<in>cache_elems c1. obj_ok (c_obj c1 x)"
    using inv new o1(1) unfolding el1 cache_inv_def by metis
  ultimately have inv1: "cache_inv c1" using inv by (simp add: cache_inv_def c1_def)
  obtain c2 where loop: "insert_loop c1 e = Some c2" and room: "made_room c1 e c2" and worst: "ejected_worst c1 c2"
    using insert_loop_correct [OF inv1, of e] new len el1 o1 by (auto simp: c1_def)
  have inv2: "cache_inv c2" and sub: "cache_elems c2 \<subseteq> cache_elems c"
    and cnt: "pq_count (c_pq c2) < c_max_entries c2" and sz: "c_current_size c2 + o_len (c_obj c2 e) \<le> c_max_size c2"
    and mx: "c_max_size c2 = c_max_size c" "c_max_entries c2 = c_max_entries c"
    using room el1 by (auto simp: made_room_def c1_def)
  have ne: "e \<notin> cache_elems c2" using sub new by blast
  have objs2: "c_obj c2 x = (if x \<in> cache_elems c - cache_elems c2 then memcache_cache_free (c_obj c1 x) else c_obj c1 x)" for x
    using worst el1 by (simp add: ejected_worst_def)
  then have "c_obj c2 e = c_obj c1 e" using new by simp
  then have oe: "c_obj c2 e = set_pri (c_queue_clock c) ?a" by (simp add: c1_def)
  have same: "same_object (c_obj c1 x) (c_obj c2 x)" for x using objs2 [of x] by simp
  have key2: "hash_abs (c_ht c2) (o_key ?a) = None"
  proof -
    have "o_key (c_obj c2 x) \<noteq> o_key ?a" if "x \<in> cache_elems c2" for x
      using that sub key cache_find_None [OF inv] same [of x] o1(2) [of x] by (auto simp: same_object_def)
    then show ?thesis using inv2 by (cases "hash_abs (c_ht c2) (o_key ?a)") (auto simp: cache_inv_def index_ok_def)
  qed
  have pinv2: "pq_inv (cache_pri c2) (c_pq c2)" and hinv2: "hash_inv (c_ht c2)" and so2: "size_ok c2"
    using inv2 by (auto simp: cache_inv_def)
  have "pq_size (c_pq c2) < pq_avail (c_pq c2)" using cnt so2 pinv2
    by (auto simp: pq_count_def size_ok_def pq_inv_def heap_ok_def pos_ok_def)
  then obtain q where q: "pq_insert (cache_pri c2) realloc_ok (c_pq c2) e = Some q"
    "pq_size q = pq_size (c_pq c2) + 1" "pq_avail q = pq_avail (c_pq c2)"
    using pq_insert_room [of "c_pq c2" "cache_pri c2" realloc_ok e] by auto
  have qi: "pq_inv (cache_pri c2) q \<and> pq_elems q = insert e (pq_elems (c_pq c2))"
    using pq_insert_correct [OF pinv2 _ q(1)] ne by (simp add: cache_elems_def)
  obtain r ht where set: "hash_set True (c_ht c2) (o_key ?a) (Some e) = (r, ht)" by (rule prod.exhaust)
  have ht: "hash_inv ht" "hash_abs ht = (hash_abs (c_ht c2))(o_key ?a \<mapsto> e)"
    using hash_set_correct [OF hinv2 set] by auto
  define c3 where "c3 = c2\<lparr>c_current_size := c_current_size c2 + o_len ?a, c_pq := q, c_ht := ht\<rparr>"
  have ins: "cache_insert set_pri realloc_ok True c e = Some c3"
    using loop q set oe by (simp add: cache_insert_def Let_def c1_def [symmetric] c3_def)
  have el3: "cache_elems c3 = insert e (cache_elems c2)" by (simp add: c3_def cache_elems_def qi)
  have pri3: "cache_pri c3 = cache_pri c2" by (rule ext) (simp add: cache_pri_def c3_def)
  have "index_ok c3"
    unfolding index_ok_def
  proof (intro allI)
    fix k x
    have "hash_abs (c_ht c2) k = Some x \<longleftrightarrow> x \<in> cache_elems c2 \<and> o_key (c_obj c2 x) = k"
      using inv2 by (simp add: cache_inv_def index_ok_def)
    moreover have "o_key (c_obj c2 e) = o_key ?a" by (simp add: oe)
    ultimately show "(hash_abs (c_ht c3) k = Some x) = (x \<in> cache_elems c3 \<and> o_key (c_obj c3 x) = k)"
      using key2 ne unfolding el3 by (auto simp: c3_def ht)
  qed
  moreover have "size_ok c3"
  proof -
    have "unat (c_current_size c2) + unat (o_len ?a) < 2 ^ LENGTH(64)"
      using so2 no_wrap mx by (auto simp: size_ok_def word_le_nat_alt)
    then have "unat (c_current_size c2 + o_len ?a) = unat (c_current_size c2) + unat (o_len ?a)"
      by (simp add: unat_add_lem [THEN iffD1])
    moreover have "(\<Sum>x\<in>insert e (cache_elems c2). unat (o_len (c_obj c2 x))) =
        unat (o_len ?a) + (\<Sum>x\<in>cache_elems c2. unat (o_len (c_obj c2 x)))"
      using ne finite_cache_elems by (simp add: oe)
    ultimately show ?thesis
      using so2 sz cnt q oe pinv2 unfolding size_ok_def el3
      by (simp add: c3_def pq_count_def pq_inv_def heap_ok_def pos_ok_def)
  qed
  moreover have "\<forall>x\<in>cache_elems c3. obj_ok (c_obj c3 x)"
    using inv2 obj_ok_set [OF ok] inv oe unfolding el3 by (auto simp: cache_inv_def c3_def)
  ultimately have inv3: "cache_inv c3"
    using inv2 qi ht pri3 by (simp add: cache_inv_def c3_def)
  have "\<forall>x\<in>cache_elems c - cache_elems c3. \<forall>y\<in>cache_elems c3 - {e}. cache_pri c y \<le> cache_pri c x"
  proof (intro ballI)
    fix x y assume x: "x \<in> cache_elems c - cache_elems c3" and y: "y \<in> cache_elems c3 - {e}"
    then have "x \<in> cache_elems c1 - cache_elems c2" "y \<in> cache_elems c2" using el1 el3 by auto
    then have "cache_pri c1 y \<le> cache_pri c1 x" using worst unfolding ejected_worst_def by blast
    moreover have "x \<in> cache_elems c" "y \<in> cache_elems c" using x y el3 sub by auto
    ultimately show "cache_pri c y \<le> cache_pri c x" by (simp add: pri1)
  qed
  moreover have "\<forall>x. c_obj c3 x = (if x = e then set_pri (c_queue_clock c) (c_obj c e)
        else if x \<in> cache_elems c - cache_elems c3 then memcache_cache_free (c_obj c x) else c_obj c x)"
    using objs2 o1(1) oe el3 by (auto simp: c3_def)
  moreover have "e \<in> cache_elems c3" "cache_elems c3 - {e} \<subseteq> cache_elems c" using el3 sub by auto
  moreover have "c_max_size c3 = c_max_size c" "c_max_entries c3 = c_max_entries c" using mx by (simp_all add: c3_def)
  ultimately show ?thesis using ins inv3 by blast
qed

end

interpretation lru: eviction_policy memcache_lru_algorithm
  by unfold_locales (auto simp: memcache_lru_algorithm_def)

lemma div_nonneg: "0 \<le> (n::int) \<Longrightarrow> 0 \<le> m \<Longrightarrow> 0 \<le> n div m"
  by (cases "m = 0") (auto simp: pos_imp_zdiv_nonneg_iff)

lemma div_step: "0 \<le> (n::int) \<Longrightarrow> 0 \<le> m \<Longrightarrow> (n * 1000) div m \<le> ((n + 1) * 1000) div m"
  by (cases "m = 0") (auto intro!: zdiv_mono1)

interpretation gdsf: eviction_policy memcache_gdsf_algorithm
proof
  fix a :: mobj and clock
  assume "o_priority a = 0" "0 \<le> o_total_refs a"
  then show "o_priority (memcache_gdsf_algorithm clock a) \<le> clock"
    using div_nonneg [of "o_total_refs a * 1000" "uint (o_len a)"] by (simp add: memcache_gdsf_algorithm_def)
  show "o_priority (memcache_gdsf_algorithm clock (a\<lparr>o_total_refs := o_total_refs a + 1\<rparr>))
      \<le> o_priority (memcache_gdsf_algorithm clock a)"
    using div_step [of "o_total_refs a" "uint (o_len a)"] \<open>o_priority a = 0\<close> \<open>0 \<le> o_total_refs a\<close>
    by (simp add: memcache_gdsf_algorithm_def)
qed (auto simp: memcache_gdsf_algorithm_def)

definition removal_algorithm :: "(int \<Rightarrow> mobj \<Rightarrow> mobj) \<Rightarrow> bool" where
  "removal_algorithm f \<longleftrightarrow> f = memcache_lru_algorithm \<or> f = memcache_gdsf_algorithm"

section \<open>Properties\<close>

text \<open>
  C13. \<open>cache_insert\<close> returns, under both removal algorithms, for every new object that fits
  into the cache at all: its loop ends before the queue is empty, the cache keeps its
  invariant (heap order, positions, index by key, exact size within \<open>max_size\<close>, at most
  \<open>max_entries\<close> objects), the new object is in it, and whatever was ejected to make room had
  a score no better than anything kept.
\<close>

theorem cache_insert_correct:
  assumes "removal_algorithm set_pri" "cache_inv c" "e \<notin> cache_elems c"
    and "cache_find c (o_key (c_obj c e)) = None" "obj_ok (c_obj c e)" "o_len (c_obj c e) \<le> c_max_size c"
    and "unat (o_len (c_obj c e)) + unat (c_max_size c) < 2 ^ 64"
  shows "\<exists>c'. cache_insert set_pri realloc_ok True c e = Some c' \<and> cache_inv c' \<and>
     e \<in> cache_elems c' \<and> cache_elems c' - {e} \<subseteq> cache_elems c \<and>
     (\<forall>x\<in>cache_elems c - cache_elems c'. \<forall>y\<in>cache_elems c' - {e}. cache_pri c y \<le> cache_pri c x) \<and>
     c_max_size c' = c_max_size c \<and> c_max_entries c' = c_max_entries c"
  using assms(1) lru.insert_inv [OF assms(2-7)] gdsf.insert_inv [OF assms(2-7)]
  unfolding removal_algorithm_def by blast

definition sample_obj :: "obj \<Rightarrow> mobj" where
  "sample_obj e = \<lparr>o_type = CACHE_TYPE_HEAP, o_m = None, o_key = replicate e (CHR ''k''), o_len = 3, o_priority = 0, o_total_refs = 1,
     o_refcount = 1, o_complete = True, o_count = 0, o_cleaned = False\<rparr>"

definition sample_cache :: cache where
  "sample_cache = cache_init 2 10 (\<lambda>_. 0) (\<lambda>_. 0) sample_obj"

lemma sample_cache_inv: "cache_inv sample_cache \<and> cache_elems sample_cache = {}"
  using cache_init_inv [of 2 10 "\<lambda>_. 0" "\<lambda>_. 0" sample_obj]
  by (simp add: sample_cache_def cache_elems_def) (simp add: cache_init_def pq_init_def pq_elems_def)

theorem cache_insert_correct_witness:
  "\<exists>c'. cache_insert memcache_gdsf_algorithm True True sample_cache 5 = Some c' \<and> cache_inv c' \<and>
     5 \<in> cache_elems c' \<and> cache_elems c' - {5} \<subseteq> cache_elems sample_cache \<and>
     (\<forall>x\<in>cache_elems sample_cache - cache_elems c'. \<forall>y\<in>cache_elems c' - {5}.
        cache_pri sample_cache y \<le> cache_pri sample_cache x) \<and>
     c_max_size c' = c_max_size sample_cache \<and> c_max_entries c' = c_max_entries sample_cache"
  by (rule cache_insert_correct)
    (use sample_cache_inv in \<open>simp_all add: removal_algorithm_def cache_find_None,
      simp_all add: sample_cache_def cache_init_def sample_obj_def obj_ok_def\<close>)

text \<open>
  C27. \<open>cache_update\<close>, called on every hit, keeps the invariant of the cache: although it compares
  two scores computed with the present clock, neither of which need be the one the object was
  placed by, it always moves the object in the right direction of the heap.
\<close>

theorem cache_update_invariant:
  assumes "removal_algorithm set_pri" "cache_inv c" "e \<in> cache_elems c"
  shows "cache_inv (cache_update set_pri c e) \<and> cache_elems (cache_update set_pri c e) = cache_elems c"
  using assms(1) lru.update_inv [OF assms(2,3)] gdsf.update_inv [OF assms(2,3)]
  unfolding removal_algorithm_def by blast

lemma sample_insert: "\<exists>c. cache_inv c \<and> (5::obj) \<in> cache_elems c"
  using gdsf.insert_inv [of sample_cache 5 True] sample_cache_inv
  by (simp add: cache_find_None) (auto simp: sample_cache_def cache_init_def sample_obj_def obj_ok_def)

theorem cache_update_invariant_witness:
  "\<exists>c. cache_inv c \<and> (5::obj) \<in> cache_elems c \<and> cache_inv (cache_update memcache_lru_algorithm c 5) \<and>
     cache_elems (cache_update memcache_lru_algorithm c 5) = cache_elems c"
  using sample_insert cache_update_invariant [of memcache_lru_algorithm _ 5]
  by (auto simp: removal_algorithm_def)

end
