(* ===== verification/Mem_Cache.thy ===== *)
theory Mem_Cache
  imports Cache_Cache
begin

text \<open>
  The in-memory storage provider, \<open>modules/cache/mod_mem_cache.c\<close>: its configuration, the
  creation, opening, filling and removal of cached objects over \<open>cache_cache.c\<close>, and the
  reference counts that decide when the storage of an object is freed. Each operation takes
  the lock of the cache around its changes, so operations are atomic steps here. \<open>Some\<close> and
  \<open>None\<close> around a result mean that the call returns or that \<open>cache_insert\<close> fails inside it.
\<close>

section \<open>Configuration\<close>

record mem_conf =
  min_cache_object_size :: u64
  max_cache_object_size :: u64
  max_cache_size :: u64
  max_object_cnt :: nat
  cache_remove_algorithm :: "int \<Rightarrow> mobj \<Rightarrow> mobj"
  max_streaming_buffer_size :: int
  cache_cache :: "cache option"

definition DEFAULT_MAX_CACHE_SIZE :: u64 where "DEFAULT_MAX_CACHE_SIZE = 100 * 1024"
definition DEFAULT_MIN_CACHE_OBJECT_SIZE :: u64 where "DEFAULT_MIN_CACHE_OBJECT_SIZE = 1"
definition DEFAULT_MAX_CACHE_OBJECT_SIZE :: u64 where "DEFAULT_MAX_CACHE_OBJECT_SIZE = 10000"
definition DEFAULT_MAX_OBJECT_CNT :: nat where "DEFAULT_MAX_OBJECT_CNT = 1009"
definition DEFAULT_MAX_STREAMING_BUFFER_SIZE :: int where "DEFAULT_MAX_STREAMING_BUFFER_SIZE = 100000"

definition create_cache_config :: mem_conf where
  "create_cache_config =
     \<lparr>min_cache_object_size = DEFAULT_MIN_CACHE_OBJECT_SIZE,
      max_cache_object_size = DEFAULT_MAX_CACHE_OBJECT_SIZE,
      max_cache_size = DEFAULT_MAX_CACHE_SIZE,
      max_object_cnt = DEFAULT_MAX_OBJECT_CNT,
      cache_remove_algorithm = memcache_gdsf_algorithm,
      max_streaming_buffer_size = DEFAULT_MAX_STREAMING_BUFFER_SIZE,
      cache_cache = None\<rparr>"

text \<open>
  The directive \<open>MCacheRemovalAlgorithm\<close>; the flag is true for the error message.
  \<open>strcasecmp\<close> is zero for equal strings, so its value is true for different ones.
\<close>

definition set_cache_removal_algorithm :: "mem_conf \<Rightarrow> cstring \<Rightarrow> mem_conf \<times> bool" where
  "set_cache_removal_algorithm sconf arg =
     (if \<not> strcaseeq ''LRU'' arg then (sconf\<lparr>cache_remove_algorithm := memcache_lru_algorithm\<rparr>, False)
      else if \<not> strcaseeq ''GDSF'' arg then (sconf\<lparr>cache_remove_algorithm := memcache_gdsf_algorithm\<rparr>, False)
      else (sconf, True))"

datatype post_status = POST_OK | POST_DONE

text \<open>
  \<open>mem_cache_post_config\<close>. The comparisons of \<open>apr_off_t\<close> with \<open>apr_size_t\<close> are made in the
  unsigned type. \<open>pos\<close>, \<open>mem\<close>, \<open>objs\<close>: what memory holds.
\<close>

definition mem_cache_post_config ::
  "(obj \<Rightarrow> nat) \<Rightarrow> (nat \<Rightarrow> obj) \<Rightarrow> (obj \<Rightarrow> mobj) \<Rightarrow> mem_conf \<Rightarrow> post_status \<times> mem_conf" where
  "mem_cache_post_config pos mem objs sconf =
     (if min_cache_object_size sconf \<ge> max_cache_object_size sconf then (POST_DONE, sconf)
      else if max_cache_object_size sconf \<ge> max_cache_size sconf then (POST_DONE, sconf)
      else
        (let s1 = (if (word_of_int (max_streaming_buffer_size sconf) :: u64) > max_cache_object_size sconf
                   then sconf\<lparr>max_streaming_buffer_size := sint (max_cache_object_size sconf)\<rparr> else sconf);
             s2 = (if (word_of_int (max_streaming_buffer_size s1) :: u64) < min_cache_object_size s1
                   then s1\<lparr>max_streaming_buffer_size := sint (min_cache_object_size s1)\<rparr> else s1)
         in (POST_OK, s2\<lparr>cache_cache :=
               Some (cache_init (max_object_cnt s2) (max_cache_size s2) pos mem objs)\<rparr>)))"

section \<open>Objects and handles\<close>

datatype entity_status = ENTITY_OK | DECLINED

abbreviation upd_obj :: "(mobj \<Rightarrow> mobj) \<Rightarrow> obj \<Rightarrow> cache \<Rightarrow> cache" where
  "upd_obj f e c \<equiv> c\<lparr>c_obj := (c_obj c)(e := f (c_obj c e))\<rparr>"

definition inc_refcount :: "mobj \<Rightarrow> mobj" where
  "inc_refcount a = a\<lparr>o_refcount := o_refcount a + 1\<rparr>"

text \<open>The object that \<open>create_entity\<close> allocates, zeroed by \<open>apr_pcalloc\<close>, and sets up.\<close>

definition new_object :: "cache_type \<Rightarrow> cstring \<Rightarrow> u64 \<Rightarrow> mobj" where
  "new_object type_e key len =
     \<lparr>o_type = type_e, o_m = None, o_key = key, o_len = len, o_priority = 0, o_total_refs = 1,
      o_refcount = 1, o_complete = False, o_count = 0, o_cleaned = False\<rparr>"

text \<open>
  \<open>create_entity\<close>, for the address \<open>obj\<close> of the new object; \<open>has_filename\<close>, \<open>pool_ok\<close>:
  \<open>r->filename\<close> is set, \<open>apr_pool_create\<close> succeeds; \<open>ok\<close> are the allocations of the cache.
\<close>

definition create_entity ::
  "bool \<times> bool \<Rightarrow> bool \<Rightarrow> bool \<Rightarrow> mem_conf \<Rightarrow> cache \<Rightarrow> obj \<Rightarrow> cache_type \<Rightarrow> cstring \<Rightarrow> int \<Rightarrow>
     (entity_status \<times> cache) option" where
  "create_entity ok has_filename pool_ok sconf c obj type_e key len =
     (let len' = (if len = -1 then max_streaming_buffer_size sconf else len);
          wlen = (word_of_int len' :: u64)
      in if wlen < min_cache_object_size sconf \<or> wlen > max_cache_object_size sconf then Some (DECLINED, c)
         else if type_e = CACHE_TYPE_FILE \<and> \<not> has_filename then Some (DECLINED, c)
         else if \<not> pool_ok then Some (DECLINED, c)
         else
           (let c1 = upd_obj (\<lambda>_. new_object type_e key wlen) obj c
            in case cache_find c1 key of
                 Some tmp_obj \<Rightarrow> Some (DECLINED, upd_obj cleanup_cache_object obj c1)
               | None \<Rightarrow>
                   (case cache_insert (cache_remove_algorithm sconf) (fst ok) (snd ok) c1 obj of
                      None \<Rightarrow> None
                    | Some c2 \<Rightarrow> Some (ENTITY_OK, upd_obj inc_refcount obj c2))))"

text \<open>\<open>open_entity\<close>: the object for the handle, if there is a complete one.\<close>

definition open_entity :: "mem_conf \<Rightarrow> cache \<Rightarrow> cstring \<Rightarrow> obj option \<times> cache" where
  "open_entity sconf c key =
     (case cache_find c key of
        None \<Rightarrow> (None, c)
      | Some obj \<Rightarrow>
          if o_complete (c_obj c obj) then
            (Some obj, cache_update (cache_remove_algorithm sconf) (upd_obj inc_refcount obj c) obj)
          else (None, c))"

definition remove_entity :: "cache \<Rightarrow> obj \<Rightarrow> cache" where
  "remove_entity c obj =
     (if cache_find c (o_key (c_obj c obj)) = Some obj
      then upd_obj dec_refcount obj (cache_remove c obj) else c)"

definition remove_url :: "cache \<Rightarrow> obj option \<Rightarrow> cache" where
  "remove_url c cache_obj =
     (case cache_obj of
        None \<Rightarrow> c
      | Some obj \<Rightarrow>
          (let c1 = upd_obj dec_refcount obj (cache_remove c obj)
           in if o_refcount (c_obj c1 obj) = 0 then upd_obj cleanup_cache_object obj c1 else c1))"

text \<open>\<open>decrement_refcount\<close>, the clean-up of a handle.\<close>

definition decrement_refcount :: "cache \<Rightarrow> obj \<Rightarrow> cache" where
  "decrement_refcount c obj =
     (let c1 = (if \<not> o_complete (c_obj c obj) \<and> cache_find c (o_key (c_obj c obj)) = Some obj
                then upd_obj dec_refcount obj (cache_remove c obj) else c)
      in upd_obj memcache_cache_free obj c1)"

text \<open>The loop of \<open>cleanup_cache_mem\<close> at shutdown.\<close>

partial_function (option) cleanup_cache_mem :: "cache \<Rightarrow> cache option" where
  "cleanup_cache_mem c =
     (case cache_pop c of
        (None, c') \<Rightarrow> Some c'
      | (Some obj, c') \<Rightarrow> cleanup_cache_mem (upd_obj memcache_cache_free obj c'))"

declare cleanup_cache_mem.simps [code]

section \<open>Storing a body\<close>

text \<open>
  The buckets of a brigade: the end of the stream, a file bucket, any other bucket, with the
  bytes reading it gives, or \<open>None\<close> when \<open>apr_bucket_read\<close> fails.
\<close>

datatype bucket = EOS | File "cstring option" | Data "cstring option"

fun bucket_read :: "bucket \<Rightarrow> cstring option" where
  "bucket_read EOS = None"
| "bucket_read (File s) = s"
| "bucket_read (Data s) = s"

fun is_file :: "bucket \<Rightarrow> bool" where
  "is_file (File s) = True"
| "is_file _ = False"

datatype store_status = APR_SUCCESS | APR_EGENERAL | APR_ENOMEM | APR_FAILED

text \<open>
  The branch of \<open>store_body\<close> for the end of the stream. \<open>cl\<close>: the number in the header
  \<open>Content-Length\<close>, if there is one; \<open>realloc_ok\<close>: whether \<open>realloc\<close> to a size returns a buffer.
\<close>

definition store_eos ::
  "bool \<times> bool \<Rightarrow> mem_conf \<Rightarrow> int option \<Rightarrow> (u64 \<Rightarrow> bool) \<Rightarrow> cache \<Rightarrow> obj \<Rightarrow> (store_status \<times> cache) option" where
  "store_eos ok sconf cl realloc_ok c obj =
     (let a = c_obj c obj
      in if (case cl of Some n \<Rightarrow> o_count a \<noteq> word_of_int n | None \<Rightarrow> False) then Some (APR_EGENERAL, c)
         else if o_len a > o_count a then
           (if \<not> realloc_ok (o_count a) then Some (APR_ENOMEM, upd_obj (o_m_update (\<lambda>_. None)) obj c)
            else
              (let shrink = (\<lambda>a. a\<lparr>o_len := o_count a\<rparr>);
                   inserted =
                     (case cache_find c (o_key a) of
                        Some tobj \<Rightarrow>
                          if tobj = obj then
                            cache_insert (cache_remove_algorithm sconf) (fst ok) (snd ok)
                              (upd_obj shrink obj (cache_remove c obj)) obj
                          else Some c
                      | None \<Rightarrow>
                          map_option (upd_obj inc_refcount obj)
                            (cache_insert (cache_remove_algorithm sconf) (fst ok) (snd ok)
                              (upd_obj shrink obj c) obj))
               in map_option (\<lambda>c'. (APR_SUCCESS, upd_obj (o_complete_update (\<lambda>_. True)) obj c')) inserted))
         else Some (APR_SUCCESS, upd_obj (o_complete_update (\<lambda>_. True)) obj c))"

text \<open>Copying the bytes of a bucket to \<open>m + count\<close>.\<close>

definition store_bytes :: "cstring \<Rightarrow> mobj \<Rightarrow> mobj" where
  "store_bytes s a =
     a\<lparr>o_m := Some (take (unat (o_count a)) (case o_m a of Some m \<Rightarrow> m | None \<Rightarrow> []) @ s),
       o_count := o_count a + of_nat (length s)\<rparr>"

fun store_loop ::
  "bool \<times> bool \<Rightarrow> mem_conf \<Rightarrow> int option \<Rightarrow> (u64 \<Rightarrow> bool) \<Rightarrow> cache \<Rightarrow> obj \<Rightarrow> bucket list \<Rightarrow>
     (store_status \<times> cache) option" where
  "store_loop ok sconf cl realloc_ok c obj [] = Some (APR_SUCCESS, c)"
| "store_loop ok sconf cl realloc_ok c obj (b # bs) =
     (if b = EOS then store_eos ok sconf cl realloc_ok c obj
      else
        (case bucket_read b of
           None \<Rightarrow> Some (APR_FAILED, c)
         | Some s \<Rightarrow>
             if s \<noteq> [] \<and> o_count (c_obj c obj) + of_nat (length s) > o_len (c_obj c obj)
             then Some (APR_ENOMEM, c)
             else store_loop ok sconf cl realloc_ok (upd_obj (store_bytes s) obj c) obj bs))"

text \<open>
  \<open>store_body\<close>. The first part tries to cache an open file: \<open>open_ok\<close> is the outcome of
  \<open>apr_file_open\<close>. \<open>malloc_ok\<close>: the buffer can be allocated.
\<close>

definition store_body ::
  "bool \<times> bool \<Rightarrow> mem_conf \<Rightarrow> int option \<Rightarrow> bool \<Rightarrow> bool \<Rightarrow> (u64 \<Rightarrow> bool) \<Rightarrow> cache \<Rightarrow> obj \<Rightarrow> bucket list \<Rightarrow>
     (store_status \<times> cache) option" where
  "store_body ok sconf cl open_ok malloc_ok realloc_ok c obj b =
     (let a = c_obj c obj
      in if o_type a = CACHE_TYPE_FILE \<and> length (filter is_file b) = 1 \<and>
            list_all (\<lambda>e. e = EOS \<or> is_file e) b \<and> EOS \<in> set b
         then (if open_ok then Some (APR_SUCCESS, upd_obj (o_complete_update (\<lambda>_. True)) obj c)
               else Some (APR_FAILED, c))
         else
           (let c1 = (if o_type a = CACHE_TYPE_FILE then upd_obj (o_type_update (\<lambda>_. CACHE_TYPE_HEAP)) obj c else c)
            in if o_m a = None \<and> \<not> malloc_ok then Some (APR_ENOMEM, c1)
               else
                 (let c2 = (if o_m a = None then upd_obj (\<lambda>a. a\<lparr>o_m := Some [], o_count := 0\<rparr>) obj c1 else c1)
                  in store_loop ok sconf cl realloc_ok c2 obj b)))"

section \<open>Reference counts\<close>

text \<open>
  The state of the provider: the cache and the handles, one for each clean-up that the server
  still has to run. An object is referenced by its handles and by the cache.
\<close>

definition refs :: "obj multiset \<Rightarrow> cache \<Rightarrow> obj \<Rightarrow> nat" where
  "refs H c e = count H e + (if e \<in> cache_elems c then 1 else 0)"

definition sound_obj :: "obj multiset \<Rightarrow> cache \<Rightarrow> obj \<Rightarrow> bool" where
  "sound_obj H c e \<longleftrightarrow> (0 < refs H c e \<longrightarrow>
     o_refcount (c_obj c e) = of_nat (refs H c e) \<and> \<not> o_cleaned (c_obj c e) \<and>
     obj_ok (c_obj c e) \<and> o_len (c_obj c e) \<le> c_max_size c)"

definition mem_inv :: "mem_conf \<Rightarrow> cache \<Rightarrow> obj multiset \<Rightarrow> bool" where
  "mem_inv sconf c H \<longleftrightarrow> cache_inv c \<and> (\<forall>e. sound_obj H c e) \<and> size H < 2 ^ 31 \<and>
     c_max_size c = max_cache_size sconf"

text \<open>A configuration that \<open>mem_cache_post_config\<close> accepts, with sizes below \<open>2 ^ 63\<close>.\<close>

definition conf_ok :: "mem_conf \<Rightarrow> bool" where
  "conf_ok sconf \<longleftrightarrow> removal_algorithm (cache_remove_algorithm sconf) \<and> min_cache_object_size sconf \<noteq> 0 \<and>
     max_cache_object_size sconf < max_cache_size sconf \<and> unat (max_cache_size sconf) < 2 ^ 63"

lemma refs_bound: "size H < 2 ^ 31 \<Longrightarrow> refs H c e < 2 ^ 32"
  using count_le_size [of H e] by (simp add: refs_def)

lemma dec_refcount_of_nat:
  assumes "o_refcount a = of_nat (Suc n)" "Suc n < 2 ^ 32"
  shows "o_refcount (dec_refcount a) = of_nat n" "o_refcount (dec_refcount a) = 0 \<longleftrightarrow> n = 0"
proof -
  show r: "o_refcount (dec_refcount a) = of_nat n" using assms(1) by (simp add: dec_refcount_def)
  have "unat (of_nat n :: u32) = n" using assms(2) by (simp add: unat_of_nat)
  then show "o_refcount (dec_refcount a) = 0 \<longleftrightarrow> n = 0" unfolding r by (simp add: unat_eq_0 [symmetric])
qed

lemma dec_refcount_fields [simp]:
  "same_object (dec_refcount a) a" "o_cleaned (dec_refcount a) = o_cleaned a" "o_m (dec_refcount a) = o_m a"
  by (simp_all add: dec_refcount_def same_object_def)

lemma memcache_cache_free_sound:
  assumes "o_refcount a = of_nat (Suc n)" "Suc n < 2 ^ 32" "\<not> o_cleaned a"
  shows "o_refcount (memcache_cache_free a) = of_nat n \<and> (o_cleaned (memcache_cache_free a) \<longleftrightarrow> n = 0)"
  using dec_refcount_of_nat [OF assms(1,2)] assms(3)
  by (auto simp: memcache_cache_free_def Let_def cleanup_cache_object_def)

lemma same_object_ok: "same_object a b \<Longrightarrow> obj_ok a = obj_ok b"
  by (simp add: same_object_def obj_ok_def)

text \<open>Changing the objects in ways the cache does not look at.\<close>

lemma cache_inv_objs:
  assumes inv: "cache_inv c" and same: "\<And>x. x \<in> cache_elems c \<Longrightarrow> o_key (objs x) = o_key (c_obj c x) \<and>
      o_len (objs x) = o_len (c_obj c x) \<and> o_priority (objs x) = o_priority (c_obj c x) \<and>
      o_total_refs (objs x) = o_total_refs (c_obj c x)"
  shows "cache_inv (c\<lparr>c_obj := objs\<rparr>) \<and> cache_elems (c\<lparr>c_obj := objs\<rparr>) = cache_elems c"
proof -
  let ?c = "c\<lparr>c_obj := objs\<rparr>"
  have el: "cache_elems ?c = cache_elems c" by (simp add: cache_elems_def)
  have "pq_inv (cache_pri ?c) (c_pq c)"
    using inv same by (subst pq_inv_cong [where pri' = "cache_pri c"]) (auto simp: cache_inv_def cache_pri_def cache_elems_def)
  moreover have "index_ok ?c" using inv same unfolding cache_inv_def index_ok_def el by auto
  moreover have "size_ok ?c" using inv same unfolding cache_inv_def size_ok_def el by auto
  moreover have "\<forall>x\<in>cache_elems c. obj_ok (objs x)" using inv same unfolding cache_inv_def obj_ok_def by auto
  ultimately show ?thesis using inv el by (simp add: cache_inv_def)
qed

lemma upd_obj_inv:
  assumes "cache_inv c" "e \<in> cache_elems c \<Longrightarrow> same_object (f (c_obj c e)) (c_obj c e)"
  shows "cache_inv (upd_obj f e c) \<and> cache_elems (upd_obj f e c) = cache_elems c"
  by (rule cache_inv_objs [OF assms(1)]) (use assms(2) in \<open>auto simp: same_object_def\<close>)

lemma same_object_upd [simp]:
  "same_object (inc_refcount a) a" "same_object (memcache_cache_free a) a"
  using same_object_free [of a] by (auto simp: same_object_def inc_refcount_def)

lemma cache_find_elem:
  "cache_inv c \<Longrightarrow> cache_find c (o_key (c_obj c e)) = Some e \<longleftrightarrow> e \<in> cache_elems c"
  using cache_find_abs by blast

lemma cache_remove_fields [simp]:
  "c_obj (cache_remove c e) = c_obj c" "c_max_size (cache_remove c e) = c_max_size c"
  by (simp_all add: cache_remove_def Let_def)

text \<open>The cache gives up its reference.\<close>

lemma drop_reference:
  assumes m: "mem_inv sconf c H" and e: "e \<in> cache_elems c" and h: "e \<in># H"
  shows "mem_inv sconf (upd_obj dec_refcount e (cache_remove c e)) H \<and>
         cache_elems (upd_obj dec_refcount e (cache_remove c e)) = cache_elems c - {e} \<and>
         o_refcount (c_obj (upd_obj dec_refcount e (cache_remove c e)) e) \<noteq> 0"
proof -
  let ?r = "cache_remove c e"
  let ?c = "upd_obj dec_refcount e ?r"
  have inv: "cache_inv c" and so: "\<And>x. sound_obj H c x" and hb: "size H < 2 ^ 31" using m by (auto simp: mem_inv_def)
  note r = cache_remove_correct [OF inv e]
  have u: "cache_inv ?c" "cache_elems ?c = cache_elems c - {e}"
    using upd_obj_inv [of ?r e dec_refcount] r by auto
  have re: "refs H c e = Suc (refs H ?c e)" unfolding refs_def u(2) using e by simp
  have rx: "x \<noteq> e \<Longrightarrow> refs H ?c x = refs H c x" for x unfolding refs_def u(2) by simp
  have b: "Suc (refs H ?c e) < 2 ^ 32" using refs_bound [OF hb, of c e] re by simp
  have c1: "o_refcount (c_obj c e) = of_nat (Suc (refs H ?c e))" "\<not> o_cleaned (c_obj c e)"
    "obj_ok (c_obj c e)" "o_len (c_obj c e) \<le> c_max_size c"
    using so [of e] re by (simp_all add: sound_obj_def)
  note d = dec_refcount_of_nat [OF c1(1) b]
  have "sound_obj H ?c e"
    using d(1) c1(2-4) by (simp add: sound_obj_def) (simp add: obj_ok_def dec_refcount_def)
  moreover have "x \<noteq> e \<Longrightarrow> sound_obj H ?c x" for x
    using so [of x] rx [of x] by (simp add: sound_obj_def)
  ultimately have "sound_obj H ?c x" for x by (cases "x = e") auto
  moreover have "refs H ?c e \<noteq> 0" using h by (simp add: refs_def)
  ultimately show ?thesis using u m d(2) by (simp add: mem_inv_def)
qed

lemma remove_entity_safe:
  assumes "mem_inv sconf c H" "e \<in># H"
  shows "mem_inv sconf (remove_entity c e) H \<and> e \<notin> cache_elems (remove_entity c e)"
  using drop_reference [OF assms(1) _ assms(2)] cache_find_elem [of c e] assms(1)
  by (auto simp: remove_entity_def mem_inv_def)

lemma remove_url_safe:
  assumes "mem_inv sconf c H" "e \<in># H" "e \<in> cache_elems c"
  shows "mem_inv sconf (remove_url c (Some e)) H"
  using drop_reference [OF assms(1,3,2)] by (simp add: remove_url_def Let_def)

lemma decrement_refcount_safe:
  assumes m: "mem_inv sconf c H" and h: "e \<in># H"
  shows "mem_inv sconf (decrement_refcount c e) (H - {#e#}) \<and>
    (refs (H - {#e#}) (decrement_refcount c e) e = 0 \<longrightarrow> o_cleaned (c_obj (decrement_refcount c e) e))"
proof -
  define c1 where "c1 = (if \<not> o_complete (c_obj c e) \<and> cache_find c (o_key (c_obj c e)) = Some e
                then upd_obj dec_refcount e (cache_remove c e) else c)"
  have m1: "mem_inv sconf c1 H"
    using m drop_reference [OF m _ h] cache_find_elem [of c e] by (auto simp: c1_def mem_inv_def)
  let ?c = "upd_obj memcache_cache_free e c1" and ?H = "H - {#e#}"
  have eq: "decrement_refcount c e = ?c" by (simp add: decrement_refcount_def c1_def)
  have inv: "cache_inv c1" and so: "\<And>x. sound_obj H c1 x" and hb: "size H < 2 ^ 31" using m1 by (auto simp: mem_inv_def)
  have u: "cache_inv ?c" "cache_elems ?c = cache_elems c1" using upd_obj_inv [OF inv, of e memcache_cache_free] by auto
  have re: "refs H c1 e = Suc (refs ?H ?c e)" unfolding refs_def u(2) using h by (simp add: Suc_diff_Suc)
  have rx: "x \<noteq> e \<Longrightarrow> refs ?H ?c x = refs H c1 x" for x unfolding refs_def u(2) by simp
  have b: "Suc (refs ?H ?c e) < 2 ^ 32" using refs_bound [OF hb, of c1 e] re by simp
  have c1: "o_refcount (c_obj c1 e) = of_nat (Suc (refs ?H ?c e))" "\<not> o_cleaned (c_obj c1 e)"
    "obj_ok (c_obj c1 e)" "o_len (c_obj c1 e) \<le> c_max_size c1"
    using so [of e] re by (simp_all add: sound_obj_def)
  note d = memcache_cache_free_sound [OF c1(1) b c1(2)]
  have "sound_obj ?H ?c e"
    using d c1(3,4) same_object_ok [OF same_object_upd(2), of "c_obj c1 e"] same_object_upd(2) [of "c_obj c1 e"]
    by (simp add: sound_obj_def same_object_def)
  moreover have "x \<noteq> e \<Longrightarrow> sound_obj ?H ?c x" for x
    using so [of x] rx [of x] by (simp add: sound_obj_def)
  ultimately have "sound_obj ?H ?c x" for x by (cases "x = e") auto
  moreover have "size ?H < 2 ^ 31" using hb h by (simp add: size_Diff_singleton)
  ultimately show ?thesis using u m1 d unfolding eq by (simp add: mem_inv_def)
qed

text \<open>The cache takes in an object; ejected ones lose the reference of the cache.\<close>

lemma policy_fields:
  assumes "removal_algorithm f"
  shows "f clock a = a\<lparr>o_priority := o_priority (f clock a)\<rparr>"
  using assms lru.only_priority gdsf.only_priority unfolding removal_algorithm_def by blast

lemma policy_ok: "removal_algorithm f \<Longrightarrow> obj_ok a \<Longrightarrow> clock \<le> 0 \<Longrightarrow> obj_ok (f clock a)"
  using lru.obj_ok_set gdsf.obj_ok_set unfolding removal_algorithm_def by blast

lemma policy_insert:
  assumes "removal_algorithm set_pri" "cache_inv c" "e \<notin> cache_elems c"
    and "cache_find c (o_key (c_obj c e)) = None" "obj_ok (c_obj c e)" "o_len (c_obj c e) \<le> c_max_size c"
    and "unat (o_len (c_obj c e)) + unat (c_max_size c) < 2 ^ 64"
  shows "\<exists>c'. cache_insert set_pri r True c e = Some c' \<and> cache_inv c' \<and>
     e \<in> cache_elems c' \<and> cache_elems c' - {e} \<subseteq> cache_elems c \<and> c_max_size c' = c_max_size c \<and>
     (\<forall>x. c_obj c' x = (if x = e then set_pri (c_queue_clock c) (c_obj c e)
        else if x \<in> cache_elems c - cache_elems c' then memcache_cache_free (c_obj c x) else c_obj c x))"
  using assms(1) lru.insert_inv [OF assms(2-7), of r] gdsf.insert_inv [OF assms(2-7), of r]
  unfolding removal_algorithm_def by blast

lemma insert_sound:
  assumes conf: "conf_ok sconf" and inv: "cache_inv c" and hb: "size H < 2 ^ 31"
    and mx: "c_max_size c = max_cache_size sconf" and e: "e \<notin> cache_elems c"
    and so: "\<And>x. x \<noteq> e \<Longrightarrow> sound_obj H c x" and key: "cache_find c (o_key (c_obj c e)) = None"
    and ok: "obj_ok (c_obj c e)" "o_len (c_obj c e) \<le> c_max_size c"
    and ins: "cache_insert (cache_remove_algorithm sconf) r True c e = r'"
  shows "\<exists>c'. r' = Some c' \<and> cache_inv c' \<and> e \<in> cache_elems c' \<and> c_max_size c' = c_max_size c \<and>
     (\<forall>x. x \<noteq> e \<longrightarrow> sound_obj H c' x) \<and> obj_ok (c_obj c' e) \<and>
     (\<exists>p. c_obj c' e = (c_obj c e)\<lparr>o_priority := p\<rparr>)"
proof -
  let ?f = "cache_remove_algorithm sconf"
  have alg: "removal_algorithm ?f" using conf by (simp add: conf_ok_def)
  have "unat (c_max_size c) < 2 ^ 63" using conf mx by (simp add: conf_ok_def)
  moreover have "unat (o_len (c_obj c e)) \<le> unat (c_max_size c)" using ok(2) by (simp add: word_le_nat_alt)
  ultimately have nw: "unat (o_len (c_obj c e)) + unat (c_max_size c) < 2 ^ 64" by simp
  obtain c' where c': "r' = Some c'" "cache_inv c'" "e \<in> cache_elems c'" "cache_elems c' - {e} \<subseteq> cache_elems c"
    "c_max_size c' = c_max_size c"
    and objs: "\<And>x. c_obj c' x = (if x = e then ?f (c_queue_clock c) (c_obj c e)
        else if x \<in> cache_elems c - cache_elems c' then memcache_cache_free (c_obj c x) else c_obj c x)"
    using policy_insert [OF alg inv e key ok nw, of r] ins by auto
  have "sound_obj H c' x" if x: "x \<noteq> e" for x
  proof (cases "x \<in> cache_elems c - cache_elems c'")
    case True
    then have rx: "refs H c x = Suc (refs H c' x)" by (simp add: refs_def)
    have s: "o_refcount (c_obj c x) = of_nat (Suc (refs H c' x))" "\<not> o_cleaned (c_obj c x)"
      "obj_ok (c_obj c x)" "o_len (c_obj c x) \<le> c_max_size c"
      using so [OF x] rx by (simp_all add: sound_obj_def)
    have b: "Suc (refs H c' x) < 2 ^ 32" using refs_bound [OF hb, of c x] rx by simp
    have o: "c_obj c' x = memcache_cache_free (c_obj c x)" using objs [of x] True x by simp
    show ?thesis
      using memcache_cache_free_sound [OF s(1) b s(2)] s(3,4) same_object_upd(2) [of "c_obj c x"]
        same_object_ok [OF same_object_upd(2), of "c_obj c x"] c'(5)
      by (simp add: sound_obj_def o same_object_def)
  next
    case False
    then have "x \<in> cache_elems c' \<longleftrightarrow> x \<in> cache_elems c" using c'(4) x by blast
    then have "refs H c' x = refs H c x" by (simp add: refs_def)
    moreover have "c_obj c' x = c_obj c x" using objs [of x] False x by (simp only: if_False)
    ultimately show ?thesis using so [OF x] c'(5) by (simp add: sound_obj_def)
  qed
  moreover have "obj_ok (c_obj c' e)"
    using policy_ok [OF alg ok(1), of "c_queue_clock c"] inv objs [of e] by (simp add: cache_inv_def)
  moreover have "c_obj c' e = (c_obj c e)\<lparr>o_priority := o_priority (?f (c_queue_clock c) (c_obj c e))\<rparr>"
    using policy_fields [OF alg, of "c_queue_clock c" "c_obj c e"] objs [of e] by simp
  ultimately show ?thesis using c' by blast
qed

lemma create_entity_safe:
  assumes conf: "conf_ok sconf" and m: "mem_inv sconf c H" and fresh: "refs H c e = 0" and hb: "size H + 1 < 2 ^ 31"
    and r: "create_entity (r, True) fn pool_ok sconf c e t key len = res"
  shows "\<exists>st c'. res = Some (st, c') \<and> mem_inv sconf c' (if st = ENTITY_OK then add_mset e H else H) \<and>
    (st = ENTITY_OK \<longrightarrow> o_m (c_obj c' e) = None \<and> o_type (c_obj c' e) = t \<and> o_len (c_obj c' e) \<le> max_cache_object_size sconf)"
proof -
  define wlen :: u64 where "wlen = word_of_int (if len = -1 then max_streaming_buffer_size sconf else len)"
  let ?c1 = "upd_obj (\<lambda>_. new_object t key wlen) e c"
  have inv: "cache_inv c" and so: "\<And>x. sound_obj H c x" and mx: "c_max_size c = max_cache_size sconf"
    using m by (auto simp: mem_inv_def)
  have e: "e \<notin> cache_elems c" "count H e = 0" using fresh by (auto simp: refs_def split: if_splits)
  note u1 = upd_obj_inv [OF inv, of e "\<lambda>_. new_object t key wlen"]
  have el1: "cache_elems ?c1 = cache_elems c" and inv1: "cache_inv ?c1" using u1 e by auto
  have refs1: "refs H ?c1 x = refs H c x" for x unfolding refs_def el1 ..
  have so1: "x \<noteq> e \<Longrightarrow> sound_obj H ?c1 x" for x using so [of x] refs1 [of x] by (simp add: sound_obj_def)
  show ?thesis
  proof (cases "wlen < min_cache_object_size sconf \<or> wlen > max_cache_object_size sconf \<or>
      t = CACHE_TYPE_FILE \<and> \<not> fn \<or> \<not> pool_ok")
    case True
    then have "res = Some (DECLINED, c)" using r by (auto simp: create_entity_def wlen_def [symmetric] Let_def)
    with m show ?thesis by simp
  next
    case False
    then have rest: "res = (case cache_find ?c1 key of
        Some tmp_obj \<Rightarrow> Some (DECLINED, upd_obj cleanup_cache_object e ?c1)
      | None \<Rightarrow> (case cache_insert (cache_remove_algorithm sconf) r True ?c1 e of
           None \<Rightarrow> None | Some c2 \<Rightarrow> Some (ENTITY_OK, upd_obj inc_refcount e c2)))"
      using r unfolding create_entity_def Let_def wlen_def [symmetric] fst_conv snd_conv by auto
    show ?thesis
    proof (cases "cache_find ?c1 key")
      case (Some tmp)
      let ?c2 = "upd_obj cleanup_cache_object e ?c1"
      have u2: "cache_inv ?c2" "cache_elems ?c2 = cache_elems ?c1"
        using upd_obj_inv [OF inv1, of e cleanup_cache_object] e el1 by auto
      have "refs H ?c2 x = refs H c x" for x unfolding refs_def u2(2) el1 ..
      then have "sound_obj H ?c2 x" for x
        using so [of x] fresh by (cases "x = e") (simp_all add: sound_obj_def)
      then have "mem_inv sconf ?c2 H" using u2(1) m by (simp add: mem_inv_def)
      with rest Some show ?thesis by auto
    next
      case None
      have ok: "obj_ok (c_obj ?c1 e)" "o_len (c_obj ?c1 e) \<le> c_max_size ?c1"
        using False conf mx word_gt_0 [of "min_cache_object_size sconf"]
        by (auto simp: new_object_def obj_ok_def conf_ok_def)
      have key: "cache_find ?c1 (o_key (c_obj ?c1 e)) = None" using None by (simp add: new_object_def)
      have e1: "e \<notin> cache_elems ?c1" using e el1 by simp
      have mx1: "c_max_size ?c1 = max_cache_size sconf" using mx by simp
      have hb1: "size H < 2 ^ 31" using hb by simp
      obtain c2 p where c2: "cache_insert (cache_remove_algorithm sconf) r True ?c1 e = Some c2" "cache_inv c2"
        "e \<in> cache_elems c2" "c_max_size c2 = c_max_size ?c1" "\<forall>x. x \<noteq> e \<longrightarrow> sound_obj H c2 x" "obj_ok (c_obj c2 e)"
        "c_obj c2 e = (c_obj ?c1 e)\<lparr>o_priority := p\<rparr>"
        using insert_sound [OF conf inv1 hb1 mx1 e1 so1 key ok refl] by blast
      let ?c3 = "upd_obj inc_refcount e c2"
      have u3: "cache_inv ?c3" "cache_elems ?c3 = cache_elems c2" using upd_obj_inv [OF c2(2), of e inc_refcount] by auto
      have "x \<noteq> e \<Longrightarrow> refs (add_mset e H) ?c3 x = refs H c2 x" for x unfolding refs_def u3(2) by simp
      then have "x \<noteq> e \<Longrightarrow> sound_obj (add_mset e H) ?c3 x" for x
        using c2(5) by (simp add: sound_obj_def)
      moreover have "refs (add_mset e H) ?c3 e = 2" unfolding refs_def u3(2) using c2(3) e(2) by simp
      then have "sound_obj (add_mset e H) ?c3 e"
        using c2(4,6,7) ok(2) by (simp add: sound_obj_def inc_refcount_def new_object_def obj_ok_def)
      ultimately have "sound_obj (add_mset e H) ?c3 x" for x by (cases "x = e") auto
      then have "mem_inv sconf ?c3 (add_mset e H)" using u3(1) c2(4) mx hb by (simp add: mem_inv_def)
      moreover have "o_m (c_obj ?c3 e) = None" "o_type (c_obj ?c3 e) = t" "o_len (c_obj ?c3 e) \<le> max_cache_object_size sconf"
        using c2(7) False by (simp_all add: inc_refcount_def new_object_def not_less)
      ultimately show ?thesis using rest None c2(1) by simp
    qed
  qed
qed

lemma policy_update:
  assumes "removal_algorithm f" "cache_inv c" "e \<in> cache_elems c"
  shows "cache_inv (cache_update f c e) \<and> cache_elems (cache_update f c e) = cache_elems c"
  using assms(1) lru.update_inv [OF assms(2,3)] gdsf.update_inv [OF assms(2,3)]
  unfolding removal_algorithm_def by blast

lemma cache_update_objs:
  assumes "removal_algorithm f"
  shows "c_max_size (cache_update f c e) = c_max_size c"
    "x \<noteq> e \<Longrightarrow> c_obj (cache_update f c e) x = c_obj c x"
    "o_refcount (c_obj (cache_update f c e) e) = o_refcount (c_obj c e)"
    "o_cleaned (c_obj (cache_update f c e) e) = o_cleaned (c_obj c e)"
    "o_len (c_obj (cache_update f c e) e) = o_len (c_obj c e)"
proof -
  have p: "o_refcount (f k a) = o_refcount a" "o_cleaned (f k a) = o_cleaned a" "o_len (f k a) = o_len a" for k a
    by (subst policy_fields [OF assms], simp)+
  show "c_max_size (cache_update f c e) = c_max_size c"
    "x \<noteq> e \<Longrightarrow> c_obj (cache_update f c e) x = c_obj c x"
    "o_refcount (c_obj (cache_update f c e) e) = o_refcount (c_obj c e)"
    "o_cleaned (c_obj (cache_update f c e) e) = o_cleaned (c_obj c e)"
    "o_len (c_obj (cache_update f c e) e) = o_len (c_obj c e)"
    by (simp_all add: cache_update_def Let_def p memcache_inc_frequency_def)
qed

lemma open_entity_safe:
  assumes conf: "conf_ok sconf" and m: "mem_inv sconf c H" and hb: "size H + 1 < 2 ^ 31"
    and r: "open_entity sconf c key = (res, c')"
  shows "case res of
           None \<Rightarrow> c' = c
         | Some e \<Rightarrow> o_key (c_obj c e) = key \<and> o_complete (c_obj c e) \<and> e \<in> cache_elems c \<and>
             mem_inv sconf c' (add_mset e H)"
proof (cases "cache_find c key")
  case None
  with r show ?thesis by (auto simp: open_entity_def)
next
  case (Some e)
  let ?f = "cache_remove_algorithm sconf"
  have alg: "removal_algorithm ?f" using conf by (simp add: conf_ok_def)
  have inv: "cache_inv c" and so: "\<And>x. sound_obj H c x" using m by (auto simp: mem_inv_def)
  have e: "e \<in> cache_elems c" "o_key (c_obj c e) = key" using Some cache_find_abs [OF inv] by auto
  show ?thesis
  proof (cases "o_complete (c_obj c e)")
    case False
    with r Some show ?thesis by (auto simp: open_entity_def)
  next
    case True
    let ?c1 = "upd_obj inc_refcount e c"
    let ?c2 = "cache_update ?f ?c1 e"
    have res: "res = Some e" "c' = ?c2" using r Some True by (auto simp: open_entity_def)
    have u1: "cache_inv ?c1" "cache_elems ?c1 = cache_elems c" using upd_obj_inv [OF inv, of e inc_refcount] by auto
    have u2: "cache_inv ?c2" "cache_elems ?c2 = cache_elems c" using policy_update [OF alg u1(1)] u1(2) e by auto
    note o = cache_update_objs [OF alg, where c = ?c1 and e = e]
    have re: "refs (add_mset e H) ?c2 e = Suc (refs H c e)" unfolding refs_def u2(2) by simp
    have rx: "x \<noteq> e \<Longrightarrow> refs (add_mset e H) ?c2 x = refs H c x" for x unfolding refs_def u2(2) by simp
    have s: "o_refcount (c_obj c e) = of_nat (refs H c e) \<and> \<not> o_cleaned (c_obj c e) \<and> o_len (c_obj c e) \<le> c_max_size c"
      using so [of e] e(1) by (simp add: sound_obj_def refs_def)
    have "obj_ok (c_obj ?c2 e)" using u2 e(1) by (simp add: cache_inv_def)
    then have "sound_obj (add_mset e H) ?c2 e"
      using s re o by (simp add: sound_obj_def inc_refcount_def)
    moreover have "x \<noteq> e \<Longrightarrow> sound_obj (add_mset e H) ?c2 x" for x
      using so [of x] rx [of x] o(1,2) by (simp add: sound_obj_def)
    ultimately have "sound_obj (add_mset e H) ?c2 x" for x by (cases "x = e") auto
    then have "mem_inv sconf ?c2 (add_mset e H)" using u2(1) m hb o(1) by (simp add: mem_inv_def)
    with res e True show ?thesis by simp
  qed
qed

lemma upd_obj_safe:
  assumes m: "mem_inv sconf c H" and so: "same_object (f (c_obj c e)) (c_obj c e) \<or>
      o_key (f (c_obj c e)) = o_key (c_obj c e) \<and> o_len (f (c_obj c e)) = o_len (c_obj c e) \<and>
      o_priority (f (c_obj c e)) = o_priority (c_obj c e) \<and> o_total_refs (f (c_obj c e)) = o_total_refs (c_obj c e)"
    and r: "o_refcount (f (c_obj c e)) = o_refcount (c_obj c e)" "o_cleaned (f (c_obj c e)) = o_cleaned (c_obj c e)"
  shows "mem_inv sconf (upd_obj f e c) H \<and> cache_elems (upd_obj f e c) = cache_elems c"
proof -
  let ?c = "upd_obj f e c"
  have k: "o_key (f (c_obj c e)) = o_key (c_obj c e)" "o_len (f (c_obj c e)) = o_len (c_obj c e)"
    "o_priority (f (c_obj c e)) = o_priority (c_obj c e)" "o_total_refs (f (c_obj c e)) = o_total_refs (c_obj c e)"
    using so by (auto simp: same_object_def)
  have inv: "cache_inv c" using m by (simp add: mem_inv_def)
  have u: "cache_inv ?c \<and> cache_elems ?c = cache_elems c"
    by (rule cache_inv_objs [OF inv]) (use k in simp)
  then have "refs H ?c x = refs H c x" for x unfolding refs_def by simp
  then have "sound_obj H c x \<Longrightarrow> sound_obj H ?c x" for x
    using k r by (cases "x = e") (auto simp: sound_obj_def obj_ok_def)
  then show ?thesis using m u by (simp add: mem_inv_def)
qed

abbreviation shrink :: "mobj \<Rightarrow> mobj" where
  "shrink a \<equiv> a\<lparr>o_len := o_count a\<rparr>"

lemma shrink_insert:
  assumes conf: "conf_ok sconf" and inv: "cache_inv c" and hb: "size H < 2 ^ 31"
    and mx: "c_max_size c = max_cache_size sconf" and e: "e \<notin> cache_elems c"
    and so: "\<And>x. x \<noteq> e \<Longrightarrow> sound_obj H c x" and key: "cache_find c (o_key (c_obj c e)) = None"
    and ok: "obj_ok (c_obj c e)" "o_len (c_obj c e) \<le> c_max_size c" "o_count (c_obj c e) < o_len (c_obj c e)"
      "o_count (c_obj c e) \<noteq> 0"
  shows "\<exists>c'. cache_insert (cache_remove_algorithm sconf) r True (upd_obj shrink e c) e = Some c' \<and>
     cache_inv c' \<and> e \<in> cache_elems c' \<and> c_max_size c' = c_max_size c \<and> (\<forall>x. x \<noteq> e \<longrightarrow> sound_obj H c' x) \<and>
     obj_ok (c_obj c' e) \<and> o_len (c_obj c' e) \<le> c_max_size c' \<and>
     o_refcount (c_obj c' e) = o_refcount (c_obj c e) \<and> o_cleaned (c_obj c' e) = o_cleaned (c_obj c e) \<and>
     o_m (c_obj c' e) = o_m (c_obj c e) \<and> o_count (c_obj c' e) = o_count (c_obj c e)"
proof -
  let ?c1 = "upd_obj shrink e c"
  have u: "cache_inv ?c1" "cache_elems ?c1 = cache_elems c" using upd_obj_inv [OF inv, of e shrink] e by auto
  have mx1: "c_max_size ?c1 = max_cache_size sconf" and e1: "e \<notin> cache_elems ?c1" using mx e u by simp_all
  have "refs H ?c1 x = refs H c x" for x unfolding refs_def u(2) ..
  then have so1: "x \<noteq> e \<Longrightarrow> sound_obj H ?c1 x" for x using so [of x] by (simp add: sound_obj_def)
  have key1: "cache_find ?c1 (o_key (c_obj ?c1 e)) = None" using key by (simp add: cache_find_def)
  have ok1: "obj_ok (c_obj ?c1 e)" using ok by (simp add: obj_ok_def)
  have ok2: "o_len (c_obj ?c1 e) \<le> c_max_size ?c1" using ok by simp
  obtain c' q where c': "cache_insert (cache_remove_algorithm sconf) r True ?c1 e = Some c'" "cache_inv c'"
    "e \<in> cache_elems c'" "c_max_size c' = c_max_size ?c1" "\<forall>x. x \<noteq> e \<longrightarrow> sound_obj H c' x" "obj_ok (c_obj c' e)"
    "c_obj c' e = (c_obj ?c1 e)\<lparr>o_priority := q\<rparr>"
    using insert_sound [OF conf u(1) hb mx1 e1 so1 key1 ok1 ok2 refl] by blast
  then show ?thesis using ok2 by auto
qed

lemma store_eos_safe:
  assumes conf: "conf_ok sconf" and m: "mem_inv sconf c H" and h: "e \<in># H" and z: "\<not> realloc_ok 0"
  shows "\<exists>st c'. store_eos (r, True) sconf cl realloc_ok c e = Some (st, c') \<and> mem_inv sconf c' H \<and>
    (o_m (c_obj c' e) = o_m (c_obj c e) \<or> o_m (c_obj c' e) = None) \<and>
    (st = APR_SUCCESS \<longrightarrow> o_m (c_obj c' e) = o_m (c_obj c e) \<and> o_count (c_obj c' e) = o_count (c_obj c e) \<and>
       o_complete (c_obj c' e) \<and> (\<forall>n. cl = Some n \<longrightarrow> o_count (c_obj c e) = word_of_int n))"
proof -
  let ?a = "c_obj c e"
  let ?alg = "cache_remove_algorithm sconf"
  have inv: "cache_inv c" and so: "\<And>x. sound_obj H c x" and mx: "c_max_size c = max_cache_size sconf"
    and hb: "size H < 2 ^ 31" using m by (auto simp: mem_inv_def)
  have he: "count H e > 0" using h by simp
  have a: "o_refcount ?a = of_nat (refs H c e)" "\<not> o_cleaned ?a" "obj_ok ?a" "o_len ?a \<le> c_max_size c"
    using so [of e] he by (simp_all add: sound_obj_def refs_def)
  have complete: "mem_inv sconf d H \<Longrightarrow> mem_inv sconf (upd_obj (o_complete_update (\<lambda>_. True)) e d) H" for d
    using upd_obj_safe [of sconf d H "o_complete_update (\<lambda>_. True)" e] by simp
  have nomem: "mem_inv sconf (upd_obj (o_m_update (\<lambda>_. None)) e c) H"
    using upd_obj_safe [OF m, of "o_m_update (\<lambda>_. None)" e] by simp
  consider "case cl of Some n \<Rightarrow> o_count ?a \<noteq> word_of_int n | None \<Rightarrow> False"
    | "\<not> (case cl of Some n \<Rightarrow> o_count ?a \<noteq> word_of_int n | None \<Rightarrow> False)" "\<not> o_len ?a > o_count ?a"
    | "\<not> (case cl of Some n \<Rightarrow> o_count ?a \<noteq> word_of_int n | None \<Rightarrow> False)" "o_len ?a > o_count ?a" "\<not> realloc_ok (o_count ?a)"
    | "\<not> (case cl of Some n \<Rightarrow> o_count ?a \<noteq> word_of_int n | None \<Rightarrow> False)" "o_len ?a > o_count ?a" "realloc_ok (o_count ?a)"
    by blast
  then show ?thesis
  proof cases
    case 1
    then show ?thesis using m by (simp add: store_eos_def Let_def)
  next
    case 2
    then show ?thesis using complete [OF m] by (auto simp add: store_eos_def Let_def split: option.splits)
  next
    case 3
    then show ?thesis using nomem by (simp add: store_eos_def Let_def)
  next
    case 4
    then have cnt: "o_count ?a \<noteq> 0" using z by auto
    define ins where "ins = (case cache_find c (o_key ?a) of
        Some tobj \<Rightarrow> if tobj = e then cache_insert ?alg r True (upd_obj shrink e (cache_remove c e)) e else Some c
      | None \<Rightarrow> map_option (upd_obj inc_refcount e) (cache_insert ?alg r True (upd_obj shrink e c) e))"
    have res: "store_eos (r, True) sconf cl realloc_ok c e =
        map_option (\<lambda>c'. (APR_SUCCESS, upd_obj (o_complete_update (\<lambda>_. True)) e c')) ins"
      using 4 unfolding store_eos_def Let_def ins_def fst_conv snd_conv by (simp only: if_True if_False not_True_eq_False)
    have "\<exists>d. ins = Some d \<and> mem_inv sconf d H \<and> o_m (c_obj d e) = o_m ?a \<and> o_count (c_obj d e) = o_count ?a"
    proof (cases "cache_find c (o_key ?a)")
      case None
      have e: "e \<notin> cache_elems c" using None cache_find_None [OF inv] by auto
      obtain d where d: "cache_insert ?alg r True (upd_obj shrink e c) e = Some d" "cache_inv d" "e \<in> cache_elems d"
        "c_max_size d = c_max_size c" "\<And>x. x \<noteq> e \<Longrightarrow> sound_obj H d x" "obj_ok (c_obj d e)" "o_len (c_obj d e) \<le> c_max_size d"
        "o_refcount (c_obj d e) = o_refcount ?a" "o_cleaned (c_obj d e) = o_cleaned ?a"
        "o_m (c_obj d e) = o_m ?a" "o_count (c_obj d e) = o_count ?a"
        using shrink_insert [OF conf inv hb mx e so None a(3,4) 4(2) cnt, of r] by auto
      let ?d = "upd_obj inc_refcount e d"
      have u: "cache_inv ?d" "cache_elems ?d = cache_elems d" using upd_obj_inv [OF d(2), of e inc_refcount] by auto
      have rx: "refs H ?d x = refs H d x" for x unfolding refs_def u(2) ..
      have re: "refs H d e = Suc (refs H c e)" using d(3) e by (simp add: refs_def)
      have "sound_obj H ?d e"
        using d(6-9) a re rx [of e] by (simp add: sound_obj_def inc_refcount_def obj_ok_def)
      moreover have "x \<noteq> e \<Longrightarrow> sound_obj H ?d x" for x using d(5) [of x] rx [of x] by (simp add: sound_obj_def)
      ultimately have "sound_obj H ?d x" for x by (cases "x = e") auto
      then have "mem_inv sconf ?d H" using u(1) d(4) mx hb by (simp add: mem_inv_def)
      with d(1,10,11) None show ?thesis by (simp add: ins_def inc_refcount_def)
    next
      case (Some t)
      show ?thesis
      proof (cases "t = e")
        case False
        with Some m show ?thesis by (simp add: ins_def)
      next
        case True
        then have e: "e \<in> cache_elems c" using Some cache_find_abs [OF inv] by auto
        let ?c0 = "cache_remove c e"
        have r0: "cache_inv ?c0" "cache_elems ?c0 = cache_elems c - {e}" "c_obj ?c0 = c_obj c"
          using cache_remove_correct [OF inv e] by auto
        have rx: "x \<noteq> e \<Longrightarrow> refs H ?c0 x = refs H c x" for x unfolding refs_def r0(2) by simp
        have so0: "x \<noteq> e \<Longrightarrow> sound_obj H ?c0 x" for x using so [of x] rx [of x] by (simp add: sound_obj_def)
        have "x \<in> cache_elems c \<Longrightarrow> o_key (c_obj c x) = o_key ?a \<Longrightarrow> x = e" for x
          using Some True cache_find_abs [OF inv, of "o_key ?a" x] by simp
        then have key: "cache_find ?c0 (o_key (c_obj ?c0 e)) = None"
          using cache_find_None [OF r0(1)] r0(2) by auto
        have e0: "e \<notin> cache_elems ?c0" using r0(2) by simp
        obtain d where d: "cache_insert ?alg r True (upd_obj shrink e ?c0) e = Some d" "cache_inv d" "e \<in> cache_elems d"
          "c_max_size d = c_max_size ?c0" "\<And>x. x \<noteq> e \<Longrightarrow> sound_obj H d x" "obj_ok (c_obj d e)" "o_len (c_obj d e) \<le> c_max_size d"
          "o_refcount (c_obj d e) = o_refcount (c_obj ?c0 e)" "o_cleaned (c_obj d e) = o_cleaned (c_obj ?c0 e)"
          "o_m (c_obj d e) = o_m (c_obj ?c0 e)" "o_count (c_obj d e) = o_count (c_obj ?c0 e)"
          using shrink_insert [OF conf r0(1) hb _ e0 so0 key, of r] mx a(3,4) 4(2) cnt by auto
        have "refs H d e = refs H c e" using d(3) e by (simp add: refs_def)
        then have "sound_obj H d e" using d(6-9) a by (simp add: sound_obj_def)
        then have "sound_obj H d x" for x using d(5) [of x] by (cases "x = e") auto
        then have "mem_inv sconf d H" using d(2,4) mx hb by (simp add: mem_inv_def)
        with d(1,10,11) Some True r0(3) show ?thesis by (simp add: ins_def)
      qed
    qed
    then obtain d where d: "ins = Some d" "mem_inv sconf d H" "o_m (c_obj d e) = o_m ?a" "o_count (c_obj d e) = o_count ?a" by blast
    have "cl = Some n \<Longrightarrow> o_count ?a = word_of_int n" for n using 4(1) by simp
    then show ?thesis using res d complete [OF d(2)] by simp
  qed
qed

lemma store_loop_safe:
  assumes "conf_ok sconf" "e \<in># H" "\<not> realloc_ok 0"
  shows "mem_inv sconf c H \<Longrightarrow>
    \<exists>st c'. store_loop (r, True) sconf cl realloc_ok c e bs = Some (st, c') \<and> mem_inv sconf c' H"
proof (induction bs arbitrary: c)
  case (Cons b bs)
  show ?case
  proof (cases "b = EOS")
    case True
    then show ?thesis using store_eos_safe [where realloc_ok = realloc_ok, OF assms(1) Cons.prems assms(2,3), of r cl] by auto
  next
    case False
    show ?thesis
    proof (cases "bucket_read b")
      case None
      then show ?thesis using False Cons.prems by simp
    next
      case (Some s)
      have "mem_inv sconf (upd_obj (store_bytes s) e c) H"
        using upd_obj_safe [OF Cons.prems, of "store_bytes s" e] by (simp add: store_bytes_def)
      then show ?thesis using False Some Cons.prems Cons.IH by simp
    qed
  qed
qed simp

lemma store_body_safe:
  assumes conf: "conf_ok sconf" and m: "mem_inv sconf c H" and h: "e \<in># H" and z: "\<not> realloc_ok 0"
  shows "\<exists>st c'. store_body (r, True) sconf cl open_ok malloc_ok realloc_ok c e b = Some (st, c') \<and> mem_inv sconf c' H"
proof -
  define c1 where "c1 = (if o_type (c_obj c e) = CACHE_TYPE_FILE then upd_obj (o_type_update (\<lambda>_. CACHE_TYPE_HEAP)) e c else c)"
  define c2 where "c2 = (if o_m (c_obj c e) = None then upd_obj (\<lambda>a. a\<lparr>o_m := Some [], o_count := 0\<rparr>) e c1 else c1)"
  have m1: "mem_inv sconf c1 H"
    using m upd_obj_safe [OF m, of "o_type_update (\<lambda>_. CACHE_TYPE_HEAP)" e] by (simp add: c1_def)
  have m2: "mem_inv sconf c2 H"
    using m1 upd_obj_safe [OF m1, of "\<lambda>a. a\<lparr>o_m := Some [], o_count := 0\<rparr>" e] by (simp add: c2_def)
  have fd: "mem_inv sconf (upd_obj (o_complete_update (\<lambda>_. True)) e c) H"
    using upd_obj_safe [OF m, of "o_complete_update (\<lambda>_. True)" e] by simp
  show ?thesis
    using m m1 fd store_loop_safe [where realloc_ok = realloc_ok, OF conf h z m2, of r cl b]
    unfolding store_body_def Let_def c1_def [symmetric] c2_def [symmetric] by auto
qed

section \<open>The provider as a transition system\<close>

text \<open>
  The calls of the server, each under the lock: creating an entity at an address that nothing
  refers to, opening one, removing the entity of a handle, filling it, and running the clean-up
  of a handle. Two assumptions on the environment are guards: fewer than \<open>2 ^ 31\<close> handles exist
  at a time, and \<open>realloc\<close> to size 0 returns NULL. The memory for table entries is available.
  \<open>remove_url\<close> checks nothing itself. With the parameter \<open>any\<close> its callers call it for every
  handle, as the code allows; without \<open>any\<close> they call it only for objects still in the cache.
\<close>

inductive mem_step :: "mem_conf \<Rightarrow> bool \<Rightarrow> cache \<times> obj multiset \<Rightarrow> cache \<times> obj multiset \<Rightarrow> bool"
  for sconf any where
  create: "mem_step sconf any (c, H) (c', if st = ENTITY_OK then add_mset e H else H)"
    if "create_entity (r, True) fn pool_ok sconf c e t key len = Some (st, c')"
      "refs H c e = 0" "size H + 1 < 2 ^ 31"
| opened: "mem_step sconf any (c, H) (c', case res of Some e \<Rightarrow> add_mset e H | None \<Rightarrow> H)"
    if "open_entity sconf c key = (res, c')" "size H + 1 < 2 ^ 31"
| removed: "mem_step sconf any (c, H) (remove_entity c e, H)" if "e \<in># H"
| url_removed: "mem_step sconf any (c, H) (remove_url c (Some e), H)" if "e \<in># H" "any \<or> e \<in> cache_elems c"
| stored: "mem_step sconf any (c, H) (c', H)"
    if "store_body (r, True) sconf cl open_ok malloc_ok realloc_ok c e b = Some (st, c')"
      "e \<in># H" "\<not> realloc_ok 0"
| closed: "mem_step sconf any (c, H) (decrement_refcount c e, H - {#e#})" if "e \<in># H"

inductive mem_reachable :: "mem_conf \<Rightarrow> bool \<Rightarrow> cache \<times> obj multiset \<Rightarrow> cache \<times> obj multiset \<Rightarrow> bool"
  for sconf any where
  start: "mem_reachable sconf any s s"
| step: "mem_reachable sconf any s s'" if "mem_reachable sconf any s t" "mem_step sconf any t s'"

lemma mem_step_inv:
  assumes conf: "conf_ok sconf" and m: "mem_inv sconf c H" and step: "mem_step sconf False (c, H) s"
  shows "mem_inv sconf (fst s) (snd s)"
  using step
proof (cases rule: mem_step.cases)
  case (create r fn pool_ok e t key len st c')
  with create_entity_safe [OF conf m, of e r fn pool_ok t key len] show ?thesis by auto
next
  case (opened key res c')
  with open_entity_safe [OF conf m, of key res c'] m show ?thesis by (cases res) auto
next
  case (removed e)
  with remove_entity_safe [OF m, of e] show ?thesis by simp
next
  case (url_removed e)
  with remove_url_safe [OF m, of e] show ?thesis by simp
next
  case (stored r cl open_ok malloc_ok realloc_ok e b st c')
  with store_body_safe [OF conf m, of e realloc_ok r cl open_ok malloc_ok b] show ?thesis by auto
next
  case (closed e)
  with decrement_refcount_safe [OF m, of e] show ?thesis by simp
qed

lemma mem_reachable_inv:
  assumes "mem_reachable sconf False s s'" "conf_ok sconf" "mem_inv sconf (fst s) (snd s)"
  shows "mem_inv sconf (fst s') (snd s')"
  using assms
proof (induction rule: mem_reachable.induct)
  case (step s t s')
  then show ?case using mem_step_inv [of sconf "fst t" "snd t" s'] by simp
qed

lemma mem_step_any: "mem_step sconf False s s' \<Longrightarrow> mem_step sconf True s s'"
  by (erule mem_step.cases) (simp_all only:, (rule mem_step.intros; simp)+)

lemma mem_reachable_any: "mem_reachable sconf False s s' \<Longrightarrow> mem_reachable sconf True s s'"
  by (induction rule: mem_reachable.induct) (auto intro: mem_reachable.intros mem_step_any)

definition init_state :: "mem_conf \<Rightarrow> (obj \<Rightarrow> mobj) \<Rightarrow> cache \<times> obj multiset" where
  "init_state sconf objs =
     (cache_init (max_object_cnt sconf) (max_cache_size sconf) (\<lambda>_. 0) (\<lambda>_. 0) objs, {#})"

lemma init_state_inv:
  assumes "0 < max_object_cnt sconf"
  shows "mem_inv sconf (fst (init_state sconf objs)) (snd (init_state sconf objs))"
proof -
  have "cache_elems (fst (init_state sconf objs)) = {}"
    by (simp add: init_state_def cache_init_def cache_elems_def pq_init_def pq_elems_def)
  then show ?thesis
    using cache_init_inv [OF assms]
    by (simp add: mem_inv_def init_state_def sound_obj_def refs_def) (simp add: cache_init_def)
qed

text \<open>
  C12. As long as \<open>remove_url\<close> is called only for objects still in the cache, reference counting
  in the memory cache is exact, whatever the order of calls: in every state the server reaches
  from an empty cache by such calls, the count of an object that the cache or some handle refers
  to is the number of these references, and its storage has not been freed; so no request reads
  freed storage, although insertions eject objects that other requests are still serving. The
  invariant of queue, table and size holds as well. For any use of \<open>remove_url\<close> this is false:
  \<open>removed_url_used_after_free\<close>.
\<close>

theorem mem_cache_no_use_after_free:
  assumes "conf_ok sconf" "0 < max_object_cnt sconf" "mem_reachable sconf False (init_state sconf objs) (c, H)"
    and "e \<in># H \<or> e \<in> cache_elems c"
  shows "o_refcount (c_obj c e) = of_nat (count H e + (if e \<in> cache_elems c then 1 else 0)) \<and>
         \<not> o_cleaned (c_obj c e) \<and> cache_inv c"
proof -
  have m: "mem_inv sconf c H"
    using mem_reachable_inv [OF assms(3,1)] init_state_inv [OF assms(2)] by simp
  have "0 < refs H c e" using assms(4) by (auto simp: refs_def)
  with m have "o_refcount (c_obj c e) = of_nat (refs H c e) \<and> \<not> o_cleaned (c_obj c e) \<and> cache_inv c"
    by (simp add: mem_inv_def sound_obj_def)
  then show ?thesis unfolding refs_def .
qed

definition sample_conf :: mem_conf where
  "sample_conf = create_cache_config\<lparr>max_object_cnt := 2\<rparr>"

lemma sample_conf_ok: "conf_ok sample_conf \<and> 0 < max_object_cnt sample_conf"
  by (simp add: conf_ok_def sample_conf_def create_cache_config_def removal_algorithm_def
      DEFAULT_MIN_CACHE_OBJECT_SIZE_def DEFAULT_MAX_CACHE_OBJECT_SIZE_def DEFAULT_MAX_CACHE_SIZE_def)

lemma sample_fresh:
  "\<exists>c. mem_reachable sample_conf any (init_state sample_conf sample_obj) (c, {#7#}) \<and>
     o_m (c_obj c 7) = None \<and> unat (o_len (c_obj c 7)) < 2 ^ 63 \<and> o_type (c_obj c 7) = CACHE_TYPE_HEAP"
proof -
  let ?s = "init_state sample_conf sample_obj"
  have el: "cache_elems (fst ?s) = {}"
    by (simp add: init_state_def cache_init_def cache_elems_def pq_init_def pq_elems_def)
  have m: "mem_inv sample_conf (fst ?s) {#}"
    using init_state_inv [of sample_conf sample_obj] sample_conf_ok by (simp add: init_state_def)
  have fresh: "refs {#} (fst ?s) 7 = 0" by (simp add: refs_def el)
  obtain st c where c: "create_entity (True, True) True True sample_conf (fst ?s) 7 CACHE_TYPE_HEAP ''k'' 20 = Some (st, c)"
    using create_entity_safe [OF conjunct1 [OF sample_conf_ok] m fresh _ refl] by fastforce
  have "cache_find (upd_obj (\<lambda>_. new_object CACHE_TYPE_HEAP ''k'' 20) 7 (fst ?s)) ''k'' = None"
    using m el by (simp add: cache_find_def mem_inv_def cache_inv_def index_ok_def hash_get_abs)
  then have "st = ENTITY_OK"
    using c by (auto simp: create_entity_def Let_def sample_conf_def create_cache_config_def
        DEFAULT_MIN_CACHE_OBJECT_SIZE_def DEFAULT_MAX_CACHE_OBJECT_SIZE_def split: option.splits)
  then have "mem_step sample_conf any (fst ?s, {#}) (c, {#7#})"
    using mem_step.create [OF c fresh] by simp
  moreover have "?s = (fst ?s, {#})" by (simp add: init_state_def)
  ultimately have r: "mem_reachable sample_conf any ?s (c, {#7#})" by (metis mem_reachable.start mem_reachable.step)
  have o: "o_m (c_obj c 7) = None" "o_type (c_obj c 7) = CACHE_TYPE_HEAP" "o_len (c_obj c 7) \<le> max_cache_object_size sample_conf"
    using create_entity_safe [OF conjunct1 [OF sample_conf_ok] m fresh _ c] \<open>st = ENTITY_OK\<close> by auto
  have "unat (o_len (c_obj c 7)) < 2 ^ 63"
    using o(3) by (simp add: word_le_nat_alt sample_conf_def create_cache_config_def DEFAULT_MAX_CACHE_OBJECT_SIZE_def)
  with r o show ?thesis by blast
qed

lemma sample_reachable: "\<exists>c. mem_reachable sample_conf any (init_state sample_conf sample_obj) (c, {#7#})"
  using sample_fresh by blast

theorem mem_cache_no_use_after_free_witness:
  "\<exists>c. o_refcount (c_obj c 7) = of_nat (count {#7 :: obj#} 7 + (if 7 \<in> cache_elems c then 1 else 0)) \<and>
       \<not> o_cleaned (c_obj c 7) \<and> cache_inv c"
proof -
  obtain c where r: "mem_reachable sample_conf False (init_state sample_conf sample_obj) (c, {#7#})"
    using sample_reachable by blast
  have "7 \<in># {#7#} \<or> 7 \<in> cache_elems c" by simp
  from mem_cache_no_use_after_free [OF conjunct1 [OF sample_conf_ok] conjunct2 [OF sample_conf_ok] r this]
  show ?thesis by (rule exI)
qed

text \<open>
  No storage leaks when a handle is closed: once \<open>decrement_refcount\<close> has dropped the last
  reference to an object, its storage has been freed.
\<close>

theorem mem_cache_no_leak:
  assumes "mem_inv sconf c H" "e \<in># H" "c' = decrement_refcount c e"
    and "e \<notin># H - {#e#}" "e \<notin> cache_elems c'"
  shows "o_cleaned (c_obj c' e)"
  using decrement_refcount_safe [OF assms(1,2)] assms(3-5) by (simp add: refs_def not_in_iff)

theorem mem_cache_no_leak_witness:
  "\<exists>c. mem_inv sample_conf c {#7 :: obj#} \<and> o_cleaned (c_obj (decrement_refcount c 7) 7)"
proof -
  obtain c0 where r: "mem_reachable sample_conf False (init_state sample_conf sample_obj) (c0, {#7#})"
    using sample_reachable by blast
  have m0: "mem_inv sample_conf c0 {#7#}"
    using mem_reachable_inv [OF r] init_state_inv sample_conf_ok by simp
  let ?c = "remove_entity c0 7"
  have m: "mem_inv sample_conf ?c {#7#}" "7 \<notin> cache_elems ?c" using remove_entity_safe [OF m0, of 7] by auto
  then have "cache_find ?c (o_key (c_obj ?c 7)) \<noteq> Some 7" using cache_find_elem [of ?c 7] by (simp add: mem_inv_def)
  then have "cache_elems (decrement_refcount ?c 7) = cache_elems ?c"
    by (simp add: decrement_refcount_def cache_elems_def Let_def)
  then have "o_cleaned (c_obj (decrement_refcount ?c 7) 7)"
    using m by (intro mem_cache_no_leak [OF m(1) _ refl]) simp_all
  with m(1) show ?thesis by blast
qed

text \<open>
  The directive \<open>MCacheRemovalAlgorithm\<close> selects the wrong algorithm, since the code takes
  the value of \<open>strcasecmp\<close> for a truth value of equality: \<open>GDSF\<close> and every unknown name select
  LRU, \<open>LRU\<close> selects GDSF, and the error for unknown names is never reported.
\<close>

theorem removal_algorithm_swapped:
  "(if strcaseeq ''LRU'' arg
    then cache_remove_algorithm (fst (set_cache_removal_algorithm sconf arg)) = memcache_gdsf_algorithm
    else cache_remove_algorithm (fst (set_cache_removal_algorithm sconf arg)) = memcache_lru_algorithm) \<and>
   \<not> snd (set_cache_removal_algorithm sconf arg)"
proof -
  have "strcaseeq ''LRU'' arg \<Longrightarrow> \<not> strcaseeq ''GDSF'' arg"
    unfolding strcaseeq_def by (drule arg_cong [of _ _ length], auto dest: arg_cong [of _ _ length])
  then show ?thesis by (auto simp: set_cache_removal_algorithm_def)
qed

text \<open>
  \<open>remove_url\<close> does not look whether the object is still in the cache, and drops a reference
  that the cache no longer has: an object that was ejected while a single request serves it is
  freed under this request. \<open>remove_entity\<close> makes the check.
\<close>

lemma remove_url_frees_early:
  assumes m: "mem_inv sconf c H" and e: "count H e = 1" "e \<notin> cache_elems c"
  shows "o_cleaned (c_obj (remove_url c (Some e)) e)"
proof -
  have "refs H c e = 1" using e by (simp add: refs_def)
  moreover have "sound_obj H c e" using m by (simp add: mem_inv_def)
  ultimately have "o_refcount (c_obj c e) = 1" by (simp add: sound_obj_def)
  then show ?thesis by (simp add: remove_url_def Let_def dec_refcount_def cleanup_cache_object_def)
qed

text \<open>
  Without the condition on \<open>remove_url\<close> the cache frees storage that a request still uses:
  from every reachable state in which a single handle refers to an object, the calls
  \<open>remove_entity\<close> and \<open>remove_url\<close>, both for that handle, lead to a reachable state in which the
  handle refers to freed storage.
\<close>

theorem removed_url_used_after_free:
  assumes "conf_ok sconf" "0 < max_object_cnt sconf"
    and r: "mem_reachable sconf False (init_state sconf objs) (c, H)" and one: "count H e = 1"
  shows "\<exists>c'. mem_reachable sconf True (init_state sconf objs) (c', H) \<and> e \<in># H \<and> o_cleaned (c_obj c' e)"
proof -
  have e: "e \<in># H" using one by (simp flip: count_greater_zero_iff)
  have m: "mem_inv sconf c H" using mem_reachable_inv [OF r assms(1)] init_state_inv [OF assms(2)] by simp
  have m1: "mem_inv sconf (remove_entity c e) H" "e \<notin> cache_elems (remove_entity c e)"
    using remove_entity_safe [OF m e] by (rule conjunct1) (rule conjunct2 [OF remove_entity_safe [OF m e]])
  have "mem_reachable sconf True (init_state sconf objs) (remove_url (remove_entity c e) (Some e), H)"
    using mem_reachable_any [OF r] mem_step.removed [OF e] mem_step.url_removed [OF e, of True]
    by (meson mem_reachable.step)
  moreover have "o_cleaned (c_obj (remove_url (remove_entity c e) (Some e)) e)"
    by (rule remove_url_frees_early [OF m1(1) one m1(2)])
  ultimately show ?thesis using e by blast
qed

theorem removed_url_used_after_free_witness:
  "\<exists>c'. mem_reachable sample_conf True (init_state sample_conf sample_obj) (c', {#7#}) \<and>
        7 \<in># {#7 :: obj#} \<and> o_cleaned (c_obj c' 7)"
proof -
  obtain c where r: "mem_reachable sample_conf False (init_state sample_conf sample_obj) (c, {#7#})"
    using sample_reachable by blast
  show ?thesis
    by (rule removed_url_used_after_free [OF conjunct1 [OF sample_conf_ok] conjunct2 [OF sample_conf_ok] r]) simp
qed

section \<open>The buffer of a body\<close>

definition buffer_ok :: "mobj \<Rightarrow> cstring \<Rightarrow> bool" where
  "buffer_ok a m \<longleftrightarrow> o_m a = Some m \<and> length m = unat (o_count a) \<and> o_count a \<le> o_len a \<and> unat (o_len a) < 2 ^ 63"

definition payload :: "bucket \<Rightarrow> cstring" where
  "payload b = (case bucket_read b of None \<Rightarrow> [] | Some s \<Rightarrow> s)"

lemma store_bytes_ok:
  assumes b: "buffer_ok a m" and s: "length s < 2 ^ 63"
    and fits: "\<not> (s \<noteq> [] \<and> o_count a + of_nat (length s) > o_len a)"
  shows "buffer_ok (store_bytes s a) (m @ s) \<and> o_len (store_bytes s a) = o_len a"
proof (cases "s = []")
  case True
  with b show ?thesis by (simp add: buffer_ok_def store_bytes_def)
next
  case False
  have l: "unat (of_nat (length s) :: u64) = length s" using s by (simp add: unat_of_nat)
  have "unat (o_count a) + length s < 2 ^ 64" using b s by (auto simp: buffer_ok_def word_le_nat_alt)
  then have "unat (o_count a + of_nat (length s)) = unat (o_count a) + length s"
    using l unat_add_lem [of "o_count a" "of_nat (length s)"] by simp
  with b fits False show ?thesis by (simp add: buffer_ok_def store_bytes_def)
qed

text \<open>The data in front of the end of the stream: all of it is stored, or the loop stops with an error.\<close>

lemma store_loop_data:
  assumes "buffer_ok (c_obj c e) m" "\<forall>b\<in>set ds. b \<noteq> EOS \<and> length (payload b) < 2 ^ 63" "mem_inv sconf c H"
  shows "\<exists>c' k. mem_inv sconf c' H \<and> buffer_ok (c_obj c' e) (m @ concat (map payload (take k ds))) \<and>
     o_len (c_obj c' e) = o_len (c_obj c e) \<and>
     (length ds \<le> k \<and> store_loop ok sconf cl realloc_ok c e (ds @ bs) = store_loop ok sconf cl realloc_ok c' e bs \<or>
      (\<exists>st. st \<noteq> APR_SUCCESS \<and> store_loop ok sconf cl realloc_ok c e (ds @ bs) = Some (st, c')))"
  using assms
proof (induction ds arbitrary: c m)
  case Nil
  then show ?case by (intro exI [of _ c] exI [of _ 0]) simp
next
  case (Cons b ds)
  have ne: "b \<noteq> EOS" and len: "length (payload b) < 2 ^ 63" using Cons.prems(2) by auto
  show ?case
  proof (cases "bucket_read b")
    case None
    then show ?thesis using ne Cons.prems(1,3) by (intro exI [of _ c] exI [of _ 0]) simp
  next
    case (Some s)
    have ps: "payload b = s" using Some by (simp add: payload_def)
    show ?thesis
    proof (cases "s \<noteq> [] \<and> o_count (c_obj c e) + of_nat (length s) > o_len (c_obj c e)")
      case True
      then show ?thesis using ne Some Cons.prems(1,3) by (intro exI [of _ c] exI [of _ 0]) simp
    next
      case False
      let ?c = "upd_obj (store_bytes s) e c"
      have b: "buffer_ok (c_obj ?c e) (m @ s)" and l: "o_len (c_obj ?c e) = o_len (c_obj c e)"
        using store_bytes_ok [OF Cons.prems(1), of s] len ps False by auto
      have i: "mem_inv sconf ?c H" using upd_obj_safe [OF Cons.prems(3), of "store_bytes s" e] by (simp add: store_bytes_def)
      have rest: "\<forall>b\<in>set ds. b \<noteq> EOS \<and> length (payload b) < 2 ^ 63" using Cons.prems(2) by simp
      obtain c' k where r: "mem_inv sconf c' H" "buffer_ok (c_obj c' e) ((m @ s) @ concat (map payload (take k ds)))"
        "o_len (c_obj c' e) = o_len (c_obj ?c e)"
        "length ds \<le> k \<and> store_loop ok sconf cl realloc_ok ?c e (ds @ bs) = store_loop ok sconf cl realloc_ok c' e bs \<or>
         (\<exists>st. st \<noteq> APR_SUCCESS \<and> store_loop ok sconf cl realloc_ok ?c e (ds @ bs) = Some (st, c'))"
        using Cons.IH [OF b rest i] by blast
      have "store_loop ok sconf cl realloc_ok c e ((b # ds) @ bs) = store_loop ok sconf cl realloc_ok ?c e (ds @ bs)"
        using ne Some False by (simp only: append_Cons store_loop.simps if_False option.case)
      with r ps l show ?thesis by (intro exI [of _ c'] exI [of _ "Suc k"]) simp
    qed
  qed
qed

definition fd_brigade :: "bucket list \<Rightarrow> bool" where
  "fd_brigade b \<longleftrightarrow> length (filter is_file b) = 1 \<and> list_all (\<lambda>e. e = EOS \<or> is_file e) b \<and> EOS \<in> set b"

text \<open>
  C26. \<open>store_body\<close> copies the data of a response into the buffer of \<open>m_len\<close> bytes without ever
  writing past its end, wrap-around of the 64-bit count included. For every brigade of an object
  that is kept in memory, whether its buffer is still to be allocated or holds what
  earlier brigades brought: at every return the buffer, if there is one, holds the old content
  followed by the payload of some of the buckets in order; on success it holds that of all
  buckets in front of the end of the stream, and the call for the next brigade goes on from there;
  and when the end of the stream was in the brigade the object is complete and, with a
  Content-Length, has that length. The invariant of the cache is kept.
\<close>

theorem store_body_buffer_bound:
  assumes conf: "conf_ok sconf" and inv: "mem_inv sconf c H" and e: "e \<in># H" and z: "\<not> realloc_ok 0"
    and start: "o_m (c_obj c e) = None \<and> m = [] \<and> unat (o_len (c_obj c e)) < 2 ^ 63 \<or> buffer_ok (c_obj c e) m"
    and heap: "o_type (c_obj c e) \<noteq> CACHE_TYPE_FILE \<or> \<not> fd_brigade bs"
    and bs: "bs = ds @ tail" "tail = [] \<or> hd tail = EOS" "\<forall>b\<in>set ds. b \<noteq> EOS \<and> length (payload b) < 2 ^ 63"
  shows "\<exists>st c' k. store_body (r, True) sconf cl open_ok malloc_ok realloc_ok c e bs = Some (st, c') \<and> mem_inv sconf c' H \<and>
     (\<forall>m'. o_m (c_obj c' e) = Some m' \<longrightarrow>
        m' = m @ concat (map payload (take k ds)) \<and> length m' \<le> unat (o_len (c_obj c e))) \<and>
     (st = APR_SUCCESS \<longrightarrow> o_m (c_obj c' e) = Some (m @ concat (map payload ds)) \<and>
        (if tail = [] then buffer_ok (c_obj c' e) (m @ concat (map payload ds)) \<and> o_len (c_obj c' e) = o_len (c_obj c e)
         else o_complete (c_obj c' e) \<and> length (m @ concat (map payload ds)) = unat (o_count (c_obj c' e)) \<and>
           (\<forall>n. cl = Some n \<longrightarrow> o_count (c_obj c' e) = word_of_int n)))"
proof -
  define c1 where "c1 = (if o_type (c_obj c e) = CACHE_TYPE_FILE then upd_obj (o_type_update (\<lambda>_. CACHE_TYPE_HEAP)) e c else c)"
  define c2 where "c2 = (if o_m (c_obj c e) = None then upd_obj (\<lambda>a. a\<lparr>o_m := Some [], o_count := 0\<rparr>) e c1 else c1)"
  have same: "o_m (c_obj c1 e) = o_m (c_obj c e)" "o_len (c_obj c1 e) = o_len (c_obj c e)" "o_count (c_obj c1 e) = o_count (c_obj c e)"
    by (simp_all add: c1_def)
  have m1: "mem_inv sconf c1 H" using inv upd_obj_safe [OF inv, of "o_type_update (\<lambda>_. CACHE_TYPE_HEAP)" e] by (simp add: c1_def)
  have m2: "mem_inv sconf c2 H"
    using m1 upd_obj_safe [OF m1, of "\<lambda>a. a\<lparr>o_m := Some [], o_count := 0\<rparr>" e] by (simp add: c2_def)
  have body: "store_body (r, True) sconf cl open_ok malloc_ok realloc_ok c e bs =
      (if o_m (c_obj c e) = None \<and> \<not> malloc_ok then Some (APR_ENOMEM, c1)
       else store_loop (r, True) sconf cl realloc_ok c2 e bs)"
    using heap unfolding store_body_def Let_def c1_def [symmetric] c2_def [symmetric] fd_brigade_def by auto
  have b2: "buffer_ok (c_obj c2 e) m" "o_len (c_obj c2 e) = o_len (c_obj c e)"
    using start same by (auto simp: c2_def buffer_ok_def)
  show ?thesis
  proof (cases "o_m (c_obj c e) = None \<and> \<not> malloc_ok")
    case True
    then show ?thesis using body m1 same(1) by simp
  next
    case False
    obtain c' k where l: "mem_inv sconf c' H" "buffer_ok (c_obj c' e) (m @ concat (map payload (take k ds)))"
        "o_len (c_obj c' e) = o_len (c_obj c2 e)"
        "length ds \<le> k \<and> store_loop (r, True) sconf cl realloc_ok c2 e (ds @ tail) = store_loop (r, True) sconf cl realloc_ok c' e tail \<or>
         (\<exists>st. st \<noteq> APR_SUCCESS \<and> store_loop (r, True) sconf cl realloc_ok c2 e (ds @ tail) = Some (st, c'))"
      using store_loop_data [OF b2(1) bs(3) m2] by blast
    have bound: "length (m @ concat (map payload (take k ds))) \<le> unat (o_len (c_obj c e))"
      using l(2,3) b2(2) by (simp add: buffer_ok_def word_le_nat_alt)
    have run: "store_body (r, True) sconf cl open_ok malloc_ok realloc_ok c e bs =
        store_loop (r, True) sconf cl realloc_ok c2 e (ds @ tail)" using body False bs(1) by simp
    have have_m: "o_m (c_obj c' e) = Some (m @ concat (map payload (take k ds)))"
        "length (m @ concat (map payload (take k ds))) = unat (o_count (c_obj c' e))"
      using l(2) by (simp_all add: buffer_ok_def)
    show ?thesis
    proof (cases "\<exists>st. st \<noteq> APR_SUCCESS \<and> store_loop (r, True) sconf cl realloc_ok c2 e (ds @ tail) = Some (st, c')")
      case True
      then obtain st where "st \<noteq> APR_SUCCESS" "store_body (r, True) sconf cl open_ok malloc_ok realloc_ok c e bs = Some (st, c')"
        using run by auto
      then show ?thesis using l(1) have_m(1) bound by (intro exI [of _ st] exI [of _ c'] exI [of _ k]) simp
    next
      case no: False
      then have k: "length ds \<le> k" and go: "store_loop (r, True) sconf cl realloc_ok c2 e (ds @ tail) = store_loop (r, True) sconf cl realloc_ok c' e tail"
        using l(4) by auto
      show ?thesis
      proof (cases tail)
        case Nil
        then show ?thesis using run go l(1,2,3) have_m(1) bound k b2(2)
          by (intro exI [of _ APR_SUCCESS] exI [of _ c'] exI [of _ k]) simp
      next
        case (Cons b rest)
        then have "store_loop (r, True) sconf cl realloc_ok c' e tail = store_eos (r, True) sconf cl realloc_ok c' e"
          using bs(2) by simp
        moreover obtain st d where "store_eos (r, True) sconf cl realloc_ok c' e = Some (st, d)" "mem_inv sconf d H"
            "o_m (c_obj d e) = o_m (c_obj c' e) \<or> o_m (c_obj d e) = None"
            "st = APR_SUCCESS \<longrightarrow> o_m (c_obj d e) = o_m (c_obj c' e) \<and> o_count (c_obj d e) = o_count (c_obj c' e) \<and>
               o_complete (c_obj d e) \<and> (\<forall>n. cl = Some n \<longrightarrow> o_count (c_obj c' e) = word_of_int n)"
          using store_eos_safe [where realloc_ok = realloc_ok, OF conf l(1) e z, of r cl] by blast
        ultimately show ?thesis using run go have_m bound k Cons
          by (intro exI [of _ st] exI [of _ d] exI [of _ k]) auto
      qed
    qed
  qed
qed

theorem store_body_buffer_bound_witness:
  "\<exists>c st c' k. store_body (True, True) sample_conf (Some 5) True True (\<lambda>n. n \<noteq> 0) c 7
       [Data (Some ''abc''), Data (Some ''de''), EOS] = Some (st, c') \<and>
     (st = APR_SUCCESS \<longrightarrow> o_m (c_obj c' 7) = Some ''abcde'' \<and> o_complete (c_obj c' 7)) \<and>
     (\<forall>m'. o_m (c_obj c' 7) = Some m' \<longrightarrow> m' = concat (map payload (take k [Data (Some ''abc''), Data (Some ''de'')])))"
proof -
  obtain c where r: "mem_reachable sample_conf False (init_state sample_conf sample_obj) (c, {#7#})"
    and fresh: "o_m (c_obj c 7) = None" "unat (o_len (c_obj c 7)) < 2 ^ 63" "o_type (c_obj c 7) = CACHE_TYPE_HEAP"
    using sample_fresh by blast
  have m: "mem_inv sample_conf c {#7#}" using mem_reachable_inv [OF r] init_state_inv sample_conf_ok by simp
  have "\<exists>st c' k. store_body (True, True) sample_conf (Some 5) True True (\<lambda>n. n \<noteq> 0) c 7
       [Data (Some ''abc''), Data (Some ''de''), EOS] = Some (st, c') \<and> mem_inv sample_conf c' {#7#} \<and>
     (\<forall>m'. o_m (c_obj c' 7) = Some m' \<longrightarrow>
        m' = [] @ concat (map payload (take k [Data (Some ''abc''), Data (Some ''de'')])) \<and> length m' \<le> unat (o_len (c_obj c 7))) \<and>
     (st = APR_SUCCESS \<longrightarrow> o_m (c_obj c' 7) = Some ([] @ concat (map payload [Data (Some ''abc''), Data (Some ''de'')])) \<and>
        (if [EOS] = [] then buffer_ok (c_obj c' 7) ([] @ concat (map payload [Data (Some ''abc''), Data (Some ''de'')])) \<and>
             o_len (c_obj c' 7) = o_len (c_obj c 7)
         else o_complete (c_obj c' 7) \<and>
           length ([] @ concat (map payload [Data (Some ''abc''), Data (Some ''de'')])) = unat (o_count (c_obj c' 7)) \<and>
           (\<forall>n. Some 5 = Some n \<longrightarrow> o_count (c_obj c' 7) = word_of_int n)))"
    by (rule store_body_buffer_bound [OF conjunct1 [OF sample_conf_ok] m]) (use fresh in \<open>simp_all add: payload_def\<close>)
  then obtain st c' k where b: "store_body (True, True) sample_conf (Some 5) True True (\<lambda>n. n \<noteq> 0) c 7
       [Data (Some ''abc''), Data (Some ''de''), EOS] = Some (st, c')"
     "\<forall>m'. o_m (c_obj c' 7) = Some m' \<longrightarrow> m' = concat (map payload (take k [Data (Some ''abc''), Data (Some ''de'')]))"
     "st = APR_SUCCESS \<longrightarrow> o_m (c_obj c' 7) = Some ''abcde'' \<and> o_complete (c_obj c' 7)"
    by (auto simp: payload_def)
  show ?thesis by (intro exI [of _ c] exI [of _ st] exI [of _ c'] exI [of _ k] conjI b)
qed

end
