(* ===== verification/Http_Method.thy ===== *)
theory Http_Method
  imports Prelude
begin

text \<open>
  Status lines and request methods, \<open>modules/http/http_protocol.c\<close> with the constants of
  \<open>include/httpd.h\<close>: \<open>ap_index_of_response\<close>, \<open>ap_get_status_line\<close>, the optimised lookup of
  the built-in methods, the registry of further methods and \<open>make_allow\<close>. The registry is
  an \<open>apr_hash\<close>: here a map for the lookups, and for a scan a list of its entries in the order
  in which \<open>apr_hash_first\<close> and \<open>apr_hash_next\<close> deliver them.
\<close>


section \<open>Status lines\<close>

definition status_lines :: "cstring list" where
  "status_lines =
    [''100 Continue'', ''101 Switching Protocols'', ''102 Processing'',
     ''200 OK'', ''201 Created'', ''202 Accepted'', ''203 Non-Authoritative Information'',
     ''204 No Content'', ''205 Reset Content'', ''206 Partial Content'', ''207 Multi-Status'',
     ''300 Multiple Choices'', ''301 Moved Permanently'', ''302 Found'', ''303 See Other'',
     ''304 Not Modified'', ''305 Use Proxy'', ''306 unused'', ''307 Temporary Redirect'',
     ''400 Bad Request'', ''401 Authorization Required'', ''402 Payment Required'',
     ''403 Forbidden'', ''404 Not Found'', ''405 Method Not Allowed'', ''406 Not Acceptable'',
     ''407 Proxy Authentication Required'', ''408 Request Time-out'', ''409 Conflict'', ''410 Gone'',
     ''411 Length Required'', ''412 Precondition Failed'', ''413 Request Entity Too Large'',
     ''414 Request-URI Too Large'', ''415 Unsupported Media Type'',
     ''416 Requested Range Not Satisfiable'', ''417 Expectation Failed'', ''418 unused'',
     ''419 unused'', ''420 unused'', ''421 unused'', ''422 Unprocessable Entity'', ''423 Locked'',
     ''424 Failed Dependency'', ''425 No code'', ''426 Upgrade Required'',
     ''500 Internal Server Error'', ''501 Method Not Implemented'', ''502 Bad Gateway'',
     ''503 Service Temporarily Unavailable'', ''504 Gateway Time-out'',
     ''505 HTTP Version Not Supported'', ''506 Variant Also Negotiates'',
     ''507 Insufficient Storage'', ''508 unused'', ''509 unused'', ''510 Not Extended'']"

definition LEVEL_200 :: int where "LEVEL_200 = 3"
definition LEVEL_300 :: int where "LEVEL_300 = 11"
definition LEVEL_400 :: int where "LEVEL_400 = 19"
definition LEVEL_500 :: int where "LEVEL_500 = 46"
definition RESPONSE_CODES :: int where "RESPONSE_CODES = 57"

text \<open>The loop over the levels, with the remaining part of the array \<open>shortcut\<close>.\<close>

fun response_loop :: "int list \<Rightarrow> int \<Rightarrow> int" where
  "response_loop (s # s' # rest) status =
     (let status' = status - 100
      in if status' < 100 then
           (let pos = status' + s in if pos < s' then pos else LEVEL_500)
         else response_loop (s' # rest) status')"
| "response_loop _ status = LEVEL_500"

definition index_of_response :: "int \<Rightarrow> int" where
  "index_of_response status =
     (if status < 100 then LEVEL_500
      else response_loop [0, LEVEL_200, LEVEL_300, LEVEL_400, LEVEL_500, RESPONSE_CODES] status)"

definition get_status_line :: "int \<Rightarrow> cstring" where
  "get_status_line status = status_lines ! nat (index_of_response status)"

lemma index_in_table: "0 \<le> index_of_response status \<and> index_of_response status < int (length status_lines)"
  by (simp add: index_of_response_def Let_def status_lines_def LEVEL_200_def LEVEL_300_def
      LEVEL_400_def LEVEL_500_def RESPONSE_CODES_def)

text \<open>The decimal digits of a number below 1000.\<close>

definition digits3 :: "int \<Rightarrow> cstring" where
  "digits3 n = [char_of (48 + n div 100), char_of (48 + n div 10 mod 10), char_of (48 + n mod 10)]"

definition line_numbers :: "int list" where
  "line_numbers = [100..102] @ [200..207] @ [300..307] @ [400..426] @ [500..510]"

lemma line_numbers_small: "list_all (\<lambda>n. take 4 (get_status_line n) = digits3 n @ '' '') line_numbers"
  by code_simp

lemma index_unknown: "status \<notin> set line_numbers \<Longrightarrow> index_of_response status = LEVEL_500"
proof (rule ccontr)
  assume n: "status \<notin> set line_numbers" and "index_of_response status \<noteq> LEVEL_500"
  then have "100 \<le> status \<and> status < 103 \<or> 200 \<le> status \<and> status < 208 \<or> 300 \<le> status \<and> status < 308 \<or>
      400 \<le> status \<and> status < 427 \<or> 500 \<le> status \<and> status < 511"
    by (auto simp: index_of_response_def Let_def LEVEL_200_def LEVEL_300_def LEVEL_400_def
        LEVEL_500_def RESPONSE_CODES_def split: if_splits)
  then have "status \<in> set line_numbers"
    by (simp only: line_numbers_def set_append set_upto Un_iff atLeastAtMost_iff) linarith
  with n show False ..
qed

text \<open>
  \<open>ap_get_status_line\<close> is right for every integer: it never reads outside the table, for a
  status that has a line it returns the line starting with the three digits of this status,
  and for every other number, negative, in a gap or too large, the line for 500.
\<close>

theorem get_status_line_correct:
  "0 \<le> index_of_response status \<and> index_of_response status < int (length status_lines) \<and>
   (if status \<in> set line_numbers
    then take 4 (get_status_line status) = digits3 status @ '' ''
    else get_status_line status = ''500 Internal Server Error'')"
proof -
  have "take 4 (get_status_line status) = digits3 status @ '' ''" if "status \<in> set line_numbers"
    using that line_numbers_small by (simp only: list_all_iff)
  moreover have "get_status_line status = ''500 Internal Server Error''" if "status \<notin> set line_numbers"
    by (simp add: get_status_line_def index_unknown [OF that] LEVEL_500_def status_lines_def)
  ultimately show ?thesis using index_in_table by simp
qed

section \<open>The built-in methods\<close>

definition M_INVALID :: int where "M_INVALID = 26"
definition METHOD_NUMBER_FIRST :: int where "METHOD_NUMBER_FIRST = M_INVALID + 1"
definition METHOD_NUMBER_LAST :: int where "METHOD_NUMBER_LAST = 62"
definition UNKNOWN_METHOD :: int where "UNKNOWN_METHOD = -1"

text \<open>The calls of \<open>register_one_method\<close> in \<open>ap_method_registry_init\<close>, with the numbers \<open>M_GET\<close>, ...\<close>

definition standard_methods :: "(cstring \<times> int) list" where
  "standard_methods =
    [(''GET'', 0), (''PUT'', 1), (''POST'', 2), (''DELETE'', 3), (''CONNECT'', 4), (''OPTIONS'', 5),
     (''TRACE'', 6), (''PATCH'', 7), (''PROPFIND'', 8), (''PROPPATCH'', 9), (''MKCOL'', 10),
     (''COPY'', 11), (''MOVE'', 12), (''LOCK'', 13), (''UNLOCK'', 14), (''VERSION-CONTROL'', 15),
     (''CHECKOUT'', 16), (''UNCHECKOUT'', 17), (''CHECKIN'', 18), (''UPDATE'', 19), (''LABEL'', 20),
     (''REPORT'', 21), (''MKWORKSPACE'', 22), (''MKACTIVITY'', 23), (''BASELINE-CONTROL'', 24),
     (''MERGE'', 25)]"

text \<open>\<open>memcmp (method, s, n) == 0\<close> for a meth of at least \<open>n\<close> bytes.\<close>

definition method_is :: "cstring \<Rightarrow> cstring \<Rightarrow> int \<Rightarrow> int" where
  "method_is meth s m = (if take (length s) meth = s then m else UNKNOWN_METHOD)"

definition lookup_builtin_method :: "cstring \<Rightarrow> nat \<Rightarrow> int" where
  "lookup_builtin_method meth len =
     (let ch = cget meth in
      if len = 3 then
        (if ch 0 = CHR ''P'' then
           (if ch 1 = CHR ''U'' \<and> ch 2 = CHR ''T'' then 1 else UNKNOWN_METHOD)
         else if ch 0 = CHR ''G'' then
           (if ch 1 = CHR ''E'' \<and> ch 2 = CHR ''T'' then 0 else UNKNOWN_METHOD)
         else UNKNOWN_METHOD)
      else if len = 4 then
        (if ch 0 = CHR ''H'' then
           (if ch 1 = CHR ''E'' \<and> ch 2 = CHR ''A'' \<and> ch 3 = CHR ''D'' then 0 else UNKNOWN_METHOD)
         else if ch 0 = CHR ''P'' then
           (if ch 1 = CHR ''O'' \<and> ch 2 = CHR ''S'' \<and> ch 3 = CHR ''T'' then 2 else UNKNOWN_METHOD)
         else if ch 0 = CHR ''M'' then
           (if ch 1 = CHR ''O'' \<and> ch 2 = CHR ''V'' \<and> ch 3 = CHR ''E'' then 12 else UNKNOWN_METHOD)
         else if ch 0 = CHR ''L'' then
           (if ch 1 = CHR ''O'' \<and> ch 2 = CHR ''C'' \<and> ch 3 = CHR ''K'' then 13 else UNKNOWN_METHOD)
         else if ch 0 = CHR ''C'' then
           (if ch 1 = CHR ''O'' \<and> ch 2 = CHR ''P'' \<and> ch 3 = CHR ''Y'' then 11 else UNKNOWN_METHOD)
         else UNKNOWN_METHOD)
      else if len = 5 then
        (if ch 2 = CHR ''T'' then method_is meth ''PATCH'' 7
         else if ch 2 = CHR ''R'' then method_is meth ''MERGE'' 25
         else if ch 2 = CHR ''C'' then method_is meth ''MKCOL'' 10
         else if ch 2 = CHR ''B'' then method_is meth ''LABEL'' 20
         else if ch 2 = CHR ''A'' then method_is meth ''TRACE'' 6
         else UNKNOWN_METHOD)
      else if len = 6 then
        (if ch 0 = CHR ''U'' then
           (if ch 5 = CHR ''K'' then method_is meth ''UNLOCK'' 14
            else if ch 5 = CHR ''E'' then method_is meth ''UPDATE'' 19
            else UNKNOWN_METHOD)
         else if ch 0 = CHR ''R'' then method_is meth ''REPORT'' 21
         else if ch 0 = CHR ''D'' then method_is meth ''DELETE'' 3
         else UNKNOWN_METHOD)
      else if len = 7 then
        (if ch 1 = CHR ''P'' then method_is meth ''OPTIONS'' 5
         else if ch 1 = CHR ''O'' then method_is meth ''CONNECT'' 4
         else if ch 1 = CHR ''H'' then method_is meth ''CHECKIN'' 18
         else UNKNOWN_METHOD)
      else if len = 8 then
        (if ch 0 = CHR ''P'' then method_is meth ''PROPFIND'' 8
         else if ch 0 = CHR ''C'' then method_is meth ''CHECKOUT'' 16
         else UNKNOWN_METHOD)
      else if len = 9 then method_is meth ''PROPPATCH'' 9
      else if len = 10 then
        (if ch 0 = CHR ''U'' then method_is meth ''UNCHECKOUT'' 17
         else if ch 0 = CHR ''M'' then method_is meth ''MKACTIVITY'' 23
         else UNKNOWN_METHOD)
      else if len = 11 then method_is meth ''MKWORKSPACE'' 22
      else if len = 15 then method_is meth ''VERSION-CONTROL'' 15
      else if len = 16 then method_is meth ''BASELINE-CONTROL'' 24
      else UNKNOWN_METHOD)"

definition builtin_methods :: "(cstring \<times> int) list" where
  "builtin_methods = (''HEAD'', 0) # standard_methods"

lemma lookup_table: "list_all (\<lambda>(s, m). lookup_builtin_method s (length s) = m) builtin_methods"
  by code_simp

lemma method_is_known:
  "length s = length meth \<Longrightarrow> (s, m) \<in> set builtin_methods \<Longrightarrow>
     method_is meth s m = UNKNOWN_METHOD \<or> (meth, method_is meth s m) \<in> set builtin_methods"
  by (auto simp: method_is_def)

lemma length_3: "length m = 3 \<Longrightarrow> m = [cget m 0, cget m 1, cget m 2]"
  by (auto simp: numeral_3_eq_3 length_Suc_conv numeral_2_eq_2)

lemma length_4: "length m = 4 \<Longrightarrow> m = [cget m 0, cget m 1, cget m 2, cget m 3]"
  by (auto simp: eval_nat_numeral length_Suc_conv)

abbreviation lookup_ok :: "cstring \<Rightarrow> bool" where
  "lookup_ok m \<equiv> lookup_builtin_method m (length m) = UNKNOWN_METHOD \<or>
     (m, lookup_builtin_method m (length m)) \<in> set builtin_methods"

lemma lookup_known_3: "lookup_ok [a, b, c]"
  by (simp add: lookup_builtin_method_def Let_def builtin_methods_def standard_methods_def numeral_2_eq_2)

lemma lookup_known_4: "lookup_ok [a, b, c, d]"
  by (simp add: lookup_builtin_method_def Let_def builtin_methods_def standard_methods_def eval_nat_numeral)

lemma lookup_known:
  "lookup_builtin_method meth (length meth) = UNKNOWN_METHOD \<or>
   (meth, lookup_builtin_method meth (length meth)) \<in> set builtin_methods"
proof -
  consider "length meth = 3" | "length meth = 4" | "length meth \<noteq> 3" "length meth \<noteq> 4" by blast
  then show ?thesis
  proof cases
    case 1
    then show ?thesis
      using lookup_known_3 [of "cget meth 0" "cget meth 1" "cget meth 2"] length_3 [OF 1] by metis
  next
    case 2
    then show ?thesis
      using lookup_known_4 [of "cget meth 0" "cget meth 1" "cget meth 2" "cget meth 3"] length_4 [OF 2] by metis
  next
    case 3
    note k = method_is_known [where meth = meth]
    have mem: "(''PATCH'', 7) \<in> set builtin_methods" "(''MERGE'', 25) \<in> set builtin_methods"
      "(''MKCOL'', 10) \<in> set builtin_methods" "(''LABEL'', 20) \<in> set builtin_methods"
      "(''TRACE'', 6) \<in> set builtin_methods" "(''UNLOCK'', 14) \<in> set builtin_methods"
      "(''UPDATE'', 19) \<in> set builtin_methods" "(''REPORT'', 21) \<in> set builtin_methods"
      "(''DELETE'', 3) \<in> set builtin_methods" "(''OPTIONS'', 5) \<in> set builtin_methods"
      "(''CONNECT'', 4) \<in> set builtin_methods" "(''CHECKIN'', 18) \<in> set builtin_methods"
      "(''PROPFIND'', 8) \<in> set builtin_methods" "(''CHECKOUT'', 16) \<in> set builtin_methods"
      "(''PROPPATCH'', 9) \<in> set builtin_methods" "(''UNCHECKOUT'', 17) \<in> set builtin_methods"
      "(''MKACTIVITY'', 23) \<in> set builtin_methods" "(''MKWORKSPACE'', 22) \<in> set builtin_methods"
      "(''VERSION-CONTROL'', 15) \<in> set builtin_methods" "(''BASELINE-CONTROL'', 24) \<in> set builtin_methods"
      by (simp_all add: builtin_methods_def standard_methods_def)
    show ?thesis
      using 3 mem [THEN k [rotated]] unfolding lookup_builtin_method_def Let_def
      by (simp split: if_splits)
  qed
qed

lemma lookup_builtin_iff:
  "lookup_builtin_method meth (length meth) =
     (case map_of builtin_methods meth of Some m \<Rightarrow> m | None \<Rightarrow> UNKNOWN_METHOD)"
proof (cases "map_of builtin_methods meth")
  case None
  then have "meth \<notin> fst ` set builtin_methods" by (simp add: map_of_eq_None_iff)
  with None lookup_known [of meth] show ?thesis by force
next
  case (Some m)
  then have "(meth, m) \<in> set builtin_methods" by (rule map_of_SomeD)
  with lookup_table Some show ?thesis by (auto simp: list_all_iff)
qed

section \<open>The registry of methods\<close>

record method_state =
  methods_registry :: "(cstring \<Rightarrow> int option) option"
  cur_method_number :: int

definition registry_destroy :: "method_state \<Rightarrow> method_state" where
  "registry_destroy st = \<lparr>methods_registry = None, cur_method_number = METHOD_NUMBER_FIRST\<rparr>"

definition register_one_method :: "cstring \<Rightarrow> int \<Rightarrow> method_state \<Rightarrow> method_state" where
  "register_one_method methname methnum st =
     st\<lparr>methods_registry := map_option (\<lambda>reg. reg(methname \<mapsto> methnum)) (methods_registry st)\<rparr>"

definition registry_init :: "method_state \<Rightarrow> method_state" where
  "registry_init st =
     fold (\<lambda>(s, m). register_one_method s m) standard_methods (st\<lparr>methods_registry := Some Map.empty\<rparr>)"

definition method_register :: "method_state \<Rightarrow> cstring option \<Rightarrow> int \<times> method_state" where
  "method_register st methname =
     (let st1 = (if methods_registry st = None then registry_init st else st)
      in case methname of
           None \<Rightarrow> (M_INVALID, st1)
         | Some name \<Rightarrow>
             (case the (methods_registry st1) name of
                Some methnum \<Rightarrow> (methnum, st1)
              | None \<Rightarrow>
                  if cur_method_number st1 > METHOD_NUMBER_LAST then (M_INVALID, st1)
                  else
                    (let st2 = register_one_method name (cur_method_number st1) st1
                     in (cur_method_number st2, st2\<lparr>cur_method_number := cur_method_number st2 + 1\<rparr>))))"

definition method_number_of :: "method_state \<Rightarrow> cstring \<Rightarrow> int" where
  "method_number_of st meth =
     (let which = lookup_builtin_method meth (length meth)
      in if which \<noteq> UNKNOWN_METHOD then which
         else (case methods_registry st of
                 None \<Rightarrow> M_INVALID
               | Some reg \<Rightarrow> (case reg meth of Some methnum \<Rightarrow> methnum | None \<Rightarrow> M_INVALID)))"

text \<open>The scans of the registry: \<open>elts\<close> are its entries in the order of the iteration.\<close>

definition method_name_of :: "(cstring \<times> int) list \<Rightarrow> int \<Rightarrow> cstring option" where
  "method_name_of elts methnum = map_option fst (find (\<lambda>(key, val). val = methnum) elts)"

fun separate_with :: "cstring \<Rightarrow> cstring list \<Rightarrow> cstring list" where
  "separate_with sep [] = []"
| "separate_with sep [x] = [x]"
| "separate_with sep (x # y # xs) = x # sep # separate_with sep (y # xs)"

definition allow_names :: "(cstring \<times> int) list \<Rightarrow> u64 \<Rightarrow> cstring list" where
  "allow_names elts method_mask =
     concat (map (\<lambda>(key, val).
       if bit method_mask (nat val) then key # (if val = 0 then [''HEAD''] else []) else []) elts)"

definition make_allow :: "(cstring \<times> int) list \<Rightarrow> bool \<Rightarrow> u64 \<Rightarrow> cstring list \<Rightarrow> cstring" where
  "make_allow elts trace_enabled method_mask method_list =
     (let allow = allow_names elts method_mask @ (if trace_enabled then [''TRACE''] else []);
          list = concat (separate_with '','' allow)
      in if bit method_mask (nat M_INVALID) then list @ concat (map (\<lambda>x. '','' @ x) method_list) else list)"

text \<open>
  The invariant of the registry: the standard methods are in it, every other name has a number
  of its own, from \<open>METHOD_NUMBER_FIRST\<close> up to the counter, which never passes 63.
\<close>

definition reg_ok :: "(cstring \<Rightarrow> int option) \<Rightarrow> int \<Rightarrow> bool" where
  "reg_ok reg cur \<longleftrightarrow> METHOD_NUMBER_FIRST \<le> cur \<and> cur \<le> METHOD_NUMBER_LAST + 1 \<and>
     (\<forall>s m. (s, m) \<in> set standard_methods \<longrightarrow> reg s = Some m) \<and>
     (\<forall>s m. reg s = Some m \<longrightarrow> (s, m) \<in> set standard_methods \<or> METHOD_NUMBER_FIRST \<le> m \<and> m < cur) \<and>
     (\<forall>s t m. reg s = Some m \<longrightarrow> reg t = Some m \<longrightarrow> s = t)"

definition registry_ok :: "method_state \<Rightarrow> bool" where
  "registry_ok st \<longleftrightarrow> (\<exists>reg. methods_registry st = Some reg \<and> reg_ok reg (cur_method_number st))"

lemma standard_range: "(s, m) \<in> set standard_methods \<Longrightarrow> 0 \<le> m \<and> m < M_INVALID"
  by (auto simp: standard_methods_def M_INVALID_def)

lemma fold_register:
  "methods_registry st = Some reg \<Longrightarrow>
     fold (\<lambda>(s, m). register_one_method s m) ms st = st\<lparr>methods_registry := Some (reg ++ map_of (rev ms))\<rparr>"
proof (induction ms arbitrary: st reg)
  case (Cons sm ms)
  obtain s m where sm: "sm = (s, m)" by (rule prod.exhaust)
  let ?st = "st\<lparr>methods_registry := Some (reg(s \<mapsto> m))\<rparr>"
  have step: "register_one_method s m st = ?st" using Cons.prems by (simp add: register_one_method_def)
  have "reg(s \<mapsto> m) ++ map_of (rev ms) = reg ++ map_of (rev (sm # ms))" by (simp add: sm map_add_assoc [symmetric])
  moreover have "fold (\<lambda>(s, m). register_one_method s m) (sm # ms) st =
      ?st\<lparr>methods_registry := Some (reg(s \<mapsto> m) ++ map_of (rev ms))\<rparr>"
  proof -
    have "fold (\<lambda>(s, m). register_one_method s m) ms ?st =
        ?st\<lparr>methods_registry := Some (reg(s \<mapsto> m) ++ map_of (rev ms))\<rparr>"
      by (rule Cons.IH) (simp add: fun_eq_iff)
    then show ?thesis by (simp only: fold.simps comp_apply sm prod.case step)
  qed
  ultimately show ?case by simp
qed simp

lemma distinct_standard: "distinct (map fst standard_methods)" "distinct (map snd standard_methods)"
  by (simp_all add: standard_methods_def)

lemma distinct_snd: "distinct (map snd xs) \<Longrightarrow> (s, m) \<in> set xs \<Longrightarrow> (t, m) \<in> set xs \<Longrightarrow> s = t"
  by (induction xs) force+

lemma registry_init_ok:
  assumes "cur_method_number st = METHOD_NUMBER_FIRST"
  shows "registry_ok (registry_init st)"
proof -
  have e: "methods_registry (registry_init st) = Some (map_of (rev standard_methods))"
    "cur_method_number (registry_init st) = METHOD_NUMBER_FIRST"
    using assms by (simp_all add: registry_init_def fold_register [of _ Map.empty])
  have m: "map_of (rev standard_methods) s = Some m \<longleftrightarrow> (s, m) \<in> set standard_methods" for s m
    using map_of_eq_Some_iff [of "rev standard_methods" s m] distinct_standard(1) by (simp add: rev_map [symmetric])
  have "reg_ok (map_of (rev standard_methods)) METHOD_NUMBER_FIRST"
    using distinct_snd [OF distinct_standard(2)]
    by (auto simp: reg_ok_def m METHOD_NUMBER_FIRST_def METHOD_NUMBER_LAST_def M_INVALID_def)
  then show ?thesis using e by (simp add: registry_ok_def)
qed

lemma map_of_standard: "map_of standard_methods s = Some m \<longleftrightarrow> (s, m) \<in> set standard_methods"
  using distinct_standard(1) by (simp add: map_of_eq_Some_iff)

lemma method_number_of_ok:
  assumes "methods_registry st = Some reg" "reg_ok reg (cur_method_number st)"
  shows "method_number_of st meth = (if meth = ''HEAD'' then 0 else case reg meth of Some m \<Rightarrow> m | None \<Rightarrow> M_INVALID)"
proof (cases "map_of builtin_methods meth")
  case None
  then show ?thesis using assms by (auto simp: method_number_of_def Let_def lookup_builtin_iff builtin_methods_def)
next
  case (Some m)
  then have l: "lookup_builtin_method meth (length meth) = m" by (simp add: lookup_builtin_iff)
  have "m \<noteq> UNKNOWN_METHOD"
    using map_of_SomeD [OF Some] standard_range [of meth m] by (auto simp: builtin_methods_def UNKNOWN_METHOD_def)
  then have n: "method_number_of st meth = m" using l by (simp add: method_number_of_def Let_def)
  show ?thesis
  proof (cases "meth = ''HEAD''")
    case True
    with Some n show ?thesis by (simp add: builtin_methods_def)
  next
    case False
    with Some have "(meth, m) \<in> set standard_methods" by (simp add: builtin_methods_def map_of_standard)
    then have "reg meth = Some m" using assms(2) by (simp add: reg_ok_def)
    with False n show ?thesis by simp
  qed
qed

lemma reg_ok_extend:
  assumes "reg_ok reg cur" "reg name = None" "cur \<le> METHOD_NUMBER_LAST"
  shows "reg_ok (reg(name \<mapsto> cur)) (cur + 1)"
proof -
  have "reg s \<noteq> Some cur" for s
    using assms(1) standard_range [of s cur] unfolding reg_ok_def METHOD_NUMBER_FIRST_def by fastforce
  moreover have "(s, m) \<in> set standard_methods \<or> METHOD_NUMBER_FIRST \<le> m \<and> m < cur + 1" if "reg s = Some m" for s m
    using assms(1) that unfolding reg_ok_def by force
  ultimately show ?thesis
    using assms unfolding reg_ok_def by auto
qed

lemma method_register_registered:
  assumes "registry_ok st" "method_register st (Some name) = (n, st')"
  shows "\<exists>reg reg'. methods_registry st = Some reg \<and> reg_ok reg (cur_method_number st) \<and>
     methods_registry st' = Some reg' \<and> reg_ok reg' (cur_method_number st') \<and>
     (\<forall>s. s \<noteq> name \<longrightarrow> reg' s = reg s) \<and>
     (case reg' name of Some m \<Rightarrow> n = m | None \<Rightarrow> n = M_INVALID \<and> cur_method_number st = METHOD_NUMBER_LAST + 1)"
proof -
  obtain reg where reg: "methods_registry st = Some reg" "reg_ok reg (cur_method_number st)"
    using assms(1) by (auto simp: registry_ok_def)
  let ?cur = "cur_method_number st"
  consider (old) m where "reg name = Some m" | (full) "reg name = None" "?cur > METHOD_NUMBER_LAST"
    | (new) "reg name = None" "?cur \<le> METHOD_NUMBER_LAST" by (cases "reg name") (auto simp: not_le [symmetric])
  then show ?thesis
  proof cases
    case old
    then show ?thesis using assms(2) reg by (simp add: method_register_def)
  next
    case full
    then have "?cur = METHOD_NUMBER_LAST + 1" using reg(2) by (simp add: reg_ok_def)
    with full show ?thesis using assms(2) reg by (simp add: method_register_def)
  next
    case new
    then have "n = ?cur" "methods_registry st' = Some (reg(name \<mapsto> ?cur))" "cur_method_number st' = ?cur + 1"
      using assms(2) reg by (auto simp: method_register_def register_one_method_def Let_def)
    with new reg reg_ok_extend [OF reg(2) new] show ?thesis by simp
  qed
qed

text \<open>
  Registering a method and looking it up agree: after \<open>ap_method_register\<close>,
  \<open>ap_method_number_of\<close>, which asks the optimised table of built-in methods first, gives the
  number that was returned, unless that is \<open>M_INVALID\<close> because all the numbers are used up;
  the number is a bit position of the 64-bit meth mask, no other name has it (but HEAD,
  which shares that of GET), and all other names keep theirs.
\<close>

theorem method_register_lookup:
  assumes "registry_ok st" "name \<noteq> ''HEAD''" "method_register st (Some name) = (n, st')"
  shows "registry_ok st' \<and> 0 \<le> n \<and> n \<le> 62 \<and> method_number_of st' name = n \<and>
     (n = M_INVALID \<longrightarrow> cur_method_number st = 63) \<and>
     (\<forall>other. other \<noteq> name \<longrightarrow> method_number_of st' other = method_number_of st other \<and>
        (n \<noteq> M_INVALID \<longrightarrow> method_number_of st' other = n \<longrightarrow> other = ''HEAD'' \<and> name = ''GET''))"
proof -
  obtain reg reg' where r: "methods_registry st = Some reg" "reg_ok reg (cur_method_number st)"
    "methods_registry st' = Some reg'" "reg_ok reg' (cur_method_number st')"
    "\<forall>s. s \<noteq> name \<longrightarrow> reg' s = reg s"
    "case reg' name of Some m \<Rightarrow> n = m | None \<Rightarrow> n = M_INVALID \<and> cur_method_number st = METHOD_NUMBER_LAST + 1"
    using method_register_registered [OF assms(1,3)] by blast
  note of = method_number_of_ok [OF r(1,2)] method_number_of_ok [OF r(3,4)]
  have range: "reg' s = Some m \<Longrightarrow> 0 \<le> m \<and> m \<le> 62 \<and> m \<noteq> M_INVALID" for s m
    using r(4) standard_range [of s m] unfolding reg_ok_def METHOD_NUMBER_FIRST_def METHOD_NUMBER_LAST_def M_INVALID_def
    by fastforce
  have num: "method_number_of st' name = n" using of(2) [of name] r(6) assms(2) by (cases "reg' name") auto
  have bounds: "0 \<le> n \<and> n \<le> 62" "n = M_INVALID \<longrightarrow> cur_method_number st = 63"
    using r(6) range [of name] by (auto simp: M_INVALID_def METHOD_NUMBER_LAST_def split: option.splits)
  have other: "method_number_of st' other = method_number_of st other \<and>
        (n \<noteq> M_INVALID \<longrightarrow> method_number_of st' other = n \<longrightarrow> other = ''HEAD'' \<and> name = ''GET'')" if ne: "other \<noteq> name" for other
  proof
    show "method_number_of st' other = method_number_of st other" using of [of other] r(5) ne by simp
    show "n \<noteq> M_INVALID \<longrightarrow> method_number_of st' other = n \<longrightarrow> other = ''HEAD'' \<and> name = ''GET''"
    proof (intro impI)
      assume n: "n \<noteq> M_INVALID" "method_number_of st' other = n"
      then obtain m where m: "reg' name = Some m" "n = m" using r(6) by (auto split: option.splits)
      have get: "reg' ''GET'' = Some 0" using r(4) unfolding reg_ok_def by (simp add: standard_methods_def)
      have inj: "reg' s = Some k \<Longrightarrow> reg' t = Some k \<Longrightarrow> s = t" for s t k using r(4) unfolding reg_ok_def by blast
      show "other = ''HEAD'' \<and> name = ''GET''"
      proof (cases "other = ''HEAD''")
        case True
        then have "m = 0" using of(2) [of other] n m by simp
        then show ?thesis using True inj [of name 0 "''GET''"] get m by simp
      next
        case False
        then have "reg' other = Some m" using of(2) [of other] n m by (auto split: option.splits)
        then show ?thesis using inj [of other m name] m ne by simp
      qed
    qed
  qed
  have "registry_ok st'" using r(3,4) by (auto simp: registry_ok_def)
  with num bounds other show ?thesis by blast
qed

definition empty_registry :: method_state where
  "empty_registry = \<lparr>methods_registry = None, cur_method_number = METHOD_NUMBER_FIRST\<rparr>"

theorem method_register_lookup_witness:
  "registry_ok (snd (method_register (registry_init empty_registry) (Some ''BREW''))) \<and>
   method_number_of (snd (method_register (registry_init empty_registry) (Some ''BREW''))) ''BREW'' =
     fst (method_register (registry_init empty_registry) (Some ''BREW''))"
proof -
  have ok: "registry_ok (registry_init empty_registry)"
    by (rule registry_init_ok) (simp add: empty_registry_def)
  from method_register_lookup [OF ok _ prod.collapse [symmetric], of "''BREW''"] show ?thesis by simp
qed

text \<open>
  The hand-optimised decision tree of \<open>lookup_builtin_method\<close> recognises exactly the names
  of the standard methods and HEAD, each with its number, and rejects every other string.
\<close>

theorem lookup_builtin_complete:
  "lookup_builtin_method meth (length meth) =
     (if meth = ''HEAD'' then 0
      else case map_of standard_methods meth of Some m \<Rightarrow> m | None \<Rightarrow> UNKNOWN_METHOD)"
  by (simp add: lookup_builtin_iff builtin_methods_def)

text \<open>Registering HEAD gives a number that no request ever has.\<close>

lemma register_head:
  "fst (method_register (registry_init empty_registry) (Some ''HEAD'')) = 27"
  "method_number_of (snd (method_register (registry_init empty_registry) (Some ''HEAD''))) ''HEAD'' = 0"
  by code_simp+

end
