(* ===== verification/Http_Cond.thy ===== *)
theory Http_Cond
  imports Util_List Http_Method
begin

text \<open>
  Decisions about a response, \<open>modules/http/http_protocol.c\<close> and \<open>modules/http/http_etag.c\<close>:
  whether the connection persists (\<open>ap_set_keepalive\<close>), whether the conditions of the request
  are met (\<open>ap_meets_conditions\<close>), and the entity tag of a file. A header table is the map from
  the names the code uses to the values, NULL being \<open>None\<close>. Times are in microseconds;
  \<open>date_parse\<close> stands for \<open>apr_date_parse_http\<close>.
\<close>

section \<open>The request record\<close>

type_synonym headers = "cstring \<Rightarrow> cstring option"

datatype conn_keepalive = AP_CONN_UNKNOWN | AP_CONN_CLOSE | AP_CONN_KEEPALIVE

record request =
  r_status :: int
  r_proto_num :: int
  r_method_number :: int
  r_header_only :: bool
  r_expecting_100 :: bool
  r_chunked :: bool
  r_no_local_copy :: bool
  r_mtime :: int
  r_request_time :: int
  r_headers_in :: headers
  r_headers_out :: headers
  r_env :: headers
  conn_keepalive :: conn_keepalive
  conn_keepalives :: int
  srv_keep_alive :: bool
  srv_keep_alive_timeout :: int
  srv_keep_alive_max :: int

text \<open>\<open>apr_table_setn\<close> and \<open>apr_table_mergen\<close>, which joins two values by a comma and a blank.\<close>

definition hdr_set :: "cstring \<Rightarrow> cstring \<Rightarrow> headers \<Rightarrow> headers" where
  "hdr_set key val t = t(key \<mapsto> val)"

definition hdr_merge :: "cstring \<Rightarrow> cstring \<Rightarrow> headers \<Rightarrow> headers" where
  "hdr_merge key val t =
     t(key \<mapsto> (case t key of None \<Rightarrow> val | Some v \<Rightarrow> v @ '', '' @ val))"

definition HTTP_VERSION :: "int \<Rightarrow> int \<Rightarrow> int" where
  "HTTP_VERSION major minor = 1000 * major + minor"

definition HTTP_OK :: int where "HTTP_OK = 200"
definition HTTP_REQUEST_TIME_OUT :: int where "HTTP_REQUEST_TIME_OUT = 408"
definition HTTP_NO_CONTENT :: int where "HTTP_NO_CONTENT = 204"
definition HTTP_NOT_MODIFIED :: int where "HTTP_NOT_MODIFIED = 304"
definition HTTP_PRECONDITION_FAILED :: int where "HTTP_PRECONDITION_FAILED = 412"
definition OK :: int where "OK = 0"
definition M_GET :: int where "M_GET = 0"

definition is_HTTP_SUCCESS :: "int \<Rightarrow> bool" where
  "is_HTTP_SUCCESS x \<longleftrightarrow> 200 \<le> x \<and> x < 300"

definition status_drops_connection :: "int \<Rightarrow> bool" where
  "status_drops_connection x \<longleftrightarrow>
     x = 400 \<or> x = 408 \<or> x = 411 \<or> x = 413 \<or> x = 414 \<or> x = 500 \<or> x = 503 \<or> x = 501"

definition time_sec :: "int \<Rightarrow> int" where
  "time_sec t = t div 1000000"

section \<open>Persistent connections\<close>

text \<open>
  The conjuncts of the condition up to the one that may set \<open>chunked\<close>: the body ends by itself.
  \<open>sets_chunked\<close> tells that the evaluation arrived at the assignment.
\<close>

definition ka_before :: "request \<Rightarrow> bool" where
  "ka_before r \<longleftrightarrow> conn_keepalive r \<noteq> AP_CONN_CLOSE \<and> \<not> r_expecting_100 r"

definition ka_delimited :: "request \<Rightarrow> bool" where
  "ka_delimited r \<longleftrightarrow>
     r_status r = HTTP_NOT_MODIFIED \<or> r_status r = HTTP_NO_CONTENT \<or> r_header_only r \<or>
     r_headers_out r ''Content-Length'' \<noteq> None \<or>
     find_last_token (r_headers_out r ''Transfer-Encoding'') ''chunked''"

definition sets_chunked :: "request \<Rightarrow> bool" where
  "sets_chunked r \<longleftrightarrow> ka_before r \<and> \<not> ka_delimited r \<and> r_proto_num r \<ge> HTTP_VERSION 1 1"

text \<open>
  The conjuncts that follow. \<open>printf_max\<close> and \<open>printf_nomax\<close> are the two formats of
  \<open>apr_psprintf\<close>; \<open>stopping\<close> is \<open>ap_graceful_stop_signalled()\<close>.
\<close>

definition ka_sent :: "request \<Rightarrow> bool" where
  "ka_sent r = find_token (r_headers_in r ''Connection'') ''keep-alive''"

definition ka_wimpy :: "request \<Rightarrow> bool" where
  "ka_wimpy r = find_token (r_headers_out r ''Connection'') ''close''"

definition ka_left :: "request \<Rightarrow> int" where
  "ka_left r = srv_keep_alive_max r - conn_keepalives r"

definition ka_after :: "bool \<Rightarrow> request \<Rightarrow> bool" where
  "ka_after stopping r \<longleftrightarrow>
     srv_keep_alive r \<and> srv_keep_alive_timeout r > 0 \<and>
     (srv_keep_alive_max r = 0 \<or> ka_left r > 0) \<and>
     \<not> status_drops_connection (r_status r) \<and> \<not> ka_wimpy r \<and>
     \<not> find_token (r_headers_in r ''Connection'') ''close'' \<and>
     (r_env r ''nokeepalive'' = None \<or> r_headers_in r ''Via'' \<noteq> None) \<and>
     (ka_sent r \<or> r_proto_num r \<ge> HTTP_VERSION 1 1) \<and> \<not> stopping"

definition set_keepalive ::
  "(int \<Rightarrow> int \<Rightarrow> cstring) \<Rightarrow> (int \<Rightarrow> cstring) \<Rightarrow> bool \<Rightarrow> request \<Rightarrow> bool \<times> request" where
  "set_keepalive printf_max printf_nomax stopping r =
     (let left = ka_left r;
          wimpy = ka_wimpy r;
          r1 = (if sets_chunked r then r\<lparr>r_chunked := True\<rparr> else r)
      in if ka_before r \<and> (ka_delimited r \<or> r_proto_num r \<ge> HTTP_VERSION 1 1) \<and> ka_after stopping r then
           (let r2 = r1\<lparr>conn_keepalive := AP_CONN_KEEPALIVE, conn_keepalives := conn_keepalives r1 + 1\<rparr>;
                secs = time_sec (srv_keep_alive_timeout r);
                r3 = (if ka_sent r then
                        (let value = (if srv_keep_alive_max r \<noteq> 0 then printf_max secs left else printf_nomax secs)
                         in r2\<lparr>r_headers_out := hdr_merge ''Connection'' ''Keep-Alive''
                               (hdr_set ''Keep-Alive'' value (r_headers_out r2))\<rparr>)
                      else r2)
            in (True, r3))
         else
           (let r2 = (if \<not> wimpy then r1\<lparr>r_headers_out := hdr_merge ''Connection'' ''close'' (r_headers_out r1)\<rparr> else r1);
                r3 = (if conn_keepalive r2 \<noteq> AP_CONN_CLOSE \<and> srv_keep_alive_max r2 \<noteq> 0 \<and> left = 0
                      then r2\<lparr>conn_keepalives := conn_keepalives r2 + 1\<rparr> else r2)
            in (False, r3\<lparr>conn_keepalive := AP_CONN_CLOSE\<rparr>)))"

text \<open>
  What \<open>ap_http_header_filter\<close> does to the two framing fields right after \<open>ap_set_keepalive\<close>.
\<close>

definition framing_fields :: "request \<Rightarrow> headers" where
  "framing_fields r =
     (if r_chunked r
      then (hdr_merge ''Transfer-Encoding'' ''chunked'' (r_headers_out r))(''Content-Length'' := None)
      else r_headers_out r)"

text \<open>
  How a client finds the end of a response, by RFC 2616, section 4.4: an answer to HEAD and one
  with the status 1xx, 204 or 304 has no body; a body whose last transfer coding is chunked ends with
  its last chunk; any other transfer coding, whatever Content-Length says, ends with the
  connection; then Content-Length counts; otherwise the body ends with the connection.
\<close>

datatype body_end = NoBody | LastChunk | Counted cstring | WithConnection

definition chunked_last :: "cstring \<Rightarrow> bool" where
  "chunked_last te \<longleftrightarrow>
     (let i = length te - 7
      in strcaseeq (drop i te) ''chunked'' \<and> (i = 0 \<or> te ! (i - 1) = CHR '','' \<or> c_isspace (te ! (i - 1))))"

definition body_end :: "bool \<Rightarrow> int \<Rightarrow> headers \<Rightarrow> body_end" where
  "body_end head status hs =
     (if head \<or> 100 \<le> status \<and> status < 200 \<or> status = 204 \<or> status = 304 then NoBody
      else case hs ''Transfer-Encoding'' of
          Some te \<Rightarrow> if chunked_last te then LastChunk else WithConnection
        | None \<Rightarrow> (case hs ''Content-Length'' of Some n \<Rightarrow> Counted n | None \<Rightarrow> WithConnection))"

lemma strncaseeq_full: "length a = length b \<Longrightarrow> strncaseeq a b (length b) \<Longrightarrow> strcaseeq a b"
  by (induction a b rule: list_induct2) (auto simp: strcaseeq_def)

lemma find_last_token_chunked: "find_last_token (Some te) ''chunked'' \<Longrightarrow> chunked_last te"
proof -
  assume a: "find_last_token (Some te) ''chunked''"
  define i where "i = length te - 7"
  have i: "length te = i + 7" and n: "nat (int (length te) - 7) = i" "nat (int (length te) - 8) = i - 1"
    using a by (auto simp: find_last_token_def i_def Let_def split: if_splits)
  have c: "strncaseeq (drop i te) ''chunked'' (length ''chunked'')"
      "i = 0 \<or> c_isspace (cget te (i - 1)) \<or> cget te (i - 1) = CHR '',''"
    using a i n by (auto simp: find_last_token_def Let_def split: if_splits)
  have "strcaseeq (drop i te) ''chunked''" using strncaseeq_full [OF _ c(1)] i by simp
  with c(2) i show ?thesis by (auto simp: chunked_last_def Let_def cget_def split: if_splits)
qed

lemma chunked_last_merged: "chunked_last (v @ '', chunked'')"
  by (simp add: chunked_last_def strcaseeq_def c_isspace_def nth_append)

lemma merged_chunked: "\<exists>te. hdr_merge ''Transfer-Encoding'' ''chunked'' t ''Transfer-Encoding'' = Some te \<and> chunked_last te"
proof (cases "t ''Transfer-Encoding''")
  case None
  then show ?thesis by (simp add: hdr_merge_def chunked_last_def strcaseeq_def)
next
  case (Some v)
  then show ?thesis using chunked_last_merged [of v] by (simp add: hdr_merge_def)
qed

lemma set_keepalive_kept:
  assumes "set_keepalive pm pn stopping r = (True, r')"
  shows "ka_before r" "ka_delimited r \<or> r_proto_num r \<ge> HTTP_VERSION 1 1" "ka_after stopping r"
    "conn_keepalive r' = AP_CONN_KEEPALIVE" "conn_keepalives r' = conn_keepalives r + 1"
    "r_chunked r' = (r_chunked r \<or> sets_chunked r)"
    "r_headers_out r' ''Content-Length'' = r_headers_out r ''Content-Length''"
    "r_headers_out r' ''Transfer-Encoding'' = r_headers_out r ''Transfer-Encoding''"
proof -
  show c: "ka_before r" "ka_delimited r \<or> r_proto_num r \<ge> HTTP_VERSION 1 1" "ka_after stopping r"
    using assms by (auto simp: set_keepalive_def Let_def split: if_splits)
  show "conn_keepalive r' = AP_CONN_KEEPALIVE" "conn_keepalives r' = conn_keepalives r + 1"
    "r_chunked r' = (r_chunked r \<or> sets_chunked r)"
    "r_headers_out r' ''Content-Length'' = r_headers_out r ''Content-Length''"
    "r_headers_out r' ''Transfer-Encoding'' = r_headers_out r ''Transfer-Encoding''"
    using assms c by (auto simp: set_keepalive_def Let_def hdr_merge_def hdr_set_def split: if_splits)
qed

text \<open>
  C16. A connection is kept open only if the client can tell where the response body ends and
  may send its next request: whenever \<open>ap_set_keepalive\<close> returns 1, a client that reads the
  status and the fields of the response as RFC 2616 says finds its end without waiting for the
  end of the connection; the server itself chooses the chunked coding only for a client of
  HTTP/1.1; neither side has asked to close, the server allows persistence, and with a limit on
  the number of requests the count stays within it. A handler that sets both a Content-Length and a
  Transfer-Encoding is expected to end the latter in \<open>chunked\<close>.
\<close>

theorem set_keepalive_framing:
  assumes kept: "set_keepalive pm pn stopping r = (True, r')"
    and te: "\<And>te. r_headers_out r ''Transfer-Encoding'' = Some te \<Longrightarrow> r_headers_out r ''Content-Length'' \<noteq> None \<Longrightarrow> chunked_last te"
  shows "body_end (r_header_only r) (r_status r) (framing_fields r') \<noteq> WithConnection \<and>
     (r_chunked r' \<and> \<not> r_chunked r \<longrightarrow> r_proto_num r \<ge> HTTP_VERSION 1 1) \<and>
     \<not> r_expecting_100 r \<and> conn_keepalive r \<noteq> AP_CONN_CLOSE \<and>
     \<not> find_token (r_headers_in r ''Connection'') ''close'' \<and> \<not> find_token (r_headers_out r ''Connection'') ''close'' \<and>
     srv_keep_alive r \<and> \<not> stopping \<and> conn_keepalive r' = AP_CONN_KEEPALIVE \<and>
     conn_keepalives r' = conn_keepalives r + 1 \<and>
     (srv_keep_alive_max r \<noteq> 0 \<longrightarrow> conn_keepalives r' \<le> srv_keep_alive_max r)"
proof -
  note k = set_keepalive_kept [OF kept]
  have "body_end (r_header_only r) (r_status r) (framing_fields r') \<noteq> WithConnection"
  proof (cases "r_chunked r'")
    case True
    with merged_chunked [of "r_headers_out r'"] show ?thesis by (auto simp: body_end_def framing_fields_def)
  next
    case False
    then have "ka_delimited r" using k(1,2,6) by (auto simp: sets_chunked_def)
    then show ?thesis
      using False k(7,8) te find_last_token_chunked
      by (auto simp: ka_delimited_def body_end_def framing_fields_def HTTP_NO_CONTENT_def HTTP_NOT_MODIFIED_def
          find_last_token_def split: option.splits if_splits)
  qed
  then show ?thesis
    using k by (auto simp: ka_before_def ka_after_def sets_chunked_def ka_left_def ka_wimpy_def)
qed

definition sample_request :: request where
  "sample_request =
     \<lparr>r_status = 200, r_proto_num = 1001, r_method_number = 0, r_header_only = False, r_expecting_100 = False,
      r_chunked = False, r_no_local_copy = False, r_mtime = 1000000, r_request_time = 9000000,
      r_headers_in = [''If-None-Match'' \<mapsto> [DQUOTE, CHR ''x'', DQUOTE]],
      r_headers_out = [''ETag'' \<mapsto> [DQUOTE, CHR ''y'', DQUOTE]], r_env = Map.empty, conn_keepalive = AP_CONN_UNKNOWN,
      conn_keepalives = 0, srv_keep_alive = True, srv_keep_alive_timeout = 5000000, srv_keep_alive_max = 100\<rparr>"

lemma sample_kept: "fst (set_keepalive (\<lambda>_ _. []) (\<lambda>_. []) False sample_request)"
  by code_simp

theorem set_keepalive_framing_witness:
  "body_end False 200 (framing_fields (snd (set_keepalive (\<lambda>_ _. []) (\<lambda>_. []) False sample_request))) \<noteq> WithConnection \<and>
   srv_keep_alive sample_request"
proof -
  have "set_keepalive (\<lambda>_ _. []) (\<lambda>_. []) False sample_request =
      (True, snd (set_keepalive (\<lambda>_ _. []) (\<lambda>_. []) False sample_request))"
    using sample_kept by (metis prod.collapse)
  from set_keepalive_framing [OF this] show ?thesis by (simp add: sample_request_def)
qed

text \<open>
  A connection that is not kept is announced: whenever \<open>ap_set_keepalive\<close> returns 0 the
  state of the connection is closed and its response carries a Connection header in which
  \<open>close\<close> was found already or to which it has been appended.
\<close>

theorem set_keepalive_announces_close:
  assumes "set_keepalive pm pn stopping r = (False, r')"
  shows "conn_keepalive r' = AP_CONN_CLOSE \<and>
     (if find_token (r_headers_out r ''Connection'') ''close'' then r_headers_out r' = r_headers_out r
      else \<exists>v. r_headers_out r' ''Connection'' = Some (v @ ''close''))"
proof -
  have n: "\<not> (ka_before r \<and> (ka_delimited r \<or> r_proto_num r \<ge> HTTP_VERSION 1 1) \<and> ka_after stopping r)"
    using assms by (auto simp: set_keepalive_def Let_def split: if_splits)
  let ?out = "if \<not> ka_wimpy r then hdr_merge ''Connection'' ''close'' (r_headers_out r) else r_headers_out r"
  have "conn_keepalive r' = AP_CONN_CLOSE" "r_headers_out r' = ?out"
    using assms n by (auto simp: set_keepalive_def Let_def)
  moreover have "\<exists>v. hdr_merge ''Connection'' ''close'' t ''Connection'' = Some (v @ ''close'')" for t
    by (cases "t ''Connection''")
      (auto simp: hdr_merge_def intro: exI [of _ "[]"] exI [of _ "the (t ''Connection'') @ '', ''"])
  ultimately show ?thesis by (simp add: ka_wimpy_def)
qed

theorem set_keepalive_announces_close_witness:
  "conn_keepalive (snd (set_keepalive (\<lambda>_ _. []) (\<lambda>_. []) True sample_request)) = AP_CONN_CLOSE"
proof -
  have "set_keepalive (\<lambda>_ _. []) (\<lambda>_. []) True sample_request =
      (False, snd (set_keepalive (\<lambda>_ _. []) (\<lambda>_. []) True sample_request))"
    by (rule prod_eqI) (simp_all add: set_keepalive_def Let_def ka_after_def)
  from set_keepalive_announces_close [OF this] show ?thesis by blast
qed

section \<open>Conditional requests\<close>

text \<open>
  \<open>ap_meets_conditions\<close>, \<open>now\<close> being \<open>apr_time_now()\<close>. \<open>if_unmodified_since\<close> and
  \<open>none_match\<close> are its second and third step: \<open>Inl\<close> a status to return at once, \<open>Inr\<close> the value
  of \<open>not_modified\<close>.
\<close>

definition mc_match :: "(cstring \<Rightarrow> int) \<Rightarrow> request \<Rightarrow> int \<Rightarrow> cstring option \<Rightarrow> bool" where
  "mc_match date_parse r mtime etag =
     (case r_headers_in r ''If-Match'' of
        Some if_match \<Rightarrow>
          cget if_match 0 \<noteq> CHR ''*'' \<and>
          (case etag of None \<Rightarrow> True
           | Some e \<Rightarrow> cget e 0 = CHR ''W'' \<or> \<not> find_list_item (Some if_match) (Some e))
      | None \<Rightarrow>
          (case r_headers_in r ''If-Unmodified-Since'' of
             None \<Rightarrow> False
           | Some d \<Rightarrow> date_parse d \<noteq> 0 \<and> mtime > time_sec (date_parse d)))"

definition mc_none_match :: "request \<Rightarrow> cstring option \<Rightarrow> int + bool" where
  "mc_none_match r etag =
     (case r_headers_in r ''If-None-Match'' of
        None \<Rightarrow> Inr False
      | Some inm \<Rightarrow>
          if r_method_number r = M_GET then
            (if cget inm 0 = CHR ''*'' then Inr True
             else
               (case etag of
                  None \<Rightarrow> Inr False
                | Some e \<Rightarrow>
                    if r_headers_in r ''Range'' \<noteq> None
                    then Inr (cget e 0 \<noteq> CHR ''W'' \<and> find_list_item (Some inm) (Some e))
                    else Inr (find_list_item (Some inm) (Some e))))
          else if cget inm 0 = CHR ''*'' \<or> (etag \<noteq> None \<and> find_list_item (Some inm) etag)
          then Inl HTTP_PRECONDITION_FAILED
          else Inr False)"

definition meets_conditions :: "(cstring \<Rightarrow> int) \<Rightarrow> int \<Rightarrow> request \<Rightarrow> int" where
  "meets_conditions date_parse now r =
     (if \<not> is_HTTP_SUCCESS (r_status r) \<or> r_no_local_copy r then OK
      else
        (let etag = r_headers_out r ''ETag'';
             mtime = time_sec (if r_mtime r \<noteq> 0 then r_mtime r else now)
         in if mc_match date_parse r mtime etag then HTTP_PRECONDITION_FAILED
            else
              (case mc_none_match r etag of
                 Inl status \<Rightarrow> status
               | Inr not_modified \<Rightarrow>
                   (let not_modified' =
                          (if r_method_number r = M_GET \<and> (not_modified \<or> r_headers_in r ''If-None-Match'' = None) then
                             (case r_headers_in r ''If-Modified-Since'' of
                                None \<Rightarrow> not_modified
                              | Some d \<Rightarrow> (let ims = time_sec (date_parse d)
                                        in ims \<ge> mtime \<and> ims \<le> time_sec (r_request_time r)))
                           else not_modified)
                    in if not_modified' then HTTP_NOT_MODIFIED else OK))))"

lemmas meets_conditions_defs = meets_conditions_def mc_match_def mc_none_match_def Let_def
  OK_def HTTP_NOT_MODIFIED_def HTTP_PRECONDITION_FAILED_def

text \<open>
  \<open>ap_meets_conditions\<close> answers 304 only to a GET of a successful response, and an
  If-None-Match header takes precedence over a date: when it is present without a star and
  does not list the entity tag (or there is none), the answer is never 304, whatever
  If-Modified-Since says. It answers nothing but 0, 304 and 412.
\<close>

theorem meets_conditions_not_modified:
  "meets_conditions date_parse now r \<in> {OK, HTTP_NOT_MODIFIED, HTTP_PRECONDITION_FAILED} \<and>
   (meets_conditions date_parse now r = HTTP_NOT_MODIFIED \<longrightarrow>
      is_HTTP_SUCCESS (r_status r) \<and> r_method_number r = M_GET \<and>
      (case r_headers_in r ''If-None-Match'' of
         None \<Rightarrow> r_headers_in r ''If-Modified-Since'' \<noteq> None
       | Some inm \<Rightarrow> cget inm 0 = CHR ''*'' \<or>
           (\<exists>e. r_headers_out r ''ETag'' = Some e \<and> find_list_item (Some inm) (Some e))))"
proof -
  have nm: "mc_none_match r etag = Inr True \<Longrightarrow> r_method_number r = M_GET \<and>
     (\<exists>inm. r_headers_in r ''If-None-Match'' = Some inm \<and>
        (cget inm 0 = CHR ''*'' \<or> (\<exists>e. etag = Some e \<and> find_list_item (Some inm) (Some e))))" for etag
    by (auto simp: mc_none_match_def split: option.splits if_splits)
  have inl: "mc_none_match r etag = Inl s \<Longrightarrow> s = HTTP_PRECONDITION_FAILED" for etag s
    by (auto simp: mc_none_match_def split: option.splits if_splits)
  show ?thesis
  proof (cases "mc_none_match r (r_headers_out r ''ETag'')")
    case (Inl s)
    with inl [OF Inl] show ?thesis
      by (auto simp: meets_conditions_def Let_def OK_def HTTP_NOT_MODIFIED_def HTTP_PRECONDITION_FAILED_def)
  next
    case (Inr b)
    with nm [of "r_headers_out r ''ETag''"] show ?thesis
      by (cases b) (auto simp: meets_conditions_def Let_def OK_def HTTP_NOT_MODIFIED_def
          HTTP_PRECONDITION_FAILED_def split: option.splits if_splits)
  qed
qed

theorem meets_conditions_not_modified_witness:
  "meets_conditions (\<lambda>_. 0) 0 sample_request \<in> {OK, HTTP_NOT_MODIFIED, HTTP_PRECONDITION_FAILED} \<and>
   meets_conditions (\<lambda>_. 0) 0 (sample_request\<lparr>r_headers_in := [''If-None-Match'' \<mapsto> ''*'']\<rparr>) = HTTP_NOT_MODIFIED"
  using meets_conditions_not_modified [of "\<lambda>_. 0" 0 sample_request]
  by (simp add: sample_request_def meets_conditions_defs is_HTTP_SUCCESS_def M_GET_def)

text \<open>
  \<open>ap_find_list_item\<close> takes \<open>tok\<close> in canonical form and folds everything outside quotes to
  lower case. The tag that is passed starts with a capital W when it is weak.
\<close>

lemma c_tolower_not_W: "c_tolower c \<noteq> CHR ''W''"
  using c_isupper_tolower [of c] by (auto simp: c_isupper_def ccode_def)

lemma find_step_W:
  assumes "\<not> is_list_sep c"
  shows "\<not> fst (snd (find_step item_start addspace (True, CHR ''W'' # t) c))"
proof -
  have c: "c \<noteq> CHR '' '' \<and> c \<noteq> TAB" using assms by (auto simp: is_list_sep_def c_isspace_def ccode_def)
  have w: "c_tolower c \<noteq> CHR ''W''" by (rule c_tolower_not_W)
  show ?thesis
  proof (cases "addspace = 1")
    case True
    then show ?thesis using c w by (simp add: find_step_def item_start_def Let_def good_match_def)
  next
    case False
    then show ?thesis using c w by (simp add: find_step_def item_start_def Let_def good_match_def)
  qed
qed

lemma find_item_bad: "\<not> fst gp \<Longrightarrow> \<not> fst (fst (snd (find_item st addspace gp ptr)))"
proof (induction st addspace gp ptr rule: find_item.induct)
  case (2 st addspace gp c ptr)
  obtain a g where f: "find_step st addspace gp c = (a, g)" by (rule prod.exhaust)
  with find_step_bad [OF 2(2), of st addspace c] have "\<not> fst g" by simp
  with 2 f show ?case by auto
qed simp

lemma find_list_loop_W: "\<not> find_list_loop addspace (CHR ''W'' # t) ptr"
proof (induction "length ptr" arbitrary: addspace ptr rule: less_induct)
  case less
  show ?case
  proof (cases "dropWhile is_list_sep ptr")
    case Nil
    then show ?thesis by (subst find_list_loop.simps) (simp only: list.case simp_thms)
  next
    case (Cons c s)
    note sep = dropWhile_Cons_not [OF Cons]
    have nc: "c \<noteq> CHR '',''" using sep by (auto simp: is_list_sep_def)
    obtain a' good pos rest where f: "find_item item_start addspace (True, CHR ''W'' # t) (c # s) = (a', (good, pos), rest)"
      by (metis prod.exhaust)
    obtain a1 g1 where g: "find_step item_start addspace (True, CHR ''W'' # t) c = (a1, g1)" by (rule prod.exhaust)
    have "\<not> fst g1" using find_step_W [OF sep, of addspace t] g by simp
    then have "\<not> fst (fst (snd (find_item (item_step item_start c) a1 g1 s)))" by (rule find_item_bad)
    then have good: "\<not> good" using f g nc by simp
    have "length rest < length ptr"
      using find_item_rest_less [OF nc, of item_start addspace "(True, CHR ''W'' # t)" s] f dropWhile_Cons_less [OF Cons]
      by simp
    from less.hyps [OF this] good show ?thesis
      by (subst find_list_loop.simps) (simp only: Cons list.case f prod.case Let_def simp_thms if_False, simp)
  qed
qed

text \<open>
  A weak entity tag never matches anything: although the comment in \<open>ap_meets_conditions\<close>
  allows weak comparison for GET, \<open>ap_find_list_item\<close> fails for every header value, a list of
  exactly this tag included, so that a GET with an If-None-Match header other than a star is
  never answered by 304 while the tag of the resource is weak.
\<close>

theorem weak_etag_never_matches:
  assumes "r_headers_out r ''ETag'' = Some (''W/'' @ t)" "r_headers_in r ''If-None-Match'' = Some inm" "cget inm 0 \<noteq> CHR ''*''"
  shows "\<not> find_list_item (Some inm) (Some (''W/'' @ t)) \<and> meets_conditions date_parse now r \<noteq> HTTP_NOT_MODIFIED"
proof -
  have n: "\<not> find_list_item (Some inm) (Some (''W/'' @ t))"
    using find_list_loop_W [of 0 "CHR ''/'' # t" inm] by (simp add: find_list_item_def)
  have "mc_none_match r (r_headers_out r ''ETag'') \<noteq> Inr True"
    using assms n by (auto simp: mc_none_match_def)
  then have "mc_none_match r (r_headers_out r ''ETag'') = Inr False \<or>
      mc_none_match r (r_headers_out r ''ETag'') = Inl HTTP_PRECONDITION_FAILED"
    by (auto simp: mc_none_match_def split: option.splits if_splits)
  with n assms(2) show ?thesis
    by (auto simp: meets_conditions_def Let_def OK_def HTTP_NOT_MODIFIED_def HTTP_PRECONDITION_FAILED_def)
qed

definition weak_request :: request where
  "weak_request = sample_request\<lparr>r_headers_in := [''If-None-Match'' \<mapsto> ''W/'' @ [DQUOTE, CHR ''x'', DQUOTE]],
      r_headers_out := [''ETag'' \<mapsto> ''W/'' @ [DQUOTE, CHR ''x'', DQUOTE]]\<rparr>"

theorem weak_etag_never_matches_witness:
  "\<not> find_list_item (Some (''W/'' @ [DQUOTE, CHR ''x'', DQUOTE])) (Some (''W/'' @ [DQUOTE, CHR ''x'', DQUOTE])) \<and>
   meets_conditions (\<lambda>_. 0) 0 weak_request \<noteq> HTTP_NOT_MODIFIED"
  by (rule weak_etag_never_matches) (simp_all add: weak_request_def)

end
