(* ===== verification/Http_Etag.thy ===== *)
theory Http_Etag
  imports Http_Cond Util_Escape
begin

text \<open>
  Entity tags of files, \<open>modules/http/http_etag.c\<close>: \<open>etag_uint64_to_hex\<close>, \<open>ap_make_etag\<close> and
  \<open>ap_set_etag\<close>. Inode, size and modification time are printed as 64-bit numbers.
\<close>

section \<open>Hexadecimal numbers\<close>

text \<open>The digit at a shift, and the loop for the shifts \<open>4 * k\<close> down to 4.\<close>

definition next_digit :: "u64 \<Rightarrow> nat \<Rightarrow> nat" where
  "next_digit u shift = unat (and (drop_bit shift u) 0xf)"

fun hex_loop :: "u64 \<Rightarrow> bool \<Rightarrow> nat \<Rightarrow> cstring" where
  "hex_loop u printing 0 = []"
| "hex_loop u printing (Suc k) =
     (let d = next_digit u (4 * Suc k)
      in if d \<noteq> 0 \<or> printing then c2x_digit d # hex_loop u True k else hex_loop u printing k)"

definition etag_uint64_to_hex :: "u64 \<Rightarrow> cstring" where
  "etag_uint64_to_hex u = hex_loop u False 15 @ [c2x_digit (unat (and u 0xf))]"

section \<open>Making a tag\<close>


definition ETAG_UNSET :: u32 where "ETAG_UNSET = 0"
definition ETAG_NONE :: u32 where "ETAG_NONE = 1"
definition ETAG_MTIME :: u32 where "ETAG_MTIME = 2"
definition ETAG_INODE :: u32 where "ETAG_INODE = 4"
definition ETAG_SIZE :: u32 where "ETAG_SIZE = 8"
definition ETAG_BACKWARD :: u32 where "ETAG_BACKWARD = or ETAG_MTIME (or ETAG_INODE ETAG_SIZE)"

text \<open>\<open>r->finfo\<close>: \<open>None\<close> when \<open>filetype\<close> is 0, else inode and size.\<close>

record etag_conf =
  etag_bits :: u32
  etag_remove :: u32
  etag_add :: u32

definition conf_bits :: "etag_conf \<Rightarrow> u32" where
  "conf_bits cfg =
     (let bits = or (and (etag_bits cfg) (not (etag_remove cfg))) (etag_add cfg)
      in if and bits ETAG_NONE = 0 \<and> bits = ETAG_UNSET then ETAG_BACKWARD else bits)"

definition is_weak :: "request \<Rightarrow> bool \<Rightarrow> bool" where
  "is_weak r force_weak \<longleftrightarrow> \<not> (r_request_time r - r_mtime r > 1000000 \<and> \<not> force_weak)"

text \<open>The three parts of the tag of a file, with a dash in front of all but the first one.\<close>

definition etag_parts :: "u32 \<Rightarrow> u64 \<Rightarrow> u64 \<Rightarrow> u64 \<Rightarrow> cstring" where
  "etag_parts bits inode fsize mtime =
     (let inode_set = (and bits ETAG_INODE \<noteq> 0);
          size_set = (and bits ETAG_SIZE \<noteq> 0)
      in (if inode_set then etag_uint64_to_hex inode else []) @
         (if size_set then (if inode_set then ''-'' else []) @ etag_uint64_to_hex fsize else []) @
         (if and bits ETAG_MTIME \<noteq> 0
          then (if inode_set \<or> size_set then ''-'' else []) @ etag_uint64_to_hex mtime else []))"

text \<open>The empty string tells that no tag is wanted; the note \<open>no-etag\<close> is left out.\<close>

definition make_etag :: "etag_conf \<Rightarrow> (u64 \<times> u64) option \<Rightarrow> request \<Rightarrow> bool \<Rightarrow> cstring" where
  "make_etag cfg finfo r force_weak =
     (let bits = conf_bits cfg;
          weak = (if is_weak r force_weak then ''W/'' else []);
          mtime = (word_of_int (r_mtime r) :: u64)
      in if and bits ETAG_NONE \<noteq> 0 then []
         else
           weak @ [DQUOTE] @
           (case finfo of
              Some (inode, fsize) \<Rightarrow> etag_parts bits inode fsize mtime
            | None \<Rightarrow> etag_uint64_to_hex mtime) @ [DQUOTE])"

text \<open>\<open>apr_palloc\<close>: the size of the buffer in \<open>ap_make_etag\<close>, with \<open>sizeof\<close> of the literals.\<close>

definition etag_buffer :: "(u64 \<times> u64) option \<Rightarrow> bool \<Rightarrow> nat" where
  "etag_buffer finfo weak =
     (let weak_len = (if weak then 3 else 0)
      in case finfo of Some _ \<Rightarrow> weak_len + 5 + 3 * 16 + 1 | None \<Rightarrow> weak_len + 3 + 16 + 1)"

definition set_etag :: "etag_conf \<Rightarrow> (u64 \<times> u64) option \<Rightarrow> cstring option \<Rightarrow> request \<Rightarrow> request" where
  "set_etag cfg finfo vlist_validator r =
     (case vlist_validator of
        None \<Rightarrow>
          (let etag = make_etag cfg finfo r False
           in if etag = [] then r else r\<lparr>r_headers_out := hdr_set ''ETag'' etag (r_headers_out r)\<rparr>)
      | Some vlv \<Rightarrow>
          (let vlv_weak = (cget vlv 0 = CHR ''W'');
               variant_etag = make_etag cfg finfo r vlv_weak
           in if variant_etag = [] then r
              else
                (let etag = butlast variant_etag @ '';'' @ drop (if vlv_weak then 3 else 1) vlv
                 in r\<lparr>r_headers_out := hdr_set ''ETag'' etag (r_headers_out r)\<rparr>)))"

section \<open>Reading a number back\<close>

definition hex_value :: "cstring \<Rightarrow> nat" where
  "hex_value s = foldl (\<lambda>v c. 16 * v + (if c_isdigit c then ccode c - 48 else ccode c - 87)) 0 s"

lemma hex_value_snoc:
  "d < 16 \<Longrightarrow> hex_value (s @ [c2x_digit d]) = 16 * hex_value s + d"
proof -
  assume "d < 16"
  moreover have "list_all (\<lambda>d. (if c_isdigit (c2x_digit d) then ccode (c2x_digit d) - 48
      else ccode (c2x_digit d) - 87) = d) [0..<16]" by code_simp
  ultimately show ?thesis by (simp add: hex_value_def list_all_iff)
qed

lemma next_digit_nat: "next_digit u shift = unat u div 2 ^ shift mod 16"
proof -
  have "and (drop_bit shift u) 0xf = take_bit 4 (drop_bit shift u)"
    by (simp add: take_bit_eq_mask mask_eq_exp_minus_1)
  then have "next_digit u shift = unat (take_bit 4 (drop_bit shift u))" by (simp only: next_digit_def)
  also have "\<dots> = unat u div 2 ^ shift mod 2 ^ 4"
    by (subst unsigned_take_bit_eq, subst unat_drop_bit_eq) (simp only: take_bit_eq_mod drop_bit_eq_div)
  finally show ?thesis by simp
qed

lemma next_digit_less: "next_digit u shift < 16"
  by (simp add: next_digit_nat)

lemma hex_loop_value:
  "(\<not> printing \<Longrightarrow> s = []) \<Longrightarrow> hex_value s = unat u div 16 ^ Suc k \<Longrightarrow>
     hex_value (s @ hex_loop u printing k) = unat u div 16"
proof (induction k arbitrary: s printing)
  case (Suc k)
  let ?d = "next_digit u (4 * Suc k)"
  have d: "?d = unat u div 16 ^ Suc k mod 16" by (simp only: next_digit_nat power_mult) simp
  have step: "16 * (unat u div 16 ^ Suc (Suc k)) + ?d = unat u div 16 ^ Suc k"
    unfolding d by (simp only: power_Suc2 [of 16 "Suc k"] div_mult2_eq mult_div_mod_eq)
  show ?case
  proof (cases "?d \<noteq> 0 \<or> printing")
    case True
    have "hex_value (s @ [c2x_digit ?d]) = unat u div 16 ^ Suc k"
      using hex_value_snoc [OF next_digit_less, of s u "4 * Suc k"] Suc.prems(2) step by simp
    from Suc.IH [OF _ this, of True] True show ?thesis by (simp only: hex_loop.simps Let_def if_True) simp
  next
    case False
    then have s: "s = []" "?d = 0" "\<not> printing" using Suc.prems(1) by auto
    then have "unat u div 16 ^ Suc (Suc k) = 0" using Suc.prems(2) by (simp add: hex_value_def)
    then have "hex_value s = unat u div 16 ^ Suc k" using step s by (simp add: hex_value_def)
    from Suc.IH [OF Suc.prems(1) this] s(2,3) show ?thesis by (simp only: hex_loop.simps Let_def simp_thms if_False)
  qed
qed simp

lemma unat_last_digit: "unat (and (u :: u64) 0xf) = unat u mod 16"
  using next_digit_nat [of u 0] by (simp add: next_digit_def)

lemma hex_roundtrip: "hex_value (etag_uint64_to_hex u) = unat u"
proof -
  have "unat u < 2 ^ 64" by (rule order_less_le_trans [OF unsigned_less]) simp
  then have "unat u div 16 ^ Suc 15 = 0" by simp
  then have "hex_value (hex_loop u False 15) = unat u div 16"
    using hex_loop_value [of False "[]" u 15] by (simp add: hex_value_def)
  then show ?thesis
    by (simp add: etag_uint64_to_hex_def unat_last_digit hex_value_snoc)
qed

lemma hex_loop_length: "length (hex_loop u printing k) \<le> k"
  by (induction u printing k rule: hex_loop.induct) (auto simp: Let_def le_SucI)

lemma hex_length: "length (etag_uint64_to_hex u) \<le> 16"
  using hex_loop_length [of u False 15] by (simp add: etag_uint64_to_hex_def)

lemma digit_plain: "d < 16 \<Longrightarrow> c2x_digit d \<noteq> CHR ''-'' \<and> c2x_digit d \<noteq> DQUOTE"
proof -
  assume "d < 16"
  moreover have "list_all (\<lambda>d. c2x_digit d \<noteq> CHR ''-'' \<and> c2x_digit d \<noteq> DQUOTE) [0..<16]" by code_simp
  ultimately show ?thesis by (simp add: list_all_iff)
qed

lemma hex_loop_plain: "CHR ''-'' \<notin> set (hex_loop u printing k) \<and> DQUOTE \<notin> set (hex_loop u printing k)"
proof (induction u printing k rule: hex_loop.induct)
  case (2 u printing k)
  show ?case using 2 digit_plain [OF next_digit_less, of u "4 * Suc k"]
    by (simp only: hex_loop.simps Let_def split: if_split) (auto simp del: mult_Suc_right)
qed simp

lemma hex_plain: "CHR ''-'' \<notin> set (etag_uint64_to_hex u)"
  using hex_loop_plain [of u False 15] digit_plain [of "unat (and u 0xf)"]
  by (auto simp: etag_uint64_to_hex_def unat_last_digit)

lemma hex_inject: "etag_uint64_to_hex u = etag_uint64_to_hex v \<longleftrightarrow> u = v"
  using hex_roundtrip [of u] hex_roundtrip [of v] by (metis word_unat_eq_iff)

lemma split_at_first: "c \<notin> set a \<Longrightarrow> c \<notin> set b \<Longrightarrow> a @ c # x = b @ c # y \<longleftrightarrow> a = b \<and> x = y"
proof (induction a arbitrary: b)
  case Nil
  then show ?case by (cases b) auto
next
  case (Cons d a)
  then show ?case by (cases b) auto
qed

text \<open>
  The number printed by \<open>etag_uint64_to_hex\<close> is the hexadecimal form of its argument: it
  reads back as the same 64-bit number and has at most 16 digits.
\<close>

theorem etag_hex_roundtrip:
  "hex_value (etag_uint64_to_hex u) = unat u \<and> length (etag_uint64_to_hex u) \<le> 16"
  by (simp add: hex_roundtrip hex_length)

text \<open>
  \<open>ap_make_etag\<close> never writes past the buffer it allocates, whatever components of the tag
  are configured, terminator included.
\<close>

theorem make_etag_fits:
  "length (make_etag cfg finfo r force_weak) + 1 \<le> etag_buffer finfo (is_weak r force_weak)"
proof (cases finfo)
  case None
  then show ?thesis using hex_length [of "word_of_int (r_mtime r)"]
    by (simp add: make_etag_def etag_buffer_def Let_def)
next
  case (Some f)
  obtain i s where f: "f = (i, s)" by (rule prod.exhaust)
  let ?m = "word_of_int (r_mtime r) :: u64"
  have "length (etag_parts (conf_bits cfg) i s ?m) \<le> 50"
    using hex_length [of i] hex_length [of s] hex_length [of ?m] by (simp add: etag_parts_def Let_def)
  then show ?thesis using Some f by (simp add: make_etag_def etag_buffer_def Let_def)
qed

text \<open>
  With the default components the tag identifies the state of a file: two tags are equal
  only if inode, size, modification time and weakness are, and a tag is strong only when the
  file was last changed more than a second before the request.
\<close>

theorem make_etag_injective:
  assumes "conf_bits cfg = ETAG_BACKWARD"
    and "make_etag cfg (Some (i, s)) r fw = make_etag cfg (Some (i', s')) r' fw'"
  shows "i = i' \<and> s = s' \<and> (word_of_int (r_mtime r) :: u64) = word_of_int (r_mtime r') \<and>
     is_weak r fw = is_weak r' fw' \<and> (\<not> is_weak r fw \<longrightarrow> r_request_time r - r_mtime r > 1000000)"
proof -
  let ?m = "word_of_int (r_mtime r) :: u64" and ?m' = "word_of_int (r_mtime r') :: u64"
  have tag: "make_etag cfg (Some (i, s)) r fw =
      (if is_weak r fw then ''W/'' else []) @ DQUOTE # (etag_uint64_to_hex i @ CHR ''-'' # etag_uint64_to_hex s @ CHR ''-'' # etag_uint64_to_hex (word_of_int (r_mtime r))) @ [DQUOTE]" for i s r fw
    by (simp add: make_etag_def assms(1) Let_def etag_parts_def ETAG_BACKWARD_def ETAG_NONE_def ETAG_MTIME_def
        ETAG_INODE_def ETAG_SIZE_def)
  have w: "is_weak r fw = is_weak r' fw'" using assms(2) unfolding tag by (simp split: if_splits)
  have "etag_uint64_to_hex i @ CHR ''-'' # etag_uint64_to_hex s @ CHR ''-'' # etag_uint64_to_hex ?m =
        etag_uint64_to_hex i' @ CHR ''-'' # etag_uint64_to_hex s' @ CHR ''-'' # etag_uint64_to_hex ?m'"
    using assms(2) w unfolding tag by simp
  then have "i = i' \<and> s = s' \<and> ?m = ?m'" by (simp add: split_at_first hex_plain hex_inject)
  with w show ?thesis by (auto simp: is_weak_def)
qed

definition sample_etag_conf :: etag_conf where
  "sample_etag_conf = \<lparr>etag_bits = 0, etag_remove = 0, etag_add = 0\<rparr>"

definition later_request :: request where
  "later_request = sample_request\<lparr>r_request_time := r_mtime sample_request + 5000000\<rparr>"

theorem make_etag_injective_witness:
  "make_etag sample_etag_conf (Some (7, 300)) later_request False =
     make_etag sample_etag_conf (Some (7, 300)) (later_request\<lparr>r_status := 404\<rparr>) False \<and>
   is_weak later_request False = is_weak (later_request\<lparr>r_status := 404\<rparr>) False \<and>
   r_request_time later_request - r_mtime later_request > 1000000"
proof -
  have e: "make_etag sample_etag_conf (Some (7, 300)) later_request False =
     make_etag sample_etag_conf (Some (7, 300)) (later_request\<lparr>r_status := 404\<rparr>) False"
    by (simp add: make_etag_def is_weak_def)
  have "\<not> is_weak later_request False" by (simp add: is_weak_def later_request_def)
  with make_etag_injective [OF _ e] e show ?thesis
    by (simp add: conf_bits_def sample_etag_conf_def ETAG_UNSET_def)
qed

end
