(* ===== verification/Libc.thy ===== *)
theory Libc
  imports Prelude
begin

text \<open>
  The number conversions of the C library that the components use, in base 10: \<open>strtoll\<close>, by
  which \<open>apr_strtoff\<close> (\<open>srclib/apr/strings/apr_strings.c\<close>) reads an offset, \<open>atoi\<close>, and the
  formats \<open>%d\<close> and \<open>%x\<close> of \<open>apr_psprintf\<close>. The lemmas say that what is printed reads back.
\<close>

section \<open>Reading\<close>

definition dec_value :: "cstring \<Rightarrow> nat" where
  "dec_value ds = foldl (\<lambda>n c. 10 * n + (ccode c - 48)) 0 ds"

text \<open>
  \<open>strtoll\<close>: the value, whether \<open>errno\<close> is set (\<open>ERANGE\<close>), and the text at \<open>endptr\<close>, all of the
  argument when there is no number.
\<close>

definition strtoll :: "cstring \<Rightarrow> int \<times> bool \<times> cstring" where
  "strtoll s =
     (let s1 = dropWhile c_isspace s;
          neg = (cget s1 0 = CHR ''-'');
          s2 = (if neg \<or> cget s1 0 = CHR ''+'' then tl s1 else s1);
          ds = takeWhile c_isdigit s2;
          v = (if neg then - int (dec_value ds) else int (dec_value ds));
          rest = dropWhile c_isdigit s2
      in if ds = [] then (0, False, s)
         else if v < - (2 ^ 63) then (- (2 ^ 63), True, rest)
         else if v \<ge> 2 ^ 63 then (2 ^ 63 - 1, True, rest)
         else (v, False, rest))"

definition apr_strtoff :: "cstring \<Rightarrow> int \<times> bool \<times> cstring" where
  "apr_strtoff nptr = strtoll nptr"

section \<open>Printing\<close>

fun fmt_nat :: "nat \<Rightarrow> cstring" where
  "fmt_nat n = (if n < 10 then [char_of (48 + n)] else fmt_nat (n div 10) @ [char_of (48 + n mod 10)])"

definition fmt_int :: "int \<Rightarrow> cstring" where
  "fmt_int i = (if i < 0 then CHR ''-'' # fmt_nat (nat (- i)) else fmt_nat (nat i))"

declare fmt_nat.simps [simp del]

section \<open>What is printed reads back\<close>

lemma dec_value_snoc [simp]: "dec_value (ds @ [c]) = 10 * dec_value ds + (ccode c - 48)"
  by (simp add: dec_value_def)

lemma digit_char: "n < 10 \<Longrightarrow> c_isdigit (char_of (48 + n :: nat))"
  by (simp add: c_isdigit_def)

lemma fmt_nat_digits: "list_all c_isdigit (fmt_nat n)"
  by (induction n rule: fmt_nat.induct) (subst fmt_nat.simps, auto simp: digit_char)

lemma fmt_nat_ne [simp]: "fmt_nat n \<noteq> []"
  by (subst fmt_nat.simps) simp

lemma dec_value_fmt [simp]: "dec_value (fmt_nat n) = n"
proof (induction n rule: fmt_nat.induct)
  case (1 n)
  show ?case
  proof (cases "n < 10")
    case True
    then show ?thesis by (subst fmt_nat.simps) (simp add: dec_value_def)
  next
    case False
    have "ccode (char_of (48 + n mod 10 :: nat)) - 48 = n mod 10" by simp
    with False 1 show ?thesis by (subst fmt_nat.simps) simp
  qed
qed

lemma digits_span:
  assumes "list_all c_isdigit ds" "rest = [] \<or> \<not> c_isdigit (hd rest)"
  shows "takeWhile c_isdigit (ds @ rest) = ds" "dropWhile c_isdigit (ds @ rest) = rest"
proof -
  have "takeWhile c_isdigit rest = []" "dropWhile c_isdigit rest = rest"
    using assms(2) by (cases rest; simp)+
  then show "takeWhile c_isdigit (ds @ rest) = ds" "dropWhile c_isdigit (ds @ rest) = rest"
    using assms(1) by (induction ds) auto
qed

lemma digit_not_special:
  "c_isdigit c \<Longrightarrow> \<not> c_isspace c \<and> c \<noteq> CHR ''-'' \<and> c \<noteq> CHR ''+'' \<and> c \<noteq> CHR '',''"
  by (auto simp: c_class_defs)

lemma strtoll_fmt_nat:
  assumes "int n < 2 ^ 63" "rest = [] \<or> \<not> c_isdigit (hd rest)"
  shows "strtoll (fmt_nat n @ rest) = (int n, False, rest)"
proof -
  obtain c ds where f: "fmt_nat n = c # ds" by (cases "fmt_nat n") simp_all
  have d: "c_isdigit c" using fmt_nat_digits [of n] by (simp add: f)
  have sp: "dropWhile c_isspace (fmt_nat n @ rest) = fmt_nat n @ rest"
    using digit_not_special [OF d] by (simp add: f)
  have g: "cget (fmt_nat n @ rest) 0 = c" by (simp add: f)
  show ?thesis
    using assms(1) digit_not_special [OF d] digits_span [OF fmt_nat_digits assms(2), of n]
    unfolding strtoll_def sp g Let_def by simp
qed

lemma cget_0_notin: "c \<notin> set t \<Longrightarrow> c \<noteq> NUL \<Longrightarrow> cget t 0 \<noteq> c"
  by (cases t) auto

lemma strtoll_nonneg: "CHR ''-'' \<notin> set s \<Longrightarrow> 0 \<le> fst (strtoll s)"
proof -
  assume "CHR ''-'' \<notin> set s"
  then have "CHR ''-'' \<notin> set (dropWhile c_isspace s)" by (auto dest: set_dropWhileD)
  then have "cget (dropWhile c_isspace s) 0 \<noteq> CHR ''-''"
    by (rule cget_0_notin) simp
  then show ?thesis by (simp add: strtoll_def Let_def)
qed

section \<open>Hexadecimal numbers\<close>

definition hex_digit_value :: "char \<Rightarrow> nat" where
  "hex_digit_value c =
     (if c_isdigit c then ccode c - 48
      else if 65 \<le> ccode c \<and> ccode c \<le> 70 then ccode c - 65 + 10
      else if 97 \<le> ccode c \<and> ccode c \<le> 102 then ccode c - 97 + 10
      else 0)"

definition hex_number :: "cstring \<Rightarrow> nat" where
  "hex_number ds = foldl (\<lambda>n c. 16 * n + hex_digit_value c) 0 ds"

text \<open>The format \<open>%llx\<close>.\<close>

definition hex_char :: "nat \<Rightarrow> char" where
  "hex_char d = (if d < 10 then char_of (48 + d) else char_of (87 + d))"

fun fmt_hex :: "nat \<Rightarrow> cstring" where
  "fmt_hex n = (if n < 16 then [hex_char n] else fmt_hex (n div 16) @ [hex_char (n mod 16)])"

declare fmt_hex.simps [simp del]

lemma hex_char_value: "d < 16 \<Longrightarrow> c_isxdigit (hex_char d) \<and> hex_digit_value (hex_char d) = d"
  by (auto simp: hex_char_def c_isxdigit_def c_isdigit_def hex_digit_value_def)

lemma hex_digit_less: "hex_digit_value c < 16"
  unfolding hex_digit_value_def c_isdigit_def by (cases "ccode c \<le> 57"; cases "ccode c \<le> 70"; simp; linarith)

lemma hex_number_snoc [simp]: "hex_number (ds @ [c]) = 16 * hex_number ds + hex_digit_value c"
  by (simp add: hex_number_def)

lemma fmt_hex_number: "hex_number (fmt_hex n) = n \<and> list_all c_isxdigit (fmt_hex n) \<and> fmt_hex n \<noteq> []"
proof (induction n rule: fmt_hex.induct)
  case (1 n)
  show ?case
  proof (cases "n < 16")
    case True
    then show ?thesis using hex_char_value [of n] by (simp add: fmt_hex.simps [of n] hex_number_def)
  next
    case False
    then show ?thesis using 1 hex_char_value [of "n mod 16"] by (simp add: fmt_hex.simps [of n])
  qed
qed

lemma fmt_hex_length: "n < 16 ^ k \<Longrightarrow> 0 < k \<Longrightarrow> length (fmt_hex n) \<le> k"
proof (induction k arbitrary: n)
  case (Suc k)
  show ?case
  proof (cases "n < 16")
    case True
    then show ?thesis by (simp add: fmt_hex.simps [of n])
  next
    case False
    then have "0 < k" using Suc.prems by (cases k) auto
    moreover have "n div 16 < 16 ^ k" using Suc.prems(1) by (simp add: less_mult_imp_div_less mult.commute)
    ultimately show ?thesis using Suc.IH [of "n div 16"] False by (simp add: fmt_hex.simps [of n])
  qed
qed simp

end
