(* ===== verification/Http_Range.thy ===== *)
theory Http_Range
  imports Http_Cond Util_Word Libc
begin

text \<open>
  Byte ranges, \<open>modules/http/byterange_filter.c\<close>: the parser of the Range header
  (\<open>ap_set_byterange\<close>), the copying of a range of bytes out of a brigade
  (\<open>copy_brigade_range\<close>), and the output filter. A brigade is the list of its buckets;
  \<open>apr_bucket_split\<close> cuts the bytes of a bucket in two and fails behind its end. Offsets are
  integers: every sum the code builds is bounded by the length of the content, but
  \<open>sum_lengths\<close>, of which the header would have to name more than \<open>2 ^ 63\<close> bytes.
\<close>

record brequest = request +
  r_assbackwards :: bool
  r_range :: "cstring option"
  r_content_type :: cstring

definition HTTP_PARTIAL_CONTENT :: int where "HTTP_PARTIAL_CONTENT = 206"
definition HTTP_RANGE_NOT_SATISFIABLE :: int where "HTTP_RANGE_NOT_SATISFIABLE = 416"

section \<open>The Range header\<close>

datatype range_spec = Invalid | Unsatisfiable | Range int int

text \<open>The end of the loop body: the range is fitted into the content.\<close>

definition clamp_range :: "int \<Rightarrow> int \<Rightarrow> int \<Rightarrow> range_spec" where
  "clamp_range clength start fin =
     (let start' = (if start < 0 then 0 else start)
      in if start' \<ge> clength then Unsatisfiable
         else Range start' (if fin \<ge> clength then clength - 1 else fin))"

definition parse_spec :: "int \<Rightarrow> cstring \<Rightarrow> range_spec" where
  "parse_spec clength cur =
     (case strchr cur (CHR ''-'') of
        None \<Rightarrow> Invalid
      | Some d \<Rightarrow>
          if d = 0 then
            (case apr_strtoff (tl cur) of
               (number, err, errp) \<Rightarrow>
                 if err \<or> errp \<noteq> [] then Invalid
                 else if number < 1 then Invalid
                 else clamp_range clength (clength - number) (clength - 1))
          else
            (case apr_strtoff (take d cur) of
               (start, err, errp) \<Rightarrow>
                 if err \<or> errp \<noteq> [] then Invalid
                 else
                   (let dash = drop (d + 1) cur
                    in if dash \<noteq> [] then
                         (case apr_strtoff dash of
                            (fin, err, errp) \<Rightarrow>
                              if err \<or> errp \<noteq> [] then Invalid
                              else if start > fin then Invalid
                              else clamp_range clength start fin)
                       else clamp_range clength start (clength - 1))))"

text \<open>
  The loop over the ranges: \<open>None\<close> when it returns 0, else the pairs pushed to \<open>indexes\<close> and
  the flag \<open>unsatisfiable\<close>.
\<close>

function range_loop :: "int \<Rightarrow> cstring \<Rightarrow> ((int \<times> int) list \<times> bool) option" where
  "range_loop clength rng =
     (let cur = fst (getword rng (CHR '','')); rest = snd (getword rng (CHR '',''))
      in if cur = [] then Some ([], False)
         else case parse_spec clength cur of
             Invalid \<Rightarrow> None
           | Unsatisfiable \<Rightarrow> (case range_loop clength rest of None \<Rightarrow> None | Some (xs, u) \<Rightarrow> Some (xs, True))
           | Range s e \<Rightarrow> (case range_loop clength rest of None \<Rightarrow> None | Some (xs, u) \<Rightarrow> Some ((s, e) # xs, u)))"
  by auto

lemma getword_rest_less: "fst (getword rng stop) \<noteq> [] \<Longrightarrow> length (snd (getword rng stop)) < length rng"
proof -
  assume "fst (getword rng stop) \<noteq> []"
  then have ne: "takeWhile (\<lambda>c. c \<noteq> stop) rng \<noteq> []" by (simp add: getword_def Let_def)
  have "length (snd (getword rng stop)) \<le> length (dropWhile (\<lambda>c. c \<noteq> stop) rng)"
    by (simp add: getword_def Let_def)
  also have "\<dots> < length rng" using ne by (cases rng) (auto simp: le_imp_less_Suc)
  finally show ?thesis .
qed

termination range_loop
  by (relation "measure (\<lambda>(_, r). length r)") (auto simp: getword_rest_less)

declare range_loop.simps [simp del]

definition sum_lengths :: "(int \<times> int) list \<Rightarrow> int" where
  "sum_lengths xs = sum_list (map (\<lambda>(s, e). e - s + 1) xs)"

text \<open>
  The checks before the loop: whether the header is to be heeded. Only the entity tag in double
  quotes and the date are accepted in If-Range, compared as strings.
\<close>

definition if_range_ok :: "brequest \<Rightarrow> bool" where
  "if_range_ok r =
     (case r_headers_in r ''If-Range'' of
        None \<Rightarrow> True
      | Some if_range \<Rightarrow>
          (if cget if_range 0 = DQUOTE then r_headers_out r ''ETag'' = Some if_range
           else r_headers_out r ''Last-Modified'' = Some if_range))"

definition is_multirange_type :: "cstring option \<Rightarrow> bool" where
  "is_multirange_type ct =
     (case ct of None \<Rightarrow> False
      | Some c \<Rightarrow> strncaseeq c ''multipart/byteranges'' 20 \<or> strncaseeq c ''multipart/x-byteranges'' 22)"

text \<open>\<open>ap_set_byterange\<close>: its value, the ranges, and the request.\<close>

definition set_byterange :: "brequest \<Rightarrow> int \<Rightarrow> int \<times> (int \<times> int) list \<times> brequest" where
  "set_byterange r clength =
     (if r_assbackwards r then (0, [], r)
      else case (case r_headers_in r ''Range'' of None \<Rightarrow> r_headers_in r ''Request-Range'' | Some v \<Rightarrow> Some v) of
          None \<Rightarrow> (0, [], r)
        | Some rng \<Rightarrow>
            if \<not> strncaseeq rng ''bytes='' 6 \<or> r_status r \<noteq> HTTP_OK then (0, [], r)
            else if r_headers_out r ''Content-Range'' \<noteq> None then (0, [], r)
            else if is_multirange_type (r_headers_out r ''Content-Type'') then (0, [], r)
            else if \<not> if_range_ok r then (0, [], r)
            else (case range_loop clength (drop 6 rng) of
                None \<Rightarrow> (0, [], r)
              | Some (indexes, unsatisfiable) \<Rightarrow>
                  if indexes = [] \<and> unsatisfiable then (- 1, [], r)
                  else if sum_lengths indexes \<ge> clength then (0, [], r)
                  else (int (length indexes), indexes,
                        r\<lparr>r_status := HTTP_PARTIAL_CONTENT, r_range := Some (drop 6 rng)\<rparr>)))"

section \<open>Copying a range\<close>

text \<open>
  The first loop of \<open>copy_brigade_range\<close>: index and offset of the bucket that holds the byte
  \<open>start\<close> and of the one that holds the byte \<open>end\<close>.
\<close>

fun range_scan ::
  "nat \<Rightarrow> nat \<Rightarrow> cstring list \<Rightarrow> nat \<Rightarrow> nat \<Rightarrow> (nat \<times> nat) option \<Rightarrow> (nat \<times> nat) option \<times> (nat \<times> nat) option" where
  "range_scan start fin [] i pos first = (first, None)"
| "range_scan start fin (e # es) i pos first =
     (let first' = (if first = None \<and> length e + pos > start then Some (i, pos) else first)
      in if length e + pos > fin then (first', Some (i, pos))
         else range_scan start fin es (Suc i) (pos + length e) first')"

definition bucket_split :: "cstring \<Rightarrow> nat \<Rightarrow> (cstring \<times> cstring) option" where
  "bucket_split b point = (if point > length b then None else Some (take point b, drop point b))"

text \<open>
  The second loop, for the \<open>k\<close>-th bucket, from the first one to the last one. \<open>None\<close>: a split
  has failed.
\<close>

function copy_buckets :: "cstring list \<Rightarrow> nat \<times> nat \<Rightarrow> nat \<times> nat \<Rightarrow> nat \<Rightarrow> nat \<Rightarrow> nat \<Rightarrow> cstring list option" where
  "copy_buckets bb first lst start fin k =
     (let e = bb ! k;
          off_first = snd first;
          out_first = (if k = fst first \<and> off_first \<noteq> start
                       then map_option snd (bucket_split e (start - off_first)) else Some e)
      in case out_first of
           None \<Rightarrow> None
         | Some copy \<Rightarrow>
             if k \<ge> fst lst then
               (let off_last = (if k = fst first then snd lst + (start - off_first) else snd lst)
                in if fin - off_last \<noteq> length e
                   then map_option (\<lambda>p. [fst p]) (bucket_split copy (fin + 1 - off_last))
                   else Some [copy])
             else map_option ((#) copy) (copy_buckets bb first lst start fin (Suc k)))"
  by auto

termination by (relation "measure (\<lambda>(_, _, lst, _, _, k). fst lst - k)") auto

declare copy_buckets.simps [simp del]

definition copy_brigade_range :: "cstring list \<Rightarrow> int \<Rightarrow> int \<Rightarrow> cstring list option" where
  "copy_brigade_range bb start fin =
     (if start < 0 \<or> fin < 0 \<or> nat start > nat fin then None
      else case range_scan (nat start) (nat fin) bb 0 0 None of
          (Some first, Some lst) \<Rightarrow> copy_buckets bb first lst (nat start) (nat fin) (fst first)
        | _ \<Rightarrow> None)"

section \<open>The output filter\<close>

datatype rbucket = RData cstring | REos | RUnknown | RError int

fun bucket_data :: "rbucket \<Rightarrow> cstring" where
  "bucket_data (RData b) = b"
| "bucket_data _ = []"

text \<open>The loop that adds up the length, and whether it has stopped at the end of the stream.\<close>

fun content_scan :: "rbucket list \<Rightarrow> int \<times> bool" where
  "content_scan [] = (0, False)"
| "content_scan (REos # bb) = (0, True)"
| "content_scan (RUnknown # bb) = (0, False)"
| "content_scan (e # bb) = (int (length (bucket_data e)) + fst (content_scan bb), snd (content_scan bb))"

fun strstr_c :: "cstring \<Rightarrow> cstring \<Rightarrow> bool" where
  "strstr_c [] t \<longleftrightarrow> t = []"
| "strstr_c (c # s) t \<longleftrightarrow> take (length t) (c # s) = t \<or> strstr_c s t"

definition use_range_x :: "brequest \<Rightarrow> bool" where
  "use_range_x r \<longleftrightarrow>
     r_headers_in r ''Request-Range'' \<noteq> None \<or>
     (case r_headers_in r ''User-Agent'' of None \<Rightarrow> False | Some ua \<Rightarrow> strstr_c ua ''MSIE 3'')"

definition AP_MAXRANGES_UNLIMITED :: int where "AP_MAXRANGES_UNLIMITED = -3"
definition AP_DEFAULT_MAX_RANGES :: int where "AP_DEFAULT_MAX_RANGES = 200"

definition get_max_ranges :: "int \<Rightarrow> int" where
  "get_max_ranges conf =
     (if conf \<ge> 0 \<or> conf = AP_MAXRANGES_UNLIMITED then conf else AP_DEFAULT_MAX_RANGES)"

definition make_bound_head :: "cstring \<Rightarrow> cstring \<Rightarrow> cstring" where
  "make_bound_head boundary orig_ct =
     (if \<not> strcaseeq orig_ct ''none''
      then CRLF @ ''--'' @ boundary @ CRLF @ ''Content-type: '' @ orig_ct @ CRLF @ ''Content-range: bytes ''
      else CRLF @ ''--'' @ boundary @ CRLF @ ''Content-range: bytes '')"

definition byterange_fmt :: "int \<Rightarrow> int \<Rightarrow> int \<Rightarrow> cstring" where
  "byterange_fmt s e clength = fmt_int s @ ''-'' @ fmt_int e @ ''/'' @ fmt_int clength"

record send_state =
  s_bsend :: "rbucket list"
  s_found :: bool
  s_sent :: "rbucket list list"
  s_req :: brequest

text \<open>The part of the response for one range, whose bytes are in \<open>tmpbb\<close>.\<close>

definition send_part ::
  "int \<Rightarrow> int \<Rightarrow> cstring \<Rightarrow> int \<Rightarrow> int \<Rightarrow> cstring list \<Rightarrow> send_state \<Rightarrow> send_state" where
  "send_part clength num_ranges bound_head s e tmpbb st =
     (let st1 = st\<lparr>s_found := True\<rparr>;
          st2 = (if num_ranges = 1
                 then st1\<lparr>s_req := s_req st1\<lparr>r_headers_out := hdr_set ''Content-Range''
                        (''bytes '' @ byterange_fmt s e clength) (r_headers_out (s_req st1))\<rparr>\<rparr>
                 else st1\<lparr>s_bsend := s_bsend st1 @ [RData bound_head, RData (byterange_fmt s e clength @ CRLF @ CRLF)]\<rparr>)
      in st2\<lparr>s_bsend := s_bsend st2 @ map RData tmpbb\<rparr>)"

text \<open>Passing what has been collected, every 32 ranges; the Content-Length is removed first.\<close>

definition send_flush :: "send_state \<Rightarrow> send_state" where
  "send_flush st =
     st\<lparr>s_req := s_req st\<lparr>r_headers_out := (r_headers_out (s_req st))(''Content-Length'' := None)\<rparr>,
        s_sent := s_sent st @ [s_bsend st], s_bsend := []\<rparr>"

text \<open>
  The loop over the ranges; \<open>pass n\<close> tells whether \<open>ap_pass_brigade\<close> succeeds after \<open>n\<close> brigades
  have been passed, and the flag is true when the loop returns from the function.
\<close>

fun send_loop ::
  "(nat \<Rightarrow> bool) \<Rightarrow> cstring list \<Rightarrow> int \<Rightarrow> int \<Rightarrow> cstring \<Rightarrow> nat \<Rightarrow> (int \<times> int) list \<Rightarrow> send_state \<Rightarrow> send_state \<times> bool" where
  "send_loop pass bb clength num_ranges bound_head i [] st = (st, False)"
| "send_loop pass bb clength num_ranges bound_head i ((s, e) # idx) st =
     (case copy_brigade_range bb s e of
        None \<Rightarrow> send_loop pass bb clength num_ranges bound_head (Suc i) idx st
      | Some tmpbb \<Rightarrow>
          (let st1 = send_part clength num_ranges bound_head s e tmpbb st
           in if i \<noteq> 0 \<and> i mod 32 = 0 then
                (if \<not> pass (length (s_sent st1)) then (send_flush st1, True)
                 else send_loop pass bb clength num_ranges bound_head (Suc i) idx (send_flush st1))
              else send_loop pass bb clength num_ranges bound_head (Suc i) idx st1))"

text \<open>
  \<open>ap_byterange_filter\<close>: the brigades passed to the next filter, in order, and the request.
  \<open>boundary\<close> is the string made of the request time and the connection, \<open>orig_ct\<close> what
  \<open>ap_make_content_type\<close> returns.
\<close>

definition byterange_filter ::
  "(nat \<Rightarrow> bool) \<Rightarrow> int \<Rightarrow> cstring \<Rightarrow> cstring \<Rightarrow> brequest \<Rightarrow> rbucket list \<Rightarrow> rbucket list list \<times> brequest" where
  "byterange_filter pass max_conf boundary orig_ct r bb =
     (let max_ranges = get_max_ranges max_conf; (clength, eos) = content_scan bb
      in if \<not> eos \<or> clength \<le> 0 then ([bb], r)
         else case set_byterange r clength of (num_ranges, indexes, r1) \<Rightarrow>
           if num_ranges = 0 \<or> (max_ranges \<ge> 0 \<and> num_ranges > max_ranges)
           then ([bb], r1\<lparr>r_status := r_status r\<rparr>)
           else if num_ranges < 0 then ([[RError HTTP_RANGE_NOT_SATISFIABLE, REos]], r1\<lparr>r_status := HTTP_OK\<rparr>)
           else
             (let r2 = (if num_ranges > 1
                        then r1\<lparr>r_content_type := ''multipart'' @ (if use_range_x r1 then ''/x-'' else ''/'') @
                               ''byteranges; boundary='' @ boundary\<rparr> else r1);
                  (st, stopped) = send_loop pass (map bucket_data bb) clength num_ranges
                    (make_bound_head boundary orig_ct) 0 indexes
                    \<lparr>s_bsend = [], s_found = False, s_sent = [], s_req = r2\<rparr>
              in if stopped then (s_sent st, s_req st)
                 else if \<not> s_found st
                 then (s_sent st @ [s_bsend st @ [RError HTTP_RANGE_NOT_SATISFIABLE, REos]], (s_req st)\<lparr>r_status := HTTP_OK\<rparr>)
                 else (s_sent st @ [s_bsend st @ (if num_ranges > 1 then [RData (CRLF @ ''--'' @ boundary @ ''--'' @ CRLF)] else []) @ [REos]],
                       s_req st)))"

section \<open>The ranges lie in the content\<close>

lemma parse_spec_bounds:
  assumes "parse_spec clength cur = Range s e"
  shows "0 \<le> s \<and> s \<le> e \<and> e < clength"
proof (cases "strchr cur (CHR ''-'')")
  case None
  with assms show ?thesis by (simp add: parse_spec_def)
next
  case (Some d)
  note d = this
  show ?thesis
  proof (cases "d = 0")
    case True
    with d assms show ?thesis
      by (auto simp: parse_spec_def clamp_range_def Let_def split: prod.splits if_splits)
  next
    case False
    have "CHR ''-'' \<notin> set (take d cur)" using strchr_SomeD [OF d] by simp
    then have "0 \<le> fst (apr_strtoff (take d cur))" by (simp add: apr_strtoff_def strtoll_nonneg)
    with False d assms show ?thesis
      by (auto simp: parse_spec_def clamp_range_def Let_def split: prod.splits if_splits)
  qed
qed

definition range_in :: "int \<Rightarrow> int \<times> int \<Rightarrow> bool" where
  "range_in clength p \<longleftrightarrow> 0 \<le> fst p \<and> fst p \<le> snd p \<and> snd p < clength"

lemma range_loop_bounds: "range_loop clength rng = Some (xs, u) \<Longrightarrow> list_all (range_in clength) xs"
proof (induction clength rng arbitrary: xs u rule: range_loop.induct)
  case (1 clength rng)
  let ?cur = "fst (getword rng (CHR '',''))" and ?rest = "snd (getword rng (CHR '',''))"
  show ?case
  proof (cases "?cur = []")
    case True
    with "1.prems" show ?thesis by (simp add: range_loop.simps [of clength rng] Let_def)
  next
    case ne: False
    show ?thesis
    proof (cases "parse_spec clength ?cur")
      case Invalid
      with ne "1.prems" show ?thesis by (simp add: range_loop.simps [of clength rng] Let_def)
    next
      case Unsatisfiable
      with ne "1.prems" obtain u' where "range_loop clength ?rest = Some (xs, u')"
        by (auto simp: range_loop.simps [of clength rng] Let_def split: option.splits)
      with "1.IH"(1) [OF refl refl ne Unsatisfiable] show ?thesis .
    next
      case (Range s e)
      with ne "1.prems" obtain ys where "range_loop clength ?rest = Some (ys, u)" "xs = (s, e) # ys"
        by (auto simp: range_loop.simps [of clength rng] Let_def split: option.splits)
      with "1.IH"(2) [OF refl refl ne Range] parse_spec_bounds [OF Range] show ?thesis
        by (simp add: range_in_def)
    qed
  qed
qed

section \<open>The copy is the range\<close>

definition bb_off :: "cstring list \<Rightarrow> nat \<Rightarrow> nat" where
  "bb_off bb k = length (concat (take k bb))"

text \<open>The byte \<open>x\<close> of the brigade lies in its \<open>k\<close>-th bucket, which starts at \<open>p\<close>.\<close>

definition holds_byte :: "cstring list \<Rightarrow> nat \<Rightarrow> nat \<times> nat \<Rightarrow> bool" where
  "holds_byte bb x kp \<longleftrightarrow>
     fst kp < length bb \<and> snd kp = bb_off bb (fst kp) \<and> snd kp \<le> x \<and> x < snd kp + length (bb ! fst kp)"

lemma bb_off_0 [simp]: "bb_off bb 0 = 0"
  by (simp add: bb_off_def)

lemma bb_off_Suc: "k < length bb \<Longrightarrow> bb_off bb (Suc k) = bb_off bb k + length (bb ! k)"
  by (simp add: bb_off_def take_Suc_conv_app_nth)

lemma bb_off_mono:
  assumes "i \<le> j"
  shows "bb_off bb i \<le> bb_off bb j"
proof -
  obtain d where j: "j = i + d" using assms le_Suc_ex by blast
  show ?thesis unfolding j bb_off_def by (simp add: take_add)
qed

lemma bb_off_all: "length bb \<le> k \<Longrightarrow> bb_off bb k = length (concat bb)"
  by (simp add: bb_off_def)

lemma range_scan_finds:
  assumes "i \<le> length bb" "x \<le> y" "y < length (concat bb)" "bb_off bb i \<le> y"
    and "case first of None \<Rightarrow> bb_off bb i \<le> x | Some f \<Rightarrow> holds_byte bb x f \<and> fst f < i"
  shows "\<exists>f l. range_scan x y (drop i bb) i (bb_off bb i) first = (Some f, Some l) \<and>
           holds_byte bb x f \<and> holds_byte bb y l \<and> fst f \<le> fst l"
  using assms
proof (induction "length bb - i" arbitrary: i first)
  case 0
  then show ?case using bb_off_all [of bb i] by simp
next
  case (Suc n)
  then have i: "i < length bb" by simp
  then have dr: "drop i bb = bb ! i # drop (Suc i) bb" by (simp add: Cons_nth_drop_Suc)
  define first' where
    "first' = (if first = None \<and> length (bb ! i) + bb_off bb i > x then Some (i, bb_off bb i) else first)"
  have f': "case first' of None \<Rightarrow> bb_off bb (Suc i) \<le> x | Some f \<Rightarrow> holds_byte bb x f \<and> fst f < Suc i"
    using Suc.prems(5) i
    by (auto simp: first'_def holds_byte_def bb_off_Suc split: option.splits if_splits)
  have eq: "range_scan x y (drop i bb) i (bb_off bb i) first =
      (if length (bb ! i) + bb_off bb i > y then (first', Some (i, bb_off bb i))
       else range_scan x y (drop (Suc i) bb) (Suc i) (bb_off bb (Suc i)) first')"
    unfolding dr by (simp add: first'_def bb_off_Suc i Let_def)
  show ?case
  proof (cases "length (bb ! i) + bb_off bb i > y")
    case True
    with Suc.prems f' i obtain f where "first' = Some f" "holds_byte bb x f" "fst f \<le> i"
      by (cases first') (auto simp: bb_off_Suc)
    with True Suc.prems i show ?thesis unfolding eq by (simp add: holds_byte_def)
  next
    case False
    with Suc.hyps(1) [of "Suc i" first'] Suc.hyps(2) Suc.prems f' i show ?thesis
      unfolding eq by (simp add: bb_off_Suc)
  qed
qed

lemma copy_buckets_tail:
  assumes "holds_byte bb y l" "fst f < k" "k \<le> fst l"
  shows "\<exists>out. copy_buckets bb f l x y k = Some out \<and>
           concat out = take (y + 1 - bb_off bb k) (concat (drop k bb))"
  using assms
proof (induction "fst l - k" arbitrary: k)
  case 0
  then have k: "k = fst l" "k < length bb" by (auto simp: holds_byte_def)
  then have dr: "drop k bb = bb ! k # drop (Suc k) bb" by (simp add: Cons_nth_drop_Suc)
  have l: "snd l = bb_off bb k" "bb_off bb k \<le> y" "y < bb_off bb k + length (bb ! k)"
    using 0(2) k by (auto simp: holds_byte_def)
  have c: "y - bb_off bb k \<noteq> length (bb ! k)" "\<not> y + 1 - bb_off bb k > length (bb ! k)" using l by linarith+
  have "copy_buckets bb f l x y k = Some [take (y + 1 - bb_off bb k) (bb ! k)]"
    unfolding copy_buckets.simps [of bb f l x y k]
    using 0(3) k(1) l(1) c by (simp add: bucket_split_def Let_def)
  then show ?case using l unfolding dr by simp
next
  case (Suc n)
  then have k: "k < fst l" "k < length bb" by (auto simp: holds_byte_def)
  then have dr: "drop k bb = bb ! k # drop (Suc k) bb" by (simp add: Cons_nth_drop_Suc)
  have n: "n = fst l - Suc k" using Suc.hyps(2) by simp
  from Suc.hyps(1) [OF n Suc.prems(1)] Suc.prems(2) k(1) obtain out where
    out: "copy_buckets bb f l x y (Suc k) = Some out"
      "concat out = take (y + 1 - bb_off bb (Suc k)) (concat (drop (Suc k) bb))" by auto
  have le: "bb_off bb (Suc k) \<le> y"
    using bb_off_mono [of "Suc k" "fst l" bb] k Suc.prems(1) by (simp add: holds_byte_def)
  have "copy_buckets bb f l x y k = Some (bb ! k # out)"
    using Suc.prems k out by (simp add: copy_buckets.simps [of bb f l x y k] Let_def)
  moreover have "concat (bb ! k # out) = take (y + 1 - bb_off bb k) (concat (drop k bb))"
    unfolding dr using out(2) le k by (simp add: bb_off_Suc)
  ultimately show ?case by blast
qed

lemma copy_buckets_range:
  assumes "holds_byte bb x f" "holds_byte bb y l" "fst f \<le> fst l" "x \<le> y"
  shows "\<exists>out. copy_buckets bb f l x y (fst f) = Some out \<and> concat out = take (y + 1 - x) (drop x (concat bb))"
proof -
  define k where "k = fst f"
  have k: "k < length bb" "snd f = bb_off bb k" "bb_off bb k \<le> x" "x < bb_off bb k + length (bb ! k)"
    using assms(1) by (auto simp: holds_byte_def k_def)
  have "concat bb = concat (take k bb) @ bb ! k @ concat (drop (Suc k) bb)"
    using k(1) by (metis concat.simps(2) concat_append id_take_nth_drop)
  then have content: "drop x (concat bb) = drop (x - bb_off bb k) (bb ! k) @ concat (drop (Suc k) bb)"
    using k(3,4) by (simp add: bb_off_def)
  define copy where "copy = drop (x - bb_off bb k) (bb ! k)"
  have first: "(if k = fst f \<and> snd f \<noteq> x then map_option snd (bucket_split (bb ! k) (x - snd f)) else Some (bb ! k)) = Some copy"
    using k by (auto simp: k_def copy_def bucket_split_def)
  have len: "length copy = bb_off bb k + length (bb ! k) - x" using k by (simp add: copy_def)
  show ?thesis
  proof (cases "k = fst l")
    case True
    then have l: "snd l = bb_off bb k" "y < bb_off bb k + length (bb ! k)"
      using assms(2) by (auto simp: holds_byte_def)
    have off: "snd l + (x - snd f) = x" using l k by simp
    have ne: "y - x \<noteq> length (bb ! k)" using l assms(4) k by linarith
    have le: "y + 1 - x \<le> length copy" using l len assms(4) k by linarith
    have "copy_buckets bb f l x y k = Some [take (y + 1 - x) copy]"
      unfolding copy_buckets.simps [of bb f l x y k] Let_def first option.case
      using True ne le off by (simp add: k_def bucket_split_def)
    moreover have "take (y + 1 - x) (drop x (concat bb)) = take (y + 1 - x) copy"
      unfolding content copy_def [symmetric] using le by simp
    ultimately show ?thesis by (simp add: k_def)
  next
    case False
    then have kl: "k < fst l" using assms(3) by (simp add: k_def)
    with copy_buckets_tail [OF assms(2), of f "Suc k" x] obtain out where
      out: "copy_buckets bb f l x y (Suc k) = Some out"
        "concat out = take (y + 1 - bb_off bb (Suc k)) (concat (drop (Suc k) bb))" by (auto simp: k_def)
    have le: "bb_off bb (Suc k) \<le> y"
      using bb_off_mono [of "Suc k" "fst l" bb] kl assms(2) by (simp add: holds_byte_def)
    have "copy_buckets bb f l x y k = Some (copy # out)"
      unfolding copy_buckets.simps [of bb f l x y k] Let_def first option.case using kl out by simp
    moreover have "take (y + 1 - x) (drop x (concat bb)) = concat (copy # out)"
      unfolding content copy_def [symmetric] using out(2) le len k by (simp add: bb_off_Suc)
    ultimately show ?thesis by (simp add: k_def)
  qed
qed

text \<open>\<open>copy_brigade_range\<close> succeeds on every range of the content, and copies its bytes.\<close>

lemma copy_brigade_range_correct:
  assumes "0 \<le> s" "s \<le> e" "e < int (length (concat bb))"
  shows "\<exists>out. copy_brigade_range bb s e = Some out \<and>
           concat out = take (nat (e - s + 1)) (drop (nat s) (concat bb))"
proof -
  have b: "nat s \<le> nat e" "nat e < length (concat bb)" using assms by auto
  from range_scan_finds [of 0 bb "nat s" "nat e" None] b obtain f l where
    sc: "range_scan (nat s) (nat e) bb 0 0 None = (Some f, Some l)"
      "holds_byte bb (nat s) f" "holds_byte bb (nat e) l" "fst f \<le> fst l" by auto
  from copy_buckets_range [OF sc(2-4) b(1)] obtain out where
    "copy_buckets bb f l (nat s) (nat e) (fst f) = Some out"
    "concat out = take (nat e + 1 - nat s) (drop (nat s) (concat bb))" by auto
  moreover have "nat e + 1 - nat s = nat (e - s + 1)" using assms by linarith
  ultimately show ?thesis using assms b by (simp add: copy_brigade_range_def sc(1))
qed

section \<open>What the filter sends\<close>

definition out_bytes :: "rbucket list list \<Rightarrow> cstring" where
  "out_bytes brigades = concat (map bucket_data (concat brigades))"

definition byte_slice :: "cstring \<Rightarrow> int \<times> int \<Rightarrow> cstring" where
  "byte_slice content p = take (nat (snd p - fst p + 1)) (drop (nat (fst p)) content)"

definition range_part :: "cstring \<Rightarrow> int \<Rightarrow> cstring \<Rightarrow> int \<times> int \<Rightarrow> cstring" where
  "range_part content num_ranges bound_head p =
     (if num_ranges = 1 then byte_slice content p
      else bound_head @ byterange_fmt (fst p) (snd p) (int (length content)) @ CRLF @ CRLF @ byte_slice content p)"

lemma out_bytes_simps [simp]:
  "out_bytes [] = []"
  "out_bytes (a # b) = concat (map bucket_data a) @ out_bytes b"
  "out_bytes (c @ d) = out_bytes c @ out_bytes d"
  by (simp_all add: out_bytes_def)

lemma bucket_data_RData [simp]: "bucket_data \<circ> RData = id"
  by (simp add: fun_eq_iff)

lemma set_byterange_indexes:
  assumes "set_byterange r clength = (n, idx, r')" "n \<noteq> 0" "n \<noteq> - 1"
  shows "n = int (length idx) \<and> list_all (range_in clength) idx \<and> sum_lengths idx < clength \<and>
         r_status r' = HTTP_PARTIAL_CONTENT \<and> r_status r = HTTP_OK"
  using assms
  by (auto simp: set_byterange_def range_loop_bounds split: if_splits option.splits prod.splits)

lemma send_part_bytes:
  assumes "concat tmpbb = byte_slice content (s, e)"
  shows "out_bytes (s_sent (send_part (int (length content)) n head s e tmpbb st) @
             [s_bsend (send_part (int (length content)) n head s e tmpbb st)]) =
           out_bytes (s_sent st @ [s_bsend st]) @ range_part content n head (s, e) \<and>
         s_found (send_part (int (length content)) n head s e tmpbb st) \<and>
         r_status (s_req (send_part (int (length content)) n head s e tmpbb st)) = r_status (s_req st)"
  using assms by (simp add: send_part_def range_part_def)

lemma send_flush_bytes:
  "out_bytes (s_sent (send_flush st) @ [s_bsend (send_flush st)]) = out_bytes (s_sent st @ [s_bsend st])"
  "s_found (send_flush st) = s_found st" "r_status (s_req (send_flush st)) = r_status (s_req st)"
  by (simp_all add: send_flush_def)

lemma send_flush_if:
  "out_bytes (s_sent (if c then send_flush st else st) @ [s_bsend (if c then send_flush st else st)]) =
     out_bytes (s_sent st @ [s_bsend st])"
  "s_found (if c then send_flush st else st) = s_found st"
  "r_status (s_req (if c then send_flush st else st)) = r_status (s_req st)"
  by (cases c; simp only: if_True if_False send_flush_bytes)+

lemma send_loop_bytes:
  assumes "list_all (range_in clength) idx" "clength = int (length (concat bb))" "\<And>n. pass n"
  shows "\<exists>st'. send_loop pass bb clength n head i idx st = (st', False) \<and>
     out_bytes (s_sent st' @ [s_bsend st']) =
       out_bytes (s_sent st @ [s_bsend st]) @ concat (map (range_part (concat bb) n head) idx) \<and>
     s_found st' = (s_found st \<or> idx \<noteq> []) \<and> r_status (s_req st') = r_status (s_req st)"
  using assms(1)
proof (induction idx arbitrary: i st)
  case (Cons p idx)
  obtain s e where p: "p = (s, e)" by (cases p)
  from Cons.prems have "range_in clength (s, e)" by (simp add: p)
  with assms(2) copy_brigade_range_correct [of s e bb] obtain tmpbb where
    t: "copy_brigade_range bb s e = Some tmpbb" "concat tmpbb = byte_slice (concat bb) (s, e)"
    by (auto simp: range_in_def byte_slice_def)
  define st1 where "st1 = send_part clength n head s e tmpbb st"
  define st2 where "st2 = (if i \<noteq> 0 \<and> i mod 32 = 0 then send_flush st1 else st1)"
  have st1: "out_bytes (s_sent st1 @ [s_bsend st1]) =
        out_bytes (s_sent st @ [s_bsend st]) @ range_part (concat bb) n head p"
      "s_found st1" "r_status (s_req st1) = r_status (s_req st)"
    using send_part_bytes [OF t(2), of n head st] by (simp_all only: st1_def assms(2) p)
  have st2: "out_bytes (s_sent st2 @ [s_bsend st2]) =
        out_bytes (s_sent st @ [s_bsend st]) @ range_part (concat bb) n head p"
      "s_found st2" "r_status (s_req st2) = r_status (s_req st)"
    unfolding st2_def send_flush_if by (rule st1)+
  have eq: "send_loop pass bb clength n head i (p # idx) st = send_loop pass bb clength n head (Suc i) idx st2"
    using assms(3) by (simp add: p t(1) st2_def st1_def Let_def)
  from Cons.IH [of "Suc i" st2] Cons.prems show ?case
    unfolding eq using st2 by auto
qed simp

lemma content_scan_data: "content_scan (map RData ds @ [REos]) = (int (length (concat ds)), True)"
  by (induction ds) simp_all

definition range_request :: "cstring \<Rightarrow> brequest" where
  "range_request value =
     \<lparr>r_status = 200, r_proto_num = 1001, r_method_number = 0, r_header_only = False, r_expecting_100 = False,
      r_chunked = False, r_no_local_copy = False, r_mtime = 1, r_request_time = 2,
      r_headers_in = [''Range'' \<mapsto> value], r_headers_out = Map.empty, r_env = Map.empty,
      conn_keepalive = AP_CONN_UNKNOWN, conn_keepalives = 0, srv_keep_alive = True,
      srv_keep_alive_timeout = 5000000, srv_keep_alive_max = 100, r_assbackwards = False, r_range = None,
      r_content_type = ''text/plain''\<rparr>"

lemmas range_eval = set_byterange_def range_request_def HTTP_OK_def HTTP_PARTIAL_CONTENT_def if_range_ok_def
  is_multirange_type_def range_loop.simps parse_spec_def clamp_range_def getword_def apr_strtoff_def strtoll_def
  dec_value_def c_class_defs sum_lengths_def strncaseeq_take

lemma set_byterange_sample:
  "set_byterange (range_request ''bytes=0-0,-2'') 11 =
     (2, [(0, 0), (9, 10)], range_request ''bytes=0-0,-2''\<lparr>r_status := 206, r_range := Some ''0-0,-2''\<rparr>)"
  by (simp add: range_eval)

text \<open>A blank in front of a suffix range makes the whole header invalid, in front of another range it does not.\<close>

lemma suffix_range_blank:
  "fst (set_byterange (range_request ''bytes=0-0, -2'') 11) = 0"
  "fst (set_byterange (range_request ''bytes=0-0, 9-10'') 11) = 2"
  by (simp_all add: range_eval)

text \<open>With \<open>MaxRanges none\<close> (0) a Range header is not ignored when it cannot be satisfied.\<close>

lemma max_ranges_none_416:
  "fst (byterange_filter (\<lambda>_. True) 0 ''b'' ''text/plain'' (range_request ''bytes=11-'') [RData ''hello world'', REos]) =
     [[RError HTTP_RANGE_NOT_SATISFIABLE, REos]]"
  by (simp add: range_eval byterange_filter_def get_max_ranges_def)

section \<open>Properties\<close>

text \<open>
  C37. A Range header cannot blow up the response: every range that \<open>ap_set_byterange\<close> accepts
  lies within the content, its value is the number of these ranges, and all of them together
  are shorter than the content.
\<close>

theorem set_byterange_bounded:
  assumes "set_byterange r clength = (n, idx, r')" "0 < n"
  shows "n = int (length idx) \<and> sum_lengths idx < clength \<and>
         list_all (\<lambda>(s, e). 0 \<le> s \<and> s \<le> e \<and> e < clength) idx"
  using set_byterange_indexes [OF assms(1)] assms(2)
  by (auto simp: list_all_iff range_in_def)

theorem set_byterange_bounded_witness:
  "sum_lengths [(0, 0), (9, 10)] < 11 \<and> list_all (\<lambda>(s, e). 0 \<le> s \<and> s \<le> e \<and> e < (11 :: int)) [(0, 0), (9, 10)]"
  using set_byterange_bounded [OF set_byterange_sample] by simp

text \<open>
  C30. The response to a range request is exact: for any split of the content into buckets the
  bytes that \<open>ap_byterange_filter\<close> passes on are, for one range, that range of the content, and
  for several, the boundary, the Content-Range line and the bytes of each range in the order
  of the header, closed by the final boundary; the status is 206.
\<close>

theorem byterange_filter_exact:
  assumes "set_byterange r (int (length (concat ds))) = (n, idx, r1)" "0 < n"
    and "get_max_ranges mx < 0 \<or> n \<le> get_max_ranges mx" "pass = (\<lambda>_. True)" "concat ds \<noteq> []"
  shows "\<exists>out r'. byterange_filter pass mx boundary orig_ct r (map RData ds @ [REos]) = (out, r') \<and>
     out_bytes out = concat (map (range_part (concat ds) n (make_bound_head boundary orig_ct)) idx) @
       (if 1 < n then CRLF @ ''--'' @ boundary @ ''--'' @ CRLF else []) \<and>
     r_status r' = HTTP_PARTIAL_CONTENT"
proof -
  define bb where "bb = map bucket_data (map RData ds @ [REos])"
  have bb: "concat bb = concat ds" by (simp add: bb_def)
  define r2 where "r2 = (if n > 1
      then r1\<lparr>r_content_type := ''multipart'' @ (if use_range_x r1 then ''/x-'' else ''/'') @ ''byteranges; boundary='' @ boundary\<rparr>
      else r1)"
  have idx: "n = int (length idx)" "list_all (range_in (int (length (concat ds)))) idx" "r_status r1 = HTTP_PARTIAL_CONTENT"
    using set_byterange_indexes [OF assms(1)] assms(2) by auto
  then have ne: "idx \<noteq> []" using assms(2) by auto
  from send_loop_bytes [of "int (length (concat ds))" idx bb pass n "make_bound_head boundary orig_ct" 0
      "\<lparr>s_bsend = [], s_found = False, s_sent = [], s_req = r2\<rparr>"] idx(2) assms(4)
  obtain st where st: "send_loop pass bb (int (length (concat ds))) n (make_bound_head boundary orig_ct) 0 idx
        \<lparr>s_bsend = [], s_found = False, s_sent = [], s_req = r2\<rparr> = (st, False)"
      "out_bytes (s_sent st @ [s_bsend st]) = concat (map (range_part (concat ds) n (make_bound_head boundary orig_ct)) idx)"
      "s_found st" "r_status (s_req st) = r_status r2"
    unfolding bb using ne by auto
  have c: "int (length (concat ds)) > 0" using assms(5) by (simp only: of_nat_0_less_iff length_greater_0_conv not_False_eq_True)
  have "byterange_filter pass mx boundary orig_ct r (map RData ds @ [REos]) =
      (s_sent st @ [s_bsend st @ (if n > 1 then [RData (CRLF @ ''--'' @ boundary @ ''--'' @ CRLF)] else []) @ [REos]], s_req st)"
    using assms(2,3) c st(1,3)
    unfolding byterange_filter_def Let_def content_scan_data assms(1) prod.case bb_def [symmetric] r2_def [symmetric]
    by auto
  moreover have "r_status r2 = HTTP_PARTIAL_CONTENT" using idx(3) by (simp add: r2_def)
  ultimately show ?thesis using st(2,4) by auto
qed

theorem byterange_filter_exact_witness:
  "\<exists>out r'. byterange_filter (\<lambda>_. True) (-1) ''xyz'' ''text/plain'' (range_request ''bytes=0-0,-2'')
       [RData ''hello '', RData ''world'', REos] = (out, r') \<and>
     out_bytes out = make_bound_head ''xyz'' ''text/plain'' @ ''0-0/11'' @ CRLF @ CRLF @ ''h'' @
       make_bound_head ''xyz'' ''text/plain'' @ ''9-10/11'' @ CRLF @ CRLF @ ''ld'' @ CRLF @ ''--xyz--'' @ CRLF"
proof -
  have "set_byterange (range_request ''bytes=0-0,-2'') (int (length (concat [''hello '', ''world'']))) =
     (2, [(0, 0), (9, 10)], range_request ''bytes=0-0,-2''\<lparr>r_status := 206, r_range := Some ''0-0,-2''\<rparr>)"
    using set_byterange_sample by simp
  moreover have f: "byterange_fmt 0 0 11 = ''0-0/11''" "byterange_fmt 9 10 11 = ''9-10/11''"
    by (code_simp, code_simp)
  ultimately show ?thesis
    using byterange_filter_exact [of "range_request ''bytes=0-0,-2''" "[''hello '', ''world'']" 2 "[(0, 0), (9, 10)]" _ "-1" "\<lambda>_. True" "''xyz''" "''text/plain''"]
    by (auto simp: get_max_ranges_def AP_MAXRANGES_UNLIMITED_def AP_DEFAULT_MAX_RANGES_def range_part_def byte_slice_def)
qed

end
