(* ===== verification/Apr_Brigade.thy ===== *)
theory Apr_Brigade
  imports Prelude
begin

text \<open>
  Buckets and brigades of apr-util, \<open>srclib/apr-util/buckets\<close>, as far as the filters of the
  server use them. A brigade is the list of its buckets. A bucket holds bytes in memory, is the
  socket of the connection, or carries no data. What the client sends is a list of events, one
  for each answer of the socket; \<open>Arrive []\<close> and the end of the list are the end of the stream.
\<close>

datatype apr_status =
  APR_SUCCESS | APR_EAGAIN | APR_EOF | APR_EGENERAL | APR_ENOSPC | APR_INCOMPLETE | APR_TIMEUP | APR_EINVAL

datatype sock_event = Arrive cstring | WouldBlock | SockTimeout | SockError

datatype bkt = BData cstring | BSock "sock_event list" | BEos | BFlush | BError int

fun is_metadata :: "bkt \<Rightarrow> bool" where
  "is_metadata (BData s) = False"
| "is_metadata (BSock evs) = False"
| "is_metadata _ = True"

text \<open>The length of a bucket; -1 is unknown.\<close>

fun bkt_length :: "bkt \<Rightarrow> int" where
  "bkt_length (BData s) = int (length s)"
| "bkt_length (BSock evs) = - 1"
| "bkt_length _ = 0"

section \<open>Reading\<close>

text \<open>
  \<open>socket_bucket_read\<close>: status, data, and the buckets that take the place of the bucket. A
  blocking read waits until something arrives.
\<close>

fun socket_read :: "bool \<Rightarrow> sock_event list \<Rightarrow> apr_status \<times> cstring \<times> bkt list" where
  "socket_read nonblock [] = (APR_SUCCESS, [], [BData []])"
| "socket_read nonblock (Arrive s # evs) =
     (if s \<noteq> [] then (APR_SUCCESS, s, [BData s, BSock evs]) else (APR_SUCCESS, [], [BData []]))"
| "socket_read nonblock (WouldBlock # evs) =
     (if nonblock then (APR_EAGAIN, [], [BSock evs]) else socket_read nonblock evs)"
| "socket_read nonblock (SockTimeout # evs) = (APR_TIMEUP, [], [BSock evs])"
| "socket_read nonblock (SockError # evs) = (APR_EGENERAL, [], [BSock evs])"

fun bkt_read :: "bool \<Rightarrow> bkt \<Rightarrow> apr_status \<times> cstring \<times> bkt list" where
  "bkt_read nonblock (BSock evs) = socket_read nonblock evs"
| "bkt_read nonblock (BData s) = (APR_SUCCESS, s, [BData s])"
| "bkt_read nonblock e = (APR_SUCCESS, [], [e])"

text \<open>What is left of a brigade, a bound on the work of the loops.\<close>

fun bkt_size :: "bkt \<Rightarrow> nat" where
  "bkt_size (BSock evs) = 2 + length evs"
| "bkt_size _ = 1"

definition bb_size :: "bkt list \<Rightarrow> nat" where
  "bb_size bb = sum_list (map bkt_size bb)"

lemma bb_size_simps [simp]:
  "bb_size [] = 0" "bb_size (e # bb) = bkt_size e + bb_size bb" "bb_size (b1 @ b2) = bb_size b1 + bb_size b2"
  by (simp_all add: bb_size_def)

lemma bkt_size_pos [simp]: "0 < bkt_size e"
  by (cases e) simp_all

lemma socket_read_size: "bb_size (tl (snd (snd (socket_read nb evs)))) < 2 + length evs"
  by (induction nb evs rule: socket_read.induct) auto

lemma bkt_read_size: "bb_size (tl (snd (snd (bkt_read nb e)))) < bkt_size e"
  by (cases e) (use socket_read_size in auto)

section \<open>Operations on brigades\<close>

definition HUGE_STRING_LEN :: nat where "HUGE_STRING_LEN = 8192"

text \<open>
  \<open>apr_brigade_split_line\<close>: status, \<open>bbOut\<close> and \<open>bbIn\<close>. A short piece is copied to the end of
  \<open>bbOut\<close> by \<open>apr_brigade_write\<close>, here as a bucket of its own.
\<close>

definition line_piece :: "bkt \<Rightarrow> cstring \<Rightarrow> bkt list" where
  "line_piece e str = (if is_metadata e then [e] else if str \<noteq> [] then [BData str] else [])"

function brigade_split_line ::
  "bool \<Rightarrow> nat \<Rightarrow> nat \<Rightarrow> bkt list \<Rightarrow> bkt list \<Rightarrow> apr_status \<times> bkt list \<times> bkt list" where
  "brigade_split_line nonblock maxbytes readbytes bbOut [] = (APR_SUCCESS, bbOut, [])"
| "brigade_split_line nonblock maxbytes readbytes bbOut (e # bbIn) =
     (let st = fst (bkt_read nonblock e);
          str = fst (snd (bkt_read nonblock e));
          es = snd (snd (bkt_read nonblock e))
      in if st \<noteq> APR_SUCCESS then (st, bbOut, es @ bbIn)
         else if LF \<in> set str then
           (let n = length (takeWhile (\<lambda>c. c \<noteq> LF) str) + 1
            in (APR_SUCCESS, bbOut @ [BData (take n str)], BData (drop n str) # tl es @ bbIn))
         else
           (let out = line_piece e str
            in if readbytes + length str \<ge> maxbytes then (APR_SUCCESS, bbOut @ out, tl es @ bbIn)
               else brigade_split_line nonblock maxbytes (readbytes + length str) (bbOut @ out) (tl es @ bbIn)))"
  by pat_completeness auto

termination
  by (relation "measure (\<lambda>(_, _, _, _, b). bb_size b)") (simp_all add: bkt_read_size)

text \<open>\<open>apr_brigade_partition\<close>, its loop: the buckets before and after \<open>after_point\<close>.\<close>

function partition_loop :: "nat \<Rightarrow> bkt list \<Rightarrow> apr_status \<times> bkt list \<times> bkt list" where
  "partition_loop point [] = (APR_INCOMPLETE, [], [])"
| "partition_loop point (e # b) =
     (let st = fst (bkt_read False e);
          str = fst (snd (bkt_read False e));
          es = snd (snd (bkt_read False e))
      in if bkt_length e = - 1 \<and> st \<noteq> APR_SUCCESS then (st, [], es @ b)
         else if point < length str then (APR_SUCCESS, [BData (take point str)], BData (drop point str) # tl es @ b)
         else if point = length str then (APR_SUCCESS, [hd es], tl es @ b)
         else case partition_loop (point - length str) (tl es @ b) of
             (st', before, after) \<Rightarrow> (st', hd es # before, after))"
  by pat_completeness auto

termination
  by (relation "measure (\<lambda>(_, b). bb_size b)") (simp_all add: bkt_read_size)

definition brigade_partition :: "bkt list \<Rightarrow> int \<Rightarrow> apr_status \<times> bkt list \<times> bkt list" where
  "brigade_partition b point =
     (if point < 0 then (APR_EINVAL, [], b)
      else if point = 0 then (APR_SUCCESS, [], b)
      else partition_loop (nat point) b)"

text \<open>\<open>apr_brigade_length\<close> without reading: -1 when a bucket has no known length.\<close>

fun brigade_length :: "bkt list \<Rightarrow> int" where
  "brigade_length [] = 0"
| "brigade_length (e # bb) =
     (if bkt_length e = - 1 then - 1
      else if brigade_length bb = - 1 then - 1 else bkt_length e + brigade_length bb)"

text \<open>\<open>apr_brigade_flatten\<close> for a brigade in memory: at most \<open>len\<close> bytes are copied.\<close>

fun mem_data :: "bkt \<Rightarrow> cstring" where
  "mem_data (BData s) = s"
| "mem_data _ = []"

definition mem_bytes :: "bkt list \<Rightarrow> cstring" where
  "mem_bytes bb = concat (map mem_data bb)"

definition brigade_flatten :: "bkt list \<Rightarrow> nat \<Rightarrow> cstring" where
  "brigade_flatten bb len = take len (mem_bytes bb)"

declare brigade_split_line.simps [simp del] partition_loop.simps [simp del]

section \<open>The bytes of a brigade\<close>

text \<open>All the bytes that come out of a brigade: those in memory, and those still to arrive.\<close>

fun sock_bytes :: "sock_event list \<Rightarrow> cstring" where
  "sock_bytes [] = []"
| "sock_bytes (Arrive s # evs) = (if s = [] then [] else s @ sock_bytes evs)"
| "sock_bytes (WouldBlock # evs) = sock_bytes evs"
| "sock_bytes (SockTimeout # evs) = sock_bytes evs"
| "sock_bytes (SockError # evs) = sock_bytes evs"

fun bkt_bytes :: "bkt \<Rightarrow> cstring" where
  "bkt_bytes (BData s) = s"
| "bkt_bytes (BSock evs) = sock_bytes evs"
| "bkt_bytes _ = []"

definition bb_bytes :: "bkt list \<Rightarrow> cstring" where
  "bb_bytes bb = concat (map bkt_bytes bb)"

lemma bb_bytes_simps [simp]:
  "bb_bytes [] = []" "bb_bytes (e # bb) = bkt_bytes e @ bb_bytes bb" "bb_bytes (b1 @ b2) = bb_bytes b1 @ bb_bytes b2"
  by (simp_all add: bb_bytes_def)

lemma mem_bytes_simps [simp]:
  "mem_bytes [] = []" "mem_bytes (e # bb) = mem_data e @ mem_bytes bb" "mem_bytes (b1 @ b2) = mem_bytes b1 @ mem_bytes b2"
  by (simp_all add: mem_bytes_def)

text \<open>A brigade in memory, data buckets only.\<close>

definition in_memory :: "bkt list \<Rightarrow> bool" where
  "in_memory bb \<longleftrightarrow> list_all (\<lambda>e. case e of BData s \<Rightarrow> True | _ \<Rightarrow> False) bb"

lemma in_memory_simps [simp]:
  "in_memory []" "in_memory (e # bb) \<longleftrightarrow> (\<exists>s. e = BData s) \<and> in_memory bb"
  "in_memory (b1 @ b2) \<longleftrightarrow> in_memory b1 \<and> in_memory b2"
  by (auto simp: in_memory_def split: bkt.splits)

lemma in_memory_bytes: "in_memory bb \<Longrightarrow> bb_bytes bb = mem_bytes bb"
  by (induction bb) auto

lemma in_memory_length: "in_memory bb \<Longrightarrow> brigade_length bb = int (length (mem_bytes bb))"
  by (induction bb) auto

text \<open>Sockets that do not fail; in a brigade nothing follows the socket, and there is no metadata.\<close>

fun sock_ok :: "sock_event list \<Rightarrow> bool" where
  "sock_ok [] = True"
| "sock_ok (Arrive s # evs) = (s \<noteq> [] \<and> sock_ok evs)"
| "sock_ok (WouldBlock # evs) = sock_ok evs"
| "sock_ok (SockTimeout # evs) = False"
| "sock_ok (SockError # evs) = False"

fun bkt_ok :: "bkt \<Rightarrow> bool" where
  "bkt_ok (BData s) = True"
| "bkt_ok (BSock evs) = sock_ok evs"
| "bkt_ok _ = False"

fun bb_ok :: "bkt list \<Rightarrow> bool" where
  "bb_ok [] = True"
| "bb_ok (BData s # bb) = bb_ok bb"
| "bb_ok (BSock evs # bb) = (sock_ok evs \<and> bb = [])"
| "bb_ok _ = False"

lemma bb_ok_ConsD: "bb_ok (e # bb) \<Longrightarrow> bkt_ok e \<and> bb_ok bb \<and> \<not> is_metadata e"
  by (cases e) simp_all

lemma socket_read_ok:
  "socket_read nb evs = (st, s, es) \<Longrightarrow> sock_ok evs \<Longrightarrow> bb_ok es \<and> bb_ok (tl es)"
  by (induction nb evs rule: socket_read.induct) (auto split: if_splits)

lemma bb_ok_read:
  assumes "bb_ok (e # bb)" "bkt_read nb e = (st, s, es)"
  shows "bb_ok (es @ bb) \<and> bb_ok (tl es @ bb)"
  using assms socket_read_ok [of nb _ st s es] by (cases e) auto

section \<open>Nothing is lost\<close>

lemma socket_read_bytes:
  assumes "socket_read nb evs = (st, s, es)"
  shows "bb_bytes es = sock_bytes evs \<and> es \<noteq> [] \<and> (st = APR_SUCCESS \<longrightarrow> hd es = BData s) \<and>
    (sock_ok evs \<longrightarrow> (\<not> nb \<longrightarrow> st = APR_SUCCESS \<and> (s = [] \<longrightarrow> sock_bytes evs = [])))"
  using assms by (induction nb evs rule: socket_read.induct) (auto split: if_splits)

lemma bkt_read_facts:
  assumes "bkt_read nb e = (st, s, es)"
  shows "bb_bytes es = bkt_bytes e \<and> es \<noteq> [] \<and>
    (st = APR_SUCCESS \<longrightarrow> bkt_bytes (hd es) = s \<and> (is_metadata e \<or> hd es = BData s)) \<and>
    (bkt_ok e \<longrightarrow> (\<not> nb \<longrightarrow> st = APR_SUCCESS \<and> (s = [] \<longrightarrow> bkt_bytes e = [])))"
proof (cases e)
  case (BSock evs)
  with assms socket_read_bytes [of nb evs st s es] show ?thesis by auto
qed (use assms in auto)

lemma bkt_read_bytes:
  assumes "bkt_read nb e = (st, s, es)"
  shows "bb_bytes es = bkt_bytes e"
    and "st = APR_SUCCESS \<Longrightarrow> bkt_bytes e = s @ bb_bytes (tl es)"
  using bkt_read_facts [OF assms] by (cases es; auto)+

lemma split_line_bytes:
  "brigade_split_line nb m r out b = (st, out', b') \<Longrightarrow> bb_bytes out' @ bb_bytes b' = bb_bytes out @ bb_bytes b"
proof (induction nb m r out b arbitrary: st out' b' rule: brigade_split_line.induct)
  case (1 nb m r out)
  then show ?case by (auto simp: brigade_split_line.simps)
next
  case (2 nb m r out e b)
  obtain st1 s es where rd: "bkt_read nb e = (st1, s, es)" by (cases "bkt_read nb e")
  note B = bkt_read_bytes [OF rd]
  show ?case
  proof (cases "st1 = APR_SUCCESS")
    case False
    with 2(2) rd have "out' = out" "b' = es @ b" by (auto simp: brigade_split_line.simps)
    with B(1) show ?thesis by simp
  next
    case ok: True
    show ?thesis
    proof (cases "LF \<in> set s")
      case True
      define n where "n = length (takeWhile (\<lambda>c. c \<noteq> LF) s) + 1"
      have "out' = out @ [BData (take n s)]" "b' = BData (drop n s) # tl es @ b"
        using True ok 2(2) rd by (auto simp: brigade_split_line.simps Let_def n_def)
      with B(2) [OF ok] show ?thesis by simp
    next
      case False
      have p: "bb_bytes (line_piece e s) = s"
        using rd by (cases e) (auto simp: line_piece_def)
      show ?thesis
      proof (cases "r + length s \<ge> m")
        case True
        then have "out' = out @ line_piece e s" "b' = tl es @ b"
          using ok False 2(2) rd by (auto simp: brigade_split_line.simps Let_def)
        with B(2) [OF ok] p show ?thesis by simp
      next
        case cont: False
        have "brigade_split_line nb m (r + length s) (out @ line_piece e s) (tl es @ b) = (st, out', b')"
          using ok False cont 2(2) rd by (simp add: brigade_split_line.simps Let_def)
        then have "bb_bytes out' @ bb_bytes b' = bb_bytes (out @ line_piece e s) @ bb_bytes (tl es @ b)"
          using 2(1) [OF refl refl refl] rd ok False cont by simp
        with B(2) [OF ok] p show ?thesis by simp
      qed
    qed
  qed
qed

lemma partition_loop_bytes:
  "partition_loop p b = (st, before, after) \<Longrightarrow> bb_bytes before @ bb_bytes after = bb_bytes b"
proof (induction p b arbitrary: st before after rule: partition_loop.induct)
  case (1 p)
  then show ?case by (auto simp: partition_loop.simps)
next
  case (2 p e b)
  obtain st1 s es where rd: "bkt_read False e = (st1, s, es)" by (cases "bkt_read False e")
  note B = bkt_read_bytes [OF rd] and F = bkt_read_facts [OF rd]
  show ?case
  proof (cases "bkt_length e = - 1 \<and> st1 \<noteq> APR_SUCCESS")
    case True
    with 2(2) rd have "before = []" "after = es @ b" by (auto simp: partition_loop.simps)
    with B(1) show ?thesis by simp
  next
    case False
    then have ok: "st1 = APR_SUCCESS" using rd by (cases e) auto
    have hd: "bkt_bytes (hd es) = s" using F ok by simp
    consider "p < length s" | "p = length s" | "length s < p" by linarith
    then show ?thesis
    proof cases
      case 1
      with 2(2) rd ok have "before = [BData (take p s)]" "after = BData (drop p s) # tl es @ b"
        by (auto simp: partition_loop.simps Let_def)
      with B(2) [OF ok] show ?thesis by simp
    next
      case at: 2
      with 2(2) rd ok have "before = [hd es]" "after = tl es @ b"
        by (auto simp: partition_loop.simps Let_def)
      with B(2) [OF ok] hd show ?thesis by simp
    next
      case 3
      obtain be where rest: "partition_loop (p - length s) (tl es @ b) = (st, be, after)" "before = hd es # be"
        using 2(2) rd ok 3 by (auto simp: partition_loop.simps Let_def split: prod.splits)
      then have "bb_bytes be @ bb_bytes after = bb_bytes (tl es @ b)"
        using 2(1) [OF refl refl refl] rd ok 3 by simp
      with rest B(2) [OF ok] hd show ?thesis by simp
    qed
  qed
qed

lemma partition_bytes:
  "brigade_partition b p = (st, before, after) \<Longrightarrow> bb_bytes before @ bb_bytes after = bb_bytes b"
  by (auto simp: brigade_partition_def partition_loop_bytes split: if_splits)

text \<open>Within the first bucket, the case the core filter relies on.\<close>

lemma partition_first:
  assumes "0 < p" "p \<le> length s"
  shows "\<exists>after. brigade_partition (BData s # b) (int p) = (APR_SUCCESS, [BData (take p s)], after) \<and>
           bb_bytes after = drop p s @ bb_bytes b \<and> (bb_ok b \<longrightarrow> bb_ok after)"
  using assms by (cases "p = length s") (auto simp: brigade_partition_def partition_loop.simps)

section \<open>A blocking read finds the line\<close>

lemma split_at_LF:
  assumes "s @ x = l @ LF # rest" "LF \<notin> set l"
  shows "if LF \<in> set s then takeWhile (\<lambda>c. c \<noteq> LF) s = l \<and> drop (Suc (length l)) s @ x = rest
         else \<exists>l'. l = s @ l' \<and> x = l' @ LF # rest"
  using assms
proof (induction s arbitrary: l)
  case (Cons c s)
  then show ?case by (cases l) auto
qed simp

lemma take_line: "LF \<in> set s \<Longrightarrow> takeWhile (\<lambda>c. c \<noteq> LF) s = l \<Longrightarrow> take (Suc (length l)) s = l @ [LF]"
  by (induction s arbitrary: l) auto

lemma split_line_finds:
  assumes "bb_ok b" "bb_bytes b = l @ LF # rest" "LF \<notin> set l" "r + length l < m" "in_memory out"
  shows "\<exists>out' b'. brigade_split_line False m r out b = (APR_SUCCESS, out', b') \<and> in_memory out' \<and>
    mem_bytes out' = mem_bytes out @ l @ [LF] \<and> bb_bytes b' = rest \<and> bb_ok b'"
  using assms
proof (induction False m r out b arbitrary: l rule: brigade_split_line.induct)
  case (2 m r out e b)
  obtain st s es where rd: "bkt_read False e = (st, s, es)" by (cases "bkt_read False e")
  note F = bkt_read_facts [OF rd]
  have eb: "bkt_ok e" "\<not> is_metadata e" using bb_ok_ConsD [OF 2(2)] by simp_all
  have st: "st = APR_SUCCESS" using F eb(1) by simp
  note ok = st bb_ok_read [OF 2(2) rd, THEN conjunct2] eb(2)
  have bytes: "s @ bb_bytes (tl es @ b) = l @ LF # rest" using bkt_read_bytes(2) [OF rd ok(1)] 2(3) by simp
  note S = split_at_LF [OF bytes 2(4)]
  show ?case
  proof (cases "LF \<in> set s")
    case True
    then have tw: "takeWhile (\<lambda>c. c \<noteq> LF) s = l" "drop (Suc (length l)) s @ bb_bytes (tl es @ b) = rest"
      using S by auto
    have "brigade_split_line False m r out (e # b) =
        (APR_SUCCESS, out @ [BData (l @ [LF])], BData (drop (Suc (length l)) s) # tl es @ b)"
      using True rd ok(1) tw take_line [OF True tw(1)] by (simp add: brigade_split_line.simps Let_def)
    with tw ok(2) 2(6) show ?thesis by simp
  next
    case False
    then obtain l' where l': "l = s @ l'" "bb_bytes (tl es @ b) = l' @ LF # rest" using S by auto
    have p: "line_piece e s = (if s = [] then [] else [BData s])" using ok(3) by (simp add: line_piece_def)
    have "brigade_split_line False m r out (e # b) =
        brigade_split_line False m (r + length s) (out @ line_piece e s) (tl es @ b)"
      using False rd ok(1) 2(5) l'(1) by (simp add: brigade_split_line.simps Let_def)
    moreover have "\<exists>out' b'. brigade_split_line False m (r + length s) (out @ line_piece e s) (tl es @ b) =
        (APR_SUCCESS, out', b') \<and> in_memory out' \<and>
      mem_bytes out' = mem_bytes (out @ line_piece e s) @ l' @ [LF] \<and> bb_bytes b' = rest \<and> bb_ok b'"
    proof (rule 2(1) [OF refl refl refl, unfolded rd fst_conv snd_conv])
      show "\<not> st \<noteq> APR_SUCCESS" "LF \<notin> set s" using ok False by simp_all
      show "\<not> m \<le> r + length s" using 2(5) l'(1) by simp
      show "bb_ok (tl es @ b)" by (rule ok(2))
      show "bb_bytes (tl es @ b) = l' @ LF # rest" by (rule l'(2))
      show "LF \<notin> set l'" "r + length s + length l' < m" using 2(4,5) l'(1) by simp_all
      show "in_memory (out @ line_piece e s)" using 2(6) p by simp
    qed simp_all
    ultimately show ?thesis using l'(1) p by (auto split: if_splits)
  qed
qed simp

end
