(* ===== verification/Core_Input.thy ===== *)
theory Core_Input
  imports Apr_Brigade
begin

text \<open>
  The core input filter, \<open>server/core_filters.c\<close>, which every other input filter of a connection
  reads from, in all its modes. Its context is the brigade that holds what has been read from
  the socket and the socket itself. The interface it offers to the filters above it is the
  locale \<open>byte_source\<close>.
\<close>

datatype input_mode =
  AP_MODE_READBYTES | AP_MODE_GETLINE | AP_MODE_EATCRLF | AP_MODE_SPECULATIVE | AP_MODE_EXHAUSTIVE | AP_MODE_INIT

text \<open>\<open>core_net_rec\<close>: the context, once there is one, and what the socket will deliver.\<close>

record core_net =
  in_ctx :: "bkt list option"
  client_socket :: "sock_event list"

definition brigade_normalize :: "bkt list \<Rightarrow> bkt list" where
  "brigade_normalize b = filter (\<lambda>e. \<not> (bkt_length e = 0 \<and> \<not> is_metadata e)) b"

section \<open>AP_MODE_EATCRLF\<close>

text \<open>
  Whether a buffer is full of line ends. \<open>over\<close> is the byte of memory behind it, which the code
  looks at when the last byte is a CR.
\<close>

function crlf_only :: "char \<Rightarrow> cstring \<Rightarrow> bool" where
  "crlf_only over [] = True"
| "crlf_only over (c # s) =
     (if c = LF then crlf_only over s
      else if c = CR \<and> (if s = [] then over else hd s) = LF then crlf_only over (drop 1 s)
      else False)"
  by pat_completeness auto

termination by (relation "measure (\<lambda>(_, s). length s)") auto

function eat_crlf :: "char \<Rightarrow> bkt list \<Rightarrow> apr_status \<times> bkt list" where
  "eat_crlf over [] = (APR_EOF, [])"
| "eat_crlf over (e # b) =
     (let st = fst (bkt_read True e);
          str = fst (snd (bkt_read True e));
          es = snd (snd (bkt_read True e))
      in if st \<noteq> APR_SUCCESS then (st, es @ b)
         else if \<not> crlf_only over str then (APR_SUCCESS, es @ b)
         else eat_crlf over (tl es @ b))"
  by pat_completeness auto

termination by (relation "measure (\<lambda>(_, b). bb_size b)") (simp_all add: bkt_read_size)

section \<open>AP_MODE_READBYTES and AP_MODE_SPECULATIVE\<close>

text \<open>Status, what is added to \<open>b\<close>, and the new context.\<close>

definition core_read_bytes :: "bool \<Rightarrow> bool \<Rightarrow> int \<Rightarrow> bkt list \<Rightarrow> apr_status \<times> bkt list \<times> bkt list" where
  "core_read_bytes speculative nonblock readbytes ctx =
     (case ctx of
        [] \<Rightarrow> (APR_EOF, [], [])
      | e # rest \<Rightarrow>
          (case bkt_read nonblock e of (st, str, es) \<Rightarrow>
             if st = APR_EAGAIN then (APR_SUCCESS, [], es @ rest)
             else if st \<noteq> APR_SUCCESS then (st, [], es @ rest)
             else if \<not> nonblock \<and> str = [] then
               (APR_SUCCESS, if speculative then [] else [BEos], tl es @ rest)
             else
               (case brigade_partition (es @ rest) (if int (length str) < readbytes then int (length str) else readbytes) of
                  (rv, before, after) \<Rightarrow>
                    if rv \<noteq> APR_SUCCESS then (rv, [], before @ after)
                    else if speculative then (APR_SUCCESS, before, before @ after)
                    else (APR_SUCCESS, before, after))))"

text \<open>\<open>ap_core_input_filter\<close>: its status, what it adds to the brigade \<open>b\<close>, and its state.\<close>

definition core_input_filter ::
  "char \<Rightarrow> core_net \<Rightarrow> input_mode \<Rightarrow> bool \<Rightarrow> int \<Rightarrow> apr_status \<times> bkt list \<times> core_net" where
  "core_input_filter over net mode nonblock readbytes =
     (if mode = AP_MODE_INIT then (APR_SUCCESS, [], net)
      else if in_ctx net = Some [] then (APR_EOF, [], net)
      else
        (let b0 = (case in_ctx net of None \<Rightarrow> [BSock (client_socket net)] | Some b \<Rightarrow> b);
             ctx = brigade_normalize b0;
             set = (\<lambda>b. net\<lparr>in_ctx := Some b\<rparr>)
         in if ctx = [] then (APR_EOF, [], set [])
            else case mode of
                AP_MODE_GETLINE \<Rightarrow>
                  (case brigade_split_line nonblock HUGE_STRING_LEN 0 [] ctx of (rv, out, ctx') \<Rightarrow>
                     (if rv = APR_EAGAIN then APR_SUCCESS else rv, out, set ctx'))
              | AP_MODE_EATCRLF \<Rightarrow> (case eat_crlf over ctx of (rv, ctx') \<Rightarrow> (rv, [], set ctx'))
              | AP_MODE_EXHAUSTIVE \<Rightarrow> (APR_SUCCESS, ctx @ [BEos], set [])
              | AP_MODE_READBYTES \<Rightarrow>
                  (case core_read_bytes False nonblock readbytes ctx of (rv, out, ctx') \<Rightarrow> (rv, out, set ctx'))
              | _ \<Rightarrow>
                  (case core_read_bytes True nonblock readbytes ctx of (rv, out, ctx') \<Rightarrow> (rv, out, set ctx'))))"

section \<open>The interface\<close>

text \<open>
  What a filter may rely on below it, for blocking reads: \<open>get\<close> delivers the stream \<open>content\<close>
  line by line, or in pieces of at most the size asked for, and never a byte out of order.
\<close>

locale byte_source =
  fixes get :: "'n \<Rightarrow> input_mode \<Rightarrow> bool \<Rightarrow> int \<Rightarrow> apr_status \<times> bkt list \<times> 'n"
    and content :: "'n \<Rightarrow> cstring" and source_ok :: "'n \<Rightarrow> bool"
  assumes get_line: "\<lbrakk>source_ok n; content n = l @ LF # rest; LF \<notin> set l; length l < HUGE_STRING_LEN\<rbrakk> \<Longrightarrow>
      \<exists>b n'. get n AP_MODE_GETLINE False k = (APR_SUCCESS, b, n') \<and> in_memory b \<and> mem_bytes b = l @ [LF] \<and>
        content n' = rest \<and> source_ok n'"
    and get_bytes: "\<lbrakk>source_ok n; content n \<noteq> []; 0 < k\<rbrakk> \<Longrightarrow>
      \<exists>b n'. get n AP_MODE_READBYTES False k = (APR_SUCCESS, b, n') \<and> in_memory b \<and> mem_bytes b \<noteq> [] \<and>
        int (length (mem_bytes b)) \<le> k \<and> content n = mem_bytes b @ content n' \<and> source_ok n'"

section \<open>The core filter provides it\<close>

definition net_bytes :: "core_net \<Rightarrow> cstring" where
  "net_bytes net = (case in_ctx net of None \<Rightarrow> sock_bytes (client_socket net) | Some b \<Rightarrow> bb_bytes b)"

definition net_ok :: "core_net \<Rightarrow> bool" where
  "net_ok net \<longleftrightarrow> (case in_ctx net of None \<Rightarrow> sock_ok (client_socket net) | Some b \<Rightarrow> bb_ok b)"

lemma normalize_bytes [simp]: "bb_bytes (brigade_normalize b) = bb_bytes b"
proof (induction b)
  case (Cons e b)
  then show ?case by (cases e) (auto simp: brigade_normalize_def)
qed (simp add: brigade_normalize_def)

lemma normalize_ok: "bb_ok b \<Longrightarrow> bb_ok (brigade_normalize b)"
proof (induction b rule: bb_ok.induct)
  case (2 s b)
  then show ?case by (cases "s = []") (auto simp: brigade_normalize_def)
qed (auto simp: brigade_normalize_def)

lemma normalize_hd: "brigade_normalize b = e # rest \<Longrightarrow> e \<noteq> BData []"
proof -
  assume "brigade_normalize b = e # rest"
  then have "e \<in> set (brigade_normalize b)" by simp
  then show ?thesis by (auto simp: brigade_normalize_def)
qed

lemma core_read_bytes_conserves:
  assumes "core_read_bytes False nb k ctx = (st, out, ctx')"
  shows "bb_bytes out @ bb_bytes ctx' = bb_bytes ctx"
proof (cases ctx)
  case (Cons e rest)
  obtain st1 s es where rd: "bkt_read nb e = (st1, s, es)" by (cases "bkt_read nb e")
  note B = bkt_read_bytes [OF rd]
  consider "st1 \<noteq> APR_SUCCESS" | "st1 = APR_SUCCESS" "\<not> nb" "s = []" | "st1 = APR_SUCCESS" "nb \<or> s \<noteq> []" by auto
  then show ?thesis
  proof cases
    case 1
    with assms Cons rd B(1) show ?thesis by (auto simp: core_read_bytes_def split: if_splits)
  next
    case 2
    with assms Cons rd B(2) show ?thesis by (auto simp: core_read_bytes_def)
  next
    case 3
    with assms Cons rd B(1) show ?thesis
      by (auto simp: core_read_bytes_def dest!: partition_bytes split: prod.splits if_splits)
  qed
qed (use assms in \<open>simp add: core_read_bytes_def\<close>)

lemma core_read_bytes_progress:
  assumes "bb_ok ctx" "bb_bytes ctx \<noteq> []" "0 < k" "ctx = brigade_normalize b"
  shows "\<exists>out ctx'. core_read_bytes False False k ctx = (APR_SUCCESS, out, ctx') \<and> in_memory out \<and>
    mem_bytes out \<noteq> [] \<and> int (length (mem_bytes out)) \<le> k \<and> bb_ok ctx'"
proof (cases ctx)
  case (Cons e rest)
  obtain st s es where rd: "bkt_read False e = (st, s, es)" by (cases "bkt_read False e")
  note F = bkt_read_facts [OF rd]
  have eb: "bkt_ok e" "\<not> is_metadata e" using bb_ok_ConsD assms(1) Cons by auto
  have st: "st = APR_SUCCESS" using F eb(1) by simp
  have hd: "es = BData s # tl es" using F st eb(2) by (cases es) auto
  have ok: "bb_ok (tl es @ rest)" using bb_ok_read [OF _ rd, of rest] assms(1) Cons by simp
  have ne: "s \<noteq> []"
  proof
    assume "s = []"
    then have "bkt_bytes e = []" using F eb(1) by simp
    moreover have "e \<noteq> BData []" using normalize_hd assms(4) Cons by metis
    ultimately have "rest = []" using assms(1) Cons eb(2) by (cases e) auto
    with \<open>bkt_bytes e = []\<close> assms(2) Cons show False by simp
  qed
  define p where "p = (if int (length s) < k then length s else nat k)"
  have p: "0 < p" "p \<le> length s" "int p \<le> k" "(if int (length s) < k then int (length s) else k) = int p"
    using ne assms(3) by (auto simp: p_def)
  from partition_first [OF p(1,2), of "tl es @ rest"] obtain after where
    a: "brigade_partition (BData s # tl es @ rest) (int p) = (APR_SUCCESS, [BData (take p s)], after)"
      "bb_ok (tl es @ rest) \<longrightarrow> bb_ok after" by auto
  have app: "es @ rest = BData s # tl es @ rest" using hd by (metis append_Cons)
  have "core_read_bytes False False k ctx = (APR_SUCCESS, [BData (take p s)], after)"
    unfolding Cons core_read_bytes_def list.case rd prod.case app p(4) a(1) using st ne by simp
  then show ?thesis using a(2) ok p ne by auto
qed (use assms in simp)

lemma core_get_line:
  assumes "net_ok n" "net_bytes n = l @ LF # rest" "LF \<notin> set l" "length l < HUGE_STRING_LEN"
  shows "\<exists>b n'. core_input_filter over n AP_MODE_GETLINE False k = (APR_SUCCESS, b, n') \<and> in_memory b \<and>
    mem_bytes b = l @ [LF] \<and> net_bytes n' = rest \<and> net_ok n'"
proof -
  define b0 where "b0 = (case in_ctx n of None \<Rightarrow> [BSock (client_socket n)] | Some b \<Rightarrow> b)"
  have b0: "bb_ok b0" "bb_bytes b0 = l @ LF # rest" "in_ctx n \<noteq> Some []"
    using assms(1,2) by (auto simp: b0_def net_ok_def net_bytes_def split: option.splits)
  let ?c = "brigade_normalize b0"
  have c: "bb_ok ?c" "bb_bytes ?c = l @ LF # rest" using b0 normalize_ok by simp_all
  then have "?c \<noteq> []" by (metis append_is_Nil_conv bb_bytes_simps(1) list.distinct(1))
  moreover from split_line_finds [OF c assms(3), of 0 HUGE_STRING_LEN "[]"] assms(4) obtain out ctx' where
    "brigade_split_line False HUGE_STRING_LEN 0 [] ?c = (APR_SUCCESS, out, ctx')" "in_memory out"
    "mem_bytes out = l @ [LF]" "bb_bytes ctx' = rest" "bb_ok ctx'" by auto
  ultimately show ?thesis using b0(3)
    by (simp add: core_input_filter_def b0_def [symmetric] net_ok_def net_bytes_def)
qed

lemma core_get_bytes:
  assumes "net_ok n" "net_bytes n \<noteq> []" "0 < k"
  shows "\<exists>b n'. core_input_filter over n AP_MODE_READBYTES False k = (APR_SUCCESS, b, n') \<and> in_memory b \<and>
    mem_bytes b \<noteq> [] \<and> int (length (mem_bytes b)) \<le> k \<and> net_bytes n = mem_bytes b @ net_bytes n' \<and> net_ok n'"
proof -
  define b0 where "b0 = (case in_ctx n of None \<Rightarrow> [BSock (client_socket n)] | Some b \<Rightarrow> b)"
  have b0: "bb_ok b0" "bb_bytes b0 = net_bytes n" "in_ctx n \<noteq> Some []"
    using assms(1,2) by (auto simp: b0_def net_ok_def net_bytes_def split: option.splits)
  let ?c = "brigade_normalize b0"
  have c: "bb_ok ?c" "bb_bytes ?c = net_bytes n" using b0 normalize_ok by simp_all
  then have ne: "?c \<noteq> []" using assms(2) by (metis bb_bytes_simps(1))
  from core_read_bytes_progress [OF c(1) _ assms(3) refl] c(2) assms(2) obtain out ctx' where
    o: "core_read_bytes False False k ?c = (APR_SUCCESS, out, ctx')" "in_memory out" "mem_bytes out \<noteq> []"
      "int (length (mem_bytes out)) \<le> k" "bb_ok ctx'" by auto
  moreover have "mem_bytes out @ bb_bytes ctx' = net_bytes n"
    using core_read_bytes_conserves [OF o(1)] in_memory_bytes [OF o(2)] c(2) by simp
  ultimately show ?thesis using b0(3) ne
    by (simp add: core_input_filter_def b0_def [symmetric] net_ok_def net_bytes_def)
qed

interpretation core: byte_source "core_input_filter over" net_bytes net_ok for over
  by unfold_locales (auto intro: core_get_line core_get_bytes)

section \<open>Properties\<close>

lemma core_read_speculative:
  assumes "core_read_bytes True nb k ctx = (st, out, ctx')"
  shows "bb_bytes ctx' = bb_bytes ctx \<and> (\<exists>x. bb_bytes ctx = bb_bytes out @ x)"
proof (cases ctx)
  case (Cons e rest)
  obtain st1 s es where rd: "bkt_read nb e = (st1, s, es)" by (cases "bkt_read nb e")
  note B = bkt_read_bytes [OF rd]
  consider "st1 \<noteq> APR_SUCCESS" | "st1 = APR_SUCCESS" "\<not> nb" "s = []" | "st1 = APR_SUCCESS" "nb \<or> s \<noteq> []" by auto
  then show ?thesis
  proof cases
    case 1
    with assms Cons rd B(1) show ?thesis by (auto simp: core_read_bytes_def split: if_splits)
  next
    case 2
    with assms Cons rd B(2) show ?thesis by (auto simp: core_read_bytes_def)
  next
    case 3
    obtain rv be af where p: "brigade_partition (es @ rest) (if int (length s) < k then int (length s) else k) = (rv, be, af)"
      by (cases "brigade_partition (es @ rest) (if int (length s) < k then int (length s) else k)")
    have "ctx' = be @ af" "out = [] \<or> out = be"
      using assms 3 unfolding Cons core_read_bytes_def list.case rd prod.case p by (auto split: if_splits)
    moreover have "bb_bytes be @ bb_bytes af = bb_bytes ctx" using partition_bytes [OF p] B(1) Cons by simp
    ultimately show ?thesis by (metis append_Nil bb_bytes_simps(1,3))
  qed
qed (use assms in \<open>simp add: core_read_bytes_def\<close>)

lemma crlf_only_set: "crlf_only over s \<Longrightarrow> set s \<subseteq> {CR, LF}"
proof (induction over s rule: crlf_only.induct)
  case (2 over c s)
  then show ?case by (cases s) (auto split: if_splits)
qed simp

lemma eat_crlf_bytes: "eat_crlf over b = (st, b') \<Longrightarrow> \<exists>eaten. bb_bytes b = eaten @ bb_bytes b' \<and> set eaten \<subseteq> {CR, LF}"
proof (induction over b rule: eat_crlf.induct)
  case (2 over e b)
  obtain st1 s es where rd: "bkt_read True e = (st1, s, es)" by (cases "bkt_read True e")
  have B: "bb_bytes es = bkt_bytes e" using bkt_read_bytes(1) [OF rd] .
  show ?case
  proof (cases "st1 = APR_SUCCESS \<and> crlf_only over s")
    case True
    then have "eat_crlf over (tl es @ b) = (st, b')" using 2(2) rd by simp
    with 2(1) rd True obtain x where x: "bb_bytes (tl es @ b) = x @ bb_bytes b'" "set x \<subseteq> {CR, LF}" by fastforce
    have "bb_bytes (e # b) = s @ bb_bytes (tl es @ b)" using bkt_read_bytes(2) [OF rd] True by simp
    then show ?thesis using x crlf_only_set True by (intro exI [of _ "s @ x"]) auto
  next
    case False
    then show ?thesis using 2(2) rd B by (auto split: if_splits)
  qed
qed simp

lemma core_input_bytes:
  assumes "core_input_filter over net mode nonblock k = (st, out, net')"
  shows "mode \<in> {AP_MODE_READBYTES, AP_MODE_GETLINE, AP_MODE_EXHAUSTIVE} \<Longrightarrow> bb_bytes out @ net_bytes net' = net_bytes net"
    and "mode = AP_MODE_SPECULATIVE \<Longrightarrow> net_bytes net' = net_bytes net \<and> (\<exists>x. net_bytes net = bb_bytes out @ x)"
    and "mode = AP_MODE_EATCRLF \<Longrightarrow> out = [] \<and> (\<exists>eaten. net_bytes net = eaten @ net_bytes net' \<and> set eaten \<subseteq> {CR, LF})"
proof -
  define b0 where "b0 = (case in_ctx net of None \<Rightarrow> [BSock (client_socket net)] | Some b \<Rightarrow> b)"
  have b0: "bb_bytes b0 = net_bytes net" by (auto simp: b0_def net_bytes_def split: option.splits)
  have e: "brigade_normalize b0 = [] \<Longrightarrow> net_bytes net = []" using b0 normalize_bytes by (metis bb_bytes_simps(1))
  note D = core_input_filter_def b0_def [symmetric] Let_def
  show "mode \<in> {AP_MODE_READBYTES, AP_MODE_GETLINE, AP_MODE_EXHAUSTIVE} \<Longrightarrow> bb_bytes out @ net_bytes net' = net_bytes net"
    using assms e b0
    by (auto simp: D net_bytes_def split: if_splits prod.splits dest!: split_line_bytes core_read_bytes_conserves)
  show "mode = AP_MODE_SPECULATIVE \<Longrightarrow> net_bytes net' = net_bytes net \<and> (\<exists>x. net_bytes net = bb_bytes out @ x)"
    using assms e b0
    by (auto simp: D net_bytes_def split: if_splits prod.splits dest!: core_read_speculative)
  show "mode = AP_MODE_EATCRLF \<Longrightarrow> out = [] \<and> (\<exists>eaten. net_bytes net = eaten @ net_bytes net' \<and> set eaten \<subseteq> {CR, LF})"
    using assms e b0
    by (auto simp: D net_bytes_def split: if_splits prod.splits dest!: eat_crlf_bytes)
qed

text \<open>
  C38. The core filter neither loses, repeats nor reorders a byte of the connection, in any mode,
  blocking or not, at errors, time-outs and line limits: what it hands out in the modes
  \<open>READBYTES\<close>, \<open>GETLINE\<close> and \<open>EXHAUSTIVE\<close> followed by what is left is what there was; a
  speculative read hands out a copy of the first bytes and leaves everything; \<open>EATCRLF\<close> hands
  out nothing and drops nothing but leading bytes CR and LF; \<open>INIT\<close> changes nothing.
\<close>

theorem core_input_conserves:
  assumes "core_input_filter over net mode nonblock k = (st, out, net')"
  shows "case mode of
      AP_MODE_SPECULATIVE \<Rightarrow> net_bytes net' = net_bytes net \<and> (\<exists>x. net_bytes net = bb_bytes out @ x)
    | AP_MODE_EATCRLF \<Rightarrow> out = [] \<and> (\<exists>eaten. net_bytes net = eaten @ net_bytes net' \<and> set eaten \<subseteq> {CR, LF})
    | AP_MODE_INIT \<Rightarrow> out = [] \<and> net' = net
    | _ \<Rightarrow> bb_bytes out @ net_bytes net' = net_bytes net"
proof (cases mode)
  case AP_MODE_INIT
  with assms show ?thesis by (simp add: core_input_filter_def)
qed (use core_input_bytes [OF assms] in simp_all)

definition sample_net :: core_net where
  "sample_net = \<lparr>in_ctx = None, client_socket = [Arrive ''GE'', WouldBlock, Arrive ''T'', SockTimeout, Arrive ''x'']\<rparr>"

theorem core_input_conserves_witness:
  "bb_bytes [BData ''GE''] @ net_bytes (sample_net\<lparr>in_ctx := Some [BSock [Arrive ''T'', SockTimeout, Arrive ''x'']]\<rparr>) =
     net_bytes sample_net"
proof -
  have "core_input_filter NUL sample_net AP_MODE_GETLINE True 0 =
      (APR_SUCCESS, [BData ''GE''], sample_net\<lparr>in_ctx := Some [BSock [Arrive ''T'', SockTimeout, Arrive ''x'']]\<rparr>)"
    by (simp add: core_input_filter_def sample_net_def brigade_normalize_def brigade_split_line.simps line_piece_def
        HUGE_STRING_LEN_def)
  from core_input_conserves [OF this] show ?thesis by simp
qed

text \<open>When a buffer ends with a CR, the answer of \<open>AP_MODE_EATCRLF\<close> depends on the byte behind it.\<close>

lemma eat_crlf_reads_over:
  "crlf_only LF [LF, CR]" "\<not> crlf_only NUL [LF, CR]"
  by simp_all

end
