(* ===== verification/Http_Chunk.thy ===== *)
theory Http_Chunk
  imports Core_Input Http_Cond Libc
begin

text \<open>
  Request and response bodies: the chunked transfer coding as the server writes it
  (\<open>modules/http/chunk_filter.c\<close>) and reads it, with bodies delimited by a Content-Length
  (\<open>ap_http_filter\<close> in \<open>modules/http/http_filters.c\<close>). The input filter reads from the filter
  below it through the interface \<open>byte_source\<close> of the core filter.
\<close>

section \<open>The size of a chunk\<close>

text \<open>
  \<open>get_chunk_size\<close>. A \<open>long\<close> has 64 bits; \<open>chunkbits\<close> counts those still free. -2 is
  \<open>INVALID_CHAR\<close>.
\<close>

definition INVALID_CHAR :: int where "INVALID_CHAR = - 2"

fun chunk_size_loop :: "nat \<Rightarrow> 64 word \<Rightarrow> cstring \<Rightarrow> int" where
  "chunk_size_loop chunkbits chunksize [] = sint chunksize"
| "chunk_size_loop chunkbits chunksize (c # b) =
     (if \<not> c_isxdigit c then sint chunksize
      else if chunkbits > 0 then
        chunk_size_loop (chunkbits - 4) (or (push_bit 4 chunksize) (of_nat (hex_digit_value c))) b
      else - 1)"

definition get_chunk_size :: "cstring \<Rightarrow> int" where
  "get_chunk_size b =
     (if \<not> c_isxdigit (cget b 0) then INVALID_CHAR
      else chunk_size_loop 64 0 (dropWhile (\<lambda>c. c = CHR ''0'') b))"

lemma bit_small: "x < 16 \<Longrightarrow> bit (x :: nat) i \<Longrightarrow> i < 4"
proof -
  assume "x < 16" "bit x i"
  then have "take_bit 4 x = x" by (simp add: take_bit_nat_eq_self)
  with \<open>bit x i\<close> show ?thesis by (metis bit_take_bit_iff)
qed

lemma shift_in_digit:
  assumes "x < 16"
  shows "or (push_bit 4 (of_nat n :: 64 word)) (of_nat x) = of_nat (16 * n + x)"
proof -
  have "and (push_bit 4 (of_nat n :: 64 word)) (of_nat x) = 0"
    by (rule bit_word_eqI) (auto simp: bit_and_iff bit_push_bit_iff bit_of_nat_iff dest: bit_small [OF assms])
  then have "or (push_bit 4 (of_nat n :: 64 word)) (of_nat x) = push_bit 4 (of_nat n) + of_nat x"
    by (simp add: disjunctive_add_eq_or)
  then show ?thesis by (simp add: push_bit_eq_mult)
qed

text \<open>The loop, for the digits \<open>ds\<close> that are still to come and the number \<open>n\<close> read so far.\<close>

lemma chunk_size_loop_eq:
  assumes "list_all c_isxdigit ds" "rest = [] \<or> \<not> c_isxdigit (hd rest)"
  shows "chunk_size_loop (4 * k) (of_nat n) (ds @ rest) =
    (if length ds \<le> k then sint (of_nat (foldl (\<lambda>n c. 16 * n + hex_digit_value c) n ds) :: 64 word) else - 1)"
  using assms(1)
proof (induction ds arbitrary: n k)
  case Nil
  then show ?case using assms(2) by (cases rest) auto
next
  case (Cons d ds)
  show ?case
  proof (cases k)
    case (Suc k')
    have "chunk_size_loop (4 * k) (of_nat n) ((d # ds) @ rest) =
        chunk_size_loop (4 * k') (of_nat (16 * n + hex_digit_value d)) (ds @ rest)"
      using Cons.prems Suc shift_in_digit [OF hex_digit_less, of n d] by simp
    also have "\<dots> = (if length ds \<le> k' then sint (of_nat (foldl (\<lambda>n c. 16 * n + hex_digit_value c)
        (16 * n + hex_digit_value d) ds) :: 64 word) else - 1)"
      using Cons.prems by (intro Cons.IH) simp
    finally show ?thesis unfolding Suc by (simp only: foldl_Cons length_Cons Suc_le_mono)
  qed (use Cons.prems in simp)
qed

lemma foldl_hex: "foldl (\<lambda>n c. 16 * n + hex_digit_value c) n ds = n * 16 ^ length ds + hex_number ds"
proof (induction ds rule: rev_induct)
  case (snoc d ds)
  then show ?case by (simp add: hex_number_def algebra_simps)
qed (simp add: hex_number_def)

lemma hex_number_Cons: "hex_number (d # ds) = hex_digit_value d * 16 ^ length ds + hex_number ds"
  using foldl_hex [of "hex_digit_value d" ds] by (simp add: hex_number_def)

lemma hex_number_less: "hex_number ds < 16 ^ length ds"
proof (induction ds)
  case (Cons d ds)
  have "hex_digit_value d \<le> 15" using hex_digit_less [of d] by simp
  then have "hex_digit_value d * 16 ^ length ds \<le> 15 * 16 ^ length ds" by (rule mult_le_mono1)
  with Cons show ?case unfolding hex_number_Cons length_Cons power_Suc by linarith
qed (simp add: hex_number_def)

lemma hex_number_zeros: "hex_number (dropWhile (\<lambda>c. c = CHR ''0'') ds) = hex_number ds"
proof (induction ds)
  case (Cons d ds)
  have "hex_digit_value CHR ''0'' = 0" by (simp add: hex_digit_value_def c_class_defs)
  with Cons show ?case by (simp add: hex_number_Cons)
qed simp

lemma hex_number_ge:
  assumes "list_all c_isxdigit (d # ds)" "d \<noteq> CHR ''0''"
  shows "16 ^ length ds \<le> hex_number (d # ds)"
proof -
  have "hex_digit_value d \<noteq> 0"
  proof
    assume "hex_digit_value d = 0"
    then have "ccode d = ccode CHR ''0''"
      using assms(1) by (auto simp: hex_digit_value_def c_isxdigit_def c_isdigit_def ccode_def split: if_splits)
    then show False using assms(2) by simp
  qed
  then have "1 * 16 ^ length ds \<le> hex_digit_value d * 16 ^ length ds" by (intro mult_le_mono1) simp
  then show ?thesis unfolding hex_number_Cons by linarith
qed

lemma sint_of_nat_64:
  assumes "n < 2 ^ 64"
  shows "sint (of_nat n :: 64 word) = (if n < 2 ^ 63 then int n else int n - 2 ^ 64)"
proof -
  have "sint (of_nat n :: 64 word) = signed_take_bit 63 (int n)" by (simp add: signed_of_nat)
  also have "\<dots> = (int n + 2 ^ 63) mod 2 ^ 64 - 2 ^ 63"
    by (simp add: signed_take_bit_eq_take_bit_shift take_bit_eq_mod)
  also have "\<dots> = (if n < 2 ^ 63 then int n else int n - 2 ^ 64)"
  proof (cases "n < 2 ^ 63")
    case False
    have "(int n + 2 ^ 63) mod 2 ^ 64 = ((int n - 2 ^ 63) + 2 ^ 64) mod 2 ^ 64" by (simp add: ac_simps)
    also have "\<dots> = (int n - 2 ^ 63) mod 2 ^ 64" by (rule mod_add_self2)
    also have "\<dots> = int n - 2 ^ 63" using False assms by (intro mod_pos_pos_trivial) auto
    finally show ?thesis using False by simp
  qed (use assms in simp)
  finally show ?thesis .
qed

lemma get_chunk_size_value:
  assumes "list_all c_isxdigit ds" "ds \<noteq> []" "rest = [] \<or> \<not> c_isxdigit (hd rest)"
  shows "if hex_number ds < 2 ^ 63 then get_chunk_size (ds @ rest) = int (hex_number ds)
         else get_chunk_size (ds @ rest) < 0"
proof -
  define zs where "zs = dropWhile (\<lambda>c. c = CHR ''0'') ds"
  have x0: "c_isxdigit CHR ''0''" by (simp add: c_class_defs)
  have dw: "dropWhile (\<lambda>c. c = CHR ''0'') (ds @ rest) = zs @ rest"
  proof (cases "zs = []")
    case True
    then have "\<forall>c\<in>set ds. c = CHR ''0''" by (simp add: zs_def)
    moreover have "dropWhile (\<lambda>c. c = CHR ''0'') rest = rest" using assms(3) x0 by (cases rest) auto
    ultimately show ?thesis using True by simp
  qed (auto simp: zs_def dropWhile_append3 dropWhile_append1)
  have z: "list_all c_isxdigit zs" using assms(1) by (auto simp: zs_def list_all_iff dest: set_dropWhileD)
  have v: "hex_number zs = hex_number ds" by (simp add: zs_def hex_number_zeros)
  have "c_isxdigit (cget (ds @ rest) 0)" using assms(1,2) by (cases ds) auto
  then have g: "get_chunk_size (ds @ rest) = (if length zs \<le> 16 then sint (of_nat (hex_number ds) :: 64 word) else - 1)"
    using chunk_size_loop_eq [OF z assms(3), of 16 0] by (simp add: get_chunk_size_def dw foldl_hex v)
  show ?thesis
  proof (cases "length zs \<le> 16")
    case True
    have "hex_number zs < 16 ^ length zs" by (rule hex_number_less)
    also have "\<dots> \<le> 16 ^ 16" using True by (rule power_increasing) simp
    finally show ?thesis using True by (simp add: g v sint_of_nat_64)
  next
    case False
    then obtain y ys where zs: "zs = y # ys" "16 \<le> length ys" by (cases zs) auto
    then have "y \<noteq> CHR ''0''" using hd_dropWhile_not [of "\<lambda>c. c = CHR ''0''" ds] by (auto simp: zs_def [symmetric])
    then have "16 ^ length ys \<le> hex_number ds" using hex_number_ge [of y ys] z zs v by simp
    moreover have "(16 :: nat) ^ 16 \<le> 16 ^ length ys" using zs(2) by (rule power_increasing) simp
    ultimately show ?thesis using False by (simp add: g)
  qed
qed

section \<open>The context of the input filter\<close>

datatype body_state = BODY_NONE | BODY_LENGTH | BODY_CHUNK | BODY_CHUNK_PART

text \<open>
  \<open>http_ctx_t\<close>. The buffer \<open>chunk_ln\<close> of 32 bytes is modelled by the bytes before its terminating
  NUL, \<open>pos\<close> by an index into it.
\<close>

record http_ctx =
  cx_remaining :: int
  cx_limit :: int
  cx_limit_used :: int
  cx_state :: body_state
  cx_eos_sent :: bool
  cx_chunk_ln :: cstring
  cx_pos :: nat
  cx_linesize :: int

definition new_ctx :: http_ctx where
  "new_ctx = \<lparr>cx_remaining = 0, cx_limit = 0, cx_limit_used = 0, cx_state = BODY_NONE, cx_eos_sent = False,
     cx_chunk_ln = [], cx_pos = 0, cx_linesize = 0\<rparr>"

record body_request = request +
  rq_proxyreq :: int
  rq_eos_sent :: bool
  rq_bytes_sent :: int
  rq_limit_req_body :: int
  rq_limit_req_line :: int

definition PROXYREQ_RESPONSE :: int where "PROXYREQ_RESPONSE = 3"

section \<open>Reading a chunk line\<close>

text \<open>The brigade has been read in line mode, so it is in memory.\<close>

definition get_remaining_chunk_line :: "http_ctx \<Rightarrow> bkt list \<Rightarrow> int \<Rightarrow> apr_status \<times> http_ctx" where
  "get_remaining_chunk_line ctx b linelimit =
     (let len = brigade_length b
      in if len = - 1 then (APR_EGENERAL, ctx)
         else if len = 0 then (APR_EAGAIN, ctx)
         else
           (let ctx1 = ctx\<lparr>cx_linesize := cx_linesize ctx + len\<rparr>
            in if cx_linesize ctx1 > linelimit then (APR_ENOSPC, ctx1)
               else if mem_bytes b = [] then (APR_EAGAIN, ctx1)
               else if List.last (mem_bytes b) \<noteq> LF then (APR_EAGAIN, ctx1)
               else (APR_SUCCESS, ctx1\<lparr>cx_linesize := 0\<rparr>)))"

text \<open>
  \<open>get_chunk_line\<close>. With an empty brigade at the start of the buffer \<open>ctx->pos[-1]\<close> is the last
  byte of the field before it, \<open>eos_sent\<close>, which is 0 and so no line feed.
\<close>

definition get_chunk_line :: "http_ctx \<Rightarrow> bkt list \<Rightarrow> int \<Rightarrow> apr_status \<times> http_ctx" where
  "get_chunk_line ctx b linelimit =
     (let len = 32 - cx_pos ctx - 1
      in if len > 0 then
           (let str = brigade_flatten b len;
                ctx1 = ctx\<lparr>cx_chunk_ln := take (cx_pos ctx) (cx_chunk_ln ctx) @ str,
                          cx_pos := cx_pos ctx + length str,
                          cx_linesize := cx_linesize ctx + int (length str)\<rparr>
            in if cx_pos ctx1 = 0 \<or> cx_chunk_ln ctx1 ! (cx_pos ctx1 - 1) \<noteq> LF
               then get_remaining_chunk_line ctx1 b linelimit
               else (APR_SUCCESS, ctx1\<lparr>cx_pos := 0\<rparr>))
         else get_remaining_chunk_line ctx b linelimit)"

section \<open>The input filter\<close>

text \<open>
  The state around the filter: its context once it has been called, the request, the filter
  below, and the brigades it has passed to the output filters.
\<close>

record 'n http_in =
  hi_init :: bool
  hi_ctx :: http_ctx
  hi_req :: body_request
  hi_next :: 'n
  hi_passed :: "bkt list list"

abbreviation upd_ctx :: "(http_ctx \<Rightarrow> http_ctx) \<Rightarrow> 'n http_in \<Rightarrow> 'n http_in" where
  "upd_ctx f w \<equiv> w\<lparr>hi_ctx := f (hi_ctx w)\<rparr>"

definition HTTP_REQUEST_ENTITY_TOO_LARGE :: int where "HTTP_REQUEST_ENTITY_TOO_LARGE = 413"
definition HTTP_NOT_IMPLEMENTED :: int where "HTTP_NOT_IMPLEMENTED = 501"
definition HTTP_SERVICE_UNAVAILABLE :: int where "HTTP_SERVICE_UNAVAILABLE = 503"

text \<open>\<open>pass\<close> is the status \<open>ap_pass_brigade\<close> returns.\<close>

definition bail_out_on_error :: "(bkt list \<Rightarrow> apr_status) \<Rightarrow> int \<Rightarrow> 'n http_in \<Rightarrow> apr_status \<times> bkt list \<times> 'n http_in" where
  "bail_out_on_error pass http_error w =
     (let bb = [BError http_error, BEos]
      in (pass bb, [], (upd_ctx (cx_eos_sent_update (\<lambda>_. True)) w)\<lparr>hi_passed := hi_passed w @ [bb]\<rparr>))"

text \<open>
  Reading and judging a chunk line, which the code has twice, for the first chunk and for the
  following ones: \<open>None\<close> goes on with the body of the chunk. \<open>trailers\<close> is \<open>ap_get_mime_headers\<close>.
\<close>

definition chunk_error :: "(bkt list \<Rightarrow> apr_status) \<Rightarrow> apr_status \<Rightarrow> int \<Rightarrow> 'n http_in \<Rightarrow> apr_status \<times> bkt list \<times> 'n http_in" where
  "chunk_error pass rv http_error w =
     bail_out_on_error pass (if rv = APR_TIMEUP then HTTP_REQUEST_TIME_OUT else http_error)
       (upd_ctx (cx_remaining_update (\<lambda>_. 0)) w)"

definition chunk_size_read ::
  "(bkt list \<Rightarrow> apr_status) \<Rightarrow> ('n http_in \<Rightarrow> 'n http_in) \<Rightarrow> 'n http_in \<Rightarrow>
     (apr_status \<times> bkt list) option \<times> 'n http_in" where
  "chunk_size_read pass trailers w =
     (let size = get_chunk_size (cx_chunk_ln (hi_ctx w));
          w1 = upd_ctx (cx_remaining_update (\<lambda>_. size)) w
      in if size = INVALID_CHAR then
           (case chunk_error pass APR_EGENERAL HTTP_SERVICE_UNAVAILABLE w1 of (st, b, w2) \<Rightarrow> (Some (st, b), w2))
         else if size < 0 then
           (case chunk_error pass APR_SUCCESS HTTP_REQUEST_ENTITY_TOO_LARGE w1 of (st, b, w2) \<Rightarrow> (Some (st, b), w2))
         else if size = 0 then
           (let w2 = trailers (upd_ctx (cx_state_update (\<lambda>_. BODY_NONE)) w1)
            in (Some (APR_SUCCESS, [BEos]), upd_ctx (cx_eos_sent_update (\<lambda>_. True)) w2))
         else (None, w1))"

definition chunk_header ::
  "('n \<Rightarrow> input_mode \<Rightarrow> bool \<Rightarrow> int \<Rightarrow> apr_status \<times> bkt list \<times> 'n) \<Rightarrow> (bkt list \<Rightarrow> apr_status) \<Rightarrow>
     ('n http_in \<Rightarrow> 'n http_in) \<Rightarrow> bool \<Rightarrow> 'n http_in \<Rightarrow> (apr_status \<times> bkt list) option \<times> 'n http_in" where
  "chunk_header get pass trailers nonblock w =
     (case get (hi_next w) AP_MODE_GETLINE nonblock 0 of
        (rv, bb, nxt) \<Rightarrow>
          (let w1 = w\<lparr>hi_next := nxt\<rparr>
           in if nonblock \<and> ((rv = APR_SUCCESS \<and> bb = []) \<or> rv = APR_EAGAIN) then
                (Some (APR_EAGAIN, []), upd_ctx (cx_state_update (\<lambda>_. BODY_CHUNK_PART)) w1)
              else
                (let w2 = upd_ctx (cx_state_update (\<lambda>_. BODY_CHUNK)) w1
                 in if rv \<noteq> APR_SUCCESS then
                      (case chunk_error pass rv HTTP_REQUEST_ENTITY_TOO_LARGE w2 of (st, b, w3) \<Rightarrow> (Some (st, b), w3))
                    else
                      (case get_chunk_line (hi_ctx w2) bb (rq_limit_req_line (hi_req w2)) of
                         (rv', ctx') \<Rightarrow>
                           (let w3 = w2\<lparr>hi_ctx := ctx'\<rparr>
                            in if rv' = APR_EAGAIN then
                                 (Some (APR_EAGAIN, []), upd_ctx (cx_state_update (\<lambda>_. BODY_CHUNK_PART)) w3)
                               else if rv' \<noteq> APR_SUCCESS then
                                 (case chunk_error pass rv' HTTP_REQUEST_ENTITY_TOO_LARGE w3 of
                                    (st, b, w4) \<Rightarrow> (Some (st, b), w4))
                               else chunk_size_read pass trailers w3)))))"

text \<open>The first call: the headers of the request set up the context.\<close>

definition content_length_of :: "cstring \<Rightarrow> int option" where
  "content_length_of lenp =
     (case apr_strtoff lenp of
        (v, err, endstr) \<Rightarrow>
          if err \<or> length endstr = length lenp \<or> endstr \<noteq> [] \<or> v < 0 then None else Some v)"

definition init_body ::
  "(bkt list \<Rightarrow> apr_status) \<Rightarrow> 'n http_in \<Rightarrow> (apr_status \<times> bkt list) option \<times> 'n http_in" where
  "init_body pass w =
     (let r = hi_req w;
          ctx = new_ctx\<lparr>cx_limit := (if rq_proxyreq r = 0 then rq_limit_req_body r else 0)\<rparr>;
          tenc = r_headers_in r ''Transfer-Encoding'';
          lenp = r_headers_in r ''Content-Length'';
          chunked = (case tenc of None \<Rightarrow> False | Some t \<Rightarrow> strcaseeq t ''chunked'');
          w1 = w\<lparr>hi_init := True, hi_ctx := ctx\<lparr>cx_state := (if chunked then BODY_CHUNK else BODY_NONE)\<rparr>\<rparr>
      in if tenc \<noteq> None \<and> \<not> chunked \<and> lenp = None then
           (case bail_out_on_error pass HTTP_NOT_IMPLEMENTED w1 of (st, b, w2) \<Rightarrow> (Some (st, b), w2))
         else case (if chunked then None else lenp) of
             None \<Rightarrow> (None, w1)
           | Some len \<Rightarrow>
               (let w2 = upd_ctx (cx_state_update (\<lambda>_. BODY_LENGTH)) w1
                in case content_length_of len of
                     None \<Rightarrow>
                       (case bail_out_on_error pass HTTP_REQUEST_ENTITY_TOO_LARGE w2 of (st, b, w3) \<Rightarrow> (Some (st, b), w3))
                   | Some v \<Rightarrow>
                       (let w3 = upd_ctx (cx_remaining_update (\<lambda>_. v)) w2
                        in if cx_limit ctx \<noteq> 0 \<and> cx_limit ctx < v then
                             (case bail_out_on_error pass HTTP_REQUEST_ENTITY_TOO_LARGE w3 of
                                (st, b, w4) \<Rightarrow> (Some (st, b), w4))
                           else (None, w3))))"

text \<open>The interim response 100; its status and brigade are not looked at.\<close>

definition send_continue :: "'n http_in \<Rightarrow> 'n http_in" where
  "send_continue w =
     (let ctx = hi_ctx w; r = hi_req w
      in if (cx_state ctx = BODY_CHUNK \<or> (cx_state ctx = BODY_LENGTH \<and> cx_remaining ctx > 0)) \<and>
            r_expecting_100 r \<and> r_proto_num r \<ge> HTTP_VERSION 1 1 \<and> \<not> (rq_eos_sent r \<or> rq_bytes_sent r \<noteq> 0) then
           (if \<not> is_HTTP_SUCCESS (r_status r)
            then upd_ctx (cx_eos_sent_update (\<lambda>_. True)) (upd_ctx (cx_state_update (\<lambda>_. BODY_NONE)) w)
            else w\<lparr>hi_req := r\<lparr>r_expecting_100 := False\<rparr>,
                   hi_passed := hi_passed w @ [[BData (''HTTP/1.1 '' @ get_status_line 100 @ [CR, LF, CR, LF]), BFlush]]\<rparr>)
         else w)"

definition first_call ::
  "('n \<Rightarrow> input_mode \<Rightarrow> bool \<Rightarrow> int \<Rightarrow> apr_status \<times> bkt list \<times> 'n) \<Rightarrow> (bkt list \<Rightarrow> apr_status) \<Rightarrow>
     ('n http_in \<Rightarrow> 'n http_in) \<Rightarrow> bool \<Rightarrow> 'n http_in \<Rightarrow> (apr_status \<times> bkt list) option \<times> 'n http_in" where
  "first_call get pass trailers nonblock w =
     (case init_body pass w of
        (Some res, w1) \<Rightarrow> (Some res, w1)
      | (None, w1) \<Rightarrow>
          if cx_state (hi_ctx w1) = BODY_NONE \<and> rq_proxyreq (hi_req w1) \<noteq> PROXYREQ_RESPONSE then
            (Some (APR_SUCCESS, [BEos]), upd_ctx (cx_eos_sent_update (\<lambda>_. True)) w1)
          else
            (let w2 = send_continue w1
             in if cx_state (hi_ctx w2) = BODY_CHUNK then chunk_header get pass trailers nonblock w2
                else (None, w2)))"

text \<open>When the chunk or body is used up.\<close>

definition next_chunk ::
  "('n \<Rightarrow> input_mode \<Rightarrow> bool \<Rightarrow> int \<Rightarrow> apr_status \<times> bkt list \<times> 'n) \<Rightarrow> (bkt list \<Rightarrow> apr_status) \<Rightarrow>
     ('n http_in \<Rightarrow> 'n http_in) \<Rightarrow> bool \<Rightarrow> 'n http_in \<Rightarrow> (apr_status \<times> bkt list) option \<times> 'n http_in" where
  "next_chunk get pass trailers nonblock w =
     (case cx_state (hi_ctx w) of
        BODY_NONE \<Rightarrow> (None, w)
      | BODY_LENGTH \<Rightarrow> (Some (APR_SUCCESS, [BEos]), upd_ctx (cx_eos_sent_update (\<lambda>_. True)) w)
      | BODY_CHUNK_PART \<Rightarrow> chunk_header get pass trailers nonblock w
      | BODY_CHUNK \<Rightarrow>
          (case get (hi_next w) AP_MODE_GETLINE nonblock 0 of
             (rv, bb, nxt) \<Rightarrow>
               (let w1 = w\<lparr>hi_next := nxt\<rparr>
                in if nonblock \<and> ((rv = APR_SUCCESS \<and> bb = []) \<or> rv = APR_EAGAIN) then (Some (APR_EAGAIN, []), w1)
                   else if rv \<noteq> APR_SUCCESS then (Some (rv, []), w1)
                   else
                     (case get_remaining_chunk_line (hi_ctx w1) bb (rq_limit_req_line (hi_req w1)) of
                        (rv', ctx') \<Rightarrow>
                          (let w2 = w1\<lparr>hi_ctx := ctx'\<rparr>
                           in if rv' = APR_EAGAIN then (Some (APR_EAGAIN, []), w2)
                              else if rv' \<noteq> APR_SUCCESS then
                                (case chunk_error pass rv' HTTP_REQUEST_ENTITY_TOO_LARGE w2 of
                                   (st, b, w3) \<Rightarrow> (Some (st, b), w3))
                              else chunk_header get pass trailers nonblock w2)))))"

text \<open>Reading the body: within the chunk or the length, and within the limit of the server.\<close>

definition read_body ::
  "('n \<Rightarrow> input_mode \<Rightarrow> bool \<Rightarrow> int \<Rightarrow> apr_status \<times> bkt list \<times> 'n) \<Rightarrow> (bkt list \<Rightarrow> apr_status) \<Rightarrow>
     input_mode \<Rightarrow> bool \<Rightarrow> int \<Rightarrow> 'n http_in \<Rightarrow> apr_status \<times> bkt list \<times> 'n http_in" where
  "read_body get pass mode nonblock readbytes w =
     (let ctx = hi_ctx w;
          readbytes' = (if (cx_state ctx = BODY_LENGTH \<or> cx_state ctx = BODY_CHUNK) \<and> cx_remaining ctx < readbytes
                        then cx_remaining ctx else readbytes)
      in case get (hi_next w) mode nonblock readbytes' of
           (rv, b, nxt) \<Rightarrow>
             (let w1 = w\<lparr>hi_next := nxt\<rparr>
              in if rv \<noteq> APR_SUCCESS then (rv, b, w1)
                 else
                   (let totalread = brigade_length b;
                        w2 = (if cx_state ctx \<noteq> BODY_NONE then upd_ctx (cx_remaining_update (\<lambda>n. n - totalread)) w1 else w1)
                    in if cx_state ctx \<noteq> BODY_NONE \<and> cx_remaining (hi_ctx w2) > 0 \<and> b \<noteq> [] \<and> List.last b = BEos
                       then (APR_EOF, b, w2)
                       else
                         (let b' = (if cx_state ctx = BODY_LENGTH \<and> cx_remaining (hi_ctx w2) = 0 then b @ [BEos] else b)
                          in if cx_limit ctx \<noteq> 0 then
                               (let w3 = upd_ctx (cx_limit_used_update (\<lambda>n. n + totalread)) w2
                                in if cx_limit ctx < cx_limit_used (hi_ctx w3) then
                                     (case bail_out_on_error pass HTTP_REQUEST_ENTITY_TOO_LARGE w3 of (st, _, w4) \<Rightarrow> (st, b', w4))
                                   else (APR_SUCCESS, b', w3))
                             else (APR_SUCCESS, b', w2)))))"

text \<open>\<open>ap_http_filter\<close>: status, what it adds to the brigade, and the new state.\<close>

definition http_filter ::
  "('n \<Rightarrow> input_mode \<Rightarrow> bool \<Rightarrow> int \<Rightarrow> apr_status \<times> bkt list \<times> 'n) \<Rightarrow> (bkt list \<Rightarrow> apr_status) \<Rightarrow>
     ('n http_in \<Rightarrow> 'n http_in) \<Rightarrow> 'n http_in \<Rightarrow> input_mode \<Rightarrow> bool \<Rightarrow> int \<Rightarrow> apr_status \<times> bkt list \<times> 'n http_in" where
  "http_filter get pass trailers w mode nonblock readbytes =
     (if mode \<noteq> AP_MODE_READBYTES \<and> mode \<noteq> AP_MODE_GETLINE then
        (case get (hi_next w) mode nonblock readbytes of (rv, b, nxt) \<Rightarrow> (rv, b, w\<lparr>hi_next := nxt\<rparr>))
      else
        (case (if hi_init w then (None, w) else first_call get pass trailers nonblock w) of
           (Some (st, b), w1) \<Rightarrow> (st, b, w1)
         | (None, w1) \<Rightarrow>
             if cx_eos_sent (hi_ctx w1) then (APR_SUCCESS, [BEos], w1)
             else
               (case (if cx_remaining (hi_ctx w1) = 0 then next_chunk get pass trailers nonblock w1 else (None, w1)) of
                  (Some (st, b), w2) \<Rightarrow> (st, b, w2)
                | (None, w2) \<Rightarrow> read_body get pass mode nonblock readbytes w2)))"

section \<open>Reading a chunked body\<close>

lemma get_chunk_line_short:
  assumes "cx_pos ctx = 0" "in_memory b" "mem_bytes b = line @ [LF]" "length line < 31"
  shows "get_chunk_line ctx b lim = (APR_SUCCESS, ctx\<lparr>cx_chunk_ln := line @ [LF], cx_pos := 0,
           cx_linesize := cx_linesize ctx + int (length line) + 1\<rparr>)"
  using assms by (simp add: get_chunk_line_def brigade_flatten_def Let_def)

lemma get_remaining_chunk_line_ok:
  assumes "in_memory b" "mem_bytes b = line @ [LF]" "cx_linesize ctx + int (length line) + 1 \<le> lim"
  shows "get_remaining_chunk_line ctx b lim = (APR_SUCCESS, ctx\<lparr>cx_linesize := 0\<rparr>)"
  using assms by (simp add: get_remaining_chunk_line_def in_memory_length Let_def)

text \<open>
  A chunk line that does not fit into the buffer leaves \<open>pos\<close> behind its 31 bytes, and from then
  on every line of a chunk is skipped.
\<close>

lemma get_chunk_line_long:
  assumes "cx_pos ctx = 0" "in_memory b" "mem_bytes b = line @ [LF]" "31 \<le> length line" "LF \<notin> set line"
    and "cx_linesize ctx + int (length line) + 32 \<le> lim"
  shows "get_chunk_line ctx b lim = (APR_SUCCESS, ctx\<lparr>cx_chunk_ln := take 31 line, cx_pos := 31, cx_linesize := 0\<rparr>)"
proof -
  define c where "c = ctx\<lparr>cx_chunk_ln := take 31 line, cx_pos := 31, cx_linesize := cx_linesize ctx + 31\<rparr>"
  have f: "brigade_flatten b 31 = take 31 line" "length (take 31 line) = 31"
    using assms(3,4) by (simp_all add: brigade_flatten_def)
  have "take 31 line ! 30 \<in> set line" using f(2) by (metis in_set_takeD lessI nth_mem numeral_eq_Suc pred_numeral_simps(3))
  then have nolf: "take 31 line ! 30 \<noteq> LF" using assms(5) by metis
  have "get_chunk_line ctx b lim = get_remaining_chunk_line c b lim"
    using assms(1) f nolf by (simp add: get_chunk_line_def Let_def c_def)
  also have "\<dots> = (APR_SUCCESS, c\<lparr>cx_linesize := 0\<rparr>)"
    by (rule get_remaining_chunk_line_ok [OF assms(2,3)]) (use assms(6) in \<open>simp add: c_def\<close>)
  finally show ?thesis by (simp add: c_def)
qed

lemma get_chunk_line_stuck:
  assumes "cx_pos ctx = 31" "in_memory b" "mem_bytes b = line @ [LF]" "cx_linesize ctx + int (length line) + 1 \<le> lim"
  shows "get_chunk_line ctx b lim = (APR_SUCCESS, ctx\<lparr>cx_linesize := 0\<rparr>)"
  using get_remaining_chunk_line_ok [OF assms(2-4)] assms(1) by (simp add: get_chunk_line_def)

text \<open>
  A chunk is written as a line, the data and a line end; the line of a well-formed chunk gives
  the length of the data and fits with its line feed into the buffer.
\<close>

definition chunk_line_ok :: "cstring \<Rightarrow> nat \<Rightarrow> bool" where
  "chunk_line_ok line n \<longleftrightarrow> length line < 31 \<and> LF \<notin> set line \<and> get_chunk_size (line @ [LF]) = int n"

definition chunk_ok :: "cstring \<times> cstring \<Rightarrow> bool" where
  "chunk_ok c \<longleftrightarrow> snd c \<noteq> [] \<and> chunk_line_ok (fst c) (length (snd c))"

definition wire_chunk :: "cstring \<times> cstring \<Rightarrow> cstring" where
  "wire_chunk c = fst c @ [LF] @ snd c @ [CR, LF]"

definition wire_body :: "(cstring \<times> cstring) list \<Rightarrow> cstring \<Rightarrow> cstring \<Rightarrow> cstring" where
  "wire_body cs final rest = concat (map wire_chunk cs) @ final @ [LF] @ rest"

definition body_data :: "(cstring \<times> cstring) list \<Rightarrow> cstring" where
  "body_data cs = concat (map snd cs)"

lemma wire_body_simps [simp]:
  "wire_body [] final rest = final @ LF # rest"
  "wire_body (c # cs) final rest = fst c @ LF # snd c @ CR # LF # wire_body cs final rest"
  by (simp_all add: wire_body_def wire_chunk_def)

lemma body_data_simps [simp]: "body_data [] = []" "body_data (c # cs) = snd c @ body_data cs"
  by (simp_all add: body_data_def)

text \<open>The calls of a handler until the end of the body.\<close>

fun read_all :: "('w \<Rightarrow> apr_status \<times> bkt list \<times> 'w) \<Rightarrow> nat \<Rightarrow> 'w \<Rightarrow> apr_status \<times> cstring \<times> 'w" where
  "read_all call 0 w = (APR_EAGAIN, [], w)"
| "read_all call (Suc fuel) w =
     (case call w of
        (st, b, w') \<Rightarrow>
          if st \<noteq> APR_SUCCESS then (st, [], w')
          else if BEos \<in> set b then (APR_SUCCESS, mem_bytes b, w')
          else (case read_all call fuel w' of (st', s, w'') \<Rightarrow> (st', mem_bytes b @ s, w'')))"

lemma in_memory_no_eos: "in_memory b \<Longrightarrow> BEos \<notin> set b"
  by (induction b) auto

lemma chunk_size_read_data:
  assumes "get_chunk_size (cx_chunk_ln (hi_ctx w)) = int n" "0 < n"
  shows "chunk_size_read pass trailers w = (None, upd_ctx (cx_remaining_update (\<lambda>_. int n)) w)"
  using assms by (simp add: chunk_size_read_def INVALID_CHAR_def Let_def)

lemma chunk_size_read_last:
  assumes "get_chunk_size (cx_chunk_ln (hi_ctx w)) = int 0"
  shows "\<exists>w'. chunk_size_read pass trailers w = (Some (APR_SUCCESS, [BEos]), w')"
  using assms by (simp add: chunk_size_read_def INVALID_CHAR_def Let_def)

context byte_source
begin

text \<open>The state between two calls: \<open>d\<close> is what is left of the present chunk, \<open>cs\<close> are the others.\<close>

definition pending :: "'n http_in \<Rightarrow> cstring \<Rightarrow> (cstring \<times> cstring) list \<Rightarrow> cstring \<Rightarrow> cstring \<Rightarrow> bool" where
  "pending w d cs final rest \<longleftrightarrow>
     hi_init w \<and> \<not> cx_eos_sent (hi_ctx w) \<and> cx_state (hi_ctx w) = BODY_CHUNK \<and> cx_pos (hi_ctx w) = 0 \<and>
     cx_linesize (hi_ctx w) \<le> 31 \<and> 33 \<le> rq_limit_req_line (hi_req w) \<and>
     (cx_limit (hi_ctx w) = 0 \<or>
      cx_limit_used (hi_ctx w) + int (length (d @ body_data cs)) \<le> cx_limit (hi_ctx w)) \<and>
     source_ok (hi_next w) \<and> cx_remaining (hi_ctx w) = int (length d) \<and>
     content (hi_next w) = d @ CR # LF # wire_body cs final rest"

lemma read_body_pending:
  assumes "pending w d cs final rest" "d \<noteq> []" "0 < k"
  shows "\<exists>out w' d'. read_body get pass AP_MODE_READBYTES False k w = (APR_SUCCESS, out, w') \<and> in_memory out \<and>
    mem_bytes out \<noteq> [] \<and> d = mem_bytes out @ d' \<and> pending w' d' cs final rest"
proof -
  define r where "r = (if int (length d) < k then int (length d) else k)"
  have r: "0 < r" "r \<le> int (length d)" using assms(2,3) by (auto simp: r_def)
  have p: "cx_state (hi_ctx w) = BODY_CHUNK" "cx_remaining (hi_ctx w) = int (length d)" "source_ok (hi_next w)"
    "content (hi_next w) = d @ CR # LF # wire_body cs final rest"
    using assms(1) by (auto simp: pending_def)
  from get_bytes [OF p(3) _ r(1)] p(4) obtain b n' where
    b: "get (hi_next w) AP_MODE_READBYTES False r = (APR_SUCCESS, b, n')" "in_memory b" "mem_bytes b \<noteq> []"
      "int (length (mem_bytes b)) \<le> r" "content (hi_next w) = mem_bytes b @ content n'" "source_ok n'" by auto
  have le: "length (mem_bytes b) \<le> length d" using b(4) r(2) by simp
  then obtain d' where d': "d = mem_bytes b @ d'" using b(5) p(4)
    by (metis append_eq_append_conv_if append_take_drop_id)
  then have n': "content n' = d' @ CR # LF # wire_body cs final rest" using b(5) p(4) by simp
  have no: "b = [] \<or> List.last b \<noteq> BEos" using in_memory_no_eos [OF b(2)] last_in_set by metis
  define w1 where "w1 = upd_ctx (cx_remaining_update (\<lambda>n. n - int (length (mem_bytes b)))) (w\<lparr>hi_next := n'\<rparr>)"
  define w2 where "w2 = (if cx_limit (hi_ctx w) \<noteq> 0
      then upd_ctx (cx_limit_used_update (\<lambda>n. n + int (length (mem_bytes b)))) w1 else w1)"
  have pen: "pending w2 d' cs final rest"
    using assms(1) b(6) n' d' by (auto simp: pending_def w2_def w1_def)
  have lim: "cx_limit (hi_ctx w) \<noteq> 0 \<longrightarrow> \<not> cx_limit (hi_ctx w) < cx_limit_used (hi_ctx w) + int (length (mem_bytes b))"
    using assms(1) d' by (auto simp: pending_def)
  have "read_body get pass AP_MODE_READBYTES False k w = (APR_SUCCESS, b, w2)"
    using p(1,2) b(1) no lim in_memory_length [OF b(2)]
    unfolding read_body_def Let_def p(1,2) r_def [symmetric] w2_def w1_def
    by (simp add: r_def [symmetric])
  with b(2,3) d' pen show ?thesis by blast
qed

lemma chunk_header_line:
  assumes "source_ok (hi_next w)" "content (hi_next w) = line @ LF # rest" "chunk_line_ok line n" "cx_pos (hi_ctx w) = 0"
  shows "\<exists>n'. source_ok n' \<and> content n' = rest \<and>
    chunk_header get pass trailers False w = chunk_size_read pass trailers
      (w\<lparr>hi_next := n', hi_ctx := (hi_ctx w)\<lparr>cx_state := BODY_CHUNK, cx_chunk_ln := line @ [LF], cx_pos := 0,
           cx_linesize := cx_linesize (hi_ctx w) + int (length line) + 1\<rparr>\<rparr>)"
proof -
  have l: "LF \<notin> set line" "length line < 31" "length line < HUGE_STRING_LEN"
    using assms(3) by (auto simp: chunk_line_ok_def HUGE_STRING_LEN_def)
  from get_line [OF assms(1,2) l(1,3), of 0] obtain b n' where
    b: "get (hi_next w) AP_MODE_GETLINE False 0 = (APR_SUCCESS, b, n')" "in_memory b" "mem_bytes b = line @ [LF]"
      "content n' = rest" "source_ok n'" by auto
  from get_chunk_line_short [OF _ b(2,3) l(2), of "(hi_ctx w)\<lparr>cx_state := BODY_CHUNK\<rparr>"] assms(4)
  have "chunk_header get pass trailers False w = chunk_size_read pass trailers
      (w\<lparr>hi_next := n', hi_ctx := (hi_ctx w)\<lparr>cx_state := BODY_CHUNK, cx_chunk_ln := line @ [LF], cx_pos := 0,
           cx_linesize := cx_linesize (hi_ctx w) + int (length line) + 1\<rparr>\<rparr>)"
    by (simp add: chunk_header_def b(1) Let_def)
  with b(4,5) show ?thesis by blast
qed

lemma chunk_header_long:
  assumes "source_ok (hi_next w)" "content (hi_next w) = line @ LF # rest" "LF \<notin> set line"
    and "31 \<le> length line" "length line < HUGE_STRING_LEN" "cx_pos (hi_ctx w) = 0"
    and "cx_linesize (hi_ctx w) + int (length line) + 32 \<le> rq_limit_req_line (hi_req w)"
  shows "\<exists>n'. source_ok n' \<and> content n' = rest \<and>
    chunk_header get pass trailers False w = chunk_size_read pass trailers
      (w\<lparr>hi_next := n', hi_ctx := (hi_ctx w)\<lparr>cx_state := BODY_CHUNK, cx_chunk_ln := take 31 line, cx_pos := 31,
           cx_linesize := 0\<rparr>\<rparr>)"
proof -
  from get_line [OF assms(1-3,5), of 0] obtain b n' where
    b: "get (hi_next w) AP_MODE_GETLINE False 0 = (APR_SUCCESS, b, n')" "in_memory b" "mem_bytes b = line @ [LF]"
      "content n' = rest" "source_ok n'" by auto
  from get_chunk_line_long [OF _ b(2,3) assms(4,3), of "(hi_ctx w)\<lparr>cx_state := BODY_CHUNK\<rparr>"] assms(6,7) b
  show ?thesis by (intro exI [of _ n']) (simp add: chunk_header_def Let_def)
qed

lemma chunk_header_stuck:
  assumes "source_ok (hi_next w)" "content (hi_next w) = line @ LF # rest" "LF \<notin> set line"
    and "length line < HUGE_STRING_LEN" "cx_pos (hi_ctx w) = 31"
    and "cx_linesize (hi_ctx w) + int (length line) + 1 \<le> rq_limit_req_line (hi_req w)"
  shows "\<exists>n'. source_ok n' \<and> content n' = rest \<and>
    chunk_header get pass trailers False w = chunk_size_read pass trailers
      (w\<lparr>hi_next := n', hi_ctx := (hi_ctx w)\<lparr>cx_state := BODY_CHUNK, cx_linesize := 0\<rparr>\<rparr>)"
proof -
  from get_line [OF assms(1-4), of 0] obtain b n' where
    b: "get (hi_next w) AP_MODE_GETLINE False 0 = (APR_SUCCESS, b, n')" "in_memory b" "mem_bytes b = line @ [LF]"
      "content n' = rest" "source_ok n'" by auto
  from get_chunk_line_stuck [OF _ b(2,3), of "(hi_ctx w)\<lparr>cx_state := BODY_CHUNK\<rparr>"] assms(5,6) b
  show ?thesis by (intro exI [of _ n']) (simp add: chunk_header_def Let_def)
qed

text \<open>In front of a chunk line.\<close>

definition at_header :: "'n http_in \<Rightarrow> (cstring \<times> cstring) list \<Rightarrow> cstring \<Rightarrow> cstring \<Rightarrow> bool" where
  "at_header w cs final rest \<longleftrightarrow>
     hi_init w \<and> \<not> cx_eos_sent (hi_ctx w) \<and> cx_pos (hi_ctx w) = 0 \<and>
     cx_linesize (hi_ctx w) = 0 \<and> 33 \<le> rq_limit_req_line (hi_req w) \<and>
     (cx_limit (hi_ctx w) = 0 \<or> cx_limit_used (hi_ctx w) + int (length (body_data cs)) \<le> cx_limit (hi_ctx w)) \<and>
     source_ok (hi_next w) \<and> content (hi_next w) = wire_body cs final rest"

lemma chunk_header_last:
  assumes "at_header w [] final rest" "chunk_line_ok final 0"
  shows "\<exists>w'. chunk_header get pass trailers False w = (Some (APR_SUCCESS, [BEos]), w')"
proof -
  have w: "source_ok (hi_next w)" "content (hi_next w) = final @ LF # rest" "cx_pos (hi_ctx w) = 0"
    using assms(1) by (auto simp: at_header_def)
  from chunk_header_line [OF w(1,2) assms(2) w(3), of pass trailers] obtain w1 where
    w1: "chunk_header get pass trailers False w = chunk_size_read pass trailers w1"
      "cx_chunk_ln (hi_ctx w1) = final @ [LF]" by auto
  have "get_chunk_size (cx_chunk_ln (hi_ctx w1)) = int 0" using w1(2) assms(2) by (simp add: chunk_line_ok_def)
  from chunk_size_read_last [OF this] w1(1) show ?thesis by metis
qed

lemma chunk_header_data:
  assumes "at_header w (c # cs) final rest" "chunk_ok c"
  shows "\<exists>w'. chunk_header get pass trailers False w = (None, w') \<and> pending w' (snd c) cs final rest"
proof -
  have w: "source_ok (hi_next w)" "content (hi_next w) = fst c @ LF # snd c @ CR # LF # wire_body cs final rest"
      "cx_pos (hi_ctx w) = 0" and ok: "chunk_line_ok (fst c) (length (snd c))" "snd c \<noteq> []"
    using assms by (auto simp: at_header_def chunk_ok_def)
  from chunk_header_line [OF w(1,2) ok(1) w(3), of pass trailers] obtain n' where
    n': "source_ok n'" "content n' = snd c @ CR # LF # wire_body cs final rest"
      "chunk_header get pass trailers False w = chunk_size_read pass trailers
      (w\<lparr>hi_next := n', hi_ctx := (hi_ctx w)\<lparr>cx_state := BODY_CHUNK, cx_chunk_ln := fst c @ [LF], cx_pos := 0,
           cx_linesize := cx_linesize (hi_ctx w) + int (length (fst c)) + 1\<rparr>\<rparr>)" by auto
  define w1 where "w1 = w\<lparr>hi_next := n', hi_ctx := (hi_ctx w)\<lparr>cx_state := BODY_CHUNK, cx_chunk_ln := fst c @ [LF], cx_pos := 0,
           cx_linesize := cx_linesize (hi_ctx w) + int (length (fst c)) + 1\<rparr>\<rparr>"
  have "chunk_size_read pass trailers w1 = (None, upd_ctx (cx_remaining_update (\<lambda>_. int (length (snd c)))) w1)"
    by (rule chunk_size_read_data) (use ok in \<open>simp_all add: w1_def chunk_line_ok_def\<close>)
  moreover have "pending (upd_ctx (cx_remaining_update (\<lambda>_. int (length (snd c)))) w1) (snd c) cs final rest"
    using assms(1) n'(1,2) ok(1) by (auto simp: pending_def at_header_def w1_def chunk_line_ok_def)
  ultimately show ?thesis using n'(3) by (simp add: w1_def)
qed

lemma next_chunk_header:
  assumes "pending w [] cs final rest"
  shows "\<exists>w'. next_chunk get pass trailers False w = chunk_header get pass trailers False w' \<and> at_header w' cs final rest"
proof -
  have w: "source_ok (hi_next w)" "content (hi_next w) = [CR] @ LF # wire_body cs final rest"
      "cx_state (hi_ctx w) = BODY_CHUNK"
    using assms by (auto simp: pending_def)
  from get_line [OF w(1,2), of 0] obtain b n' where
    b: "get (hi_next w) AP_MODE_GETLINE False 0 = (APR_SUCCESS, b, n')" "in_memory b" "mem_bytes b = [CR] @ [LF]"
      "content n' = wire_body cs final rest" "source_ok n'" by (auto simp: HUGE_STRING_LEN_def)
  have "get_remaining_chunk_line (hi_ctx w) b (rq_limit_req_line (hi_req w)) =
      (APR_SUCCESS, (hi_ctx w)\<lparr>cx_linesize := 0\<rparr>)"
    by (rule get_remaining_chunk_line_ok [OF b(2,3)]) (use assms in \<open>simp add: pending_def\<close>)
  then have "next_chunk get pass trailers False w = chunk_header get pass trailers False
      (w\<lparr>hi_next := n', hi_ctx := (hi_ctx w)\<lparr>cx_linesize := 0\<rparr>\<rparr>)"
    by (simp add: next_chunk_def w(3) b(1) Let_def)
  moreover have "at_header (w\<lparr>hi_next := n', hi_ctx := (hi_ctx w)\<lparr>cx_linesize := 0\<rparr>\<rparr>) cs final rest"
    using assms b(4,5) by (simp add: at_header_def pending_def)
  ultimately show ?thesis by blast
qed

text \<open>What one call answers when \<open>todo\<close> is left of the body.\<close>

definition call_ok :: "apr_status \<times> bkt list \<times> 'n http_in \<Rightarrow> cstring \<Rightarrow> cstring \<Rightarrow> cstring \<Rightarrow> bool" where
  "call_ok res todo final rest \<longleftrightarrow>
     (\<exists>out w' d' cs'. res = (APR_SUCCESS, out, w') \<and> in_memory out \<and> mem_bytes out \<noteq> [] \<and>
        todo = mem_bytes out @ d' @ body_data cs' \<and> pending w' d' cs' final rest \<and> list_all chunk_ok cs') \<or>
     (todo = [] \<and> (\<exists>w'. res = (APR_SUCCESS, [BEos], w')))"

lemma read_body_ok:
  assumes "pending w d cs final rest" "d \<noteq> []" "0 < k" "list_all chunk_ok cs"
  shows "call_ok (read_body get pass AP_MODE_READBYTES False k w) (d @ body_data cs) final rest"
  using read_body_pending [OF assms(1-3), of pass] assms(4) unfolding call_ok_def by fastforce

lemma header_ok:
  assumes "at_header w cs final rest" "list_all chunk_ok cs" "chunk_line_ok final 0" "0 < k"
  shows "call_ok (case chunk_header get pass trailers False w of
      (Some (st, b), w2) \<Rightarrow> (st, b, w2) | (None, w2) \<Rightarrow> read_body get pass AP_MODE_READBYTES False k w2)
    (body_data cs) final rest"
proof (cases cs)
  case Nil
  with chunk_header_last [of w final rest pass trailers] assms(1,3) show ?thesis by (auto simp: call_ok_def)
next
  case (Cons c cs')
  with assms(2) have c: "chunk_ok c" "list_all chunk_ok cs'" by simp_all
  with chunk_header_data [of w c cs' final rest pass trailers] assms(1) Cons obtain w2 where
    w2: "chunk_header get pass trailers False w = (None, w2)" "pending w2 (snd c) cs' final rest" by auto
  have "snd c \<noteq> []" using c(1) by (simp add: chunk_ok_def)
  from read_body_ok [OF w2(2) this assms(4) c(2)] show ?thesis by (simp add: w2(1) Cons)
qed

lemma filter_call:
  assumes "pending w d cs final rest" "list_all chunk_ok cs" "chunk_line_ok final 0" "0 < k"
  shows "call_ok (http_filter get pass trailers w AP_MODE_READBYTES False k) (d @ body_data cs) final rest"
proof -
  have w: "hi_init w" "\<not> cx_eos_sent (hi_ctx w)" "cx_remaining (hi_ctx w) = int (length d)"
    using assms(1) by (auto simp: pending_def)
  show ?thesis
  proof (cases "d = []")
    case False
    then show ?thesis using w read_body_ok [OF assms(1) False assms(4,2)] by (simp add: http_filter_def)
  next
    case d: True
    from next_chunk_header [of w cs final rest pass trailers] assms(1) d obtain w1 where
      "next_chunk get pass trailers False w = chunk_header get pass trailers False w1" "at_header w1 cs final rest" by auto
    with header_ok [of w1 cs final rest k pass trailers] assms(2-4) w d show ?thesis
      by (simp add: http_filter_def)
  qed
qed

lemma read_all_ok:
  assumes "call_ok (http_filter get pass trailers w AP_MODE_READBYTES False k) todo final rest"
    and "chunk_line_ok final 0" "0 < k" "length todo < fuel"
  shows "\<exists>w'. read_all (\<lambda>w. http_filter get pass trailers w AP_MODE_READBYTES False k) fuel w = (APR_SUCCESS, todo, w')"
  using assms(1,4)
proof (induction fuel arbitrary: w todo)
  case (Suc fuel)
  from Suc.prems(1) consider
    (data) out w' d' cs' where "http_filter get pass trailers w AP_MODE_READBYTES False k = (APR_SUCCESS, out, w')"
      "in_memory out" "mem_bytes out \<noteq> []" "todo = mem_bytes out @ d' @ body_data cs'"
      "pending w' d' cs' final rest" "list_all chunk_ok cs'"
  | (eos) w' where "http_filter get pass trailers w AP_MODE_READBYTES False k = (APR_SUCCESS, [BEos], w')" "todo = []"
    unfolding call_ok_def by blast
  then show ?case
  proof cases
    case data
    have "length todo = length (mem_bytes out) + length (d' @ body_data cs')" by (simp only: data(4) length_append)
    moreover have "0 < length (mem_bytes out)" using data(3) by (cases "mem_bytes out") simp_all
    ultimately have "length (d' @ body_data cs') < fuel" using Suc.prems(2) by linarith
    from Suc.IH [OF filter_call [OF data(5,6) assms(2,3)] this] obtain w'' where
      "read_all (\<lambda>w. http_filter get pass trailers w AP_MODE_READBYTES False k) fuel w' =
        (APR_SUCCESS, d' @ body_data cs', w'')" by auto
    then show ?thesis using data(1,4) in_memory_no_eos [OF data(2)] by simp
  qed simp
qed simp

text \<open>A request with a chunked body, before the first call.\<close>

definition chunked_request :: "'n http_in \<Rightarrow> (cstring \<times> cstring) list \<Rightarrow> cstring \<Rightarrow> cstring \<Rightarrow> bool" where
  "chunked_request w cs final rest \<longleftrightarrow>
     \<not> hi_init w \<and> (\<exists>t. r_headers_in (hi_req w) ''Transfer-Encoding'' = Some t \<and> strcaseeq t ''chunked'') \<and>
     is_HTTP_SUCCESS (r_status (hi_req w)) \<and> 33 \<le> rq_limit_req_line (hi_req w) \<and>
     (rq_proxyreq (hi_req w) \<noteq> 0 \<or> rq_limit_req_body (hi_req w) = 0 \<or>
      int (length (body_data cs)) \<le> rq_limit_req_body (hi_req w)) \<and>
     source_ok (hi_next w) \<and> content (hi_next w) = wire_body cs final rest"

lemma first_call_chunked:
  assumes "chunked_request w cs final rest"
  shows "\<exists>w1. first_call get pass trailers False w = chunk_header get pass trailers False w1 \<and> at_header w1 cs final rest"
proof -
  define c where "c = new_ctx\<lparr>cx_limit := (if rq_proxyreq (hi_req w) = 0 then rq_limit_req_body (hi_req w) else 0),
      cx_state := BODY_CHUNK\<rparr>"
  have i: "init_body pass w = (None, w\<lparr>hi_init := True, hi_ctx := c\<rparr>)"
    using assms by (auto simp: init_body_def chunked_request_def c_def new_ctx_def Let_def)
  define w2 where "w2 = send_continue (w\<lparr>hi_init := True, hi_ctx := c\<rparr>)"
  have w2: "hi_init w2" "hi_ctx w2 = c" "rq_limit_req_line (hi_req w2) = rq_limit_req_line (hi_req w)" "hi_next w2 = hi_next w"
    using assms by (auto simp: w2_def send_continue_def chunked_request_def Let_def)
  have "first_call get pass trailers False w = chunk_header get pass trailers False w2"
    using w2(2) by (simp add: first_call_def i w2_def c_def)
  moreover have "at_header w2 cs final rest"
    using assms by (auto simp: at_header_def w2 chunked_request_def c_def new_ctx_def)
  ultimately show ?thesis by blast
qed

lemma chunked_body_read:
  assumes "chunked_request w cs final rest" "list_all chunk_ok cs" "chunk_line_ok final 0" "0 < k"
    and "length (body_data cs) < fuel"
  shows "\<exists>w'. read_all (\<lambda>w. http_filter get pass trailers w AP_MODE_READBYTES False k) fuel w =
           (APR_SUCCESS, body_data cs, w')"
proof -
  from first_call_chunked [OF assms(1), of pass trailers] obtain w1 where
    w1: "first_call get pass trailers False w = chunk_header get pass trailers False w1" "at_header w1 cs final rest" by auto
  note H = header_ok [OF w1(2) assms(2-4), of pass trailers]
  have "call_ok (http_filter get pass trailers w AP_MODE_READBYTES False k) (body_data cs) final rest"
  proof (cases "chunk_header get pass trailers False w1")
    case (Pair res w2)
    have "res = None \<Longrightarrow> \<not> cx_eos_sent (hi_ctx w2) \<and> cx_remaining (hi_ctx w2) \<noteq> 0"
      using chunk_header_last [of w1 final rest pass trailers] chunk_header_data [of w1 _ _ final rest pass trailers]
        w1(2) assms(2,3) Pair by (cases cs) (auto simp: pending_def chunk_ok_def)
    then show ?thesis using H assms(1) w1(1) Pair
      by (cases res) (auto simp: http_filter_def chunked_request_def)
  qed
  from read_all_ok [OF this assms(3-5)] show ?thesis .
qed

end

end
