(* ===== verification/Http_Chunk_Out.thy ===== *)
theory Http_Chunk_Out
  imports Http_Chunk
begin

text \<open>
  The output filter that writes the chunked transfer coding, \<open>modules/http/chunk_filter.c\<close>, and
  its agreement with the input filter: what it writes for a body is what \<open>ap_http_filter\<close> reads
  back as that body through the core filter.
\<close>

section \<open>The filter\<close>

definition HTTP_BAD_GATEWAY :: int where "HTTP_BAD_GATEWAY = 502"

text \<open>Why the scan of a brigade has stopped, with the buckets behind.\<close>

datatype chunk_stop = StopEnd | StopEos "bkt list" | StopFlush "bkt list" | StopMore "bkt list" | StopError apr_status

text \<open>
  The scan: the stop, the buckets in front of it, the number of their bytes, and whether a bad
  gateway was seen. A bucket of unknown length is read; what is left of it stays behind.
\<close>

function chunk_scan :: "bkt list \<Rightarrow> chunk_stop \<times> bkt list \<times> nat \<times> bool" where
  "chunk_scan [] = (StopEnd, [], 0, False)"
| "chunk_scan (e # b) =
     (if e = BEos then (StopEos b, [], 0, False)
      else if e = BError HTTP_BAD_GATEWAY then
        (case chunk_scan b of (stop, pre, bytes, bad) \<Rightarrow> (stop, e # pre, bytes, True))
      else if e = BFlush then (StopFlush b, [], 0, False)
      else if bkt_length e = - 1 then
        (let st = fst (bkt_read False e);
             data = fst (snd (bkt_read False e));
             es = snd (snd (bkt_read False e))
         in if st \<noteq> APR_SUCCESS then (StopError st, [], 0, False)
            else if data \<noteq> [] then (StopMore (tl es @ b), [hd es], length data, False)
            else (case chunk_scan (tl es @ b) of (stop, pre, bytes, bad) \<Rightarrow> (stop, hd es # pre, bytes, bad)))
      else (case chunk_scan b of (stop, pre, bytes, bad) \<Rightarrow> (stop, e # pre, nat (bkt_length e) + bytes, bad)))"
  by pat_completeness auto

termination by (relation "measure bb_size") (simp_all add: bkt_read_size)

declare chunk_scan.simps [simp del]

text \<open>The buckets the scan leaves are no more than those it was given.\<close>

fun stop_rest :: "chunk_stop \<Rightarrow> bkt list" where
  "stop_rest (StopEos b) = b"
| "stop_rest (StopFlush b) = b"
| "stop_rest (StopMore b) = b"
| "stop_rest _ = []"

lemma chunk_scan_rest: "bb_size (stop_rest (fst (chunk_scan b))) \<le> bb_size b - 1"
proof (induction b rule: chunk_scan.induct)
  case (2 e b)
  have sz: "bb_size (tl (snd (snd (bkt_read False e))) @ b) < bkt_size e + bb_size b"
    using bkt_read_size [of False e] by simp
  have sb: "0 < bkt_size e" by simp
  show ?case
  proof (cases "e = BEos \<or> e = BFlush")
    case True
    then show ?thesis by (auto simp: chunk_scan.simps(2) HTTP_BAD_GATEWAY_def)
  next
    case no: False
    show ?thesis
    proof (cases "bkt_length e = - 1")
      case True
      then show ?thesis using no 2(2) [OF _ _ _ _ refl refl refl] sz by (auto simp: chunk_scan.simps(2) Let_def split: prod.splits)
    next
      case False
      then show ?thesis using no 2(1,3) sb by (auto simp: chunk_scan.simps(2) Let_def split: prod.splits)
    qed
  qed
qed (simp add: chunk_scan.simps)

text \<open>What is passed on for one scan: the header, the data, the line end, and the last chunk.\<close>

definition chunk_tail :: "chunk_stop \<Rightarrow> bkt list" where
  "chunk_tail stop = (case stop of StopEos b \<Rightarrow> BEos # b | StopFlush b \<Rightarrow> [BFlush] | _ \<Rightarrow> [])"

definition is_eos :: "chunk_stop \<Rightarrow> bool" where
  "is_eos stop = (case stop of StopEos b \<Rightarrow> True | _ \<Rightarrow> False)"

definition chunk_brigade :: "bool \<Rightarrow> chunk_stop \<Rightarrow> bkt list \<Rightarrow> nat \<Rightarrow> bkt list" where
  "chunk_brigade bad stop pre bytes =
     (if bytes > 0 then [BData (fmt_hex bytes @ CRLF)] @ pre @ [BData CRLF] else pre) @
     (if is_eos stop \<and> \<not> bad then [BData (''0'' @ CRLF @ CRLF)] else []) @ chunk_tail stop"

definition chunk_more :: "chunk_stop \<Rightarrow> bkt list option" where
  "chunk_more stop =
     (case stop of StopFlush b \<Rightarrow> if b = [] then None else Some b | StopMore b \<Rightarrow> Some b | _ \<Rightarrow> None)"

text \<open>
  \<open>ap_http_chunk_filter\<close>: status, the brigades passed on, and the context of the filter, true
  once a bad gateway was seen. \<open>pass n\<close> is the status of passing the brigade after \<open>n\<close> others.
\<close>

function chunk_filter :: "(nat \<Rightarrow> apr_status) \<Rightarrow> nat \<Rightarrow> bool \<Rightarrow> bkt list \<Rightarrow> apr_status \<times> bkt list list \<times> bool" where
  "chunk_filter pass n ctx b =
     (case chunk_scan b of
        (StopError st, pre, bytes, bad) \<Rightarrow> (st, [], ctx \<or> bad)
      | (stop, pre, bytes, bad) \<Rightarrow>
          (let out = chunk_brigade (ctx \<or> bad) stop pre bytes; rv = pass n
           in if rv \<noteq> APR_SUCCESS \<or> is_eos stop then (rv, [out], ctx \<or> bad)
              else case chunk_more stop of
                  None \<Rightarrow> (APR_SUCCESS, [out], ctx \<or> bad)
                | Some behind \<Rightarrow>
                    (case chunk_filter pass (Suc n) (ctx \<or> bad) behind of (st, outs, ctx') \<Rightarrow> (st, out # outs, ctx'))))"
  by pat_completeness auto

lemma chunk_more_size:
  assumes "chunk_scan b = (stop, p)" "chunk_more stop = Some behind"
  shows "bb_size behind < bb_size b"
proof -
  have "behind = stop_rest stop" "b \<noteq> []"
    using assms by (auto simp: chunk_more_def chunk_scan.simps split: chunk_stop.splits if_splits)
  moreover have "0 < bb_size b" using \<open>b \<noteq> []\<close> by (cases b) simp_all
  ultimately show ?thesis using chunk_scan_rest [of b] assms(1) by simp
qed

termination chunk_filter by (relation "measure (\<lambda>(_, _, _, b). bb_size b)") (auto dest: chunk_more_size [OF sym])

declare chunk_filter.simps [simp del]

section \<open>What it writes\<close>

text \<open>Brigades of a response: data, pipes and sockets that do not fail, flushes and other errors.\<close>

fun out_ok :: "bkt \<Rightarrow> bool" where
  "out_ok (BData s) = True"
| "out_ok (BSock evs) = sock_ok evs"
| "out_ok BEos = False"
| "out_ok BFlush = True"
| "out_ok (BError status) = (status \<noteq> HTTP_BAD_GATEWAY)"

definition scan_ok :: "bkt list \<Rightarrow> chunk_stop \<times> bkt list \<times> nat \<times> bool \<Rightarrow> bool" where
  "scan_ok b res =
     (case res of (stop, pre, bytes, bad) \<Rightarrow>
        \<not> bad \<and> bytes = length (mem_bytes pre) \<and>
        (case stop of
           StopEos r \<Rightarrow> r = [] \<and> mem_bytes pre = bb_bytes b
         | StopFlush r \<Rightarrow> (\<exists>b1. r = b1 @ [BEos] \<and> list_all out_ok b1 \<and> bb_bytes b = mem_bytes pre @ bb_bytes b1)
         | StopMore r \<Rightarrow> (\<exists>b1. r = b1 @ [BEos] \<and> list_all out_ok b1 \<and> bb_bytes b = mem_bytes pre @ bb_bytes b1)
         | _ \<Rightarrow> False))"

lemma scan_ok_Cons:
  assumes "scan_ok b (stop, pre, bytes, bad)" "bkt_bytes e = mem_data e'"
  shows "scan_ok (e # b) (stop, e' # pre, length (mem_data e') + bytes, bad)"
  using assms by (auto simp: scan_ok_def split: chunk_stop.splits)

lemma socket_read_first:
  assumes "bkt_read False (BSock evs) = (st, s, es)" "sock_ok evs"
  shows "st = APR_SUCCESS \<and> hd es = BData s \<and> sock_bytes evs = s @ bb_bytes (tl es) \<and> list_all out_ok (tl es) \<and>
    (s = [] \<longrightarrow> tl es = [] \<and> sock_bytes evs = [])"
  using assms by (induction "False" evs rule: socket_read.induct) (auto split: if_splits)

lemma chunk_scan_ok:
  "list_all out_ok b \<Longrightarrow> scan_ok b (chunk_scan (b @ [BEos]))"
proof (induction b)
  case Nil
  then show ?case by (simp add: chunk_scan.simps scan_ok_def)
next
  case (Cons e b)
  obtain stop pre bytes bad where r: "chunk_scan (b @ [BEos]) = (stop, pre, bytes, bad)"
    by (cases "chunk_scan (b @ [BEos])")
  have ok: "scan_ok b (stop, pre, bytes, bad)" "list_all out_ok b" "out_ok e" using Cons r by auto
  show ?case
  proof (cases e)
    case (BData s)
    with scan_ok_Cons [OF ok(1), of e e] r show ?thesis by (simp add: chunk_scan.simps)
  next
    case (BError n)
    with scan_ok_Cons [OF ok(1), of e e] r ok(3) show ?thesis by (simp add: chunk_scan.simps)
  next
    case BFlush
    with ok show ?thesis by (simp add: chunk_scan.simps scan_ok_def HTTP_BAD_GATEWAY_def)
  next
    case (BSock evs)
    obtain st s es where rd: "bkt_read False (BSock evs) = (st, s, es)" by (cases "bkt_read False (BSock evs)")
    note F = socket_read_first [OF rd] 
    have f: "st = APR_SUCCESS" "hd es = BData s" "sock_bytes evs = s @ bb_bytes (tl es)" "list_all out_ok (tl es)"
      "s = [] \<Longrightarrow> tl es = [] \<and> sock_bytes evs = []"
      using F ok(3) BSock by auto
    show ?thesis
    proof (cases "s = []")
      case True
      with f have "chunk_scan ((e # b) @ [BEos]) = (stop, BData [] # pre, bytes, bad)"
        using rd r BSock by (simp add: chunk_scan.simps Let_def)
      with scan_ok_Cons [OF ok(1), of e "BData []"] f(5) True BSock show ?thesis by simp
    next
      case False
      with f rd BSock have "chunk_scan ((e # b) @ [BEos]) = (StopMore (tl es @ b @ [BEos]), [BData s], length s, False)"
        by (simp add: chunk_scan.simps Let_def)
      then show ?thesis using f(3,4) ok(2) BSock by (auto simp: scan_ok_def)
    qed
  qed (use ok(3) in simp)
qed

definition coded :: "cstring \<Rightarrow> cstring \<times> cstring" where
  "coded d = (fmt_hex (length d) @ [CR], d)"

lemma chunk_brigade_bytes:
  assumes "bytes = length (mem_bytes pre)"
  shows "mem_bytes (chunk_brigade False stop pre bytes) =
    (if mem_bytes pre = [] then [] else wire_chunk (coded (mem_bytes pre))) @
    (if is_eos stop then ''0'' @ CRLF @ CRLF else []) @ mem_bytes (chunk_tail stop)"
  using assms by (auto simp: chunk_brigade_def wire_chunk_def coded_def CRLF_def)

lemma chunk_filter_writes:
  assumes "list_all out_ok b"
  shows "\<exists>outs ds. chunk_filter (\<lambda>_. APR_SUCCESS) n False (b @ [BEos]) = (APR_SUCCESS, outs, False) \<and>
    mem_bytes (concat outs) = concat (map wire_chunk (map coded ds)) @ ''0'' @ CRLF @ CRLF \<and>
    concat ds = bb_bytes b \<and> list_all (\<lambda>d. d \<noteq> []) ds"
  using assms
proof (induction "bb_size b" arbitrary: b n rule: less_induct)
  case less
  obtain stop pre bytes bad where r: "chunk_scan (b @ [BEos]) = (stop, pre, bytes, bad)"
    by (cases "chunk_scan (b @ [BEos])")
  have ok: "scan_ok b (stop, pre, bytes, bad)" using chunk_scan_ok [OF less.prems] r by simp
  then have bt: "bytes = length (mem_bytes pre)" "\<not> bad" by (auto simp: scan_ok_def)
  define out where "out = chunk_brigade False stop pre bytes"
  define d where "d = (if mem_bytes pre = [] then [] else [mem_bytes pre])"
  have d: "concat d = mem_bytes pre" "list_all (\<lambda>d. d \<noteq> []) d"
    "concat (map wire_chunk (map coded d)) = (if mem_bytes pre = [] then [] else wire_chunk (coded (mem_bytes pre)))"
    by (simp_all add: d_def)
  show ?case
  proof (cases "is_eos stop")
    case True
    then have "stop = StopEos []" "mem_bytes pre = bb_bytes b" using ok by (auto simp: scan_ok_def is_eos_def split: chunk_stop.splits)
    moreover have "chunk_filter (\<lambda>_. APR_SUCCESS) n False (b @ [BEos]) = (APR_SUCCESS, [out], False)"
      using r bt(2) True by (cases stop) (simp_all add: chunk_filter.simps out_def is_eos_def Let_def)
    moreover have "mem_bytes (concat [out]) = concat (map wire_chunk (map coded d)) @ ''0'' @ CRLF @ CRLF"
      using chunk_brigade_bytes [OF bt(1), of stop] True \<open>stop = StopEos []\<close>
      by (simp add: out_def d_def chunk_tail_def)
    ultimately show ?thesis using d(1,2) by metis
  next
    case False
    then obtain b1 where b1: "chunk_more stop = Some (b1 @ [BEos])" "list_all out_ok b1"
        "bb_bytes b = mem_bytes pre @ bb_bytes b1"
      using ok by (cases stop) (auto simp: scan_ok_def is_eos_def chunk_more_def)
    have "bb_size (b1 @ [BEos]) < bb_size (b @ [BEos])" using chunk_more_size [OF r b1(1)] .
    then have "bb_size b1 < bb_size b" by simp
    from less.hyps [OF this b1(2), of "Suc n"] obtain outs ds where
      ih: "chunk_filter (\<lambda>_. APR_SUCCESS) (Suc n) False (b1 @ [BEos]) = (APR_SUCCESS, outs, False)"
        "mem_bytes (concat outs) = concat (map wire_chunk (map coded ds)) @ ''0'' @ CRLF @ CRLF"
        "concat ds = bb_bytes b1" "list_all (\<lambda>d. d \<noteq> []) ds" by auto
    have "chunk_filter (\<lambda>_. APR_SUCCESS) n False (b @ [BEos]) = (APR_SUCCESS, out # outs, False)"
      using r bt(2) False b1(1) ih(1) ok
      by (cases stop) (simp_all add: chunk_filter.simps [of _ n] out_def is_eos_def Let_def chunk_more_def scan_ok_def)
    moreover have "mem_bytes (concat (out # outs)) = concat (map wire_chunk (map coded (d @ ds))) @ ''0'' @ CRLF @ CRLF"
      using chunk_brigade_bytes [OF bt(1), of stop] False ih(2) d(3)
      by (cases stop) (simp_all add: out_def chunk_tail_def is_eos_def)
    moreover have "concat (d @ ds) = bb_bytes b" using d(1) ih(3) b1(3) by simp
    moreover have "list_all (\<lambda>d. d \<noteq> []) (d @ ds)" using d(2) ih(4) by simp
    ultimately show ?thesis by blast
  qed
qed

section \<open>The two filters agree\<close>

lemma xdigit_plain: "c_isxdigit c \<Longrightarrow> c \<noteq> LF \<and> c \<noteq> CR"
  by (auto simp: c_class_defs)

lemma hex_line_ok:
  assumes "n < 2 ^ 63"
  shows "chunk_line_ok (fmt_hex n @ [CR]) n"
proof -
  note F = fmt_hex_number [of n]
  have "n < 16 ^ 16" using assms by simp
  then have len: "length (fmt_hex n) \<le> 16" by (rule fmt_hex_length) simp
  have "\<not> c_isxdigit CR" by (simp add: c_class_defs)
  with get_chunk_size_value [of "fmt_hex n" "[CR, LF]"] F assms
  have "get_chunk_size (fmt_hex n @ [CR, LF]) = int n" by (simp split: if_splits)
  moreover have "LF \<notin> set (fmt_hex n)" using F xdigit_plain by (auto simp: list_all_iff)
  ultimately show ?thesis using len by (simp add: chunk_line_ok_def)
qed

lemma coded_ok: "d \<noteq> [] \<Longrightarrow> length d < 2 ^ 63 \<Longrightarrow> chunk_ok (coded d)"
  using hex_line_ok [of "length d"] by (simp add: chunk_ok_def coded_def)

lemma last_line_ok: "chunk_line_ok [CHR ''0'', CR] 0"
proof -
  have "c_isxdigit CHR ''0''" "\<not> c_isxdigit CR" by (simp_all add: c_class_defs)
  then show ?thesis by (simp add: chunk_line_ok_def get_chunk_size_def)
qed

lemma body_data_coded: "body_data (map coded ds) = concat ds"
  by (induction ds) (simp_all add: coded_def)

lemma concat_length: "d \<in> set ds \<Longrightarrow> length d \<le> length (concat ds)"
  by (induction ds) auto

section \<open>Properties\<close>

text \<open>
  The size of a chunk is read right or refused: for a line that starts with a hexadecimal digit
  \<open>get_chunk_size\<close> returns the number its digits stand for when it is below \<open>2 ^ 63\<close>, and a
  negative number, an error for the caller, whenever it is not, however many digits there are.
\<close>

theorem get_chunk_size_correct:
  "if \<not> c_isxdigit (cget line 0) then get_chunk_size line = INVALID_CHAR
   else if hex_number (takeWhile c_isxdigit line) < 2 ^ 63
   then get_chunk_size line = int (hex_number (takeWhile c_isxdigit line))
   else get_chunk_size line < 0"
proof -
  have l: "line = takeWhile c_isxdigit line @ dropWhile c_isxdigit line" by simp
  have a: "list_all c_isxdigit (takeWhile c_isxdigit line)" by (auto simp: list_all_iff dest: set_takeWhileD)
  have r: "dropWhile c_isxdigit line = [] \<or> \<not> c_isxdigit (hd (dropWhile c_isxdigit line))"
    using hd_dropWhile_not by blast
  have ne: "c_isxdigit (cget line 0) \<Longrightarrow> takeWhile c_isxdigit line \<noteq> []" by (cases line) auto
  show ?thesis
    using get_chunk_size_value [OF a _ r] ne unfolding l [symmetric]
    by (cases "c_isxdigit (cget line 0)") (auto simp: get_chunk_size_def)
qed

text \<open>
  C31. The filters compose: a chunked body whose chunk lines, extensions included, are shorter than
  31 bytes, and that arrives on the connection in any pieces, is handed by \<open>ap_http_filter\<close>, reading
  through the core filter in blocks of any size, to the caller as exactly the data of its
  chunks, followed by the end of the stream, in finitely many calls.
\<close>

theorem chunked_body_arrives:
  assumes "\<not> hi_init w" "r_headers_in (hi_req w) ''Transfer-Encoding'' = Some ''chunked''"
    and "is_HTTP_SUCCESS (r_status (hi_req w))" "33 \<le> rq_limit_req_line (hi_req w)"
    and "rq_limit_req_body (hi_req w) = 0 \<or> int (length (body_data cs)) \<le> rq_limit_req_body (hi_req w)"
    and "net_ok (hi_next w)" "net_bytes (hi_next w) = wire_body cs final rest"
    and "list_all chunk_ok cs" "chunk_line_ok final 0" "0 < k" "length (body_data cs) < fuel"
  shows "\<exists>w'. read_all (\<lambda>w. http_filter (core_input_filter over) pass trailers w AP_MODE_READBYTES False k) fuel w =
           (APR_SUCCESS, body_data cs, w')"
  by (rule core.chunked_body_read [OF _ assms(8-11), where rest = rest])
    (use assms(1-7) in \<open>simp add: core.chunked_request_def strcaseeq_def\<close>)

text \<open>A request with a chunked body on a connection that delivers it in two pieces.\<close>

definition chunked_sample :: "cstring list \<Rightarrow> core_net http_in" where
  "chunked_sample ps =
     \<lparr>hi_init = False, hi_ctx = new_ctx,
      hi_req = \<lparr>r_status = 200, r_proto_num = 1001, r_method_number = 2, r_header_only = False,
        r_expecting_100 = False, r_chunked = False, r_no_local_copy = False, r_mtime = 0, r_request_time = 0,
        r_headers_in = [''Transfer-Encoding'' \<mapsto> ''chunked''], r_headers_out = Map.empty, r_env = Map.empty,
        conn_keepalive = AP_CONN_UNKNOWN, conn_keepalives = 0, srv_keep_alive = True,
        srv_keep_alive_timeout = 5, srv_keep_alive_max = 100, rq_proxyreq = 0, rq_eos_sent = False,
        rq_bytes_sent = 0, rq_limit_req_body = 0, rq_limit_req_line = 8190\<rparr>,
      hi_next = \<lparr>in_ctx = None, client_socket = List.map Arrive ps\<rparr>, hi_passed = []\<rparr>"

lemma chunked_sample_simps [simp]:
  "\<not> hi_init (chunked_sample ps)" "r_headers_in (hi_req (chunked_sample ps)) ''Transfer-Encoding'' = Some ''chunked''"
  "r_status (hi_req (chunked_sample ps)) = 200" "rq_limit_req_line (hi_req (chunked_sample ps)) = 8190"
  "rq_limit_req_body (hi_req (chunked_sample ps)) = 0" "rq_proxyreq (hi_req (chunked_sample ps)) = 0"
  "hi_next (chunked_sample ps) = \<lparr>in_ctx = None, client_socket = List.map Arrive ps\<rparr>"
  "cx_pos (hi_ctx (chunked_sample ps)) = 0" "cx_linesize (hi_ctx (chunked_sample ps)) = 0"
  by (simp_all add: chunked_sample_def new_ctx_def)

lemma five_line_ok: "chunk_ok (''5'', ''hello'')"
  by (simp add: chunk_ok_def chunk_line_ok_def) code_simp

theorem chunked_body_arrives_witness:
  "\<exists>w'. read_all (\<lambda>w. http_filter (core_input_filter NUL) (\<lambda>_. APR_SUCCESS) id w AP_MODE_READBYTES False 3) 6
     (chunked_sample [''5'' @ [LF] @ ''he'', ''llo'' @ CRLF @ ''0'' @ CRLF]) = (APR_SUCCESS, ''hello'', w')"
  using chunked_body_arrives [of "chunked_sample [''5'' @ [LF] @ ''he'', ''llo'' @ CRLF @ ''0'' @ CRLF]"
      "[(''5'', ''hello'')]" "''0'' @ [CR]" "[]" 3 6 NUL "\<lambda>_. APR_SUCCESS" id] five_line_ok last_line_ok
  by (simp add: body_data_def net_ok_def net_bytes_def CRLF_def is_HTTP_SUCCESS_def)

text \<open>
  C2. Round trip of the transfer coding: what \<open>ap_http_chunk_filter\<close> writes for a response of any
  buckets, read by \<open>ap_http_filter\<close> as a proxy reads it, is the data of the response.
\<close>

theorem chunked_roundtrip:
  assumes "list_all out_ok b" "length (bb_bytes b) < 2 ^ 63" "0 < k"
    and "\<not> hi_init w" "r_headers_in (hi_req w) ''Transfer-Encoding'' = Some ''chunked''"
    and "is_HTTP_SUCCESS (r_status (hi_req w))" "33 \<le> rq_limit_req_line (hi_req w)" "rq_limit_req_body (hi_req w) = 0"
    and "chunk_filter (\<lambda>_. APR_SUCCESS) 0 False (b @ [BEos]) = (st, outs, ctx)"
    and "net_ok (hi_next w)" "net_bytes (hi_next w) = mem_bytes (concat outs)"
  shows "\<exists>w'. read_all (\<lambda>w. http_filter (core_input_filter over) pass trailers w AP_MODE_READBYTES False k)
             (Suc (length (bb_bytes b))) w = (APR_SUCCESS, bb_bytes b, w')"
proof -
  from chunk_filter_writes [OF assms(1), of 0] assms(9) obtain ds where
    ds: "mem_bytes (concat outs) = concat (map wire_chunk (map coded ds)) @ ''0'' @ CRLF @ CRLF"
      "concat ds = bb_bytes b" "list_all (\<lambda>d. d \<noteq> []) ds" by auto
  have "list_all chunk_ok (map coded ds)"
    using ds(2,3) concat_length [of _ ds] assms(2) by (fastforce simp: list_all_iff intro!: coded_ok)
  moreover have "net_bytes (hi_next w) = wire_body (map coded ds) [CHR ''0'', CR] [CR, LF]"
    using assms(11) ds(1) by (simp add: wire_body_def CRLF_def)
  moreover have "body_data (map coded ds) = bb_bytes b" using ds(2) by (simp add: body_data_coded)
  ultimately show ?thesis
    using core.chunked_body_read [of w "map coded ds" "[CHR ''0'', CR]" "[CR, LF]" k "Suc (length (bb_bytes b))" over pass trailers]
      last_line_ok assms(3-8,10) by (simp add: core.chunked_request_def strcaseeq_def)
qed

theorem chunked_roundtrip_witness:
  "\<exists>w'. read_all (\<lambda>w. http_filter (core_input_filter NUL) (\<lambda>_. APR_SUCCESS) id w AP_MODE_READBYTES False 8)
     (Suc (length (bb_bytes [BData ''abc'', BFlush, BData ''de'']))) (chunked_sample [''3'' @ CRLF @ ''abc'' @ CRLF,
        ''2'' @ CRLF @ ''de'' @ CRLF @ ''0'' @ CRLF @ CRLF]) = (APR_SUCCESS, bb_bytes [BData ''abc'', BFlush, BData ''de''], w')"
proof -
  have h: "fmt_hex 3 = ''3''" "fmt_hex 2 = ''2''" by code_simp+
  note h' = h(2) [unfolded numeral_2_eq_2]
  have f: "chunk_filter (\<lambda>_. APR_SUCCESS) 0 False ([BData ''abc'', BFlush, BData ''de''] @ [BEos]) =
      (APR_SUCCESS, [[BData (''3'' @ CRLF), BData ''abc'', BData CRLF, BFlush],
         [BData (''2'' @ CRLF), BData ''de'', BData CRLF, BData (''0'' @ CRLF @ CRLF), BEos]], False)"
    by (simp add: chunk_filter.simps chunk_scan.simps chunk_brigade_def chunk_tail_def is_eos_def chunk_more_def h h')
  show ?thesis
    by (rule chunked_roundtrip [OF _ _ _ _ _ _ _ _ f])
      (simp_all add: is_HTTP_SUCCESS_def net_ok_def net_bytes_def CRLF_def)
qed

text \<open>
  The context after a chunk line that did not fit into the buffer of 32 bytes: its first 31 bytes
  fill the buffer, and \<open>pos\<close> stands at its end.
\<close>

definition stuck_at :: "cstring \<Rightarrow> http_ctx \<Rightarrow> bool" where
  "stuck_at line ctx \<longleftrightarrow>
     cx_pos ctx = 31 \<and> cx_chunk_ln ctx = take 31 line \<and> cx_linesize ctx = 0 \<and> cx_state ctx = BODY_CHUNK"

lemma next_chunk_stuck:
  assumes s: "stuck_at line (hi_ctx w)" and ok: "net_ok (hi_next w)"
    and c: "net_bytes (hi_next w) = CR # LF # line2 @ LF # rest2" "LF \<notin> set line2" "length line2 < HUGE_STRING_LEN"
    and lim: "int (length line2) + 2 \<le> rq_limit_req_line (hi_req w)"
    and n: "get_chunk_size (take 31 line) = int n" "0 < n"
  shows "\<exists>w'. next_chunk (core_input_filter over) pass trailers False w = (None, w') \<and>
    cx_remaining (hi_ctx w') = int n \<and> net_bytes (hi_next w') = rest2 \<and> stuck_at line (hi_ctx w')"
proof -
  have c1: "net_bytes (hi_next w) = [CR] @ LF # (line2 @ LF # rest2)" using c(1) by simp
  have "LF \<notin> set [CR]" "length [CR] < HUGE_STRING_LEN" by (simp_all add: HUGE_STRING_LEN_def)
  from core_get_line [OF ok c1 this, of over 0] obtain b n' where
    b: "core_input_filter over (hi_next w) AP_MODE_GETLINE False 0 = (APR_SUCCESS, b, n')" "in_memory b"
      "mem_bytes b = [CR] @ [LF]" "net_bytes n' = line2 @ LF # rest2" "net_ok n'" by auto
  define w1 where "w1 = w\<lparr>hi_next := n', hi_ctx := (hi_ctx w)\<lparr>cx_linesize := 0\<rparr>\<rparr>"
  have "get_remaining_chunk_line (hi_ctx w) b (rq_limit_req_line (hi_req w)) =
      (APR_SUCCESS, (hi_ctx w)\<lparr>cx_linesize := 0\<rparr>)"
    by (rule get_remaining_chunk_line_ok [OF b(2,3)]) (use s lim in \<open>simp add: stuck_at_def\<close>)
  then have "next_chunk (core_input_filter over) pass trailers False w =
      chunk_header (core_input_filter over) pass trailers False w1"
    using s by (simp add: next_chunk_def stuck_at_def b(1) Let_def w1_def)
  moreover from core.chunk_header_stuck [of w1 line2 rest2 over pass trailers] b(4,5) c(2,3) s lim obtain n2 where
    "net_bytes n2 = rest2" "chunk_header (core_input_filter over) pass trailers False w1 =
      chunk_size_read pass trailers (w1\<lparr>hi_next := n2, hi_ctx := (hi_ctx w1)\<lparr>cx_state := BODY_CHUNK, cx_linesize := 0\<rparr>\<rparr>)"
    by (auto simp: w1_def stuck_at_def)
  ultimately show ?thesis
    using s n by (simp add: chunk_size_read_data w1_def stuck_at_def)
qed

lemma read_body_stuck:
  "stuck_at line (hi_ctx w) \<Longrightarrow> stuck_at line (hi_ctx (snd (snd (read_body get pass mode nonblock k w))))"
  by (auto simp: stuck_at_def read_body_def bail_out_on_error_def Let_def split: prod.splits)

text \<open>
  C39. A chunk extension that makes the line of a chunk longer than the buffer of 32 bytes
  desynchronises the filter: the line and its chunk are accepted, but \<open>pos\<close> is not reset. From
  then on the state is stuck: reading the data of a chunk does not change \<open>pos\<close>, and when a chunk is
  used up the line of the next one is skipped, whatever it says, even \<open>0\<close> at the end
  of the body, the size of the first chunk is used again, and \<open>pos\<close> stays where it is, so that the same
  happens to every later chunk.
\<close>

theorem chunk_extension_desync:
  assumes "net_ok (hi_next w)" "net_bytes (hi_next w) = line @ LF # rest" "LF \<notin> set line"
    and "31 \<le> length line" "length line < HUGE_STRING_LEN" "cx_pos (hi_ctx w) = 0" "cx_linesize (hi_ctx w) = 0"
    and "int (length line) + 32 \<le> rq_limit_req_line (hi_req w)"
    and n: "get_chunk_size (take 31 line) = int n" "0 < n"
  shows "(\<exists>w1. chunk_header (core_input_filter over) pass trailers False w = (None, w1) \<and>
        cx_remaining (hi_ctx w1) = int n \<and> net_bytes (hi_next w1) = rest \<and> stuck_at line (hi_ctx w1)) \<and>
    (\<forall>w2 mode nonblock k. stuck_at line (hi_ctx w2) \<longrightarrow>
        stuck_at line (hi_ctx (snd (snd (read_body (core_input_filter over) pass mode nonblock k w2))))) \<and>
    (\<forall>w2 line2 rest2. stuck_at line (hi_ctx w2) \<and> net_ok (hi_next w2) \<and>
        net_bytes (hi_next w2) = CR # LF # line2 @ LF # rest2 \<and> LF \<notin> set line2 \<and> length line2 < HUGE_STRING_LEN \<and>
        int (length line2) + 2 \<le> rq_limit_req_line (hi_req w2) \<longrightarrow>
      (\<exists>w3. next_chunk (core_input_filter over) pass trailers False w2 = (None, w3) \<and>
        cx_remaining (hi_ctx w3) = int n \<and> net_bytes (hi_next w3) = rest2 \<and> stuck_at line (hi_ctx w3)))"
proof -
  from core.chunk_header_long [OF assms(1-6), of over pass trailers] assms(7,8) obtain n1 where
    n1: "net_bytes n1 = rest" "chunk_header (core_input_filter over) pass trailers False w =
      chunk_size_read pass trailers (w\<lparr>hi_next := n1,
        hi_ctx := (hi_ctx w)\<lparr>cx_state := BODY_CHUNK, cx_chunk_ln := take 31 line, cx_pos := 31, cx_linesize := 0\<rparr>\<rparr>)"
    by auto
  then have "\<exists>w1. chunk_header (core_input_filter over) pass trailers False w = (None, w1) \<and>
      cx_remaining (hi_ctx w1) = int n \<and> net_bytes (hi_next w1) = rest \<and> stuck_at line (hi_ctx w1)"
    using n by (simp add: chunk_size_read_data stuck_at_def)
  moreover note read_body_stuck next_chunk_stuck [OF _ _ _ _ _ _ n]
  ultimately show ?thesis by blast
qed

text \<open>A body whose second chunk is the last one, followed by the next request of the client.\<close>

definition next_line :: "cstring \<Rightarrow> core_net http_in \<Rightarrow> core_net http_in" where
  "next_line s w = (chunked_sample [s])\<lparr>hi_ctx := hi_ctx w\<rparr>"

theorem chunk_extension_desync_witness:
  "\<exists>w1 w3. chunk_header (core_input_filter NUL) (\<lambda>_. APR_SUCCESS) id False
      (chunked_sample [''5;'' @ replicate 40 (CHR ''x'') @ [LF] @ ''hello'']) = (None, w1) \<and>
    next_chunk (core_input_filter NUL) (\<lambda>_. APR_SUCCESS) id False
      (next_line ([CR, LF] @ ''0'' @ [LF] @ ''GET /'') w1) = (None, w3) \<and>
    cx_remaining (hi_ctx w3) = 5 \<and> net_bytes (hi_next w3) = ''GET /''"
proof -
  define line where "line = ''5;'' @ replicate 40 (CHR ''x'')"
  have g: "get_chunk_size (take 31 line) = int 5" unfolding line_def by code_simp
  have l: "LF \<notin> set line" "length line = 42" by (simp_all add: line_def)
  note d = chunk_extension_desync [of "chunked_sample [line @ [LF] @ ''hello'']", OF _ _ l(1) _ _ _ _ _ g, of "''hello''" NUL
      "\<lambda>_. APR_SUCCESS" id]
  obtain w1 where w1: "chunk_header (core_input_filter NUL) (\<lambda>_. APR_SUCCESS) id False
      (chunked_sample [line @ [LF] @ ''hello'']) = (None, w1)" "stuck_at line (hi_ctx w1)"
    using d l(2) by (auto simp: net_ok_def net_bytes_def HUGE_STRING_LEN_def)
  have "\<exists>w3. next_chunk (core_input_filter NUL) (\<lambda>_. APR_SUCCESS) id False
      (next_line ([CR, LF] @ ''0'' @ [LF] @ ''GET /'') w1) = (None, w3) \<and>
    cx_remaining (hi_ctx w3) = int 5 \<and> net_bytes (hi_next w3) = ''GET /''"
    using d [THEN conjunct2, THEN conjunct2, rule_format, of "next_line ([CR, LF] @ ''0'' @ [LF] @ ''GET /'') w1" "''0''" "''GET /''"]
      l(2) w1(2) by (auto simp: net_ok_def net_bytes_def HUGE_STRING_LEN_def next_line_def)
  with w1(1) show ?thesis by (auto simp: line_def)
qed

end
