(* ===== verification/Worker_Queue.thy ===== *)
theory Worker_Queue
  imports Prelude
begin

text \<open>
  How the worker MPM hands connections from its listener to its worker threads,
  \<open>server/mpm/worker/fdqueue.c\<close> and the loops of \<open>server/mpm/worker/worker.c\<close> that call it: the
  stack of accepted sockets, the count of idle workers, the lock-free list of recycled pools, and
  the shutdown. The threads interleave at every access to shared data: one step is one read,
  write or compare-and-swap, or one section under \<open>one_big_mutex\<close>, whose data are touched
  nowhere else. \<open>idlers_mutex\<close> does not protect the counter, so its sections are not one step.
  A condition variable may wake a thread without a signal, as POSIX allows; locking and
  unlocking do not fail.
\<close>

section \<open>The queue\<close>

text \<open>An element holds a socket and a pool; \<open>None\<close> is a null socket.\<close>

record fd_queue =
  q_data :: "(nat \<times> nat) option list"
  q_nelts :: nat
  q_bounds :: nat
  q_terminated :: bool

definition queue_init :: "nat \<Rightarrow> fd_queue" where
  "queue_init queue_capacity =
     \<lparr>q_data = replicate queue_capacity None, q_nelts = 0, q_bounds = queue_capacity, q_terminated = False\<rparr>"

definition queue_full :: "fd_queue \<Rightarrow> bool" where
  "queue_full q \<longleftrightarrow> q_nelts q = q_bounds q"

definition queue_empty :: "fd_queue \<Rightarrow> bool" where
  "queue_empty q \<longleftrightarrow> q_nelts q = 0"

text \<open>The section of \<open>ap_queue_push\<close> before the signal.\<close>

definition queue_push :: "fd_queue \<Rightarrow> nat \<Rightarrow> nat \<Rightarrow> fd_queue" where
  "queue_push q sd p = q\<lparr>q_data := (q_data q)[q_nelts q := Some (sd, p)], q_nelts := q_nelts q + 1\<rparr>"

text \<open>
  The sections of \<open>ap_queue_pop\<close>: the first one, and the one after waiting. The caller waits,
  finds the queue empty, or takes the last element.
\<close>

datatype pop_result = PopWait | PopEmpty | PopTake "(nat \<times> nat) option"

definition queue_take :: "fd_queue \<Rightarrow> pop_result \<times> fd_queue" where
  "queue_take q = (PopTake (q_data q ! (q_nelts q - 1)), q\<lparr>q_nelts := q_nelts q - 1\<rparr>)"

definition queue_pop :: "bool \<Rightarrow> fd_queue \<Rightarrow> pop_result \<times> fd_queue" where
  "queue_pop waited q =
     (if queue_empty q then
        (if \<not> waited \<and> \<not> q_terminated q then (PopWait, q) else (PopEmpty, q))
      else queue_take q)"

definition queue_term :: "fd_queue \<Rightarrow> fd_queue" where
  "queue_term q = q\<lparr>q_terminated := True\<rparr>"

section \<open>The threads\<close>

datatype tid = Listener | Worker nat | Main

text \<open>
  Where the listener is: at the top of its loop; in \<open>ap_queue_info_wait_for_idler\<close>; accepting;
  pushing a socket; in \<open>ap_queue_term\<close>.
\<close>

datatype lpc =
  LTop | LIdle | LLock | LCheck | LWait | LBlocked | LRelock | LUnlock | LDec
  | LPool | LNext nat | LCas nat "nat option" | LTerm | LAccept | LPush nat nat | LQTerm | LQWake | LExit

text \<open>
  Where a worker is: at the top of its loop; in \<open>ap_queue_info_set_idle\<close>; at \<open>worker_pop\<close>; in
  \<open>ap_queue_pop\<close>; processing a socket.
\<close>

datatype wpc =
  WTop | WPush | WLink "nat option" | WRead | WCas nat | WLock | WSignal | WUnlock
  | WTest | WPop | WWait | WWoken | WEmpty | WBusy nat nat | WExit

text \<open>The thread that calls \<open>signal_threads(ST_UNGRACEFUL)\<close>.\<close>

datatype mpc = MStart | MWorkers | MInterrupt | MLock | MTerm | MUnlock | MDone

text \<open>
  The shared data and the local variables of the threads. \<open>recycled_pools\<close> is a pointer, \<open>nxt\<close>
  holds the field \<open>next\<close> of the cell that is allocated in each pool. \<open>l_res\<close> is not in the code:
  it is set from the moment the listener takes an idle worker to the push. \<open>n_conn\<close> and \<open>n_pool\<close>
  count the connections accepted and the pools created; \<open>served\<close> are those processed.
\<close>

record wq =
  threads :: nat
  queue :: fd_queue
  idlers :: nat
  idlers_mutex :: "tid option"
  info_terminated :: bool
  recycled_pools :: "nat option"
  nxt :: "nat \<Rightarrow> nat option"
  listener_may_exit :: bool
  workers_may_exit :: bool
  lpc :: lpc
  have_idle_worker :: bool
  l_ptrans :: "nat option"
  l_res :: bool
  wpc :: "nat \<Rightarrow> wpc"
  is_idle :: "nat \<Rightarrow> bool"
  last_ptrans :: "nat \<Rightarrow> nat option"
  mpc :: mpc
  n_conn :: nat
  n_pool :: nat
  served :: "nat set"

definition start :: "nat \<Rightarrow> wq" where
  "start n =
     \<lparr>threads = n, queue = queue_init n, idlers = 0, idlers_mutex = None, info_terminated = False,
      recycled_pools = None, nxt = (\<lambda>_. None), listener_may_exit = False, workers_may_exit = False,
      lpc = LTop, have_idle_worker = False, l_ptrans = None, l_res = False,
      wpc = (\<lambda>_. WTop), is_idle = (\<lambda>_. False), last_ptrans = (\<lambda>_. None), mpc = MStart,
      n_conn = 0, n_pool = 0, served = {}\<rparr>"

abbreviation goto :: "nat \<Rightarrow> wpc \<Rightarrow> wq \<Rightarrow> wq" where
  "goto w pc s \<equiv> s\<lparr>wpc := (wpc s)(w := pc)\<rparr>"

text \<open>\<open>apr_thread_cond_broadcast\<close> on the two condition variables.\<close>

definition wake_workers :: "(nat \<Rightarrow> wpc) \<Rightarrow> nat \<Rightarrow> wpc" where
  "wake_workers pcs w = (if pcs w = WWait then WWoken else pcs w)"

definition wake_listener :: "lpc \<Rightarrow> lpc" where
  "wake_listener pc = (if pc = LBlocked then LRelock else pc)"

section \<open>A worker\<close>

inductive wstep :: "nat \<Rightarrow> wq \<Rightarrow> wq \<Rightarrow> bool" for w s where
  w_top_exit: "\<lbrakk>wpc s w = WTop; workers_may_exit s\<rbrakk> \<Longrightarrow> wstep w s (goto w WExit s)"
| w_top: "\<lbrakk>wpc s w = WTop; \<not> workers_may_exit s\<rbrakk> \<Longrightarrow>
    wstep w s (goto w (if is_idle s w then WTest else if last_ptrans s w = None then WRead else WPush) s)"
| w_push: "wpc s w = WPush \<Longrightarrow> wstep w s (goto w (WLink (recycled_pools s)) s)"
| w_link: "\<lbrakk>wpc s w = WLink next'; last_ptrans s w = Some p; recycled_pools s = next'\<rbrakk> \<Longrightarrow>
    wstep w s ((goto w WRead s)\<lparr>nxt := (nxt s)(p := next'), recycled_pools := Some p,
      last_ptrans := (last_ptrans s)(w := None)\<rparr>)"
| w_link_again: "\<lbrakk>wpc s w = WLink next'; last_ptrans s w = Some p; recycled_pools s \<noteq> next'\<rbrakk> \<Longrightarrow>
    wstep w s ((goto w WPush s)\<lparr>nxt := (nxt s)(p := next')\<rparr>)"
| w_read: "wpc s w = WRead \<Longrightarrow> wstep w s (goto w (WCas (idlers s)) s)"
| w_cas: "\<lbrakk>wpc s w = WCas prev; idlers s = prev\<rbrakk> \<Longrightarrow>
    wstep w s ((goto w (if prev = 0 then WLock else WTest) s)\<lparr>idlers := prev + 1, is_idle := (is_idle s)(w := True)\<rparr>)"
| w_cas_again: "\<lbrakk>wpc s w = WCas prev; idlers s \<noteq> prev\<rbrakk> \<Longrightarrow> wstep w s (goto w WRead s)"
| w_lock: "\<lbrakk>wpc s w = WLock; idlers_mutex s = None\<rbrakk> \<Longrightarrow>
    wstep w s ((goto w WSignal s)\<lparr>idlers_mutex := Some (Worker w)\<rparr>)"
| w_signal: "wpc s w = WSignal \<Longrightarrow> wstep w s ((goto w WUnlock s)\<lparr>lpc := wake_listener (lpc s)\<rparr>)"
| w_unlock: "wpc s w = WUnlock \<Longrightarrow> wstep w s ((goto w WTest s)\<lparr>idlers_mutex := None\<rparr>)"
| w_test: "wpc s w = WTest \<Longrightarrow> wstep w s (goto w (if workers_may_exit s then WExit else WPop) s)"
| w_pop_wait: "\<lbrakk>wpc s w = WPop; queue_pop False (queue s) = (PopWait, q)\<rbrakk> \<Longrightarrow> wstep w s (goto w WWait s)"
| w_pop_empty: "\<lbrakk>wpc s w = (if waited then WWoken else WPop); queue_pop waited (queue s) = (PopEmpty, q)\<rbrakk> \<Longrightarrow>
    wstep w s (goto w WEmpty s)"
| w_pop: "\<lbrakk>wpc s w = (if waited then WWoken else WPop); queue_pop waited (queue s) = (PopTake (Some (sd, p)), q)\<rbrakk> \<Longrightarrow>
    wstep w s ((goto w (WBusy sd p) s)\<lparr>queue := q, is_idle := (is_idle s)(w := False)\<rparr>)"
| w_spurious: "wpc s w = WWait \<Longrightarrow> wstep w s (goto w WWoken s)"
| w_empty: "wpc s w = WEmpty \<Longrightarrow> wstep w s (goto w (if q_terminated (queue s) then WExit else WTest) s)"
| w_done: "wpc s w = WBusy sd p \<Longrightarrow>
    wstep w s ((goto w WTop s)\<lparr>last_ptrans := (last_ptrans s)(w := Some p), served := insert sd (served s)\<rparr>)"

section \<open>The listener\<close>

text \<open>The pool of a new connection: the one at hand, or a new one.\<close>

definition trans_pool :: "wq \<Rightarrow> nat" where
  "trans_pool s = (case l_ptrans s of Some p \<Rightarrow> p | None \<Rightarrow> n_pool s)"

definition with_pool :: "wq \<Rightarrow> wq" where
  "with_pool s = s\<lparr>l_ptrans := Some (trans_pool s), n_pool := (if l_ptrans s = None then n_pool s + 1 else n_pool s)\<rparr>"

definition pushed :: "nat \<Rightarrow> nat \<Rightarrow> wq \<Rightarrow> wq" where
  "pushed sd p s = s\<lparr>queue := queue_push (queue s) sd p, have_idle_worker := False, l_res := False, lpc := LTop\<rparr>"

inductive lstep :: "wq \<Rightarrow> wq \<Rightarrow> bool" for s where
  l_top: "lpc s = LTop \<Longrightarrow>
    lstep s (s\<lparr>lpc := (if listener_may_exit s then LQTerm else if have_idle_worker s then LAccept else LIdle)\<rparr>)"
| l_idle: "lpc s = LIdle \<Longrightarrow> lstep s (s\<lparr>l_ptrans := None, lpc := (if idlers s = 0 then LLock else LDec)\<rparr>)"
| l_lock: "\<lbrakk>lpc s = LLock \<or> lpc s = LRelock; idlers_mutex s = None\<rbrakk> \<Longrightarrow>
    lstep s (s\<lparr>idlers_mutex := Some Listener, lpc := LCheck\<rparr>)"
| l_check: "lpc s = LCheck \<Longrightarrow> lstep s (s\<lparr>lpc := (if idlers s = 0 then LWait else LUnlock)\<rparr>)"
| l_wait: "lpc s = LWait \<Longrightarrow> lstep s (s\<lparr>idlers_mutex := None, lpc := LBlocked\<rparr>)"
| l_spurious: "lpc s = LBlocked \<Longrightarrow> lstep s (s\<lparr>lpc := LRelock\<rparr>)"
| l_unlock: "lpc s = LUnlock \<Longrightarrow> lstep s (s\<lparr>idlers_mutex := None, lpc := LDec\<rparr>)"
| l_dec: "lpc s = LDec \<Longrightarrow> lstep s (s\<lparr>idlers := idlers s - 1, l_res := True, lpc := LPool\<rparr>)"
| l_pool: "lpc s = LPool \<Longrightarrow>
    lstep s (s\<lparr>lpc := (case recycled_pools s of None \<Rightarrow> LTerm | Some first_pool \<Rightarrow> LNext first_pool)\<rparr>)"
| l_next: "lpc s = LNext first_pool \<Longrightarrow> lstep s (s\<lparr>lpc := LCas first_pool (nxt s first_pool)\<rparr>)"
| l_cas: "\<lbrakk>lpc s = LCas first_pool next'; recycled_pools s = Some first_pool\<rbrakk> \<Longrightarrow>
    lstep s (s\<lparr>recycled_pools := next', l_ptrans := Some first_pool, lpc := LTerm\<rparr>)"
| l_cas_again: "\<lbrakk>lpc s = LCas first_pool next'; recycled_pools s \<noteq> Some first_pool\<rbrakk> \<Longrightarrow> lstep s (s\<lparr>lpc := LPool\<rparr>)"
| l_term: "lpc s = LTerm \<Longrightarrow>
    lstep s (if info_terminated s then s\<lparr>lpc := LQTerm\<rparr> else s\<lparr>have_idle_worker := True, lpc := LAccept\<rparr>)"
| l_accept_exit: "\<lbrakk>lpc s = LAccept; listener_may_exit s\<rbrakk> \<Longrightarrow> lstep s (s\<lparr>lpc := LQTerm\<rparr>)"
| l_accept: "\<lbrakk>lpc s = LAccept; \<not> listener_may_exit s\<rbrakk> \<Longrightarrow>
    lstep s ((with_pool s)\<lparr>n_conn := n_conn s + 1, lpc := LPush (n_conn s) (trans_pool s)\<rparr>)"
| l_accept_none: "\<lbrakk>lpc s = LAccept; \<not> listener_may_exit s\<rbrakk> \<Longrightarrow> lstep s ((with_pool s)\<lparr>lpc := LTop\<rparr>)"
| l_push_wake: "\<lbrakk>lpc s = LPush sd p; w < threads s; wpc s w = WWait\<rbrakk> \<Longrightarrow> lstep s (goto w WWoken (pushed sd p s))"
| l_push: "\<lbrakk>lpc s = LPush sd p; \<forall>w<threads s. wpc s w \<noteq> WWait\<rbrakk> \<Longrightarrow> lstep s (pushed sd p s)"
| l_qterm: "lpc s = LQTerm \<Longrightarrow> lstep s (s\<lparr>queue := queue_term (queue s), lpc := LQWake\<rparr>)"
| l_qwake: "lpc s = LQWake \<Longrightarrow> lstep s (s\<lparr>wpc := wake_workers (wpc s), lpc := LExit\<rparr>)"

section \<open>Shutdown\<close>

text \<open>\<open>signal_threads\<close>: a graceful one sets one flag, at any time; an ungraceful one goes on.\<close>

inductive mstep :: "wq \<Rightarrow> wq \<Rightarrow> bool" for s where
  m_graceful: "mstep s (s\<lparr>listener_may_exit := True\<rparr>)"
| m_start: "mpc s = MStart \<Longrightarrow> mstep s (s\<lparr>listener_may_exit := True, mpc := MWorkers\<rparr>)"
| m_workers: "mpc s = MWorkers \<Longrightarrow> mstep s (s\<lparr>workers_may_exit := True, mpc := MInterrupt\<rparr>)"
| m_interrupt: "mpc s = MInterrupt \<Longrightarrow> mstep s (s\<lparr>wpc := wake_workers (wpc s), mpc := MLock\<rparr>)"
| m_lock: "\<lbrakk>mpc s = MLock; idlers_mutex s = None\<rbrakk> \<Longrightarrow> mstep s (s\<lparr>idlers_mutex := Some Main, mpc := MTerm\<rparr>)"
| m_term: "mpc s = MTerm \<Longrightarrow> mstep s (s\<lparr>info_terminated := True, lpc := wake_listener (lpc s), mpc := MUnlock\<rparr>)"
| m_unlock: "mpc s = MUnlock \<Longrightarrow> mstep s (s\<lparr>idlers_mutex := None, mpc := MDone\<rparr>)"

inductive step :: "wq \<Rightarrow> wq \<Rightarrow> bool" where
  worker: "w < threads s \<Longrightarrow> wstep w s s' \<Longrightarrow> step s s'"
| listener: "lstep s s' \<Longrightarrow> step s s'"
| main: "mstep s s' \<Longrightarrow> step s s'"

inductive reachable :: "nat \<Rightarrow> wq \<Rightarrow> bool" for n where
  reach_start: "reachable n (start n)"
| reach_step: "\<lbrakk>reachable n s; step s s'\<rbrakk> \<Longrightarrow> reachable n s'"

section \<open>Counting threads\<close>

definition count_if :: "nat \<Rightarrow> ('a \<Rightarrow> bool) \<Rightarrow> (nat \<Rightarrow> 'a) \<Rightarrow> nat" where
  "count_if n P f = card {w. w < n \<and> P (f w)}"

lemma count_if_le: "count_if n P f \<le> n"
  using card_mono [of "{..<n}" "{w. w < n \<and> P (f w)}"] by (auto simp: count_if_def)

lemma count_if_upd:
  assumes "w < n"
  shows "count_if n P (f(w := a)) + (if P (f w) then 1 else 0) = count_if n P f + (if P a then 1 else 0)"
proof -
  let ?A = "{x. x < n \<and> x \<noteq> w \<and> P (f x)}"
  have c: "card {x. x < n \<and> P (g x)} = card ?A + (if P (g w) then 1 else 0)"
    if "\<And>x. x \<noteq> w \<Longrightarrow> g x = f x" for g
  proof (cases "P (g w)")
    case True
    then have "{x. x < n \<and> P (g x)} = insert w ?A" using assms that by auto
    with True show ?thesis by simp
  next
    case False
    then have "{x. x < n \<and> P (g x)} = ?A" using that by (metis (lifting))
    with False show ?thesis by simp
  qed
  show ?thesis using c [of f] c [of "f(w := a)"] by (simp add: count_if_def)
qed

lemma count_if_upd_simps:
  assumes "w < n"
  shows "P (f w) \<Longrightarrow> P a \<Longrightarrow> count_if n P (f(w := a)) = count_if n P f"
    and "\<not> P (f w) \<Longrightarrow> \<not> P a \<Longrightarrow> count_if n P (f(w := a)) = count_if n P f"
    and "\<not> P (f w) \<Longrightarrow> P a \<Longrightarrow> count_if n P (f(w := a)) = Suc (count_if n P f)"
    and "P (f w) \<Longrightarrow> \<not> P a \<Longrightarrow> count_if n P (f(w := a)) = count_if n P f - 1"
  using count_if_upd [OF assms, of P f a] by simp_all

lemma count_if_pos: "0 < count_if n P f \<longleftrightarrow> (\<exists>w<n. P (f w))"
  by (auto simp: count_if_def card_gt_0_iff)

section \<open>Reservations\<close>

text \<open>
  A worker that counts itself idle is paid for by the counter, by the reservation of the
  listener, or by an element of the queue.
\<close>

fun idle_ok :: "wpc \<Rightarrow> bool \<Rightarrow> bool" where
  "idle_ok WTop i = (\<not> i)"
| "idle_ok WPush i = (\<not> i)"
| "idle_ok (WLink a) i = (\<not> i)"
| "idle_ok WRead i = (\<not> i)"
| "idle_ok (WCas a) i = (\<not> i)"
| "idle_ok (WBusy a b) i = (\<not> i)"
| "idle_ok WExit i = True"
| "idle_ok pc i = i"

fun listener_ok :: "lpc \<Rightarrow> bool \<Rightarrow> bool \<Rightarrow> nat \<Rightarrow> bool" where
  "listener_ok LTop have res n \<longleftrightarrow> have = res"
| "listener_ok LUnlock have res n \<longleftrightarrow> \<not> have \<and> \<not> res \<and> 0 < n"
| "listener_ok LDec have res n \<longleftrightarrow> \<not> have \<and> \<not> res \<and> 0 < n"
| "listener_ok LPool have res n \<longleftrightarrow> \<not> have \<and> res"
| "listener_ok (LNext a) have res n \<longleftrightarrow> \<not> have \<and> res"
| "listener_ok (LCas a b) have res n \<longleftrightarrow> \<not> have \<and> res"
| "listener_ok LTerm have res n \<longleftrightarrow> \<not> have \<and> res"
| "listener_ok LAccept have res n \<longleftrightarrow> have \<and> res"
| "listener_ok (LPush a b) have res n \<longleftrightarrow> have \<and> res"
| "listener_ok LQTerm have res n \<longleftrightarrow> True"
| "listener_ok LQWake have res n \<longleftrightarrow> True"
| "listener_ok LExit have res n \<longleftrightarrow> True"
| "listener_ok pc have res n \<longleftrightarrow> \<not> have \<and> \<not> res"

definition inv_count :: "wq \<Rightarrow> bool" where
  "inv_count s \<longleftrightarrow>
     idlers s + (if l_res s then 1 else 0) + q_nelts (queue s) = count_if (threads s) (\<lambda>i. i) (is_idle s) \<and>
     q_bounds (queue s) = threads s \<and> length (q_data (queue s)) = threads s \<and>
     (\<forall>w<threads s. idle_ok (wpc s w) (is_idle s w)) \<and>
     listener_ok (lpc s) (have_idle_worker s) (l_res s) (idlers s)"

lemma inv_countE:
  assumes "inv_count s" "w < threads s"
  obtains "idle_ok (wpc s w) (is_idle s w)"
  using assms by (auto simp: inv_count_def)

lemmas queue_defs = queue_init_def queue_full_def queue_empty_def queue_push_def queue_take_def queue_pop_def queue_term_def

lemma listener_ok_Suc: "listener_ok pc h r n \<Longrightarrow> listener_ok pc h r (Suc n)"
  by (cases pc) simp_all

lemma listener_ok_wake: "listener_ok pc h r n \<Longrightarrow> listener_ok (wake_listener pc) h r n"
  by (cases pc) (simp_all add: wake_listener_def)

lemma idle_ok_wake: "idle_ok (wake_workers pcs w) i = idle_ok (pcs w) i"
  by (simp add: wake_workers_def)

lemma queue_popD:
  "queue_pop b q = (PopWait, q') \<Longrightarrow> q' = q \<and> q_nelts q = 0 \<and> \<not> b \<and> \<not> q_terminated q"
  "queue_pop b q = (PopEmpty, q') \<Longrightarrow> q' = q \<and> q_nelts q = 0"
  "queue_pop b q = (PopTake e, q') \<Longrightarrow> 0 < q_nelts q \<and> q_data q ! (q_nelts q - 1) = e \<and> q' = q\<lparr>q_nelts := q_nelts q - 1\<rparr>"
  by (auto simp: queue_defs split: if_splits)

lemma inv_count_wstep:
  assumes "wstep w s s'" "w < threads s" "inv_count s"
  shows "inv_count s'"
  using assms
  by (cases rule: wstep.cases)
    (auto simp: inv_count_def count_if_upd_simps intro: listener_ok_Suc listener_ok_wake dest!: queue_popD split: if_splits)

lemma inv_count_lstep:
  assumes "lstep s s'" "inv_count s"
  shows "inv_count s'"
  using assms
  by (cases rule: lstep.cases)
    (auto simp: inv_count_def pushed_def with_pool_def queue_defs idle_ok_wake split: option.splits)

lemma inv_count_mstep: "mstep s s' \<Longrightarrow> inv_count s \<Longrightarrow> inv_count s'"
  by (cases rule: mstep.cases) (auto simp: inv_count_def idle_ok_wake listener_ok_wake)

lemma step_threads: "step s s' \<Longrightarrow> threads s' = threads s"
  by (auto elim!: step.cases wstep.cases lstep.cases mstep.cases simp: pushed_def with_pool_def)

lemma inv_count_reachable: "reachable n s \<Longrightarrow> inv_count s \<and> threads s = n"
proof (induction rule: reachable.induct)
  case reach_start
  have "count_if n (\<lambda>i. i) (\<lambda>_. False) = 0" by (simp add: count_if_def)
  then show ?case by (simp add: inv_count_def start_def queue_defs)
next
  case (reach_step s s')
  then show ?case
    by (auto simp: step_threads elim!: step.cases intro: inv_count_wstep inv_count_lstep inv_count_mstep)
qed

section \<open>The mutex and the two condition variables\<close>

definition inv_mutex :: "wq \<Rightarrow> bool" where
  "inv_mutex s \<longleftrightarrow>
     (idlers_mutex s = Some Listener \<longleftrightarrow> lpc s = LCheck \<or> lpc s = LWait \<or> lpc s = LUnlock) \<and>
     (\<forall>w. idlers_mutex s = Some (Worker w) \<longrightarrow> w < threads s) \<and>
     (\<forall>w<threads s. idlers_mutex s = Some (Worker w) \<longleftrightarrow> wpc s w = WSignal \<or> wpc s w = WUnlock) \<and>
     (idlers_mutex s = Some Main \<longleftrightarrow> mpc s = MTerm \<or> mpc s = MUnlock)"

lemma wake_workers_eq:
  "pc \<noteq> WWait \<Longrightarrow> pc \<noteq> WWoken \<Longrightarrow> wake_workers f w = pc \<longleftrightarrow> f w = pc" "wake_workers f w \<noteq> WWait"
  by (auto simp: wake_workers_def)

lemma wake_listener_eq: "pc \<noteq> LBlocked \<Longrightarrow> pc \<noteq> LRelock \<Longrightarrow> wake_listener p = pc \<longleftrightarrow> p = pc" "wake_listener p \<noteq> LBlocked"
  by (auto simp: wake_listener_def)

lemma inv_mutex_step:
  assumes "step s s'" "inv_mutex s"
  shows "inv_mutex s'"
  using assms(1)
proof (cases rule: step.cases)
  case (worker w)
  have "wpc s w = WSignal \<or> wpc s w = WUnlock \<Longrightarrow> idlers_mutex s = Some (Worker w)"
    using assms(2) worker(1) by (simp add: inv_mutex_def)
  with worker(2,1) assms(2) show ?thesis
    by (cases rule: wstep.cases) (auto simp: inv_mutex_def wake_listener_eq split: if_splits)
next
  case listener
  from listener assms(2) show ?thesis
    by (cases rule: lstep.cases)
      (auto simp: inv_mutex_def wake_workers_eq pushed_def with_pool_def split: if_splits option.splits)
next
  case main
  from main assms(2) show ?thesis
    by (cases rule: mstep.cases) (auto simp: inv_mutex_def wake_workers_eq wake_listener_eq)
qed

text \<open>
  A listener that goes to sleep while the counter is not 0 is about to be woken by the worker
  that has made it so.
\<close>

definition inv_signal :: "wq \<Rightarrow> bool" where
  "inv_signal s \<longleftrightarrow>
     ((lpc s = LWait \<or> lpc s = LBlocked) \<and> 0 < idlers s \<longrightarrow> (\<exists>w<threads s. wpc s w = WLock \<or> wpc s w = WSignal))"

lemma inv_signal_move:
  assumes "inv_signal s" "w < threads s" "\<And>x. x \<noteq> w \<Longrightarrow> wpc s' x = wpc s x" "threads s' = threads s" "lpc s' = lpc s"
    and "wpc s' w = WLock \<or> wpc s' w = WSignal \<or> wpc s w \<noteq> WLock \<and> wpc s w \<noteq> WSignal"
    and "0 < idlers s' \<Longrightarrow> 0 < idlers s \<or> wpc s' w = WLock"
  shows "inv_signal s'"
  using assms unfolding inv_signal_def by metis

lemma inv_signal_step:
  assumes "step s s'" "inv_mutex s" "inv_signal s"
  shows "inv_signal s'"
  using assms(1)
proof (cases rule: step.cases)
  case (worker w)
  note M = inv_signal_move [OF assms(3) worker(1)]
  from worker(2) show ?thesis
  proof (cases rule: wstep.cases)
    case w_signal
    then have "lpc s \<noteq> LWait" using assms(2) worker(1) by (auto simp: inv_mutex_def)
    then show ?thesis using w_signal by (auto simp: inv_signal_def wake_listener_def)
  qed (rule M; auto split: if_splits)+
next
  case listener
  from listener assms(2,3) show ?thesis
    by (cases rule: lstep.cases)
      (auto simp: inv_signal_def wake_workers_eq pushed_def with_pool_def split: if_splits option.splits)
next
  case main
  from main assms(2,3) show ?thesis
    by (cases rule: mstep.cases) (auto simp: inv_signal_def wake_workers_eq wake_listener_eq wake_listener_def)
qed

text \<open>While a worker sleeps on the queue, there are no more connections in it than workers on their way.\<close>

definition inv_awake :: "wq \<Rightarrow> bool" where
  "inv_awake s \<longleftrightarrow>
     ((\<exists>w<threads s. wpc s w = WWait) \<longrightarrow> q_nelts (queue s) \<le> count_if (threads s) (\<lambda>pc. pc = WWoken) (wpc s))"

lemma inv_awake_step:
  assumes "step s s'" "inv_awake s"
  shows "inv_awake s'"
  using assms(1)
proof (cases rule: step.cases)
  case (worker w)
  from worker(2,1) assms(2) show ?thesis
    by (cases rule: wstep.cases)
      (auto simp: inv_awake_def count_if_upd_simps split: if_splits dest!: queue_popD)
next
  case listener
  from listener assms(2) show ?thesis
    by (cases rule: lstep.cases)
      (auto simp: inv_awake_def wake_workers_eq pushed_def with_pool_def queue_defs count_if_upd_simps split: if_splits option.splits)
next
  case main
  from main assms(2) show ?thesis
    by (cases rule: mstep.cases) (auto simp: inv_awake_def wake_workers_eq)
qed

definition inv_wake :: "wq \<Rightarrow> bool" where
  "inv_wake s \<longleftrightarrow> inv_mutex s \<and> inv_signal s \<and> inv_awake s"

lemma inv_wake_reachable: "reachable n s \<Longrightarrow> inv_wake s"
proof (induction rule: reachable.induct)
  case reach_start
  then show ?case by (simp add: inv_wake_def inv_mutex_def inv_signal_def inv_awake_def start_def)
next
  case (reach_step s s')
  then show ?case using inv_mutex_step inv_signal_step inv_awake_step unfolding inv_wake_def by blast
qed

end
