(* ===== verification/Worker_Pools.thy ===== *)
theory Worker_Pools
  imports Worker_Queue
begin

text \<open>
  What the threads of the worker MPM own. The pools of finished connections go through the
  lock-free list \<open>recycled_pools\<close> back to the listener; with the accepted sockets they go through
  the queue to the workers. The pointers of the list are shown to form a stack, and no pool or
  socket is ever in two hands, however the threads interleave.
\<close>

section \<open>The queue is a stack\<close>

definition stack_of :: "fd_queue \<Rightarrow> (nat \<times> nat) list \<Rightarrow> bool" where
  "stack_of q es \<longleftrightarrow> q_nelts q \<le> length (q_data q) \<and> take (q_nelts q) (q_data q) = map Some es"

lemma stack_of_init: "stack_of (queue_init n) []"
  by (simp add: stack_of_def queue_init_def)

lemma stack_of_length: "stack_of q es \<Longrightarrow> q_nelts q = length es"
  unfolding stack_of_def by (metis length_map length_take min.absorb2)

lemma stack_of_push:
  assumes "stack_of q es" "q_nelts q < length (q_data q)"
  shows "stack_of (queue_push q sd p) (es @ [(sd, p)])"
  using assms by (simp add: stack_of_def queue_push_def take_Suc_conv_app_nth)

lemma stack_of_pop:
  assumes "stack_of q es" "queue_pop b q = (PopTake e, q')"
  shows "\<exists>x es'. e = Some x \<and> es = es' @ [x] \<and> stack_of q' es'"
proof -
  have q: "0 < q_nelts q" "e = q_data q ! (q_nelts q - 1)" "q' = q\<lparr>q_nelts := q_nelts q - 1\<rparr>"
    using queue_popD(3) [OF assms(2)] by auto
  then obtain es' x where es: "es = es' @ [x]"
    using stack_of_length [OF assms(1)] by (cases es rule: rev_cases) auto
  then have n: "q_nelts q = Suc (length es')" using stack_of_length [OF assms(1)] by simp
  have "take (Suc (length es')) (q_data q) = map Some es' @ [Some x]" "length es' < length (q_data q)"
    using assms(1) n es by (auto simp: stack_of_def)
  then have "take (length es') (q_data q) @ [q_data q ! length es'] = map Some es' @ [Some x]"
    by (simp add: take_Suc_conv_app_nth)
  then show ?thesis using q n es \<open>length es' < length (q_data q)\<close> by (auto simp: stack_of_def)
qed

lemma stack_of_term: "stack_of (queue_term q) es = stack_of q es"
  by (simp add: stack_of_def queue_term_def)

section \<open>The list of recycled pools\<close>

fun chain :: "(nat \<Rightarrow> nat option) \<Rightarrow> nat option \<Rightarrow> nat list \<Rightarrow> bool" where
  "chain next' hd' [] \<longleftrightarrow> hd' = None"
| "chain next' hd' (p # ps) \<longleftrightarrow> hd' = Some p \<and> chain next' (next' p) ps"

lemma chain_upd: "p \<notin> set ps \<Longrightarrow> chain (next'(p := a)) hd' ps \<longleftrightarrow> chain next' hd' ps"
  by (induction ps arbitrary: hd') auto

datatype place = AtStack | AtListener | AtQueue | AtWorker nat

fun last_ok :: "wpc \<Rightarrow> nat option \<Rightarrow> bool" where
  "last_ok WTop l = True"
| "last_ok WExit l = True"
| "last_ok WPush l = (l \<noteq> None)"
| "last_ok (WLink a) l = (l \<noteq> None)"
| "last_ok pc l = (l = None)"

fun ptrans_ok :: "lpc \<Rightarrow> nat option \<Rightarrow> nat list \<Rightarrow> (nat \<Rightarrow> nat option) \<Rightarrow> bool" where
  "ptrans_ok LLock l ps next' \<longleftrightarrow> l = None"
| "ptrans_ok LCheck l ps next' \<longleftrightarrow> l = None"
| "ptrans_ok LWait l ps next' \<longleftrightarrow> l = None"
| "ptrans_ok LBlocked l ps next' \<longleftrightarrow> l = None"
| "ptrans_ok LRelock l ps next' \<longleftrightarrow> l = None"
| "ptrans_ok LUnlock l ps next' \<longleftrightarrow> l = None"
| "ptrans_ok LDec l ps next' \<longleftrightarrow> l = None"
| "ptrans_ok LPool l ps next' \<longleftrightarrow> l = None"
| "ptrans_ok (LNext f) l ps next' \<longleftrightarrow> l = None \<and> f \<in> set ps"
| "ptrans_ok (LCas f n) l ps next' \<longleftrightarrow> l = None \<and> f \<in> set ps \<and> next' f = n"
| "ptrans_ok (LPush c p) l ps next' \<longleftrightarrow> l = Some p"
| "ptrans_ok _ l ps next' \<longleftrightarrow> True"

text \<open>
  \<open>own\<close> says where each pool is, \<open>ps\<close> what the list holds, \<open>es\<close> what the queue holds and \<open>np\<close> how
  many pools there are.
\<close>

definition list_has :: "(nat \<Rightarrow> place) \<Rightarrow> nat \<Rightarrow> nat list \<Rightarrow> (nat \<Rightarrow> nat option) \<Rightarrow> nat option \<Rightarrow> bool" where
  "list_has own np ps next' hd' \<longleftrightarrow>
     chain next' hd' ps \<and> distinct ps \<and> (\<forall>p\<in>set ps. own p = AtStack \<and> p < np)"

definition queue_has :: "(nat \<Rightarrow> place) \<Rightarrow> nat \<Rightarrow> (nat \<times> nat) list \<Rightarrow> fd_queue \<Rightarrow> bool" where
  "queue_has own np es q \<longleftrightarrow>
     stack_of q es \<and> distinct (map snd es) \<and> (\<forall>p\<in>snd ` set es. own p = AtQueue \<and> p < np)"

definition listener_has :: "(nat \<Rightarrow> place) \<Rightarrow> nat \<Rightarrow> bool \<Rightarrow> nat option \<Rightarrow> bool" where
  "listener_has own np res l \<longleftrightarrow> (\<forall>p. res \<and> l = Some p \<longrightarrow> own p = AtListener \<and> p < np)"

definition worker_has :: "(nat \<Rightarrow> place) \<Rightarrow> nat \<Rightarrow> nat \<Rightarrow> wpc \<Rightarrow> nat option \<Rightarrow> bool" where
  "worker_has own np w pc l \<longleftrightarrow>
     last_ok pc l \<and> (\<forall>p. l = Some p \<longrightarrow> own p = AtWorker w \<and> p < np) \<and>
     (\<forall>c p. pc = WBusy c p \<longrightarrow> own p = AtWorker w \<and> p < np)"

definition workers_have :: "(nat \<Rightarrow> place) \<Rightarrow> nat \<Rightarrow> nat \<Rightarrow> (nat \<Rightarrow> wpc) \<Rightarrow> (nat \<Rightarrow> nat option) \<Rightarrow> bool" where
  "workers_have own np n pcs ls \<longleftrightarrow> (\<forall>w<n. worker_has own np w (pcs w) (ls w))"

definition pools_ok :: "(nat \<Rightarrow> place) \<Rightarrow> nat list \<Rightarrow> (nat \<times> nat) list \<Rightarrow> wq \<Rightarrow> bool" where
  "pools_ok own ps es s \<longleftrightarrow>
     list_has own (n_pool s) ps (nxt s) (recycled_pools s) \<and>
     queue_has own (n_pool s) es (queue s) \<and>
     ptrans_ok (lpc s) (l_ptrans s) ps (nxt s) \<and>
     listener_has own (n_pool s) (l_res s) (l_ptrans s) \<and>
     workers_have own (n_pool s) (threads s) (wpc s) (last_ptrans s)"

definition inv_pools :: "wq \<Rightarrow> bool" where
  "inv_pools s \<longleftrightarrow> (\<exists>own ps es. pools_ok own ps es s)"

lemma inv_poolsI: "pools_ok own ps es s \<Longrightarrow> inv_pools s"
  by (auto simp: inv_pools_def)

lemma ptrans_ok_wake: "ptrans_ok pc l ps nx \<Longrightarrow> ptrans_ok (wake_listener pc) l ps nx"
  by (cases pc) (simp_all add: wake_listener_def)

lemma workers_have_wake: "workers_have own np n (wake_workers pcs) ls = workers_have own np n pcs ls"
proof -
  have "worker_has own np w (wake_workers pcs w) l = worker_has own np w (pcs w) l" for w l
    by (simp add: wake_workers_def worker_has_def)
  then show ?thesis by (simp add: workers_have_def)
qed

text \<open>A pool that changes hands concerns only the two owners.\<close>

lemma other_owners:
  "own p \<noteq> AtStack \<Longrightarrow> list_has own np ps nx h \<Longrightarrow> list_has (own(p := a)) np ps nx h"
  "own p \<noteq> AtQueue \<Longrightarrow> queue_has own np es q \<Longrightarrow> queue_has (own(p := a)) np es q"
  "own p \<noteq> AtListener \<Longrightarrow> listener_has own np res l \<Longrightarrow> listener_has (own(p := a)) np res l"
  "\<forall>w. own p \<noteq> AtWorker w \<Longrightarrow> workers_have own np n pcs ls \<Longrightarrow> workers_have (own(p := a)) np n pcs ls"
  by (auto simp: list_has_def queue_has_def listener_has_def workers_have_def worker_has_def)

text \<open>One worker moves.\<close>

lemma workers_have_move:
  assumes "workers_have own np n pcs ls" "worker_has own' np w pc l" "\<And>p. own' p \<noteq> own p \<Longrightarrow> own p = AtWorker w \<or> own p = AtQueue"
  shows "workers_have own' np n (pcs(w := pc)) (ls(w := l))"
  unfolding workers_have_def
proof (intro allI impI)
  fix x
  assume x: "x < n"
  show "worker_has own' np x ((pcs(w := pc)) x) ((ls(w := l)) x)"
  proof (cases "x = w")
    case False
    have "worker_has own np x (pcs x) (ls x)" using assms(1) x by (simp add: workers_have_def)
    moreover have "own p = AtWorker x \<Longrightarrow> own' p = AtWorker x" for p using assms(3) [of p] False by auto
    ultimately show ?thesis using False by (auto simp: worker_has_def)
  qed (use assms(2) in simp)
qed

lemma workers_have_goto:
  "workers_have own np n pcs ls \<Longrightarrow> worker_has own np w pc (ls w) \<Longrightarrow> workers_have own np n (pcs(w := pc)) ls"
  using workers_have_move [of own np n pcs ls own w pc "ls w"] by simp

lemma ptrans_ok_link:
  "ptrans_ok pc l ps nx \<Longrightarrow> p \<notin> set ps \<Longrightarrow> ptrans_ok pc l (p # ps) (nx(p := a)) \<and> ptrans_ok pc l ps (nx(p := a))"
  by (cases pc) auto

lemma inv_pools_wstep:
  assumes "wstep w s s'" "w < threads s" "inv_count s" "inv_pools s"
  shows "inv_pools s'"
proof -
  have idle: "idle_ok (wpc s w) (is_idle s w)" using assms(2,3) by (simp add: inv_count_def)
  from assms(4) obtain own ps es where ok: "pools_ok own ps es s" by (auto simp: inv_pools_def)
  note same = inv_poolsI [of own ps es]
  have me: "worker_has own (n_pool s) w (wpc s w) (last_ptrans s w)"
    using ok assms(2) by (simp add: pools_ok_def workers_have_def)
  have go: "pools_ok own ps es (goto w pc s)" if "worker_has own (n_pool s) w pc (last_ptrans s w)" for pc
    using ok that by (simp add: pools_ok_def workers_have_goto)
  have goI: "inv_pools (goto w pc s)" if "worker_has own (n_pool s) w pc (last_ptrans s w)" for pc
    using go [OF that] by (rule inv_poolsI)
  from assms(1) show ?thesis
  proof (cases rule: wstep.cases)
    case (w_link nx p)
    have p: "own p = AtWorker w" "p < n_pool s" using me w_link by (auto simp: worker_has_def)
    then have np: "p \<notin> set ps" using ok by (auto simp: pools_ok_def list_has_def)
    have "list_has (own(p := AtStack)) (n_pool s) (p # ps) ((nxt s)(p := nx)) (Some p)"
      using ok p np w_link by (auto simp: pools_ok_def list_has_def chain_upd)
    moreover have "workers_have (own(p := AtStack)) (n_pool s) (threads s) ((wpc s)(w := WRead)) ((last_ptrans s)(w := None))"
      using ok p by (intro workers_have_move [of own]) (auto simp: pools_ok_def worker_has_def split: if_splits)
    ultimately have "pools_ok (own(p := AtStack)) (p # ps) es s'"
      using ok p np w_link by (auto simp: pools_ok_def other_owners ptrans_ok_link)
    then show ?thesis by (rule inv_poolsI)
  next
    case (w_link_again nx p)
    have "p \<notin> set ps" using me w_link_again ok by (auto simp: pools_ok_def list_has_def worker_has_def)
    moreover have "worker_has own (n_pool s) w WPush (last_ptrans s w)" using me w_link_again by (auto simp: worker_has_def)
    ultimately show ?thesis using w_link_again ok
      by (intro same) (auto simp: pools_ok_def list_has_def chain_upd ptrans_ok_link workers_have_goto)
  next
    case (w_pop waited c p q)
    have "stack_of (queue s) es" using ok by (simp add: pools_ok_def queue_has_def)
    from stack_of_pop [OF this w_pop(3)] obtain es' where
      es: "es = es' @ [(c, p)]" "stack_of q es'" by auto
    have p: "own p = AtQueue" "p < n_pool s" "p \<notin> snd ` set es'"
      using ok es(1) by (auto simp: pools_ok_def queue_has_def)
    have l: "last_ptrans s w = None" using me w_pop(2) by (auto simp: worker_has_def split: if_splits)
    have "queue_has (own(p := AtWorker w)) (n_pool s) es' q"
      using ok es p(3) by (auto simp: pools_ok_def queue_has_def)
    moreover have "workers_have (own(p := AtWorker w)) (n_pool s) (threads s) ((wpc s)(w := WBusy c p)) ((last_ptrans s)(w := None))"
      using ok p by (intro workers_have_move [of own]) (auto simp: pools_ok_def worker_has_def split: if_splits)
    moreover have "(last_ptrans s)(w := None) = last_ptrans s" using l by auto
    ultimately have "pools_ok (own(p := AtWorker w)) ps es' s'"
      using ok p w_pop(1) by (auto simp: pools_ok_def other_owners)
    then show ?thesis by (rule inv_poolsI)
  next
    case (w_done c p)
    have "workers_have own (n_pool s) (threads s) ((wpc s)(w := WTop)) ((last_ptrans s)(w := Some p))"
      using ok me w_done by (intro workers_have_move [of own]) (auto simp: pools_ok_def worker_has_def split: if_splits)
    then show ?thesis using ok w_done by (intro same) (simp add: pools_ok_def)
  next
    case (w_signal)
    have "worker_has own (n_pool s) w WUnlock (last_ptrans s w)" using me w_signal by (simp add: worker_has_def)
    from go [OF this] show ?thesis using w_signal by (intro same) (simp add: pools_ok_def ptrans_ok_wake)
  next
    case (w_cas prev)
    have "worker_has own (n_pool s) w (if prev = 0 then WLock else WTest) (last_ptrans s w)" using me w_cas by (simp add: worker_has_def)
    from go [OF this] show ?thesis using w_cas by (intro same) (simp add: pools_ok_def)
  next
    case (w_lock)
    have "worker_has own (n_pool s) w WSignal (last_ptrans s w)" using me w_lock by (simp add: worker_has_def)
    from go [OF this] show ?thesis using w_lock by (intro same) (simp add: pools_ok_def)
  next
    case (w_unlock)
    have "worker_has own (n_pool s) w WTest (last_ptrans s w)" using me w_unlock by (simp add: worker_has_def)
    from go [OF this] show ?thesis using w_unlock by (intro same) (simp add: pools_ok_def)
  qed (simp only:, rule goI, (use me idle in \<open>auto simp: worker_has_def split: if_splits\<close>)[1])+
qed

lemma with_pool_has:
  assumes "pools_ok own ps es s" "listener_ok LAccept (have_idle_worker s) (l_res s) (idlers s)"
  shows "\<exists>own'. list_has own' (n_pool (with_pool s)) ps (nxt s) (recycled_pools s) \<and>
     queue_has own' (n_pool (with_pool s)) es (queue s) \<and>
     listener_has own' (n_pool (with_pool s)) (l_res s) (Some (trans_pool s)) \<and>
     workers_have own' (n_pool (with_pool s)) (threads s) (wpc s) (last_ptrans s)"
proof (cases "l_ptrans s")
  case None
  define own' where "own' = own(n_pool s := AtListener)"
  have "worker_has own' (Suc (n_pool s)) w pc l" if "worker_has own (n_pool s) w pc l" for w pc l
    using that by (auto simp: worker_has_def own'_def)
  then have "workers_have own' (Suc (n_pool s)) (threads s) (wpc s) (last_ptrans s)"
    using assms(1) by (simp add: pools_ok_def workers_have_def)
  moreover have "list_has own' (Suc (n_pool s)) ps (nxt s) (recycled_pools s)"
    using assms(1) by (auto simp: pools_ok_def list_has_def own'_def)
  moreover have "queue_has own' (Suc (n_pool s)) es (queue s)"
    using assms(1) by (auto simp: pools_ok_def queue_has_def own'_def)
  ultimately show ?thesis using None by (intro exI [of _ own']) (auto simp: with_pool_def trans_pool_def listener_has_def own'_def)
next
  case (Some p)
  then show ?thesis using assms by (intro exI [of _ own]) (auto simp: with_pool_def trans_pool_def pools_ok_def)
qed

lemma inv_pools_lstep:
  assumes "lstep s s'" "inv_count s" "inv_pools s"
  shows "inv_pools s'"
proof -
  from assms(3) obtain own ps es where ok: "pools_ok own ps es s" by (auto simp: inv_pools_def)
  note same = inv_poolsI [of own ps es]
  have lo: "listener_ok (lpc s) (have_idle_worker s) (l_res s) (idlers s)" using assms(2) by (simp add: inv_count_def)
  have push: "inv_pools (pushed sd p s)" if "lpc s = LPush sd p" for sd p
  proof -
    have l: "l_ptrans s = Some p" "own p = AtListener" "p < n_pool s"
      using ok lo that by (auto simp: pools_ok_def listener_has_def)
    have "q_nelts (queue s) < length (q_data (queue s))"
      using assms(2) lo that count_if_le [of "threads s" "\<lambda>i. i" "is_idle s"] by (auto simp: inv_count_def)
    moreover have "stack_of (queue s) es" using ok by (simp add: pools_ok_def queue_has_def)
    ultimately have "stack_of (queue_push (queue s) sd p) (es @ [(sd, p)])" by (intro stack_of_push)
    moreover have "p \<notin> snd ` set es" using ok l(2) by (auto simp: pools_ok_def queue_has_def)
    ultimately have "queue_has (own(p := AtQueue)) (n_pool s) (es @ [(sd, p)]) (queue_push (queue s) sd p)"
      using ok l(3) by (auto simp: pools_ok_def queue_has_def)
    then have "pools_ok (own(p := AtQueue)) ps (es @ [(sd, p)]) (pushed sd p s)"
      using ok l by (auto simp: pools_ok_def pushed_def other_owners listener_has_def)
    then show ?thesis by (rule inv_poolsI)
  qed
  from assms(1) show ?thesis
  proof (cases rule: lstep.cases)
    case (l_cas f nx)
    have l: "l_ptrans s = None" "f \<in> set ps" "nxt s f = nx" using ok l_cas by (auto simp: pools_ok_def)
    then obtain ps' where ps: "ps = f # ps'" using ok l_cas by (cases ps) (auto simp: pools_ok_def list_has_def)
    have f: "own f = AtStack" "f < n_pool s" using ok ps by (auto simp: pools_ok_def list_has_def)
    have "list_has (own(f := AtListener)) (n_pool s) ps' (nxt s) nx"
      using ok ps l by (auto simp: pools_ok_def list_has_def)
    then have "pools_ok (own(f := AtListener)) ps' es s'"
      using ok f l_cas by (auto simp: pools_ok_def other_owners listener_has_def)
    then show ?thesis by (rule inv_poolsI)
  next
    case l_accept
    from with_pool_has [OF ok] lo l_accept obtain own' where
      "list_has own' (n_pool (with_pool s)) ps (nxt s) (recycled_pools s)"
      "queue_has own' (n_pool (with_pool s)) es (queue s)"
      "listener_has own' (n_pool (with_pool s)) (l_res s) (Some (trans_pool s))"
      "workers_have own' (n_pool (with_pool s)) (threads s) (wpc s) (last_ptrans s)" by auto
    then have "pools_ok own' ps es s'" using l_accept by (simp add: pools_ok_def with_pool_def)
    then show ?thesis by (rule inv_poolsI)
  next
    case l_accept_none
    from with_pool_has [OF ok] lo l_accept_none obtain own' where
      "list_has own' (n_pool (with_pool s)) ps (nxt s) (recycled_pools s)"
      "queue_has own' (n_pool (with_pool s)) es (queue s)"
      "listener_has own' (n_pool (with_pool s)) (l_res s) (Some (trans_pool s))"
      "workers_have own' (n_pool (with_pool s)) (threads s) (wpc s) (last_ptrans s)" by auto
    then have "pools_ok own' ps es s'" using l_accept_none by (simp add: pools_ok_def with_pool_def)
    then show ?thesis by (rule inv_poolsI)
  next
    case (l_push sd p)
    then show ?thesis using push by simp
  next
    case (l_push_wake sd p w)
    from push [OF l_push_wake(2)] obtain own1 ps1 es1 where ok1: "pools_ok own1 ps1 es1 (pushed sd p s)"
      by (auto simp: inv_pools_def)
    have "worker_has own1 (n_pool s) w WWait (last_ptrans s w)"
      using ok1 l_push_wake(3,4) by (auto simp: pools_ok_def workers_have_def pushed_def)
    then have "worker_has own1 (n_pool s) w WWoken (last_ptrans s w)" by (auto simp: worker_has_def)
    then have "pools_ok own1 ps1 es1 (goto w WWoken (pushed sd p s))"
      using ok1 by (simp add: pools_ok_def workers_have_goto pushed_def)
    then show ?thesis using l_push_wake(1) by (auto intro: inv_poolsI)
  next
    case l_qterm
    then show ?thesis using ok by (intro same) (auto simp: pools_ok_def queue_has_def stack_of_term)
  next
    case l_qwake
    then show ?thesis using ok by (intro same) (auto simp: pools_ok_def workers_have_wake)
  next
    case l_pool
    then show ?thesis using ok
      by (intro same) (cases ps; auto simp: pools_ok_def list_has_def split: option.splits)
  next
    case l_dec
    then show ?thesis using ok by (intro same) (auto simp: pools_ok_def listener_has_def)
  next
    case l_idle
    then show ?thesis using ok by (intro same) (auto simp: pools_ok_def listener_has_def)
  qed (rule same, (use ok in \<open>auto simp: pools_ok_def split: if_splits\<close>)[1])+
qed

lemma inv_pools_mstep: "mstep s s' \<Longrightarrow> inv_pools s \<Longrightarrow> inv_pools s'"
proof -
  assume "inv_pools s"
  then obtain own ps es where ok: "pools_ok own ps es s" by (auto simp: inv_pools_def)
  assume "mstep s s'"
  then have "pools_ok own ps es s'" using ok
    by (cases rule: mstep.cases) (auto simp: pools_ok_def workers_have_wake ptrans_ok_wake)
  then show ?thesis by (rule inv_poolsI)
qed

lemma inv_pools_reachable: "reachable n s \<Longrightarrow> inv_pools s"
proof (induction rule: reachable.induct)
  case reach_start
  have "pools_ok (\<lambda>_. AtStack) [] [] (start n)"
    by (auto simp: pools_ok_def list_has_def queue_has_def listener_has_def workers_have_def worker_has_def
        start_def stack_of_init)
  then show ?case by (rule inv_poolsI)
next
  case (reach_step s s')
  then show ?case using inv_count_reachable
    by (auto elim!: step.cases intro: inv_pools_wstep inv_pools_lstep inv_pools_mstep)
qed

end
