(* ===== verification/Worker_Mpm.thy ===== *)
theory Worker_Mpm
  imports Worker_Pools
begin

text \<open>
  What the worker MPM guarantees and what it does not: every accepted connection is in one hand
  at any time, the queue never overflows, no wake-up is lost, a queued connection can always be
  taken; and two faults of the shutdown.
\<close>

section \<open>Connections\<close>

datatype cplace = InQueue | InListener | InWorker nat | Served

definition queued :: "wq \<Rightarrow> nat list" where
  "queued s = map (\<lambda>e. fst (the e)) (take (q_nelts (queue s)) (q_data (queue s)))"

fun conn_at :: "wq \<Rightarrow> nat \<Rightarrow> cplace \<Rightarrow> bool" where
  "conn_at s c InQueue \<longleftrightarrow> c \<in> set (queued s)"
| "conn_at s c InListener \<longleftrightarrow> (\<exists>p. lpc s = LPush c p)"
| "conn_at s c (InWorker w) \<longleftrightarrow> w < threads s \<and> (\<exists>p. wpc s w = WBusy c p)"
| "conn_at s c Served \<longleftrightarrow> c \<in> served s"

text \<open>\<open>pl\<close> says where each connection is.\<close>

definition conns_ok :: "(nat \<Rightarrow> cplace) \<Rightarrow> wq \<Rightarrow> bool" where
  "conns_ok pl s \<longleftrightarrow> distinct (queued s) \<and> (\<forall>c a. conn_at s c a \<longleftrightarrow> c < n_conn s \<and> pl c = a)"

lemma conns_okI:
  assumes "distinct (queued s)"
    and "\<And>c. c \<in> set (queued s) \<longleftrightarrow> c < n_conn s \<and> pl c = InQueue"
    and "\<And>c. (\<exists>p. lpc s = LPush c p) \<longleftrightarrow> c < n_conn s \<and> pl c = InListener"
    and "\<And>c w. w < threads s \<and> (\<exists>p. wpc s w = WBusy c p) \<longleftrightarrow> c < n_conn s \<and> pl c = InWorker w"
    and "\<And>c. c \<in> served s \<longleftrightarrow> c < n_conn s \<and> pl c = Served"
  shows "conns_ok pl s"
proof -
  have "conn_at s c a \<longleftrightarrow> c < n_conn s \<and> pl c = a" for c a
    using assms(2-5) by (cases a) simp_all
  with assms(1) show ?thesis by (simp add: conns_ok_def)
qed

lemma conns_okD:
  assumes "conns_ok pl s"
  shows "distinct (queued s)"
    and "c \<in> set (queued s) \<longleftrightarrow> c < n_conn s \<and> pl c = InQueue"
    and "(\<exists>p. lpc s = LPush c p) \<longleftrightarrow> c < n_conn s \<and> pl c = InListener"
    and "w < threads s \<and> (\<exists>p. wpc s w = WBusy c p) \<longleftrightarrow> c < n_conn s \<and> pl c = InWorker w"
    and "c \<in> served s \<longleftrightarrow> c < n_conn s \<and> pl c = Served"
proof -
  have k: "\<And>c a. conn_at s c a \<longleftrightarrow> c < n_conn s \<and> pl c = a" "distinct (queued s)"
    using assms by (simp_all add: conns_ok_def)
  show "distinct (queued s)" by (rule k(2))
  show "c \<in> set (queued s) \<longleftrightarrow> c < n_conn s \<and> pl c = InQueue" using k(1) [of c InQueue] by simp
  show "(\<exists>p. lpc s = LPush c p) \<longleftrightarrow> c < n_conn s \<and> pl c = InListener" using k(1) [of c InListener] by simp
  show "w < threads s \<and> (\<exists>p. wpc s w = WBusy c p) \<longleftrightarrow> c < n_conn s \<and> pl c = InWorker w"
    using k(1) [of c "InWorker w"] by simp
  show "c \<in> served s \<longleftrightarrow> c < n_conn s \<and> pl c = Served" using k(1) [of c Served] by simp
qed

text \<open>A step that moves no connection.\<close>

lemma conns_ok_same:
  assumes "conns_ok pl s" "queued s' = queued s" "n_conn s' = n_conn s" "served s' = served s" "threads s' = threads s"
    and "\<And>c p. lpc s' = LPush c p \<longleftrightarrow> lpc s = LPush c p"
    and "\<And>w c p. w < threads s \<Longrightarrow> wpc s' w = WBusy c p \<longleftrightarrow> wpc s w = WBusy c p"
  shows "conns_ok pl s'"
proof -
  have "conn_at s' c a = conn_at s c a" for c a
    using assms(2-7) by (cases a) auto
  then show ?thesis using assms(1-3) by (simp add: conns_ok_def)
qed

lemmas conns_ok_same' = exI [where P = "\<lambda>pl. conns_ok pl _", OF conns_ok_same]

lemma queued_stack: "stack_of (queue s) es \<Longrightarrow> queued s = map fst es"
  by (simp add: queued_def stack_of_def o_def)

lemma conns_wstep:
  assumes "wstep w s s'" "w < threads s" "inv_pools s" "conns_ok pl s"
  shows "\<exists>pl'. conns_ok pl' s'"
proof -
  note D = conns_okD [OF assms(4)]
  note same = conns_ok_same' [OF assms(4)]
  from assms(3) obtain es where es: "stack_of (queue s) es"
    by (auto simp: inv_pools_def pools_ok_def queue_has_def)
  from assms(1) show ?thesis
  proof (cases rule: wstep.cases)
    case (w_pop waited c p q)
    from stack_of_pop [OF es w_pop(3)] obtain es' where e: "es = es' @ [(c, p)]" "stack_of q es'" by auto
    have q: "queued s = queued s' @ [c]" using queued_stack [OF es] queued_stack [of s' es'] e w_pop(1) by simp
    then have c: "c < n_conn s" "pl c = InQueue" "c \<notin> set (queued s')" using D(1,2) by auto
    have "conns_ok (pl(c := InWorker w)) s'"
    proof (rule conns_okI)
      fix x
      show "x \<in> set (queued s') \<longleftrightarrow> x < n_conn s' \<and> (pl(c := InWorker w)) x = InQueue"
        using D(2) [of x] q c w_pop(1) by auto
      show "(\<exists>p. lpc s' = LPush x p) \<longleftrightarrow> x < n_conn s' \<and> (pl(c := InWorker w)) x = InListener"
        using D(3) [of x] c w_pop(1) by auto
      show "x \<in> served s' \<longleftrightarrow> x < n_conn s' \<and> (pl(c := InWorker w)) x = Served"
        using D(5) [of x] c w_pop(1) by auto
      show "v < threads s' \<and> (\<exists>p. wpc s' v = WBusy x p) \<longleftrightarrow> x < n_conn s' \<and> (pl(c := InWorker w)) x = InWorker v" for v
        using D(4) [of v x] c w_pop(1,2) assms(2) by (auto split: if_splits)
    qed (use D(1) q in simp)
    then show ?thesis by blast
  next
    case (w_done c p)
    have c: "c < n_conn s" "pl c = InWorker w" using D(4) [of w c] w_done assms(2) by auto
    have "conns_ok (pl(c := Served)) s'"
    proof (rule conns_okI)
      fix x
      show "x \<in> set (queued s') \<longleftrightarrow> x < n_conn s' \<and> (pl(c := Served)) x = InQueue"
        using D(2) [of x] c w_done(1) by (auto simp: queued_def)
      show "(\<exists>p. lpc s' = LPush x p) \<longleftrightarrow> x < n_conn s' \<and> (pl(c := Served)) x = InListener"
        using D(3) [of x] c w_done(1) by auto
      show "x \<in> served s' \<longleftrightarrow> x < n_conn s' \<and> (pl(c := Served)) x = Served"
        using D(5) [of x] c w_done(1) by auto
      show "v < threads s' \<and> (\<exists>p. wpc s' v = WBusy x p) \<longleftrightarrow> x < n_conn s' \<and> (pl(c := Served)) x = InWorker v" for v
        using D(4) [of v x] c w_done assms(2) by auto
    qed (use D(1) w_done(1) in \<open>simp add: queued_def\<close>)
    then show ?thesis by blast
  qed (rule same; auto simp: queued_def wake_listener_def split: if_splits)+
qed

lemma conns_push:
  assumes "lpc s = LPush c p" "inv_count s" "inv_pools s" "conns_ok pl s"
  shows "conns_ok (pl(c := InQueue)) (pushed c p s)"
proof -
  note D = conns_okD [OF assms(4)]
  from assms(3) obtain es where es: "stack_of (queue s) es"
    by (auto simp: inv_pools_def pools_ok_def queue_has_def)
  have "q_nelts (queue s) < length (q_data (queue s))"
    using assms(1,2) count_if_le [of "threads s" "\<lambda>i. i" "is_idle s"] by (auto simp: inv_count_def)
  from stack_of_push [OF es this, of c p] have q: "queued (pushed c p s) = queued s @ [c]"
    using queued_stack [OF es] queued_stack [of "pushed c p s" "es @ [(c, p)]"] by (simp add: pushed_def)
  have c: "c < n_conn s" "pl c = InListener" using D(3) [of c] assms(1) by auto
  show ?thesis
  proof (rule conns_okI)
    fix x
    show "x \<in> set (queued (pushed c p s)) \<longleftrightarrow> x < n_conn (pushed c p s) \<and> (pl(c := InQueue)) x = InQueue"
      using D(2) [of x] c q by (auto simp: pushed_def)
    show "(\<exists>p'. lpc (pushed c p s) = LPush x p') \<longleftrightarrow> x < n_conn (pushed c p s) \<and> (pl(c := InQueue)) x = InListener"
      using D(3) [of x] assms(1) by (auto simp: pushed_def)
    show "x \<in> served (pushed c p s) \<longleftrightarrow> x < n_conn (pushed c p s) \<and> (pl(c := InQueue)) x = Served"
      using D(5) [of x] c by (auto simp: pushed_def)
    show "v < threads (pushed c p s) \<and> (\<exists>p'. wpc (pushed c p s) v = WBusy x p') \<longleftrightarrow>
        x < n_conn (pushed c p s) \<and> (pl(c := InQueue)) x = InWorker v" for v
      using D(4) [of v x] c by (auto simp: pushed_def)
  qed (use D(1,2) q c in auto)
qed

lemma conns_lstep:
  assumes "lstep s s'" "inv_count s" "inv_pools s" "conns_ok pl s"
  shows "\<exists>pl'. conns_ok pl' s'"
proof -
  note D = conns_okD [OF assms(4)]
  note same = conns_ok_same' [OF assms(4)]
  from assms(1) show ?thesis
  proof (cases rule: lstep.cases)
    case l_accept
    have "conns_ok (pl(n_conn s := InListener)) s'"
    proof (rule conns_okI)
      fix x
      show "x \<in> set (queued s') \<longleftrightarrow> x < n_conn s' \<and> (pl(n_conn s := InListener)) x = InQueue"
        using D(2) [of x] l_accept(1) by (auto simp: queued_def with_pool_def)
      show "(\<exists>p. lpc s' = LPush x p) \<longleftrightarrow> x < n_conn s' \<and> (pl(n_conn s := InListener)) x = InListener"
        using D(3) [of x] l_accept by (auto simp: with_pool_def)
      show "x \<in> served s' \<longleftrightarrow> x < n_conn s' \<and> (pl(n_conn s := InListener)) x = Served"
        using D(5) [of x] l_accept(1) by (auto simp: with_pool_def)
      show "v < threads s' \<and> (\<exists>p. wpc s' v = WBusy x p) \<longleftrightarrow> x < n_conn s' \<and> (pl(n_conn s := InListener)) x = InWorker v" for v
        using D(4) [of v x] l_accept(1) by (auto simp: with_pool_def)
    qed (use D(1) l_accept(1) in \<open>simp add: queued_def with_pool_def\<close>)
    then show ?thesis by blast
  next
    case (l_push c p)
    from conns_push [OF l_push(2) assms(2-4)] show ?thesis using l_push(1) by blast
  next
    case (l_push_wake c p w)
    have "conns_ok (pl(c := InQueue)) (goto w WWoken (pushed c p s))"
      by (rule conns_ok_same [OF conns_push [OF l_push_wake(2) assms(2-4)]])
        (use l_push_wake(4) in \<open>auto simp: pushed_def queued_def\<close>)
    then show ?thesis using l_push_wake(1) by blast
  qed (rule same; auto simp: queued_def with_pool_def wake_workers_def queue_term_def split: if_splits option.splits)+
qed

lemma conns_reachable: "reachable n s \<Longrightarrow> \<exists>pl. conns_ok pl s"
proof (induction rule: reachable.induct)
  case reach_start
  have "conns_ok (\<lambda>_. Served) (start n)" by (rule conns_okI) (auto simp: start_def queued_def queue_init_def)
  then show ?case by blast
next
  case (reach_step s s')
  then obtain pl where pl: "conns_ok pl s" by blast
  have inv: "inv_count s" "inv_pools s" using inv_count_reachable inv_pools_reachable reach_step(1) by blast+
  from reach_step(2) show ?case
  proof (cases rule: step.cases)
    case (worker w)
    from conns_wstep [OF worker(2,1) inv(2) pl] show ?thesis .
  next
    case listener
    from conns_lstep [OF listener inv pl] show ?thesis .
  next
    case main
    then have "conns_ok pl s'"
      by (cases rule: mstep.cases)
        (rule conns_ok_same [OF pl]; auto simp: queued_def wake_workers_def wake_listener_def split: if_splits)+
    then show ?thesis by blast
  qed
qed

section \<open>Running the threads\<close>

text \<open>
  The step of a thread as a function. A thread has at most one next step, but for what the
  environment decides: whether \<open>accept\<close> delivers a connection, \<open>b\<close>, and which sleeper a signal
  wakes, here the first.
\<close>

definition take_or_empty :: "nat \<Rightarrow> bool \<Rightarrow> wq \<Rightarrow> wq option" where
  "take_or_empty w waited s =
     (case queue_pop waited (queue s) of
        (PopWait, q) \<Rightarrow> Some (goto w WWait s)
      | (PopEmpty, q) \<Rightarrow> Some (goto w WEmpty s)
      | (PopTake (Some (sd, p)), q) \<Rightarrow>
          Some ((goto w (WBusy sd p) s)\<lparr>queue := q, is_idle := (is_idle s)(w := False)\<rparr>)
      | (PopTake None, q) \<Rightarrow> None)"

definition wnext :: "nat \<Rightarrow> wq \<Rightarrow> wq option" where
  "wnext w s =
     (case wpc s w of
        WTop \<Rightarrow> Some (goto w (if workers_may_exit s then WExit else if is_idle s w then WTest
                             else if last_ptrans s w = None then WRead else WPush) s)
      | WPush \<Rightarrow> Some (goto w (WLink (recycled_pools s)) s)
      | WLink next' \<Rightarrow>
          (case last_ptrans s w of None \<Rightarrow> None
           | Some p \<Rightarrow> Some (if recycled_pools s = next'
               then (goto w WRead s)\<lparr>nxt := (nxt s)(p := next'), recycled_pools := Some p,
                       last_ptrans := (last_ptrans s)(w := None)\<rparr>
               else (goto w WPush s)\<lparr>nxt := (nxt s)(p := next')\<rparr>))
      | WRead \<Rightarrow> Some (goto w (WCas (idlers s)) s)
      | WCas prev \<Rightarrow> Some (if idlers s = prev
          then (goto w (if prev = 0 then WLock else WTest) s)\<lparr>idlers := prev + 1, is_idle := (is_idle s)(w := True)\<rparr>
          else goto w WRead s)
      | WLock \<Rightarrow> if idlers_mutex s = None then Some ((goto w WSignal s)\<lparr>idlers_mutex := Some (Worker w)\<rparr>) else None
      | WSignal \<Rightarrow> Some ((goto w WUnlock s)\<lparr>lpc := wake_listener (lpc s)\<rparr>)
      | WUnlock \<Rightarrow> Some ((goto w WTest s)\<lparr>idlers_mutex := None\<rparr>)
      | WTest \<Rightarrow> Some (goto w (if workers_may_exit s then WExit else WPop) s)
      | WPop \<Rightarrow> take_or_empty w False s
      | WWait \<Rightarrow> Some (goto w WWoken s)
      | WWoken \<Rightarrow> take_or_empty w True s
      | WEmpty \<Rightarrow> Some (goto w (if q_terminated (queue s) then WExit else WTest) s)
      | WBusy sd p \<Rightarrow> Some ((goto w WTop s)\<lparr>last_ptrans := (last_ptrans s)(w := Some p), served := insert sd (served s)\<rparr>)
      | WExit \<Rightarrow> None)"

definition lnext :: "bool \<Rightarrow> wq \<Rightarrow> wq option" where
  "lnext b s =
     (case lpc s of
        LTop \<Rightarrow> Some (s\<lparr>lpc := (if listener_may_exit s then LQTerm else if have_idle_worker s then LAccept else LIdle)\<rparr>)
      | LIdle \<Rightarrow> Some (s\<lparr>l_ptrans := None, lpc := (if idlers s = 0 then LLock else LDec)\<rparr>)
      | LLock \<Rightarrow> if idlers_mutex s = None then Some (s\<lparr>idlers_mutex := Some Listener, lpc := LCheck\<rparr>) else None
      | LRelock \<Rightarrow> if idlers_mutex s = None then Some (s\<lparr>idlers_mutex := Some Listener, lpc := LCheck\<rparr>) else None
      | LCheck \<Rightarrow> Some (s\<lparr>lpc := (if idlers s = 0 then LWait else LUnlock)\<rparr>)
      | LWait \<Rightarrow> Some (s\<lparr>idlers_mutex := None, lpc := LBlocked\<rparr>)
      | LBlocked \<Rightarrow> Some (s\<lparr>lpc := LRelock\<rparr>)
      | LUnlock \<Rightarrow> Some (s\<lparr>idlers_mutex := None, lpc := LDec\<rparr>)
      | LDec \<Rightarrow> Some (s\<lparr>idlers := idlers s - 1, l_res := True, lpc := LPool\<rparr>)
      | LPool \<Rightarrow> Some (s\<lparr>lpc := (case recycled_pools s of None \<Rightarrow> LTerm | Some first_pool \<Rightarrow> LNext first_pool)\<rparr>)
      | LNext first_pool \<Rightarrow> Some (s\<lparr>lpc := LCas first_pool (nxt s first_pool)\<rparr>)
      | LCas first_pool next' \<Rightarrow> Some (if recycled_pools s = Some first_pool
          then s\<lparr>recycled_pools := next', l_ptrans := Some first_pool, lpc := LTerm\<rparr> else s\<lparr>lpc := LPool\<rparr>)
      | LTerm \<Rightarrow> Some (if info_terminated s then s\<lparr>lpc := LQTerm\<rparr> else s\<lparr>have_idle_worker := True, lpc := LAccept\<rparr>)
      | LAccept \<Rightarrow> Some (if listener_may_exit s then s\<lparr>lpc := LQTerm\<rparr>
          else if b then (with_pool s)\<lparr>n_conn := n_conn s + 1, lpc := LPush (n_conn s) (trans_pool s)\<rparr>
          else (with_pool s)\<lparr>lpc := LTop\<rparr>)
      | LPush sd p \<Rightarrow> Some (case find (\<lambda>w. wpc s w = WWait) [0..<threads s] of
            None \<Rightarrow> pushed sd p s | Some w \<Rightarrow> goto w WWoken (pushed sd p s))
      | LQTerm \<Rightarrow> Some (s\<lparr>queue := queue_term (queue s), lpc := LQWake\<rparr>)
      | LQWake \<Rightarrow> Some (s\<lparr>wpc := wake_workers (wpc s), lpc := LExit\<rparr>)
      | LExit \<Rightarrow> None)"

definition mnext :: "wq \<Rightarrow> wq option" where
  "mnext s =
     (case mpc s of
        MStart \<Rightarrow> Some (s\<lparr>listener_may_exit := True, mpc := MWorkers\<rparr>)
      | MWorkers \<Rightarrow> Some (s\<lparr>workers_may_exit := True, mpc := MInterrupt\<rparr>)
      | MInterrupt \<Rightarrow> Some (s\<lparr>wpc := wake_workers (wpc s), mpc := MLock\<rparr>)
      | MLock \<Rightarrow> if idlers_mutex s = None then Some (s\<lparr>idlers_mutex := Some Main, mpc := MTerm\<rparr>) else None
      | MTerm \<Rightarrow> Some (s\<lparr>info_terminated := True, lpc := wake_listener (lpc s), mpc := MUnlock\<rparr>)
      | MUnlock \<Rightarrow> Some (s\<lparr>idlers_mutex := None, mpc := MDone\<rparr>)
      | MDone \<Rightarrow> None)"

lemma wnext_iff: "wnext w s = Some s' \<longleftrightarrow> wstep w s s'"
  by (cases "wpc s w"; cases "last_ptrans s w")
    (auto simp: wnext_def wstep.simps [of w s s'] take_or_empty_def
      split: prod.splits pop_result.splits option.splits if_splits dest: queue_popD)

lemma lnext_step: "lnext b s = Some s' \<Longrightarrow> lstep s s'"
  by (cases "lpc s")
    (auto simp: lnext_def lstep.simps [of s s'] find_None_iff find_Some_iff split: option.splits if_splits)

lemma mnext_step: "mnext s = Some s' \<Longrightarrow> mstep s s'"
  unfolding mnext_def by (auto split: mpc.splits if_splits intro: mstep.intros)

datatype action = W nat | L bool | M | Graceful

fun act :: "action \<Rightarrow> wq \<Rightarrow> wq option" where
  "act (W w) s = (if w < threads s then wnext w s else None)"
| "act (L b) s = lnext b s"
| "act M s = mnext s"
| "act Graceful s = Some (s\<lparr>listener_may_exit := True\<rparr>)"

fun run :: "action list \<Rightarrow> wq \<Rightarrow> wq option" where
  "run [] s = Some s"
| "run (a # as) s = (case act a s of None \<Rightarrow> None | Some s' \<Rightarrow> run as s')"

lemma act_step: "act a s = Some s' \<Longrightarrow> step s s'"
  by (cases a) (auto simp: wnext_iff split: if_splits intro: step.intros lnext_step mnext_step m_graceful)

lemma run_steps: "run as s = Some s' \<Longrightarrow> step\<^sup>*\<^sup>* s s'"
  by (induction as arbitrary: s) (auto split: option.splits dest: act_step intro: converse_rtranclp_into_rtranclp)

lemma steps_reachable: "step\<^sup>*\<^sup>* s s' \<Longrightarrow> reachable n s \<Longrightarrow> reachable n s'"
  by (induction rule: rtranclp_induct) (auto intro: reachable.intros)

lemma run_reachable: "run as (start n) = Some s \<Longrightarrow> reachable n s"
  using steps_reachable [OF run_steps] reach_start by blast

section \<open>A queued connection can be taken\<close>

text \<open>
  How a queued connection is taken without help: workers move, but none leaves its wait on the
  condition variable by itself; the listener moves only to give \<open>idlers_mutex\<close> back; and nobody
  begins a shutdown, which would wake every worker.
\<close>

inductive onward :: "wq \<Rightarrow> wq \<Rightarrow> bool" where
  onward_worker: "\<lbrakk>w < threads s; wstep w s s'; wpc s w \<noteq> WWait\<rbrakk> \<Longrightarrow> onward s s'"
| onward_listener: "\<lbrakk>lstep s s'; idlers_mutex s = Some Listener\<rbrakk> \<Longrightarrow> onward s s'"

lemma onward_step: "onward s s' \<Longrightarrow> step s s'"
  by (auto elim: onward.cases intro: step.intros)

definition can_take :: "nat \<Rightarrow> nat \<Rightarrow> wq \<Rightarrow> bool" where
  "can_take n w s \<longleftrightarrow>
     reachable n s \<and> w < n \<and> 0 < q_nelts (queue s) \<and> \<not> q_terminated (queue s) \<and> \<not> workers_may_exit s"

definition taken :: "nat \<Rightarrow> nat \<Rightarrow> wq \<Rightarrow> bool" where
  "taken w c s \<longleftrightarrow> (\<exists>s' p. onward\<^sup>*\<^sup>* s s' \<and> wpc s' w = WBusy c p)"

lemma taken_back: "onward s s1 \<Longrightarrow> taken w c s1 \<Longrightarrow> taken w c s"
  unfolding taken_def by (blast intro: converse_rtranclp_into_rtranclp)

lemma can_take_step:
  assumes "can_take n w s" "onward s s1" "queue s1 = queue s" "workers_may_exit s1 = workers_may_exit s"
  shows "can_take n w s1"
  using assms by (auto simp: can_take_def intro: reach_step onward_step)

lemma can_take_threads: "can_take n w s \<Longrightarrow> w < threads s"
  using inv_count_reachable by (auto simp: can_take_def)

lemma take_now:
  assumes "can_take n w s" "wpc s w = (if b then WWoken else WPop)"
  shows "taken w (List.last (queued s)) s"
proof -
  have "inv_pools s" using assms(1) inv_pools_reachable by (auto simp: can_take_def)
  then obtain es where es: "stack_of (queue s) es"
    by (auto simp: inv_pools_def pools_ok_def queue_has_def)
  then have "es \<noteq> []" using assms(1) stack_of_length by (fastforce simp: can_take_def)
  then obtain es' c p where e: "es = es' @ [(c, p)]" by (metis append_butlast_last_id prod.collapse)
  have "q_nelts (queue s) = Suc (length es')" using stack_of_length [OF es] e by simp
  then obtain q where r: "queue_pop b (queue s) = (PopTake (q_data (queue s) ! length es'), q)"
    by (simp add: queue_defs)
  from stack_of_pop [OF es r] e have "queue_pop b (queue s) = (PopTake (Some (c, p)), q)" using r by auto
  from onward_worker [OF can_take_threads [OF assms(1)] w_pop [OF assms(2) this]]
  have "onward s ((goto w (WBusy c p) s)\<lparr>queue := q, is_idle := (is_idle s)(w := False)\<rparr>)"
    using assms(2) by (simp split: if_splits)
  moreover have "List.last (queued s) = c" using queued_stack [OF es] e by simp
  ultimately show ?thesis unfolding taken_def by (intro exI [of _ "(goto w (WBusy c p) s)\<lparr>queue := q, is_idle := (is_idle s)(w := False)\<rparr>"]) auto
qed

text \<open>One step of the worker towards the queue.\<close>

lemma take_next:
  assumes "can_take n w s" "wstep w s s1" "wpc s w \<noteq> WWait" "queue s1 = queue s" "workers_may_exit s1 = workers_may_exit s"
    and "can_take n w s1 \<Longrightarrow> taken w (List.last (queued s1)) s1"
  shows "taken w (List.last (queued s)) s"
proof -
  have st: "onward s s1" by (rule onward_worker [OF can_take_threads [OF assms(1)] assms(2,3)])
  from assms(6) [OF can_take_step [OF assms(1) st assms(4,5)]] taken_back [OF st] show ?thesis
    using assms(4) by (simp add: queued_def)
qed

lemma take_test:
  assumes "can_take n w s" "wpc s w = WTest"
  shows "taken w (List.last (queued s)) s"
proof (rule take_next [OF assms(1)])
  show "wstep w s (goto w WPop s)" using w_test [OF assms(2)] assms(1) by (simp add: can_take_def)
qed (auto simp: assms(2) intro: take_now [where b = False])

lemma take_unlock:
  assumes "can_take n w s" "wpc s w = WUnlock"
  shows "taken w (List.last (queued s)) s"
  by (rule take_next [OF assms(1) w_unlock [OF assms(2)]]) (auto simp: assms(2) intro: take_test)

lemma take_signal:
  assumes "can_take n w s" "wpc s w = WSignal"
  shows "taken w (List.last (queued s)) s"
  by (rule take_next [OF assms(1) w_signal [OF assms(2)]]) (auto simp: assms(2) intro: take_unlock)

lemma take_empty:
  assumes "can_take n w s" "wpc s w = WEmpty"
  shows "taken w (List.last (queued s)) s"
proof (rule take_next [OF assms(1)])
  show "wstep w s (goto w WTest s)" using w_empty [OF assms(2)] assms(1) by (simp add: can_take_def)
qed (auto simp: assms(2) intro: take_test)

lemma take_lock:
  assumes "can_take n w s" "wpc s w = WLock" "idlers_mutex s = None"
  shows "taken w (List.last (queued s)) s"
  by (rule take_next [OF assms(1) w_lock [OF assms(2,3)]]) (auto simp: assms(2) intro: take_signal)

text \<open>The listener gives the mutex back when it holds it; the main thread holds it only in a shutdown.\<close>

lemma main_told: "reachable n s \<Longrightarrow> mpc s \<in> {MInterrupt, MLock, MTerm, MUnlock, MDone} \<Longrightarrow> workers_may_exit s"
proof (induction rule: reachable.induct)
  case reach_start
  then show ?case by (simp add: start_def)
next
  case (reach_step s s')
  from reach_step(2) show ?case
  proof (cases rule: step.cases)
    case (worker w)
    from worker(2) reach_step.IH reach_step.prems show ?thesis by (cases rule: wstep.cases) auto
  next
    case listener
    from this reach_step.IH reach_step.prems show ?thesis
      by (cases rule: lstep.cases) (auto simp: pushed_def with_pool_def split: if_splits)
  next
    case main
    from this reach_step.IH reach_step.prems show ?thesis by (cases rule: mstep.cases) auto
  qed
qed

lemma take_other:
  assumes "can_take n w s" "idlers_mutex s = Some Listener" "lstep s s1"
    "queue s1 = queue s" "workers_may_exit s1 = workers_may_exit s"
    and "can_take n w s1 \<Longrightarrow> taken w (List.last (queued s1)) s1"
  shows "taken w (List.last (queued s)) s"
proof -
  have st: "onward s s1" by (rule onward_listener [OF assms(3,2)])
  from assms(6) [OF can_take_step [OF assms(1) st assms(4,5)]] taken_back [OF st] show ?thesis
    using assms(4) by (simp add: queued_def)
qed

lemma take_lock_busy:
  assumes "can_take n w s" "wpc s w = WLock"
  shows "\<exists>v<n. taken v (List.last (queued s)) s"
proof -
  have m: "inv_mutex s" "threads s = n" "w < n" "reachable n s"
    using assms(1) inv_wake_reachable inv_count_reachable by (auto simp: can_take_def inv_wake_def)
  have "taken w (List.last (queued s)) s" if h: "idlers_mutex s = Some Listener"
  proof -
    from h m(1) consider "lpc s = LCheck" | "lpc s = LWait" | "lpc s = LUnlock" by (auto simp: inv_mutex_def)
    then show ?thesis
    proof cases
      case 2
      show ?thesis by (rule take_other [OF assms(1) h l_wait [OF 2]]) (use assms(2) in \<open>auto intro: take_lock\<close>)
    next
      case 3
      show ?thesis by (rule take_other [OF assms(1) h l_unlock [OF 3]]) (use assms(2) in \<open>auto intro: take_lock\<close>)
    next
      case 1
      show ?thesis
      proof (rule take_other [OF assms(1) h l_check [OF 1]])
        let ?s1 = "s\<lparr>lpc := (if idlers s = 0 then LWait else LUnlock)\<rparr>"
        assume c: "can_take n w ?s1"
        show "taken w (List.last (queued ?s1)) ?s1"
        proof (cases "idlers s = 0")
          case True
          then have l: "lpc ?s1 = LWait" by simp
          have h1: "idlers_mutex ?s1 = Some Listener" using h by simp
          show ?thesis by (rule take_other [OF c h1 l_wait [OF l]]) (use assms(2) in \<open>auto intro: take_lock\<close>)
        next
          case False
          then have l: "lpc ?s1 = LUnlock" by simp
          have h1: "idlers_mutex ?s1 = Some Listener" using h by simp
          show ?thesis by (rule take_other [OF c h1 l_unlock [OF l]]) (use assms(2) in \<open>auto intro: take_lock\<close>)
        qed
      qed auto
    qed
  qed
  moreover have "idlers_mutex s \<noteq> Some Main"
    using m(1) main_told [OF m(4)] assms(1) by (auto simp: inv_mutex_def can_take_def)
  moreover have "\<exists>v<n. taken v (List.last (queued s)) s" if h: "idlers_mutex s = Some (Worker v)" for v
  proof -
    have v: "v < n" "wpc s v = WSignal \<or> wpc s v = WUnlock" using h m(1,2) by (auto simp: inv_mutex_def)
    moreover have "can_take n v s" using assms(1) v(1) by (simp add: can_take_def)
    ultimately show ?thesis using take_signal take_unlock by blast
  qed
  ultimately show ?thesis using m(3) take_lock [OF assms]
    by (cases "idlers_mutex s" rule: option.exhaust; cases "the (idlers_mutex s)") auto
qed

text \<open>While the queue is not terminated and no worker is told to exit, none exits.\<close>

definition inv_alive :: "wq \<Rightarrow> bool" where
  "inv_alive s \<longleftrightarrow> ((\<exists>w<threads s. wpc s w = WExit) \<longrightarrow> q_terminated (queue s) \<or> workers_may_exit s)"

lemma inv_alive_step:
  assumes "step s s'" "inv_alive s"
  shows "inv_alive s'"
  using assms(1)
proof (cases rule: step.cases)
  case (worker w)
  from worker(2) assms(2) show ?thesis
    by (cases rule: wstep.cases) (auto simp: inv_alive_def queue_defs split: if_splits)
next
  case listener
  from this assms(2) show ?thesis
    by (cases rule: lstep.cases)
      (auto simp: inv_alive_def wake_workers_eq pushed_def with_pool_def queue_defs split: if_splits option.splits)
next
  case main
  from this assms(2) show ?thesis by (cases rule: mstep.cases) (auto simp: inv_alive_def wake_workers_eq)
qed

lemma inv_alive_reachable: "reachable n s \<Longrightarrow> inv_alive s"
proof (induction rule: reachable.induct)
  case reach_start
  then show ?case by (simp add: inv_alive_def start_def)
qed (rule inv_alive_step)

section \<open>Properties\<close>

text \<open>
  C1. No connection is lost or handled twice: in every reachable state each accepted connection
  is in exactly one place, in the queue once, in the hands of the listener, being processed by
  exactly one worker, or served.
\<close>

theorem connections_in_one_place:
  assumes "reachable n s"
  shows "distinct (queued s) \<and> {c. \<exists>a. conn_at s c a} = {..<n_conn s} \<and> (\<forall>c a b. conn_at s c a \<and> conn_at s c b \<longrightarrow> a = b)"
proof -
  from conns_reachable [OF assms] obtain pl where "conns_ok pl s" by blast
  then show ?thesis by (auto simp: conns_ok_def)
qed

text \<open>
  C36. The queue never overflows: it has a free cell for every socket the listener pushes,
  which \<open>ap_queue_push\<close> asserts in debugging builds only. The listener has reserved an idle
  worker, and every idle worker is counted once.
\<close>

theorem queue_never_full:
  assumes "reachable n s" "lpc s = LPush c p"
  shows "\<not> queue_full (queue s) \<and> q_nelts (queue s) < length (q_data (queue s)) \<and>
    idlers s + q_nelts (queue s) < threads s"
  using inv_count_reachable [OF assms(1)] assms(2) count_if_le [of "threads s" "\<lambda>i. i" "is_idle s"]
  by (auto simp: inv_count_def queue_full_def)

text \<open>
  C35. No connection starves in the queue for want of a wake-up: in every reachable state in which
  the queue holds a connection and no shutdown has begun, some worker can go on until it
  processes the connection on top, with the threads that hold \<open>idlers_mutex\<close> giving it back, but
  without a spurious wake-up, without the broadcast of a shutdown and without another push.
\<close>

theorem queued_connection_taken:
  assumes "reachable n s" "0 < q_nelts (queue s)" "\<not> q_terminated (queue s)" "\<not> workers_may_exit s"
  shows "\<exists>w s' p. w < n \<and> onward\<^sup>*\<^sup>* s s' \<and> wpc s' w = WBusy (List.last (queued s)) p"
proof -
  have c: "can_take n w s" if "w < n" for w using assms that by (simp add: can_take_def)
  have inv: "inv_count s" "threads s = n" "inv_awake s" "inv_alive s"
    using inv_count_reachable inv_wake_reachable inv_alive_reachable assms(1) by (auto simp: inv_wake_def)
  have "\<exists>w<n. is_idle s w \<and> wpc s w \<noteq> WWait"
  proof (cases "\<exists>w<n. wpc s w = WWait")
    case True
    then have "0 < count_if n (\<lambda>pc. pc = WWoken) (wpc s)" using inv assms(2) by (simp add: inv_awake_def)
    then obtain w where "w < n" "wpc s w = WWoken" by (auto simp: count_if_pos)
    then show ?thesis using inv(1,2) by (intro exI [of _ w]) (auto simp: inv_count_def)
  next
    case False
    have "0 < count_if n (\<lambda>i. i) (is_idle s)" using inv(1,2) assms(2) by (simp add: inv_count_def)
    then show ?thesis using False by (auto simp: count_if_pos)
  qed
  then obtain w where w: "w < n" "is_idle s w" "wpc s w \<noteq> WWait" by blast
  moreover have "idle_ok (wpc s w) (is_idle s w)" "wpc s w \<noteq> WExit"
    using inv w(1) assms(3,4) by (auto simp: inv_count_def inv_alive_def)
  ultimately have "\<exists>v<n. taken v (List.last (queued s)) s"
    using take_lock_busy [OF c [OF w(1)]] take_signal [OF c [OF w(1)]] take_unlock [OF c [OF w(1)]]
      take_test [OF c [OF w(1)]] take_empty [OF c [OF w(1)]] take_now [OF c [OF w(1)], where b = True]
      take_now [OF c [OF w(1)], where b = False]
    by (cases "wpc s w") auto
  then show ?thesis by (auto simp: taken_def)
qed

text \<open>
  The listener misses no idle worker: whenever it sleeps in \<open>ap_queue_info_wait_for_idler\<close>
  while the counter is not 0, a worker is about to signal it, and a sleeping listener holds
  no mutex that the worker needs.
\<close>

theorem listener_is_woken:
  assumes "reachable n s" "lpc s = LBlocked" "0 < idlers s"
  shows "(\<exists>w<n. wpc s w = WLock \<or> wpc s w = WSignal) \<and> idlers_mutex s \<noteq> Some Listener"
  using inv_wake_reachable [OF assms(1)] inv_count_reachable [OF assms(1)] assms(2,3)
  by (auto simp: inv_wake_def inv_signal_def inv_mutex_def)

text \<open>Where a pool is: in the list of recycled pools, in the queue, with the listener or with a worker.\<close>

fun pool_at :: "wq \<Rightarrow> nat \<Rightarrow> place \<Rightarrow> bool" where
  "pool_at s p AtStack \<longleftrightarrow> (\<exists>ps. chain (nxt s) (recycled_pools s) ps \<and> p \<in> set ps)"
| "pool_at s p AtQueue \<longleftrightarrow> (\<exists>c. Some (c, p) \<in> set (take (q_nelts (queue s)) (q_data (queue s))))"
| "pool_at s p AtListener \<longleftrightarrow> l_res s \<and> l_ptrans s = Some p"
| "pool_at s p (AtWorker w) \<longleftrightarrow> w < threads s \<and> (last_ptrans s w = Some p \<or> (\<exists>c. wpc s w = WBusy c p))"

lemma chain_unique: "chain nx h ps \<Longrightarrow> chain nx h qs \<Longrightarrow> ps = qs"
proof (induction ps arbitrary: h qs)
  case Nil
  then show ?case by (cases qs) auto
next
  case (Cons p ps)
  then show ?case by (cases qs) auto
qed

text \<open>
  C29. The lock-free list of recycled pools is safe although it reads \<open>next\<close> and compares only the
  head: in every reachable state its pointers form a finite list without repetition, and no
  pool is in two hands, so no two transactions ever share one.
\<close>

theorem pools_in_one_place:
  assumes "reachable n s"
  shows "(\<exists>ps. chain (nxt s) (recycled_pools s) ps \<and> distinct ps) \<and>
    (\<forall>p a b. pool_at s p a \<and> pool_at s p b \<longrightarrow> a = b)"
proof -
  from inv_pools_reachable [OF assms] obtain own ps es where ok: "pools_ok own ps es s" by (auto simp: inv_pools_def)
  then have ch: "chain (nxt s) (recycled_pools s) ps" "distinct ps" by (auto simp: pools_ok_def list_has_def)
  then have "\<exists>ps. chain (nxt s) (recycled_pools s) ps \<and> distinct ps" by blast
  moreover have own: "own q = x" if "pool_at s q x" for q x
  proof (cases x)
    case AtStack
    then show ?thesis using that ok ch chain_unique by (fastforce simp: pools_ok_def list_has_def)
  next
    case AtQueue
    then have "q \<in> snd ` set es" using that ok by (force simp: pools_ok_def queue_has_def stack_of_def)
    then show ?thesis using AtQueue ok by (auto simp: pools_ok_def queue_has_def)
  next
    case AtListener
    then show ?thesis using that ok by (auto simp: pools_ok_def listener_has_def)
  next
    case (AtWorker w)
    then have "worker_has own (n_pool s) w (wpc s w) (last_ptrans s w)"
      using that ok by (auto simp: pools_ok_def workers_have_def)
    then show ?thesis using AtWorker that by (auto simp: worker_has_def)
  qed
  ultimately show ?thesis by metis
qed

section \<open>Faults of the shutdown\<close>

text \<open>The only worker takes a connection and the listener waits for it to become idle again.\<close>

definition busy_trace :: "action list" where
  "busy_trace = replicate 8 (W 0) @ replicate 12 (L True) @ [W 0]"

definition stuck_trace :: "action list" where
  "stuck_trace = busy_trace @ replicate 6 M @ [W 0, W 0]"

text \<open>A listener that waits for an idle worker when there are no workers any more.\<close>

definition listener_stuck :: "wq \<Rightarrow> bool" where
  "listener_stuck s \<longleftrightarrow> idlers s = 0 \<and> (\<forall>w<threads s. wpc s w = WExit) \<and>
     (lpc s = LBlocked \<or> lpc s = LRelock \<or> lpc s = LCheck \<or> lpc s = LWait)"

lemma listener_stuck_step:
  assumes "step s s'" "listener_stuck s"
  shows "listener_stuck s'"
  using assms(1)
proof (cases rule: step.cases)
  case (worker w)
  from worker(2,1) assms(2) show ?thesis by (cases rule: wstep.cases) (auto simp: listener_stuck_def split: if_splits)
next
  case listener
  from this assms(2) show ?thesis by (cases rule: lstep.cases) (auto simp: listener_stuck_def)
next
  case main
  from this assms(2) show ?thesis
    by (cases rule: mstep.cases) (auto simp: listener_stuck_def wake_workers_eq wake_listener_def)
qed

lemma stuck_trace_run:
  "\<exists>s. run stuck_trace (start 1) = Some s \<and> listener_stuck s \<and> info_terminated s \<and> workers_may_exit s \<and> mpc s = MDone"
proof -
  have "(case run stuck_trace (start 1) of None \<Rightarrow> False
      | Some s \<Rightarrow> idlers s = 0 \<and> threads s = 1 \<and> wpc s 0 = WExit \<and> lpc s = LRelock \<and> info_terminated s \<and>
          workers_may_exit s \<and> mpc s = MDone)"
    by code_simp
  then show ?thesis by (auto simp: listener_stuck_def split: option.splits)
qed

text \<open>
  An ungraceful shutdown can leave the listener waiting for ever: \<open>ap_queue_info_term\<close> sets
  \<open>terminated\<close> and wakes it, but its loop tests the counter alone, which stays 0 once the busy
  workers have seen \<open>workers_may_exit\<close> and gone without becoming idle.
\<close>

theorem shutdown_strands_listener:
  "\<exists>s. reachable 1 s \<and> info_terminated s \<and> workers_may_exit s \<and> mpc s = MDone \<and> LExit \<notin> lpc ` Collect (step\<^sup>*\<^sup>* s)"
proof -
  from stuck_trace_run obtain s where s: "run stuck_trace (start 1) = Some s" "listener_stuck s"
    "info_terminated s" "workers_may_exit s" "mpc s = MDone" by blast
  have "listener_stuck s'" if "step\<^sup>*\<^sup>* s s'" for s'
    using that s(2) by (induction rule: rtranclp_induct) (auto intro: listener_stuck_step)
  then have "LExit \<notin> lpc ` Collect (step\<^sup>*\<^sup>* s)" by (fastforce simp: listener_stuck_def)
  with run_reachable [OF s(1)] s show ?thesis by blast
qed

definition lossy_trace :: "action list" where
  "lossy_trace = replicate 10 (W 0) @ replicate 7 (L True) @ [Graceful] @ replicate 3 (L True) @ [W 0]"

text \<open>
  A graceful shutdown can lose an accepted connection: \<open>ap_queue_pop\<close> finds the queue empty,
  after a wake-up without a signal, and reads \<open>terminated\<close> only when it has given the mutex back.
  If the listener pushes a connection and terminates the queue in between, the worker is told that
  there will be no more elements, and exits with the connection in the queue.
\<close>

theorem graceful_shutdown_loses_connection:
  "\<exists>s. reachable 1 s \<and> \<not> workers_may_exit s \<and> lpc s = LExit \<and> wpc s 0 = WExit \<and> queued s = [0]"
proof -
  have "(case run lossy_trace (start 1) of None \<Rightarrow> False
      | Some s \<Rightarrow> \<not> workers_may_exit s \<and> lpc s = LExit \<and> wpc s 0 = WExit \<and> queued s = [0])"
    by code_simp
  then show ?thesis using run_reachable by (auto split: option.splits)
qed

section \<open>Witnesses\<close>

definition after :: "action list \<Rightarrow> wq" where
  "after as = the (run as (start 1))"

lemma after_reachable: "run as (start 1) \<noteq> None \<Longrightarrow> reachable 1 (after as)"
  by (auto simp: after_def intro: run_reachable)

definition push_trace :: "action list" where
  "push_trace = replicate 8 (W 0) @ replicate 6 (L True)"

definition recycle_trace :: "action list" where
  "recycle_trace = busy_trace @ replicate 4 (W 0)"

definition sleep_trace :: "action list" where
  "sleep_trace = replicate 5 (L True) @ replicate 3 (W 0)"

theorem connections_in_one_place_witness:
  "{c. \<exists>a. conn_at (after busy_trace) c a} = {..<n_conn (after busy_trace)}"
proof -
  have "run busy_trace (start 1) \<noteq> None" by code_simp
  from connections_in_one_place [OF after_reachable [OF this]] show ?thesis by blast
qed

theorem queue_never_full_witness:
  "idlers (after push_trace) + q_nelts (queue (after push_trace)) < threads (after push_trace)"
proof -
  have "run push_trace (start 1) \<noteq> None" "lpc (after push_trace) = LPush 0 0" by code_simp+
  from queue_never_full [OF after_reachable [OF this(1)] this(2)] show ?thesis by blast
qed

theorem queued_connection_taken_witness:
  "\<exists>w s' p. w < 1 \<and> onward\<^sup>*\<^sup>* (after (push_trace @ [L True])) s' \<and> wpc s' w = WBusy (List.last (queued (after (push_trace @ [L True])))) p"
proof -
  have "run (push_trace @ [L True]) (start 1) \<noteq> None" "0 < q_nelts (queue (after (push_trace @ [L True])))"
    "\<not> q_terminated (queue (after (push_trace @ [L True])))" "\<not> workers_may_exit (after (push_trace @ [L True]))"
    by code_simp+
  from queued_connection_taken [OF after_reachable [OF this(1)] this(2-4)] show ?thesis .
qed

theorem listener_is_woken_witness:
  "idlers_mutex (after sleep_trace) \<noteq> Some Listener"
proof -
  have "run sleep_trace (start 1) \<noteq> None" "lpc (after sleep_trace) = LBlocked" "0 < idlers (after sleep_trace)"
    by code_simp+
  from listener_is_woken [OF after_reachable [OF this(1)] this(2,3)] show ?thesis by blast
qed

theorem pools_in_one_place_witness:
  "\<exists>ps. chain (nxt (after recycle_trace)) (recycled_pools (after recycle_trace)) ps \<and> distinct ps"
proof -
  have "run recycle_trace (start 1) \<noteq> None" by code_simp
  from pools_in_one_place [OF after_reachable [OF this]] show ?thesis by blast
qed

text \<open>The connection that has waited longest is served last: the queue is a stack.\<close>

lemma queue_is_lifo: "fst (queue_pop True (queue_push (queue_push (queue_init 2) 7 0) 8 1)) = PopTake (Some (8, 1))"
  by code_simp

end
