(* ===== verification/Apr_Uri.thy ===== *)
theory Apr_Uri
  imports Prelude Libc
begin

text \<open>
  Parsing and printing of URIs, \<open>srclib/apr-util/uri/apr_uri.c\<close>, by which the server takes the
  request line apart. A part that is \<open>NULL\<close> is \<open>None\<close>. The gotos of \<open>apr_uri_parse\<close> are
  calls: \<open>deal_with_path\<close>, \<open>deal_with_authority\<close> and \<open>deal_with_host\<close> are its labels. ASCII build.
\<close>

section \<open>Schemes\<close>

definition schemes :: "(cstring \<times> 16 word) list" where
  "schemes = [(''http'', 80), (''ftp'', 21), (''https'', 443), (''gopher'', 70), (''ldap'', 389), (''nntp'', 119),
     (''snews'', 563), (''imap'', 143), (''pop'', 110), (''sip'', 5060), (''rtsp'', 554), (''wais'', 210),
     (''z39.50r'', 210), (''z39.50s'', 210), (''prospero'', 191), (''nfs'', 2049), (''tip'', 3372), (''acap'', 674),
     (''telnet'', 23), (''ssh'', 22)]"

definition port_of_scheme :: "cstring option \<Rightarrow> 16 word" where
  "port_of_scheme scheme_str =
     (case scheme_str of None \<Rightarrow> 0
      | Some s \<Rightarrow> (case find (\<lambda>e. strcaseeq s (fst e)) schemes of None \<Rightarrow> 0 | Some e \<Rightarrow> snd e))"

section \<open>The structure\<close>

record uri =
  u_scheme :: "cstring option"
  u_hostinfo :: "cstring option"
  u_user :: "cstring option"
  u_password :: "cstring option"
  u_hostname :: "cstring option"
  u_port_str :: "cstring option"
  u_path :: "cstring option"
  u_query :: "cstring option"
  u_fragment :: "cstring option"
  u_port :: "16 word"

definition no_uri :: uri where
  "no_uri = \<lparr>u_scheme = None, u_hostinfo = None, u_user = None, u_password = None, u_hostname = None,
     u_port_str = None, u_path = None, u_query = None, u_fragment = None, u_port = 0\<rparr>"

section \<open>Parsing\<close>

definition T_COLON :: "8 word" where "T_COLON = 0x01"
definition T_SLASH :: "8 word" where "T_SLASH = 0x02"
definition T_QUESTION :: "8 word" where "T_QUESTION = 0x04"
definition T_HASH :: "8 word" where "T_HASH = 0x08"
definition T_NUL :: "8 word" where "T_NUL = 0x80"

definition uri_delims :: "char \<Rightarrow> 8 word" where
  "uri_delims c =
     (if c = NUL then T_NUL else if c = CHR ''#'' then T_HASH else if c = CHR ''/'' then T_SLASH
      else if c = CHR '':'' then T_COLON else if c = CHR ''?'' then T_QUESTION else 0)"

definition NOTEND_SCHEME :: "8 word" where "NOTEND_SCHEME = 0xff"
definition NOTEND_HOSTINFO :: "8 word" where
  "NOTEND_HOSTINFO = or (or (or T_SLASH T_QUESTION) T_HASH) T_NUL"
definition NOTEND_PATH :: "8 word" where "NOTEND_PATH = or (or T_QUESTION T_HASH) T_NUL"

text \<open>The loops that run to the next delimiter; they stop at the terminator, too.\<close>

definition upto_delim :: "8 word \<Rightarrow> cstring \<Rightarrow> cstring" where
  "upto_delim delims s = takeWhile (\<lambda>c. and (uri_delims c) delims = 0) s"

definition deal_with_path :: "cstring \<Rightarrow> uri \<Rightarrow> uri" where
  "deal_with_path str u =
     (let path = upto_delim NOTEND_PATH str;
          u1 = (if path \<noteq> [] then u\<lparr>u_path := Some path\<rparr> else u)
      in case drop (length path) str of
           [] \<Rightarrow> u1
         | c # s \<Rightarrow>
             if c = CHR ''?'' then
               (case strchr s (CHR ''#'') of
                  Some s1 \<Rightarrow> u1\<lparr>u_fragment := Some (drop (s1 + 1) s), u_query := Some (take s1 s)\<rparr>
                | None \<Rightarrow> u1\<lparr>u_query := Some s\<rparr>)
             else u1\<lparr>u_fragment := Some s\<rparr>)"

text \<open>
  \<open>deal_with_host\<close>, for the host and what follows it: true is \<open>APR_SUCCESS\<close>, false
  \<open>APR_EGENERAL\<close>. \<open>atoport\<close> is \<open>strtol\<close> and the assignments through \<open>int\<close> to \<open>apr_port_t\<close>.
\<close>

definition atoport :: "cstring \<Rightarrow> 16 word" where
  "atoport s = word_of_int (fst (strtoll s))"

definition host_port_at :: "cstring \<Rightarrow> nat option" where
  "host_port_at hostinfo =
     (if cget hostinfo 0 = CHR ''['' then
        (case strchr hostinfo (CHR '']'') of None \<Rightarrow> None
         | Some s \<Rightarrow> if cget hostinfo (s + 1) = CHR '':'' then Some (s + 1) else None)
      else strchr hostinfo (CHR '':''))"

definition deal_with_host :: "cstring \<Rightarrow> cstring \<Rightarrow> uri \<Rightarrow> bool \<times> uri" where
  "deal_with_host hostinfo rest u =
     (let v6 = (cget hostinfo 0 = CHR ''['');
          v6_offset1 = (if v6 then 1 else 0);
          v6_offset2 = (if v6 then 2 else 0)
      in if v6 \<and> strchr hostinfo (CHR '']'') = None then (False, u)
         else case host_port_at hostinfo of
             None \<Rightarrow>
               (True, deal_with_path rest
                  (u\<lparr>u_hostname := Some (take (length hostinfo - v6_offset2) (drop v6_offset1 hostinfo))\<rparr>))
           | Some s \<Rightarrow>
               (let port_str = drop (s + 1) hostinfo;
                    u1 = u\<lparr>u_hostname := Some (take (s - v6_offset2) (drop v6_offset1 hostinfo)),
                          u_port_str := Some port_str\<rparr>
                in if port_str \<noteq> [] then
                     (let u2 = u1\<lparr>u_port := atoport port_str\<rparr>
                      in if snd (snd (strtoll port_str)) = [] then (True, deal_with_path rest u2) else (False, u2))
                   else (True, deal_with_path rest (u1\<lparr>u_port := port_of_scheme (u_scheme u1)\<rparr>))))"

definition deal_with_authority :: "cstring \<Rightarrow> uri \<Rightarrow> bool \<times> uri" where
  "deal_with_authority str u =
     (let hostinfo = upto_delim NOTEND_HOSTINFO str;
          rest = drop (length hostinfo) str;
          u1 = u\<lparr>u_hostinfo := Some hostinfo\<rparr>
      in case strrchr hostinfo (CHR ''@'') of
           None \<Rightarrow> deal_with_host hostinfo rest u1
         | Some s \<Rightarrow>
             (let info = take s hostinfo;
                  u2 = (case strchr info (CHR '':'') of
                          Some s1 \<Rightarrow> u1\<lparr>u_user := Some (take s1 info), u_password := Some (drop (s1 + 1) info)\<rparr>
                        | None \<Rightarrow> u1\<lparr>u_user := Some info\<rparr>)
              in deal_with_host (drop (s + 1) hostinfo) rest u2))"

definition uri_parse :: "cstring \<Rightarrow> bool \<times> uri" where
  "uri_parse str =
     (if cget str 0 = CHR ''/'' then
        (if cget str 1 = CHR ''/'' \<and> cget str 2 \<noteq> CHR ''/'' then deal_with_authority (drop 2 str) no_uri
         else (True, deal_with_path str no_uri))
      else
        (let s = upto_delim NOTEND_SCHEME str
         in if s = [] \<or> cget str (length s) \<noteq> CHR '':'' then (True, deal_with_path str no_uri)
            else
              (let u = no_uri\<lparr>u_scheme := Some s\<rparr>
               in if cget str (length s + 1) \<noteq> CHR ''/'' \<or> cget str (length s + 2) \<noteq> CHR ''/''
                  then (True, deal_with_path (drop (length s + 1) str) u)
                  else deal_with_authority (drop (length s + 3) str) u)))"

text \<open>\<open>apr_uri_parse_hostinfo\<close>.\<close>

definition uri_parse_hostinfo :: "cstring \<Rightarrow> bool \<times> uri" where
  "uri_parse_hostinfo hostinfo =
     (let u = no_uri\<lparr>u_hostinfo := Some hostinfo\<rparr>;
          v6 = (cget hostinfo 0 = CHR ''['')
      in case host_port_at hostinfo of
           None \<Rightarrow> (False, u)
         | Some s \<Rightarrow>
             (let name = (if v6 then take (s - 2) (drop 1 hostinfo) else take s hostinfo);
                  port_str = drop (s + 1) hostinfo;
                  u1 = u\<lparr>u_hostname := Some name, u_port_str := Some port_str\<rparr>
              in if port_str \<noteq> [] then
                   (snd (snd (strtoll port_str)) = [], u1\<lparr>u_port := atoport port_str\<rparr>)
                 else (False, u1)))"

section \<open>Printing\<close>

record unp_flags =
  OMITSITEPART :: bool
  OMITUSER :: bool
  OMITPASSWORD :: bool
  REVEALPASSWORD :: bool
  OMITPATHINFO :: bool
  OMITQUERY :: bool

definition is_default_port :: "uri \<Rightarrow> bool" where
  "is_default_port u \<longleftrightarrow> u_port_str u = None \<or> u_port u = 0 \<or> u_port u = port_of_scheme (u_scheme u)"

definition unp_userinfo :: "unp_flags \<Rightarrow> uri \<Rightarrow> cstring" where
  "unp_userinfo fl u =
     (let showuser = (u_user u \<noteq> None \<and> \<not> OMITUSER fl); showpw = (u_password u \<noteq> None \<and> \<not> OMITPASSWORD fl)
      in if u_user u \<noteq> None \<or> u_password u \<noteq> None then
           (if showuser then the (u_user u) else []) @
           (if showpw then '':'' @ (if REVEALPASSWORD fl then the (u_password u) else ''XXXXXXXX'') else []) @
           (if showuser \<or> showpw then ''@'' else [])
         else [])"

definition unp_site :: "unp_flags \<Rightarrow> uri \<Rightarrow> cstring" where
  "unp_site fl u =
     (let info = unp_userinfo fl u;
          site = (case u_hostname u of None \<Rightarrow> info
                  | Some h \<Rightarrow> ''//'' @ info @ (if strchr h (CHR '':'') \<noteq> None then ''['' @ h @ '']'' else h) @
                      (if is_default_port u then [] else '':'' @ the (u_port_str u)))
      in case u_scheme u of None \<Rightarrow> site | Some s \<Rightarrow> s @ '':'' @ site)"

definition uri_unparse :: "unp_flags \<Rightarrow> uri \<Rightarrow> cstring" where
  "uri_unparse fl u =
     (if OMITSITEPART fl then [] else unp_site fl u) @
     (if OMITPATHINFO fl then []
      else (case u_path u of None \<Rightarrow> [] | Some p \<Rightarrow> p) @
           (case u_query u of Some q \<Rightarrow> if OMITQUERY fl then [] else ''?'' @ q | None \<Rightarrow> []) @
           (case u_fragment u of Some f \<Rightarrow> if OMITQUERY fl then [] else ''#'' @ f | None \<Rightarrow> []))"

section \<open>Nothing is lost\<close>

text \<open>The parts put together again.\<close>

definition path_part :: "uri \<Rightarrow> cstring" where
  "path_part u = (case u_path u of None \<Rightarrow> [] | Some p \<Rightarrow> p) @
     (case u_query u of None \<Rightarrow> [] | Some q \<Rightarrow> ''?'' @ q) @ (case u_fragment u of None \<Rightarrow> [] | Some f \<Rightarrow> ''#'' @ f)"

definition reassemble :: "uri \<Rightarrow> cstring" where
  "reassemble u = (case u_scheme u of None \<Rightarrow> [] | Some s \<Rightarrow> s @ '':'') @
     (case u_hostinfo u of None \<Rightarrow> [] | Some h \<Rightarrow> ''//'' @ h) @ path_part u"

text \<open>The fields that \<open>deal_with_path\<close> does not touch.\<close>

definition same_site :: "uri \<Rightarrow> uri \<Rightarrow> bool" where
  "same_site u v \<longleftrightarrow> u_scheme u = u_scheme v \<and> u_hostinfo u = u_hostinfo v \<and> u_user u = u_user v \<and>
     u_password u = u_password v \<and> u_hostname u = u_hostname v \<and> u_port_str u = u_port_str v \<and> u_port u = u_port v"

definition no_path :: "uri \<Rightarrow> bool" where
  "no_path u \<longleftrightarrow> u_path u = None \<and> u_query u = None \<and> u_fragment u = None"

lemma path_delims: "and (uri_delims c) NOTEND_PATH = 0 \<longleftrightarrow> c \<noteq> NUL \<and> c \<noteq> CHR ''?'' \<and> c \<noteq> CHR ''#''"
  by (simp add: uri_delims_def NOTEND_PATH_def T_NUL_def T_HASH_def T_SLASH_def T_COLON_def T_QUESTION_def)

lemma hostinfo_delims:
  "and (uri_delims c) NOTEND_HOSTINFO = 0 \<longleftrightarrow> c \<noteq> NUL \<and> c \<noteq> CHR ''/'' \<and> c \<noteq> CHR ''?'' \<and> c \<noteq> CHR ''#''"
  by (simp add: uri_delims_def NOTEND_HOSTINFO_def T_NUL_def T_HASH_def T_SLASH_def T_COLON_def T_QUESTION_def)

lemma upto_delim_split: "upto_delim d s @ drop (length (upto_delim d s)) s = s"
  by (simp add: upto_delim_def dropWhile_eq_drop [symmetric])

lemma deal_with_path_parts:
  assumes "no_path u" "nul_free str"
  shows "path_part (deal_with_path str u) = str \<and> same_site (deal_with_path str u) u"
proof -
  define p where "p = upto_delim NOTEND_PATH str"
  have str: "p @ drop (length p) str = str" by (simp add: p_def upto_delim_split)
  show ?thesis
  proof (cases "drop (length p) str")
    case Nil
    then have "deal_with_path str u = (if p \<noteq> [] then u\<lparr>u_path := Some p\<rparr> else u)"
      by (simp add: deal_with_path_def p_def [symmetric] Let_def)
    moreover have "p = str" using str Nil by simp
    ultimately show ?thesis using assms(1) by (auto simp: path_part_def same_site_def no_path_def)
  next
    case (Cons c s)
    have str': "str = p @ c # s" using str Cons by simp
    have "dropWhile (\<lambda>c. and (uri_delims c) NOTEND_PATH = 0) str = c # s"
      using Cons by (simp only: p_def upto_delim_def dropWhile_eq_drop)
    then have "\<not> and (uri_delims c) NOTEND_PATH = 0" by (rule dropWhile_Cons_not)
    moreover have "c \<noteq> NUL" using assms(2) by (simp add: str')
    ultimately have c: "c = CHR ''?'' \<or> c = CHR ''#''" by (auto simp: path_delims)
    define u1 where "u1 = (if p \<noteq> [] then u\<lparr>u_path := Some p\<rparr> else u)"
    have d: "deal_with_path str u = (if c = CHR ''?'' then
               (case strchr s (CHR ''#'') of
                  Some s1 \<Rightarrow> u1\<lparr>u_fragment := Some (drop (s1 + 1) s), u_query := Some (take s1 s)\<rparr>
                | None \<Rightarrow> u1\<lparr>u_query := Some s\<rparr>)
             else u1\<lparr>u_fragment := Some s\<rparr>)"
      by (simp only: deal_with_path_def p_def [symmetric] Let_def Cons list.case u1_def)
    have u1: "same_site u1 u" "u_query u1 = None" "u_fragment u1 = None" "(case u_path u1 of None \<Rightarrow> [] | Some p \<Rightarrow> p) = p"
      using assms(1) by (auto simp: u1_def same_site_def no_path_def)
    show ?thesis
    proof (cases "c = CHR ''?'' \<and> strchr s (CHR ''#'') \<noteq> None")
      case True
      then obtain i where i: "strchr s (CHR ''#'') = Some i" by blast
      then have "i < length s" "s ! i = CHR ''#''"
        using strchr_SomeD [OF i] cget_not_NUL [of s i "CHR ''#''"] by auto
      then have "take i s @ CHR ''#'' # drop (i + 1) s = s" using id_take_nth_drop [of i s] by simp
      then show ?thesis using True i u1 d by (simp add: path_part_def same_site_def str')
    next
      case False
      then show ?thesis using c u1 d by (auto simp: path_part_def same_site_def str')
    qed
  qed
qed

text \<open>The host as it was written: without a port, or with one after the first colon or the bracket.\<close>

definition host_text :: "uri \<Rightarrow> cstring" where
  "host_text u = (case u_hostname u of None \<Rightarrow> [] | Some h \<Rightarrow> if strchr h (CHR '':'') \<noteq> None then ''['' @ h @ '']'' else h) @
     (case u_port_str u of None \<Rightarrow> [] | Some p \<Rightarrow> '':'' @ p)"

text \<open>A host in brackets holds a colon and ends with the bracket.\<close>

definition plain_host :: "cstring \<Rightarrow> bool" where
  "plain_host h \<longleftrightarrow>
     (if cget h 0 = CHR ''['' then
        (\<exists>a b. h = ''['' @ a @ '']'' @ b \<and> CHR '']'' \<notin> set a \<and> CHR '':'' \<in> set a \<and> (b = [] \<or> hd b = CHR '':''))
      else True)"

lemma plain_host_v6:
  assumes "CHR '']'' \<notin> set a" "CHR '':'' \<in> set a" "b = [] \<or> hd b = CHR '':''"
  shows "plain_host (''['' @ a @ '']'' @ b)"
  unfolding plain_host_def
  by (split if_split, intro conjI impI TrueI exI [of _ a] exI [of _ b] refl assms)

lemma strchr_first: "c \<notin> set a \<Longrightarrow> strchr (a @ c # b) c = Some (length a)"
  by (induction a) auto

lemma deal_with_host_parts:
  assumes "deal_with_host h rest u = (True, v)" "no_path u" "u_port_str u = None" "nul_free rest" "nul_free h"
  shows "path_part v = rest \<and> u_scheme v = u_scheme u \<and> u_hostinfo v = u_hostinfo u \<and>
    u_user v = u_user u \<and> u_password v = u_password u \<and> (plain_host h \<longrightarrow> host_text v = h)"
proof -
  note D = deal_with_path_parts [OF _ assms(4)]
  have path: "path_part (deal_with_path rest x) = rest \<and> u_scheme (deal_with_path rest x) = u_scheme u \<and>
      u_hostinfo (deal_with_path rest x) = u_hostinfo u \<and> u_user (deal_with_path rest x) = u_user u \<and>
      u_password (deal_with_path rest x) = u_password u \<and> host_text (deal_with_path rest x) = host_text x"
    if "no_path x" "u_scheme x = u_scheme u" "u_hostinfo x = u_hostinfo u" "u_user x = u_user u" "u_password x = u_password u" for x
    using D [OF that(1)] that by (simp add: same_site_def host_text_def)
  have no: "no_path u" by (rule assms(2))
  define v6 where "v6 \<longleftrightarrow> cget h 0 = CHR ''[''"
  show ?thesis
  proof (cases "host_port_at h")
    case None
    define x where "x = u\<lparr>u_hostname := Some (take (length h - (if v6 then 2 else 0)) (drop (if v6 then 1 else 0) h))\<rparr>"
    have v: "v = deal_with_path rest x" using assms(1) None by (auto simp: deal_with_host_def x_def v6_def Let_def split: if_splits)
    have "host_text x = h" if p: "plain_host h"
    proof (cases v6)
      case True
      with p obtain a b where ab: "h = ''['' @ a @ '']'' @ b" "CHR '']'' \<notin> set a" "CHR '':'' \<in> set a" "b = [] \<or> hd b = CHR '':''"
        by (auto simp: plain_host_def v6_def)
      have "strchr h (CHR '']'') = Some (Suc (length a))"
        using strchr_first [of "CHR '']''" "''['' @ a" b] ab(1,2) by simp
      then have "b = []" using None ab by (cases b) (auto simp: host_port_at_def cget_append)
      then show ?thesis using ab True assms(3) by (auto simp: x_def host_text_def cscan)
    next
      case False
      then have "strchr h (CHR '':'') = None" using None by (simp add: host_port_at_def v6_def)
      then show ?thesis using False assms(3) by (simp add: x_def host_text_def)
    qed
    then show ?thesis using path [of x] no v by (auto simp: x_def no_path_def)
  next
    case (Some i)
    define x0 where "x0 = u\<lparr>u_hostname := Some (take (i - (if v6 then 2 else 0)) (drop (if v6 then 1 else 0) h)),
      u_port_str := Some (drop (i + 1) h)\<rparr>"
    have "\<exists>p. v = deal_with_path rest (x0\<lparr>u_port := p\<rparr>)"
      using assms(1) Some by (auto simp: deal_with_host_def x0_def v6_def Let_def split: if_splits)
    then obtain p where v: "v = deal_with_path rest (x0\<lparr>u_port := p\<rparr>)" by blast
    have "host_text x0 = h" if pl: "plain_host h"
    proof (cases v6)
      case True
      with pl obtain a b where ab: "h = ''['' @ a @ '']'' @ b" "CHR '']'' \<notin> set a" "CHR '':'' \<in> set a" "b = [] \<or> hd b = CHR '':''"
        by (auto simp: plain_host_def v6_def)
      have "strchr h (CHR '']'') = Some (Suc (length a))"
        using strchr_first [of "CHR '']''" "''['' @ a" b] ab(1,2) by simp
      then have i: "i = length a + 2" "b \<noteq> []" using Some True by (auto simp: host_port_at_def v6_def ab(1) cget_append split: if_splits)
      then obtain b' where "b = CHR '':'' # b'" using ab(4) by (cases b) auto
      then show ?thesis using ab i True by (auto simp: x0_def host_text_def cscan)
    next
      case False
      then have "strchr h (CHR '':'') = Some i" using Some by (simp add: host_port_at_def v6_def)
      then have i: "i < length h" "h ! i = CHR '':''" "CHR '':'' \<notin> set (take i h)"
        using strchr_SomeD [of h "CHR '':''" i] cget_not_NUL [of h i "CHR '':''"] by auto
      then have "take i h @ CHR '':'' # drop (i + 1) h = h" using id_take_nth_drop [of i h] by simp
      then show ?thesis using False i(3) by (auto simp: x0_def host_text_def cscan)
    qed
    moreover have "host_text (x0\<lparr>u_port := p\<rparr>) = host_text x0" by (simp add: host_text_def)
    ultimately show ?thesis using path [of "x0\<lparr>u_port := p\<rparr>"] no v by (auto simp: x0_def no_path_def)
  qed
qed

text \<open>The host of an authority is what follows its last \<open>@\<close>.\<close>

definition host_of :: "cstring \<Rightarrow> cstring" where
  "host_of info = (case strrchr info (CHR ''@'') of None \<Rightarrow> info | Some s \<Rightarrow> drop (s + 1) info)"

definition user_text :: "uri \<Rightarrow> cstring" where
  "user_text u = (case u_user u of None \<Rightarrow> []
     | Some w \<Rightarrow> w @ (case u_password u of None \<Rightarrow> [] | Some pw \<Rightarrow> '':'' @ pw) @ ''@'')"

lemma upto_delim_nul_free: "nul_free s \<Longrightarrow> nul_free (upto_delim d s)"
  by (auto simp: upto_delim_def)

lemma split_at_nth: "i < length s \<Longrightarrow> s ! i = c \<Longrightarrow> take i s @ c # drop (Suc i) s = s"
  using id_take_nth_drop [of i s] by simp

lemma deal_with_host_named: "deal_with_host h rest u = (True, v) \<Longrightarrow> u_hostname v \<noteq> None"
  by (auto simp: deal_with_host_def Let_def deal_with_path_def split: if_splits option.splits list.splits)

definition has_site :: "uri \<Rightarrow> bool" where
  "has_site u \<longleftrightarrow> u_hostname u \<noteq> None \<and> (u_user u = None \<longrightarrow> u_password u = None)"

lemma deal_with_authority_parts:
  assumes d: "deal_with_authority str u = (True, v)" and u: "no_path u" "u_port_str u = None" "u_user u = None" "u_password u = None"
    and n: "nul_free str"
  shows "\<exists>h. u_hostinfo v = Some h \<and> h @ path_part v = str \<and> u_scheme v = u_scheme u \<and> has_site v \<and>
    (plain_host (host_of h) \<longrightarrow> user_text v @ host_text v = h)"
proof -
  define h where "h = upto_delim NOTEND_HOSTINFO str"
  define rest where "rest = drop (length h) str"
  have split: "h @ rest = str" by (simp add: h_def rest_def upto_delim_split)
  have nf: "nul_free h" "nul_free rest" using n by (auto simp: h_def rest_def upto_delim_nul_free)
  define u1 where "u1 = u\<lparr>u_hostinfo := Some h\<rparr>"
  have d': "deal_with_authority str u = (case strrchr h (CHR ''@'') of
           None \<Rightarrow> deal_with_host h rest u1
         | Some s \<Rightarrow>
             (let info = take s h;
                  u2 = (case strchr info (CHR '':'') of
                          Some s1 \<Rightarrow> u1\<lparr>u_user := Some (take s1 info), u_password := Some (drop (s1 + 1) info)\<rparr>
                        | None \<Rightarrow> u1\<lparr>u_user := Some info\<rparr>)
              in deal_with_host (drop (s + 1) h) rest u2))"
    by (simp only: deal_with_authority_def h_def [symmetric] rest_def [symmetric] u1_def Let_def)
  show ?thesis
  proof (cases "strrchr h (CHR ''@'')")
    case None
    have "no_path u1" "u_port_str u1 = None" using u by (simp_all add: u1_def no_path_def)
    from deal_with_host_parts [OF _ this nf(2,1), of v] deal_with_host_named [of h rest u1 v] show ?thesis
      using d d' None u split by (simp add: u1_def host_of_def user_text_def has_site_def)
  next
    case (Some i)
    note i = strrchr_SomeD [OF Some]
    define info where "info = take i h"
    have h: "info @ CHR ''@'' # drop (Suc i) h = h" using split_at_nth i by (auto simp: info_def)
    define u2 where "u2 = (case strchr info (CHR '':'') of
        Some s1 \<Rightarrow> u1\<lparr>u_user := Some (take s1 info), u_password := Some (drop (s1 + 1) info)\<rparr>
      | None \<Rightarrow> u1\<lparr>u_user := Some info\<rparr>)"
    have d2: "deal_with_host (drop (Suc i) h) rest u2 = (True, v)"
      using d unfolding d' Some by (simp add: Let_def info_def [symmetric] u2_def)
    have u2: "no_path u2" "u_port_str u2 = None" "u_scheme u2 = u_scheme u" "u_hostinfo u2 = Some h"
      using u by (auto simp: u2_def u1_def no_path_def split: option.splits)
    have ut: "user_text u2 = info @ ''@''"
    proof (cases "strchr info (CHR '':'')")
      case None
      then show ?thesis using u by (simp add: u2_def u1_def user_text_def)
    next
      case (Some j)
      then have "take j info @ CHR '':'' # drop (Suc j) info = info"
        using strchr_SomeD [OF Some] cget_not_NUL [of info j "CHR '':''"] by (intro split_at_nth) auto
      then have "take j info @ '':'' @ drop (Suc j) info @ ''@'' = info @ ''@''" by simp
      then show ?thesis using Some by (simp add: u2_def user_text_def)
    qed
    have nd: "nul_free (drop (Suc i) h)" using nf(1) by (rule nul_free_drop)
    have P: "path_part v = rest" "u_scheme v = u_scheme u" "u_hostinfo v = Some h"
      "plain_host (drop (Suc i) h) \<longrightarrow> host_text v = drop (Suc i) h" "u_user v = u_user u2" "u_password v = u_password u2"
      using deal_with_host_parts [OF d2 u2(1,2) nf(2) nd] u2(3,4) by simp_all
    have "user_text v = user_text u2" unfolding user_text_def P(5,6) ..
    have "host_of h = drop (Suc i) h" by (simp add: host_of_def Some)
    then have "user_text v @ host_text v = h" if "plain_host (host_of h)" using that P(4) \<open>user_text v = user_text u2\<close> ut h by simp
    moreover have "u_user u2 \<noteq> None" by (simp add: u2_def split: option.splits)
    ultimately show ?thesis using P(1-3,5) split deal_with_host_named [OF d2] by (auto simp: has_site_def)
  qed
qed

text \<open>Which of its two ends a successful parse took.\<close>

lemma scheme_stop:
  assumes "cget str (length (upto_delim d str)) = CHR '':''"
  shows "upto_delim d str @ CHR '':'' # drop (Suc (length (upto_delim d str))) str = str"
proof -
  define n where "n = length (upto_delim d str)"
  have "take n str = upto_delim d str"
    unfolding n_def upto_delim_def by (rule takeWhile_eq_take [symmetric])
  moreover have "take n str @ CHR '':'' # drop (Suc n) str = str"
    using cget_not_NUL [of str n "CHR '':''"] assms by (intro split_at_nth) (auto simp: n_def)
  ultimately show ?thesis by (simp add: n_def)
qed

lemma two_slashes:
  assumes "cget s n = CHR ''/''" "cget s (Suc n) = CHR ''/''"
  shows "drop n s = CHR ''/'' # CHR ''/'' # drop (n + 2) s"
proof -
  have "n < length s" "s ! n = CHR ''/''" "Suc n < length s" "s ! Suc n = CHR ''/''"
    using cget_not_NUL [OF assms(1)] cget_not_NUL [OF assms(2)] by simp_all
  then show ?thesis using Cons_nth_drop_Suc [of n s] Cons_nth_drop_Suc [of "Suc n" s] by simp
qed

lemma uri_parse_parts:
  assumes p: "uri_parse s = (True, u)" and n: "nul_free s"
  shows "reassemble u = s \<and>
    (case u_hostinfo u of None \<Rightarrow> u_hostname u = None \<and> u_user u = None \<and> u_password u = None
     | Some h \<Rightarrow> has_site u \<and> (plain_host (host_of h) \<longrightarrow> user_text u @ host_text u = h))"
proof -
  have path: "reassemble (deal_with_path t x) = (case u_scheme x of None \<Rightarrow> [] | Some c \<Rightarrow> c @ '':'') @ t \<and>
     (case u_hostinfo (deal_with_path t x) of None \<Rightarrow> u_hostname (deal_with_path t x) = None \<and> u_user (deal_with_path t x) = None \<and>
        u_password (deal_with_path t x) = None
     | Some h \<Rightarrow> has_site (deal_with_path t x) \<and>
        (plain_host (host_of h) \<longrightarrow> user_text (deal_with_path t x) @ host_text (deal_with_path t x) = h))"
    if "nul_free t" "x = no_uri\<lparr>u_scheme := u_scheme x\<rparr>" for t x
  proof -
    have e: "x = \<lparr>u_scheme = u_scheme x, u_hostinfo = None, u_user = None, u_password = None, u_hostname = None,
     u_port_str = None, u_path = None, u_query = None, u_fragment = None, u_port = 0\<rparr>"
      using that(2) by (simp only: no_uri_def uri.simps)
    have f: "u_hostinfo x = None" "u_user x = None" "u_password x = None" "u_hostname x = None" "no_path x"
      by (subst e, simp add: no_path_def)+
    show ?thesis
      using deal_with_path_parts [OF f(5) that(1)] f(1-4) by (simp add: reassemble_def same_site_def)
  qed
  have auth: "reassemble u = (case u_scheme x of None \<Rightarrow> [] | Some c \<Rightarrow> c @ '':'') @ ''//'' @ t \<and>
      (case u_hostinfo u of None \<Rightarrow> u_hostname u = None \<and> u_user u = None \<and> u_password u = None
       | Some h \<Rightarrow> has_site u \<and> (plain_host (host_of h) \<longrightarrow> user_text u @ host_text u = h))"
    if "deal_with_authority t x = (True, u)" "nul_free t" "x = no_uri\<lparr>u_scheme := c\<rparr>" for t x c
    using deal_with_authority_parts [OF that(1) _ _ _ _ that(2)] that(3) by (auto simp: reassemble_def no_uri_def no_path_def)
  define sc where "sc = upto_delim NOTEND_SCHEME s"
  define x where "x = no_uri\<lparr>u_scheme := Some sc\<rparr>"
  have no: "no_uri = no_uri\<lparr>u_scheme := None\<rparr>" "x = no_uri\<lparr>u_scheme := u_scheme x\<rparr>" by (simp_all add: no_uri_def x_def)
  have d: "uri_parse s = (if cget s 0 = CHR ''/'' then
        (if cget s 1 = CHR ''/'' \<and> cget s 2 \<noteq> CHR ''/'' then deal_with_authority (drop 2 s) no_uri
         else (True, deal_with_path s no_uri))
      else if sc = [] \<or> cget s (length sc) \<noteq> CHR '':'' then (True, deal_with_path s no_uri)
      else if cget s (length sc + 1) \<noteq> CHR ''/'' \<or> cget s (length sc + 2) \<noteq> CHR ''/''
           then (True, deal_with_path (drop (length sc + 1) s) x)
           else deal_with_authority (drop (length sc + 3) s) x)"
    by (simp only: uri_parse_def sc_def [symmetric] x_def Let_def)
  consider "u = deal_with_path s no_uri"
    | "cget s 0 = CHR ''/''" "cget s (Suc 0) = CHR ''/''" "deal_with_authority (drop 2 s) no_uri = (True, u)"
    | "cget s (length sc) = CHR '':''" "u = deal_with_path (drop (length sc + 1) s) x"
    | "cget s (length sc) = CHR '':''" "cget s (length sc + 1) = CHR ''/''" "cget s (length sc + 2) = CHR ''/''"
      "deal_with_authority (drop (length sc + 3) s) x = (True, u)"
    using p unfolding d by (auto split: if_splits)
  then show ?thesis
  proof cases
    case 1
    have "u_scheme no_uri = None" "no_uri = no_uri\<lparr>u_scheme := u_scheme no_uri\<rparr>" by (simp_all add: no_uri_def)
    then show ?thesis unfolding 1 using path [OF n, of no_uri] by simp
  next
    case 2
    have e: "CHR ''/'' # CHR ''/'' # drop 2 s = s" using two_slashes [OF 2(1,2)] unfolding drop_0 add_0 by (rule sym)
    have "u_scheme no_uri = None" by (simp add: no_uri_def)
    then show ?thesis using auth [OF 2(3) nul_free_drop [OF n] no(1)] by (simp add: e)
  next
    case 3
    have "sc @ CHR '':'' # drop (Suc (length sc)) s = s" using scheme_stop [of s NOTEND_SCHEME] 3(1) by (simp add: sc_def)
    then show ?thesis unfolding 3(2) using path [OF nul_free_drop [OF n] no(2), of "length sc + 1"] by (simp add: x_def)
  next
    case 4
    have "sc @ CHR '':'' # drop (Suc (length sc)) s = s" using scheme_stop [of s NOTEND_SCHEME] 4(1) by (simp add: sc_def)
    moreover have "drop (Suc (length sc)) s = ''//'' @ drop (length sc + 3) s"
      using two_slashes [of s "Suc (length sc)"] 4(2,3) by (simp add: numeral_3_eq_3)
    ultimately show ?thesis using auth [OF 4(4) nul_free_drop [OF n] x_def] by (simp add: x_def)
  qed
qed

text \<open>
  Nothing of a URI gets lost: whenever \<open>apr_uri_parse\<close> succeeds, the scheme, the host
  information, the path, the query and the fragment, put together with their separators, are the
  text that was parsed, character by character.
\<close>
theorem uri_parse_lossless:
  assumes "uri_parse s = (True, u)" "nul_free s"
  shows "reassemble u = s"
  using uri_parse_parts [OF assms] by blast

theorem uri_parse_lossless_witness:
  "reassemble (snd (uri_parse ''sip://m:p@[::1]:81/a?x#t'')) = ''sip://m:p@[::1]:81/a?x#t''"
proof -
  have "uri_parse ''sip://m:p@[::1]:81/a?x#t'' = (True, snd (uri_parse ''sip://m:p@[::1]:81/a?x#t''))"
    by code_simp
  then show ?thesis by (rule uri_parse_lossless) simp
qed

definition reveal :: unp_flags where
  "reveal = \<lparr>OMITSITEPART = False, OMITUSER = False, OMITPASSWORD = False, REVEALPASSWORD = True, OMITPATHINFO = False,
     OMITQUERY = False\<rparr>"

text \<open>
  C10. \<open>apr_uri_unparse\<close> is the inverse of \<open>apr_uri_parse\<close>: printed with its password, a parsed URI is
  the text it came from, when the port is not written out as the default one and a host in brackets
  is an address that holds a colon and ends at the bracket or at the port.
\<close>
theorem uri_roundtrip:
  assumes "uri_parse s = (True, u)" "nul_free s" "\<And>h. u_hostinfo u = Some h \<Longrightarrow> plain_host (host_of h)"
    "u_port_str u = None \<or> \<not> is_default_port u"
  shows "uri_unparse reveal u = s"
proof -
  have P: "reassemble u = s" "case u_hostinfo u of None \<Rightarrow> u_hostname u = None \<and> u_user u = None \<and> u_password u = None
     | Some h \<Rightarrow> has_site u \<and> (plain_host (host_of h) \<longrightarrow> user_text u @ host_text u = h)"
    using uri_parse_parts [OF assms(1,2)] by blast+
  have un: "uri_unparse reveal u = unp_site reveal u @ path_part u"
    by (simp add: uri_unparse_def reveal_def path_part_def cong: option.case_cong)
  show ?thesis
  proof (cases "u_hostinfo u")
    case None
    then have "unp_site reveal u = (case u_scheme u of None \<Rightarrow> [] | Some s \<Rightarrow> s @ '':'')"
      using P(2) by (simp add: unp_site_def unp_userinfo_def split: option.splits)
    then show ?thesis using P(1) None un by (simp add: reassemble_def)
  next
    case (Some h)
    then have h: "user_text u @ host_text u = h" and site: "has_site u" using P(2) assms(3) [OF Some] by auto
    then obtain n where n: "u_hostname u = Some n" by (auto simp: has_site_def)
    have info: "unp_userinfo reveal u = user_text u"
      using site by (auto simp: unp_userinfo_def user_text_def reveal_def has_site_def split: option.splits)
    have host: "(if strchr n (CHR '':'') \<noteq> None then ''['' @ n @ '']'' else n) @
        (if is_default_port u then [] else '':'' @ the (u_port_str u)) = host_text u"
      using assms(4) n by (auto simp: host_text_def is_default_port_def)
    have "unp_site reveal u = (case u_scheme u of None \<Rightarrow> ''//'' @ h | Some s \<Rightarrow> s @ '':'' @ ''//'' @ h)"
      unfolding unp_site_def Let_def info n option.case host h by (simp split: option.splits)
    then show ?thesis using P(1) Some un by (simp add: reassemble_def split: option.splits)
  qed
qed

theorem uri_roundtrip_witness:
  "uri_unparse reveal (snd (uri_parse ''sip://m:p@[::1]:81/a?x#t'')) = ''sip://m:p@[::1]:81/a?x#t''"
proof -
  define u where "u = snd (uri_parse ''sip://m:p@[::1]:81/a?x#t'')"
  have "uri_parse ''sip://m:p@[::1]:81/a?x#t'' = (True, u)" unfolding u_def by code_simp
  moreover have "u_hostinfo u = Some ''m:p@[::1]:81''" "u_port u = 81" "u_scheme u = Some ''sip''" "u_port_str u = Some ''81''"
    unfolding u_def by code_simp+
  moreover have "host_of ''m:p@[::1]:81'' = ''['' @ ''::1'' @ '']'' @ '':81''" by code_simp
  moreover have "plain_host (''['' @ ''::1'' @ '']'' @ '':81'')"
    by (rule plain_host_v6) simp_all
  moreover have "port_of_scheme (Some ''sip'') = 5060" by code_simp
  ultimately show ?thesis unfolding u_def [symmetric]
    by (intro uri_roundtrip) (simp_all add: is_default_port_def)
qed

text \<open>The fields of the site outlive the path.\<close>

lemma deal_with_path_port [simp]:
  "u_port (deal_with_path t u) = u_port u" "u_port_str (deal_with_path t u) = u_port_str u"
  "u_hostname (deal_with_path t u) = u_hostname u"
  by (auto simp: deal_with_path_def Let_def split: list.splits option.splits)

text \<open>
  A port that is written out is taken modulo 65536: a host \<open>h\<close>, a colon and a decimal number
  below 2 to the 63 always parse, the text of the port is kept as it is, and the port that is compared
  with the default one and used for the connection is the number cut to 16 bits.
\<close>
theorem uri_port_wraps:
  assumes "CHR '':'' \<notin> set h" "cget h 0 \<noteq> CHR ''[''" "int n < 2 ^ 63"
  shows "\<exists>v. deal_with_host (h @ '':'' @ fmt_nat n) rest u = (True, v) \<and> u_hostname v = Some h \<and>
    u_port_str v = Some (fmt_nat n) \<and> unat (u_port v) = n mod 2 ^ 16"
proof -
  have v6: "cget (h @ '':'' @ fmt_nat n) 0 \<noteq> CHR ''[''" using assms(2) by (cases h) simp_all
  have at: "host_port_at (h @ '':'' @ fmt_nat n) = Some (length h)"
    using strchr_first [OF assms(1), of "fmt_nat n"] v6 by (simp add: host_port_at_def)
  have num: "strtoll (fmt_nat n) = (int n, False, [])"
    using strtoll_fmt_nat [OF assms(3), of "[]"] by simp
  have "unat (word_of_int (int n) :: 16 word) = n mod 2 ^ 16" by (simp add: unat_of_nat)
  then show ?thesis using v6 at num by (simp add: deal_with_host_def atoport_def Let_def)
qed

theorem uri_port_wraps_witness:
  "\<exists>v. deal_with_host (''h'' @ '':'' @ fmt_nat 65616) ''/'' no_uri = (True, v) \<and> u_hostname v = Some ''h'' \<and>
    u_port_str v = Some (fmt_nat 65616) \<and> unat (u_port v) = 65616 mod 2 ^ 16"
  by (rule uri_port_wraps) simp_all

end
