(* ===== verification/Apr_Table.thy ===== *)
theory Apr_Table
  imports Prelude
begin

text \<open>
  The tables of strings of the portable runtime, \<open>srclib/apr/tables/apr_tables.c\<close>: arrays of entries
  with an index of 32 buckets over the first character of the keys, in which the server keeps header
  fields, notes and environment variables. Keys compare without case, a key may occur many times. The
  array \<open>a.elts\<close> is the list of its \<open>a.nelts\<close> entries; an index into it stands for a pointer.
\<close>


section \<open>Hash and checksum of a key\<close>

definition TABLE_HASH_SIZE :: nat where "TABLE_HASH_SIZE = 32"
definition TABLE_INDEX_MASK :: nat where "TABLE_INDEX_MASK = 0x1f"
definition CASE_MASK :: u32 where "CASE_MASK = 0xdfdfdfdf"

definition TABLE_HASH :: "cstring \<Rightarrow> nat" where
  "TABLE_HASH key = and TABLE_INDEX_MASK (ccode (cget key 0))"

text \<open>A \<open>char\<close> is signed, so the conversion to \<open>apr_uint32_t\<close> extends its sign.\<close>

definition uint32_of_char :: "char \<Rightarrow> u32" where
  "uint32_of_char c = signed_take_bit 7 (of_nat (ccode c))"

text \<open>One of the three steps of \<open>COMPUTE_KEY_CHECKSUM\<close>, on the checksum, the last character and the key left.\<close>

definition checksum_step :: "u32 \<times> u32 \<times> cstring \<Rightarrow> u32 \<times> u32 \<times> cstring" where
  "checksum_step s =
     (case s of (checksum, c, k) \<Rightarrow>
        (let checksum1 = push_bit 8 checksum
         in if c \<noteq> 0 then
              (let k1 = tl k; c1 = uint32_of_char (cget k1 0) in (or checksum1 c1, c1, k1))
            else (checksum1, c, k)))"

definition key_checksum_of :: "cstring \<Rightarrow> u32" where
  "key_checksum_of key =
     (let c = uint32_of_char (cget key 0)
      in and (fst (checksum_step (checksum_step (checksum_step (c, c, key))))) CASE_MASK)"

section \<open>The table\<close>

text \<open>A key is \<open>NULL\<close> only for the duplicates that \<open>apr_table_compress\<close> is about to drop.\<close>

record table_entry =
  e_key :: "cstring option"
  e_val :: cstring
  key_checksum :: u32

record table =
  t_elts :: "table_entry list"
  index_initialized :: u32
  index_first :: "nat \<Rightarrow> nat"
  index_last :: "nat \<Rightarrow> nat"

abbreviation nelts :: "table \<Rightarrow> nat" where
  "nelts t \<equiv> length (t_elts t)"

definition table_is_initialized :: "table \<Rightarrow> nat \<Rightarrow> bool" where
  "table_is_initialized t i \<longleftrightarrow> and (index_initialized t) (push_bit i 1) \<noteq> 0"

definition table_set_initialized :: "nat \<Rightarrow> table \<Rightarrow> table" where
  "table_set_initialized i t = t\<lparr>index_initialized := or (index_initialized t) (push_bit i 1)\<rparr>"

text \<open>\<open>apr_table_make\<close>; the two arrays are not initialised, \<open>any\<close> is what the memory held.\<close>

definition table_make :: "(nat \<Rightarrow> nat) \<Rightarrow> table" where
  "table_make any = \<lparr>t_elts = [], index_initialized = 0, index_first = any, index_last = any\<rparr>"

definition table_clear :: "table \<Rightarrow> table" where
  "table_clear t = t\<lparr>t_elts := [], index_initialized := 0\<rparr>"

definition table_is_empty :: "table option \<Rightarrow> bool" where
  "table_is_empty t \<longleftrightarrow> (case t of None \<Rightarrow> True | Some t \<Rightarrow> nelts t = 0)"

definition index_entry :: "nat \<Rightarrow> nat \<Rightarrow> table \<Rightarrow> table" where
  "index_entry hash i t =
     (let t1 = t\<lparr>index_last := (index_last t)(hash := i)\<rparr>
      in if \<not> table_is_initialized t1 hash
         then table_set_initialized hash (t1\<lparr>index_first := (index_first t1)(hash := i)\<rparr>) else t1)"

text \<open>\<open>table_reindex\<close>, the loop and the routine.\<close>

fun reindex_loop :: "table_entry list \<Rightarrow> nat \<Rightarrow> table \<Rightarrow> table" where
  "reindex_loop [] i t = t"
| "reindex_loop (e # es) i t = reindex_loop es (Suc i) (index_entry (TABLE_HASH (the (e_key e))) i t)"

definition table_reindex :: "table \<Rightarrow> table" where
  "table_reindex t = reindex_loop (t_elts t) 0 (t\<lparr>index_initialized := 0\<rparr>)"

section \<open>Finding an entry\<close>

definition entry_matches :: "cstring \<Rightarrow> u32 \<Rightarrow> table_entry \<Rightarrow> bool" where
  "entry_matches key checksum e \<longleftrightarrow>
     checksum = key_checksum e \<and> (case e_key e of None \<Rightarrow> False | Some k \<Rightarrow> strcaseeq k key)"

function table_find :: "cstring \<Rightarrow> u32 \<Rightarrow> table_entry list \<Rightarrow> nat \<Rightarrow> nat \<Rightarrow> nat option" where
  "table_find key checksum es next end_elt =
     (if next > end_elt then None
      else if entry_matches key checksum (es ! next) then Some next
      else table_find key checksum es (Suc next) end_elt)"
  by pat_completeness auto

termination table_find by (relation "measure (\<lambda>(_, _, _, i, e). Suc e - i)") auto

declare table_find.simps [simp del]

definition table_get :: "table \<Rightarrow> cstring option \<Rightarrow> cstring option" where
  "table_get t key =
     (case key of None \<Rightarrow> None
      | Some key \<Rightarrow>
          (let hash = TABLE_HASH key
           in if \<not> table_is_initialized t hash then None
              else map_option (\<lambda>i. e_val (t_elts t ! i))
                (table_find key (key_checksum_of key) (t_elts t) (index_first t hash) (index_last t hash))))"

section \<open>Adding\<close>

definition table_push :: "table_entry \<Rightarrow> table \<Rightarrow> table" where
  "table_push e t = t\<lparr>t_elts := t_elts t @ [e]\<rparr>"

definition new_entry :: "cstring \<Rightarrow> cstring \<Rightarrow> table_entry" where
  "new_entry key v = \<lparr>e_key = Some key, e_val = v, key_checksum = key_checksum_of key\<rparr>"

definition table_add :: "table \<Rightarrow> cstring \<Rightarrow> cstring \<Rightarrow> table" where
  "table_add t key v = table_push (new_entry key v) (index_entry (TABLE_HASH key) (nelts t) t)"

definition table_addn :: "table \<Rightarrow> cstring \<Rightarrow> cstring \<Rightarrow> table" where
  "table_addn t key v = table_push (new_entry key v) (index_entry (TABLE_HASH key) (nelts t) t)"

text \<open>What the setting and merging routines do first, and at \<open>add_new_elt\<close>.\<close>

definition index_new :: "nat \<Rightarrow> table \<Rightarrow> table" where
  "index_new hash t = table_set_initialized hash (t\<lparr>index_first := (index_first t)(hash := nelts t)\<rparr>)"

definition add_new_elt :: "nat \<Rightarrow> cstring \<Rightarrow> cstring \<Rightarrow> table \<Rightarrow> table" where
  "add_new_elt hash key v t =
     table_push (new_entry key v) (t\<lparr>index_last := (index_last t)(hash := nelts t)\<rparr>)"

text \<open>The last loops of the routines that remove entries: the rest of the array moves down.\<close>

function shift_tail :: "nat \<Rightarrow> nat \<Rightarrow> nat \<Rightarrow> table_entry list \<Rightarrow> table_entry list" where
  "shift_tail next table_end dst es =
     (if next < table_end then shift_tail (Suc next) table_end (Suc dst) (es[dst := es ! next]) else es)"
  by pat_completeness auto

termination shift_tail by (relation "measure (\<lambda>(i, e, _). e - i)") auto

declare shift_tail.simps [simp del]

text \<open>The loop of \<open>apr_table_set\<close> over the other instances: the array, \<open>nelts\<close>, \<open>dst_elt\<close>, \<open>must_reindex\<close>.\<close>

function set_loop ::
  "cstring \<Rightarrow> u32 \<Rightarrow> nat \<Rightarrow> nat \<Rightarrow> table_entry list \<times> nat \<times> nat option \<times> bool \<Rightarrow>
     table_entry list \<times> nat \<times> nat option \<times> bool" where
  "set_loop key checksum end_elt next (es, n, dst, must) =
     (if next > end_elt then (es, n, dst, must)
      else if entry_matches key checksum (es ! next) then
        set_loop key checksum end_elt (Suc next) (es, n - 1, (case dst of None \<Rightarrow> Some next | _ \<Rightarrow> dst), must)
      else
        (case dst of
           None \<Rightarrow> set_loop key checksum end_elt (Suc next) (es, n, None, must)
         | Some d \<Rightarrow> set_loop key checksum end_elt (Suc next) (es[d := es ! next], n, Some (Suc d), True)))"
  by pat_completeness auto

termination set_loop by (relation "measure (\<lambda>(_, _, e, i, _). Suc e - i)") auto

declare set_loop.simps [simp del]

definition overwrite_entry :: "cstring \<Rightarrow> u32 \<Rightarrow> cstring \<Rightarrow> nat \<Rightarrow> nat \<Rightarrow> table \<Rightarrow> table" where
  "overwrite_entry key checksum v i end_elt t =
     (let es0 = (t_elts t)[i := (t_elts t ! i)\<lparr>e_val := v\<rparr>]
      in case set_loop key checksum end_elt (Suc i) (es0, nelts t, None, False) of
           (es, n, dst, must) \<Rightarrow>
             (case dst of
                None \<Rightarrow> if must then table_reindex (t\<lparr>t_elts := take n es\<rparr>) else t\<lparr>t_elts := take n es\<rparr>
              | Some d \<Rightarrow> table_reindex (t\<lparr>t_elts := take n (shift_tail (Suc end_elt) (nelts t) d es)\<rparr>)))"

definition table_set :: "table \<Rightarrow> cstring \<Rightarrow> cstring \<Rightarrow> table" where
  "table_set t key v =
     (let checksum = key_checksum_of key; hash = TABLE_HASH key
      in if \<not> table_is_initialized t hash then add_new_elt hash key v (index_new hash t)
         else case table_find key checksum (t_elts t) (index_first t hash) (index_last t hash) of
             None \<Rightarrow> add_new_elt hash key v t
           | Some i \<Rightarrow> overwrite_entry key checksum v i (index_last t hash) t)"

text \<open>\<open>apr_table_setn\<close>, which does not copy the strings, has the same text.\<close>

definition table_setn :: "table \<Rightarrow> cstring \<Rightarrow> cstring \<Rightarrow> table" where
  "table_setn t key v =
     (let checksum = key_checksum_of key; hash = TABLE_HASH key
      in if \<not> table_is_initialized t hash then add_new_elt hash key v (index_new hash t)
         else case table_find key checksum (t_elts t) (index_first t hash) (index_last t hash) of
             None \<Rightarrow> add_new_elt hash key v t
           | Some i \<Rightarrow> overwrite_entry key checksum v i (index_last t hash) t)"

text \<open>The loop of \<open>apr_table_unset\<close> behind the first match.\<close>

function unset_loop ::
  "cstring \<Rightarrow> u32 \<Rightarrow> nat \<Rightarrow> nat \<Rightarrow> table_entry list \<times> nat \<times> nat \<Rightarrow> table_entry list \<times> nat \<times> nat" where
  "unset_loop key checksum end_elt next (es, n, d) =
     (if next > end_elt then (es, n, d)
      else if entry_matches key checksum (es ! next) then unset_loop key checksum end_elt (Suc next) (es, n - 1, d)
      else unset_loop key checksum end_elt (Suc next) (es[d := es ! next], n, Suc d))"
  by pat_completeness auto

termination unset_loop by (relation "measure (\<lambda>(_, _, e, i, _). Suc e - i)") auto

declare unset_loop.simps [simp del]

definition table_unset :: "table \<Rightarrow> cstring \<Rightarrow> table" where
  "table_unset t key =
     (let checksum = key_checksum_of key; hash = TABLE_HASH key; end_elt = index_last t hash
      in if \<not> table_is_initialized t hash then t
         else case table_find key checksum (t_elts t) (index_first t hash) end_elt of
             None \<Rightarrow> t
           | Some i \<Rightarrow>
               (case unset_loop key checksum end_elt (Suc i) (t_elts t, nelts t - 1, i) of
                  (es, n, d) \<Rightarrow> table_reindex (t\<lparr>t_elts := take n (shift_tail (Suc end_elt) (nelts t) d es)\<rparr>)))"

definition table_merge :: "table \<Rightarrow> cstring \<Rightarrow> cstring \<Rightarrow> table" where
  "table_merge t key v =
     (let checksum = key_checksum_of key; hash = TABLE_HASH key
      in if \<not> table_is_initialized t hash then add_new_elt hash key v (index_new hash t)
         else case table_find key checksum (t_elts t) (index_first t hash) (index_last t hash) of
             None \<Rightarrow> add_new_elt hash key v t
           | Some i \<Rightarrow> t\<lparr>t_elts := (t_elts t)[i := (t_elts t ! i)\<lparr>e_val := e_val (t_elts t ! i) @ '', '' @ v\<rparr>]\<rparr>)"

definition table_mergen :: "table \<Rightarrow> cstring \<Rightarrow> cstring \<Rightarrow> table" where
  "table_mergen t key v =
     (let checksum = key_checksum_of key; hash = TABLE_HASH key
      in if \<not> table_is_initialized t hash then add_new_elt hash key v (index_new hash t)
         else case table_find key checksum (t_elts t) (index_first t hash) (index_last t hash) of
             None \<Rightarrow> add_new_elt hash key v t
           | Some i \<Rightarrow> t\<lparr>t_elts := (t_elts t)[i := (t_elts t ! i)\<lparr>e_val := e_val (t_elts t ! i) @ '', '' @ v\<rparr>]\<rparr>)"

text \<open>\<open>apr_table_copy\<close>, \<open>apr_table_clone\<close> and \<open>apr_table_overlay\<close>.\<close>

definition table_copy :: "table \<Rightarrow> table" where
  "table_copy t = t"

definition table_clone :: "(nat \<Rightarrow> nat) \<Rightarrow> table \<Rightarrow> table" where
  "table_clone any t = foldl (\<lambda>t' e. table_add t' (the (e_key e)) (e_val e)) (table_make any) (t_elts t)"

definition table_overlay :: "(nat \<Rightarrow> nat) \<Rightarrow> table \<Rightarrow> table \<Rightarrow> table" where
  "table_overlay any overlay base = table_reindex ((table_make any)\<lparr>t_elts := t_elts overlay @ t_elts base\<rparr>)"

section \<open>Walking\<close>

text \<open>
  \<open>apr_table_vdo\<close>. \<open>cb\<close>, the callback \<open>comp\<close>, gives its result and the new state behind \<open>rec\<close>; the empty list of
  keys walks the whole table.
\<close>

fun do_entries :: "('r \<Rightarrow> cstring \<Rightarrow> cstring \<Rightarrow> int \<times> 'r) \<Rightarrow> (table_entry \<Rightarrow> bool) \<Rightarrow> table_entry list \<Rightarrow> 'r \<Rightarrow> int \<times> 'r" where
  "do_entries cb p [] r = (1, r)"
| "do_entries cb p (e # es) r =
     (if e_key e \<noteq> None \<and> p e then
        (case cb r (the (e_key e)) (e_val e) of (rv, r') \<Rightarrow> if rv \<noteq> 0 then do_entries cb p es r' else (0, r'))
      else do_entries cb p es r)"

fun do_keys :: "('r \<Rightarrow> cstring \<Rightarrow> cstring \<Rightarrow> int \<times> 'r) \<Rightarrow> table \<Rightarrow> cstring list \<Rightarrow> 'r \<Rightarrow> int \<times> 'r" where
  "do_keys cb t [] r = (1, r)"
| "do_keys cb t (key # keys) r =
     (let hash = TABLE_HASH key;
          (rv, r') = (if table_is_initialized t hash then
                        do_entries cb (entry_matches key (key_checksum_of key))
                          (drop (index_first t hash) (take (Suc (index_last t hash)) (t_elts t))) r
                      else (1, r));
          (vdorv, r'') = do_keys cb t keys r'
      in (if rv = 0 then 0 else vdorv, r''))"

definition table_do :: "('r \<Rightarrow> cstring \<Rightarrow> cstring \<Rightarrow> int \<times> 'r) \<Rightarrow> 'r \<Rightarrow> table \<Rightarrow> cstring list \<Rightarrow> int \<times> 'r" where
  "table_do cb r t keys = (if keys = [] then do_entries cb (\<lambda>_. True) (t_elts t) r else do_keys cb t keys r)"

section \<open>Keys that are equal without case share hash and checksum\<close>

lemma TABLE_HASH_mod: "TABLE_HASH key = ccode (cget key 0) mod 32"
proof -
  have "TABLE_INDEX_MASK = mask 5" by (simp add: TABLE_INDEX_MASK_def mask_eq_exp_minus_1)
  then have "TABLE_HASH key = take_bit 5 (ccode (cget key 0))"
    by (simp add: TABLE_HASH_def take_bit_eq_mask and.commute)
  then show ?thesis by (simp add: take_bit_eq_mod)
qed

lemma hash_less [simp]: "TABLE_HASH key < 32"
  by (simp add: TABLE_HASH_mod)

lemma upper_cases:
  assumes "c_isupper c"
  obtains n where "c = char_of n" "c_tolower c = char_of (n + 32)" "n \<in> {65..90 :: nat}"
proof (rule that [of "ccode c"])
  show "c = char_of (ccode c)" by simp
qed (use assms in \<open>auto simp: c_isupper_def c_tolower_def\<close>)

lemma hash_char: "ccode (c_tolower c) mod 32 = ccode c mod 32"
proof (cases "c_isupper c")
  case True
  then show ?thesis by (rule upper_cases) simp
qed (simp add: c_tolower_def)

lemma strcaseeq_nth: "strcaseeq a b \<Longrightarrow> c_tolower (cget a i) = c_tolower (cget b i)"
proof -
  assume e: "strcaseeq a b"
  then have "length a = length b" unfolding strcaseeq_def by (metis length_map)
  moreover have "i < length a \<Longrightarrow> c_tolower (a ! i) = c_tolower (b ! i)"
    using e \<open>length a = length b\<close> unfolding strcaseeq_def by (metis nth_map)
  ultimately show ?thesis by (auto simp: cget_def)
qed

lemma strcaseeq_tl: "strcaseeq a b \<Longrightarrow> strcaseeq (tl a) (tl b)"
  by (simp add: strcaseeq_def map_tl)

lemma hash_cong: "strcaseeq a b \<Longrightarrow> TABLE_HASH a = TABLE_HASH b"
  unfolding TABLE_HASH_mod using hash_char strcaseeq_nth by metis

lemma uint32_ascii: "n < 128 \<Longrightarrow> uint32_of_char (char_of n) = of_nat n"
proof -
  assume n: "n < 128"
  have "\<not> bit (of_nat n :: u32) 7" using n by (simp add: bit_of_nat_iff bit_iff_odd [of n])
  then have "signed_take_bit 7 (of_nat n :: u32) = take_bit 7 (of_nat n)" by (simp add: signed_take_bit_eq_if_positive)
  also have "\<dots> = of_nat n" using n by (simp add: take_bit_of_nat take_bit_nat_eq_self)
  finally show ?thesis using n by (simp add: uint32_of_char_def)
qed

lemma case_mask_char: "and (uint32_of_char (c_tolower c)) CASE_MASK = and (uint32_of_char c) CASE_MASK"
proof (cases "c_isupper c")
  case True
  then show ?thesis
  proof (rule upper_cases)
    fix n :: nat assume n: "n \<in> {65..90}" and c: "c = char_of n" "c_tolower c = char_of (n + 32)"
    have "list_all (\<lambda>n. and (of_nat (n + 32) :: u32) CASE_MASK = and (of_nat n) CASE_MASK) [65..<91]"
      by (simp add: upt_rec CASE_MASK_def)
    moreover have "n \<in> set [65..<91]" using n unfolding set_upt by simp
    ultimately have "and (of_nat (n + 32) :: u32) CASE_MASK = and (of_nat n) CASE_MASK"
      unfolding list_all_iff by (rule bspec)
    then show ?thesis using n uint32_ascii [of "n + 32"] uint32_ascii [of n] c by simp
  qed
qed (simp add: c_tolower_def)

lemma zero_char: "uint32_of_char c = 0 \<longleftrightarrow> c = NUL"
proof
  assume "uint32_of_char c = 0"
  then have "take_bit 8 (signed_take_bit 7 (of_nat (ccode c) :: u32)) = 0" by (simp add: uint32_of_char_def)
  then have "take_bit 8 (of_nat (ccode c) :: u32) = 0" by (simp add: take_bit_signed_take_bit)
  then have "(of_nat (ccode c) :: u32) = 0" by (simp add: take_bit_of_nat take_bit_nat_eq_self)
  moreover have "unat (of_nat (ccode c) :: u32) = ccode c"
    using less_trans [OF ccode_less [of c], of "2 ^ 32"] by (simp add: unat_of_nat)
  ultimately have "ccode c = 0" by simp
  then show "c = NUL" using ccode_inject [of c NUL] by (simp add: ccode_def)
qed (simp add: uint32_of_char_def ccode_def)

text \<open>Two words agree when they differ at most in the bits that the mask clears.\<close>

definition agree :: "u32 \<Rightarrow> u32 \<Rightarrow> bool" where
  "agree a b \<longleftrightarrow> and a CASE_MASK = and b CASE_MASK"

lemma mask_bits: "i < 32 \<Longrightarrow> bit CASE_MASK i \<longleftrightarrow> i mod 8 \<noteq> 5"
proof -
  have "list_all (\<lambda>i. bit CASE_MASK i \<longleftrightarrow> i mod 8 \<noteq> 5) [0..<32]" by code_simp
  then show "i < 32 \<Longrightarrow> ?thesis" by (simp add: list_all_iff)
qed

lemma agree_bits: "agree a b \<longleftrightarrow> (\<forall>i<32. i mod 8 \<noteq> 5 \<longrightarrow> bit a i = bit b i)"
proof -
  have "agree a b \<longleftrightarrow> (\<forall>i<32. bit a i \<and> bit CASE_MASK i \<longleftrightarrow> bit b i \<and> bit CASE_MASK i)"
    unfolding agree_def by (auto simp: bit_eq_iff bit_and_iff dest: bit_imp_le_length)
  then show ?thesis using mask_bits by auto
qed

lemma agree_or: "agree a b \<Longrightarrow> agree c d \<Longrightarrow> agree (or a c) (or b d)"
  by (simp add: agree_bits bit_or_iff)

lemma agree_shift: "agree a b \<Longrightarrow> agree (push_bit 8 a) (push_bit 8 b)"
proof -
  assume a: "agree a b"
  have "bit (push_bit 8 a) i = bit (push_bit 8 b) i" if "i < 32" "i mod 8 \<noteq> 5" for i
  proof (cases "8 \<le> i")
    case True
    then have "(i - 8) mod 8 = i mod 8" by (simp add: le_mod_geq)
    then show ?thesis using a that True by (simp add: agree_bits bit_push_bit_iff)
  qed (simp add: bit_push_bit_iff)
  then show ?thesis by (simp add: agree_bits)
qed

definition agree_state :: "u32 \<times> u32 \<times> cstring \<Rightarrow> u32 \<times> u32 \<times> cstring \<Rightarrow> bool" where
  "agree_state s s' \<longleftrightarrow> agree (fst s) (fst s') \<and> (fst (snd s) = 0 \<longleftrightarrow> fst (snd s') = 0) \<and> strcaseeq (snd (snd s)) (snd (snd s'))"

lemma agree_char:
  assumes "c_tolower c = c_tolower d"
  shows "agree (uint32_of_char c) (uint32_of_char d)" "uint32_of_char c = 0 \<longleftrightarrow> uint32_of_char d = 0"
  using assms case_mask_char [of c] case_mask_char [of d] c_tolower_NUL_iff [of c] c_tolower_NUL_iff [of d]
  by (simp_all add: agree_def zero_char)

lemma agree_step: "agree_state s s' \<Longrightarrow> agree_state (checksum_step s) (checksum_step s')"
proof (cases s; cases s')
  fix x c k x' c' k' assume s: "s = (x, c, k)" "s' = (x', c', k')" and a: "agree_state s s'"
  then have k: "strcaseeq (tl k) (tl k')" "agree x x'" "c = 0 \<longleftrightarrow> c' = 0" "strcaseeq k k'"
    by (auto simp: agree_state_def strcaseeq_tl)
  note C = agree_char [OF strcaseeq_nth [OF k(1)], of 0]
  show "agree_state (checksum_step s) (checksum_step s')"
    using k C agree_or [OF agree_shift [OF k(2)] C(1)] agree_shift [OF k(2)]
    by (cases "c = 0") (simp_all add: s agree_state_def checksum_step_def Let_def)
qed

lemma checksum_cong: "strcaseeq a b \<Longrightarrow> key_checksum_of a = key_checksum_of b"
proof -
  assume e: "strcaseeq a b"
  then have "agree_state (uint32_of_char (cget a 0), uint32_of_char (cget a 0), a) (uint32_of_char (cget b 0), uint32_of_char (cget b 0), b)"
    using agree_char [OF strcaseeq_nth] by (simp add: agree_state_def)
  then have "agree_state (checksum_step (checksum_step (checksum_step (uint32_of_char (cget a 0), uint32_of_char (cget a 0), a))))
      (checksum_step (checksum_step (checksum_step (uint32_of_char (cget b 0), uint32_of_char (cget b 0), b))))"
    by (intro agree_step)
  then show ?thesis unfolding key_checksum_of_def Let_def agree_state_def agree_def by blast
qed

section \<open>The index\<close>

text \<open>The index holds the first and the last position of every hash that occurs, and marks those that do.\<close>

definition index_for :: "nat list \<Rightarrow> table \<Rightarrow> bool" where
  "index_for hs t \<longleftrightarrow> (\<forall>h<32. (bit (index_initialized t) h \<longleftrightarrow> h \<in> set hs) \<and>
     (h \<in> set hs \<longrightarrow>
        index_first t h < length hs \<and> hs ! index_first t h = h \<and> h \<notin> set (take (index_first t h) hs) \<and>
        index_last t h < length hs \<and> hs ! index_last t h = h \<and> h \<notin> set (drop (Suc (index_last t h)) hs)))"

definition entry_hash :: "table_entry \<Rightarrow> nat" where
  "entry_hash e = TABLE_HASH (the (e_key e))"

definition entry_ok :: "table_entry \<Rightarrow> bool" where
  "entry_ok e \<longleftrightarrow> (\<exists>k. e_key e = Some k \<and> key_checksum e = key_checksum_of k)"

definition table_ok :: "table \<Rightarrow> bool" where
  "table_ok t \<longleftrightarrow> list_all entry_ok (t_elts t) \<and> index_for (map entry_hash (t_elts t)) t"

lemma initialized_bit: "h < 32 \<Longrightarrow> table_is_initialized t h \<longleftrightarrow> bit (index_initialized t) h"
proof -
  assume h: "h < 32"
  have "and (index_initialized t) (push_bit h 1) = (if bit (index_initialized t) h then push_bit h 1 else 0)"
    using h by (intro bit_word_eqI) (auto simp: bit_and_iff bit_push_bit_iff bit_exp_iff)
  moreover have "push_bit h (1 :: u32) \<noteq> 0" using h by (auto simp: bit_eq_iff bit_push_bit_iff bit_exp_iff)
  ultimately show ?thesis by (simp add: table_is_initialized_def)
qed

lemma bit_set_initialized:
  "i < 32 \<Longrightarrow> h < 32 \<Longrightarrow> bit (index_initialized (table_set_initialized i t)) h \<longleftrightarrow> h = i \<or> bit (index_initialized t) h"
  by (auto simp: table_set_initialized_def bit_or_iff bit_push_bit_iff bit_exp_iff)

lemma set_initialized_simps [simp]:
  "index_first (table_set_initialized i t) = index_first t" "index_last (table_set_initialized i t) = index_last t"
  "t_elts (table_set_initialized i t) = t_elts t"
  by (simp_all add: table_set_initialized_def)

lemma initialized_upd [simp]:
  "table_is_initialized (t\<lparr>index_last := f\<rparr>) h = table_is_initialized t h"
  "table_is_initialized (t\<lparr>index_first := f\<rparr>) h = table_is_initialized t h"
  "table_is_initialized (t\<lparr>t_elts := es\<rparr>) h = table_is_initialized t h"
  by (simp_all add: table_is_initialized_def)

lemma index_for_elts [simp]:
  "index_for hs (t\<lparr>t_elts := es\<rparr>) = index_for hs t" "index_for hs (table_push e t) = index_for hs t"
  by (simp_all add: index_for_def table_push_def)

lemma index_for_Nil: "index_initialized t = 0 \<Longrightarrow> index_for [] t"
  by (simp add: index_for_def)

text \<open>One more entry at the end: the loop of \<open>table_reindex\<close> and every routine that adds.\<close>

lemma index_for_snoc:
  assumes "index_for hs t" "i < 32"
    and "\<And>h. h < 32 \<Longrightarrow> bit (index_initialized t') h \<longleftrightarrow> h = i \<or> bit (index_initialized t) h"
    and "index_last t' = (index_last t)(i := length hs)"
    and "index_first t' = (if bit (index_initialized t) i then index_first t else (index_first t)(i := length hs))"
  shows "index_for (hs @ [i]) t'"
proof -
  have "(bit (index_initialized t') h \<longleftrightarrow> h \<in> set (hs @ [i])) \<and> (h \<in> set (hs @ [i]) \<longrightarrow>
        index_first t' h < length (hs @ [i]) \<and> (hs @ [i]) ! index_first t' h = h \<and> h \<notin> set (take (index_first t' h) (hs @ [i])) \<and>
        index_last t' h < length (hs @ [i]) \<and> (hs @ [i]) ! index_last t' h = h \<and> h \<notin> set (drop (Suc (index_last t' h)) (hs @ [i])))"
    if h: "h < 32" for h
  proof -
    have H: "bit (index_initialized t) h \<longleftrightarrow> h \<in> set hs"
      "h \<in> set hs \<Longrightarrow> index_first t h < length hs \<and> hs ! index_first t h = h \<and> h \<notin> set (take (index_first t h) hs) \<and>
        index_last t h < length hs \<and> hs ! index_last t h = h \<and> h \<notin> set (drop (Suc (index_last t h)) hs)"
      using assms(1) h by (auto simp: index_for_def)
    show ?thesis
    proof (cases "h = i")
      case True
      then show ?thesis using H assms(3) [OF h] by (auto simp: assms(4,5) nth_append)
    next
      case False
      have l: "length hs \<le> Suc n \<or> Suc n < length hs" for n by auto
      from False show ?thesis using H assms(3) [OF h] by (auto simp: assms(4,5) nth_append)
    qed
  qed
  then show ?thesis by (auto simp: index_for_def)
qed

lemma index_entry_snoc:
  assumes "index_for hs t" "i < 32"
  shows "index_for (hs @ [i]) (index_entry i (length hs) t)"
  using assms(2)
  by (intro index_for_snoc [OF assms])
    (auto simp: index_entry_def Let_def initialized_bit bit_set_initialized)

lemma index_entry_elts [simp]: "t_elts (index_entry i n t) = t_elts t"
  by (simp add: index_entry_def Let_def)

lemma reindex_loop_elts [simp]: "t_elts (reindex_loop es i t) = t_elts t"
  by (induction es i t rule: reindex_loop.induct) simp_all

lemma reindex_loop_index:
  "index_for (map entry_hash ds) t \<Longrightarrow> index_for (map entry_hash (ds @ es)) (reindex_loop es (length ds) t)"
proof (induction es arbitrary: ds t)
  case (Cons e es)
  have "index_for (map entry_hash ds @ [entry_hash e]) (index_entry (TABLE_HASH (the (e_key e))) (length ds) t)"
    using index_entry_snoc [OF Cons.prems, of "entry_hash e"] by (simp add: entry_hash_def [of e])
  then show ?case using Cons.IH [of "ds @ [e]"] by simp
qed simp

lemma table_reindex_facts [simp]: "t_elts (table_reindex t) = t_elts t"
  by (simp add: table_reindex_def)

lemma table_reindex_index: "index_for (map entry_hash (t_elts t)) (table_reindex t)"
  unfolding table_reindex_def
  using reindex_loop_index [of "[]" "t\<lparr>index_initialized := 0\<rparr>" "t_elts t"] index_for_Nil by simp

lemma table_reindex_ok: "list_all entry_ok (t_elts t) \<Longrightarrow> table_ok (table_reindex t)"
  using table_reindex_index by (simp add: table_ok_def)

lemma table_make_ok [simp]: "table_ok (table_make any)"
  by (simp add: table_ok_def table_make_def index_for_Nil)

section \<open>Searching\<close>

text \<open>The table as an association list.\<close>

definition entries :: "table \<Rightarrow> (cstring \<times> cstring) list" where
  "entries t = map (\<lambda>e. (the (e_key e), e_val e)) (t_elts t)"

abbreviation for_key :: "cstring \<Rightarrow> cstring \<times> cstring \<Rightarrow> bool" where
  "for_key k \<equiv> \<lambda>p. strcaseeq (fst p) k"

lemma entry_matches_iff:
  "entry_ok e \<Longrightarrow> entry_matches k (key_checksum_of k) e \<longleftrightarrow> strcaseeq (the (e_key e)) k"
  by (auto simp: entry_ok_def entry_matches_def dest: checksum_cong)

lemma table_find_Some: "table_find k cs es i e = Some j \<Longrightarrow>
    i \<le> j \<and> j \<le> e \<and> entry_matches k cs (es ! j) \<and> (\<forall>m\<in>{i..<j}. \<not> entry_matches k cs (es ! m))"
proof (induction k cs es i e rule: table_find.induct)
  case (1 k cs es i e)
  from 1(2) have "(i \<le> e \<and> entry_matches k cs (es ! i) \<and> j = i) \<or>
      (i \<le> e \<and> \<not> entry_matches k cs (es ! i) \<and> table_find k cs es (Suc i) e = Some j)"
    by (subst (asm) table_find.simps) (auto split: if_splits)
  then show ?case
  proof
    assume r: "i \<le> e \<and> \<not> entry_matches k cs (es ! i) \<and> table_find k cs es (Suc i) e = Some j"
    then have "Suc i \<le> j \<and> j \<le> e \<and> entry_matches k cs (es ! j) \<and> (\<forall>m\<in>{Suc i..<j}. \<not> entry_matches k cs (es ! m))"
      using 1(1) by simp
    moreover have "m = i \<or> m \<in> {Suc i..<j}" if "m \<in> {i..<j}" for m using that by auto
    ultimately show ?thesis using r by (metis Suc_leD)
  qed auto
qed

lemma table_find_None: "table_find k cs es i e = None \<Longrightarrow> i \<le> m \<Longrightarrow> m \<le> e \<Longrightarrow> \<not> entry_matches k cs (es ! m)"
proof (induction k cs es i e rule: table_find.induct)
  case (1 k cs es i e)
  from 1(2) have "i > e \<or> (\<not> entry_matches k cs (es ! i) \<and> table_find k cs es (Suc i) e = None)"
    by (subst (asm) table_find.simps) (auto split: if_splits)
  then show ?case using 1 by (cases "m = i") auto
qed

text \<open>Where the entries of a key can be: only between the first and the last entry of its hash.\<close>

lemma table_search:
  assumes ok: "table_ok t" and "h = TABLE_HASH k"
  shows "\<not> table_is_initialized t h \<Longrightarrow> \<not> list_ex (for_key k) (entries t)"
    and "table_is_initialized t h \<Longrightarrow> index_last t h < nelts t"
    and "e \<in> set (take (index_first t h) (t_elts t)) \<Longrightarrow> table_is_initialized t h \<Longrightarrow> \<not> strcaseeq (the (e_key e)) k"
    and "e \<in> set (drop (Suc (index_last t h)) (t_elts t)) \<Longrightarrow> table_is_initialized t h \<Longrightarrow> \<not> strcaseeq (the (e_key e)) k"
proof -
  let ?hs = "map entry_hash (t_elts t)"
  have h: "h < 32" using assms(2) by simp
  have I: "table_is_initialized t h \<longleftrightarrow> h \<in> set ?hs"
    "h \<in> set ?hs \<Longrightarrow> h \<notin> set (take (index_first t h) ?hs) \<and> index_last t h < length ?hs \<and> h \<notin> set (drop (Suc (index_last t h)) ?hs)"
    using ok h by (simp_all add: table_ok_def index_for_def initialized_bit)
  have hash: "strcaseeq (the (e_key e)) k \<Longrightarrow> entry_hash e = h" for e
    using hash_cong assms(2) by (simp add: entry_hash_def)
  show "\<not> table_is_initialized t h \<Longrightarrow> \<not> list_ex (for_key k) (entries t)"
    using I(1) hash by (force simp: entries_def list_ex_iff)
  show "table_is_initialized t h \<Longrightarrow> index_last t h < nelts t" using I by simp
  show "e \<in> set (take (index_first t h) (t_elts t)) \<Longrightarrow> table_is_initialized t h \<Longrightarrow> \<not> strcaseeq (the (e_key e)) k"
    using I hash [of e] by (force simp: take_map)
  show "e \<in> set (drop (Suc (index_last t h)) (t_elts t)) \<Longrightarrow> table_is_initialized t h \<Longrightarrow> \<not> strcaseeq (the (e_key e)) k"
    using I hash [of e] by (force simp: drop_map)
qed

text \<open>What the search loop delivers on a table that is well-formed.\<close>

lemma table_find_split:
  assumes ok: "table_ok t" and init: "table_is_initialized t (TABLE_HASH k)"
    and f: "table_find k (key_checksum_of k) (t_elts t) (index_first t (TABLE_HASH k)) (index_last t (TABLE_HASH k)) = Some i"
  obtains pre x T R where "t_elts t = pre @ x # T @ R" "length pre = i" "strcaseeq (the (e_key x)) k"
    "\<forall>e\<in>set pre \<union> set R. \<not> strcaseeq (the (e_key e)) k" "index_last t (TABLE_HASH k) = length pre + length T"
proof -
  let ?h = "TABLE_HASH k" let ?es = "t_elts t" let ?l = "index_last t ?h"
  note S = table_search [OF ok refl, where k = k]
  note F = table_find_Some [OF f]
  have l: "?l < length ?es" using S(2) init by simp
  have ent: "j < length ?es \<Longrightarrow> entry_matches k (key_checksum_of k) (?es ! j) \<longleftrightarrow> strcaseeq (the (e_key (?es ! j))) k" for j
    using ok by (intro entry_matches_iff) (simp add: table_ok_def list_all_length)
  define T where "T = take (?l - i) (drop (Suc i) ?es)"
  have split: "?es = take i ?es @ ?es ! i # T @ drop (Suc ?l) ?es"
  proof -
    have "drop (Suc i) ?es = T @ drop (?l - i) (drop (Suc i) ?es)"
      unfolding T_def by (rule append_take_drop_id [symmetric])
    moreover have "drop (?l - i) (drop (Suc i) ?es) = drop (Suc ?l) ?es" using F by simp
    ultimately show ?thesis using id_take_nth_drop [of i ?es] F l by simp
  qed
  have pre: "\<not> strcaseeq (the (e_key (?es ! m))) k" if "m < i" for m
  proof (cases "m < index_first t ?h")
    case True
    then have "?es ! m \<in> set (take (index_first t ?h) ?es)" using that F l by (auto simp: in_set_conv_nth)
    then show ?thesis using S(3) init by blast
  next
    case False
    then show ?thesis using F ent [of m] that l by auto
  qed
  show ?thesis
  proof (rule that [OF split])
    show "length (take i ?es) = i" using F l by simp
    show "strcaseeq (the (e_key (?es ! i))) k" using F ent l by auto
    show "\<forall>e\<in>set (take i ?es) \<union> set (drop (Suc ?l) ?es). \<not> strcaseeq (the (e_key e)) k"
      using pre S(4) init by (auto simp: in_set_conv_nth)
    show "?l = length (take i ?es) + length T" using F l by (simp add: T_def)
  qed
qed

lemma table_find_none:
  assumes ok: "table_ok t" and init: "table_is_initialized t (TABLE_HASH k)"
    and f: "table_find k (key_checksum_of k) (t_elts t) (index_first t (TABLE_HASH k)) (index_last t (TABLE_HASH k)) = None"
  shows "\<not> list_ex (for_key k) (entries t)"
proof -
  note S = table_search [OF ok refl, where k = k]
  have "\<not> strcaseeq (the (e_key (t_elts t ! m))) k" if m: "m < nelts t" for m
  proof -
    have e: "entry_ok (t_elts t ! m)" using ok m by (simp add: table_ok_def list_all_length)
    consider "m < index_first t (TABLE_HASH k)" | "index_first t (TABLE_HASH k) \<le> m" "m \<le> index_last t (TABLE_HASH k)"
      | "Suc (index_last t (TABLE_HASH k)) \<le> m" by linarith
    then show ?thesis
    proof cases
      case 1
      then have "t_elts t ! m \<in> set (take (index_first t (TABLE_HASH k)) (t_elts t))" using m by (auto simp: in_set_conv_nth)
      then show ?thesis using S(3) init by blast
    next
      case 2
      then show ?thesis using table_find_None [OF f] entry_matches_iff [OF e] by blast
    next
      case 3
      then have "t_elts t ! m \<in> set (drop (Suc (index_last t (TABLE_HASH k))) (t_elts t))"
        using m by (auto simp: in_set_conv_nth intro!: exI [of _ "m - Suc (index_last t (TABLE_HASH k))"])
      then show ?thesis using S(4) init by blast
    qed
  qed
  then show ?thesis by (auto simp: entries_def list_ex_length)
qed

text \<open>\<open>apr_table_get\<close> finds the first entry with the key.\<close>

lemma table_get_entries:
  assumes "table_ok t"
  shows "table_get t (Some k) = map_option snd (find (for_key k) (entries t))"
proof (cases "table_is_initialized t (TABLE_HASH k)")
  case init: True
  show ?thesis
  proof (cases "table_find k (key_checksum_of k) (t_elts t) (index_first t (TABLE_HASH k)) (index_last t (TABLE_HASH k))")
    case None
    with table_find_none [OF assms init None] init show ?thesis
      by (auto simp: table_get_def find_None_iff list_ex_iff)
  next
    case (Some i)
    from table_find_split [OF assms init Some] obtain pre x T R where
      s: "t_elts t = pre @ x # T @ R" "length pre = i" "strcaseeq (the (e_key x)) k" "\<forall>e\<in>set pre \<union> set R. \<not> strcaseeq (the (e_key e)) k"
      by metis
    have find: "find (for_key k) (map (\<lambda>e. (the (e_key e), e_val e)) (pre @ ys)) = find (for_key k) (map (\<lambda>e. (the (e_key e), e_val e)) ys)" for ys
      using s(4) by (induction pre) auto
    have "find (for_key k) (entries t) = Some (the (e_key x), e_val x)"
      unfolding entries_def s(1) find using s(3) by simp
    moreover have "t_elts t ! i = x" using s(1,2) by (metis nth_append_length)
    ultimately show ?thesis using Some init by (simp add: table_get_def)
  qed
next
  case False
  then show ?thesis using table_search(1) [OF assms refl False] by (auto simp: table_get_def find_None_iff list_ex_iff)
qed

section \<open>The loops that remove entries\<close>

text \<open>
  The array is what is kept so far \<open>A\<close>, the gap \<open>G\<close>, what the loop still has to look at, and the
  rest \<open>R\<close>; \<open>dst\<close> is the start of the gap.
\<close>

lemma unset_loop_eq:
  assumes "length A + length G = i" "Suc e = i + length T"
  shows "\<exists>G'. unset_loop k cs e i (A @ G @ T @ R, n, length A) =
      (A @ filter (\<lambda>x. \<not> entry_matches k cs x) T @ G' @ R, n - length (filter (entry_matches k cs) T),
       length A + length (filter (\<lambda>x. \<not> entry_matches k cs x) T)) \<and>
    length G' = length G + length (filter (entry_matches k cs) T)"
  using assms
proof (induction T arbitrary: A G i n)
  case Nil
  then show ?case by (subst unset_loop.simps) auto
next
  case (Cons x T)
  have x: "(A @ G @ (x # T) @ R) ! i = x" using Cons.prems(1) by (simp add: nth_append)
  have le: "\<not> i > e" using Cons.prems(2) by simp
  show ?case
  proof (cases "entry_matches k cs x")
    case True
    have "unset_loop k cs e i (A @ G @ (x # T) @ R, n, length A) =
        unset_loop k cs e (Suc i) (A @ (G @ [x]) @ T @ R, n - 1, length A)"
      using le x True by (subst unset_loop.simps) simp
    then show ?thesis using Cons.IH [of A "G @ [x]" "Suc i" "n - 1"] Cons.prems True by auto
  next
    case False
    have "unset_loop k cs e i (A @ G @ (x # T) @ R, n, length A) =
        unset_loop k cs e (Suc i) ((A @ G @ x # T @ R)[length A := x], n, Suc (length A))"
      using le x False by (subst unset_loop.simps) simp
    moreover obtain G' where "(A @ G @ x # T @ R)[length A := x] = (A @ [x]) @ G' @ T @ R" "length G' = length G"
    proof (cases G)
      case Nil
      then show ?thesis using that [of "[]"] by simp
    next
      case (Cons g G0)
      then show ?thesis using that [of "G0 @ [x]"] by simp
    qed
    ultimately show ?thesis using Cons.IH [of "A @ [x]" G' "Suc i" n] Cons.prems False by auto
  qed
qed

lemma shift_tail_eq:
  assumes "length A + length G = i"
  shows "\<exists>G'. shift_tail i (i + length R) (length A) (A @ G @ R) = A @ R @ G' \<and> length G' = length G"
  using assms
proof (induction R arbitrary: A G i)
  case Nil
  then show ?case by (subst shift_tail.simps) auto
next
  case (Cons x R)
  have x: "(A @ G @ x # R) ! i = x" using Cons.prems by (simp add: nth_append)
  obtain G' where G': "(A @ G @ x # R)[length A := x] = (A @ [x]) @ G' @ R" "length G' = length G"
  proof (cases G)
    case Nil
    then show ?thesis using that [of "[]"] by simp
  next
    case (Cons g G0)
    then show ?thesis using that [of "G0 @ [x]"] by simp
  qed
  have "shift_tail i (i + length (x # R)) (length A) (A @ G @ x # R) =
      shift_tail (Suc i) (Suc i + length R) (length (A @ [x])) ((A @ [x]) @ G' @ R)"
    using x G'(1) by (subst shift_tail.simps) simp
  then show ?case using Cons.IH [of "A @ [x]" G' "Suc i"] Cons.prems G'(2) by auto
qed

text \<open>Both loops together leave the entries that do not match.\<close>

lemma remove_matches:
  assumes "unset_loop k cs e i (A @ G @ T @ R, n, length A) = (es, n', d)" "length A + length G = i" "Suc e = i + length T"
    "n = length (A @ T @ R)"
  shows "take n' (shift_tail (Suc e) (i + length T + length R) d es) = A @ filter (\<lambda>x. \<not> entry_matches k cs x) T @ R"
proof -
  let ?K = "filter (\<lambda>x. \<not> entry_matches k cs x) T"
  from unset_loop_eq [OF assms(2,3), of k cs R n] assms(1) obtain G' where
    u: "es = (A @ ?K) @ G' @ R" "n' = n - length (filter (entry_matches k cs) T)" "d = length (A @ ?K)"
      "length G' = length G + length (filter (entry_matches k cs) T)" by auto
  have sum: "length (filter (entry_matches k cs) T) + length ?K = length T" by (rule sum_length_filter_compl)
  have "length (A @ ?K) + length G' = Suc e" using u(4) sum assms(2,3) by simp
  from shift_tail_eq [OF this, of R] obtain H where
    "shift_tail (Suc e) (Suc e + length R) (length (A @ ?K)) ((A @ ?K) @ G' @ R) = (A @ ?K) @ R @ H" by blast
  moreover have "i + length T + length R = Suc e + length R" using assms(3) by simp
  moreover have "n' = length ((A @ ?K) @ R)" using u(2) sum assms(4) by simp
  ultimately show ?thesis by (simp add: u(1,3))
qed

text \<open>The loop of \<open>apr_table_set\<close> does nothing up to the first match, and then what the other loop does.\<close>

lemma set_loop_Some:
  assumes "unset_loop k cs e i (es, n, d) = (es', n', d')"
  shows "\<exists>m. set_loop k cs e i (es, n, Some d, must) = (es', n', Some d', m)"
  using assms
proof (induction k cs e i "(es, n, d)" arbitrary: es n d must rule: unset_loop.induct)
  case (1 k cs e i es n d)
  show ?case
  proof (cases "i > e")
    case True
    then show ?thesis using 1(3) by (simp add: unset_loop.simps set_loop.simps)
  next
    case i: False
    show ?thesis
    proof (cases "entry_matches k cs (es ! i)")
      case True
      then have "unset_loop k cs e (Suc i) (es, n - 1, d) = (es', n', d')"
        using 1(3) i by (subst (asm) unset_loop.simps) simp
      from 1(1) [OF i True this, of must] show ?thesis using i True by (subst set_loop.simps) simp
    next
      case False
      then have "unset_loop k cs e (Suc i) (es[d := es ! i], n, Suc d) = (es', n', d')"
        using 1(3) i by (subst (asm) unset_loop.simps) simp
      from 1(2) [OF i False this, of True] show ?thesis using i False by (subst set_loop.simps) simp
    qed
  qed
qed

lemma set_loop_None:
  "Suc e = length A + length T \<Longrightarrow> \<forall>x\<in>set T. \<not> entry_matches k cs x \<Longrightarrow>
    set_loop k cs e (length A) (A @ T @ R, n, None, must) = (A @ T @ R, n, None, must)"
proof (induction T arbitrary: A)
  case Nil
  then show ?case by (subst set_loop.simps) simp
next
  case (Cons x T)
  have "set_loop k cs e (length A) (A @ (x # T) @ R, n, None, must) =
      set_loop k cs e (length (A @ [x])) ((A @ [x]) @ T @ R, n, None, must)"
    using Cons.prems by (subst set_loop.simps) (simp add: nth_append)
  then show ?case using Cons.IH [of "A @ [x]"] Cons.prems by simp
qed

lemma set_loop_first:
  "Suc e = length A + length T1 + Suc m \<Longrightarrow> \<forall>x\<in>set T1. \<not> entry_matches k cs x \<Longrightarrow> entry_matches k cs y \<Longrightarrow>
    set_loop k cs e (length A) (A @ T1 @ y # R, n, None, must) =
    set_loop k cs e (Suc (length A + length T1)) (A @ T1 @ y # R, n - 1, Some (length A + length T1), must)"
proof (induction T1 arbitrary: A)
  case Nil
  then show ?case by (subst set_loop.simps) (simp add: nth_append)
next
  case (Cons x T1)
  have "set_loop k cs e (length A) (A @ (x # T1) @ y # R, n, None, must) =
      set_loop k cs e (length (A @ [x])) ((A @ [x]) @ T1 @ y # R, n, None, must)"
    using Cons.prems by (subst set_loop.simps) (simp add: nth_append)
  then show ?case using Cons.IH [of "A @ [x]"] Cons.prems by simp
qed

section \<open>What the operations do to the list of entries\<close>

fun al_set :: "cstring \<Rightarrow> cstring \<Rightarrow> (cstring \<times> cstring) list \<Rightarrow> (cstring \<times> cstring) list" where
  "al_set k v [] = [(k, v)]"
| "al_set k v (p # ps) =
     (if for_key k p then (fst p, v) # filter (\<lambda>q. \<not> for_key k q) ps else p # al_set k v ps)"

fun al_merge :: "cstring \<Rightarrow> cstring \<Rightarrow> (cstring \<times> cstring) list \<Rightarrow> (cstring \<times> cstring) list" where
  "al_merge k v [] = [(k, v)]"
| "al_merge k v (p # ps) = (if for_key k p then (fst p, snd p @ '', '' @ v) # ps else p # al_merge k v ps)"

abbreviation entry_pair :: "table_entry \<Rightarrow> cstring \<times> cstring" where
  "entry_pair \<equiv> \<lambda>e. (the (e_key e), e_val e)"

lemma al_set_absent: "\<not> list_ex (for_key k) ps \<Longrightarrow> al_set k v ps = ps @ [(k, v)]"
  by (induction ps) auto

lemma al_merge_absent: "\<not> list_ex (for_key k) ps \<Longrightarrow> al_merge k v ps = ps @ [(k, v)]"
  by (induction ps) auto

lemma al_set_at:
  "\<forall>p\<in>set ps. \<not> for_key k p \<Longrightarrow> for_key k q \<Longrightarrow>
    al_set k v (ps @ q # qs) = ps @ (fst q, v) # filter (\<lambda>p. \<not> for_key k p) qs"
  by (induction ps) auto

lemma al_merge_at:
  "\<forall>p\<in>set ps. \<not> for_key k p \<Longrightarrow> for_key k q \<Longrightarrow> al_merge k v (ps @ q # qs) = ps @ (fst q, snd q @ '', '' @ v) # qs"
  by (induction ps) auto

lemma new_entry_simps [simp]:
  "entry_ok (new_entry k v)" "entry_hash (new_entry k v) = TABLE_HASH k" "entry_pair (new_entry k v) = (k, v)"
  by (simp_all add: new_entry_def entry_ok_def entry_hash_def)

lemma entry_val_simps [simp]:
  "entry_ok (e\<lparr>e_val := v\<rparr>) = entry_ok e" "entry_hash (e\<lparr>e_val := v\<rparr>) = entry_hash e"
  "entry_matches k cs (e\<lparr>e_val := v\<rparr>) = entry_matches k cs e"
  by (simp_all add: entry_ok_def entry_hash_def entry_matches_def)

text \<open>Adding at the end, by the two ways the code has for it.\<close>

lemma table_add_ok:
  assumes "table_ok t"
  shows "table_ok (table_add t k v) \<and> entries (table_add t k v) = entries t @ [(k, v)]"
  using assms index_entry_snoc [of "map entry_hash (t_elts t)" t "TABLE_HASH k"]
  by (simp add: table_add_def table_ok_def entries_def table_push_def)

lemma add_new_elt_ok:
  assumes "table_ok t" "table_is_initialized t (TABLE_HASH k)"
  shows "table_ok (add_new_elt (TABLE_HASH k) k v t) \<and> entries (add_new_elt (TABLE_HASH k) k v t) = entries t @ [(k, v)]"
proof -
  have "index_for (map entry_hash (t_elts t) @ [TABLE_HASH k]) (t\<lparr>index_last := (index_last t)(TABLE_HASH k := nelts t)\<rparr>)"
    using assms by (intro index_for_snoc [of _ t]) (auto simp: table_ok_def initialized_bit)
  then show ?thesis using assms(1) by (simp add: add_new_elt_def table_ok_def entries_def table_push_def)
qed

lemma add_new_hash_ok:
  assumes "table_ok t" "\<not> table_is_initialized t (TABLE_HASH k)"
  shows "table_ok (add_new_elt (TABLE_HASH k) k v (index_new (TABLE_HASH k) t)) \<and>
    entries (add_new_elt (TABLE_HASH k) k v (index_new (TABLE_HASH k) t)) = entries t @ [(k, v)]"
proof -
  let ?t = "index_new (TABLE_HASH k) t"
  have "index_for (map entry_hash (t_elts t) @ [TABLE_HASH k]) (?t\<lparr>index_last := (index_last ?t)(TABLE_HASH k := nelts t)\<rparr>)"
    using assms by (intro index_for_snoc [of _ t]) (auto simp: table_ok_def initialized_bit index_new_def bit_set_initialized)
  moreover have "t_elts ?t = t_elts t" by (simp add: index_new_def)
  ultimately show ?thesis using assms(1) by (simp add: add_new_elt_def table_ok_def entries_def table_push_def)
qed

lemma matches_filter:
  "list_all entry_ok T \<Longrightarrow> filter (\<lambda>x. \<not> entry_matches k (key_checksum_of k) x) T = filter (\<lambda>x. \<not> strcaseeq (the (e_key x)) k) T"
  by (induction T) (auto simp: entry_matches_iff)

lemma filter_absent: "\<forall>e\<in>set R. \<not> strcaseeq (the (e_key e)) k \<Longrightarrow> filter (\<lambda>x. \<not> strcaseeq (the (e_key x)) k) R = R"
  by (induction R) auto

lemma entries_filter: "filter (\<lambda>p. \<not> for_key k p) (map entry_pair es) = map entry_pair (filter (\<lambda>x. \<not> strcaseeq (the (e_key x)) k) es)"
  by (induction es) auto

lemma table_unset_ok:
  assumes ok: "table_ok t"
  shows "table_ok (table_unset t k) \<and> entries (table_unset t k) = filter (\<lambda>p. \<not> for_key k p) (entries t)"
proof -
  let ?h = "TABLE_HASH k" let ?cs = "key_checksum_of k"
  have absent: ?thesis if "\<not> list_ex (for_key k) (entries t)" "table_unset t k = t"
    using that ok by (simp add: list_ex_iff filter_id_conv)
  show ?thesis
  proof (cases "table_is_initialized t ?h")
    case init: True
    show ?thesis
    proof (cases "table_find k ?cs (t_elts t) (index_first t ?h) (index_last t ?h)")
      case None
      with table_find_none [OF ok init None] init show ?thesis by (intro absent) (simp_all add: table_unset_def)
    next
      case (Some i)
      from table_find_split [OF ok init Some] obtain pre x T R where
        s: "t_elts t = pre @ x # T @ R" "length pre = i" "strcaseeq (the (e_key x)) k"
          "\<forall>e\<in>set pre \<union> set R. \<not> strcaseeq (the (e_key e)) k" "index_last t ?h = length pre + length T" by metis
      obtain es n d where u: "unset_loop k ?cs (index_last t ?h) (Suc i) (t_elts t, nelts t - 1, i) = (es, n, d)"
        using prod_cases3 by blast
      have "take n (shift_tail (Suc (index_last t ?h)) (nelts t) d es) = pre @ filter (\<lambda>x. \<not> entry_matches k ?cs x) T @ R"
        using remove_matches [of k ?cs "index_last t ?h" "Suc i" pre "[x]" T R "nelts t - 1" es n d] u s(1,2,5)
        by (simp add: add.assoc)
      moreover have eok: "list_all entry_ok (pre @ x # T @ R)" using ok s(1) by (simp add: table_ok_def)
      ultimately have "table_unset t k = table_reindex (t\<lparr>t_elts := pre @ filter (\<lambda>x. \<not> strcaseeq (the (e_key x)) k) T @ R\<rparr>)"
        using init Some u by (simp add: table_unset_def Let_def matches_filter)
      moreover have "pre @ filter (\<lambda>x. \<not> strcaseeq (the (e_key x)) k) T @ R = filter (\<lambda>x. \<not> strcaseeq (the (e_key x)) k) (t_elts t)"
        using s(3,4) by (simp add: s(1) filter_absent)
      moreover have "list_all entry_ok (filter (\<lambda>x. \<not> strcaseeq (the (e_key x)) k) (t_elts t))"
        using ok by (simp add: table_ok_def list_all_iff)
      ultimately show ?thesis using table_reindex_ok
        by (simp add: entries_def entries_filter)
    qed
  next
    case False
    then show ?thesis using table_search(1) [OF ok refl False] by (intro absent) (simp_all add: table_unset_def)
  qed
qed

lemma overwrite_entry_ok:
  assumes ok: "table_ok t" and s: "t_elts t = pre @ x # T @ R" "length pre = i" "strcaseeq (the (e_key x)) k"
    "\<forall>e\<in>set pre \<union> set R. \<not> strcaseeq (the (e_key e)) k" "l = length pre + length T"
  shows "table_ok (overwrite_entry k (key_checksum_of k) v i l t) \<and>
    entries (overwrite_entry k (key_checksum_of k) v i l t) = al_set k v (entries t)"
proof -
  let ?cs = "key_checksum_of k" let ?x = "x\<lparr>e_val := v\<rparr>"
  let ?K = "filter (\<lambda>x. \<not> strcaseeq (the (e_key x)) k)"
  have eok: "list_all entry_ok (pre @ x # T @ R)" using ok s(1) by (simp add: table_ok_def)
  then have m: "x \<in> set T \<Longrightarrow> entry_matches k ?cs x \<longleftrightarrow> strcaseeq (the (e_key x)) k" for x
    by (simp add: entry_matches_iff list_all_iff)
  have es0: "(t_elts t)[i := (t_elts t ! i)\<lparr>e_val := v\<rparr>] = (pre @ [?x]) @ T @ R"
    using s(1,2) by (auto simp: nth_append)
  have al: "al_set k v (entries t) = map entry_pair (pre @ ?x # ?K T @ R)"
  proof -
    have "al_set k v (entries t) = map entry_pair pre @ (the (e_key x), v) # filter (\<lambda>p. \<not> for_key k p) (map entry_pair (T @ R))"
      using al_set_at [of "map entry_pair pre" k "entry_pair x" v "map entry_pair (T @ R)"] s(3,4) by (simp add: entries_def s(1))
    also have "filter (\<lambda>p. \<not> for_key k p) (map entry_pair (T @ R)) = map entry_pair (?K T @ R)"
      unfolding entries_filter using s(4) by (simp add: filter_absent)
    finally show ?thesis by simp
  qed
  have okK: "list_all entry_ok (pre @ ?x # ?K T @ R)" using eok by (auto simp: list_all_iff)
  define L where "L = set_loop k ?cs l (Suc i) ((pre @ [?x]) @ T @ R, nelts t, None, False)"
  have O: "overwrite_entry k ?cs v i l t = (case L of (es, n, dst, must) \<Rightarrow>
             (case dst of
                None \<Rightarrow> if must then table_reindex (t\<lparr>t_elts := take n es\<rparr>) else t\<lparr>t_elts := take n es\<rparr>
              | Some d \<Rightarrow> table_reindex (t\<lparr>t_elts := take n (shift_tail (Suc l) (nelts t) d es)\<rparr>)))"
    by (simp only: overwrite_entry_def es0 L_def Let_def)
  have nT: "nelts t = length ((pre @ [?x]) @ T @ R)" by (simp add: s(1))
  show ?thesis
  proof (cases "list_ex (\<lambda>e. strcaseeq (the (e_key e)) k) T")
    case False
    then have K: "?K T = T" by (simp add: list_ex_iff filter_id_conv)
    have "L = ((pre @ [?x]) @ T @ R, nelts t, None, False)"
      using set_loop_None [of l "pre @ [?x]" T k ?cs R "nelts t" False] False m s(2,5) by (auto simp: L_def list_ex_iff)
    then have "overwrite_entry k ?cs v i l t = t\<lparr>t_elts := pre @ ?x # T @ R\<rparr>" using nT by (simp add: O)
    moreover have "table_ok (t\<lparr>t_elts := pre @ ?x # T @ R\<rparr>)" using ok by (simp add: table_ok_def s(1))
    ultimately show ?thesis using al K by (simp add: entries_def)
  next
    case True
    then have "\<exists>e\<in>set T. strcaseeq (the (e_key e)) k" by (simp only: list_ex_iff)
    from split_list_first_prop [OF this] obtain T1 y T2 where T: "T = T1 @ y # T2" "strcaseeq (the (e_key y)) k" "\<forall>e\<in>set T1. \<not> strcaseeq (the (e_key e)) k"
      by blast
    let ?A = "pre @ ?x # T1"
    obtain es n d where u: "unset_loop k ?cs l (Suc (length ?A)) (?A @ [y] @ T2 @ R, nelts t - 1, length ?A) = (es, n, d)"
      using prod_cases3 by blast
    have "L = set_loop k ?cs l (Suc (length ?A)) (?A @ [y] @ T2 @ R, nelts t - 1, Some (length ?A), False)"
    proof -
      have e: "(pre @ [?x]) @ T @ R = (pre @ [?x]) @ T1 @ y # T2 @ R" "?A @ [y] @ T2 @ R = (pre @ [?x]) @ T1 @ y # T2 @ R"
        "Suc i = length (pre @ [?x])" "length ?A = length (pre @ [?x]) + length T1"
        "Suc l = length (pre @ [?x]) + length T1 + Suc (length T2)"
        using T(1) s(2,5) by simp_all
      have "\<forall>x\<in>set T1. \<not> entry_matches k ?cs x" "entry_matches k ?cs y" using m T by simp_all
      from set_loop_first [OF e(5) this] show ?thesis unfolding L_def e(1-4) .
    qed
    then obtain mr where "L = (es, n, Some d, mr)" using set_loop_Some [OF u, of False] by auto
    then have "overwrite_entry k ?cs v i l t = table_reindex (t\<lparr>t_elts := take n (shift_tail (Suc l) (nelts t) d es)\<rparr>)"
      by (simp add: O)
    also have "take n (shift_tail (Suc l) (nelts t) d es) = ?A @ filter (\<lambda>x. \<not> entry_matches k ?cs x) T2 @ R"
    proof -
      have c: "length ?A + length [y] = Suc (length ?A)" "Suc l = Suc (length ?A) + length T2"
        "nelts t - 1 = length (?A @ T2 @ R)" "nelts t = Suc (length ?A) + length T2 + length R"
        using T(1) s(1,5) by simp_all
      show ?thesis using remove_matches [OF u c(1-3)] by (simp only: c(4))
    qed
    also have "?A @ filter (\<lambda>x. \<not> entry_matches k ?cs x) T2 @ R = pre @ ?x # ?K T @ R"
    proof -
      have "list_all entry_ok T2" using eok T(1) by simp
      then show ?thesis using T by (simp add: matches_filter filter_absent)
    qed
    finally show ?thesis using table_reindex_ok [of "t\<lparr>t_elts := pre @ ?x # ?K T @ R\<rparr>"] okK al
      by (simp add: entries_def)
  qed
qed

lemma table_set_ok:
  assumes ok: "table_ok t"
  shows "table_ok (table_set t k v) \<and> entries (table_set t k v) = al_set k v (entries t)"
proof (cases "table_is_initialized t (TABLE_HASH k)")
  case init: True
  show ?thesis
  proof (cases "table_find k (key_checksum_of k) (t_elts t) (index_first t (TABLE_HASH k)) (index_last t (TABLE_HASH k))")
    case None
    with table_find_none [OF ok init None] init add_new_elt_ok [OF ok init] show ?thesis
      by (simp add: table_set_def al_set_absent)
  next
    case (Some i)
    from table_find_split [OF ok init Some] obtain pre x T R where
      s: "t_elts t = pre @ x # T @ R" "length pre = i" "strcaseeq (the (e_key x)) k"
        "\<forall>e\<in>set pre \<union> set R. \<not> strcaseeq (the (e_key e)) k" "index_last t (TABLE_HASH k) = length pre + length T" by metis
    show ?thesis using overwrite_entry_ok [OF ok s] Some init by (simp add: table_set_def)
  qed
next
  case False
  with table_search(1) [OF ok refl False] add_new_hash_ok [OF ok False] show ?thesis by (simp add: table_set_def al_set_absent Let_def)
qed

lemma table_merge_ok:
  assumes ok: "table_ok t"
  shows "table_ok (table_merge t k v) \<and> entries (table_merge t k v) = al_merge k v (entries t)"
proof (cases "table_is_initialized t (TABLE_HASH k)")
  case init: True
  show ?thesis
  proof (cases "table_find k (key_checksum_of k) (t_elts t) (index_first t (TABLE_HASH k)) (index_last t (TABLE_HASH k))")
    case None
    with table_find_none [OF ok init None] init add_new_elt_ok [OF ok init] show ?thesis
      by (simp add: table_merge_def al_merge_absent)
  next
    case (Some i)
    from table_find_split [OF ok init Some] obtain pre x T R where
      s: "t_elts t = pre @ x # T @ R" "length pre = i" "strcaseeq (the (e_key x)) k"
        "\<forall>e\<in>set pre \<union> set R. \<not> strcaseeq (the (e_key e)) k" by metis
    have "(t_elts t)[i := (t_elts t ! i)\<lparr>e_val := e_val (t_elts t ! i) @ '', '' @ v\<rparr>] = pre @ x\<lparr>e_val := e_val x @ '', '' @ v\<rparr> # T @ R"
      using s(1,2) by (auto simp: nth_append)
    then have "table_merge t k v = t\<lparr>t_elts := pre @ x\<lparr>e_val := e_val x @ '', '' @ v\<rparr> # T @ R\<rparr>"
      using Some init by (simp add: table_merge_def)
    then show ?thesis
      using ok s(3,4) al_merge_at [of "map entry_pair pre" k "entry_pair x" v "map entry_pair (T @ R)"]
      by (simp add: table_ok_def entries_def s(1))
  qed
next
  case False
  with table_search(1) [OF ok refl False] add_new_hash_ok [OF ok False] show ?thesis by (simp add: table_merge_def al_merge_absent Let_def)
qed

lemma table_overlay_ok:
  "table_ok t \<Longrightarrow> table_ok b \<Longrightarrow> table_ok (table_overlay any t b) \<and> entries (table_overlay any t b) = entries t @ entries b"
  by (auto simp: table_overlay_def entries_def table_ok_def [of t] table_ok_def [of b] intro!: table_reindex_ok)

lemma table_clear_ok: "table_ok (table_clear t) \<and> entries (table_clear t) = []"
  by (simp add: table_clear_def table_ok_def entries_def index_for_Nil)

lemma table_clone_ok: "table_ok t \<Longrightarrow> table_ok (table_clone any t) \<and> entries (table_clone any t) = entries t"
proof -
  have "table_ok u \<Longrightarrow> table_ok (foldl (\<lambda>t' e. table_add t' (the (e_key e)) (e_val e)) u es) \<and>
      entries (foldl (\<lambda>t' e. table_add t' (the (e_key e)) (e_val e)) u es) = entries u @ map entry_pair es" for u es
  proof (induction es arbitrary: u)
    case (Cons e es)
    then show ?case using table_add_ok [OF Cons.prems] by simp
  qed simp
  from this [of "table_make any" "t_elts t"] show ?thesis
    by (simp add: table_clone_def) (simp add: entries_def table_make_def)
qed

end
