(* ===== verification/Apr_Table_Sort.thy ===== *)
theory Apr_Table_Sort
  imports Apr_Table "HOL-Library.List_Lexorder"
begin

text \<open>
  The second half of \<open>srclib/apr/tables/apr_tables.c\<close>: the stable mergesort over pointers to
  entries, \<open>apr_table_compress\<close>, which merges or overwrites the entries of equal keys, and
  \<open>apr_table_overlap\<close>. A pointer to an entry is its index in the array.
\<close>

section \<open>Comparing keys\<close>

text \<open>\<open>strcasecmp\<close>: the difference of the first characters that differ, in lower case.\<close>

fun strcasecmp :: "cstring \<Rightarrow> cstring \<Rightarrow> int" where
  "strcasecmp [] [] = 0"
| "strcasecmp [] (d # t) = - int (ccode (c_tolower d))"
| "strcasecmp (c # s) [] = int (ccode (c_tolower c))"
| "strcasecmp (c # s) (d # t) =
     (if c_tolower c = c_tolower d then strcasecmp s t else int (ccode (c_tolower c)) - int (ccode (c_tolower d)))"

section \<open>The mergesort\<close>

text \<open>\<open>cmp\<close> compares the keys of two pointers. First pass: pairs.\<close>

fun sort_pairs :: "(nat \<Rightarrow> nat \<Rightarrow> int) \<Rightarrow> nat list \<Rightarrow> nat list" where
  "sort_pairs cmp (x # y # values) = (if cmp x y > 0 then y # x # sort_pairs cmp values else x # y # sort_pairs cmp values)"
| "sort_pairs cmp values = values"

text \<open>The inner loop: what it writes at \<open>dst\<close>. A block is never entered behind its end.\<close>

function merge_blocks :: "(nat \<Rightarrow> nat \<Rightarrow> int) \<Rightarrow> nat list \<Rightarrow> nat \<Rightarrow> nat \<Rightarrow> nat \<Rightarrow> nat \<Rightarrow> nat list" where
  "merge_blocks cmp values block1_start block1_end block2_start block2_end =
     (if block1_start \<ge> block1_end then map ((!) values) [block2_start..<block2_end]
      else if block2_start \<ge> block2_end then map ((!) values) [block1_start..<block1_end]
      else if cmp (values ! block1_start) (values ! block2_start) > 0
           then values ! block2_start # merge_blocks cmp values block1_start block1_end (Suc block2_start) block2_end
           else values ! block1_start # merge_blocks cmp values (Suc block1_start) block1_end block2_start block2_end)"
  by pat_completeness auto

termination merge_blocks by (relation "measure (\<lambda>(_, _, s1, e1, s2, e2). (e1 - s1) + (e2 - s2))") auto

declare merge_blocks.simps [simp del]

text \<open>One pass: \<open>out\<close> is what \<open>values_tmp\<close> holds up to \<open>dst\<close>. The size of the blocks is positive.\<close>

function merge_pass :: "(nat \<Rightarrow> nat \<Rightarrow> int) \<Rightarrow> nat \<Rightarrow> nat \<Rightarrow> nat list \<Rightarrow> nat \<Rightarrow> nat list \<Rightarrow> nat list" where
  "merge_pass cmp blocksize n values next_start out =
     (if next_start + blocksize < n \<and> 0 < blocksize then
        (let block2_start = next_start + blocksize;
             block2_end = (if block2_start + blocksize > n then n else block2_start + blocksize)
         in merge_pass cmp blocksize n values (next_start + (blocksize + blocksize))
              (out @ merge_blocks cmp values next_start block2_start block2_start block2_end))
      else out @ map ((!) values) [length out..<n])"
  by pat_completeness auto

termination merge_pass by (relation "measure (\<lambda>(_, b, n, _, s, _). n - s)") auto

declare merge_pass.simps [simp del]

function sort_loop :: "(nat \<Rightarrow> nat \<Rightarrow> int) \<Rightarrow> nat \<Rightarrow> nat \<Rightarrow> nat list \<Rightarrow> nat list" where
  "sort_loop cmp n blocksize values =
     (if blocksize < n \<and> 0 < blocksize
      then sort_loop cmp n (blocksize + blocksize) (merge_pass cmp blocksize n values 0 []) else values)"
  by pat_completeness auto

termination sort_loop by (relation "measure (\<lambda>(_, n, b, _). n - b)") auto

declare sort_loop.simps [simp del]

definition table_mergesort :: "(nat \<Rightarrow> nat \<Rightarrow> int) \<Rightarrow> nat list \<Rightarrow> nat list" where
  "table_mergesort cmp values = sort_loop cmp (length values) 2 (sort_pairs cmp values)"

section \<open>Compressing\<close>

datatype overlap_flags = APR_OVERLAP_TABLES_SET | APR_OVERLAP_TABLES_MERGE

definition same_key :: "table_entry list \<Rightarrow> nat \<Rightarrow> nat \<Rightarrow> bool" where
  "same_key es i j \<longleftrightarrow> key_checksum (es ! i) = key_checksum (es ! j) \<and>
     strcasecmp (the (e_key (es ! i))) (the (e_key (es ! j))) = 0"

fun join_values :: "cstring list \<Rightarrow> cstring" where
  "join_values [] = []"
| "join_values [v] = v"
| "join_values (v # vs) = v @ '', '' @ join_values vs"

definition new_value :: "overlap_flags \<Rightarrow> cstring list \<Rightarrow> cstring" where
  "new_value flags vs = (if flags = APR_OVERLAP_TABLES_MERGE then join_values vs else List.last vs)"

definition drop_key :: "nat \<Rightarrow> table_entry list \<Rightarrow> table_entry list" where
  "drop_key i es = es[i := (es ! i)\<lparr>e_key := None\<rparr>]"

text \<open>The loop over the sorted pointers: \<open>last_elt\<close> and those from \<open>sort_next\<close> on. Whether duplicates were found.\<close>

function dup_loop :: "overlap_flags \<Rightarrow> nat \<Rightarrow> nat list \<Rightarrow> table_entry list \<Rightarrow> bool \<times> table_entry list" where
  "dup_loop flags last_elt [] es = (False, es)"
| "dup_loop flags last_elt (x # xs) es =
     (if same_key es x last_elt then
        (let more_dups = takeWhile (\<lambda>d. same_key es d last_elt) xs;
             vs = map (\<lambda>i. e_val (es ! i)) (last_elt # x # more_dups);
             es1 = es[last_elt := (es ! last_elt)\<lparr>e_val := new_value flags vs\<rparr>]
         in (True, snd (dup_loop flags last_elt (drop (length more_dups) xs) (foldl (\<lambda>es i. drop_key i es) es1 (x # more_dups)))))
      else dup_loop flags x xs es)"
  by pat_completeness auto

termination dup_loop by (relation "measure (\<lambda>(_, _, xs, _). length xs)") auto

definition table_compress :: "overlap_flags \<Rightarrow> table \<Rightarrow> table" where
  "table_compress flags t =
     (if nelts t \<le> 1 then t
      else
        (let sorted = table_mergesort (\<lambda>i j. strcasecmp (the (e_key (t_elts t ! i))) (the (e_key (t_elts t ! j)))) [0..<nelts t];
             r = dup_loop flags (hd sorted) (tl sorted) (t_elts t);
             es = (if fst r then filter (\<lambda>e. e_key e \<noteq> None) (snd r) else snd r)
         in table_reindex (t\<lparr>t_elts := es\<rparr>)))"

text \<open>\<open>apr_table_cat\<close>: the loop over the 32 hashes sets each of them on its own.\<close>

definition table_cat :: "table \<Rightarrow> table \<Rightarrow> table" where
  "table_cat t s =
     (let n = nelts t; t1 = t\<lparr>t_elts := t_elts t @ t_elts s\<rparr>
      in if n = 0 then
           t1\<lparr>index_first := (\<lambda>idx. if idx < TABLE_HASH_SIZE then index_first s idx else index_first t idx),
              index_last := (\<lambda>idx. if idx < TABLE_HASH_SIZE then index_last s idx else index_last t idx),
              index_initialized := index_initialized s\<rparr>
         else
           t1\<lparr>index_last := (\<lambda>idx. if idx < TABLE_HASH_SIZE \<and> table_is_initialized s idx then index_last s idx + n
                                 else index_last t idx),
              index_first := (\<lambda>idx. if idx < TABLE_HASH_SIZE \<and> table_is_initialized s idx \<and> \<not> table_is_initialized t idx
                                  then index_first s idx + n else index_first t idx),
              index_initialized := or (index_initialized t) (index_initialized s)\<rparr>)"

definition table_overlap :: "overlap_flags \<Rightarrow> table \<Rightarrow> table \<Rightarrow> table" where
  "table_overlap flags a b = (if nelts a + nelts b = 0 then a else table_compress flags (table_cat a b))"

section \<open>The mergesort sorts and is stable\<close>

text \<open>\<open>strcasecmp\<close> orders the strings by the codes of their letters.\<close>

definition key_code :: "cstring \<Rightarrow> nat list" where
  "key_code k = map (\<lambda>c. ccode (c_tolower c)) k"

lemma code_pos: "c \<noteq> NUL \<Longrightarrow> 0 < ccode (c_tolower c)"
proof -
  assume "c \<noteq> NUL"
  then have "ccode (c_tolower c) \<noteq> ccode NUL" by simp
  then show ?thesis by (simp add: ccode_def)
qed

lemma strcasecmp_le: "nul_free a \<Longrightarrow> nul_free b \<Longrightarrow> strcasecmp a b \<le> 0 \<longleftrightarrow> key_code a \<le> key_code b"
  by (induction a b rule: strcasecmp.induct) (auto simp: key_code_def dest: code_pos intro: le_neq_implies_less)

lemma strcasecmp_zero: "nul_free a \<Longrightarrow> nul_free b \<Longrightarrow> strcasecmp a b = 0 \<longleftrightarrow> strcaseeq a b"
  by (induction a b rule: strcasecmp.induct) (auto simp: strcaseeq_def dest: code_pos)

lemma key_code_eq: "key_code a = key_code b \<longleftrightarrow> strcaseeq a b"
proof -
  have "key_code k = map ccode (map c_tolower k)" for k by (simp add: key_code_def)
  then show ?thesis unfolding strcaseeq_def by (simp only:) (rule inj_map_eq_map, simp add: inj_def)
qed

text \<open>Merging two lists, on a tie from the first.\<close>

fun merge_by :: "('a \<Rightarrow> 'k :: linorder) \<Rightarrow> 'a list \<Rightarrow> 'a list \<Rightarrow> 'a list" where
  "merge_by f [] ys = ys"
| "merge_by f xs [] = xs"
| "merge_by f (x # xs) (y # ys) = (if f x > f y then y # merge_by f (x # xs) ys else x # merge_by f xs (y # ys))"

lemma mset_merge_by [simp]: "mset (merge_by f xs ys) = mset xs + mset ys"
  by (induction f xs ys rule: merge_by.induct) auto

lemma set_merge_by [simp]: "set (merge_by f xs ys) = set xs \<union> set ys"
  by (induction f xs ys rule: merge_by.induct) auto

lemma length_merge_by [simp]: "length (merge_by f xs ys) = length xs + length ys"
  by (induction f xs ys rule: merge_by.induct) auto

lemma sorted_merge_by: "sorted (map f xs) \<Longrightarrow> sorted (map f ys) \<Longrightarrow> sorted (map f (merge_by f xs ys))"
  by (induction f xs ys rule: merge_by.induct) (auto simp: not_less)

lemma filter_merge_by:
  "sorted (map f xs) \<Longrightarrow> sorted (map f ys) \<Longrightarrow>
    filter (\<lambda>x. f x = k) (merge_by f xs ys) = filter (\<lambda>x. f x = k) xs @ filter (\<lambda>x. f x = k) ys"
proof (induction f xs ys rule: merge_by.induct)
  case (3 f x xs y ys)
  show ?case
  proof (cases "f x > f y")
    case True
    then have "filter (\<lambda>x. f x = f y) (x # xs) = []" using 3(3) by (auto simp: filter_empty_conv)
    then show ?thesis using 3 True by (cases "f y = k") auto
  next
    case False
    then show ?thesis using 3 by auto
  qed
qed auto

lemma merge_sorted: "merge_by f (sort_key f xs) (sort_key f ys) = sort_key f (xs @ ys)"
proof (rule sym, rule properties_for_sort_key)
  show "filter (\<lambda>x. f k = f x) (merge_by f (sort_key f xs) (sort_key f ys)) = filter (\<lambda>x. f k = f x) (xs @ ys)" for k
    using filter_merge_by [of f "sort_key f xs" "sort_key f ys" "f k"] sort_key_stable [of f _ ] by (simp add: eq_commute [of "f k"])
qed (simp_all add: sorted_merge_by)

text \<open>The blocks of the size \<open>b\<close>, each sorted: what a pass starts from.\<close>

function sort_blocks :: "('a \<Rightarrow> 'k :: linorder) \<Rightarrow> nat \<Rightarrow> 'a list \<Rightarrow> 'a list" where
  "sort_blocks f b xs = (if length xs \<le> b \<or> b = 0 then sort_key f xs else sort_key f (take b xs) @ sort_blocks f b (drop b xs))"
  by pat_completeness auto

termination sort_blocks by (relation "measure (\<lambda>(_, _, xs). length xs)") auto

declare sort_blocks.simps [simp del]

function pass_list :: "('a \<Rightarrow> 'k :: linorder) \<Rightarrow> nat \<Rightarrow> 'a list \<Rightarrow> 'a list" where
  "pass_list f b xs =
     (if length xs \<le> b \<or> b = 0 then xs
      else merge_by f (take b xs) (take b (drop b xs)) @ pass_list f b (drop (b + b) xs))"
  by pat_completeness auto

termination pass_list by (relation "measure (\<lambda>(_, _, xs). length xs)") auto

declare pass_list.simps [simp del]

lemma length_sort_blocks [simp]: "length (sort_blocks f b xs) = length xs"
  by (induction f b xs rule: sort_blocks.induct) (subst sort_blocks.simps, auto)

lemma pass_sort_blocks: "0 < b \<Longrightarrow> pass_list f b (sort_blocks f b xs) = sort_blocks f (b + b) xs"
proof (induction "length xs" arbitrary: xs rule: less_induct)
  case less
  show ?case
  proof (cases "length xs \<le> b")
    case True
    then show ?thesis by (simp add: pass_list.simps sort_blocks.simps [of f b xs] sort_blocks.simps [of f "b + b" xs])
  next
    case False
    define ys where "ys = drop b xs"
    have s1: "sort_blocks f b xs = sort_key f (take b xs) @ sort_blocks f b ys"
      using False less.prems by (subst sort_blocks.simps) (simp add: ys_def)
    have ne: "ys \<noteq> []" using False by (simp add: ys_def)
    have p: "pass_list f b (sort_blocks f b xs) =
        merge_by f (sort_key f (take b xs)) (take b (sort_blocks f b ys)) @ pass_list f b (drop b (sort_blocks f b ys))"
      using False less.prems ne by (subst pass_list.simps) (simp add: s1)
    show ?thesis
    proof (cases "length ys \<le> b")
      case True
      then have "sort_blocks f b ys = sort_key f ys" by (subst sort_blocks.simps) simp
      then have "pass_list f b (sort_blocks f b xs) = sort_key f (take b xs @ ys)"
        using p True by (simp add: merge_sorted pass_list.simps)
      also have "\<dots> = sort_blocks f (b + b) xs"
      proof -
        have "length xs \<le> b + b" "take b xs @ ys = xs" using True by (simp_all add: ys_def)
        then show ?thesis by (subst sort_blocks.simps) simp
      qed
      finally show ?thesis .
    next
      case F2: False
      have s2: "sort_blocks f b ys = sort_key f (take b ys) @ sort_blocks f b (drop b ys)"
        using F2 less.prems by (subst sort_blocks.simps) simp
      have "pass_list f b (sort_blocks f b xs) = sort_key f (take b xs @ take b ys) @ pass_list f b (sort_blocks f b (drop b ys))"
        using p F2 by (simp add: s2 merge_sorted)
      also have "pass_list f b (sort_blocks f b (drop b ys)) = sort_blocks f (b + b) (drop b ys)"
        using False less.prems by (intro less.hyps) (auto simp: ys_def)
      also have "sort_key f (take b xs @ take b ys) @ sort_blocks f (b + b) (drop b ys) = sort_blocks f (b + b) xs"
      proof -
        have "\<not> length xs \<le> b + b" using F2 by (simp add: ys_def)
        then show ?thesis using less.prems by (subst (2) sort_blocks.simps) (simp add: ys_def take_add)
      qed
      finally show ?thesis .
    qed
  qed
qed

text \<open>The loops with indices do the same.\<close>

lemma map_nth_slice: "e \<le> length xs \<Longrightarrow> map ((!) xs) [s..<e] = take (e - s) (drop s xs)"
  by (rule nth_equalityI) auto

lemma merge_blocks_eq:
  assumes cmp: "\<And>x y. x \<in> set vals \<Longrightarrow> y \<in> set vals \<Longrightarrow> cmp x y > 0 \<longleftrightarrow> f x > f y"
  shows "e1 \<le> length vals \<Longrightarrow> e2 \<le> length vals \<Longrightarrow>
    merge_blocks cmp vals s1 e1 s2 e2 = merge_by f (map ((!) vals) [s1..<e1]) (map ((!) vals) [s2..<e2])"
proof (induction "(e1 - s1) + (e2 - s2)" arbitrary: s1 s2 rule: less_induct)
  case less
  show ?case
  proof (cases "s1 < e1 \<and> s2 < e2")
    case True
    then have "vals ! s1 \<in> set vals" "vals ! s2 \<in> set vals" using less.prems by simp_all
    then have c: "cmp (vals ! s1) (vals ! s2) > 0 \<longleftrightarrow> f (vals ! s1) > f (vals ! s2)" by (rule cmp)
    have u: "[s1..<e1] = s1 # [Suc s1..<e1]" "[s2..<e2] = s2 # [Suc s2..<e2]" using True by (simp_all add: upt_conv_Cons)
    have h1: "merge_blocks cmp vals (Suc s1) e1 s2 e2 = merge_by f (map ((!) vals) [Suc s1..<e1]) (map ((!) vals) [s2..<e2])"
      and h2: "merge_blocks cmp vals s1 e1 (Suc s2) e2 = merge_by f (map ((!) vals) [s1..<e1]) (map ((!) vals) [Suc s2..<e2])"
      using True less.prems by (auto intro!: less.hyps)
    show ?thesis
      using True c h1 h2 by (subst merge_blocks.simps) (simp add: u)
  next
    case False
    have m: "merge_by f xs [] = xs" for xs by (cases xs) simp_all
    from False show ?thesis by (subst merge_blocks.simps) (auto simp: m)
  qed
qed

lemma merge_pass_eq:
  assumes cmp: "\<And>x y. x \<in> set vals \<Longrightarrow> y \<in> set vals \<Longrightarrow> cmp x y > 0 \<longleftrightarrow> f x > f y" and b: "0 < b" and n: "n = length vals"
  shows "length out = min s n \<Longrightarrow> merge_pass cmp b n vals s out = out @ pass_list f b (drop s vals)"
proof (induction "n - s" arbitrary: s out rule: less_induct)
  case less
  show ?case
  proof (cases "s + b < n")
    case True
    define e where "e = min (s + b + b) n"
    have "merge_blocks cmp vals s (s + b) (s + b) e = merge_by f (map ((!) vals) [s..<s + b]) (map ((!) vals) [s + b..<e])"
      using True n by (intro merge_blocks_eq cmp) (auto simp: e_def)
    also have "\<dots> = merge_by f (take b (drop s vals)) (take b (drop b (drop s vals)))"
      using True n by (simp add: map_nth_slice e_def) (simp add: add.commute min_def)
    finally have m: "merge_blocks cmp vals s (s + b) (s + b) e = \<dots>" .
    have "merge_pass cmp b n vals s out = merge_pass cmp b n vals (s + (b + b)) (out @ merge_blocks cmp vals s (s + b) (s + b) e)"
      using True b by (subst merge_pass.simps) (simp add: Let_def e_def min_def)
    also have "\<dots> = (out @ merge_blocks cmp vals s (s + b) (s + b) e) @ pass_list f b (drop (s + (b + b)) vals)"
      using True b less.prems n by (intro less.hyps) (auto simp: m)
    also have "\<dots> = out @ pass_list f b (drop s vals)"
    proof -
      have "\<not> length (drop s vals) \<le> b" using True n by simp
      then have "pass_list f b (drop s vals) = merge_by f (take b (drop s vals)) (take b (drop b (drop s vals))) @
          pass_list f b (drop (s + (b + b)) vals)"
        using b by (subst pass_list.simps) (simp add: add.commute add.left_commute)
      then show ?thesis by (simp only: m append_assoc)
    qed
    finally show ?thesis .
  next
    case False
    then have "merge_pass cmp b n vals s out = out @ map ((!) vals) [length out..<n]" by (subst merge_pass.simps) simp
    also have "map ((!) vals) [length out..<n] = drop s vals" using less.prems n by (simp add: map_nth_slice min_def)
    also have "drop s vals = pass_list f b (drop s vals)" using False n by (subst pass_list.simps) auto
    finally show ?thesis .
  qed
qed

lemma sort_pairs_eq:
  assumes "\<And>x y. x \<in> set vals \<Longrightarrow> y \<in> set vals \<Longrightarrow> cmp x y > 0 \<longleftrightarrow> f x > f y"
  shows "sort_pairs cmp vals = sort_blocks f 2 vals"
  using assms
proof (induction cmp vals rule: sort_pairs.induct)
  case (1 cmp x y vals)
  have "sort_blocks f 2 (x # y # vals) = sort_key f [x, y] @ sort_blocks f 2 vals"
    by (subst sort_blocks.simps) (auto simp: sort_blocks.simps [of f 2 "[]"])
  moreover have "cmp x y > 0 \<longleftrightarrow> f x > f y" using 1(3) by simp
  moreover have "sort_pairs cmp vals = sort_blocks f 2 vals" using 1 by (cases "cmp x y > 0") auto
  ultimately show ?case by auto
qed (subst sort_blocks.simps, simp)+

lemma sort_loop_eq:
  assumes cmp: "\<And>x y. x \<in> set vals \<Longrightarrow> y \<in> set vals \<Longrightarrow> cmp x y > 0 \<longleftrightarrow> f x > f y" and n: "n = length vals"
  shows "0 < b \<Longrightarrow> sort_loop cmp n b (sort_blocks f b vals) = sort_key f vals"
proof (induction "n - b" arbitrary: b rule: less_induct)
  case less
  have sb: "set (sort_blocks f b xs) = set xs" for xs
    by (induction f b xs rule: sort_blocks.induct) (subst sort_blocks.simps, auto dest: in_set_takeD in_set_dropD,
      metis Un_iff append_take_drop_id set_append)
  show ?case
  proof (cases "b < n")
    case True
    have "merge_pass cmp b n (sort_blocks f b vals) 0 [] = [] @ pass_list f b (drop 0 (sort_blocks f b vals))"
      using less.prems n by (intro merge_pass_eq cmp) (auto simp: sb)
    then show ?thesis
      using True less.prems less.hyps [of "b + b"] by (subst sort_loop.simps) (simp add: pass_sort_blocks)
  next
    case False
    then show ?thesis using n by (subst sort_loop.simps, subst sort_blocks.simps) simp
  qed
qed

lemma table_mergesort_eq:
  assumes "\<And>x y. x \<in> set vals \<Longrightarrow> y \<in> set vals \<Longrightarrow> cmp x y > 0 \<longleftrightarrow> f x > f y"
  shows "table_mergesort cmp vals = sort_key f vals"
  using sort_loop_eq [OF assms refl, where b = 2] sort_pairs_eq [OF assms] by (simp add: table_mergesort_def)

section \<open>What compressing leaves\<close>

text \<open>Keys are C strings.\<close>

definition keys_ok :: "table_entry list \<Rightarrow> bool" where
  "keys_ok es \<longleftrightarrow> (\<forall>e\<in>set es. entry_ok e \<and> nul_free (the (e_key e)))"

definition code_at :: "table_entry list \<Rightarrow> nat \<Rightarrow> nat list" where
  "code_at es i = key_code (the (e_key (es ! i)))"

lemma same_key_iff:
  assumes "\<And>i. i \<in> I \<Longrightarrow> entry_ok (es ! i) \<and> nul_free (the (e_key (es ! i)))" "i \<in> I" "j \<in> I"
  shows "same_key es i j \<longleftrightarrow> code_at es i = code_at es j"
proof -
  have e: "strcasecmp (the (e_key (es ! i))) (the (e_key (es ! j))) = 0 \<longleftrightarrow> code_at es i = code_at es j"
    using assms by (simp add: strcasecmp_zero code_at_def key_code_eq)
  have "key_checksum (es ! i) = key_checksum_of (the (e_key (es ! i)))" if "i \<in> I" for i
    using assms(1) [OF that] by (auto simp: entry_ok_def)
  then have "code_at es i = code_at es j \<Longrightarrow> key_checksum (es ! i) = key_checksum (es ! j)"
    using assms(2,3) by (simp add: code_at_def key_code_eq checksum_cong)
  then show ?thesis using e by (auto simp: same_key_def)
qed

lemma drop_keys:
  "distinct is \<Longrightarrow> \<forall>i\<in>set is. i < length es \<Longrightarrow>
    foldl (\<lambda>es i. drop_key i es) es is =
    map (\<lambda>i. if i \<in> set is then (es ! i)\<lparr>e_key := None\<rparr> else es ! i) [0..<length es]"
proof (induction "is" arbitrary: es)
  case Nil
  then show ?case by (simp add: map_nth)
next
  case (Cons x xs)
  have l: "length (drop_key x es) = length es" by (simp add: drop_key_def)
  have "foldl (\<lambda>es i. drop_key i es) (drop_key x es) xs =
      map (\<lambda>i. if i \<in> set xs then (drop_key x es ! i)\<lparr>e_key := None\<rparr> else drop_key x es ! i) [0..<length es]"
    using Cons.IH [of "drop_key x es"] Cons.prems l by simp
  then show ?case using Cons.prems by (auto simp: drop_key_def nth_list_update intro!: nth_equalityI)
qed

text \<open>
  The loop, for the pointers \<open>L\<close> it has before it, sorted: the first pointer of a key gets
  the new value, the others of the key lose it, and everything else stays.
\<close>

definition key_group :: "table_entry list \<Rightarrow> nat list \<Rightarrow> nat \<Rightarrow> nat list" where
  "key_group es L i = filter (\<lambda>j. code_at es j = code_at es i) L"

definition compressed_entry :: "overlap_flags \<Rightarrow> table_entry list \<Rightarrow> nat list \<Rightarrow> nat \<Rightarrow> table_entry" where
  "compressed_entry flags es L i =
     (if i \<notin> set L then es ! i
      else if hd (key_group es L i) = i then (es ! i)\<lparr>e_val := new_value flags (map (\<lambda>j. e_val (es ! j)) (key_group es L i))\<rparr>
      else (es ! i)\<lparr>e_key := None\<rparr>)"

lemma new_value_single [simp]: "new_value flags [v] = v"
  by (simp add: new_value_def)

lemma sorted_hd_group:
  assumes "sorted (map f (x # xs))" 
  shows "takeWhile (\<lambda>d. f d = f x) xs = filter (\<lambda>d. f d = f x) xs"
    "dropWhile (\<lambda>d. f d = f x) xs = filter (\<lambda>d. f d \<noteq> f x) xs"
proof -
  have "takeWhile (\<lambda>d. f d = f x) xs = filter (\<lambda>d. f d = f x) xs \<and> dropWhile (\<lambda>d. f d = f x) xs = filter (\<lambda>d. f d \<noteq> f x) xs"
    using assms
  proof (induction xs)
    case (Cons y ys)
    show ?case
    proof (cases "f y = f x")
      case True
      then show ?thesis using Cons by simp
    next
      case False
      then have "f x < f y" "\<forall>z\<in>set ys. f y \<le> f z" using Cons.prems by auto
      then have "\<forall>z\<in>set ys. f z \<noteq> f x" by auto
      then show ?thesis using False by (auto simp: filter_empty_conv filter_id_conv)
    qed
  qed simp
  then show "takeWhile (\<lambda>d. f d = f x) xs = filter (\<lambda>d. f d = f x) xs"
    "dropWhile (\<lambda>d. f d = f x) xs = filter (\<lambda>d. f d \<noteq> f x) xs" by blast+
qed

lemma compressed_single:
  "\<forall>j\<in>set L. code_at es j \<noteq> code_at es l \<Longrightarrow> compressed_entry flags es (l # L) l = es ! l"
proof -
  assume "\<forall>j\<in>set L. code_at es j \<noteq> code_at es l"
  then have "key_group es (l # L) l = [l]" by (simp add: key_group_def filter_empty_conv)
  then show ?thesis by (simp add: compressed_entry_def)
qed

lemma compressed_cong:
  assumes "i \<in> set L" "i \<in> set M" "filter (\<lambda>j. code_at es j = code_at es i) L = filter (\<lambda>j. code_at es' j = code_at es' i) M"
    "es ! i = es' ! i" "\<forall>j\<in>set (filter (\<lambda>j. code_at es j = code_at es i) L). e_val (es ! j) = e_val (es' ! j)"
  shows "compressed_entry flags es L i = compressed_entry flags es' M i"
proof -
  have g: "key_group es L i = key_group es' M i" using assms(3) by (simp add: key_group_def)
  have "map (\<lambda>j. e_val (es ! j)) (key_group es L i) = map (\<lambda>j. e_val (es' ! j)) (key_group es L i)"
    using assms(5) by (simp add: key_group_def)
  then show ?thesis using assms(1,2,4) g by (simp add: compressed_entry_def cong: map_cong)
qed

lemma dup_loop_eq:
  assumes "sorted (map (code_at es) (l # xs))" "distinct (l # xs)"
    "\<forall>i\<in>set (l # xs). i < length es \<and> entry_ok (es ! i) \<and> nul_free (the (e_key (es ! i)))"
  shows "snd (dup_loop flags l xs es) = map (compressed_entry flags es (l # xs)) [0..<length es]"
  using assms
proof (induction flags l xs es rule: dup_loop.induct)
  case (1 flags l es)
  have "compressed_entry flags es [l] i = es ! i" for i
    using compressed_single [of "[]" es l flags] by (cases "i = l") (auto simp: compressed_entry_def)
  then show ?case by (simp add: map_nth)
next
  case (2 flags l x xs es)
  let ?c = "code_at es"
  have same: "same_key es i j \<longleftrightarrow> ?c i = ?c j" if "i \<in> set (l # x # xs)" "j \<in> set (l # x # xs)" for i j
    using 2(5) that by (intro same_key_iff [of "set (l # x # xs)"]) auto
  show ?case
  proof (cases "same_key es x l")
    case False
    have "snd (dup_loop flags l (x # xs) es) = map (compressed_entry flags es (x # xs)) [0..<length es]"
      using False 2(2) [OF False] 2(3-5) by simp
    also have "\<dots> = map (compressed_entry flags es (l # x # xs)) [0..<length es]"
    proof -
      have "?c x \<noteq> ?c l" using False same by simp
      then have ne: "\<forall>j\<in>set (x # xs). ?c j \<noteq> ?c l" using 2(3) by fastforce
      have "compressed_entry flags es (x # xs) i = compressed_entry flags es (l # x # xs) i" for i
      proof (cases "i \<in> set (x # xs)")
        case True
        then have "?c l \<noteq> ?c i" using ne by metis
        then show ?thesis using True by (intro compressed_cong) auto
      next
        case F: False
        show ?thesis
        proof (cases "i = l")
          case True
          then show ?thesis using F compressed_single [OF ne] by (simp add: compressed_entry_def [of _ _ "x # xs"])
        next
          case False
          then show ?thesis using F by (simp add: compressed_entry_def)
        qed
      qed
      then show ?thesis by simp
    qed
    finally show ?thesis .
  next
    case True
    then have cx: "?c x = ?c l" using same by simp
    define ds where "ds = takeWhile (\<lambda>d. same_key es d l) xs"
    define ys where "ys = filter (\<lambda>d. ?c d \<noteq> ?c l) xs"
    have sl: "sorted (map ?c (l # xs))" using 2(3) by simp
    have tw: "takeWhile (\<lambda>d. same_key es d l) xs = takeWhile (\<lambda>d. ?c d = ?c l) xs"
      using same by (intro takeWhile_cong) auto
    have ds: "ds = filter (\<lambda>d. ?c d = ?c l) xs"
      unfolding ds_def tw by (rule sorted_hd_group(1) [OF sl])
    have dr: "drop (length ds) xs = ys"
      unfolding ds_def tw ys_def using sorted_hd_group(2) [OF sl] by (simp add: dropWhile_eq_drop)
    define es1 where "es1 = es[l := (es ! l)\<lparr>e_val := new_value flags (map (\<lambda>i. e_val (es ! i)) (l # x # ds))\<rparr>]"
    define es2 where "es2 = foldl (\<lambda>es i. drop_key i es) es1 (x # ds)"
    have l1: "length es1 = length es" by (simp add: es1_def)
    have dis: "distinct (x # ds)" "l \<notin> set (x # ds)" "\<forall>i\<in>set (x # ds). i < length es"
      using 2(4,5) by (auto simp: ds)
    have es2: "es2 = map (\<lambda>i. if i \<in> set (x # ds) then (es1 ! i)\<lparr>e_key := None\<rparr> else es1 ! i) [0..<length es]"
      unfolding es2_def using drop_keys [of "x # ds" es1] dis l1 by simp
    have n2: "length es2 = length es" by (simp add: es2)
    have at: "es2 ! i = (if i \<in> set (x # ds) then (es ! i)\<lparr>e_key := None\<rparr>
        else if i = l then (es ! l)\<lparr>e_val := new_value flags (map (\<lambda>i. e_val (es ! i)) (l # x # ds))\<rparr> else es ! i)"
      if "i < length es" for i using that dis by (auto simp: es2 es1_def)
    have ys: "set ys \<inter> set (x # ds) = {}" "l \<notin> set ys" "\<forall>j\<in>set ys. j < length es \<and> ?c j \<noteq> ?c l"
      "set (l # x # xs) = insert l (set (x # ds) \<union> set ys)"
      using 2(4,5) cx by (auto simp: ys_def ds)
    have ll: "l < length es" using 2(5) by simp
    have keep: "es2 ! i = es ! i" if "i \<in> set ys" for i using that ys at [of i] by auto
    have key: "e_key (es2 ! i) = e_key (es ! i)" "key_checksum (es2 ! i) = key_checksum (es ! i)" if "i \<in> set (l # ys)" for i
      using that keep at [OF ll] dis(2) by auto
    have c2: "code_at es2 i = ?c i" if "i \<in> set (l # ys)" for i using key [OF that] by (simp add: code_at_def)
    have "sorted (map ?c (l # ys))" using sl by (auto simp: ys_def sorted_filter)
    moreover have "map (code_at es2) (l # ys) = map ?c (l # ys)" using c2 by (intro map_cong refl)
    ultimately have p1: "sorted (map (code_at es2) (l # ys))" by (simp only:)
    have p2: "distinct (l # ys)" using 2(4) by (simp add: ys_def)
    have p3: "\<forall>i\<in>set (l # ys). i < length es2 \<and> entry_ok (es2 ! i) \<and> nul_free (the (e_key (es2 ! i)))"
    proof
      fix i assume i: "i \<in> set (l # ys)"
      then have "i < length es \<and> entry_ok (es ! i) \<and> nul_free (the (e_key (es ! i)))" using 2(5) by (auto simp: ys_def)
      then show "i < length es2 \<and> entry_ok (es2 ! i) \<and> nul_free (the (e_key (es2 ! i)))"
        using key [OF i] n2 by (simp add: entry_ok_def)
    qed
    have "snd (dup_loop flags l (x # xs) es) = snd (dup_loop flags l ys es2)"
      using True by (simp add: ds_def [symmetric] dr es1_def es2_def)
    also have "\<dots> = map (compressed_entry flags es2 (l # ys)) [0..<length es]"
      using 2(1) [OF True ds_def refl es1_def] p1 p2 p3 n2 unfolding dr es2_def [symmetric] by simp
    also have "\<dots> = map (compressed_entry flags es (l # x # xs)) [0..<length es]"
    proof (rule map_cong [OF refl])
      fix i assume "i \<in> set [0..<length es]"
      then have i: "i < length es" by simp
      have gl: "key_group es (l # x # xs) l = l # x # ds" by (simp add: key_group_def ds cx)
      consider "i = l" | "i \<in> set (x # ds)" | "i \<in> set ys" | "i \<notin> set (l # x # xs)" using ys(4) by blast
      then show "compressed_entry flags es2 (l # ys) i = compressed_entry flags es (l # x # xs) i"
      proof cases
        case 1
        have "compressed_entry flags es2 (l # ys) l = es2 ! l" using c2 ys(3) by (intro compressed_single) auto
        then show ?thesis using 1 at [OF ll] dis(2) gl by (simp add: compressed_entry_def)
      next
        case 2
        then have "?c i = ?c l" using cx by (auto simp: ds)
        then have "key_group es (l # x # xs) i = l # x # ds" using gl by (simp add: key_group_def)
        moreover have "i \<noteq> l" "i \<notin> set ys" "i \<in> set (l # x # xs)" using 2 dis(2) ys by auto
        ultimately show ?thesis using 2 at [OF i] by (simp add: compressed_entry_def)
      next
        case 3
        have ci: "?c i \<noteq> ?c l" using 3 ys(3) by blast
        have f: "filter (\<lambda>j. code_at es2 j = code_at es2 i) (l # ys) = filter (\<lambda>j. ?c j = ?c i) (l # ys)"
          using c2 3 by (intro filter_cong) auto
        have g: "filter (\<lambda>j. ?c j = ?c i) (l # ys) = filter (\<lambda>j. ?c j = ?c i) (l # x # xs)"
          using ci cx by (auto simp: ys_def intro: filter_cong)
        have m: "j \<in> set ys" if "j \<in> set (filter (\<lambda>j. ?c j = ?c i) (l # ys))" for j using that ci by auto
        show ?thesis
        proof (rule compressed_cong)
          show "filter (\<lambda>j. code_at es2 j = code_at es2 i) (l # ys) = filter (\<lambda>j. ?c j = ?c i) (l # x # xs)"
            unfolding f g ..
          show "\<forall>j\<in>set (filter (\<lambda>j. code_at es2 j = code_at es2 i) (l # ys)). e_val (es2 ! j) = e_val (es ! j)"
            unfolding f using m keep by metis
        qed (use 3 keep ys(4) in auto)
      next
        case 4
        then have "i \<noteq> l" "i \<notin> set (x # ds)" "i \<notin> set ys" using ys(4) by auto
        then show ?thesis using 4 at [OF i] by (simp add: compressed_entry_def)
      qed
    qed
    finally show ?thesis .
  qed
qed

lemma dup_loop_none: "\<not> fst (dup_loop flags l xs es) \<Longrightarrow> snd (dup_loop flags l xs es) = es"
  by (induction flags l xs es rule: dup_loop.induct) (auto simp: Let_def split: if_splits)

section \<open>The operations on the list of entries\<close>

definition vals_of :: "cstring \<Rightarrow> (cstring \<times> cstring) list \<Rightarrow> cstring list" where
  "vals_of k ps = map snd (filter (for_key k) ps)"

text \<open>The first entry of every key, in the order of the table.\<close>

fun first_of :: "(cstring \<times> cstring) list \<Rightarrow> (cstring \<times> cstring) list" where
  "first_of [] = []"
| "first_of (p # ps) = p # filter (\<lambda>q. \<not> for_key (fst p) q) (first_of ps)"

definition al_compress :: "overlap_flags \<Rightarrow> (cstring \<times> cstring) list \<Rightarrow> (cstring \<times> cstring) list" where
  "al_compress flags ps = map (\<lambda>p. (fst p, new_value flags (vals_of (fst p) ps))) (first_of ps)"

lemma strcaseeq_refl [simp]: "strcaseeq a a"
  and strcaseeq_sym: "strcaseeq a b \<Longrightarrow> strcaseeq b a"
  and strcaseeq_trans: "strcaseeq a b \<Longrightarrow> strcaseeq b c \<Longrightarrow> strcaseeq a c"
  by (simp_all add: strcaseeq_def)

lemma first_of_snoc: "first_of (ps @ [q]) = first_of ps @ (if list_ex (\<lambda>p. for_key (fst p) q) ps then [] else [q])"
  by (induction ps) auto

lemma first_of_positions:
  "first_of ps = map ((!) ps) (filter (\<lambda>i. \<forall>j<i. \<not> strcaseeq (fst (ps ! j)) (fst (ps ! i))) [0..<length ps])"
proof (induction ps rule: rev_induct)
  case (snoc q ps)
  let ?n = "length ps"
  have "filter (\<lambda>i. \<forall>j<i. \<not> strcaseeq (fst ((ps @ [q]) ! j)) (fst ((ps @ [q]) ! i))) [0..<?n] =
      filter (\<lambda>i. \<forall>j<i. \<not> strcaseeq (fst (ps ! j)) (fst (ps ! i))) [0..<?n]"
    by (intro filter_cong) (auto simp: nth_append)
  moreover have "map ((!) (ps @ [q])) (filter P [0..<?n]) = map ((!) ps) (filter P [0..<?n])" for P
    by (auto simp: nth_append)
  moreover have "(\<forall>j<?n. \<not> strcaseeq (fst ((ps @ [q]) ! j)) (fst q)) \<longleftrightarrow> \<not> list_ex (\<lambda>p. for_key (fst p) q) ps"
    by (auto simp: list_ex_length nth_append dest: strcaseeq_sym)
  ultimately show ?case using snoc by (simp add: first_of_snoc)
qed simp

lemma hd_filter_upt:
  assumes "P i" "i < n"
  shows "hd (filter P [0..<n]) = i \<longleftrightarrow> (\<forall>j<i. \<not> P j)"
proof -
  have u: "[0..<n] = [0..<i] @ i # [Suc i..<n]" using assms(2) by (metis upt_conv_Cons upt_add_eq_append le0 le_add_diff_inverse less_imp_le)
  show ?thesis
  proof (cases "\<forall>j<i. \<not> P j")
    case True
    then have "filter P [0..<i] = []" by (simp add: filter_empty_conv)
    then show ?thesis using True assms(1) by (simp add: u)
  next
    case False
    then have "filter P [0..<i] \<noteq> []" by (auto simp: filter_empty_conv)
    moreover from this have "hd (filter P [0..<i]) \<in> set (filter P [0..<i])" by (rule hd_in_set)
    ultimately have "hd (filter P [0..<n]) \<in> set (filter P [0..<i])" by (simp add: u)
    then show ?thesis using False by auto
  qed
qed

lemma table_compress_ok:
  assumes ok: "table_ok t" and keys: "\<forall>p\<in>set (entries t). nul_free (fst p)"
  shows "table_ok (table_compress flags t) \<and> entries (table_compress flags t) = al_compress flags (entries t)"
proof (cases "nelts t \<le> 1")
  case True
  then have "entries t = [] \<or> (\<exists>p. entries t = [p])" by (cases "t_elts t") (auto simp: entries_def)
  then show ?thesis using ok True by (auto simp: table_compress_def al_compress_def vals_of_def)
next
  case False
  define es where "es = t_elts t"
  define n where "n = length es"
  define c where "c = code_at es"
  define ps where "ps = entries t"
  have eok: "entry_ok (es ! i)" "nul_free (the (e_key (es ! i)))" if "i < n" for i
    using that ok keys by (auto simp: table_ok_def list_all_length es_def n_def entries_def)
  have ps: "length ps = n" "i < n \<Longrightarrow> ps ! i = entry_pair (es ! i)" for i
    by (simp_all add: ps_def entries_def es_def n_def)
  have same: "c i = c j \<longleftrightarrow> strcaseeq (fst (ps ! i)) (fst (ps ! j))" if "i < n" "j < n" for i j
    using that ps by (simp add: c_def code_at_def key_code_eq)
  define L where "L = sort_key c [0..<n]"
  have "table_mergesort (\<lambda>i j. strcasecmp (the (e_key (es ! i))) (the (e_key (es ! j)))) [0..<n] = L"
    unfolding L_def
  proof (rule table_mergesort_eq)
    fix x y assume "x \<in> set [0..<n]" "y \<in> set [0..<n]"
    then have "strcasecmp (the (e_key (es ! x))) (the (e_key (es ! y))) \<le> 0 \<longleftrightarrow> c x \<le> c y"
      using eok by (simp add: strcasecmp_le c_def code_at_def)
    then show "strcasecmp (the (e_key (es ! x))) (the (e_key (es ! y))) > 0 \<longleftrightarrow> c x > c y" by (simp add: not_le [symmetric])
  qed
  moreover have L: "set L = {0..<n}" "sorted (map c L)" "distinct L" "length L = n" by (simp_all add: L_def)
  then have hd: "hd L # tl L = L" using False by (cases L) (auto simp: n_def es_def)
  define r where "r = dup_loop flags (hd L) (tl L) es"
  ultimately have comp: "table_compress flags t = table_reindex (t\<lparr>t_elts := (if fst r then filter (\<lambda>e. e_key e \<noteq> None) (snd r) else snd r)\<rparr>)"
    using False by (simp add: table_compress_def Let_def es_def [symmetric] n_def [symmetric] r_def)
  have r: "snd r = map (compressed_entry flags es L) [0..<n]"
    using dup_loop_eq [of es "hd L" "tl L" flags] L eok unfolding hd r_def n_def [symmetric] c_def by simp
  have all: "\<forall>e\<in>set es. e_key e \<noteq> None" using ok by (auto simp: es_def table_ok_def list_all_iff entry_ok_def)
  have fin: "(if fst r then filter (\<lambda>e. e_key e \<noteq> None) (snd r) else snd r) = filter (\<lambda>e. e_key e \<noteq> None) (snd r)"
    using dup_loop_none [of flags "hd L" "tl L" es] all unfolding r_def [symmetric] by (auto simp: filter_id_conv)
  define first where "first = (\<lambda>i. \<forall>j<i. \<not> strcaseeq (fst (ps ! j)) (fst (ps ! i)))"
  define g where "g = (\<lambda>i. (es ! i)\<lparr>e_val := new_value flags (vals_of (fst (ps ! i)) ps)\<rparr>)"
  have ce: "compressed_entry flags es L i = (if first i then g i else (es ! i)\<lparr>e_key := None\<rparr>)" if i: "i < n" for i
  proof -
    have grp: "key_group es L i = filter (\<lambda>j. c j = c i) [0..<n]"
      unfolding key_group_def c_def [symmetric] L_def by (rule sort_key_stable)
    have "hd (key_group es L i) = i \<longleftrightarrow> (\<forall>j<i. \<not> c j = c i)" unfolding grp by (rule hd_filter_upt) (use i in auto)
    also have "\<dots> \<longleftrightarrow> first i" using same i by (auto simp: first_def)
    finally have h: "hd (key_group es L i) = i \<longleftrightarrow> first i" .
    have "map (\<lambda>j. e_val (es ! j)) (key_group es L i) = map (\<lambda>j. snd (ps ! j)) (filter (\<lambda>j. for_key (fst (ps ! i)) (ps ! j)) [0..<n])"
      unfolding grp using same i ps by (auto intro!: map_cong filter_cong)
    also have "\<dots> = vals_of (fst (ps ! i)) (map ((!) ps) [0..<n])"
      by (simp add: vals_of_def filter_map comp_def)
    also have "map ((!) ps) [0..<n] = ps" using ps(1) by (metis map_nth)
    finally show ?thesis using h i L(1) by (simp add: compressed_entry_def g_def)
  qed
  have "filter (\<lambda>e. e_key e \<noteq> None) (snd r) = map g (filter first [0..<n])"
  proof -
    have "snd r = map (\<lambda>i. if first i then g i else (es ! i)\<lparr>e_key := None\<rparr>) [0..<n]"
      unfolding r using ce by (intro map_cong) auto
    moreover have "e_key (g i) \<noteq> None" if "i < n" for i using that all by (simp add: g_def n_def)
    ultimately show ?thesis by (auto simp: filter_map comp_def intro!: map_cong filter_cong)
  qed
  then have el: "table_compress flags t = table_reindex (t\<lparr>t_elts := map g (filter first [0..<n])\<rparr>)"
    unfolding comp fin by simp
  have "list_all entry_ok (map g (filter first [0..<n]))" using eok(1) by (auto simp: list_all_iff g_def)
  moreover have "map entry_pair (map g (filter first [0..<n])) = al_compress flags ps"
    unfolding al_compress_def first_of_positions [of ps] first_def [symmetric] ps(1)
    using ps(2) by (auto simp: g_def)
  ultimately show ?thesis unfolding el ps_def [symmetric]
    using table_reindex_ok [of "t\<lparr>t_elts := map g (filter first [0..<n])\<rparr>"] by (simp add: entries_def)
qed

section \<open>Overlapping two tables\<close>

lemma nth_take_drop_append:
  "h \<notin> set xs \<Longrightarrow> h \<notin> set (take n (xs @ ys)) \<longleftrightarrow> h \<notin> set (take (n - length xs) ys)"
  "h \<notin> set ys \<Longrightarrow> h \<notin> set (drop n (xs @ ys)) \<longleftrightarrow> h \<notin> set (drop n xs)"
  by (auto dest: in_set_takeD in_set_dropD)

lemma table_cat_ok:
  assumes "table_ok t" "table_ok s"
  shows "table_ok (table_cat t s) \<and> entries (table_cat t s) = entries t @ entries s"
proof -
  let ?hs = "map entry_hash (t_elts t)" let ?ks = "map entry_hash (t_elts s)" let ?u = "table_cat t s"
  have el: "t_elts ?u = t_elts t @ t_elts s" by (simp add: table_cat_def Let_def)
  have "(bit (index_initialized ?u) h \<longleftrightarrow> h \<in> set (?hs @ ?ks)) \<and> (h \<in> set (?hs @ ?ks) \<longrightarrow>
        index_first ?u h < length (?hs @ ?ks) \<and> (?hs @ ?ks) ! index_first ?u h = h \<and> h \<notin> set (take (index_first ?u h) (?hs @ ?ks)) \<and>
        index_last ?u h < length (?hs @ ?ks) \<and> (?hs @ ?ks) ! index_last ?u h = h \<and> h \<notin> set (drop (Suc (index_last ?u h)) (?hs @ ?ks)))"
    if h: "h < 32" for h
  proof (cases "nelts t = 0")
    case True
    then show ?thesis using assms(2) h by (simp add: table_cat_def table_ok_def index_for_def TABLE_HASH_SIZE_def del: nth_map)
  next
    case False
    have T: "bit (index_initialized t) h \<longleftrightarrow> h \<in> set ?hs"
      "h \<in> set ?hs \<Longrightarrow> index_first t h < length ?hs \<and> ?hs ! index_first t h = h \<and> h \<notin> set (take (index_first t h) ?hs) \<and>
        index_last t h < length ?hs \<and> ?hs ! index_last t h = h \<and> h \<notin> set (drop (Suc (index_last t h)) ?hs)"
      and S: "bit (index_initialized s) h \<longleftrightarrow> h \<in> set ?ks"
      "h \<in> set ?ks \<Longrightarrow> index_first s h < length ?ks \<and> ?ks ! index_first s h = h \<and> h \<notin> set (take (index_first s h) ?ks) \<and>
        index_last s h < length ?ks \<and> ?ks ! index_last s h = h \<and> h \<notin> set (drop (Suc (index_last s h)) ?ks)"
      using assms h by (auto simp: table_ok_def index_for_def)
    have u: "bit (index_initialized ?u) h \<longleftrightarrow> h \<in> set ?hs \<or> h \<in> set ?ks"
      "index_last ?u h = (if h \<in> set ?ks then index_last s h + nelts t else index_last t h)"
      "index_first ?u h = (if h \<in> set ?ks \<and> h \<notin> set ?hs then index_first s h + nelts t else index_first t h)"
      using False h T(1) S(1)
      by (simp_all add: table_cat_def Let_def TABLE_HASH_SIZE_def initialized_bit bit_or_iff del: set_map)
    have first: "index_first ?u h < length (?hs @ ?ks) \<and> (?hs @ ?ks) ! index_first ?u h = h \<and> h \<notin> set (take (index_first ?u h) (?hs @ ?ks))"
      if "h \<in> set (?hs @ ?ks)"
    proof (cases "h \<in> set ?hs")
      case True
      then show ?thesis using T(2) by (simp add: u(3) nth_append del: set_map)
    next
      case F: False
      then have k: "h \<in> set ?ks" using that by simp
      have "h \<notin> set (take (index_first s h + nelts t) (?hs @ ?ks))"
        using F S(2) [OF k] by (auto simp del: set_map dest: in_set_takeD)
      moreover have "(?hs @ ?ks) ! (index_first s h + nelts t) = h" using S(2) [OF k] nth_append_length_plus [of ?hs ?ks] by (simp add: add.commute)
      moreover have "index_first s h + nelts t < length (?hs @ ?ks)" using S(2) [OF k] by simp
      ultimately show ?thesis using F k by (simp only: u(3)) simp
    qed
    have last: "index_last ?u h < length (?hs @ ?ks) \<and> (?hs @ ?ks) ! index_last ?u h = h \<and> h \<notin> set (drop (Suc (index_last ?u h)) (?hs @ ?ks))"
      if "h \<in> set (?hs @ ?ks)"
    proof (cases "h \<in> set ?ks")
      case k: True
      have "(?hs @ ?ks) ! (index_last s h + nelts t) = h" using S(2) [OF k] nth_append_length_plus [of ?hs ?ks] by (simp add: add.commute)
      moreover have "drop (Suc (index_last s h + nelts t)) (?hs @ ?ks) = drop (Suc (index_last s h)) ?ks" by simp
      ultimately show ?thesis using k S(2) [OF k] by (simp add: u(2) del: set_map drop_append drop_map)
    next
      case F: False
      then have t: "h \<in> set ?hs" using that by simp
      have "h \<notin> set (drop (Suc (index_last t h)) (?hs @ ?ks))" using F T(2) [OF t] by (auto simp del: set_map dest: in_set_dropD)
      then show ?thesis using F T(2) [OF t] by (simp add: u(2) nth_append del: set_map drop_append)
    qed
    show ?thesis using first last u(1) by (simp only: set_append Un_iff) blast
  qed
  then have "index_for (?hs @ ?ks) ?u" by (simp only: index_for_def) blast
  then show ?thesis using assms by (simp add: table_ok_def el entries_def)
qed

lemma first_of_subset: "set (first_of ps) \<subseteq> set ps"
  by (induction ps) auto

lemma table_overlap_ok:
  assumes "table_ok a" "table_ok b" "\<forall>p\<in>set (entries a) \<union> set (entries b). nul_free (fst p)"
  shows "table_ok (table_overlap flags a b) \<and> entries (table_overlap flags a b) = al_compress flags (entries a @ entries b)"
proof (cases "nelts a + nelts b = 0")
  case True
  then show ?thesis using assms(1) by (simp add: table_overlap_def entries_def al_compress_def)
next
  case False
  then show ?thesis using table_cat_ok [OF assms(1,2)] table_compress_ok [of "table_cat a b" flags] assms(3)
    by (auto simp: table_overlap_def)
qed

section \<open>The interface\<close>

text \<open>
  What the users of a table of headers rely on: the values of a key, in order, and how every
  operation changes those of every other key.
\<close>

locale header_table =
  fixes get :: "'t \<Rightarrow> cstring option \<Rightarrow> cstring option" and vals :: "'t \<Rightarrow> cstring \<Rightarrow> cstring list"
    and setf addf mergef :: "'t \<Rightarrow> cstring \<Rightarrow> cstring \<Rightarrow> 't" and unsetf :: "'t \<Rightarrow> cstring \<Rightarrow> 't"
    and compressf :: "'t \<Rightarrow> 't" and ok :: "'t \<Rightarrow> bool"
  assumes get_law: "ok t \<Longrightarrow> get t (Some k) = (case vals t k of [] \<Rightarrow> None | v # vs \<Rightarrow> Some v)"
    and key_law: "strcaseeq k k' \<Longrightarrow> vals t k = vals t k'"
    and set_law: "ok t \<Longrightarrow> nul_free k \<Longrightarrow> ok (setf t k v) \<and> vals (setf t k v) k' = (if strcaseeq k k' then [v] else vals t k')"
    and add_law: "ok t \<Longrightarrow> nul_free k \<Longrightarrow> ok (addf t k v) \<and> vals (addf t k v) k' = vals t k' @ (if strcaseeq k k' then [v] else [])"
    and unset_law: "ok t \<Longrightarrow> ok (unsetf t k) \<and> vals (unsetf t k) k' = (if strcaseeq k k' then [] else vals t k')"
    and merge_law: "ok t \<Longrightarrow> nul_free k \<Longrightarrow> ok (mergef t k v) \<and> vals (mergef t k v) k' =
        (if strcaseeq k k' then (case vals t k' of [] \<Rightarrow> [v] | w # ws \<Rightarrow> (w @ '', '' @ v) # ws) else vals t k')"
    and compress_law: "ok t \<Longrightarrow> ok (compressf t) \<and>
        vals (compressf t) k = (case vals t k of [] \<Rightarrow> [] | v # vs \<Rightarrow> [join_values (v # vs)])"
begin

lemma get_set:
  assumes "ok t" "nul_free k"
  shows "get (setf t k v) (Some k') = (if strcaseeq k k' then Some v else get t (Some k'))"
  using set_law [OF assms, of v k'] get_law [OF assms(1)] get_law [of "setf t k v"] by simp

lemma get_unset:
  assumes "ok t"
  shows "get (unsetf t k) (Some k') = (if strcaseeq k k' then None else get t (Some k'))"
  using unset_law [OF assms, of k k'] get_law [OF assms] get_law [of "unsetf t k"] by simp

lemma get_add:
  assumes "ok t" "nul_free k"
  shows "get (addf t k v) (Some k') =
    (case get t (Some k') of Some w \<Rightarrow> Some w | None \<Rightarrow> if strcaseeq k k' then Some v else None)"
  using add_law [OF assms, of v k'] get_law [OF assms(1)] get_law [of "addf t k v"] by (simp split: list.splits)

lemma get_compress:
  assumes "ok t"
  shows "get (compressf t) (Some k) = (if vals t k = [] then None else Some (join_values (vals t k)))"
  using compress_law [OF assms, of k] get_law [of "compressf t" k] by (simp split: list.splits)

lemma get_iff_vals: "ok t \<Longrightarrow> get t (Some k) = None \<longleftrightarrow> vals t k = []"
  using get_law by (simp split: list.splits)

text \<open>Many fields added one after the other.\<close>

lemma add_many:
  "ok t \<Longrightarrow> list_all (\<lambda>f. nul_free (fst f)) fs \<Longrightarrow>
    ok (foldl (\<lambda>t f. addf t (fst f) (snd f)) t fs) \<and>
    vals (foldl (\<lambda>t f. addf t (fst f) (snd f)) t fs) k = vals t k @ vals_of k fs"
proof (induction fs arbitrary: t)
  case (Cons f fs)
  then show ?case using add_law [of t "fst f" "snd f" k] by (auto simp: vals_of_def)
qed (simp add: vals_of_def)

end

definition tvals :: "table \<Rightarrow> cstring \<Rightarrow> cstring list" where
  "tvals t k = vals_of k (entries t)"

definition headers_ok :: "table \<Rightarrow> bool" where
  "headers_ok t \<longleftrightarrow> table_ok t \<and> list_all (\<lambda>p. nul_free (fst p)) (entries t)"

lemma vals_of_simps [simp]:
  "vals_of k [] = []" "vals_of k (p # ps) = (if for_key k p then snd p # vals_of k ps else vals_of k ps)"
  "vals_of k (ps @ qs) = vals_of k ps @ vals_of k qs"
  by (simp_all add: vals_of_def)

lemma find_vals: "map_option snd (find (for_key k) ps) = (case vals_of k ps of [] \<Rightarrow> None | v # vs \<Rightarrow> Some v)"
  by (induction ps) auto

lemma vals_of_filter: "vals_of k' (filter (\<lambda>p. \<not> for_key k p) ps) = (if strcaseeq k k' then [] else vals_of k' ps)"
  by (induction ps) (auto dest: strcaseeq_trans strcaseeq_sym)

lemma vals_of_set: "vals_of k' (al_set k v ps) = (if strcaseeq k k' then [v] else vals_of k' ps)"
  by (induction ps) (auto simp: vals_of_filter dest: strcaseeq_trans strcaseeq_sym)

lemma vals_of_merge:
  "vals_of k' (al_merge k v ps) =
    (if strcaseeq k k' then (case vals_of k' ps of [] \<Rightarrow> [v] | w # ws \<Rightarrow> (w @ '', '' @ v) # ws) else vals_of k' ps)"
  by (induction ps) (auto split: list.splits dest: strcaseeq_trans strcaseeq_sym)

lemma strcaseeq_left: "strcaseeq a b \<Longrightarrow> strcaseeq a c = strcaseeq b c"
  by (auto simp: strcaseeq_def)

lemma vals_of_cong: "strcaseeq k k' \<Longrightarrow> vals_of k ps = vals_of k' ps"
  by (induction ps) (auto dest: strcaseeq_trans strcaseeq_sym)

lemma filter_first: "filter (for_key k) (first_of ps) = (case filter (for_key k) ps of [] \<Rightarrow> [] | p # qs \<Rightarrow> [p])"
proof (induction ps)
  case (Cons p ps)
  show ?case
  proof (cases "for_key k p")
    case True
    have "filter (for_key k) (filter (\<lambda>q. \<not> for_key (fst p) q) (first_of ps)) = []"
      using True by (auto simp: filter_empty_conv dest: strcaseeq_trans strcaseeq_sym)
    then show ?thesis using True by simp
  next
    case False
    have "filter (for_key k) (filter (\<lambda>q. \<not> for_key (fst p) q) (first_of ps)) = filter (for_key k) (first_of ps)"
      using False by (auto intro!: filter_cong dest: strcaseeq_trans strcaseeq_sym)
    then show ?thesis using Cons False by simp
  qed
qed simp

lemma vals_of_compress:
  "vals_of k (al_compress flags ps) = (case vals_of k ps of [] \<Rightarrow> [] | v # vs \<Rightarrow> [new_value flags (v # vs)])"
proof -
  have "vals_of k (al_compress flags ps) = map (\<lambda>p. new_value flags (vals_of (fst p) ps)) (filter (for_key k) (first_of ps))"
    by (simp add: al_compress_def vals_of_def filter_map comp_def)
  also have "\<dots> = map (\<lambda>p. new_value flags (vals_of k ps)) (filter (for_key k) (first_of ps))"
    by (auto intro!: arg_cong [where f = "new_value flags"] vals_of_cong)
  also have "\<dots> = (case vals_of k ps of [] \<Rightarrow> [] | v # vs \<Rightarrow> [new_value flags (v # vs)])"
    by (simp add: filter_first vals_of_def split: list.splits)
  finally show ?thesis .
qed

lemma al_keys:
  "list_all (\<lambda>p. nul_free (fst p)) ps \<Longrightarrow> nul_free k \<Longrightarrow> list_all (\<lambda>p. nul_free (fst p)) (al_set k v ps)"
  "list_all (\<lambda>p. nul_free (fst p)) ps \<Longrightarrow> nul_free k \<Longrightarrow> list_all (\<lambda>p. nul_free (fst p)) (al_merge k v ps)"
  "list_all (\<lambda>p. nul_free (fst p)) ps \<Longrightarrow> list_all (\<lambda>p. nul_free (fst p)) (al_compress flags ps)"
proof -
  show "list_all (\<lambda>p. nul_free (fst p)) ps \<Longrightarrow> nul_free k \<Longrightarrow> list_all (\<lambda>p. nul_free (fst p)) (al_set k v ps)"
    by (induction ps) (auto simp: list_all_iff)
  show "list_all (\<lambda>p. nul_free (fst p)) ps \<Longrightarrow> nul_free k \<Longrightarrow> list_all (\<lambda>p. nul_free (fst p)) (al_merge k v ps)"
    by (induction ps) auto
  show "list_all (\<lambda>p. nul_free (fst p)) ps \<Longrightarrow> list_all (\<lambda>p. nul_free (fst p)) (al_compress flags ps)"
    using first_of_subset [of ps] by (auto simp: al_compress_def list_all_iff)
qed

interpretation headers: header_table table_get tvals table_set table_add table_merge table_unset
  "table_compress APR_OVERLAP_TABLES_MERGE" headers_ok
proof unfold_locales
  fix t k k' v
  show "headers_ok t \<Longrightarrow> table_get t (Some k) = (case tvals t k of [] \<Rightarrow> None | v # vs \<Rightarrow> Some v)"
    by (simp add: headers_ok_def table_get_entries tvals_def find_vals)
  show "strcaseeq k k' \<Longrightarrow> tvals t k = tvals t k'" by (simp add: tvals_def vals_of_cong)
  show "headers_ok t \<Longrightarrow> nul_free k \<Longrightarrow>
      headers_ok (table_set t k v) \<and> tvals (table_set t k v) k' = (if strcaseeq k k' then [v] else tvals t k')"
    using table_set_ok [of t k v] by (simp add: headers_ok_def tvals_def vals_of_set al_keys)
  show "headers_ok t \<Longrightarrow> nul_free k \<Longrightarrow>
      headers_ok (table_add t k v) \<and> tvals (table_add t k v) k' = tvals t k' @ (if strcaseeq k k' then [v] else [])"
    using table_add_ok [of t k v] by (simp add: headers_ok_def tvals_def)
  show "headers_ok t \<Longrightarrow> headers_ok (table_unset t k) \<and> tvals (table_unset t k) k' = (if strcaseeq k k' then [] else tvals t k')"
    using table_unset_ok [of t k] by (auto simp: headers_ok_def tvals_def vals_of_filter list_all_iff)
  show "headers_ok t \<Longrightarrow> nul_free k \<Longrightarrow> headers_ok (table_merge t k v) \<and> tvals (table_merge t k v) k' =
      (if strcaseeq k k' then (case tvals t k' of [] \<Rightarrow> [v] | w # ws \<Rightarrow> (w @ '', '' @ v) # ws) else tvals t k')"
    using table_merge_ok [of t k v] by (simp add: headers_ok_def tvals_def vals_of_merge al_keys)
  show "headers_ok t \<Longrightarrow> headers_ok (table_compress APR_OVERLAP_TABLES_MERGE t) \<and>
      tvals (table_compress APR_OVERLAP_TABLES_MERGE t) k = (case tvals t k of [] \<Rightarrow> [] | v # vs \<Rightarrow> [join_values (v # vs)])"
    using table_compress_ok [of t APR_OVERLAP_TABLES_MERGE] al_keys(3) [of "entries t" APR_OVERLAP_TABLES_MERGE]
    by (simp add: headers_ok_def tvals_def vals_of_compress list_all_iff new_value_def split: list.split)
qed

section \<open>Properties\<close>

section \<open>Walks\<close>

lemma do_entries_skip:
  "\<forall>e\<in>set es. \<not> p e \<Longrightarrow> do_entries cb p (es @ fs) r = do_entries cb p fs r"
  by (induction es) auto

lemma do_entries_skip_end: "\<forall>e\<in>set fs. \<not> p e \<Longrightarrow> do_entries cb p (es @ fs) r = do_entries cb p es r"
proof (induction es arbitrary: r)
  case Nil
  have "do_entries cb p fs r = (1, r)" if "\<forall>e\<in>set fs. \<not> p e" for fs
    using that by (induction fs) auto
  with Nil show ?case by simp
next
  case (Cons e es)
  then show ?case by (auto split: prod.splits)
qed

lemma do_entries_cong: "(\<And>e. e \<in> set es \<Longrightarrow> p e = q e) \<Longrightarrow> do_entries cb p es r = do_entries cb q es r"
  by (induction es arbitrary: r) (auto split: prod.splits)

text \<open>
  \<open>apr_table_do\<close> with a key calls back for exactly the entries of that key, in order and until the
  callback returns 0: the walk between the first and the last entry of the hash, filtered by checksum, is
  the walk over the whole table, filtered by the name without case.
\<close>
lemma table_do_entries:
  assumes ok: "table_ok t"
  shows "table_do cb r t [k] = do_entries cb (\<lambda>e. strcaseeq (the (e_key e)) k) (t_elts t) r"
proof -
  let ?h = "TABLE_HASH k" let ?p = "entry_matches k (key_checksum_of k)" let ?q = "\<lambda>e. strcaseeq (the (e_key e)) k"
  note S = table_search [OF ok refl, where k = k]
  have pq: "e \<in> set (t_elts t) \<Longrightarrow> ?p e = ?q e" for e using ok by (simp add: entry_matches_iff table_ok_def list_all_iff)
  have rv: "fst (do_entries cb p es r) \<in> {0, 1}" for p es r
    by (induction es arbitrary: r) (auto split: prod.splits)
  show ?thesis
  proof (cases "table_is_initialized t ?h")
    case True
    let ?m = "drop (index_first t ?h) (take (Suc (index_last t ?h)) (t_elts t))"
    have split: "t_elts t = take (index_first t ?h) (take (Suc (index_last t ?h)) (t_elts t)) @ ?m @ drop (Suc (index_last t ?h)) (t_elts t)"
      by (metis append.assoc append_take_drop_id)
    have "do_entries cb ?q (t_elts t) r = do_entries cb ?q ?m r"
    proof -
      have "\<forall>e\<in>set (take (index_first t ?h) (take (Suc (index_last t ?h)) (t_elts t))). \<not> ?q e"
        using S(3) True by (metis min.commute set_take_subset_set_take subsetD take_take min.cobounded1)
      moreover have "\<forall>e\<in>set (drop (Suc (index_last t ?h)) (t_elts t)). \<not> ?q e" using S(4) True by blast
      ultimately show ?thesis by (subst split) (simp add: do_entries_skip do_entries_skip_end)
    qed
    also have "\<dots> = do_entries cb ?p ?m r"
      using pq by (intro do_entries_cong) (auto dest: in_set_dropD in_set_takeD)
    finally show ?thesis using True rv [of ?p ?m r] by (auto simp: table_do_def Let_def split: prod.splits)
  next
    case False
    have "\<forall>e\<in>set (t_elts t). \<not> ?q e" using S(1) False by (auto simp: entries_def list_ex_iff)
    then have "do_entries cb ?q (t_elts t) r = (1, r)" using do_entries_skip [of "t_elts t" ?q cb "[]" r] by simp
    then show ?thesis using False by (simp add: table_do_def)
  qed
qed

lemma empty_entries: "table_is_empty (Some t) = (entries t = [])"
  by (simp add: table_is_empty_def entries_def)

lemma made_empty: "entries (table_make any) = []"
  by (simp add: entries_def table_make_def)

text \<open>The variants that do not copy their strings do the same to the table.\<close>

lemma same_texts: "table_setn = table_set" "table_addn = table_add" "table_mergen = table_merge"
  by (auto simp: fun_eq_iff table_setn_def table_set_def table_addn_def table_add_def table_mergen_def table_merge_def)

text \<open>
  C5. The indexed table behaves like the plain list of its entries. Every operation that makes or changes
  a table keeps the index and the checksums exact and does to the entries what it would do without an
  index: \<open>apr_table_add\<close> appends, \<open>apr_table_set\<close> overwrites the first entry of the key and drops the
  others, \<open>apr_table_merge\<close> joins to the first, \<open>apr_table_unset\<close> drops all, \<open>apr_table_compress\<close> folds
  the entries of each key into one, \<open>apr_table_overlap\<close> does so behind appending the other table,
  \<open>apr_table_overlay\<close> and \<open>apr_table_cat\<close> append, \<open>apr_table_copy\<close> and \<open>apr_table_clone\<close> give the same
  entries, and \<open>apr_table_clear\<close> and \<open>apr_table_make\<close> none. \<open>apr_table_get\<close> finds the first entry that
  equals the key without case, and \<open>apr_table_do\<close> with a key calls back for those entries only, in order.
\<close>
theorem table_refines_list:
  assumes "headers_ok t" "headers_ok s"
  shows "table_get t (Some k) = map_option snd (find (for_key k) (entries t)) \<and>
    table_do cb r t [k] = do_entries cb (\<lambda>e. strcaseeq (the (e_key e)) k) (t_elts t) r \<and>
    table_is_empty (Some t) = (entries t = []) \<and>
    (table_ok (table_add t k v) \<and> entries (table_add t k v) = entries t @ [(k, v)]) \<and>
    (table_ok (table_set t k v) \<and> entries (table_set t k v) = al_set k v (entries t)) \<and>
    (table_ok (table_merge t k v) \<and> entries (table_merge t k v) = al_merge k v (entries t)) \<and>
    (table_addn t k v = table_add t k v \<and> table_setn t k v = table_set t k v \<and> table_mergen t k v = table_merge t k v) \<and>
    (table_ok (table_unset t k) \<and> entries (table_unset t k) = filter (\<lambda>p. \<not> for_key k p) (entries t)) \<and>
    (table_ok (table_compress flags t) \<and> entries (table_compress flags t) = al_compress flags (entries t)) \<and>
    (table_ok (table_overlap flags t s) \<and> entries (table_overlap flags t s) = al_compress flags (entries t @ entries s)) \<and>
    (table_ok (table_overlay any t s) \<and> entries (table_overlay any t s) = entries t @ entries s) \<and>
    (table_ok (table_cat t s) \<and> entries (table_cat t s) = entries t @ entries s) \<and>
    (table_ok (table_copy t) \<and> entries (table_copy t) = entries t) \<and>
    (table_ok (table_clone any t) \<and> entries (table_clone any t) = entries t) \<and>
    (table_ok (table_clear t) \<and> entries (table_clear t) = []) \<and>
    (table_ok (table_make any) \<and> entries (table_make any) = [])"
proof -
  have ok: "table_ok t" "table_ok s" "\<forall>p\<in>set (entries t). nul_free (fst p)" "\<forall>p\<in>set (entries s). nul_free (fst p)"
    using assms by (simp_all add: headers_ok_def list_all_iff)
  then have keys: "\<forall>p\<in>set (entries t) \<union> set (entries s). nul_free (fst p)" by blast
  show ?thesis
    using table_get_entries [OF ok(1), of k] table_do_entries [OF ok(1), of cb r k] table_add_ok [OF ok(1), of k v] table_set_ok [OF ok(1), of k v]
      table_merge_ok [OF ok(1), of k v] table_unset_ok [OF ok(1), of k] table_compress_ok [OF ok(1,3), of flags]
      table_overlap_ok [OF ok(1,2) keys, of flags] table_overlay_ok [OF ok(1,2), of any] table_cat_ok [OF ok(1,2)]
      table_clone_ok [OF ok(1), of any] table_clear_ok [of t] ok(1) empty_entries table_make_ok [of any] made_empty [of any]
    unfolding same_texts table_copy_def by blast
qed

definition sample_table :: table where
  "sample_table = table_add (table_add (table_add (table_make (\<lambda>_. 0)) ''Accept'' ''a'') ''Host'' ''h'') ''accept'' ''b''"

lemma sample_table_ok: "headers_ok sample_table"
  unfolding sample_table_def
  by (intro conjunct1 [OF headers.add_law]) (simp_all add: headers_ok_def, simp add: entries_def table_make_def)

lemma sample_entries: "entries sample_table = [(''Accept'', ''a''), (''Host'', ''h''), (''accept'', ''b'')]"
  by (simp add: sample_table_def entries_def table_add_def table_push_def new_entry_def table_make_def)

theorem table_refines_list_witness:
  "entries (table_set sample_table ''ACCEPT'' ''z'') = [(''Accept'', ''z''), (''Host'', ''h'')] \<and>
   entries (table_overlap APR_OVERLAP_TABLES_MERGE sample_table sample_table) = [(''Accept'', ''a, b, a, b''), (''Host'', ''h, h'')]"
proof -
  have "al_set ''ACCEPT'' ''z'' [(''Accept'', ''a''), (''Host'', ''h''), (''accept'', ''b'')] = [(''Accept'', ''z''), (''Host'', ''h'')]"
    by code_simp
  moreover have "al_compress APR_OVERLAP_TABLES_MERGE ([(''Accept'', ''a''), (''Host'', ''h''), (''accept'', ''b'')] @
      [(''Accept'', ''a''), (''Host'', ''h''), (''accept'', ''b'')]) = [(''Accept'', ''a, b, a, b''), (''Host'', ''h, h'')]"
    by code_simp
  ultimately show ?thesis
    using table_refines_list [where k = "''ACCEPT''" and v = "''z''" and flags = APR_OVERLAP_TABLES_MERGE, OF sample_table_ok sample_table_ok]
    unfolding sample_entries by presburger
qed

text \<open>
  C34. \<open>table_mergesort\<close> sorts and is stable: for any number of pointers to entries whose keys are C
  strings the result is the stable sort by the codes of the letters, so that equal keys stay in the
  order in which they were added.
\<close>
theorem table_mergesort_stable:
  assumes "\<forall>i\<in>set ps. nul_free (the (e_key (es ! i)))"
  shows "table_mergesort (\<lambda>i j. strcasecmp (the (e_key (es ! i))) (the (e_key (es ! j)))) ps = sort_key (code_at es) ps"
proof (rule table_mergesort_eq)
  fix x y assume "x \<in> set ps" "y \<in> set ps"
  then show "strcasecmp (the (e_key (es ! x))) (the (e_key (es ! y))) > 0 \<longleftrightarrow> code_at es x > code_at es y"
    using assms strcasecmp_le [of "the (e_key (es ! x))" "the (e_key (es ! y))"] by (simp add: code_at_def not_le [symmetric])
qed

theorem table_mergesort_stable_witness:
  "table_mergesort (\<lambda>i j. strcasecmp (the (e_key (t_elts sample_table ! i))) (the (e_key (t_elts sample_table ! j)))) [0, 1, 2] =
     sort_key (code_at (t_elts sample_table)) [0, 1, 2]"
  by (rule table_mergesort_stable) (simp add: sample_table_def table_add_def table_push_def new_entry_def table_make_def)

text \<open>
  C11. After the headers have been merged, each field name occurs once, and its value is that of all
  fields of the name, in any case of its letters, joined by commas in the order they came.
\<close>
theorem compress_joins_fields:
  assumes "headers_ok t"
  shows "table_get (table_compress APR_OVERLAP_TABLES_MERGE t) (Some k) =
    (if tvals t k = [] then None else Some (join_values (tvals t k)))"
  using headers.get_compress [OF assms] .

theorem compress_joins_fields_witness:
  "table_get (table_compress APR_OVERLAP_TABLES_MERGE sample_table) (Some ''ACCEPT'') = Some ''a, b''"
proof -
  have "vals_of ''ACCEPT'' [(''Accept'', ''a''), (''Host'', ''h''), (''accept'', ''b'')] = [''a'', ''b'']" by code_simp
  then show ?thesis using compress_joins_fields [OF sample_table_ok, of "''ACCEPT''"]
    by (simp only: tvals_def sample_entries) simp
qed

end
