(* ===== verification/Http_Getline.thy ===== *)
theory Http_Getline
  imports Core_Input
begin

text \<open>
  Reading the lines of a request, \<open>ap_rgetline_core\<close> and \<open>ap_getline\<close> of \<open>server/protocol.c\<close>, over any
  filter that reads as \<open>get\<close> does. The buffer \<open>*s\<close> is the list of the bytes handled so far, \<open>None\<close>
  while it is NULL; growing it is not modelled. A loop that waits for the network is a partial
  function into an option: \<open>None\<close> is that it does not return.
\<close>

definition handled :: "cstring option \<Rightarrow> cstring" where
  "handled s = (case s of None \<Rightarrow> [] | Some b \<Rightarrow> b)"

text \<open>
  The loop over the buckets of a brigade: status, whether an EOS bucket was seen, and the buffer. When
  the buffer of \<open>n\<close> bytes is full its last byte is overwritten by the terminator.
\<close>

function copy_line :: "nat \<Rightarrow> bkt list \<Rightarrow> cstring option \<Rightarrow> apr_status \<times> bool \<times> cstring option" where
  "copy_line n [] s = (APR_SUCCESS, False, s)"
| "copy_line n (e # bb) s =
     (if e = BEos then (APR_SUCCESS, True, s)
      else
        (let rv = fst (bkt_read False e);
             str = fst (snd (bkt_read False e));
             es = snd (snd (bkt_read False e))
         in if rv \<noteq> APR_SUCCESS then (rv, False, s)
            else if str = [] then copy_line n (tl es @ bb) s
            else if n < length (handled s) + length str then (APR_ENOSPC, False, map_option butlast s)
            else copy_line n (tl es @ bb) (Some (handled s @ str))))"
  by pat_completeness auto

termination copy_line by (relation "measure (\<lambda>(_, b, _). bb_size b)") (simp_all add: bkt_read_size)

declare copy_line.simps [simp del]

definition ends_with_lf :: "cstring option \<Rightarrow> bool" where
  "ends_with_lf s \<longleftrightarrow> handled s \<noteq> [] \<and> List.last (handled s) = LF"

text \<open>The loop that reads until a whole line has come.\<close>

partial_function (option) read_line ::
  "('n \<Rightarrow> input_mode \<Rightarrow> bool \<Rightarrow> int \<Rightarrow> apr_status \<times> bkt list \<times> 'n) \<Rightarrow> nat \<Rightarrow> cstring option \<Rightarrow> bool \<Rightarrow> 'n \<Rightarrow>
     (apr_status \<times> cstring option \<times> bool \<times> 'n) option" where
  "read_line get n s eos net =
     (case get net AP_MODE_GETLINE False 0 of
        (rv, bb, net1) \<Rightarrow>
          if rv \<noteq> APR_SUCCESS then Some (rv, s, eos, net1)
          else if bb = [] then Some (APR_EGENERAL, s, eos, net1)
          else
            (case copy_line n bb s of
               (st, saw, s1) \<Rightarrow>
                 if st \<noteq> APR_SUCCESS then Some (st, s1, eos \<or> saw, net1)
                 else if ends_with_lf s1 then Some (APR_SUCCESS, s1, eos \<or> saw, net1)
                 else read_line get n s1 (eos \<or> saw) net1))"

declare read_line.simps [code]

text \<open>The line ends before the LF, or before the CR in front of it.\<close>

definition line_end :: "cstring \<Rightarrow> cstring" where
  "line_end s =
     (let t = butlast s in if t \<noteq> [] \<and> List.last t = CR then butlast t else t)"

definition rgetline_line ::
  "('n \<Rightarrow> input_mode \<Rightarrow> bool \<Rightarrow> int \<Rightarrow> apr_status \<times> bkt list \<times> 'n) \<Rightarrow> nat \<Rightarrow> cstring option \<Rightarrow> 'n \<Rightarrow>
     (apr_status \<times> cstring option \<times> bool \<times> 'n) option" where
  "rgetline_line get n s0 net =
     map_option (\<lambda>(rv, s, eos, net1). (rv, if rv = APR_SUCCESS then Some (line_end (handled s)) else s, eos, net1))
       (read_line get n s0 False net)"

text \<open>
  The loop over continuation lines, for the line \<open>l\<close>. It looks at the first byte of the next line
  without taking it.
\<close>

partial_function (option) fold_lines ::
  "('n \<Rightarrow> input_mode \<Rightarrow> bool \<Rightarrow> int \<Rightarrow> apr_status \<times> bkt list \<times> 'n) \<Rightarrow> nat \<Rightarrow> bool \<Rightarrow> cstring \<Rightarrow> 'n \<Rightarrow>
     (apr_status \<times> cstring option \<times> 'n) option" where
  "fold_lines get n do_alloc l net =
     (case get net AP_MODE_SPECULATIVE False 1 of
        (rv, bb, net1) \<Rightarrow>
          if rv \<noteq> APR_SUCCESS then Some (rv, Some l, net1)
          else if bb = [] \<or> hd bb = BEos then Some (APR_SUCCESS, Some l, net1)
          else
            (case bkt_read False (hd bb) of
               (rv, str, es) \<Rightarrow>
                 if rv \<noteq> APR_SUCCESS then Some (rv, Some l, net1)
                 else if cget str 0 = CHR '' '' \<or> cget str 0 = TAB then
                   (if length l \<ge> n then Some (APR_ENOSPC, Some (take (n - 1) l), net1)
                    else
                      (case rgetline_line get (n - length l) (if do_alloc then None else Some []) net1 of
                         None \<Rightarrow> None
                       | Some (rv, tmp, eos, net2) \<Rightarrow>
                           if rv \<noteq> APR_SUCCESS then Some (rv, Some (if do_alloc then l else l @ handled tmp), net2)
                           else fold_lines get n do_alloc (l @ handled tmp) net2))
                 else Some (APR_SUCCESS, Some l, net1)))"

declare fold_lines.simps [code]

text \<open>
  \<open>ap_rgetline_core\<close>; \<open>s\<close> is \<open>None\<close> when the function is to allocate, \<open>Some []\<close> for the caller's
  buffer. On success \<open>*read\<close> is the length of the line.
\<close>

definition rgetline_core ::
  "('n \<Rightarrow> input_mode \<Rightarrow> bool \<Rightarrow> int \<Rightarrow> apr_status \<times> bkt list \<times> 'n) \<Rightarrow> nat \<Rightarrow> cstring option \<Rightarrow> bool \<Rightarrow> 'n \<Rightarrow>
     (apr_status \<times> cstring option \<times> 'n) option" where
  "rgetline_core get n s unfold_lws net =
     (case rgetline_line get n s net of
        None \<Rightarrow> None
      | Some (rv, s1, saw_eos, net1) \<Rightarrow>
          if rv \<noteq> APR_SUCCESS then Some (rv, s1, net1)
          else if unfold_lws \<and> handled s1 \<noteq> [] \<and> \<not> saw_eos then fold_lines get n (s = None) (handled s1) net1
          else Some (APR_SUCCESS, s1, net1))"

text \<open>\<open>ap_getline\<close>: the result, the buffer, and what is left.\<close>

definition getline ::
  "('n \<Rightarrow> input_mode \<Rightarrow> bool \<Rightarrow> int \<Rightarrow> apr_status \<times> bkt list \<times> 'n) \<Rightarrow> nat \<Rightarrow> bool \<Rightarrow> 'n \<Rightarrow> (int \<times> cstring \<times> 'n) option" where
  "getline get n unfold_lws net =
     map_option (\<lambda>(rv, s, net1).
         (if rv = APR_ENOSPC then int n else if rv \<noteq> APR_SUCCESS then - 1 else int (length (handled s)), handled s, net1))
       (rgetline_core get n (Some []) unfold_lws net)"

section \<open>The bound on the buffer\<close>

text \<open>No more than \<open>n\<close> bytes are ever in the buffer.\<close>

lemma handled_simps [simp]: "handled None = []" "handled (Some b) = b"
  by (simp_all add: handled_def)

lemma copy_line_bound:
  "length (handled s) \<le> n \<Longrightarrow> copy_line n bb s = (st, eos, s1) \<Longrightarrow> length (handled s1) \<le> n"
proof (induction n bb s arbitrary: st eos s1 rule: copy_line.induct)
  case (1 n s)
  then show ?case by (simp add: copy_line.simps)
next
  case (2 n e bb s)
  let ?rv = "fst (bkt_read False e)" let ?str = "fst (snd (bkt_read False e))" let ?es = "snd (snd (bkt_read False e))"
  consider "e = BEos \<or> ?rv \<noteq> APR_SUCCESS" | "e \<noteq> BEos" "?rv = APR_SUCCESS" "?str = []"
    | "e \<noteq> BEos" "?rv = APR_SUCCESS" "?str \<noteq> []" "n < length (handled s) + length ?str"
    | "e \<noteq> BEos" "?rv = APR_SUCCESS" "?str \<noteq> []" "\<not> n < length (handled s) + length ?str" by blast
  then show ?case
  proof cases
    case 1
    then show ?thesis using 2(3,4) by (subst (asm) copy_line.simps) (auto simp: Let_def split: if_splits)
  next
    case 3
    then have "s1 = map_option butlast s" using 2(4) by (subst (asm) copy_line.simps) (simp add: Let_def)
    then show ?thesis using 2(3) by (cases s) auto
  next
    case c: 2
    then have "copy_line n (tl ?es @ bb) s = (st, eos, s1)" using 2(4) by (subst (asm) copy_line.simps) (simp add: Let_def)
    then show ?thesis using 2(1) [OF c(1) refl refl refl] c 2(3) by simp
  next
    case c: 4
    then have "copy_line n (tl ?es @ bb) (Some (handled s @ ?str)) = (st, eos, s1)"
      using 2(4) by (subst (asm) copy_line.simps) (simp add: Let_def)
    then show ?thesis using 2(2) [OF c(1) refl refl refl] c by simp
  qed
qed

lemma copy_line_memory:
  "in_memory bb \<Longrightarrow> length (handled s) + length (mem_bytes bb) \<le> n \<Longrightarrow>
    copy_line n bb s = (APR_SUCCESS, False, if mem_bytes bb = [] then s else Some (handled s @ mem_bytes bb))"
proof (induction bb arbitrary: s)
  case Nil
  then show ?case by (simp add: copy_line.simps)
next
  case (Cons e bb)
  then obtain d where e: "e = BData d" by auto
  show ?case
  proof (cases "d = []")
    case True
    then show ?thesis using Cons e by (subst copy_line.simps) simp
  next
    case False
    then have "copy_line n (e # bb) s = copy_line n bb (Some (handled s @ d))"
      using Cons.prems e by (subst copy_line.simps) simp
    then show ?thesis using Cons.IH [of "Some (handled s @ d)"] Cons.prems False e by simp
  qed
qed

lemma copy_line_bytes:
  "copy_line n bb s = (APR_SUCCESS, saw, s1) \<Longrightarrow> \<exists>x y. handled s1 = handled s @ x \<and> bb_bytes bb = x @ y"
proof (induction n bb s arbitrary: saw s1 rule: copy_line.induct)
  case (1 n s)
  then show ?case by (simp add: copy_line.simps)
next
  case (2 n e bb s)
  obtain rv str es where rd: "bkt_read False e = (rv, str, es)" using prod_cases3 by blast
  have b: "rv = APR_SUCCESS \<Longrightarrow> bb_bytes (e # bb) = str @ bb_bytes (tl es @ bb)"
    using bkt_read_bytes(2) [OF rd] by simp
  consider "e = BEos" | "e \<noteq> BEos" "rv = APR_SUCCESS" "str = []" "copy_line n (tl es @ bb) s = (APR_SUCCESS, saw, s1)"
    | "e \<noteq> BEos" "rv = APR_SUCCESS" "str \<noteq> []" "\<not> n < length (handled s) + length str"
      "copy_line n (tl es @ bb) (Some (handled s @ str)) = (APR_SUCCESS, saw, s1)"
    using 2(3) rd by (subst (asm) copy_line.simps) (auto simp: Let_def split: if_splits)
  then show ?case
  proof cases
    case 1
    then show ?thesis using 2(3) by (subst (asm) copy_line.simps) auto
  next
    case c: 2
    then show ?thesis using 2(1) [OF c(1) refl refl refl, unfolded rd fst_conv snd_conv, OF _ c(3,4)] b by simp
  next
    case c: 3
    then obtain x y where "handled s1 = handled (Some (handled s @ str)) @ x" "bb_bytes (tl es @ bb) = x @ y"
      using 2(2) [OF c(1) refl refl refl, unfolded rd fst_conv snd_conv, OF _ c(3,4,5)] by auto
    then show ?thesis using b c(2) by auto
  qed
qed

text \<open>A line that is too long: the buffer holds what came before, less its last byte.\<close>

lemma copy_line_full:
  "in_memory bb \<Longrightarrow> length (handled s) \<le> n \<Longrightarrow> n < length (handled s) + length (mem_bytes bb) \<Longrightarrow>
    \<exists>s1. copy_line n bb s = (APR_ENOSPC, False, s1) \<and> (\<exists>t. handled s @ mem_bytes bb = handled s1 @ t)"
proof (induction bb arbitrary: s)
  case (Cons e bb)
  then obtain d where e: "e = BData d" by auto
  show ?case
  proof (cases "d = []")
    case True
    then show ?thesis using Cons e by (subst copy_line.simps) auto
  next
    case False
    show ?thesis
    proof (cases "n < length (handled s) + length d")
      case True
      have "\<exists>t. handled s = handled (map_option butlast s) @ t"
        by (cases s) (auto intro: exI [of _ "drop (length (the s) - 1) (the s)"] simp: butlast_conv_take)
      then show ?thesis using True False e by (subst copy_line.simps) auto
    next
      case F: False
      then have "copy_line n (e # bb) s = copy_line n bb (Some (handled s @ d))"
        using False e by (subst copy_line.simps) simp
      then show ?thesis using Cons.IH [of "Some (handled s @ d)"] Cons.prems F e by simp
    qed
  qed
qed simp

text \<open>A line without its end.\<close>

definition chop_cr :: "cstring \<Rightarrow> cstring" where
  "chop_cr l = (if l \<noteq> [] \<and> List.last l = CR then butlast l else l)"

lemma line_end_lf [simp]: "line_end (l @ [LF]) = chop_cr l"
  by (simp add: line_end_def chop_cr_def)

lemma chop_cr_crlf [simp]: "chop_cr (l @ [CR]) = l"
  by (simp add: chop_cr_def)

section \<open>Lines over the interface of the filters\<close>

context byte_source
begin

lemma rgetline_line_ok:
  assumes "source_ok n" "content n = l @ LF # rest" "LF \<notin> set l" "length l < HUGE_STRING_LEN" "length l < lim"
  shows "\<exists>n'. rgetline_line get lim None n = Some (APR_SUCCESS, Some (chop_cr l), False, n') \<and>
    content n' = rest \<and> source_ok n'"
proof -
  obtain b n' where g: "get n AP_MODE_GETLINE False 0 = (APR_SUCCESS, b, n')" "in_memory b" "mem_bytes b = l @ [LF]"
      "content n' = rest" "source_ok n'"
    using get_line [OF assms(1-4), of 0] by blast
  have "copy_line lim b None = (APR_SUCCESS, False, Some (l @ [LF]))"
    using copy_line_memory [OF g(2), of None lim] g(3) assms(5) by simp
  moreover have "b \<noteq> []" using g(3) by auto
  ultimately have "read_line get lim None False n = Some (APR_SUCCESS, Some (l @ [LF]), False, n')"
    using g(1) by (subst read_line.simps) (simp add: ends_with_lf_def)
  then show ?thesis using g(4,5) by (simp add: rgetline_line_def)
qed

lemma rgetline_core_ok:
  assumes "source_ok n" "content n = l @ LF # rest" "LF \<notin> set l" "length l < HUGE_STRING_LEN" "length l < lim"
  shows "\<exists>n'. rgetline_core get lim None False n = Some (APR_SUCCESS, Some (chop_cr l), n') \<and>
    content n' = rest \<and> source_ok n'"
  using rgetline_line_ok [OF assms] by (auto simp: rgetline_core_def)

lemma rgetline_core_long:
  assumes "source_ok n" "content n = l @ LF # rest" "LF \<notin> set l" "length l < HUGE_STRING_LEN" "lim \<le> length l"
  shows "\<exists>s n'. rgetline_core get lim None False n = Some (APR_ENOSPC, s, n') \<and>
    (\<exists>t. l @ [LF] = handled s @ t) \<and> content n' = rest"
proof -
  obtain b n' where g: "get n AP_MODE_GETLINE False 0 = (APR_SUCCESS, b, n')" "in_memory b" "mem_bytes b = l @ [LF]"
      "content n' = rest"
    using get_line [OF assms(1-4), of 0] by blast
  obtain s where s: "copy_line lim b None = (APR_ENOSPC, False, s)" "\<exists>t. l @ [LF] = handled s @ t"
    using copy_line_full [OF g(2), of None lim] g(3) assms(5) by auto
  moreover have "b \<noteq> []" using g(3) by auto
  ultimately have "read_line get lim None False n = Some (APR_ENOSPC, s, False, n')"
    using g(1) by (subst read_line.simps) simp
  then show ?thesis using g(4) s(2) by (simp add: rgetline_core_def rgetline_line_def)
qed

end

section \<open>Reading a line always returns\<close>

text \<open>What is left to read, in bytes and in buckets: every line that is read takes from it.\<close>

definition left_in :: "bkt list \<Rightarrow> nat" where
  "left_in b = bb_size b + length (bb_bytes b)"

definition net_left :: "core_net \<Rightarrow> nat" where
  "net_left net = left_in (case in_ctx net of None \<Rightarrow> [BSock (client_socket net)] | Some b \<Rightarrow> b)"

lemma left_in_simps [simp]:
  "left_in [] = 0" "left_in (e # b) = bkt_size e + length (bkt_bytes e) + left_in b" "left_in (b @ c) = left_in b + left_in c"
  by (simp_all add: left_in_def)

lemma socket_read_blocks: "fst (socket_read False evs) \<noteq> APR_EAGAIN"
  by (induction "False" evs rule: socket_read.induct) auto

lemma socket_read_left: "left_in (snd (snd (socket_read nb evs))) \<le> 2 + length evs + length (sock_bytes evs)"
  by (induction nb evs rule: socket_read.induct) (auto split: if_splits)

lemma bkt_read_left: "bkt_read nb e = (st, str, es) \<Longrightarrow> left_in es \<le> bkt_size e + length (bkt_bytes e)"
proof (cases e)
  case (BSock evs)
  then show "bkt_read nb e = (st, str, es) \<Longrightarrow> ?thesis" using socket_read_left [of nb evs] by simp
qed auto

lemma bkt_read_first:
  assumes "bkt_read nb e = (st, str, es)" "st = APR_SUCCESS"
  shows "left_in es = left_in (tl es) + 1 + length str \<or> (is_metadata e \<and> str = [] \<and> es = [e])"
proof -
  have F: "es \<noteq> []" "is_metadata e \<or> hd es = BData str" using bkt_read_facts [OF assms(1)] assms(2) by auto
  show ?thesis
  proof (cases "is_metadata e")
    case True
    then show ?thesis using assms by (cases e) auto
  next
    case False
    then have "es = BData str # tl es" using F by (cases es) auto
    then have "left_in es = left_in (BData str # tl es)" by simp
    then show ?thesis by simp
  qed
qed

lemma split_line_left:
  "brigade_split_line False m r out b = (st, out', b') \<Longrightarrow>
    left_in b' \<le> left_in b \<and> (st = APR_SUCCESS \<and> b \<noteq> [] \<longrightarrow> left_in b' < left_in b)"
proof (induction "False" m r out b arbitrary: st out' b' rule: brigade_split_line.induct)
  case (1 m r out)
  then show ?case by (simp add: brigade_split_line.simps)
next
  case (2 m r out e b)
  obtain st1 s es where rd: "bkt_read False e = (st1, s, es)" by (cases "bkt_read False e")
  note L = bkt_read_left [OF rd]
  show ?case
  proof (cases "st1 = APR_SUCCESS")
    case False
    then show ?thesis using 2(2) L rd by (auto simp: brigade_split_line.simps Let_def)
  next
    case st: True
    have t: "left_in (tl es) < bkt_size e + length (bkt_bytes e)"
    proof -
      from bkt_read_first [OF rd st] have "left_in es > left_in (tl es)" by (cases es) (auto simp: less_Suc_eq_le)
      then show ?thesis using L by simp
    qed
    show ?thesis
    proof (cases "LF \<in> set s")
      case True
      let ?n = "length (takeWhile (\<lambda>c. c \<noteq> LF) s) + 1"
      have b': "st = APR_SUCCESS" "b' = BData (drop ?n s) # tl es @ b"
        using 2(2) rd st True by (auto simp: brigade_split_line.simps Let_def)
      have "s \<noteq> []" using True by auto
      then have "left_in es = left_in (tl es) + 1 + length s" using bkt_read_first [OF rd st] by auto
      moreover have "length (drop ?n s) < length s" using \<open>s \<noteq> []\<close> by simp
      moreover have "left_in b' = 1 + length (drop ?n s) + left_in (tl es) + left_in b" using b'(2) by simp
      ultimately have "left_in b' < left_in (e # b)" using L unfolding left_in_simps by linarith
      then show ?thesis by simp
    next
      case False
      show ?thesis
      proof (cases "r + length s \<ge> m")
        case True
        then show ?thesis using 2(2) rd st False t by (auto simp: brigade_split_line.simps Let_def)
      next
        case F: False
        then have "brigade_split_line False m (r + length s) (out @ line_piece e s) (tl es @ b) = (st, out', b')"
          using 2(2) rd st False by (simp add: brigade_split_line.simps Let_def)
        with 2(1) [OF refl refl refl] rd st False F have "left_in b' \<le> left_in (tl es @ b)" by auto
        then show ?thesis using t by simp
      qed
    qed
  qed
qed

lemma normalize_left: "left_in (brigade_normalize b) \<le> left_in b"
  by (induction b) (auto simp: brigade_normalize_def)

lemma core_line_left:
  assumes "core_input_filter over net AP_MODE_GETLINE False k = (APR_SUCCESS, bb, net')" "bb \<noteq> []"
  shows "net_left net' < net_left net"
proof -
  define b0 where "b0 = (case in_ctx net of None \<Rightarrow> [BSock (client_socket net)] | Some b \<Rightarrow> b)"
  let ?c = "brigade_normalize b0"
  obtain rv out ctx' where s: "brigade_split_line False HUGE_STRING_LEN 0 [] ?c = (rv, out, ctx')" using prod_cases3 by blast
  have "?c \<noteq> []" using assms by (auto simp: core_input_filter_def b0_def [symmetric] Let_def split: if_splits)
  then have r: "(if rv = APR_EAGAIN then APR_SUCCESS else rv) = APR_SUCCESS" "bb = out" "net' = net\<lparr>in_ctx := Some ctx'\<rparr>"
    using assms s by (auto simp: core_input_filter_def b0_def [symmetric] Let_def split: if_splits)
  have "rv = APR_SUCCESS"
  proof (rule ccontr)
    assume "rv \<noteq> APR_SUCCESS"
    then have "rv = APR_EAGAIN" using r(1) by (auto split: if_splits)
    moreover have "brigade_split_line False m n o1 b = (APR_EAGAIN, o2, b2) \<Longrightarrow> False" for m n o1 b o2 b2
    proof (induction "False" m n o1 b rule: brigade_split_line.induct)
      case (2 m r out e b)
      have "fst (bkt_read False e) \<noteq> APR_EAGAIN"
      proof (cases e)
        case (BSock evs)
        then show ?thesis using socket_read_blocks by simp
      qed auto
      then show ?case using 2 by (auto simp: brigade_split_line.simps Let_def split: if_splits)
    qed (simp add: brigade_split_line.simps)
    ultimately show False using s by blast
  qed
  then have "left_in ctx' < left_in ?c" using split_line_left [OF s] \<open>?c \<noteq> []\<close> by simp
  also have "\<dots> \<le> left_in b0" by (rule normalize_left)
  finally show ?thesis by (simp add: net_left_def r(3) b0_def)
qed

lemma net_left_ctx [simp]: "net_left (net\<lparr>in_ctx := Some c\<rparr>) = left_in c"
  by (simp add: net_left_def)

lemma core_line_net:
  "core_input_filter over net AP_MODE_GETLINE False k = (rv, bb, net') \<Longrightarrow> \<exists>x. net_bytes net = x @ net_bytes net'"
  by (drule core_input_bytes(1)) (simp_all, rule exI, erule sym)

lemma read_line_returns:
  "\<exists>rv s1 eos1 net1. read_line (core_input_filter over) n s eos net = Some (rv, s1, eos1, net1) \<and>
    (rv = APR_SUCCESS \<longrightarrow> ends_with_lf s1 \<and> (ends_with_lf s \<or> length (net_bytes net1) < length (net_bytes net))) \<and>
    (length (handled s) \<le> n \<longrightarrow> length (handled s1) \<le> n) \<and>
    (\<exists>x. net_bytes net = x @ net_bytes net1)"
proof (induction "net_left net" arbitrary: s eos net rule: less_induct)
  case less
  obtain rv bb net1 where g: "core_input_filter over net AP_MODE_GETLINE False 0 = (rv, bb, net1)" using prod_cases3 by blast
  note x = core_line_net [OF g]
  show ?case
  proof (cases "rv = APR_SUCCESS \<and> bb \<noteq> []")
    case False
    then show ?thesis using g x by (subst read_line.simps) auto
  next
    case True
    then have less: "net_left net1 < net_left net" using core_line_left [of over net 0 bb net1] g by simp
    obtain st saw s1 where c: "copy_line n bb s = (st, saw, s1)" using prod_cases3 by blast
    note cb = copy_line_bound [OF _ c]
    have all: "net_bytes net = bb_bytes bb @ net_bytes net1"
      using core_input_bytes(1) [OF g] by simp
    have grow: "st = APR_SUCCESS \<Longrightarrow> bb_bytes bb = [] \<Longrightarrow> ends_with_lf s1 = ends_with_lf s"
      using copy_line_bytes [of n bb s saw s1] c by (auto simp: ends_with_lf_def)
    show ?thesis
    proof (cases "st = APR_SUCCESS \<and> \<not> ends_with_lf s1")
      case False
      moreover have "st = APR_SUCCESS \<Longrightarrow> ends_with_lf s1 \<Longrightarrow> ends_with_lf s \<or> length (net_bytes net1) < length (net_bytes net)"
        using grow all by (cases "bb_bytes bb") auto
      ultimately show ?thesis using g x c cb True by (subst read_line.simps) auto
    next
      case more: True
      have "read_line (core_input_filter over) n s eos net = read_line (core_input_filter over) n s1 (eos \<or> saw) net1"
        using g c True more by (subst read_line.simps) simp
      moreover obtain rv s2 eos1 net2 where r: "read_line (core_input_filter over) n s1 (eos \<or> saw) net1 = Some (rv, s2, eos1, net2)"
        "rv = APR_SUCCESS \<longrightarrow> ends_with_lf s2 \<and> (ends_with_lf s1 \<or> length (net_bytes net2) < length (net_bytes net1))"
        "length (handled s1) \<le> n \<longrightarrow> length (handled s2) \<le> n" "\<exists>x. net_bytes net1 = x @ net_bytes net2"
        using less.hyps [OF less, of s1 "eos \<or> saw"] by blast
      moreover have "\<exists>x. net_bytes net = x @ net_bytes net2" using r(4) all by (metis append.assoc)
      ultimately show ?thesis using more cb all by auto
    qed
  qed
qed

lemma line_end_length: "s \<noteq> [] \<Longrightarrow> length (line_end s) < length s"
  by (cases s rule: rev_cases) (auto simp: line_end_def Let_def)

lemma rgetline_line_returns:
  "\<exists>rv s1 eos1 net1. rgetline_line (core_input_filter over) n s net = Some (rv, s1, eos1, net1) \<and>
    (rv = APR_SUCCESS \<longrightarrow> (ends_with_lf s \<or> length (net_bytes net1) < length (net_bytes net)) \<and> s1 \<noteq> None \<and> (length (handled s) \<le> n \<longrightarrow> length (handled s1) < n)) \<and>
    (length (handled s) \<le> n \<longrightarrow> length (handled s1) \<le> n) \<and> (\<exists>x. net_bytes net = x @ net_bytes net1)"
proof -
  from read_line_returns [of over n s False net] obtain rv s1 eos1 net1 where
    r: "read_line (core_input_filter over) n s False net = Some (rv, s1, eos1, net1)"
      "rv = APR_SUCCESS \<longrightarrow> ends_with_lf s1 \<and> (ends_with_lf s \<or> length (net_bytes net1) < length (net_bytes net))"
      "length (handled s) \<le> n \<longrightarrow> length (handled s1) \<le> n" "\<exists>x. net_bytes net = x @ net_bytes net1" by blast
  have "rv = APR_SUCCESS \<Longrightarrow> length (line_end (handled s1)) < length (handled s1)"
    using r(2) by (auto simp: ends_with_lf_def intro: line_end_length)
  then show ?thesis using r by (auto simp: rgetline_line_def)
qed

lemma core_spec_net:
  "core_input_filter over net AP_MODE_SPECULATIVE False k = (rv, bb, net') \<Longrightarrow> net_bytes net' = net_bytes net"
  using core_input_bytes(2) [of over net AP_MODE_SPECULATIVE False k rv bb net'] by simp

lemma fold_lines_returns:
  "length l < n \<Longrightarrow> \<exists>rv l1 net1. fold_lines (core_input_filter over) n da l net = Some (rv, Some l1, net1) \<and>
    length l1 \<le> n \<and> (rv = APR_SUCCESS \<longrightarrow> length l1 < n) \<and> (\<exists>x. net_bytes net = x @ net_bytes net1)"
proof (induction "length (net_bytes net)" arbitrary: l net rule: less_induct)
  case less
  obtain rv bb net1 where g: "core_input_filter over net AP_MODE_SPECULATIVE False 1 = (rv, bb, net1)" using prod_cases3 by blast
  note same = core_spec_net [OF g]
  show ?case
  proof (cases "rv = APR_SUCCESS \<and> \<not> (bb = [] \<or> hd bb = BEos)")
    case False
    then show ?thesis using g same less.prems by (subst fold_lines.simps) auto
  next
    case True
    obtain st str es where rd: "bkt_read False (hd bb) = (st, str, es)" using prod_cases3 by blast
    show ?thesis
    proof (cases "st = APR_SUCCESS \<and> (cget str 0 = CHR '' '' \<or> cget str 0 = TAB)")
      case False
      then show ?thesis using g same less.prems True rd by (subst fold_lines.simps) auto
    next
      case more: True
      let ?s = "if da then None else Some []"
      from rgetline_line_returns [of over "n - length l" ?s net1] obtain rv2 tmp eos net2 where
        r: "rgetline_line (core_input_filter over) (n - length l) ?s net1 = Some (rv2, tmp, eos, net2)"
          "rv2 = APR_SUCCESS \<longrightarrow> (ends_with_lf ?s \<or> length (net_bytes net2) < length (net_bytes net1)) \<and> tmp \<noteq> None \<and>
             (length (handled ?s) \<le> n - length l \<longrightarrow> length (handled tmp) < n - length l)"
          "length (handled ?s) \<le> n - length l \<longrightarrow> length (handled tmp) \<le> n - length l" "\<exists>x. net_bytes net1 = x @ net_bytes net2"
        by blast
      have z: "handled ?s = []" "\<not> ends_with_lf ?s" by (simp_all add: ends_with_lf_def)
      have F: "fold_lines (core_input_filter over) n da l net =
          (if rv2 \<noteq> APR_SUCCESS then Some (rv2, Some (if da then l else l @ handled tmp), net2)
           else fold_lines (core_input_filter over) n da (l @ handled tmp) net2)"
        using g True rd more less.prems r(1) by (subst fold_lines.simps) auto
      show ?thesis
      proof (cases "rv2 = APR_SUCCESS")
        case ok: True
        then have "length (net_bytes net2) < length (net_bytes net)" "length (l @ handled tmp) < n"
          using r(2) z same by auto
        from less.hyps [OF this] show ?thesis using F ok r(4) same by (auto simp: append_assoc [symmetric] simp del: append_assoc)
      next
        case err: False
        show ?thesis using F err r less.prems z same by auto
      qed
    qed
  qed
qed

text \<open>
  C33. \<open>ap_rgetline_core\<close> returns on every connection, whatever the client sends and in whatever pieces,
  with or without continuation lines: it never holds more bytes than the limit, on success the line with
  its terminator fits, and what is left of the connection is a suffix of what there was.
\<close>
theorem rgetline_returns:
  "\<exists>rv s net1. rgetline_core (core_input_filter over) n (if do_alloc then None else Some []) folded net = Some (rv, s, net1) \<and>
    length (handled s) \<le> n \<and> (rv = APR_SUCCESS \<longrightarrow> length (handled s) < n) \<and> (\<exists>x. net_bytes net = x @ net_bytes net1)"
proof -
  let ?s = "if do_alloc then None else Some []"
  have z: "handled ?s = []" by simp
  from rgetline_line_returns [of over n ?s net] obtain rv s1 eos net1 where
    r: "rgetline_line (core_input_filter over) n ?s net = Some (rv, s1, eos, net1)"
      "rv = APR_SUCCESS \<longrightarrow> s1 \<noteq> None \<and> length (handled s1) < n" "length (handled s1) \<le> n" "\<exists>x. net_bytes net = x @ net_bytes net1"
    using z by auto
  show ?thesis
  proof (cases "rv = APR_SUCCESS \<and> folded \<and> handled s1 \<noteq> [] \<and> \<not> eos")
    case True
    then have F: "rgetline_core (core_input_filter over) n ?s folded net =
        fold_lines (core_input_filter over) n (?s = None) (handled s1) net1"
      using r(1) by (simp add: rgetline_core_def)
    obtain rv2 l1 net2 where f: "fold_lines (core_input_filter over) n (?s = None) (handled s1) net1 = Some (rv2, Some l1, net2)"
        "length l1 \<le> n" "rv2 = APR_SUCCESS \<longrightarrow> length l1 < n" "\<exists>x. net_bytes net1 = x @ net_bytes net2"
      using fold_lines_returns [of "handled s1" n over "?s = None" net1] True r(2) by blast
    have "\<exists>x. net_bytes net = x @ net_bytes net2" using f(4) r(4) by (metis append.assoc)
    moreover have "rgetline_core (core_input_filter over) n ?s folded net = Some (rv2, Some l1, net2)" by (rule trans [OF F f(1)])
    moreover have "length (handled (Some l1)) \<le> n" "rv2 = APR_SUCCESS \<longrightarrow> length (handled (Some l1)) < n" using f(2,3) by simp_all
    ultimately show ?thesis by blast
  next
    case False
    then show ?thesis using r by (auto simp: rgetline_core_def)
  qed
qed

definition folded_net :: core_net where
  "folded_net = \<lparr>in_ctx = None, client_socket = [Arrive ''A: b'', WouldBlock, Arrive ([CR, LF] @ '' c''), Arrive ([LF] @ ''x'')]\<rparr>"

theorem rgetline_returns_witness:
  "\<exists>net1. rgetline_core (core_input_filter NUL) 20 None True folded_net = Some (APR_SUCCESS, Some ''A: b c'', net1) \<and>
    length ''A: b c'' < (20 :: nat)"
proof -
  obtain net1 where n: "rgetline_core (core_input_filter NUL) 20 None True folded_net = Some (APR_SUCCESS, Some ''A: b c'', net1)"
  proof -
    have "map_option (\<lambda>(rv, s, n). (rv, s)) (rgetline_core (core_input_filter NUL) 20 None True folded_net) = Some (APR_SUCCESS, Some ''A: b c'')"
      by code_simp
    then show ?thesis using that by auto
  qed
  moreover have "length ''A: b c'' < (20 :: nat)"
    using rgetline_returns [of NUL 20 True True folded_net] n by auto
  ultimately show ?thesis by blast
qed

end
