(* ===== verification/Http_Request.thy ===== *)
theory Http_Request
  imports Http_Getline Apr_Uri Apr_Table_Sort Util_Word Util_Escape Http_Cond
begin

text \<open>
  Reading a request, \<open>server/protocol.c\<close>: the request line with its URI and protocol, the header fields
  with continuation lines, and the checks of \<open>ap_read_request\<close>. A request is the part of \<open>request_rec\<close> that
  this file fills in. \<open>get\<close> is the input filter below; the hooks, the virtual hosts and the clock are
  parameters or left out where they only log.
\<close>

section \<open>State\<close>

record req =
  q_the_request :: "cstring option"
  q_method :: cstring
  q_method_number :: int
  q_header_only :: bool
  q_unparsed_uri :: cstring
  q_parsed_uri :: uri
  q_hostname :: "cstring option"
  q_args :: "cstring option"
  q_uri :: cstring
  q_assbackwards :: bool
  q_protocol :: cstring
  q_proto_num :: int
  q_status :: int
  q_headers_in :: table
  q_error_notes :: "cstring option"
  q_expecting_100 :: bool
  q_server :: nat

text \<open>
  The limits of \<open>server_rec\<close>, which the configuration keeps from being negative, \<open>ap_http_scheme\<close>, the
  registry of the methods, and the number of the server, \<open>conn->base_server\<close>.
\<close>

record srv =
  limit_req_line :: nat
  limit_req_fields :: nat
  limit_req_fieldsize :: nat
  srv_http_scheme :: cstring
  srv_methods :: method_state
  srv_index :: nat

definition DEFAULT_LIMIT_REQUEST_FIELDS :: nat where "DEFAULT_LIMIT_REQUEST_FIELDS = 100"
definition HTTP_REQUEST_URI_TOO_LARGE :: int where "HTTP_REQUEST_URI_TOO_LARGE = 414"
definition HTTP_EXPECTATION_FAILED :: int where "HTTP_EXPECTATION_FAILED = 417"
definition M_CONNECT :: int where "M_CONNECT = 4"

text \<open>A buffer read as a C string.\<close>

definition c_string :: "cstring \<Rightarrow> cstring" where
  "c_string b = takeWhile (\<lambda>c. c \<noteq> NUL) b"

section \<open>The URI of the request\<close>

fun skip_slashes :: "cstring \<Rightarrow> cstring" where
  "skip_slashes (c # d # uri) =
     (if c = CHR ''/'' \<and> d = CHR ''/'' then skip_slashes (d # uri) else c # d # uri)"
| "skip_slashes uri = uri"

definition parse_uri :: "srv \<Rightarrow> req \<Rightarrow> cstring \<Rightarrow> req" where
  "parse_uri srv r uri0 =
     (let r1 = r\<lparr>q_unparsed_uri := uri0\<rparr>;
          uri = skip_slashes uri0;
          res = (if q_method_number r1 = M_CONNECT then uri_parse_hostinfo uri else uri_parse uri);
          u = snd res;
          r2 = r1\<lparr>q_parsed_uri := u\<rparr>
      in if fst res then
           (let r3 = (if (case u_scheme u of None \<Rightarrow> False | Some s \<Rightarrow> strcaseeq s (srv_http_scheme srv))
                      then r2\<lparr>q_hostname := u_hostname u\<rparr>
                      else if q_method_number r2 = M_CONNECT then r2\<lparr>q_hostname := u_hostname u\<rparr> else r2)
            in r3\<lparr>q_args := u_query u, q_uri := (case u_path u of Some p \<Rightarrow> p | None \<Rightarrow> ''/'')\<rparr>)
         else r2\<lparr>q_args := None, q_hostname := None, q_status := HTTP_BAD_REQUEST, q_uri := uri\<rparr>)"

section \<open>The protocol\<close>

text \<open>
  The conversion \<open>%u\<close> of \<open>sscanf\<close>: blanks, a sign, digits, by \<open>strtoul\<close> (64 bits, ULONG_MAX
  when there are too many) and cut to 32 bits; the destination is an \<open>int\<close>.
\<close>

definition scan_u :: "cstring \<Rightarrow> (u32 \<times> cstring) option" where
  "scan_u s =
     (let s1 = dropWhile c_isspace s;
          neg = (cget s1 0 = CHR ''-'');
          s2 = (if neg \<or> cget s1 0 = CHR ''+'' then tl s1 else s1);
          ds = takeWhile c_isdigit s2;
          v = dec_value ds;
          w = (if v \<ge> 2 ^ 64 then - 1 else if neg then - of_nat v else of_nat v)
      in if ds = [] then None else Some (w, drop (length ds) s2))"

text \<open>\<open>sscanf (protocol, "%4s/%u.%u", http, &major, &minor)\<close>, when all three are converted.\<close>

definition scan_protocol :: "cstring \<Rightarrow> (cstring \<times> u32 \<times> u32) option" where
  "scan_protocol s =
     (let s1 = dropWhile c_isspace s;
          http = take 4 (takeWhile (\<lambda>c. \<not> c_isspace c) s1);
          s2 = drop (length http) s1
      in if http = [] \<or> cget s2 0 \<noteq> CHR ''/'' then None
         else (case scan_u (tl s2) of
                 None \<Rightarrow> None
               | Some (major, s3) \<Rightarrow>
                   if cget s3 0 \<noteq> CHR ''.'' then None
                   else (case scan_u (tl s3) of None \<Rightarrow> None | Some (minor, s4) \<Rightarrow> Some (http, major, minor))))"

text \<open>The number of a protocol; \<open>1000 * major + minor\<close> is computed in an \<open>int\<close>, and wraps.\<close>

definition protocol_number :: "cstring \<Rightarrow> int" where
  "protocol_number pro =
     (if length pro = 8 \<and> take 5 pro = ''HTTP/'' \<and> c_isdigit (cget pro 5) \<and> cget pro 6 = CHR ''.'' \<and> c_isdigit (cget pro 7)
      then HTTP_VERSION (int (ccode (cget pro 5)) - 48) (int (ccode (cget pro 7)) - 48)
      else
        (case scan_protocol pro of
           None \<Rightarrow> HTTP_VERSION 1 0
         | Some (http, major, minor) \<Rightarrow>
             if strcaseeq ''http'' http \<and> sint minor < HTTP_VERSION 1 0 then sint (1000 * major + minor) else HTTP_VERSION 1 0))"

section \<open>The request line\<close>

text \<open>The loop over empty lines; \<open>num\<close> is \<open>num_blank_lines\<close>.\<close>

function request_line_loop ::
  "('n \<Rightarrow> input_mode \<Rightarrow> bool \<Rightarrow> int \<Rightarrow> apr_status \<times> bkt list \<times> 'n) \<Rightarrow> nat \<Rightarrow> nat \<Rightarrow> nat \<Rightarrow> 'n \<Rightarrow>
     (apr_status \<times> cstring option \<times> 'n) option" where
  "request_line_loop get lim max_blank_lines num net =
     (case rgetline_core get lim None False net of
        None \<Rightarrow> None
      | Some (rv, s, net1) \<Rightarrow>
          if rv \<noteq> APR_SUCCESS then Some (rv, s, net1)
          else if handled s = [] \<and> Suc num < max_blank_lines then request_line_loop get lim max_blank_lines (Suc num) net1
          else Some (APR_SUCCESS, s, net1))"
  by pat_completeness auto

termination request_line_loop by (relation "measure (\<lambda>(_, _, m, num, _). m - num)") auto

declare request_line_loop.simps [simp del]

definition parse_request_line :: "srv \<Rightarrow> req \<Rightarrow> cstring \<Rightarrow> req" where
  "parse_request_line srv r line =
     (let (meth, ll) = getword_white (c_string line);
          (uri, ll1) = getword_white ll;
          num = method_number_of (srv_methods srv) meth;
          r1 = r\<lparr>q_the_request := Some line, q_method := meth, q_method_number := num,
                q_header_only := (if num = M_GET \<and> cget meth 0 = CHR ''H'' then True else q_header_only r)\<rparr>;
          r2 = parse_uri srv r1 uri;
          pro = (if ll1 \<noteq> [] then ll1 else ''HTTP/0.9'')
      in r2\<lparr>q_assbackwards := (ll1 = []), q_protocol := pro, q_proto_num := protocol_number pro\<rparr>)"

definition read_request_line ::
  "('n \<Rightarrow> input_mode \<Rightarrow> bool \<Rightarrow> int \<Rightarrow> apr_status \<times> bkt list \<times> 'n) \<Rightarrow> srv \<Rightarrow> req \<Rightarrow> 'n \<Rightarrow> (bool \<times> req \<times> 'n) option" where
  "read_request_line get srv r net =
     (let max_blank_lines = (if limit_req_fields srv \<le> 0 then DEFAULT_LIMIT_REQUEST_FIELDS else limit_req_fields srv)
      in case request_line_loop get (limit_req_line srv + 2) max_blank_lines 0 net of
           None \<Rightarrow> None
         | Some (rv, s, net1) \<Rightarrow>
             if rv \<noteq> APR_SUCCESS then
               (let r1 = r\<lparr>q_the_request := s\<rparr>
                in Some (False,
                     if rv = APR_ENOSPC then
                       r1\<lparr>q_status := HTTP_REQUEST_URI_TOO_LARGE, q_proto_num := HTTP_VERSION 1 0, q_protocol := ''HTTP/1.0''\<rparr>
                     else if rv = APR_TIMEUP then r1\<lparr>q_status := HTTP_REQUEST_TIME_OUT\<rparr> else r1, net1))
             else Some (True, parse_request_line srv r (handled s), net1))"

section \<open>The header fields\<close>

text \<open>Blanks: \<open>strip_end\<close> takes them off the end, but never the first character.\<close>

definition lws :: "char \<Rightarrow> bool" where
  "lws c \<longleftrightarrow> c = CHR '' '' \<or> c = TAB"

definition strip_end :: "cstring \<Rightarrow> cstring" where
  "strip_end s = (case s of [] \<Rightarrow> [] | c # t \<Rightarrow> c # rev (dropWhile lws (rev t)))"

text \<open>
  The field that is complete when the next line does not continue it: name and value, or \<open>None\<close>
  without a colon. The buffer may hold NUL bytes; the colon is looked for before the first one.
\<close>

definition split_field :: "cstring \<Rightarrow> (cstring \<times> cstring) option" where
  "split_field last_field =
     (case strchr (c_string last_field) (CHR '':'') of
        None \<Rightarrow> None
      | Some i \<Rightarrow>
          Some (strip_end (take i last_field), c_string (strip_end (dropWhile lws (drop (i + 1) last_field)))))"

definition note_oversize :: "cstring \<Rightarrow> cstring" where
  "note_oversize field = ''Size of a request header field exceeds server limit.<br />'' @ [LF] @ ''<pre>'' @ [LF] @
     escape_html2 (c_string field) False @ ''</pre>'' @ [LF]"

definition note_folded :: "cstring \<Rightarrow> cstring" where
  "note_folded field = ''Size of a request header field after folding exceeds server limit.<br />'' @ [LF] @ ''<pre>'' @ [LF] @
     escape_html2 (c_string field) False @ ''</pre>'' @ [LF]"

definition note_fields :: cstring where
  "note_fields = ''The number of request header fields exceeds this server's limit.''"

definition note_colon :: "cstring \<Rightarrow> cstring" where
  "note_colon field = ''Request header field is missing ':' separator.<br />'' @ [LF] @ ''<pre>'' @ [LF] @
     escape_html2 (c_string field) False @ ''</pre>'' @ [LF]"

text \<open>What a failed read of a line does; the last byte of the buffer has been overwritten already.\<close>

definition header_read_error :: "apr_status \<Rightarrow> cstring option \<Rightarrow> req \<Rightarrow> req" where
  "header_read_error rv field r =
     (let r1 = r\<lparr>q_status := (if rv = APR_TIMEUP then HTTP_REQUEST_TIME_OUT else HTTP_BAD_REQUEST)\<rparr>
      in case field of
           Some f \<Rightarrow> if rv = APR_ENOSPC then r1\<lparr>q_error_notes := Some (note_oversize f)\<rparr> else r1
         | None \<Rightarrow> r1)"

text \<open>
  One line, for the line set aside and the count of the fields: \<open>Inl\<close> is that the function
  returns, \<open>Inr\<close> the line to set aside now.
\<close>

definition header_line ::
  "srv \<Rightarrow> cstring \<Rightarrow> req \<times> cstring option \<times> nat \<Rightarrow> req + req \<times> cstring option \<times> nat" where
  "header_line srv field st =
     (case st of (r, last_field, fields_read) \<Rightarrow>
        (case last_field of
           None \<Rightarrow> Inr (r, Some field, fields_read)
         | Some lf \<Rightarrow>
             if field \<noteq> [] \<and> lws (hd field) then
               (if length lf + length field + 1 \<ge> limit_req_fieldsize srv
                then Inl (r\<lparr>q_status := HTTP_BAD_REQUEST, q_error_notes := Some (note_folded lf)\<rparr>)
                else Inr (r, Some (lf @ field), fields_read))
             else if limit_req_fields srv \<noteq> 0 \<and> Suc fields_read > limit_req_fields srv then
               Inl (r\<lparr>q_status := HTTP_BAD_REQUEST, q_error_notes := Some note_fields\<rparr>)
             else
               (let fields_read1 = (if limit_req_fields srv \<noteq> 0 then Suc fields_read else fields_read)
                in case split_field lf of
                     None \<Rightarrow> Inl (r\<lparr>q_status := HTTP_BAD_REQUEST, q_error_notes := Some (note_colon lf)\<rparr>)
                   | Some (name, v) \<Rightarrow>
                       Inr (r\<lparr>q_headers_in := table_addn (q_headers_in r) name v\<rparr>, Some field, fields_read1))))"

partial_function (option) mime_loop ::
  "('n \<Rightarrow> input_mode \<Rightarrow> bool \<Rightarrow> int \<Rightarrow> apr_status \<times> bkt list \<times> 'n) \<Rightarrow> srv \<Rightarrow> req \<times> cstring option \<times> nat \<Rightarrow> 'n \<Rightarrow>
     (req \<times> 'n) option" where
  "mime_loop get srv st net =
     (case rgetline_core get (limit_req_fieldsize srv + 2) None False net of
        None \<Rightarrow> None
      | Some (rv, field, net1) \<Rightarrow>
          if rv \<noteq> APR_SUCCESS then Some (header_read_error rv field (fst st), net1)
          else
            (case header_line srv (handled field) st of
               Inl r \<Rightarrow> Some (r, net1)
             | Inr st1 \<Rightarrow>
                 if handled field = [] then
                   Some ((fst st1)\<lparr>q_headers_in := table_compress APR_OVERLAP_TABLES_MERGE (q_headers_in (fst st1))\<rparr>, net1)
                 else mime_loop get srv st1 net1))"

declare mime_loop.simps [code]

definition get_mime_headers ::
  "('n \<Rightarrow> input_mode \<Rightarrow> bool \<Rightarrow> int \<Rightarrow> apr_status \<times> bkt list \<times> 'n) \<Rightarrow> srv \<Rightarrow> req \<Rightarrow> 'n \<Rightarrow> (req \<times> 'n) option" where
  "get_mime_headers get srv r net = mime_loop get srv (r, None, 0) net"

section \<open>The whole request\<close>

text \<open>
  How \<open>ap_read_request\<close> ends: no request (the connection is closed), a request that is only logged or
  has been answered with an error, one that a hook has ended, and one to process.
\<close>

datatype read_result = NoRequest | LogOnly req | ErrorSent req | HookDied int req | GotRequest req

definition new_req :: "srv \<Rightarrow> (nat \<Rightarrow> nat) \<Rightarrow> req" where
  "new_req srv any = \<lparr>q_the_request = None, q_method = [], q_method_number = 0, q_header_only = False, q_unparsed_uri = [],
     q_parsed_uri = no_uri, q_hostname = None, q_args = None, q_uri = [], q_assbackwards = False, q_protocol = [],
     q_proto_num = 0, q_status = HTTP_OK, q_headers_in = table_make any, q_error_notes = None, q_expecting_100 = False, q_server = srv_index srv\<rparr>"

definition drop_length :: "req \<Rightarrow> req" where
  "drop_length r =
     (if table_get (q_headers_in r) (Some ''Transfer-Encoding'') \<noteq> None \<and>
         table_get (q_headers_in r) (Some ''Content-Length'') \<noteq> None
      then r\<lparr>q_headers_in := table_unset (q_headers_in r) ''Content-Length''\<rparr> else r)"

definition lacks_host :: "req \<Rightarrow> bool" where
  "lacks_host r \<longleftrightarrow> (q_hostname r = None \<and> q_proto_num r \<ge> HTTP_VERSION 1 1) \<or>
     (q_proto_num r = HTTP_VERSION 1 1 \<and> table_get (q_headers_in r) (Some ''Host'') = None)"

text \<open>From the virtual host on; \<open>vhost\<close> is \<open>ap_update_vhost_from_headers\<close>, \<open>post_read\<close> the hook.\<close>

definition check_request :: "(req \<Rightarrow> req) \<Rightarrow> (req \<Rightarrow> int \<times> req) \<Rightarrow> req \<Rightarrow> read_result" where
  "check_request vhost post_read r0 =
     (let r1 = vhost r0;
          r2 = (if lacks_host r1 then r1\<lparr>q_status := HTTP_BAD_REQUEST\<rparr> else r1)
      in if q_status r2 \<noteq> HTTP_OK then ErrorSent r2
         else
           (case post_read r2 of
              (access_status, r3) \<Rightarrow>
                if access_status \<noteq> 0 then HookDied access_status r3
                else
                  (case table_get (q_headers_in r3) (Some ''Expect'') of
                     None \<Rightarrow> GotRequest r3
                   | Some expect \<Rightarrow>
                       if expect = [] then GotRequest r3
                       else if strcaseeq expect ''100-continue'' then GotRequest (r3\<lparr>q_expecting_100 := True\<rparr>)
                       else ErrorSent (r3\<lparr>q_status := HTTP_EXPECTATION_FAILED\<rparr>))))"

definition read_request ::
  "('n \<Rightarrow> input_mode \<Rightarrow> bool \<Rightarrow> int \<Rightarrow> apr_status \<times> bkt list \<times> 'n) \<Rightarrow> srv \<Rightarrow> (req \<Rightarrow> req) \<Rightarrow> (req \<Rightarrow> int \<times> req) \<Rightarrow>
     (nat \<Rightarrow> nat) \<Rightarrow> 'n \<Rightarrow> (read_result \<times> 'n) option" where
  "read_request get srv vhost post_read any net =
     (case read_request_line get srv (new_req srv any) net of
        None \<Rightarrow> None
      | Some (line_ok, r, net1) \<Rightarrow>
          if \<not> line_ok then
            Some (if q_status r = HTTP_REQUEST_URI_TOO_LARGE then ErrorSent r
                  else if q_status r = HTTP_REQUEST_TIME_OUT then LogOnly r else NoRequest, net1)
          else if \<not> q_assbackwards r then
            (case get_mime_headers get srv r net1 of
               None \<Rightarrow> None
             | Some (r1, net2) \<Rightarrow>
                 if q_status r1 \<noteq> HTTP_OK then Some (ErrorSent r1, net2)
                 else Some (check_request vhost post_read (drop_length r1), net2))
          else if q_header_only r then
            Some (ErrorSent (r\<lparr>q_header_only := False, q_status := HTTP_BAD_REQUEST\<rparr>), net1)
          else Some (check_request vhost post_read r, net1))"

section \<open>Subrequests\<close>

definition strip_headers_request_body :: "table \<Rightarrow> table" where
  "strip_headers_request_body t =
     foldl table_unset t [''Content-Encoding'', ''Content-Language'', ''Content-Length'', ''Content-Location'', ''Content-MD5'',
       ''Content-Range'', ''Content-Type'', ''Expires'', ''Last-Modified'', ''Transfer-Encoding'']"

section \<open>What a client writes\<close>

definition field_line :: "cstring \<times> cstring \<Rightarrow> cstring" where
  "field_line f = fst f @ '': '' @ snd f"

definition field_ok :: "cstring \<times> cstring \<Rightarrow> bool" where
  "field_ok f \<longleftrightarrow> fst f \<noteq> [] \<and> nul_free (fst f) \<and> nul_free (snd f) \<and> CHR '':'' \<notin> set (fst f) \<and>
     LF \<notin> set (fst f) \<union> set (snd f) \<and> \<not> lws (hd (fst f)) \<and> \<not> lws (List.last (fst f)) \<and>
     (snd f = [] \<or> \<not> lws (hd (snd f)) \<and> \<not> lws (List.last (snd f)))"

definition fields_wire :: "(cstring \<times> cstring) list \<Rightarrow> cstring" where
  "fields_wire fs = concat (map (\<lambda>f. field_line f @ CRLF) fs)"

lemma c_string_nul_free [simp]: "nul_free s \<Longrightarrow> c_string s = s"
  by (auto simp: c_string_def nul_free_def intro: takeWhile_eq_self)

lemma nul_free_c_string [simp]: "nul_free (c_string s)"
  by (auto simp: c_string_def nul_free_def dest: set_takeWhileD)

lemma strip_end_id: "s = [] \<or> \<not> lws (List.last s) \<Longrightarrow> strip_end s = s"
proof (cases s)
  case (Cons c t)
  assume "s = [] \<or> \<not> lws (List.last s)"
  then show ?thesis using Cons by (cases t rule: rev_cases) (auto simp: strip_end_def)
qed (simp add: strip_end_def)

lemma lws_dropWhile: "s = [] \<or> \<not> lws (hd s) \<Longrightarrow> dropWhile lws s = s"
  by (cases s) auto

lemma split_field_line: "field_ok f \<Longrightarrow> split_field (field_line f) = Some f"
proof -
  assume f: "field_ok f"
  have n: "nul_free (field_line f)" using f by (simp add: field_ok_def field_line_def)
  have s: "strchr (field_line f) (CHR '':'') = Some (length (fst f))"
    using strchr_first [of "CHR '':''" "fst f" "CHR '' '' # snd f"] f by (simp add: field_ok_def field_line_def)
  have v: "dropWhile lws (drop (Suc (length (fst f))) (field_line f)) = snd f"
    using f lws_dropWhile [of "snd f"] by (auto simp: field_ok_def field_line_def lws_def)
  have "strip_end (fst f) = fst f" "strip_end (snd f) = snd f" "c_string (snd f) = snd f"
    using f by (auto simp: field_ok_def intro: strip_end_id)
  then show ?thesis using n s v by (simp add: split_field_def) (simp add: field_line_def)
qed

lemma field_line_facts:
  "field_ok f \<Longrightarrow> field_line f \<noteq> [] \<and> \<not> lws (hd (field_line f)) \<and> LF \<notin> set (field_line f)"
  by (auto simp: field_ok_def field_line_def)

definition add_fields :: "(cstring \<times> cstring) list \<Rightarrow> table \<Rightarrow> table" where
  "add_fields fs t = foldl (\<lambda>t f. table_add t (fst f) (snd f)) t fs"

context byte_source
begin

lemma mime_loop_fields:
  assumes "source_ok n" "content n = fields_wire fs @ CRLF @ rest" "list_all field_ok fs"
    and "list_all (\<lambda>f. length (field_line f) < limit_req_fieldsize srv \<and> Suc (length (field_line f)) < HUGE_STRING_LEN) fs"
    and "limit_req_fields srv = 0 \<or> k + 1 + length fs \<le> limit_req_fields srv"
    and "field_ok g"
  shows "\<exists>n'. mime_loop get srv (r, Some (field_line g), k) n =
      Some (r\<lparr>q_headers_in := table_compress APR_OVERLAP_TABLES_MERGE (add_fields (g # fs) (q_headers_in r))\<rparr>, n') \<and>
    content n' = rest \<and> source_ok n'"
  using assms
proof (induction fs arbitrary: n r g k)
  case Nil
  have "content n = [CR] @ LF # rest" using Nil by (simp add: fields_wire_def CRLF_def)
  from rgetline_core_ok [OF Nil(1) this, of "limit_req_fieldsize srv + 2"] obtain n' where
    n': "rgetline_core get (limit_req_fieldsize srv + 2) None False n = Some (APR_SUCCESS, Some [], n')" "content n' = rest" "source_ok n'"
    using chop_cr_crlf [of "[]"] by (auto simp: HUGE_STRING_LEN_def)
  have "header_line srv [] (r, Some (field_line g), k) =
      Inr (r\<lparr>q_headers_in := table_add (q_headers_in r) (fst g) (snd g)\<rparr>, Some [], if limit_req_fields srv \<noteq> 0 then Suc k else k)"
    using Nil(5) split_field_line [OF Nil(6)] by (cases g) (auto simp: header_line_def same_texts)
  then show ?case using n' by (subst mime_loop.simps) (simp add: add_fields_def)
next
  case (Cons f fs)
  let ?l = "field_line f"
  have c: "content n = (?l @ [CR]) @ LF # (fields_wire fs @ CRLF @ rest)" using Cons.prems(2) by (simp add: fields_wire_def CRLF_def)
  have f: "field_ok f" using Cons.prems(3) by simp
  note F = field_line_facts [OF f]
  from rgetline_core_ok [OF Cons.prems(1) c, of "limit_req_fieldsize srv + 2"] obtain n1 where
    n1: "rgetline_core get (limit_req_fieldsize srv + 2) None False n = Some (APR_SUCCESS, Some ?l, n1)"
      "content n1 = fields_wire fs @ CRLF @ rest" "source_ok n1"
    using F Cons.prems(4) by auto
  let ?r = "r\<lparr>q_headers_in := table_add (q_headers_in r) (fst g) (snd g)\<rparr>"
  let ?k = "if limit_req_fields srv \<noteq> 0 then Suc k else k"
  have "header_line srv ?l (r, Some (field_line g), k) = Inr (?r, Some ?l, ?k)"
    using Cons.prems(5) split_field_line [OF Cons.prems(6)] F by (cases g) (auto simp: header_line_def same_texts)
  then have "mime_loop get srv (r, Some (field_line g), k) n = mime_loop get srv (?r, Some ?l, ?k) n1"
    using n1(1) F by (subst mime_loop.simps) simp
  moreover have "\<exists>n'. mime_loop get srv (?r, Some ?l, ?k) n1 =
      Some (?r\<lparr>q_headers_in := table_compress APR_OVERLAP_TABLES_MERGE (add_fields (f # fs) (q_headers_in ?r))\<rparr>, n') \<and>
    content n' = rest \<and> source_ok n'"
    using Cons.prems by (intro Cons.IH n1 f) auto
  ultimately show ?case by (simp add: add_fields_def)
qed

end

lemma getword_white_split: "\<not> list_ex c_isspace w \<Longrightarrow> s = [] \<or> \<not> c_isspace (hd s) \<Longrightarrow> getword_white (w @ CHR '' '' # s) = (w, s)"
proof -
  assume w: "\<not> list_ex c_isspace w" and s: "s = [] \<or> \<not> c_isspace (hd s)"
  have "takeWhile (\<lambda>c. \<not> c_isspace c) (w @ CHR '' '' # s) = w \<and> dropWhile (\<lambda>c. \<not> c_isspace c) (w @ CHR '' '' # s) = CHR '' '' # s"
    using w by (induction w) (auto simp: c_class_defs)
  moreover have "dropWhile c_isspace (CHR '' '' # s) = s" using s by (cases s) (auto simp: c_class_defs)
  ultimately show ?thesis by (simp add: getword_white_def)
qed

text \<open>The target of a request: a path from the root, with a query or without.\<close>

definition target_of :: "cstring \<Rightarrow> cstring option \<Rightarrow> cstring" where
  "target_of p q = p @ (case q of None \<Rightarrow> [] | Some s \<Rightarrow> CHR ''?'' # s)"

definition word_ok :: "cstring \<Rightarrow> bool" where
  "word_ok w \<longleftrightarrow> w \<noteq> [] \<and> nul_free w \<and> \<not> list_ex c_isspace w"

definition target_ok :: "cstring \<Rightarrow> cstring option \<Rightarrow> bool" where
  "target_ok p q \<longleftrightarrow> cget p 0 = CHR ''/'' \<and> cget p 1 \<noteq> CHR ''/'' \<and> CHR ''?'' \<notin> set p \<and> CHR ''#'' \<notin> set (target_of p q) \<and>
     word_ok (target_of p q)"

lemma skip_slashes_id: "cget s 1 \<noteq> CHR ''/'' \<Longrightarrow> skip_slashes s = s"
  by (cases s rule: skip_slashes.cases) auto

lemma target_start: "target_ok p q \<Longrightarrow> cget (target_of p q) 0 = CHR ''/'' \<and> cget (target_of p q) 1 \<noteq> CHR ''/'' \<and> (\<exists>p'. p = CHR ''/'' # p')"
proof -
  assume t: "target_ok p q"
  then obtain p' where p: "p = CHR ''/'' # p'" by (cases p) (auto simp: target_ok_def)
  show ?thesis using t p by (cases p') (auto simp: target_ok_def target_of_def split: option.splits)
qed

lemma parse_target:
  assumes "target_ok p q"
  shows "uri_parse (target_of p q) = (True, no_uri\<lparr>u_path := Some p, u_query := q\<rparr>)"
proof -
  let ?t = "target_of p q"
  obtain p' where p: "p = CHR ''/'' # p'" using target_start [OF assms] by blast
  have c: "cget ?t 0 = CHR ''/''" "cget ?t 1 \<noteq> CHR ''/''" using target_start [OF assms] by simp_all
  have "\<forall>c\<in>set p. and (uri_delims c) NOTEND_PATH = 0"
    using assms by (auto simp: target_ok_def target_of_def path_delims word_ok_def nul_free_def)
  moreover have "q = None \<or> and (uri_delims (CHR ''?'')) NOTEND_PATH \<noteq> 0" by (simp add: path_delims)
  ultimately have u: "upto_delim NOTEND_PATH ?t = p"
    by (auto simp: upto_delim_def target_of_def takeWhile_append split: option.split)
  have "strchr s (CHR ''#'') = None" if "q = Some s" for s
    using assms that by (simp add: target_ok_def target_of_def strchr_None)
  then have "deal_with_path ?t no_uri = no_uri\<lparr>u_path := Some p, u_query := q\<rparr>"
    using u p by (auto simp: deal_with_path_def target_of_def no_uri_def split: option.split)
  then show ?thesis using c by (simp add: uri_parse_def)
qed

definition request_wire :: "cstring \<Rightarrow> cstring \<Rightarrow> (cstring \<times> cstring) list \<Rightarrow> cstring" where
  "request_wire meth target fs = meth @ '' '' @ target @ '' HTTP/1.1'' @ CRLF @ fields_wire fs @ CRLF"

lemma protocol_number_11: "protocol_number ''HTTP/1.1'' = 1001"
  by code_simp

lemma parse_line_11:
  assumes "word_ok m" "target_ok p q" "method_number_of (srv_methods srv) m \<noteq> M_CONNECT"
  shows "parse_request_line srv r (m @ '' '' @ target_of p q @ '' HTTP/1.1'') =
    r\<lparr>q_the_request := Some (m @ '' '' @ target_of p q @ '' HTTP/1.1''), q_method := m,
      q_method_number := method_number_of (srv_methods srv) m,
      q_header_only := (if method_number_of (srv_methods srv) m = M_GET \<and> cget m 0 = CHR ''H'' then True else q_header_only r),
      q_unparsed_uri := target_of p q, q_parsed_uri := no_uri\<lparr>u_path := Some p, u_query := q\<rparr>,
      q_args := q, q_uri := p, q_assbackwards := False, q_protocol := ''HTTP/1.1'', q_proto_num := 1001\<rparr>"
proof -
  let ?t = "target_of p q"
  let ?l = "m @ '' '' @ ?t @ '' HTTP/1.1''"
  have "nul_free ?l" using assms(1,2) by (auto simp: word_ok_def target_ok_def)
  moreover have "getword_white ?l = (m, ?t @ '' HTTP/1.1'')"
    using assms(1,2) getword_white_split [of m "?t @ '' HTTP/1.1''"]
    by (auto simp: word_ok_def target_ok_def list_ex_iff hd_append)
  moreover have "getword_white (?t @ '' HTTP/1.1'') = (?t, ''HTTP/1.1'')"
    using assms(2) getword_white_split [of ?t "''HTTP/1.1''"] by (auto simp: word_ok_def target_ok_def c_class_defs)
  moreover have "skip_slashes ?t = ?t"
    by (rule skip_slashes_id) (use target_start [OF assms(2)] in simp)
  ultimately show ?thesis using assms(3) parse_target [OF assms(2)]
    by (simp add: parse_request_line_def parse_uri_def protocol_number_11 no_uri_def Let_def)
qed


text \<open>The limits a request must keep.\<close>

definition within_limits :: "srv \<Rightarrow> cstring \<Rightarrow> cstring \<Rightarrow> (cstring \<times> cstring) list \<Rightarrow> bool" where
  "within_limits srv m t fs \<longleftrightarrow>
     (let n = length m + length t + 10 in n \<le> limit_req_line srv \<and> Suc n < HUGE_STRING_LEN) \<and>
     (limit_req_fields srv = 0 \<or> length fs \<le> limit_req_fields srv) \<and>
     list_all (\<lambda>f. length (field_line f) < limit_req_fieldsize srv \<and> Suc (length (field_line f)) < HUGE_STRING_LEN) fs"

context byte_source
begin

lemma request_line_ok:
  assumes "source_ok n" "content n = m @ '' '' @ target_of p q @ '' HTTP/1.1'' @ CRLF @ rest" "word_ok m" "target_ok p q"
    and "within_limits srv m (target_of p q) fs" "method_number_of (srv_methods srv) m \<noteq> M_CONNECT"
  shows "\<exists>n'. read_request_line get srv r n = Some (True, parse_request_line srv r (m @ '' '' @ target_of p q @ '' HTTP/1.1''), n') \<and>
    content n' = rest \<and> source_ok n'"
proof -
  let ?l = "m @ '' '' @ target_of p q @ '' HTTP/1.1''"
  have c: "content n = (?l @ [CR]) @ LF # rest" using assms(2) by (simp add: CRLF_def)
  have lf: "LF \<notin> set (?l @ [CR])"
  proof -
    have "c_isspace LF" by (simp add: c_class_defs)
    then have "LF \<notin> set m" "LF \<notin> set (target_of p q)"
      using assms(3,4) by (auto simp: word_ok_def target_ok_def list_ex_iff)
    then show ?thesis by simp
  qed
  have "length (?l @ [CR]) < HUGE_STRING_LEN" "length (?l @ [CR]) < limit_req_line srv + 2"
    using assms(5) by (auto simp: within_limits_def Let_def)
  from rgetline_core_ok [OF assms(1) c lf this] obtain n' where
    n': "rgetline_core get (limit_req_line srv + 2) None False n = Some (APR_SUCCESS, Some ?l, n')" "content n' = rest" "source_ok n'"
    using chop_cr_crlf [of ?l] by auto
  then have "request_line_loop get (limit_req_line srv + 2) b 0 n = Some (APR_SUCCESS, Some ?l, n')" for b
    by (subst request_line_loop.simps) simp
  then show ?thesis using n'(2,3) by (simp add: read_request_line_def Let_def)
qed

lemma read_request_ok:
  assumes n: "source_ok n" "content n = request_wire m (target_of p q) fs @ rest"
    and w: "word_ok m" "target_ok p q" "list_all field_ok fs" "within_limits srv m (target_of p q) fs"
    and c: "method_number_of (srv_methods srv) m \<noteq> M_CONNECT"
  shows "\<exists>n'. read_request get srv vhost post_read any n =
      Some (check_request vhost post_read (drop_length ((parse_request_line srv (new_req srv any) (m @ '' '' @ target_of p q @ '' HTTP/1.1''))
          \<lparr>q_headers_in := table_compress APR_OVERLAP_TABLES_MERGE (add_fields fs (table_make any))\<rparr>)), n') \<and>
    content n' = rest \<and> source_ok n'"
proof -
  let ?r = "parse_request_line srv (new_req srv any) (m @ '' '' @ target_of p q @ '' HTTP/1.1'')"
  note P = parse_line_11 [where r = "new_req srv any", OF w(1,2) c]
  from request_line_ok [where r = "new_req srv any", OF n(1) _ w(1,2,4) c] n(2) obtain n1 where
    n1: "read_request_line get srv (new_req srv any) n = Some (True, ?r, n1)" "content n1 = fields_wire fs @ CRLF @ rest" "source_ok n1"
    by (auto simp: request_wire_def)
  have "\<exists>n'. get_mime_headers get srv ?r n1 =
      Some (?r\<lparr>q_headers_in := table_compress APR_OVERLAP_TABLES_MERGE (add_fields fs (table_make any))\<rparr>, n') \<and>
      content n' = rest \<and> source_ok n'"
  proof (cases fs)
    case Nil
    have "content n1 = [CR] @ LF # rest" using n1 Nil by (simp add: fields_wire_def CRLF_def)
    from rgetline_core_ok [OF n1(3) this, of "limit_req_fieldsize srv + 2"] obtain n' where
      "rgetline_core get (limit_req_fieldsize srv + 2) None False n1 = Some (APR_SUCCESS, Some [], n')" "content n' = rest" "source_ok n'"
      using chop_cr_crlf [of "[]"] by (auto simp: HUGE_STRING_LEN_def)
    moreover have "q_headers_in ?r = table_make any" unfolding P by (simp add: new_req_def)
    ultimately show ?thesis unfolding get_mime_headers_def using Nil
      by (subst mime_loop.simps) (simp add: header_line_def add_fields_def)
  next
    case (Cons f gs)
    have f: "field_ok f" "list_all field_ok gs" using w(3) Cons by simp_all
    note F = field_line_facts [OF f(1)]
    have "content n1 = (field_line f @ [CR]) @ LF # (fields_wire gs @ CRLF @ rest)"
      using n1(2) Cons by (simp add: fields_wire_def CRLF_def)
    from rgetline_core_ok [OF n1(3) this, of "limit_req_fieldsize srv + 2"] obtain n2 where
      n2: "rgetline_core get (limit_req_fieldsize srv + 2) None False n1 = Some (APR_SUCCESS, Some (field_line f), n2)"
        "content n2 = fields_wire gs @ CRLF @ rest" "source_ok n2"
      using F w(4) Cons by (auto simp: within_limits_def)
    have "mime_loop get srv (?r, None, 0) n1 = mime_loop get srv (?r, Some (field_line f), 0) n2"
      using n2(1) F by (subst mime_loop.simps) (simp add: header_line_def)
    moreover have "limit_req_fields srv = 0 \<or> 0 + 1 + length gs \<le> limit_req_fields srv" using w(4) Cons by (simp add: within_limits_def)
    moreover have "q_headers_in ?r = table_make any" unfolding P by (simp add: new_req_def)
    ultimately show ?thesis using mime_loop_fields [OF n2(3,2) f(2) _ _ f(1), of srv 0 ?r] w(4) Cons
      by (auto simp: get_mime_headers_def within_limits_def)
  qed
  moreover have "\<not> q_assbackwards ?r" "q_status ?r = HTTP_OK" unfolding P by (simp_all add: new_req_def)
  ultimately show ?thesis using n1(1) unfolding read_request_def by auto
qed

end

lemma request_read_back:
  assumes "net_ok net" "net_bytes net = request_wire m (target_of p q) fs @ rest"
    and "word_ok m" "target_ok p q" "list_all field_ok fs" "within_limits srv m (target_of p q) fs"
    and "method_number_of (srv_methods srv) m \<noteq> M_CONNECT"
  shows "\<exists>r net'. read_request (core_input_filter over) srv vhost post_read any net = Some (check_request vhost post_read r, net') \<and>
    net_bytes net' = rest \<and> net_ok net' \<and>
    q_method r = m \<and> q_method_number r = method_number_of (srv_methods srv) m \<and> q_uri r = p \<and> q_args r = q \<and>
    q_unparsed_uri r = target_of p q \<and> q_hostname r = None \<and>
    q_protocol r = ''HTTP/1.1'' \<and> q_proto_num r = HTTP_VERSION 1 1 \<and> q_status r = HTTP_OK \<and> headers_ok (q_headers_in r) \<and>
    (\<forall>k. table_get (q_headers_in r) (Some k) =
       (if vals_of k fs = [] \<or> strcaseeq ''Content-Length'' k \<and> vals_of ''Transfer-Encoding'' fs \<noteq> [] then None
        else Some (join_values (vals_of k fs))))"
proof -
  define h where "h = table_compress APR_OVERLAP_TABLES_MERGE (add_fields fs (table_make any))"
  define r0 where "r0 = (parse_request_line srv (new_req srv any) (m @ '' '' @ target_of p q @ '' HTTP/1.1''))\<lparr>q_headers_in := h\<rparr>"
  have R: "r0 = (new_req srv any)\<lparr>q_the_request := Some (m @ '' '' @ target_of p q @ '' HTTP/1.1''), q_method := m,
      q_method_number := method_number_of (srv_methods srv) m,
      q_header_only := (method_number_of (srv_methods srv) m = M_GET \<and> cget m 0 = CHR ''H''),
      q_unparsed_uri := target_of p q, q_parsed_uri := no_uri\<lparr>u_path := Some p, u_query := q\<rparr>,
      q_args := q, q_uri := p, q_assbackwards := False, q_protocol := ''HTTP/1.1'', q_proto_num := 1001, q_headers_in := h\<rparr>"
    unfolding r0_def parse_line_11 [OF assms(3,4,7)] by (simp add: new_req_def)
  have z: "headers_ok (table_make any)" "tvals (table_make any) k = []" for k
    using table_make_ok [of any] by (simp_all add: headers_ok_def tvals_def entries_def table_make_def)
  have nf: "list_all (\<lambda>f. nul_free (fst f)) fs" using assms(5) by (auto simp: list_all_iff field_ok_def)
  have a: "headers_ok (add_fields fs (table_make any))" "tvals (add_fields fs (table_make any)) k = vals_of k fs" for k
    using headers.add_many [OF z(1) nf, of k] z(2) by (simp_all add: add_fields_def)
  have h: "headers_ok h" "table_get h (Some k) = (if vals_of k fs = [] then None else Some (join_values (vals_of k fs)))" for k
    unfolding h_def using headers.compress_law [OF a(1), of k] headers.get_compress [OF a(1), of k] a(2) by simp_all
  define r where "r = drop_length r0"
  have "headers_ok (q_headers_in r)"
    using h(1) headers.unset_law [OF h(1), of "''Content-Length''"] by (simp add: r_def drop_length_def R)
  moreover have "table_get (q_headers_in r) (Some k) =
       (if vals_of k fs = [] \<or> strcaseeq ''Content-Length'' k \<and> vals_of ''Transfer-Encoding'' fs \<noteq> [] then None
        else Some (join_values (vals_of k fs)))" for k
    using h(2) headers.get_unset [OF h(1), of "''Content-Length''" k] headers.key_law [of "''Content-Length''" k]
    by (auto simp: r_def drop_length_def R vals_of_cong [of "''Content-Length''" k])
  moreover have "q_method r = m \<and> q_method_number r = method_number_of (srv_methods srv) m \<and> q_uri r = p \<and> q_args r = q \<and>
    q_unparsed_uri r = target_of p q \<and> q_hostname r = None \<and>
    q_protocol r = ''HTTP/1.1'' \<and> q_proto_num r = HTTP_VERSION 1 1 \<and> q_status r = HTTP_OK"
    by (simp add: r_def drop_length_def R HTTP_VERSION_def new_req_def)
  ultimately show ?thesis
    using core.read_request_ok [OF assms(1-7), where over = over and vhost = vhost and post_read = post_read and any = any]
    unfolding r_def r0_def h_def by blast
qed

text \<open>
  C3. A request is read back as it was written. Over any connection whose next bytes are a request line with a
  method, a path with or without a query and HTTP/1.1, then well-formed header fields within the limits and an
  empty line, however the bytes arrive, \<open>ap_read_request\<close> comes to its checks with exactly these: the method, the
  path, the query, and for every field name the values of all fields of that name in order, joined by a comma
  (no \<open>Content-Length\<close> beside a \<open>Transfer-Encoding\<close>). And what it leaves on the connection is what followed the request,
  so that the next request of a pipeline, or the body, begins there.
\<close>
theorem request_roundtrip:
  assumes "net_ok net" "net_bytes net = request_wire m (target_of p q) fs @ rest"
    and "word_ok m" "target_ok p q" "list_all field_ok fs" "within_limits srv m (target_of p q) fs"
    and "method_number_of (srv_methods srv) m \<noteq> M_CONNECT"
  shows "\<exists>r net'. read_request (core_input_filter over) srv vhost post_read any net = Some (check_request vhost post_read r, net') \<and>
    net_bytes net' = rest \<and> net_ok net' \<and>
    q_method r = m \<and> q_method_number r = method_number_of (srv_methods srv) m \<and> q_uri r = p \<and> q_args r = q \<and>
    q_unparsed_uri r = target_of p q \<and> q_hostname r = None \<and>
    q_protocol r = ''HTTP/1.1'' \<and> q_proto_num r = HTTP_VERSION 1 1 \<and> q_status r = HTTP_OK \<and> headers_ok (q_headers_in r) \<and>
    (\<forall>k. table_get (q_headers_in r) (Some k) =
       (if vals_of k fs = [] \<or> strcaseeq ''Content-Length'' k \<and> vals_of ''Transfer-Encoding'' fs \<noteq> [] then None
        else Some (join_values (vals_of k fs))))"
  using request_read_back [OF assms] .

text \<open>Two requests in a pipeline, as they come from the network.\<close>

definition sample_srv :: srv where
  "sample_srv = \<lparr>limit_req_line = 8190, limit_req_fields = 100, limit_req_fieldsize = 8190, srv_http_scheme = ''http'',
     srv_methods = empty_registry, srv_index = 0\<rparr>"

definition sample_fields :: "(cstring \<times> cstring) list" where
  "sample_fields = [(''Host'', ''h''), (''Content-Length'', ''3''), (''TE'', ''a''), (''Transfer-Encoding'', ''chunked''), (''te'', ''b'')]"

definition sample_wire :: cstring where
  "sample_wire = request_wire ''GET'' (target_of ''/i'' (Some ''x'')) sample_fields"

definition pipeline_net :: core_net where
  "pipeline_net = \<lparr>in_ctx = None, client_socket = [Arrive (take 5 sample_wire), WouldBlock, Arrive (drop 5 sample_wire @ ''GET /'')]\<rparr>"

lemma sample_fits:
  "net_ok pipeline_net" "net_bytes pipeline_net = sample_wire @ ''GET /''" "word_ok ''GET''" "target_ok ''/i'' (Some ''x'')"
  "list_all field_ok sample_fields" "within_limits sample_srv ''GET'' (target_of ''/i'' (Some ''x'')) sample_fields"
  "method_number_of (srv_methods sample_srv) ''GET'' = M_GET" "M_GET \<noteq> M_CONNECT"
proof -
  have ne: "sample_wire \<noteq> []" by (simp add: sample_wire_def request_wire_def)
  then show "net_ok pipeline_net" by (simp add: pipeline_net_def net_ok_def)
  show "net_bytes pipeline_net = sample_wire @ ''GET /''" by (simp add: pipeline_net_def net_bytes_def ne)
  show "word_ok ''GET''" "target_ok ''/i'' (Some ''x'')" by code_simp+
  show "list_all field_ok sample_fields" by code_simp
  show "within_limits sample_srv ''GET'' (target_of ''/i'' (Some ''x'')) sample_fields"
    by (simp add: within_limits_def sample_srv_def sample_fields_def target_of_def field_line_def HUGE_STRING_LEN_def)
  show "method_number_of (srv_methods sample_srv) ''GET'' = M_GET" by code_simp
  show "M_GET \<noteq> M_CONNECT" by code_simp
qed

theorem request_roundtrip_witness:
  "\<exists>r net'. read_request (core_input_filter NUL) sample_srv id (Pair 0) (\<lambda>_. 0) pipeline_net = Some (check_request id (Pair 0) r, net') \<and>
    net_bytes net' = ''GET /'' \<and> q_method r = ''GET'' \<and> q_uri r = ''/i'' \<and> q_args r = Some ''x'' \<and>
    table_get (q_headers_in r) (Some ''TE'') = Some ''a, b'' \<and> table_get (q_headers_in r) (Some ''content-length'') = None"
proof -
  have m: "method_number_of (srv_methods sample_srv) ''GET'' \<noteq> M_CONNECT" using sample_fits(7,8) by simp
  from request_roundtrip [where over = NUL and vhost = id and post_read = "Pair 0" and any = "\<lambda>_. 0", OF sample_fits(1)
      sample_fits(2) [unfolded sample_wire_def] sample_fits(3-6) m]
  obtain r net' where r: "read_request (core_input_filter NUL) sample_srv id (Pair 0) (\<lambda>_. 0) pipeline_net = Some (check_request id (Pair 0) r, net')"
      "net_bytes net' = ''GET /''" "q_method r = ''GET''" "q_uri r = ''/i''" "q_args r = Some ''x''"
    and h: "\<And>k. table_get (q_headers_in r) (Some k) =
       (if vals_of k sample_fields = [] \<or> strcaseeq ''Content-Length'' k \<and> vals_of ''Transfer-Encoding'' sample_fields \<noteq> [] then None
        else Some (join_values (vals_of k sample_fields)))" by blast
  have "(if vals_of ''TE'' sample_fields = [] \<or> strcaseeq ''Content-Length'' ''TE'' \<and> vals_of ''Transfer-Encoding'' sample_fields \<noteq> [] then None
        else Some (join_values (vals_of ''TE'' sample_fields))) = Some ''a, b''"
    and "(if vals_of ''content-length'' sample_fields = [] \<or> strcaseeq ''Content-Length'' ''content-length'' \<and>
          vals_of ''Transfer-Encoding'' sample_fields \<noteq> [] then None
        else Some (join_values (vals_of ''content-length'' sample_fields))) = None" by code_simp+
  then show ?thesis using r h by metis
qed

section \<open>What every request that is processed satisfies\<close>

lemma first_of_length: "length (first_of ps) \<le> length ps"
  by (induction ps) (auto intro: le_trans [OF length_filter_le])

lemma entries_compress_length:
  "headers_ok t \<Longrightarrow> length (entries (table_compress flags t)) \<le> length (entries t)"
  using table_compress_ok [of t flags] by (simp add: headers_ok_def list_all_iff al_compress_def first_of_length)

lemma split_field_name: "split_field lf = Some (name, v) \<Longrightarrow> nul_free name"
proof -
  assume s: "split_field lf = Some (name, v)"
  then obtain i where i: "strchr (c_string lf) (CHR '':'') = Some i" "name = strip_end (take i lf)"
    by (auto simp: split_field_def split: option.splits)
  have "i \<le> length (c_string lf)" using strchr_SomeD [OF i(1)] by simp
  then have "take i lf = take i (c_string lf)"
    by (metis c_string_def min.absorb1 take_take takeWhile_eq_take)
  moreover have "nul_free (strip_end s)" if "nul_free s" for s
    using that by (cases s) (auto simp: strip_end_def nul_free_def dest: set_dropWhileD)
  moreover have "nul_free (take i (c_string lf))" by (rule nul_free_take) simp
  ultimately show ?thesis using i(2) by simp
qed

text \<open>The invariant of the loop over the lines: the table is well formed, and the count is of its entries.\<close>

definition fields_ok :: "srv \<Rightarrow> req \<Rightarrow> nat \<Rightarrow> bool" where
  "fields_ok srv r k \<longleftrightarrow> headers_ok (q_headers_in r) \<and>
     (limit_req_fields srv = 0 \<or> length (entries (q_headers_in r)) \<le> k \<and> k \<le> limit_req_fields srv)"

lemma header_line_ok:
  "fields_ok srv r k \<Longrightarrow> header_line srv field (r, lf, k) = Inr (r1, lf1, k1) \<Longrightarrow> fields_ok srv r1 k1"
  "fields_ok srv r k \<Longrightarrow> header_line srv field (r, lf, k) = Inl r2 \<Longrightarrow> fields_ok srv r2 k \<and> q_status r2 = HTTP_BAD_REQUEST"
proof -
  assume ok: "fields_ok srv r k"
  have h: "headers_ok (q_headers_in r)" using ok by (simp add: fields_ok_def)
  have a: "headers_ok (table_add (q_headers_in r) name v) \<and>
      entries (table_add (q_headers_in r) name v) = entries (q_headers_in r) @ [(name, v)]" if "nul_free name" for name v
    using table_add_ok [of "q_headers_in r" name v] h that by (simp add: headers_ok_def)
  show "header_line srv field (r, lf, k) = Inr (r1, lf1, k1) \<Longrightarrow> fields_ok srv r1 k1"
    using ok a [OF split_field_name] by (auto simp: header_line_def fields_ok_def same_texts Let_def split: option.splits if_splits)
  show "header_line srv field (r, lf, k) = Inl r2 \<Longrightarrow> fields_ok srv r2 k \<and> q_status r2 = HTTP_BAD_REQUEST"
    using ok by (auto simp: header_line_def fields_ok_def Let_def split: option.splits if_splits)
qed

lemma mime_loop_ok:
  assumes "mime_loop get srv st net = Some y"
  shows "fields_ok srv (fst st) (snd (snd st)) \<longrightarrow> (\<exists>k. fields_ok srv (fst y) k)"
proof (rule mime_loop.raw_induct [OF _ assms], rule impI)
  fix loop get srv st net y
  assume IH: "\<And>get srv st (net :: 'a) y. loop get srv st net = Some y \<Longrightarrow>
      fields_ok srv (fst st) (snd (snd st)) \<longrightarrow> (\<exists>k. fields_ok srv (fst y) k)"
    and L: "(case rgetline_core get (limit_req_fieldsize srv + 2) None False net of
        None \<Rightarrow> None
      | Some (rv, field, net1) \<Rightarrow>
          if rv \<noteq> APR_SUCCESS then Some (header_read_error rv field (fst st), net1)
          else
            (case header_line srv (handled field) st of
               Inl r \<Rightarrow> Some (r, net1)
             | Inr st1 \<Rightarrow>
                 if handled field = [] then
                   Some ((fst st1)\<lparr>q_headers_in := table_compress APR_OVERLAP_TABLES_MERGE (q_headers_in (fst st1))\<rparr>, net1)
                 else loop get srv st1 net1)) = Some y"
    and ok: "fields_ok srv (fst st) (snd (snd st))"
  show "\<exists>k. fields_ok srv (fst y) k"
  proof -
  obtain r lf k where st: "st = (r, lf, k)" by (cases st)
  obtain rv field net2 where g: "rgetline_core get (limit_req_fieldsize srv + 2) None False net = Some (rv, field, net2)"
    using L by (auto split: option.splits)
  show ?thesis
  proof (cases "rv = APR_SUCCESS")
    case False
    then have "q_headers_in (fst y) = q_headers_in r" using L g st by (auto simp: header_read_error_def Let_def split: option.splits if_splits)
    then show ?thesis using ok st by (auto simp: fields_ok_def)
  next
    case True
    show ?thesis
    proof (cases "header_line srv (handled field) st")
      case (Inl r2)
      then show ?thesis using header_line_ok(2) [of srv r k "handled field" lf r2] L ok g st True by auto
    next
      case (Inr st1)
      obtain r2 lf2 k2 where st1: "st1 = (r2, lf2, k2)" by (cases st1)
      have ok2: "fields_ok srv r2 k2" using header_line_ok(1) ok Inr st st1 by auto
      show ?thesis
      proof (cases "handled field = []")
        case F: True
        then have "fst y = r2\<lparr>q_headers_in := table_compress APR_OVERLAP_TABLES_MERGE (q_headers_in r2)\<rparr>"
          using L g st st1 True Inr by auto
        then have "fields_ok srv (fst y) k2"
          using ok2 headers.compress_law [of "q_headers_in r2"] entries_compress_length [of "q_headers_in r2" APR_OVERLAP_TABLES_MERGE]
          by (auto simp: fields_ok_def)
        then show ?thesis by blast
      next
        case F: False
        then have "loop get srv st1 net2 = Some y" using L g True Inr by simp
        then show ?thesis using IH ok2 st1 by auto
      qed
    qed
  qed
  qed
qed

lemma empty_fields_ok: "fields_ok srv (parse_request_line srv (new_req srv any) l) 0" "q_headers_in (parse_request_line srv (new_req srv any) l) = table_make any"
proof -
  show h: "q_headers_in (parse_request_line srv (new_req srv any) l) = table_make any"
    by (simp add: parse_request_line_def parse_uri_def new_req_def Let_def split: prod.splits)
  show "fields_ok srv (parse_request_line srv (new_req srv any) l) 0"
    unfolding fields_ok_def h using table_make_ok [of any] by (simp add: headers_ok_def entries_def table_make_def)
qed

lemma unset_length: "headers_ok t \<Longrightarrow> length (entries (table_unset t k)) \<le> length (entries t)"
  using table_unset_ok [of t k] by (simp add: headers_ok_def)

lemma drop_length_ok:
  assumes "fields_ok srv r k"
  shows "fields_ok srv (drop_length r) k \<and> (table_get (q_headers_in (drop_length r)) (Some ''Transfer-Encoding'') = None \<or>
    table_get (q_headers_in (drop_length r)) (Some ''Content-Length'') = None)"
  using assms headers.unset_law [of "q_headers_in r" "''Content-Length''"]
    headers.get_unset [of "q_headers_in r" "''Content-Length''" "''Content-Length''"] unset_length [of "q_headers_in r" "''Content-Length''"]
  by (auto simp: drop_length_def fields_ok_def)

text \<open>The hooks leave alone what this file has read.\<close>

definition keeps_reading :: "(req \<Rightarrow> req) \<Rightarrow> bool" where
  "keeps_reading f \<longleftrightarrow> (\<forall>r. q_headers_in (f r) = q_headers_in r \<and> q_proto_num (f r) = q_proto_num r \<and>
     (q_hostname (f r) = None \<longrightarrow> q_hostname r = None))"

text \<open>
  C4. No request reaches the handlers that a proxy in front could frame in another way: of \<open>Transfer-Encoding\<close>
  and \<open>Content-Length\<close> at most one is left in the fields of a request that \<open>ap_read_request\<close> accepts. A request
  with protocol 1.1 has a \<open>Host\<close> field, one of a later protocol a host, and the fields are at most as many as the
  configured limit.
\<close>
theorem accepted_request:
  assumes "read_request get srv vhost post_read any net = Some (GotRequest r, net1)"
    and "keeps_reading vhost" "keeps_reading (\<lambda>r. snd (post_read r))"
  shows "headers_ok (q_headers_in r) \<and>
    (table_get (q_headers_in r) (Some ''Transfer-Encoding'') = None \<or> table_get (q_headers_in r) (Some ''Content-Length'') = None) \<and>
    (q_proto_num r \<noteq> HTTP_VERSION 1 1 \<or> table_get (q_headers_in r) (Some ''Host'') \<noteq> None) \<and>
    (q_proto_num r < HTTP_VERSION 1 1 \<or> q_hostname r \<noteq> None) \<and>
    (limit_req_fields srv = 0 \<or> length (entries (q_headers_in r)) \<le> limit_req_fields srv)"
proof -
  obtain r0 n0 where c: "check_request vhost post_read r0 = GotRequest r" "\<exists>k. fields_ok srv r0 k"
    "table_get (q_headers_in r0) (Some ''Transfer-Encoding'') = None \<or> table_get (q_headers_in r0) (Some ''Content-Length'') = None"
  proof -
    obtain r2 n2 where l: "read_request_line get srv (new_req srv any) net = Some (True, r2, n2)"
      using assms(1) by (auto simp: read_request_def split: option.splits prod.splits if_splits)
    then obtain line where r2: "r2 = parse_request_line srv (new_req srv any) line"
      by (auto simp: read_request_line_def Let_def split: option.splits prod.splits if_splits)
    show ?thesis
    proof (cases "q_assbackwards r2")
      case True
      then have "check_request vhost post_read r2 = GotRequest r"
        using assms(1) l by (auto simp: read_request_def split: if_splits)
      moreover have "table_get (table_make any) (Some k) = None" for k
        using headers.get_iff_vals [of "table_make any" k] table_make_ok [of any]
        by (simp add: headers_ok_def tvals_def entries_def table_make_def)
      ultimately show ?thesis using that empty_fields_ok r2 by metis
    next
      case False
      then obtain r3 n3 where m: "mime_loop get srv (r2, None, 0) n2 = Some (r3, n3)" "check_request vhost post_read (drop_length r3) = GotRequest r"
        using assms(1) l by (auto simp: read_request_def get_mime_headers_def split: option.splits if_splits)
      obtain k where "fields_ok srv r3 k" using mime_loop_ok [OF m(1)] empty_fields_ok(1) r2 by auto
      from drop_length_ok [OF this] show ?thesis using that [OF m(2)] by auto
    qed
  qed
  define r1 where "r1 = vhost r0"
  have r1: "\<not> lacks_host r1" "q_headers_in r = q_headers_in (snd (post_read r1)) \<and> q_proto_num r = q_proto_num (snd (post_read r1)) \<and>
      q_hostname r = q_hostname (snd (post_read r1))"
  proof -
    show nl: "\<not> lacks_host r1"
    proof
      assume "lacks_host r1"
      then have "check_request vhost post_read r0 = ErrorSent (r1\<lparr>q_status := HTTP_BAD_REQUEST\<rparr>)"
        by (simp add: check_request_def r1_def HTTP_OK_def)
      then show False using c(1) by simp
    qed
    obtain a r3 where p: "post_read r1 = (a, r3)" by (cases "post_read r1")
    have "r = r3 \<or> r = r3\<lparr>q_expecting_100 := True\<rparr>"
      using c(1) nl p unfolding check_request_def r1_def [symmetric] Let_def
      by (simp split: if_splits option.splits)
    then have "r = snd (post_read r1) \<or> r = (snd (post_read r1))\<lparr>q_expecting_100 := True\<rparr>" using p by simp
    then show "q_headers_in r = q_headers_in (snd (post_read r1)) \<and> q_proto_num r = q_proto_num (snd (post_read r1)) \<and>
        q_hostname r = q_hostname (snd (post_read r1))" by auto
  qed
  have v: "q_headers_in r1 = q_headers_in r0" using assms(2) unfolding keeps_reading_def r1_def by blast
  have "q_headers_in (snd (post_read r1)) = q_headers_in r1 \<and> q_proto_num (snd (post_read r1)) = q_proto_num r1 \<and>
      (q_hostname (snd (post_read r1)) = None \<longrightarrow> q_hostname r1 = None)"
    using assms(3) unfolding keeps_reading_def by blast
  with v r1(2) have "q_headers_in r = q_headers_in r0" "q_headers_in r1 = q_headers_in r0" "q_proto_num r = q_proto_num r1"
    "q_hostname r = None \<Longrightarrow> q_hostname r1 = None" by simp_all
  then show ?thesis using r1(1) c(2,3) by (auto simp: lacks_host_def fields_ok_def)
qed

text \<open>A virtual host that takes the host from the field, when the URI has none.\<close>

definition sample_vhost :: "req \<Rightarrow> req" where
  "sample_vhost r = (if q_hostname r = None then r\<lparr>q_hostname := table_get (q_headers_in r) (Some ''Host'')\<rparr> else r)"

lemma sample_read:
  obtains r net' where "read_request (core_input_filter NUL) sample_srv vhost (Pair 0) (\<lambda>_. 0) pipeline_net =
      Some (check_request vhost (Pair 0) r, net')" "q_status r = HTTP_OK" "q_hostname r = None"
    "table_get (q_headers_in r) (Some ''Host'') = Some ''h''" "table_get (q_headers_in r) (Some ''Expect'') = None"
    "table_get (q_headers_in r) (Some ''Transfer-Encoding'') = Some ''chunked''"
proof -
  have m: "method_number_of (srv_methods sample_srv) ''GET'' \<noteq> M_CONNECT" using sample_fits(7,8) by simp
  let ?f = "\<lambda>k. if vals_of k sample_fields = [] \<or> strcaseeq ''Content-Length'' k \<and> vals_of ''Transfer-Encoding'' sample_fields \<noteq> [] then None
        else Some (join_values (vals_of k sample_fields))"
  from request_read_back [where over = NUL and vhost = vhost and post_read = "Pair 0" and any = "\<lambda>_. 0", OF sample_fits(1)
      sample_fits(2) [unfolded sample_wire_def] sample_fits(3-6) m]
  obtain r net' where r: "read_request (core_input_filter NUL) sample_srv vhost (Pair 0) (\<lambda>_. 0) pipeline_net =
        Some (check_request vhost (Pair 0) r, net')" "q_status r = HTTP_OK" "q_hostname r = None"
    and h: "\<And>k. table_get (q_headers_in r) (Some k) = ?f k" by blast
  have "?f ''Host'' = Some ''h''" "?f ''Expect'' = None" "?f ''Transfer-Encoding'' = Some ''chunked''" by code_simp+
  then show ?thesis using that [OF r] h by metis
qed

theorem accepted_request_witness:
  "\<exists>r net'. read_request (core_input_filter NUL) sample_srv sample_vhost (Pair 0) (\<lambda>_. 0) pipeline_net = Some (GotRequest r, net') \<and>
    table_get (q_headers_in r) (Some ''Transfer-Encoding'') = Some ''chunked'' \<and>
    (table_get (q_headers_in r) (Some ''Transfer-Encoding'') = None \<or> table_get (q_headers_in r) (Some ''Content-Length'') = None) \<and>
    length (entries (q_headers_in r)) \<le> 100"
proof -
  from sample_read [of sample_vhost] obtain r net' where r:
    "read_request (core_input_filter NUL) sample_srv sample_vhost (Pair 0) (\<lambda>_. 0) pipeline_net = Some (check_request sample_vhost (Pair 0) r, net')"
    "q_status r = HTTP_OK" "q_hostname r = None"
    and f: "table_get (q_headers_in r) (Some ''Host'') = Some ''h''" "table_get (q_headers_in r) (Some ''Expect'') = None"
    "table_get (q_headers_in r) (Some ''Transfer-Encoding'') = Some ''chunked''" by blast
  let ?r = "r\<lparr>q_hostname := Some ''h''\<rparr>"
  have "check_request sample_vhost (Pair 0) r = GotRequest ?r"
    using r(2,3) f by (simp add: check_request_def sample_vhost_def lacks_host_def)
  then have g: "read_request (core_input_filter NUL) sample_srv sample_vhost (Pair 0) (\<lambda>_. 0) pipeline_net = Some (GotRequest ?r, net')"
    using r(1) by simp
  have "keeps_reading sample_vhost" "keeps_reading (\<lambda>r. snd (Pair (0 :: int) r))"
    by (simp_all add: keeps_reading_def sample_vhost_def)
  from accepted_request [OF g this] show ?thesis using g f by (auto simp: sample_srv_def)
qed

lemma rgetline_consumes:
  "\<exists>rv s net1. rgetline_core (core_input_filter over) n None False net = Some (rv, s, net1) \<and>
    (rv = APR_SUCCESS \<longrightarrow> length (net_bytes net1) < length (net_bytes net)) \<and> (\<exists>x. net_bytes net = x @ net_bytes net1)"
proof -
  from rgetline_line_returns [of over n None net] obtain rv s1 eos net1 where
    "rgetline_line (core_input_filter over) n None net = Some (rv, s1, eos, net1)"
    "rv = APR_SUCCESS \<longrightarrow> length (net_bytes net1) < length (net_bytes net)" "\<exists>x. net_bytes net = x @ net_bytes net1"
    by (auto simp: ends_with_lf_def)
  then show ?thesis by (auto simp: rgetline_core_def)
qed

lemma mime_loop_returns:
  "\<exists>r net1. mime_loop (core_input_filter over) srv st net = Some (r, net1) \<and> (\<exists>x. net_bytes net = x @ net_bytes net1)"
proof (induction "length (net_bytes net)" arbitrary: st net rule: less_induct)
  case less
  from rgetline_consumes [of over "limit_req_fieldsize srv + 2" net] obtain rv s net1 where
    g: "rgetline_core (core_input_filter over) (limit_req_fieldsize srv + 2) None False net = Some (rv, s, net1)"
    "rv = APR_SUCCESS \<longrightarrow> length (net_bytes net1) < length (net_bytes net)" "\<exists>x. net_bytes net = x @ net_bytes net1" by blast
  show ?case
  proof (cases "rv = APR_SUCCESS \<and> handled s \<noteq> [] \<and> (\<exists>st1. header_line srv (handled s) st = Inr st1)")
    case False
    then show ?thesis using g(1,3) by (subst mime_loop.simps) (auto split: sum.splits)
  next
    case True
    then obtain st1 where st1: "header_line srv (handled s) st = Inr st1" by blast
    have "mime_loop (core_input_filter over) srv st net = mime_loop (core_input_filter over) srv st1 net1"
      using g(1) True st1 by (subst mime_loop.simps) simp
    moreover obtain r net2 where "mime_loop (core_input_filter over) srv st1 net1 = Some (r, net2)" "\<exists>x. net_bytes net1 = x @ net_bytes net2"
      using less.hyps [of net1 st1] g(2) True by blast
    moreover have "\<exists>x. net_bytes net = x @ net_bytes net2" using g(3) calculation(3) by (metis append.assoc)
    ultimately show ?thesis by auto
  qed
qed

lemma request_line_loop_returns:
  "\<exists>rv s net1. request_line_loop (core_input_filter over) lim m num net = Some (rv, s, net1) \<and> (\<exists>x. net_bytes net = x @ net_bytes net1)"
proof (induction "m - num" arbitrary: num net rule: less_induct)
  case less
  obtain rv s net1 where g: "rgetline_core (core_input_filter over) lim None False net = Some (rv, s, net1)" "\<exists>x. net_bytes net = x @ net_bytes net1"
    using rgetline_consumes [of over lim net] by blast
  show ?case
  proof (cases "rv = APR_SUCCESS \<and> handled s = [] \<and> Suc num < m")
    case False
    then show ?thesis using g by (subst request_line_loop.simps) auto
  next
    case True
    then have "request_line_loop (core_input_filter over) lim m num net = request_line_loop (core_input_filter over) lim m (Suc num) net1"
      using g(1) by (subst request_line_loop.simps) simp
    moreover have "m - Suc num < m - num" using True by linarith
    from less.hyps [OF this, of net1] obtain rv s net2 where "request_line_loop (core_input_filter over) lim m (Suc num) net1 = Some (rv, s, net2)"
      "\<exists>x. net_bytes net1 = x @ net_bytes net2" by blast
    moreover have "\<exists>x. net_bytes net = x @ net_bytes net2" using g(2) calculation(3) by (metis append.assoc)
    ultimately show ?thesis by auto
  qed
qed

text \<open>
  C32. \<open>ap_read_request\<close> returns on every connection: whatever the client sends, however it comes in pieces, fails or
  times out, and whatever the hooks do, reading the request line, the header fields and the checks come to an end, and what
  is left of the connection is a suffix of what there was.
\<close>
theorem read_request_returns:
  "\<exists>res net1. read_request (core_input_filter over) srv vhost post_read any net = Some (res, net1) \<and> (\<exists>x. net_bytes net = x @ net_bytes net1)"
proof -
  obtain ok r net1 where l: "read_request_line (core_input_filter over) srv (new_req srv any) net = Some (ok, r, net1)" "\<exists>x. net_bytes net = x @ net_bytes net1"
  proof -
    from request_line_loop_returns [of over "limit_req_line srv + 2" "if limit_req_fields srv \<le> 0 then DEFAULT_LIMIT_REQUEST_FIELDS else limit_req_fields srv" 0 net]
    obtain rv s net1 where "request_line_loop (core_input_filter over) (limit_req_line srv + 2)
        (if limit_req_fields srv \<le> 0 then DEFAULT_LIMIT_REQUEST_FIELDS else limit_req_fields srv) 0 net = Some (rv, s, net1)"
      "\<exists>x. net_bytes net = x @ net_bytes net1" by blast
    then show ?thesis using that by (cases "rv = APR_SUCCESS") (auto simp: read_request_line_def Let_def)
  qed
  obtain r2 net2 where m: "get_mime_headers (core_input_filter over) srv r net1 = Some (r2, net2)" "\<exists>x. net_bytes net1 = x @ net_bytes net2"
    using mime_loop_returns [of over srv _ net1] unfolding get_mime_headers_def by blast
  have "\<exists>x. net_bytes net = x @ net_bytes net2" using l(2) m(2) by (metis append.assoc)
  then show ?thesis using l m(1) by (simp add: read_request_def)
qed

text \<open>
  A request line that does not fit into the limit is answered with the status 414, as protocol 1.0, whatever is in it,
  and the whole line has been taken off the connection.
\<close>
theorem request_line_too_long:
  assumes "net_ok net" "net_bytes net = l @ LF # rest" "LF \<notin> set l" "limit_req_line srv + 2 \<le> length l" "length l < HUGE_STRING_LEN"
  shows "\<exists>r net1. read_request (core_input_filter over) srv vhost post_read any net = Some (ErrorSent r, net1) \<and>
    q_status r = HTTP_REQUEST_URI_TOO_LARGE \<and> q_proto_num r = HTTP_VERSION 1 0 \<and> net_bytes net1 = rest"
proof -
  obtain s net1 where "rgetline_core (core_input_filter over) (limit_req_line srv + 2) None False net = Some (APR_ENOSPC, s, net1)"
    "net_bytes net1 = rest"
    using core.rgetline_core_long [OF assms(1-3,5,4)] by blast
  then have "request_line_loop (core_input_filter over) (limit_req_line srv + 2) m 0 net = Some (APR_ENOSPC, s, net1)" for m
    by (subst request_line_loop.simps) simp
  then show ?thesis using \<open>net_bytes net1 = rest\<close>
    by (simp add: read_request_def read_request_line_def Let_def)
qed

theorem request_line_too_long_witness:
  "\<exists>r net1. read_request (core_input_filter NUL) (sample_srv\<lparr>limit_req_line := 3\<rparr>) id (Pair 0) (\<lambda>_. 0)
      \<lparr>in_ctx = None, client_socket = [Arrive (''GET /'' @ [LF] @ ''x'')]\<rparr> = Some (ErrorSent r, net1) \<and>
    q_status r = HTTP_REQUEST_URI_TOO_LARGE \<and> net_bytes net1 = ''x''"
  using request_line_too_long [of "\<lparr>in_ctx = None, client_socket = [Arrive (''GET /'' @ [LF] @ ''x'')]\<rparr>" "''GET /''" "''x''"
      "sample_srv\<lparr>limit_req_line := 3\<rparr>" NUL id "Pair 0" "\<lambda>_. 0"]
  by (auto simp: net_ok_def net_bytes_def HUGE_STRING_LEN_def)

text \<open>
  The guard of \<open>read_request_line\<close> against a minor version of 1000 and more does not see a negative number; the
  conversion accepts one, and the number of the protocol is that of another version. A large major number wraps.
\<close>
lemma protocol_negative_minor:
  "protocol_number ''HTTP/2.-999'' = HTTP_VERSION 1 1" "protocol_number ''HTTP/1.1000'' = HTTP_VERSION 1 0"
  "protocol_number ''HTTP/4294967.297'' = 1"
proof -
  note D = protocol_number_def scan_protocol_def scan_u_def dec_value_def c_class_defs ccode_def cget_def
  have h: "strcaseeq ''http'' ''HTTP''" by code_simp
  show "protocol_number ''HTTP/2.-999'' = HTTP_VERSION 1 1" by (simp add: D HTTP_VERSION_def h)
  show "protocol_number ''HTTP/1.1000'' = HTTP_VERSION 1 0" by (simp add: D HTTP_VERSION_def h)
  show "protocol_number ''HTTP/4294967.297'' = 1" by (simp add: D HTTP_VERSION_def h)
qed

end
