(* ===== verification/Apr_Inet.thy ===== *)
theory Apr_Inet
  imports Libc
begin

text \<open>
  Numeric addresses, \<open>srclib/apr/network_io/unix/inet_pton.c\<close> and \<open>inet_ntop.c\<close>: dotted quads and IPv6
  addresses, to bytes and back. An address is the list of its bytes in network order; inside the functions
  bytes and 16-bit groups are numbers, whose range is part of the lemmas.
\<close>

section \<open>Reading\<close>

text \<open>
  The loop of \<open>inet_pton4\<close>: \<open>tmp\<close> are the octets before the current one, \<open>cur\<close> is \<open>*tp\<close>.
\<close>

fun pton4_loop :: "cstring \<Rightarrow> bool \<Rightarrow> nat \<Rightarrow> nat list \<Rightarrow> nat \<Rightarrow> nat list option" where
  "pton4_loop [] saw_digit octets tmp cur = (if octets < 4 then None else Some (tmp @ [cur]))"
| "pton4_loop (ch # src) saw_digit octets tmp cur =
     (if c_isdigit ch then
        (let new = cur * 10 + (ccode ch - 48)
         in if new > 255 then None
            else if \<not> saw_digit then (if Suc octets > 4 then None else pton4_loop src True (Suc octets) tmp new)
            else pton4_loop src True octets tmp new)
      else if ch = CHR ''.'' \<and> saw_digit then
        (if octets = 4 then None else pton4_loop src False octets (tmp @ [cur]) 0)
      else None)"

definition inet_pton4 :: "cstring \<Rightarrow> nat list option" where
  "inet_pton4 src = pton4_loop src False 0 [] 0"

text \<open>
  The loop of \<open>inet_pton6\<close>: \<open>tmp\<close> are the bytes up to \<open>tp\<close>, \<open>colonp\<close> the place of the double colon; the
  result is the state behind the loop.
\<close>

definition IN6ADDRSZ :: nat where "IN6ADDRSZ = 16"
definition INT16SZ :: nat where "INT16SZ = 2"
definition INADDRSZ :: nat where "INADDRSZ = 4"

fun pton6_loop :: "cstring \<Rightarrow> cstring \<Rightarrow> nat list \<Rightarrow> nat option \<Rightarrow> bool \<Rightarrow> nat \<Rightarrow> (nat list \<times> nat option \<times> bool \<times> nat) option" where
  "pton6_loop [] curtok tmp colonp saw_xdigit val = Some (tmp, colonp, saw_xdigit, val)"
| "pton6_loop (ch # src) curtok tmp colonp saw_xdigit val =
     (if c_isxdigit ch then
        (let v = val * 16 + hex_digit_value ch
         in if v > 0xffff then None else pton6_loop src curtok tmp colonp True v)
      else if ch = CHR '':'' then
        (if \<not> saw_xdigit then
           (if colonp \<noteq> None then None else pton6_loop src src tmp (Some (length tmp)) saw_xdigit val)
         else if length tmp + INT16SZ > IN6ADDRSZ then None
         else pton6_loop src src (tmp @ [val div 256, val mod 256]) colonp False 0)
      else if ch = CHR ''.'' \<and> length tmp + INADDRSZ \<le> IN6ADDRSZ then
        (case inet_pton4 curtok of None \<Rightarrow> None | Some quad \<Rightarrow> Some (tmp @ quad, colonp, False, val))
      else None)"

text \<open>The shift by hand of the \<open>n\<close> bytes behind the double colon to the end of the address.\<close>

definition shift_step :: "nat \<Rightarrow> nat \<Rightarrow> nat list \<Rightarrow> nat \<Rightarrow> nat list" where
  "shift_step colonp n t i = (t[IN6ADDRSZ - i := t ! (colonp + n - i)])[colonp + n - i := 0]"

definition shift_bytes :: "nat \<Rightarrow> nat \<Rightarrow> nat list \<Rightarrow> nat list" where
  "shift_bytes colonp n t = foldl (shift_step colonp n) t [1..<Suc n]"

definition inet_pton6 :: "cstring \<Rightarrow> nat list option" where
  "inet_pton6 src0 =
     (if cget src0 0 = CHR '':'' \<and> cget src0 1 \<noteq> CHR '':'' then None
      else
        (let src = (if cget src0 0 = CHR '':'' then tl src0 else src0)
         in case pton6_loop src src [] None False 0 of
              None \<Rightarrow> None
            | Some (tmp, colonp, saw_xdigit, val) \<Rightarrow>
                if saw_xdigit \<and> length tmp + INT16SZ > IN6ADDRSZ then None
                else
                  (let tmp1 = (if saw_xdigit then tmp @ [val div 256, val mod 256] else tmp)
                   in case colonp of
                        None \<Rightarrow> if length tmp1 \<noteq> IN6ADDRSZ then None else Some tmp1
                      | Some c \<Rightarrow>
                          Some (shift_bytes c (length tmp1 - c) (tmp1 @ replicate (IN6ADDRSZ - length tmp1) 0)))))"

section \<open>Printing\<close>

definition octet_text :: "nat \<Rightarrow> cstring" where
  "octet_text u =
     (if u > 99 then [char_of (48 + u div 100), char_of (48 + u mod 100 div 10), char_of (48 + u mod 100 mod 10)]
      else if u > 9 then [char_of (48 + u div 10), char_of (48 + u mod 10)] else [char_of (48 + u)])"

definition inet_ntop4 :: "nat list \<Rightarrow> nat \<Rightarrow> cstring option" where
  "inet_ntop4 src sz =
     (if sz < 16 then None else Some (butlast (concat (map (\<lambda>u. octet_text u @ ''.'') (take 4 src)))))"

text \<open>
  The search for the longest run of zero groups: a run is its base and its length, \<open>None\<close> for the
  base \<open>-1\<close>.
\<close>

definition best_run :: "(nat \<times> nat) option \<Rightarrow> (nat \<times> nat) option \<Rightarrow> (nat \<times> nat) option" where
  "best_run best cur =
     (case cur of None \<Rightarrow> best
      | Some (b, l) \<Rightarrow> (case best of None \<Rightarrow> Some (b, l) | Some (b', l') \<Rightarrow> if l > l' then Some (b, l) else best))"

fun find_run :: "nat list \<Rightarrow> nat \<Rightarrow> (nat \<times> nat) option \<Rightarrow> (nat \<times> nat) option \<Rightarrow> (nat \<times> nat) option" where
  "find_run [] i best cur = best_run best cur"
| "find_run (w # ws) i best cur =
     (if w = 0 then find_run ws (Suc i) best (case cur of None \<Rightarrow> Some (i, 1) | Some (b, l) \<Rightarrow> Some (b, Suc l))
      else find_run ws (Suc i) (best_run best cur) None)"

definition zero_run :: "nat list \<Rightarrow> (nat \<times> nat) option" where
  "zero_run ws = (case find_run ws 0 None None of None \<Rightarrow> None | Some (b, l) \<Rightarrow> if l < 2 then None else Some (b, l))"

fun groups :: "nat list \<Rightarrow> nat list" where
  "groups (a # b # src) = (a * 256 + b) # groups src"
| "groups src = []"

text \<open>The loop that prints. A run has a positive length.\<close>

function ntop6_loop :: "nat list \<Rightarrow> nat list \<Rightarrow> (nat \<times> nat) option \<Rightarrow> nat \<Rightarrow> cstring" where
  "ntop6_loop src ws best i =
     (if i \<ge> IN6ADDRSZ div INT16SZ then []
      else
        (case best of
           Some (b, l) \<Rightarrow>
             if i = b then '':'' @ ntop6_loop src ws best (i + max 1 l)
             else (if i \<noteq> 0 then '':'' else []) @
               (if i = 6 \<and> b = 0 \<and> (l = 6 \<or> l = 5 \<and> ws ! 5 = 0xffff) then the (inet_ntop4 (drop 12 src) 16)
                else fmt_hex (ws ! i) @ ntop6_loop src ws best (Suc i))
         | None \<Rightarrow> (if i \<noteq> 0 then '':'' else []) @ fmt_hex (ws ! i) @ ntop6_loop src ws best (Suc i)))"
  by pat_completeness auto

termination ntop6_loop by (relation "measure (\<lambda>(_, _, _, i). 8 - i)") (auto simp: IN6ADDRSZ_def INT16SZ_def)

declare ntop6_loop.simps [simp del]

definition inet_ntop6 :: "nat list \<Rightarrow> nat \<Rightarrow> cstring option" where
  "inet_ntop6 src sz =
     (let ws = groups (take IN6ADDRSZ src); best = zero_run ws;
          tmp = ntop6_loop src ws best 0 @
            (case best of Some (b, l) \<Rightarrow> if b + l = IN6ADDRSZ div INT16SZ then '':'' else [] | None \<Rightarrow> [])
      in if length tmp + 1 > sz then None else Some tmp)"

section \<open>Dotted quads\<close>

lemma digit_text [simp]: "n < 10 \<Longrightarrow> c_isdigit (char_of (48 + n :: nat))" "n < 10 \<Longrightarrow> ccode (char_of (48 + n :: nat)) = 48 + n"
  by (simp_all add: c_isdigit_def)

lemma stops [simp]: "\<not> c_isdigit (CHR ''.'')" "\<not> c_isxdigit (CHR ''.'')" "\<not> c_isdigit (CHR '':'')" "\<not> c_isxdigit (CHR '':'')"
  by code_simp+

lemma pton4_octet:
  assumes "u < 256" "oct < 4"
  shows "pton4_loop (octet_text u @ rest) False oct tmp 0 = pton4_loop rest True (Suc oct) tmp u"
proof -
  consider "u < 10" | "10 \<le> u" "u < 100" | "100 \<le> u" by linarith
  then show ?thesis
  proof cases
    case 1
    then show ?thesis using assms by (simp add: octet_text_def Let_def)
  next
    case 2
    then have "u div 10 < 10" "u mod 10 < 10" "(u div 10) * 10 + u mod 10 = u" "\<not> 255 < u div 10" by auto
    then show ?thesis using assms 2 by (simp add: octet_text_def Let_def)
  next
    case 3
    have d: "u div 100 < 10" "u mod 100 div 10 < 10" "u mod 100 mod 10 < 10" using assms by auto
    have "u mod 100 mod 10 = u mod 10" by (rule mod_mod_cancel) simp
    moreover have "u mod 100 div 10 = u div 10 mod 10" by (simp add: mod_mult2_eq [of u 10 10, simplified])
    moreover have "u div 100 = u div 10 div 10" by (simp add: div_mult2_eq [symmetric])
    ultimately have e: "u div 100 * 10 + u mod 100 div 10 = u div 10" "u mod 100 mod 10 = u mod 10" by simp_all
    have "(u div 10) * 10 + u mod 10 = u" "\<not> 255 < u div 10" "\<not> 255 < u div 100" using assms by auto
    with e have "(u div 100 * 10 + u mod 100 div 10) * 10 + u mod 100 mod 10 = u" "\<not> 255 < u div 100 * 10 + u mod 100 div 10" "\<not> 255 < u div 100"
      by simp_all
    then show ?thesis using assms 3 d by (simp add: octet_text_def Let_def)
  qed
qed

lemma pton4_dot: "oct < 4 \<Longrightarrow> pton4_loop (CHR ''.'' # rest) True oct tmp u = pton4_loop rest False oct (tmp @ [u]) 0"
  by simp

lemma inet_ntop4_text:
  "inet_ntop4 [a, b, c, d] 16 = Some (octet_text a @ ''.'' @ octet_text b @ ''.'' @ octet_text c @ ''.'' @ octet_text d)"
proof -
  have "butlast (x @ [y]) = x" for x :: cstring and y by simp
  then show ?thesis by (simp add: inet_ntop4_def butlast_append)
qed

lemma pton4_text:
  "list_all (\<lambda>u. u < 256) [a, b, c, d] \<Longrightarrow>
    inet_pton4 (octet_text a @ ''.'' @ octet_text b @ ''.'' @ octet_text c @ ''.'' @ octet_text d) = Some [a, b, c, d]"
  using pton4_octet [of d "Suc (Suc (Suc 0))" "[]"] by (simp add: inet_pton4_def pton4_octet)

text \<open>What \<open>inet_pton4\<close> accepts: digits with single dots between them.\<close>

lemma pton4_loop_chars:
  "pton4_loop src saw octets tmp cur = Some q \<Longrightarrow>
    list_all (\<lambda>c. c_isdigit c \<or> c = CHR ''.'') src \<and> (\<forall>a b. src \<noteq> a @ ''..'' @ b) \<and> (saw \<or> cget src 0 \<noteq> CHR ''.'')"
proof (induction src saw octets tmp cur rule: pton4_loop.induct)
  case (2 ch src saw octets tmp cur)
  show ?case
  proof (cases "c_isdigit ch")
    case True
    have ih: "list_all (\<lambda>c. c_isdigit c \<or> c = CHR ''.'') src \<and> (\<forall>a b. src \<noteq> a @ ''..'' @ b)"
      using 2 True by (cases saw) (auto simp: Let_def split: if_splits)
    moreover have "ch \<noteq> CHR ''.''" using True by auto
    moreover have "ch # src \<noteq> a @ ''..'' @ b" for a b using ih \<open>ch \<noteq> CHR ''.''\<close> by (cases a) auto
    ultimately show ?thesis using True by auto
  next
    case False
    then have ih: "list_all (\<lambda>c. c_isdigit c \<or> c = CHR ''.'') src \<and> (\<forall>a b. src \<noteq> a @ ''..'' @ b) \<and> cget src 0 \<noteq> CHR ''.''"
      and s: "ch = CHR ''.''" "saw"
      using 2 by (auto split: if_splits)
    have "ch # src \<noteq> a @ ''..'' @ b" for a b using ih by (cases a) auto
    then show ?thesis using ih s by auto
  qed
qed simp

lemma pton4_loop_bytes:
  "pton4_loop src saw octets tmp cur = Some q \<Longrightarrow> cur < 256 \<Longrightarrow> list_all (\<lambda>u. u < 256) tmp \<Longrightarrow>
    (if saw then octets = Suc (length tmp) \<and> octets \<le> 4 else octets = length tmp \<and> octets < 4) \<Longrightarrow> list_all (\<lambda>u. u < 256) q \<and> length q = 4"
  by (induction src saw octets tmp cur rule: pton4_loop.induct) (auto simp: Let_def split: if_splits)

lemma inet_pton4_bytes: "inet_pton4 s = Some q \<Longrightarrow> list_all (\<lambda>u. u < 256) q \<and> length q = 4"
  using pton4_loop_bytes [of s False 0 "[]" 0 q] by (simp add: inet_pton4_def)

section \<open>IPv6 addresses\<close>

definition word_bytes :: "nat list \<Rightarrow> nat list" where
  "word_bytes ws = concat (map (\<lambda>w. [w div 256, w mod 256]) ws)"

definition sfx :: "nat list \<Rightarrow> cstring" where
  "sfx ws = concat (map (\<lambda>w. CHR '':'' # fmt_hex w) ws)"

lemma word_bytes_simps [simp]:
  "word_bytes [] = []" "word_bytes (w # ws) = w div 256 # w mod 256 # word_bytes ws" "word_bytes (ws @ vs) = word_bytes ws @ word_bytes vs"
  "length (word_bytes ws) = 2 * length ws"
  by (simp_all add: word_bytes_def) (induction ws, simp_all)

lemma word_bytes_zeros: "word_bytes (replicate n 0) = replicate (2 * n) 0"
  by (induction n) simp_all

lemma sfx_simps [simp]: "sfx [] = []" "sfx (w # ws) = CHR '':'' # fmt_hex w @ sfx ws" "sfx (ws @ vs) = sfx ws @ sfx vs"
  by (simp_all add: sfx_def)

lemma groups_bytes: "even (length src) \<Longrightarrow> list_all (\<lambda>u. u < 256) src \<Longrightarrow>
    word_bytes (groups src) = src \<and> length (groups src) = length src div 2 \<and> list_all (\<lambda>w. w \<le> 0xffff) (groups src)"
  by (induction src rule: groups.induct) auto

lemma foldl_hex_mono: "v \<le> foldl (\<lambda>n c. 16 * n + hex_digit_value c) v ds"
proof (induction ds arbitrary: v)
  case (Cons d ds)
  have "v \<le> 16 * v + hex_digit_value d" by simp
  also have "\<dots> \<le> foldl (\<lambda>n c. 16 * n + hex_digit_value c) (16 * v + hex_digit_value d) ds" by (rule Cons)
  finally show ?case by simp
qed simp

lemma pton6_digits:
  "list_all c_isxdigit ds \<Longrightarrow> foldl (\<lambda>n c. 16 * n + hex_digit_value c) v ds \<le> 0xffff \<Longrightarrow>
    pton6_loop (ds @ rest) tok tmp cp saw v = pton6_loop rest tok tmp cp (saw \<or> ds \<noteq> []) (foldl (\<lambda>n c. 16 * n + hex_digit_value c) v ds)"
proof (induction ds arbitrary: v saw)
  case (Cons d ds)
  have "v * 16 + hex_digit_value d \<le> 0xffff"
    using foldl_hex_mono [of "16 * v + hex_digit_value d" ds] Cons.prems(2) by simp
  then show ?case using Cons.IH [of "16 * v + hex_digit_value d" True] Cons.prems by (simp add: Let_def mult.commute)
qed simp

lemma pton6_hex: "w \<le> 0xffff \<Longrightarrow> pton6_loop (fmt_hex w @ rest) tok tmp cp False 0 = pton6_loop rest tok tmp cp True w"
  using pton6_digits [of "fmt_hex w" 0 rest tok tmp cp False] fmt_hex_number [of w] by (simp add: hex_number_def)

lemma pton6_words:
  "list_all (\<lambda>w. w \<le> 0xffff) (w # ws) \<Longrightarrow> length tmp + 2 * length ws \<le> 16 \<Longrightarrow>
    pton6_loop (fmt_hex w @ sfx ws @ rest) tok tmp cp False 0 =
      pton6_loop rest (if ws = [] then tok else fmt_hex (List.last ws) @ rest) (tmp @ word_bytes (butlast (w # ws))) cp True (List.last (w # ws))"
proof (induction ws arbitrary: w tmp tok)
  case Nil
  then show ?case using pton6_hex [of w rest] by simp
next
  case (Cons v ws)
  have "pton6_loop (fmt_hex w @ sfx (v # ws) @ rest) tok tmp cp False 0 =
      pton6_loop (CHR '':'' # fmt_hex v @ sfx ws @ rest) tok tmp cp True w"
    using Cons.prems(1) pton6_hex [of w "CHR '':'' # fmt_hex v @ sfx ws @ rest"] by simp
  also have "\<dots> = pton6_loop (fmt_hex v @ sfx ws @ rest) (fmt_hex v @ sfx ws @ rest) (tmp @ [w div 256, w mod 256]) cp False 0"
    using Cons.prems(2) by (simp add: INT16SZ_def IN6ADDRSZ_def)
  also have "\<dots> = pton6_loop rest (if ws = [] then fmt_hex v @ sfx ws @ rest else fmt_hex (List.last ws) @ rest)
      ((tmp @ [w div 256, w mod 256]) @ word_bytes (butlast (v # ws))) cp True (List.last (v # ws))"
    using Cons.prems by (intro Cons.IH) auto
  finally show ?case by simp
qed

text \<open>The shift moves what is behind the double colon to the end, when there is room. In a full address it clears it.\<close>

lemma shift_loop:
  assumes "length p + length q + gap = 16" "0 < gap" "i \<le> length q"
  shows "foldl (shift_step (length p) (length q)) (p @ q @ replicate gap 0) [1..<Suc i] =
    p @ take (length q - i) q @ replicate gap 0 @ drop (length q - i) q"
  using assms(3)
proof (induction i)
  case (Suc i)
  let ?m = "length q - Suc i"
  let ?t = "p @ take (length q - i) q @ replicate gap 0 @ drop (length q - i) q"
  obtain g where g: "gap = Suc g" using assms(2) by (cases gap) auto
  have i: "length q - i = Suc ?m" "?m < length q" using Suc.prems by auto
  have tq: "take (length q - i) q = take ?m q @ [q ! ?m]" using i by (simp add: take_Suc_conv_app_nth)
  have t: "?t = (p @ take ?m q) @ q ! ?m # replicate g 0 @ 0 # drop (length q - i) q"
    using tq g by (simp add: replicate_append_same)
  have len: "length (p @ take ?m q) = length p + length q - Suc i" using Suc.prems by simp
  have pos: "IN6ADDRSZ - Suc i = length (p @ take ?m q) + Suc g"
    using assms(1) g Suc.prems by (simp add: IN6ADDRSZ_def)
  have "shift_step (length p) (length q) ?t (Suc i) =
      (?t[length (p @ take ?m q) + Suc g := ?t ! length (p @ take ?m q)])[length (p @ take ?m q) := 0]"
    by (simp only: shift_step_def pos len)
  also have "\<dots> = (p @ take ?m q) @ 0 # replicate g 0 @ q ! ?m # drop (length q - i) q"
    unfolding t by (simp only: nth_append_length list_update_append list_update_length) (simp add: list_update_append)
  also have "\<dots> = p @ take ?m q @ replicate gap 0 @ drop ?m q"
    using i g by (simp add: Cons_nth_drop_Suc)
  finally show ?case using Suc by simp
qed simp

lemma shift_bytes_gap:
  "length p + length q + gap = 16 \<Longrightarrow> 0 < gap \<Longrightarrow> shift_bytes (length p) (length q) (p @ q @ replicate gap 0) = p @ replicate gap 0 @ q"
  using shift_loop [of p q gap "length q"] by (simp add: shift_bytes_def)

text \<open>The run of zeros that is found is one.\<close>

definition run_ok :: "nat list \<Rightarrow> (nat \<times> nat) option \<Rightarrow> bool" where
  "run_ok ws r \<longleftrightarrow> (case r of None \<Rightarrow> True | Some (b, l) \<Rightarrow> b + l \<le> length ws \<and> (\<forall>j. b \<le> j \<and> j < b + l \<longrightarrow> ws ! j = 0))"

lemma find_run_ok:
  "vs = drop i ws \<Longrightarrow> run_ok ws best \<Longrightarrow> run_ok ws cur \<Longrightarrow> (case cur of None \<Rightarrow> True | Some (b, l) \<Rightarrow> b + l = i) \<Longrightarrow>
    run_ok ws (find_run vs i best cur)"
proof (induction vs i best cur rule: find_run.induct)
  case (1 i best cur)
  then show ?case by (auto simp: best_run_def split: option.split prod.split)
next
  case (2 w vs i best cur)
  have i: "i < length ws" using 2(3) by (metis drop_all list.distinct(1) not_le)
  have w: "w = ws ! i" "vs = drop (Suc i) ws" using 2(3) i by (metis Cons_nth_drop_Suc list.inject)+
  have b: "run_ok ws (best_run best cur)" using 2(4,5) by (auto simp: best_run_def split: option.split prod.split)
  show ?case
  proof (cases "w = 0")
    case True
    have "run_ok ws (case cur of None \<Rightarrow> Some (i, 1) | Some (b, l) \<Rightarrow> Some (b, Suc l))"
      using 2(5,6) i w(1) True by (auto simp: run_ok_def less_Suc_eq split: option.splits)
    moreover have "case (case cur of None \<Rightarrow> Some (i, 1) | Some (b, l) \<Rightarrow> Some (b, Suc l)) of None \<Rightarrow> True | Some (b, l) \<Rightarrow> b + l = Suc i"
      using 2(6) by (auto split: option.splits)
    ultimately show ?thesis using 2(1) [OF True w(2) 2(4)] True by simp
  next
    case False
    then show ?thesis using 2(2) [OF False w(2) b] by (simp add: run_ok_def)
  qed
qed

lemma zero_run_ok: "zero_run ws = Some (b, l) \<Longrightarrow> 2 \<le> l \<and> b + l \<le> length ws \<and> take l (drop b ws) = replicate l 0"
proof -
  assume z: "zero_run ws = Some (b, l)"
  have "run_ok ws (find_run ws 0 None None)" by (rule find_run_ok) (simp_all add: run_ok_def)
  then have r: "2 \<le> l" "b + l \<le> length ws" "\<And>j. b \<le> j \<Longrightarrow> j < b + l \<Longrightarrow> ws ! j = 0"
    using z by (auto simp: zero_run_def run_ok_def split: option.splits if_splits)
  then have "take l (drop b ws) = replicate l 0" by (intro nth_equalityI) auto
  then show ?thesis using r by simp
qed


text \<open>What is printed.\<close>

definition v4_inside :: "nat list \<Rightarrow> (nat \<times> nat) option \<Rightarrow> bool" where
  "v4_inside ws best \<longleftrightarrow> best = Some (0, 6) \<or> best = Some (0, 5) \<and> ws ! 5 = 0xffff"

lemma loop_end: "ntop6_loop src ws best i = []" if "8 \<le> i"
  using that by (subst ntop6_loop.simps) (simp add: IN6ADDRSZ_def INT16SZ_def)

lemma loop_plain:
  assumes "length ws = 8" "0 < i" "case best of None \<Rightarrow> True | Some (b, l) \<Rightarrow> b < i \<and> (b = 0 \<longrightarrow> \<not> v4_inside ws best)"
  shows "ntop6_loop src ws best i = sfx (drop i ws)"
  using assms(2,3)
proof (induction "8 - i" arbitrary: i)
  case 0
  then show ?case using loop_end assms(1) by simp
next
  case (Suc k)
  then have i: "i < 8" by simp
  then have "drop i ws = ws ! i # drop (Suc i) ws" using assms(1) by (simp add: Cons_nth_drop_Suc)
  moreover have "ntop6_loop src ws best (Suc i) = sfx (drop (Suc i) ws)"
    using Suc by (intro Suc.hyps) (auto split: option.splits)
  ultimately show ?case using Suc.prems i
    by (subst ntop6_loop.simps) (auto simp: IN6ADDRSZ_def INT16SZ_def v4_inside_def split: option.splits)
qed

lemma loop_to_run:
  assumes "length ws = 8" "best = Some (b, l)" "0 < l" "b < 8" "0 < i" "i \<le> b"
  shows "ntop6_loop src ws best i = sfx (take (b - i) (drop i ws)) @ '':'' @ ntop6_loop src ws best (b + l)"
  using assms(5,6)
proof (induction "b - i" arbitrary: i)
  case 0
  then have "i = b" by simp
  then show ?case using assms(2-4) by (subst ntop6_loop.simps) (simp add: IN6ADDRSZ_def INT16SZ_def max_def)
next
  case (Suc k)
  then have i: "i < b" by simp
  then have "take (b - i) (drop i ws) = ws ! i # take (b - Suc i) (drop (Suc i) ws)"
    using assms(1,4) by (metis Cons_nth_drop_Suc Suc_diff_Suc less_trans take_Suc_Cons)
  moreover have "ntop6_loop src ws best (Suc i) = sfx (take (b - Suc i) (drop (Suc i) ws)) @ '':'' @ ntop6_loop src ws best (b + l)"
    using Suc i by (intro Suc.hyps) auto
  ultimately show ?case using Suc.prems assms(2,4) i
    by (subst ntop6_loop.simps) (simp add: IN6ADDRSZ_def INT16SZ_def)
qed

text \<open>What is read: the value of the loop with the pending group put in.\<close>

definition pton6_finish :: "(nat list \<times> nat option \<times> bool \<times> nat) option \<Rightarrow> nat list option" where
  "pton6_finish st =
     (case st of None \<Rightarrow> None
      | Some (tmp, colonp, saw_xdigit, val) \<Rightarrow>
          if saw_xdigit \<and> length tmp + INT16SZ > IN6ADDRSZ then None
          else
            (let tmp1 = (if saw_xdigit then tmp @ [val div 256, val mod 256] else tmp)
             in case colonp of
                  None \<Rightarrow> if length tmp1 \<noteq> IN6ADDRSZ then None else Some tmp1
                | Some c \<Rightarrow> Some (shift_bytes c (length tmp1 - c) (tmp1 @ replicate (IN6ADDRSZ - length tmp1) 0))))"

lemma inet_pton6_finish:
  "cget s 0 \<noteq> CHR '':'' \<Longrightarrow> inet_pton6 s = pton6_finish (pton6_loop s s [] None False 0)"
  "inet_pton6 ('':'' @ '':'' @ s) = pton6_finish (pton6_loop ('':'' @ s) ('':'' @ s) [] None False 0)"
  by (simp_all add: inet_pton6_def pton6_finish_def)

lemma word_bytes_last: "ws \<noteq> [] \<Longrightarrow> word_bytes (butlast ws) @ [List.last ws div 256, List.last ws mod 256] = word_bytes ws"
proof -
  assume "ws \<noteq> []"
  then have "ws = butlast ws @ [List.last ws]" by simp
  then have "word_bytes ws = word_bytes (butlast ws @ [List.last ws])" by simp
  then show ?thesis by simp
qed

lemma finish_words:
  "ws \<noteq> [] \<Longrightarrow> length tmp + 2 * length ws \<le> 16 \<Longrightarrow>
    pton6_finish (Some (tmp @ word_bytes (butlast ws), cp, True, List.last ws)) = pton6_finish (Some (tmp @ word_bytes ws, cp, False, 0))"
proof -
  assume a: "ws \<noteq> []" "length tmp + 2 * length ws \<le> 16"
  then have "length (tmp @ word_bytes (butlast ws)) + 2 \<le> 16" by (cases ws) auto
  then show ?thesis using word_bytes_last [OF a(1)]
    by (auto simp: pton6_finish_def INT16SZ_def IN6ADDRSZ_def Let_def split: option.split)
qed

lemma finish_gap:
  "length p + length q < 16 \<Longrightarrow>
    pton6_finish (Some (p @ q, Some (length p), False, v)) = Some (p @ replicate (16 - (length p + length q)) 0 @ q)"
  using shift_bytes_gap [of p q "16 - (length p + length q)"] by (simp add: pton6_finish_def IN6ADDRSZ_def)

text \<open>Behind the first colon of a double colon.\<close>

lemma read_behind_run:
  assumes "list_all (\<lambda>w. w \<le> 0xffff) qs" "length p + 2 * length qs < 16"
  shows "pton6_finish (pton6_loop (if qs = [] then '':'' else sfx qs) tok p None False 0) =
    Some (p @ replicate (16 - (length p + 2 * length qs)) 0 @ word_bytes qs)"
proof (cases qs)
  case Nil
  then show ?thesis using finish_gap [of p "[]" 0] assms by simp
next
  case (Cons w ws)
  have "pton6_loop (sfx qs) tok p None False 0 = pton6_loop (fmt_hex w @ sfx ws @ []) (fmt_hex w @ sfx ws) p (Some (length p)) False 0"
    using Cons by simp
  also have "\<dots> = Some (p @ word_bytes (butlast qs), Some (length p), True, List.last qs)"
    using pton6_words [of w ws p "[]"] assms Cons by simp
  finally have "pton6_finish (pton6_loop (sfx qs) tok p None False 0) = pton6_finish (Some (p @ word_bytes qs, Some (length p), False, 0))"
    using finish_words [of qs p "Some (length p)"] assms Cons by simp
  then show ?thesis using finish_gap [of p "word_bytes qs" 0] assms Cons by simp
qed

lemma hex_start: "cget (fmt_hex w @ r) 0 \<noteq> CHR '':''"
  using fmt_hex_number [of w] by (cases "fmt_hex w") auto


lemma foldl_hex_less: "foldl (\<lambda>n c. 16 * n + hex_digit_value c) v ds < Suc v * 16 ^ length ds"
proof (induction ds arbitrary: v)
  case (Cons d ds)
  have "foldl (\<lambda>n c. 16 * n + hex_digit_value c) v (d # ds) < Suc (16 * v + hex_digit_value d) * 16 ^ length ds"
    using Cons [of "16 * v + hex_digit_value d"] by (simp only: foldl_Cons)
  also have "\<dots> \<le> (16 * Suc v) * 16 ^ length ds" using hex_digit_less [of d] by (intro mult_right_mono) simp_all
  also have "\<dots> = Suc v * 16 ^ length (d # ds)" by (simp add: algebra_simps)
  finally show ?case .
qed simp

lemma octet_text_hex:
  assumes "u < 256"
  shows "list_all c_isxdigit (octet_text u) \<and> length (octet_text u) \<le> 3 \<and> octet_text u \<noteq> []"
proof -
  have "c_isxdigit (char_of (48 + d))" if "d < 10" for d :: nat using that by (simp add: c_isxdigit_def c_isdigit_def)
  then show ?thesis using assms by (auto simp: octet_text_def)
qed

lemma read_quad:
  assumes "list_all (\<lambda>u. u < 256) [a, b, c, d]" "length tmp \<le> 12"
    and q: "q = octet_text a @ ''.'' @ octet_text b @ ''.'' @ octet_text c @ ''.'' @ octet_text d"
  shows "\<exists>v. pton6_loop q q tmp cp False 0 = Some (tmp @ [a, b, c, d], cp, False, v)"
proof -
  have a: "list_all c_isxdigit (octet_text a)" "length (octet_text a) \<le> 3" using octet_text_hex [of a] assms(1) by simp_all
  let ?v = "foldl (\<lambda>n c. 16 * n + hex_digit_value c) 0 (octet_text a)"
  have "?v < 16 ^ length (octet_text a)" using foldl_hex_less [of 0 "octet_text a"] by simp
  also have "\<dots> \<le> 16 ^ 3" using a(2) by (intro power_increasing) auto
  finally have v: "?v \<le> 0xffff" by simp
  let ?r = "octet_text b @ ''.'' @ octet_text c @ ''.'' @ octet_text d"
  have "pton6_loop q q tmp cp False 0 = pton6_loop (''.'' @ ?r) q tmp cp (octet_text a \<noteq> []) ?v"
    using pton6_digits [OF a(1) v, of "''.'' @ ?r" q tmp cp False] unfolding q by simp
  also have "\<dots> = Some (tmp @ [a, b, c, d], cp, False, ?v)"
    using pton4_text [OF assms(1)] assms(2) unfolding q by (simp add: IN6ADDRSZ_def INADDRSZ_def)
  finally show ?thesis by blast
qed

lemma sfx_length: "list_all (\<lambda>w. w \<le> 0xffff) ws \<Longrightarrow> length (sfx ws) \<le> 5 * length ws"
proof (induction ws)
  case (Cons w ws)
  then show ?case using fmt_hex_length [of w 4] by simp
qed simp

text \<open>The text for groups \<open>ws\<close>, of the bytes \<open>src\<close>, and that it is read back.\<close>

lemma ntop6_quad:
  assumes "length src = 16" "list_all (\<lambda>u. u < 256) src" "ws = groups src" "zero_run ws = Some (0, l)" "v4_inside ws (Some (0, l))"
  shows "\<exists>s. ntop6_loop src ws (Some (0, l)) 0 = s \<and> length s \<le> 45 \<and> inet_pton6 s = Some src"
proof -
  have g: "word_bytes ws = src" "length ws = 8" using groups_bytes [of src] assms(1-3) by simp_all
  have z: "take l ws = replicate l 0" using zero_run_ok [OF assms(4)] by simp
  have l: "l = 5 \<and> ws ! 5 = 0xffff \<or> l = 6" using assms(5) by (auto simp: v4_inside_def)
  obtain a b c d where d: "drop 12 src = [a, b, c, d]"
  proof -
    have "length (drop 12 src) = Suc (Suc (Suc (Suc 0)))" using assms(1) by simp
    then show ?thesis using that by (simp only: length_Suc_conv length_0_conv) blast
  qed
  have lt: "list_all (\<lambda>u. u < 256) [a, b, c, d]" using assms(2) d by (metis append_take_drop_id list_all_append)
  define q where "q = octet_text a @ ''.'' @ octet_text b @ ''.'' @ octet_text c @ ''.'' @ octet_text d"
  have nq: "the (inet_ntop4 (drop 12 src) 16) = q" unfolding d inet_ntop4_text q_def by simp
  have q3: "length q \<le> 15" using octet_text_hex [of a] octet_text_hex [of b] octet_text_hex [of c] octet_text_hex [of d] lt by (simp add: q_def)
  have top: "ntop6_loop src ws (Some (0, l)) 0 = '':'' @ ntop6_loop src ws (Some (0, l)) l"
    using l by (subst ntop6_loop.simps) (auto simp: IN6ADDRSZ_def INT16SZ_def)
  have six: "ntop6_loop src ws (Some (0, l)) 6 = '':'' @ q"
    using l nq by (subst ntop6_loop.simps) (auto simp: IN6ADDRSZ_def INT16SZ_def)
  have src: "src = word_bytes (take 6 ws) @ [a, b, c, d]"
  proof -
    have "src = take 12 src @ [a, b, c, d]" using d by (metis append_take_drop_id)
    moreover have "word_bytes (take 6 ws) @ word_bytes (drop 6 ws) = src" using g(1) word_bytes_simps(3) [of "take 6 ws" "drop 6 ws"] by simp
    then have "take 12 src = take 12 (word_bytes (take 6 ws) @ word_bytes (drop 6 ws))" by simp
    then have "take 12 src = word_bytes (take 6 ws)" using g(2) by simp
    ultimately show ?thesis by simp
  qed
  show ?thesis
  proof (cases "l = 6")
    case True
    have t: "ntop6_loop src ws (Some (0, l)) 0 = '':'' @ '':'' @ q" using top six True by simp
    obtain v where "pton6_loop q q [] (Some 0) False 0 = Some ([a, b, c, d], Some 0, False, v)"
      using read_quad [OF lt _ q_def, of "[]" "Some 0"] by auto
    then have "inet_pton6 ('':'' @ '':'' @ q) = pton6_finish (Some ([] @ [a, b, c, d], Some (length ([] :: nat list)), False, v))"
      by (simp only: inet_pton6_finish) simp
    also have "\<dots> = Some (replicate 12 0 @ [a, b, c, d])" using finish_gap [of "[]" "[a, b, c, d]" v] by simp
    also have "replicate 12 0 @ [a, b, c, d] = src" unfolding src using z True by (simp add: word_bytes_zeros)
    finally show ?thesis using t q3 by auto
  next
    case False
    then have l5: "l = 5" "ws ! 5 = 0xffff" using l by auto
    have f: "fmt_hex 0xffff = ''ffff''" by (simp add: fmt_hex.simps hex_char_def char_of_def bit_Suc_0_iff)
    have "ntop6_loop src ws (Some (0, l)) 5 = '':'' @ ''ffff'' @ '':'' @ q"
      using l5 six f by (subst ntop6_loop.simps) (simp add: IN6ADDRSZ_def INT16SZ_def)
    then have t: "ntop6_loop src ws (Some (0, l)) 0 = '':'' @ '':'' @ ''ffff'' @ '':'' @ q" using top l5 by simp
    obtain v where r: "pton6_loop q q [255, 255] (Some 0) False 0 = Some ([255, 255] @ [a, b, c, d], Some 0, False, v)"
      using read_quad [OF lt _ q_def, of "[255, 255]" "Some 0"] by auto
    have "pton6_loop (''ffff'' @ '':'' @ q) (''ffff'' @ '':'' @ q) [] (Some 0) False 0 = pton6_loop ('':'' @ q) (''ffff'' @ '':'' @ q) [] (Some 0) True 0xffff"
      using pton6_hex [of "0xffff" "'':'' @ q" "''ffff'' @ '':'' @ q" "[]" "Some 0"] f by simp
    also have "\<dots> = pton6_loop q q [255, 255] (Some 0) False 0" by (simp add: INT16SZ_def IN6ADDRSZ_def)
    finally have "inet_pton6 ('':'' @ '':'' @ ''ffff'' @ '':'' @ q) = pton6_finish (Some ([] @ [255, 255, a, b, c, d], Some (length ([] :: nat list)), False, v))"
      using r by (simp only: inet_pton6_finish) simp
    also have "\<dots> = Some (replicate 10 0 @ [255, 255, a, b, c, d])" using finish_gap [of "[]" "[255, 255, a, b, c, d]" v] by simp
    also have "replicate 10 0 @ [255, 255, a, b, c, d] = src"
    proof -
      have "take 6 ws = take 5 ws @ [ws ! 5]" using g(2) take_Suc_conv_app_nth [of 5 ws] by (simp add: numeral_eq_Suc)
      then show ?thesis unfolding src using z l5 by (simp add: word_bytes_zeros)
    qed
    finally show ?thesis using t q3 by auto
  qed
qed


lemma ntop6_words:
  assumes "length src = 16" "list_all (\<lambda>u. u < 256) src" "ws = groups src" "zero_run ws = None"
  shows "\<exists>s. ntop6_loop src ws None 0 = s \<and> length s \<le> 45 \<and> inet_pton6 s = Some src"
proof -
  have g: "word_bytes ws = src" "length ws = 8" "list_all (\<lambda>w. w \<le> 0xffff) ws" using groups_bytes [of src] assms(1-3) by simp_all
  obtain w vs where ws: "ws = w # vs" "length vs = 7" using g(2) by (cases ws) auto
  have t: "ntop6_loop src ws None 0 = fmt_hex w @ sfx vs"
    using loop_plain [OF g(2), of "Suc 0" None] ws by (subst ntop6_loop.simps) (simp add: IN6ADDRSZ_def INT16SZ_def)
  have "inet_pton6 (fmt_hex w @ sfx vs @ []) = pton6_finish (Some ([] @ word_bytes (butlast ws), None, True, List.last ws))"
    using inet_pton6_finish(1) [OF hex_start] pton6_words [of w vs "[]" "[]"] g(3) ws by simp
  also have "\<dots> = pton6_finish (Some (word_bytes ws, None, False, 0))" using finish_words [of ws "[]" None] g(2) ws by simp
  also have "\<dots> = Some src" using g(1) assms(1) by (simp add: pton6_finish_def IN6ADDRSZ_def)
  finally have "inet_pton6 (fmt_hex w @ sfx vs) = Some src" by simp
  moreover have "length (fmt_hex w @ sfx vs) \<le> 45"
    using fmt_hex_length [of w 4] sfx_length [of vs] g(3) ws by simp
  ultimately show ?thesis using t by auto
qed

lemma ntop6_run:
  assumes "length src = 16" "list_all (\<lambda>u. u < 256) src" "ws = groups src" "zero_run ws = Some (b, l)" "b = 0 \<longrightarrow> \<not> v4_inside ws (Some (0, l))"
  shows "\<exists>s. ntop6_loop src ws (Some (b, l)) 0 @ (if b + l = 8 then '':'' else []) = s \<and> length s \<le> 45 \<and> inet_pton6 s = Some src"
proof -
  have g: "word_bytes ws = src" "length ws = 8" "list_all (\<lambda>w. w \<le> 0xffff) ws" using groups_bytes [of src] assms(1-3) by simp_all
  have z: "2 \<le> l" "b + l \<le> 8" "take l (drop b ws) = replicate l 0" using zero_run_ok [OF assms(4)] g(2) by simp_all
  define ps where "ps = take b ws"
  define qs where "qs = drop (b + l) ws"
  have ws: "ws = ps @ replicate l 0 @ qs"
    using z(3) by (simp add: ps_def qs_def) (metis append_take_drop_id drop_drop add.commute)
  have len: "length ps = b" "length qs = 8 - (b + l)" using g(2) z(2) by (simp_all add: ps_def qs_def)
  have w: "list_all (\<lambda>w. w \<le> 0xffff) ps" "list_all (\<lambda>w. w \<le> 0xffff) qs" using g(3) ws by simp_all
  define tail where "tail = (if qs = [] then '':'' else sfx qs)"
  have tl: "ntop6_loop src ws (Some (b, l)) (b + l) @ (if b + l = 8 then '':'' else []) = tail"
  proof (cases "b + l = 8")
    case True
    then show ?thesis using loop_end len by (simp add: tail_def)
  next
    case False
    have "ntop6_loop src ws (Some (b, l)) (b + l) = sfx (drop (b + l) ws)"
      by (rule loop_plain [OF g(2)]) (use z(1) assms(5) in auto)
    then show ?thesis using False len z(2) by (auto simp: tail_def qs_def)
  qed
  have fin: "word_bytes ps @ replicate (16 - (2 * b + 2 * length qs)) 0 @ word_bytes qs = src"
  proof -
    have "16 - (2 * b + 2 * length qs) = 2 * l" using len z(2) by simp
    then show ?thesis using g(1) ws by (simp add: word_bytes_zeros)
  qed
  have lt: "length tail \<le> 1 + 5 * length qs" using sfx_length [OF w(2)] by (simp add: tail_def)
  show ?thesis
  proof (cases "b = 0")
    case True
    have t: "ntop6_loop src ws (Some (b, l)) 0 @ (if b + l = 8 then '':'' else []) = '':'' @ tail"
      using z(1) True tl by (subst ntop6_loop.simps) (simp add: IN6ADDRSZ_def INT16SZ_def max_def)
    obtain u where u: "tail = '':'' @ u" by (cases qs) (auto simp: tail_def)
    have "inet_pton6 ('':'' @ tail) = pton6_finish (pton6_loop tail tail (word_bytes ps) None False 0)"
      using inet_pton6_finish(2) [of u] u True len by simp
    also have "\<dots> = Some src"
      using read_behind_run [OF w(2), of "word_bytes ps" tail] fin len z True by (simp add: tail_def)
    finally show ?thesis using t lt len by auto
  next
    case False
    then obtain w0 vs where ps: "ps = w0 # vs" using len by (cases ps) auto
    have h: "ws ! 0 = w0" "take (b - 1) (drop 1 ws) = vs" using ws ps len by simp_all
    have "ntop6_loop src ws (Some (b, l)) 0 = fmt_hex w0 @ ntop6_loop src ws (Some (b, l)) 1"
      using False h by (subst ntop6_loop.simps) (simp add: IN6ADDRSZ_def INT16SZ_def)
    also have "ntop6_loop src ws (Some (b, l)) 1 = sfx vs @ '':'' @ ntop6_loop src ws (Some (b, l)) (b + l)"
      using loop_to_run [OF g(2) refl, of l b 1 src] z False h by simp
    finally have t: "ntop6_loop src ws (Some (b, l)) 0 @ (if b + l = 8 then '':'' else []) = fmt_hex w0 @ sfx vs @ '':'' @ tail"
      using tl by simp
    have "inet_pton6 (fmt_hex w0 @ sfx vs @ '':'' @ tail) =
        pton6_finish (pton6_loop ('':'' @ tail) (if vs = [] then fmt_hex w0 @ sfx vs @ '':'' @ tail else fmt_hex (List.last vs) @ '':'' @ tail)
          (word_bytes (butlast ps)) None True (List.last ps))"
      using inet_pton6_finish(1) [OF hex_start] pton6_words [of w0 vs "[]" "'':'' @ tail"] w(1) ps len z by simp
    also have "\<dots> = pton6_finish (pton6_loop tail tail (word_bytes ps) None False 0)"
      using word_bytes_last [of ps] ps len z by (simp add: INT16SZ_def IN6ADDRSZ_def)
    also have "\<dots> = Some src"
      using read_behind_run [OF w(2), of "word_bytes ps" tail] fin len z by (simp add: tail_def)
    finally have r: "inet_pton6 (fmt_hex w0 @ sfx vs @ '':'' @ tail) = Some src" .
    have "length (fmt_hex w0) \<le> 4" "length (sfx vs) \<le> 5 * length vs" using fmt_hex_length [of w0 4] sfx_length [of vs] w(1) ps by simp_all
    moreover have "length vs + 1 = b" "b + length qs \<le> 6" using ps len z by auto
    ultimately have "length (fmt_hex w0 @ sfx vs @ '':'' @ tail) \<le> 45" using lt by simp
    then show ?thesis using t r by auto
  qed
qed

text \<open>What is read has the length of an address.\<close>

lemma pton6_loop_length:
  "pton6_loop src tok tmp cp saw val = Some (tmp1, cp1, saw1, val1) \<Longrightarrow> length tmp \<le> 16 \<Longrightarrow> length tmp1 \<le> 16"
proof (induction src tok tmp cp saw val rule: pton6_loop.induct)
  case (2 ch src tok tmp cp saw val)
  then show ?case
    by (auto simp: Let_def INT16SZ_def IN6ADDRSZ_def INADDRSZ_def dest: inet_pton4_bytes split: if_splits option.splits)
qed simp

lemma shift_bytes_length [simp]: "length (shift_bytes c n t) = length t"
proof -
  have "length (foldl (shift_step c n) t is) = length t" for "is" by (induction "is" arbitrary: t) (simp_all add: shift_step_def)
  then show ?thesis by (simp add: shift_bytes_def)
qed

lemma inet_pton6_length: "inet_pton6 s = Some q \<Longrightarrow> length q = 16"
proof -
  assume s: "inet_pton6 s = Some q"
  define src where "src = (if cget s 0 = CHR '':'' then tl s else s)"
  obtain tmp cp saw val where l: "pton6_loop src src [] None False 0 = Some (tmp, cp, saw, val)"
    using s by (cases "pton6_loop src src [] None False 0") (auto simp: inet_pton6_def src_def [symmetric] Let_def split: if_splits)
  then have "length tmp \<le> 16" using pton6_loop_length [OF l] by simp
  then show ?thesis using s l
    by (auto simp: inet_pton6_def src_def [symmetric] Let_def INT16SZ_def IN6ADDRSZ_def split: if_splits option.splits)
qed

text \<open>
  C18. \<open>apr_inet_pton\<close> undoes \<open>apr_inet_ntop\<close>: every IPv4 address printed as a dotted quad and every IPv6
  address, with the longest run of zero groups left out and an IPv4 address inside printed as a quad,
  fits into the buffers the library uses (16 and 46 bytes) and is read back as the same bytes.
\<close>
theorem inet_pton_ntop:
  assumes "length q4 = 4" "list_all (\<lambda>u. u < 256) q4" "length q6 = 16" "list_all (\<lambda>u. u < 256) q6"
  shows "(\<exists>s. inet_ntop4 q4 16 = Some s \<and> length s < 16 \<and> inet_pton4 s = Some q4) \<and>
    (\<exists>s. inet_ntop6 q6 46 = Some s \<and> length s < 46 \<and> inet_pton6 s = Some q6)"
proof -
  obtain a b c d where q4: "q4 = [a, b, c, d]"
  proof -
    have "length q4 = Suc (Suc (Suc (Suc 0)))" using assms(1) by simp
    then show ?thesis using that by (simp only: length_Suc_conv length_0_conv) blast
  qed
  have "length (octet_text a) \<le> 3" "length (octet_text b) \<le> 3" "length (octet_text c) \<le> 3" "length (octet_text d) \<le> 3"
    using octet_text_hex assms(2) q4 by simp_all
  then have "length (octet_text a @ ''.'' @ octet_text b @ ''.'' @ octet_text c @ ''.'' @ octet_text d) < 16"
    by simp
  then have four: "\<exists>s. inet_ntop4 q4 16 = Some s \<and> length s < 16 \<and> inet_pton4 s = Some q4"
    using pton4_text [of a b c d] assms(2) q4 inet_ntop4_text by auto
  let ?ws = "groups q6"
  let ?s = "ntop6_loop q6 ?ws (zero_run ?ws) 0 @ (case zero_run ?ws of Some (b, l) \<Rightarrow> if b + l = 8 then '':'' else [] | None \<Rightarrow> [])"
  have "length ?s \<le> 45 \<and> inet_pton6 ?s = Some q6"
  proof (cases "zero_run ?ws")
    case None
    then show ?thesis using ntop6_words [OF assms(3,4) refl] by simp
  next
    case (Some r)
    obtain b l where r: "zero_run ?ws = Some (b, l)" using Some by (cases r) auto
    show ?thesis
    proof (cases "b = 0 \<and> v4_inside ?ws (Some (0, l))")
      case True
      then have "b + l \<noteq> 8" by (auto simp: v4_inside_def)
      then show ?thesis using ntop6_quad [OF assms(3,4) refl, of l] r True by simp
    next
      case False
      then have "b = 0 \<longrightarrow> \<not> v4_inside ?ws (Some (0, l))" by blast
      from ntop6_run [OF assms(3,4) refl r this] show ?thesis using r by (cases "b + l = 8") simp_all
    qed
  qed
  moreover have "inet_ntop6 q6 46 = (if length ?s + 1 > 46 then None else Some ?s)"
  proof -
    have "IN6ADDRSZ div INT16SZ = 8" by (simp add: IN6ADDRSZ_def INT16SZ_def)
    then show ?thesis using assms(3) by (simp only: inet_ntop6_def Let_def) (simp add: IN6ADDRSZ_def)
  qed
  ultimately have "\<exists>s. inet_ntop6 q6 46 = Some s \<and> length s < 46 \<and> inet_pton6 s = Some q6" by auto
  with four show ?thesis ..
qed

theorem inet_pton_ntop_witness:
  "inet_ntop4 [192, 168, 0, 7] 16 = Some ''192.168.0.7'' \<and> inet_pton4 ''192.168.0.7'' = Some [192, 168, 0, 7] \<and>
   inet_ntop6 [32, 1, 13, 184, 0, 0, 0, 0, 0, 0, 0, 0, 0, 0, 0, 1] 46 = Some ''2001:db8::1'' \<and>
   inet_pton6 ''2001:db8::1'' = Some [32, 1, 13, 184, 0, 0, 0, 0, 0, 0, 0, 0, 0, 0, 0, 1]"
proof -
  note D = hex_char_def char_of_def octet_text_def bit_Suc_0_iff
  have p: "inet_ntop4 [192, 168, 0, 7] 16 = Some ''192.168.0.7''" by (simp add: inet_ntop4_def D)
  have q: "inet_ntop6 [32, 1, 13, 184, 0, 0, 0, 0, 0, 0, 0, 0, 0, 0, 0, 1] 46 = Some ''2001:db8::1''"
    by (simp add: inet_ntop6_def IN6ADDRSZ_def INT16SZ_def zero_run_def best_run_def ntop6_loop.simps fmt_hex.simps D)
  show ?thesis
    using inet_pton_ntop [of "[192, 168, 0, 7]" "[32, 1, 13, 184, 0, 0, 0, 0, 0, 0, 0, 0, 0, 0, 0, 1]"] p q by simp
qed

text \<open>A double colon in an address of eight groups is not ignored: what is behind it is cleared.\<close>

lemma pton6_full_double_colon:
  "inet_pton6 ''1:2:3:4:5:6:7::8'' = Some [0, 1, 0, 2, 0, 3, 0, 4, 0, 5, 0, 6, 0, 7, 0, 0]"
  by (simp add: inet_pton6_def cget_def IN6ADDRSZ_def INT16SZ_def c_isxdigit_def c_isdigit_def ccode_def hex_digit_value_def
      shift_bytes_def shift_step_def upt_rec)

end
