(* ===== verification/Apr_Sockaddr.thy ===== *)
theory Apr_Sockaddr
  imports Apr_Inet "HOL-Library.Signed_Division"
begin

text \<open>
  Socket addresses and subnets, \<open>srclib/apr/network_io/unix/sockaddr.c\<close>: host and port of a string,
  comparison of addresses, and the subnets of access control. An address is the list of its bytes in
  network order. A 32-bit word of an address or of a mask is its value in network order, so
  that \<open>htonl\<close> and \<open>ntohl\<close> are left out. Build with IPv6.
\<close>

section \<open>Addresses\<close>

type_synonym u8 = "8 word"

datatype family = AF_INET | AF_INET6

record sockaddr =
  sa_family :: family
  sa_port :: "16 word"
  ipaddr :: "u8 list"

definition addr_ok :: "sockaddr \<Rightarrow> bool" where
  "addr_ok sa \<longleftrightarrow> length (ipaddr sa) = (case sa_family sa of AF_INET \<Rightarrow> 4 | AF_INET6 \<Rightarrow> 16)"

definition be32 :: "u8 list \<Rightarrow> u32" where
  "be32 bs = foldl (\<lambda>w b. or (push_bit 8 w) (ucast b)) 0 bs"

definition addr_word :: "u8 list \<Rightarrow> nat \<Rightarrow> u32" where
  "addr_word bs i = be32 (take 4 (drop (4 * i) bs))"

definition IN6_IS_ADDR_V4MAPPED :: "u8 list \<Rightarrow> bool" where
  "IN6_IS_ADDR_V4MAPPED bs \<longleftrightarrow> take 12 bs = replicate 10 0 @ [0xff, 0xff]"

definition V4MAPPED_EQUAL :: "sockaddr \<Rightarrow> sockaddr \<Rightarrow> bool" where
  "V4MAPPED_EQUAL a b \<longleftrightarrow> sa_family a = AF_INET \<and> sa_family b = AF_INET6 \<and> IN6_IS_ADDR_V4MAPPED (ipaddr b) \<and>
     ipaddr a = take (length (ipaddr a)) (drop 12 (ipaddr b))"

definition sockaddr_equal :: "sockaddr \<Rightarrow> sockaddr \<Rightarrow> bool" where
  "sockaddr_equal a b \<longleftrightarrow> ipaddr a = ipaddr b \<or> V4MAPPED_EQUAL a b \<or> V4MAPPED_EQUAL b a"

section \<open>Host and port\<close>

text \<open>\<open>atoi\<close>: \<open>strtol\<close> cut to an \<open>int\<close>.\<close>

definition atoi :: "cstring \<Rightarrow> int" where
  "atoi s = sint (word_of_int (fst (strtoll s)) :: 32 word)"

text \<open>
  \<open>apr_parse_addr_port\<close>: host, scope id and port, or \<open>None\<close> for \<open>APR_EINVAL\<close>. First the part from
  the host on, when the port is known.
\<close>

definition parse_host :: "cstring \<Rightarrow> 16 word \<Rightarrow> (cstring option \<times> cstring option \<times> 16 word) option" where
  "parse_host str port =
     (if cget str 0 = CHR ''['' then
        (case strchr str (CHR '']'') of
           None \<Rightarrow> None
         | Some end_bracket \<Rightarrow>
             if end_bracket \<noteq> length str - 1 then None
             else
               (case strchr str (CHR ''%'') of
                  Some scope_delim \<Rightarrow>
                    if scope_delim = end_bracket - 1 then None
                    else
                      (let addr = take (scope_delim - 1) (tl str)
                       in if inet_pton6 addr = None then None
                          else Some (Some addr, Some (take (end_bracket - scope_delim - 1) (drop (scope_delim + 1) str)), port))
                | None \<Rightarrow>
                    (let addr = take (length str - 2) (tl str)
                     in if inet_pton6 addr = None then None else Some (Some addr, None, port))))
      else Some (Some str, None, port))"

definition parse_addr_port :: "cstring \<Rightarrow> (cstring option \<times> cstring option \<times> 16 word) option" where
  "parse_addr_port str =
     (let digits = rev (takeWhile c_isdigit (rev str));
          ahead = rev (dropWhile c_isdigit (rev str))
      in if ahead = [] then
           (let big_port = atoi str
            in if big_port < 1 \<or> big_port > 65535 then None else Some (None, None, word_of_int big_port))
         else if List.last ahead = CHR '':'' \<and> digits \<noteq> [] then
           (if length ahead = 1 then None
            else
              (let big_port = atoi digits
               in if big_port < 1 \<or> big_port > 65535 then None
                  else parse_host (butlast ahead) (word_of_int big_port)))
         else parse_host str 0)"

section \<open>Subnets\<close>

record ipsubnet =
  ip_family :: family
  ip_sub :: "u32 list"
  ip_mask :: "u32 list"

datatype ip_error = EINVAL | EBADIP | EBADMASK

text \<open>The legacy syntax \<open>a.b.c.\<close> for \<open>a.b.c.0/24\<close>.\<close>

function parse_network_loop :: "cstring \<Rightarrow> int \<Rightarrow> u32 \<Rightarrow> u32 \<Rightarrow> ip_error + u32 \<times> u32" where
  "parse_network_loop s shift sub0 mask0 =
     (if s = [] then Inr (sub0, mask0)
      else if \<not> c_isdigit (cget s 0) then Inl EBADIP
      else
        (let digits = takeWhile c_isdigit s; t = dropWhile c_isdigit s
         in if cget t 0 \<noteq> CHR ''.'' \<and> t \<noteq> [] then Inl EBADIP
            else if shift < 0 then Inl EBADIP
            else
              (let octet = atoi digits
               in if octet < 0 \<or> octet > 255 then Inl EBADIP
                  else parse_network_loop (tl t) (shift - 8) (or sub0 (push_bit (nat shift) (word_of_int octet)))
                         (or mask0 (push_bit (nat shift) 0xff)))))"
  by pat_completeness auto

termination parse_network_loop
proof (relation "measure (\<lambda>(s, _). length s)", goal_cases)
  case (2 s)
  have "length (tl (dropWhile c_isdigit s)) < length s" if "s \<noteq> []"
    using that length_dropWhile_le [of c_isdigit s] unfolding length_tl length_greater_0_conv [symmetric] by linarith
  then show ?case using 2 by simp
qed simp

definition parse_network :: "ipsubnet \<Rightarrow> cstring \<Rightarrow> ip_error + ipsubnet" where
  "parse_network ipsub network =
     (if length network < 16 then
        (case parse_network_loop network 24 0 0 of
           Inl e \<Rightarrow> Inl e
         | Inr (s, m) \<Rightarrow> Inr (ipsub\<lparr>ip_family := AF_INET, ip_sub := (ip_sub ipsub)[0 := s], ip_mask := (ip_mask ipsub)[0 := m]\<rparr>))
      else Inl EBADIP)"

definition sub_words :: "nat list \<Rightarrow> u32 list" where
  "sub_words bs = map (addr_word (map of_nat bs)) [0..<length bs div 4]"

definition parse_ip :: "ipsubnet \<Rightarrow> cstring \<Rightarrow> bool \<Rightarrow> ip_error + ipsubnet" where
  "parse_ip ipsub ipstr network_allowed =
     (case inet_pton6 ipstr of
        Some bs \<Rightarrow>
          if IN6_IS_ADDR_V4MAPPED (map of_nat bs) then Inl EBADIP
          else Inr (ipsub\<lparr>ip_family := AF_INET6, ip_sub := sub_words bs\<rparr>)
      | None \<Rightarrow>
          (case inet_pton4 ipstr of
             Some bs \<Rightarrow> Inr (ipsub\<lparr>ip_family := AF_INET, ip_sub := sub_words bs @ drop 1 (ip_sub ipsub)\<rparr>)
           | None \<Rightarrow> if network_allowed then parse_network ipsub ipstr else Inl EBADIP))"

definition looks_like_ip :: "cstring \<Rightarrow> bool" where
  "looks_like_ip ipstr \<longleftrightarrow> strchr ipstr (CHR '':'') \<noteq> None \<or> dropWhile (\<lambda>c. c = CHR ''.'' \<or> c_isdigit c) ipstr = []"

definition fix_subnet :: "ipsubnet \<Rightarrow> ipsubnet" where
  "fix_subnet ipsub = ipsub\<lparr>ip_sub := map2 and (ip_sub ipsub) (ip_mask ipsub)\<rparr>"

text \<open>The loops that fill the mask. \<open>cur_bit_value\<close> is a signed integer that is halved.\<close>

fun full_words :: "nat \<Rightarrow> nat \<Rightarrow> u32 list \<Rightarrow> nat \<times> nat \<times> u32 list" where
  "full_words bits cur_entry m =
     (if bits > 32 then full_words (bits - 32) (Suc cur_entry) (m[cur_entry := 0xFFFFFFFF]) else (bits, cur_entry, m))"

declare full_words.simps [simp del]

definition next_bit :: "u32 \<Rightarrow> u32" where
  "next_bit v = word_of_int (sint v sdiv 2)"

fun mask_word :: "nat \<Rightarrow> u32 \<Rightarrow> u32 \<Rightarrow> u32" where
  "mask_word 0 w v = w"
| "mask_word (Suc bits) w v = mask_word bits (or w v) (next_bit v)"

definition bits_mask :: "nat \<Rightarrow> u32 list" where
  "bits_mask bits = (case full_words bits 0 [0, 0, 0, 0] of (b, e, m) \<Rightarrow> m[e := mask_word b (m ! e) 0x80000000])"

definition ipsubnet_create :: "cstring \<Rightarrow> cstring option \<Rightarrow> ip_error + ipsubnet" where
  "ipsubnet_create ipstr mask_or_numbits =
     (if \<not> looks_like_ip ipstr then Inl EINVAL
      else
        (case parse_ip \<lparr>ip_family = AF_INET, ip_sub = [0, 0, 0, 0], ip_mask = replicate 4 0xFFFFFFFF\<rparr> ipstr (mask_or_numbits = None) of
           Inl e \<Rightarrow> Inl e
         | Inr ipsub \<Rightarrow>
             (case mask_or_numbits of
                None \<Rightarrow> Inr (fix_subnet ipsub)
              | Some ms \<Rightarrow>
                  (let maxbits = (if ip_family ipsub = AF_INET6 then 128 else 32); bits = fst (strtoll ms)
                   in if snd (snd (strtoll ms)) = [] \<and> bits > 0 \<and> bits \<le> maxbits then
                        Inr (fix_subnet (ipsub\<lparr>ip_mask := bits_mask (nat bits)\<rparr>))
                      else
                        (case inet_pton4 ms of
                           Some bs \<Rightarrow>
                             if ip_family ipsub = AF_INET then
                               Inr (fix_subnet (ipsub\<lparr>ip_mask := (ip_mask ipsub)[0 := be32 (map of_nat bs)]\<rparr>))
                             else Inl EBADMASK
                         | None \<Rightarrow> Inl EBADMASK)))))"

definition ipsubnet_test :: "ipsubnet \<Rightarrow> sockaddr \<Rightarrow> bool" where
  "ipsubnet_test ipsub sa =
     (if sa_family sa = AF_INET then
        ip_family ipsub = AF_INET \<and> and (addr_word (ipaddr sa) 0) (ip_mask ipsub ! 0) = ip_sub ipsub ! 0
      else if IN6_IS_ADDR_V4MAPPED (ipaddr sa) then
        ip_family ipsub = AF_INET \<and> and (addr_word (ipaddr sa) 3) (ip_mask ipsub ! 0) = ip_sub ipsub ! 0
      else
        (\<forall>i\<in>set [0, 1, 2, 3]. and (addr_word (ipaddr sa) i) (ip_mask ipsub ! i) = ip_sub ipsub ! i))"

section \<open>The bits of an address\<close>

text \<open>Bit \<open>i\<close> of an address, from the left.\<close>

definition addr_bit :: "u8 list \<Rightarrow> nat \<Rightarrow> bool" where
  "addr_bit bs i = bit (bs ! (i div 8)) (7 - i mod 8)"

lemma be32_bit: "i < 32 \<Longrightarrow> bit (be32 [a, b, c, d]) (31 - i) = bit ([a, b, c, d] ! (i div 8)) (7 - i mod 8)"
proof -
  assume i: "i < 32"
  then consider "i < 8" | "8 \<le> i" "i < 16" | "16 \<le> i" "i < 24" | "24 \<le> i" by linarith
  then show ?thesis
  proof cases
    case 1
    then show ?thesis by (simp add: be32_def bit_or_iff bit_push_bit_iff bit_ucast_iff) (use i in \<open>auto dest: bit_imp_le_length\<close>)
  next
    case 2
    then have "i div 8 = 1" "i mod 8 = i - 8" by (simp_all add: div_nat_eqI mod_nat_eqI)
    then show ?thesis using 2 by (simp add: be32_def bit_or_iff bit_push_bit_iff bit_ucast_iff) (auto dest: bit_imp_le_length)
  next
    case 3
    then have "i div 8 = 2" "i mod 8 = i - 16" by (simp_all add: div_nat_eqI mod_nat_eqI)
    then show ?thesis using 3 by (simp add: be32_def bit_or_iff bit_push_bit_iff bit_ucast_iff) (auto dest: bit_imp_le_length)
  next
    case 4
    then have "i div 8 = 3" "i mod 8 = i - 24" using i by (simp_all add: div_nat_eqI mod_nat_eqI)
    then show ?thesis using 4 i by (simp add: be32_def bit_or_iff bit_push_bit_iff bit_ucast_iff) (auto dest: bit_imp_le_length)
  qed
qed


lemma addr_word_bit:
  assumes "4 * w + 4 \<le> length bs" "i < 32"
  shows "bit (addr_word bs w) (31 - i) = addr_bit bs (32 * w + i)"
proof -
  have "length (take 4 (drop (4 * w) bs)) = Suc (Suc (Suc (Suc 0)))" using assms(1) by simp
  then obtain a b c d where q: "take 4 (drop (4 * w) bs) = [a, b, c, d]"
    by (simp only: length_Suc_conv length_0_conv) blast
  have n: "i div 8 < 4" using assms(2) by simp
  have "[a, b, c, d] ! (i div 8) = take 4 (drop (4 * w) bs) ! (i div 8)" using q by simp
  also have "\<dots> = bs ! (4 * w + i div 8)" using n assms(1) by simp
  finally have "[a, b, c, d] ! (i div 8) = bs ! (4 * w + i div 8)" .
  moreover have "(32 * w + i) div 8 = 4 * w + i div 8" "(32 * w + i) mod 8 = i mod 8" by presburger+
  ultimately show ?thesis using be32_bit [OF assms(2), of a b c d] q by (simp add: addr_word_def addr_bit_def)
qed

text \<open>The mask of a number of bits.\<close>

lemma next_bit_exp: "k < 31 \<Longrightarrow> next_bit (word_of_int (- (2 ^ Suc k))) = word_of_int (- (2 ^ k))"
proof -
  assume k: "k < 31"
  have "(2 :: int) ^ Suc k \<le> 2 ^ 31" using k by (intro power_increasing) auto
  then have "sint (word_of_int (- (2 ^ Suc k)) :: u32) = - (2 ^ Suc k)"
    unfolding sint_sbintrunc'
    by (intro signed_take_bit_int_eq_self) (use zero_less_power [of "2 :: int" "Suc k"] in \<open>simp_all del: power_Suc zero_less_power\<close>)
  moreover have "- (2 ^ Suc k) sdiv 2 = - ((2 :: int) ^ k)" by (simp add: signed_divide_int_def sgn_if abs_if)
  ultimately show ?thesis by (simp only: next_bit_def)
qed

lemma bit_minus_exp: "bit (word_of_int (- (2 ^ k)) :: u32) i \<longleftrightarrow> k \<le> i \<and> i < 32"
    "bit (- (2 ^ k) :: u32) i \<longleftrightarrow> k \<le> i \<and> i < 32"
  by (auto simp: bit_minus_exp_iff)

lemma mask_word_bits:
  "n \<le> Suc k \<Longrightarrow> k \<le> 31 \<Longrightarrow> bit (mask_word n w (word_of_int (- (2 ^ k)))) i \<longleftrightarrow> bit w i \<or> 0 < n \<and> Suc k - n \<le> i \<and> i < 32"
proof (induction n arbitrary: w k)
  case (Suc n)
  show ?case
  proof (cases n)
    case 0
    then show ?thesis by (simp add: bit_or_iff bit_minus_exp)
  next
    case (Suc m)
    then obtain k' where k: "k = Suc k'" using Suc.prems by (cases k) auto
    then have nb: "next_bit (word_of_int (- (2 ^ k))) = word_of_int (- (2 ^ k'))" using next_bit_exp Suc.prems by simp
    have "n \<le> Suc k'" "k' \<le> 31" using Suc.prems k by auto
    from Suc.IH [OF this, of "or w (word_of_int (- (2 ^ k)))"]
    have "bit (mask_word (Suc n) w (word_of_int (- (2 ^ k)))) i \<longleftrightarrow>
        bit (or w (word_of_int (- (2 ^ k)))) i \<or> 0 < n \<and> Suc k' - n \<le> i \<and> i < 32"
      by (simp only: mask_word.simps nb)
    then show ?thesis using k Suc Suc.prems unfolding bit_or_iff bit_minus_exp(1) by auto
  qed
qed simp

lemma mask_word_bits0: "n \<le> 32 \<Longrightarrow> i < 32 \<Longrightarrow> bit (mask_word n 0 0x80000000) (31 - i) \<longleftrightarrow> i < n"
proof -
  have e: "(0x80000000 :: u32) = word_of_int (- (2 ^ 31))" by code_simp
  show "n \<le> 32 \<Longrightarrow> i < 32 \<Longrightarrow> ?thesis" unfolding e using mask_word_bits [of n 31 0 "31 - i"] by auto
qed

lemma full_words_eq:
  "0 < b \<Longrightarrow> b \<le> 32 \<Longrightarrow> e + n < length m \<Longrightarrow>
    full_words (32 * n + b) e m = (b, e + n, take e m @ replicate n 0xFFFFFFFF @ drop (e + n) m)"
proof (induction n arbitrary: e m)
  case 0
  then show ?case by (subst full_words.simps) simp
next
  case (Suc n)
  have "full_words (32 * Suc n + b) e m = full_words (32 * n + b) (Suc e) (m[e := 0xFFFFFFFF])"
    using Suc.prems by (subst full_words.simps) simp
  also have "\<dots> = (b, Suc e + n, take (Suc e) (m[e := 0xFFFFFFFF]) @ replicate n 0xFFFFFFFF @ drop (Suc e + n) (m[e := 0xFFFFFFFF]))"
    using Suc.prems by (intro Suc.IH) auto
  also have "take (Suc e) (m[e := 0xFFFFFFFF]) = take e m @ [0xFFFFFFFF]" using Suc.prems by (simp add: take_Suc_conv_app_nth)
  finally show ?case by simp
qed

lemma bits_mask_bits:
  assumes "0 < k" "k \<le> 128" "w < 4" "i < 32"
  shows "bit (bits_mask k ! w) (31 - i) \<longleftrightarrow> 32 * w + i < k"
proof -
  obtain n b where k: "k = 32 * n + b" "0 < b" "b \<le> 32"
  proof -
    have "k = 32 * ((k - 1) div 32) + ((k - 1) mod 32 + 1)" using assms(1) by presburger
    moreover have "(k - 1) mod 32 + 1 \<le> 32" by (simp add: less_eq_Suc_le [symmetric])
    ultimately show ?thesis using that by (metis add_gr_0 zero_less_one)
  qed
  have n: "n < 4" using k assms(2) by linarith
  have f: "full_words k 0 [0, 0, 0, 0] = (b, n, replicate n 0xFFFFFFFF @ drop n [0, 0, 0, 0])"
    using full_words_eq [of b 0 n "[0, 0, 0, 0]"] k n by simp
  have m: "bits_mask k = (replicate n 0xFFFFFFFF @ drop n [0, 0, 0, 0])[n := mask_word b 0 0x80000000]"
  proof -
    have "[0, 0, 0, 0 :: u32] ! n = 0" using n by (auto simp: less_Suc_eq numeral_eq_Suc)
    then show ?thesis using f n by (simp add: bits_mask_def nth_append)
  qed
  have full: "bit (0xFFFFFFFF :: u32) (31 - i)"
  proof -
    have "(0xFFFFFFFF :: u32) = - 1" by code_simp
    then show ?thesis by (simp only: bit_minus_1_iff) simp
  qed
  consider "w < n" | "w = n" | "n < w" by linarith
  then show ?thesis
  proof cases
    case 1
    then show ?thesis using m full k assms(3,4) n by (simp add: nth_append)
  next
    case 2
    then show ?thesis using m mask_word_bits0 [OF k(3) assms(4)] k n by (simp add: nth_append)
  next
    case 3
    then have "[0, 0, 0, 0 :: u32] ! w = 0" using assms(3) by (auto simp: less_Suc_eq numeral_eq_Suc)
    then show ?thesis using m 3 k assms(3) n by (simp add: nth_append)
  qed
qed


section \<open>What a subnet matches\<close>

lemma bits_mask_length: "0 < k \<Longrightarrow> k \<le> 128 \<Longrightarrow> length (bits_mask k) = 4"
proof -
  assume k: "0 < k" "k \<le> 128"
  have "length (snd (snd (full_words b e m))) = length m" for b e m
    by (induction b e m rule: full_words.induct) (subst full_words.simps, simp)
  note l = this
  obtain b e m where f: "full_words k 0 [0, 0, 0, 0] = (b, e, m)" using prod_cases3 by blast
  then have "length m = 4" using l [of k 0 "[0, 0, 0, 0]"] by simp
  then show ?thesis by (simp add: bits_mask_def f)
qed

lemma all_words: "(\<forall>w<4. P w) \<longleftrightarrow> P 0 \<and> P 1 \<and> P 2 \<and> P (3 :: nat)"
proof -
  have "w < 4 \<longleftrightarrow> w = 0 \<or> w = 1 \<or> w = 2 \<or> w = 3" for w :: nat by linarith
  then show ?thesis by auto
qed

text \<open>A word under the mask equals another one, when the bits of the mask are equal.\<close>

lemma masked_eq:
  assumes "4 * u + 4 \<le> length x" "4 * v + 4 \<le> length a" "0 < k" "k \<le> 128" "w < 4"
  shows "and (addr_word x u) (bits_mask k ! w) = and (addr_word a v) (bits_mask k ! w) \<longleftrightarrow>
    (\<forall>i<32. 32 * w + i < k \<longrightarrow> addr_bit x (32 * u + i) = addr_bit a (32 * v + i))"
proof -
  have "and p m = and q m \<longleftrightarrow> (\<forall>i<32. bit m (31 - i) \<longrightarrow> bit p (31 - i) = bit q (31 - i))" for p q m :: u32
  proof
    assume "\<forall>i<32. bit m (31 - i) \<longrightarrow> bit p (31 - i) = bit q (31 - i)"
    then have h: "31 - j < 32 \<Longrightarrow> bit m (31 - (31 - j)) \<longrightarrow> bit p (31 - (31 - j)) = bit q (31 - (31 - j))" for j by blast
    have "bit m j \<longrightarrow> bit p j = bit q j" if "j < 32" for j
    proof -
      have "31 - (31 - j) = j" "31 - j < 32" using that by auto
      then show ?thesis using h [of j] by simp
    qed
    then show "and p m = and q m" by (intro bit_eqI) (auto simp: bit_and_iff)
  next
    assume "and p m = and q m"
    then have "bit (and p m) j = bit (and q m) j" for j by simp
    then show "\<forall>i<32. bit m (31 - i) \<longrightarrow> bit p (31 - i) = bit q (31 - i)" by (auto simp: bit_and_iff)
  qed
  then show ?thesis using addr_word_bit [OF assms(1)] addr_word_bit [OF assms(2)] bits_mask_bits [OF assms(3-5)] by simp
qed

lemma pton4_not_v6: "inet_pton4 q = Some a \<Longrightarrow> q \<noteq> [] \<Longrightarrow> cget q 0 \<noteq> CHR '':''"
  using pton4_loop_chars [of q False 0 "[]" 0 a] by (cases q) (auto simp: inet_pton4_def)

text \<open>The address a client comes from: an IPv4 address mapped to IPv6 counts as the IPv4 address.\<close>

definition plain_addr :: "sockaddr \<Rightarrow> u8 list" where
  "plain_addr sa = (if sa_family sa = AF_INET6 \<and> IN6_IS_ADDR_V4MAPPED (ipaddr sa) then drop 12 (ipaddr sa) else ipaddr sa)"

text \<open>The address that a text stands for, in the order in which \<open>parse_ip\<close> tries.\<close>

definition text_addr :: "cstring \<Rightarrow> u8 list" where
  "text_addr s = map of_nat (case inet_pton6 s of Some b \<Rightarrow> b | None \<Rightarrow> (case inet_pton4 s of Some b \<Rightarrow> b | None \<Rightarrow> []))"

lemma create_bits:
  assumes "ipsubnet_create s (Some (fmt_nat k)) = Inr sub" "0 < k" "k \<le> 8 * length (text_addr s)"
  shows "if inet_pton6 s \<noteq> None then \<not> IN6_IS_ADDR_V4MAPPED (text_addr s) \<and> length (text_addr s) = 16 \<and> ip_family sub = AF_INET6 \<and>
      ip_mask sub = bits_mask k \<and> (\<forall>w<4. ip_sub sub ! w = and (addr_word (text_addr s) w) (bits_mask k ! w))
    else length (text_addr s) = 4 \<and> ip_family sub = AF_INET \<and> ip_mask sub = bits_mask k \<and>
      ip_sub sub ! 0 = and (addr_word (text_addr s) 0) (bits_mask k ! 0) \<and> (\<forall>w<4. w \<noteq> 0 \<longrightarrow> ip_sub sub ! w = 0)"
proof -
  have k: "k \<le> 128"
    using assms(3) inet_pton6_length inet_pton4_bytes by (fastforce simp: text_addr_def split: option.splits)
  then have st: "strtoll (fmt_nat k) = (int k, False, [])" using strtoll_fmt_nat [of k "[]"] by simp
  note ml = bits_mask_length [OF assms(2) k]
  show ?thesis
  proof (cases "inet_pton6 s")
    case (Some b)
    then have b: "length b = 16" "text_addr s = map of_nat b" using inet_pton6_length by (simp_all add: text_addr_def)
    have sw: "length (sub_words b) = 4" "w < 4 \<Longrightarrow> sub_words b ! w = addr_word (text_addr s) w" for w
      using b by (simp_all add: sub_words_def)
    have "\<not> IN6_IS_ADDR_V4MAPPED (text_addr s) \<and> sub = fix_subnet \<lparr>ip_family = AF_INET6, ip_sub = sub_words b, ip_mask = bits_mask k\<rparr>"
      using assms(1,2) k st Some b by (auto simp: ipsubnet_create_def parse_ip_def Let_def split: if_splits)
    then show ?thesis using Some b sw ml by (simp add: fix_subnet_def)
  next
    case None
    obtain b where b4: "inet_pton4 s = Some b"
      using assms(1) None by (auto simp: ipsubnet_create_def parse_ip_def split: if_splits option.splits)
    then have b: "length b = 4" "text_addr s = map of_nat b" using inet_pton4_bytes None by (auto simp: text_addr_def)
    have sw: "sub_words b = [addr_word (text_addr s) 0]" using b by (simp add: sub_words_def)
    have "sub = fix_subnet \<lparr>ip_family = AF_INET, ip_sub = [addr_word (text_addr s) 0, 0, 0, 0], ip_mask = bits_mask k\<rparr>"
      using assms k st None b b4 sw by (auto simp: ipsubnet_create_def parse_ip_def Let_def split: if_splits)
    then show ?thesis using None b ml by (auto simp: fix_subnet_def less_Suc_eq numeral_eq_Suc)
  qed
qed

lemma subnet_bits:
  assumes "ipsubnet_create s (Some (fmt_nat k)) = Inr sub" "0 < k" "k \<le> 8 * length (text_addr s)"
    and "addr_ok sa" "length (plain_addr sa) = length (text_addr s)"
  shows "ipsubnet_test sub sa \<longleftrightarrow> (\<forall>i<k. addr_bit (plain_addr sa) i = addr_bit (text_addr s) i)"
proof -
  note C = create_bits [OF assms(1-3)]
  show ?thesis
  proof (cases "inet_pton6 s")
    case None
    have c: "length (text_addr s) = 4" "ip_family sub = AF_INET" "ip_mask sub = bits_mask k"
      "ip_sub sub ! 0 = and (addr_word (text_addr s) 0) (bits_mask k ! 0)" using C None by simp_all
    have k: "k \<le> 32" using assms(3) c(1) by simp
    have sa: "sa_family sa = AF_INET \<and> plain_addr sa = ipaddr sa \<or>
        sa_family sa \<noteq> AF_INET \<and> IN6_IS_ADDR_V4MAPPED (ipaddr sa) \<and> plain_addr sa = drop 12 (ipaddr sa) \<and> length (ipaddr sa) = 16"
      using assms(4,5) c(1) by (cases "sa_family sa") (auto simp: plain_addr_def addr_ok_def split: if_splits)
    then have "ipsubnet_test sub sa \<longleftrightarrow> and (addr_word (plain_addr sa) 0) (bits_mask k ! 0) = and (addr_word (text_addr s) 0) (bits_mask k ! 0)"
      using c by (auto simp: ipsubnet_test_def addr_word_def)
    also have "\<dots> \<longleftrightarrow> (\<forall>i<k. addr_bit (plain_addr sa) i = addr_bit (text_addr s) i)"
      using masked_eq [of 0 "plain_addr sa" 0 "text_addr s" k 0] assms(2,5) c(1) k by auto
    finally show ?thesis .
  next
    case (Some b)
    have c: "length (text_addr s) = 16" "ip_mask sub = bits_mask k"
      "\<And>w. w < 4 \<Longrightarrow> ip_sub sub ! w = and (addr_word (text_addr s) w) (bits_mask k ! w)" using C Some by simp_all
    have k: "k \<le> 128" using assms(3) c(1) by simp
    have sa: "sa_family sa \<noteq> AF_INET" "\<not> IN6_IS_ADDR_V4MAPPED (ipaddr sa)" "plain_addr sa = ipaddr sa"
      using assms(4,5) c(1) by (cases "sa_family sa"; auto simp: plain_addr_def addr_ok_def split: if_splits)+
    have m: "and (addr_word (ipaddr sa) w) (bits_mask k ! w) = and (addr_word (text_addr s) w) (bits_mask k ! w) \<longleftrightarrow>
        (\<forall>i<32. 32 * w + i < k \<longrightarrow> addr_bit (ipaddr sa) (32 * w + i) = addr_bit (text_addr s) (32 * w + i))" if "w < 4" for w
      using masked_eq [of w "ipaddr sa" w "text_addr s" k w] assms(2,5) c(1) k that sa by simp
    have "ipsubnet_test sub sa \<longleftrightarrow> (\<forall>w<4. \<forall>i<32. 32 * w + i < k \<longrightarrow> addr_bit (ipaddr sa) (32 * w + i) = addr_bit (text_addr s) (32 * w + i))"
      using sa c m unfolding all_words by (simp add: ipsubnet_test_def)
    also have "\<dots> \<longleftrightarrow> (\<forall>i<k. addr_bit (plain_addr sa) i = addr_bit (text_addr s) i)"
    proof
      assume h: "\<forall>w<4. \<forall>i<32. 32 * w + i < k \<longrightarrow> addr_bit (ipaddr sa) (32 * w + i) = addr_bit (text_addr s) (32 * w + i)"
      show "\<forall>i<k. addr_bit (plain_addr sa) i = addr_bit (text_addr s) i"
      proof (intro allI impI)
        fix i assume i: "i < k"
        have "i div 32 < 4" "i mod 32 < 32" "32 * (i div 32) + i mod 32 = i" using i k by auto
        then show "addr_bit (plain_addr sa) i = addr_bit (text_addr s) i" using h i sa(3) by metis
      qed
    qed (use sa(3) in auto)
    finally show ?thesis .
  qed
qed

text \<open>
  C19. A subnet given as address and number of bits matches exactly the addresses whose first bits are those of the
  address, for IPv4 and IPv6; an IPv4 client that comes in over an IPv6 socket is compared as IPv4. The loop of
  \<open>apr_ipsubnet_create\<close> that halves a negative integer fills in the mask.
\<close>
theorem subnet_prefix:
  assumes "ipsubnet_create s (Some (fmt_nat k)) = Inr sub" "0 < k" "k \<le> 8 * length (text_addr s)"
    and "addr_ok sa" "length (plain_addr sa) = length (text_addr s)"
  shows "ipsubnet_test sub sa \<longleftrightarrow> (\<forall>i<k. addr_bit (plain_addr sa) i = addr_bit (text_addr s) i)"
  by (rule subnet_bits [OF assms])

lemma sample_subnets:
  "inet_pton6 ''10.1.0.0'' = None" "inet_pton4 ''10.1.0.0'' = Some [10, 1, 0, 0]"
  "inet_pton6 ''32.1.0.0'' = None" "inet_pton4 ''32.1.0.0'' = Some [32, 1, 0, 0]"
  "fmt_nat 16 = ''16''"
  by (simp_all add: inet_pton6_def inet_pton4_def cget_def IN6ADDRSZ_def INADDRSZ_def c_isxdigit_def c_isdigit_def ccode_def hex_digit_value_def
      fmt_nat.simps char_of_def bit_Suc_0_iff)

lemma sample_create:
  "\<exists>sub. ipsubnet_create ''10.1.0.0'' (Some (fmt_nat 16)) = Inr sub" "\<exists>sub. ipsubnet_create ''32.1.0.0'' (Some (fmt_nat 16)) = Inr sub"
proof -
  have l: "looks_like_ip ''10.1.0.0''" "looks_like_ip ''32.1.0.0''" by code_simp+
  have t: "strtoll (fmt_nat 16) = (16, False, [])" using strtoll_fmt_nat [of 16 "[]"] by simp
  show "\<exists>sub. ipsubnet_create ''10.1.0.0'' (Some (fmt_nat 16)) = Inr sub" "\<exists>sub. ipsubnet_create ''32.1.0.0'' (Some (fmt_nat 16)) = Inr sub"
    using l t sample_subnets by (simp_all add: ipsubnet_create_def parse_ip_def)
qed

lemma first_two_bytes: "i < 16 \<Longrightarrow> addr_bit (a # b # x) i = addr_bit (a # b # y) i"
proof -
  assume "i < 16"
  then have "i div 8 = 0 \<or> i div 8 = 1" by linarith
  then show ?thesis by (auto simp: addr_bit_def)
qed

theorem subnet_prefix_witness:
  "\<exists>sub. ipsubnet_create ''10.1.0.0'' (Some ''16'') = Inr sub \<and>
    ipsubnet_test sub \<lparr>sa_family = AF_INET, sa_port = 80, ipaddr = [10, 1, 2, 3]\<rparr> \<and>
    \<not> ipsubnet_test sub \<lparr>sa_family = AF_INET, sa_port = 80, ipaddr = [10, 2, 2, 3]\<rparr>"
proof -
  obtain sub where c: "ipsubnet_create ''10.1.0.0'' (Some (fmt_nat 16)) = Inr sub" using sample_create(1) by blast
  have t: "text_addr ''10.1.0.0'' = [10, 1, 0, 0]" using sample_subnets by (simp add: text_addr_def)
  let ?a = "\<lparr>sa_family = AF_INET, sa_port = 80, ipaddr = [10, 1, 2, 3]\<rparr>" let ?b = "\<lparr>sa_family = AF_INET, sa_port = 80, ipaddr = [10, 2, 2, 3]\<rparr>"
  have "ipsubnet_test sub ?a" using subnet_prefix [OF c, of ?a] t first_two_bytes by (simp add: addr_ok_def plain_addr_def)
  moreover have "\<not> (addr_bit [10, 2, 2, 3] 14 = addr_bit [10, 1, 0, 0] 14)" by code_simp
  then have "\<not> ipsubnet_test sub ?b" using subnet_prefix [OF c, of ?b] t by (auto simp: addr_ok_def plain_addr_def)
  ultimately show ?thesis using c sample_subnets by auto
qed

text \<open>
  C22. An IPv4 subnet also matches IPv6 addresses: \<open>apr_ipsubnet_test\<close> does not look at the family of the subnet when the
  client has an IPv6 address that is not a mapped one, and compares the first bits of the IPv6 address with those of
  the IPv4 address.
\<close>
theorem ipv4_subnet_matches_ipv6:
  assumes "ipsubnet_create s (Some (fmt_nat k)) = Inr sub" "0 < k" "k \<le> 32" "length (text_addr s) = 4"
    and "sa_family sa = AF_INET6" "length (ipaddr sa) = 16" "\<not> IN6_IS_ADDR_V4MAPPED (ipaddr sa)"
  shows "ipsubnet_test sub sa \<longleftrightarrow> (\<forall>i<k. addr_bit (ipaddr sa) i = addr_bit (text_addr s) i)"
proof -
  have n: "inet_pton6 s = None" using assms(4) inet_pton6_length by (fastforce simp: text_addr_def split: option.splits)
  have "k \<le> 8 * length (text_addr s)" using assms(3,4) by simp
  note C = create_bits [OF assms(1,2) this]
  have c: "ip_mask sub = bits_mask k" "ip_sub sub ! 0 = and (addr_word (text_addr s) 0) (bits_mask k ! 0)"
    and c0: "\<forall>w<4. w \<noteq> 0 \<longrightarrow> ip_sub sub ! w = 0" using C n by simp_all
  have z: "bits_mask k ! w = 0" if "w < 4" "w \<noteq> 0" for w
  proof (rule bit_eqI)
    fix j assume "possible_bit TYPE(32 word) j"
    then have j: "j < 32" by simp
    have "31 - (31 - j) = j" "31 - j < 32" "k \<le> 128" using j assms(3) by auto
    then have "bit (bits_mask k ! w) j = (32 * w + (31 - j) < k)"
      using bits_mask_bits [OF assms(2) _ that(1), of "31 - j"] by simp
    then show "bit (bits_mask k ! w) j = bit 0 j" using assms(3) that(2) by simp
  qed
  have "ipsubnet_test sub sa \<longleftrightarrow> and (addr_word (ipaddr sa) 0) (bits_mask k ! 0) = and (addr_word (text_addr s) 0) (bits_mask k ! 0)"
    using assms(5-7) c c0 z [of 1] z [of 2] z [of 3] unfolding all_words by (simp add: ipsubnet_test_def)
  also have "\<dots> \<longleftrightarrow> (\<forall>i<k. addr_bit (ipaddr sa) i = addr_bit (text_addr s) i)"
    using masked_eq [of 0 "ipaddr sa" 0 "text_addr s" k 0] assms by auto
  finally show ?thesis .
qed

theorem ipv4_subnet_matches_ipv6_witness:
  "\<exists>sub. ipsubnet_create ''32.1.0.0'' (Some ''16'') = Inr sub \<and>
    ipsubnet_test sub \<lparr>sa_family = AF_INET6, sa_port = 80, ipaddr = [0x20, 0x01, 0x0d, 0xb8, 0, 0, 0, 0, 0, 0, 0, 0, 0, 0, 0, 1]\<rparr>"
proof -
  obtain sub where c: "ipsubnet_create ''32.1.0.0'' (Some (fmt_nat 16)) = Inr sub" using sample_create(2) by blast
  have t: "text_addr ''32.1.0.0'' = [32, 1, 0, 0]" using sample_subnets by (simp add: text_addr_def)
  let ?a = "\<lparr>sa_family = AF_INET6, sa_port = 80, ipaddr = [0x20, 0x01, 0x0d, 0xb8, 0, 0, 0, 0, 0, 0, 0, 0, 0, 0, 0, 1]\<rparr>"
  have "\<not> IN6_IS_ADDR_V4MAPPED (ipaddr ?a)" by (simp add: IN6_IS_ADDR_V4MAPPED_def numeral_eq_Suc)
  then have "ipsubnet_test sub ?a" using ipv4_subnet_matches_ipv6 [OF c, of ?a] t first_two_bytes by simp
  then show ?thesis using c sample_subnets by auto
qed

text \<open>The number of the port is read into an \<open>int\<close> without a check, so 2^32 + 80 is the port 80.\<close>

lemma parse_port_wraps: "parse_addr_port ''h:4294967376'' = Some (Some ''h'', None, 80)"
  by (simp add: parse_addr_port_def parse_host_def atoi_def strtoll_def dec_value_def c_isdigit_def c_isspace_def ccode_def cget_def
      word_of_int_eq_iff)

end
