(* ===== verification/Vhost.thy ===== *)
theory Vhost
  imports Http_Request Apr_Sockaddr Util_Match
begin

text \<open>
  Virtual hosts, \<open>server/vhost.c\<close>: the addresses of a configuration, the tables compiled from them, a hash
  table of addresses with chains of names, and the choice of the server for a connection and for a request. A
  \<open>server_rec\<close> is known by a number; the resolver of host names is a parameter. Printing the tables is
  left out.
\<close>

section \<open>State\<close>

record server_addr =
  host_addr :: sockaddr
  host_port :: "16 word"
  virthost :: cstring

record server_rec =
  server_hostname :: "cstring option"
  s_port :: "16 word"
  s_addrs :: "server_addr list"
  s_path :: "cstring option"
  s_names :: "cstring option list"
  s_wild_names :: "cstring option list"

type_synonym name_chain = "(server_addr \<times> nat) list"

record ipaddr_chain =
  ic_sar :: server_addr
  ic_server :: "nat option"
  ic_names :: name_chain

definition IPHASH_TABLE_SIZE :: nat where "IPHASH_TABLE_SIZE = 256"

record vhosts =
  iphash_table :: "ipaddr_chain list list"
  default_list :: "ipaddr_chain list"
  name_vhost_list :: "server_addr list"

record conn =
  local_addr :: sockaddr
  vhost_lookup_data :: name_chain
  base_server :: nat

definition init_vhost_config :: vhosts where
  "init_vhost_config = \<lparr>iphash_table = replicate IPHASH_TABLE_SIZE [], default_list = [], name_vhost_list = []\<rparr>"

section \<open>Addresses of the configuration\<close>

text \<open>
  \<open>get_addresses\<close>: an error or the addresses to append. \<open>resolve\<close> is \<open>apr_sockaddr_info_get\<close>, for
  a family or any.
\<close>

definition get_addresses ::
  "(family option \<Rightarrow> cstring \<Rightarrow> 16 word \<Rightarrow> sockaddr list option) \<Rightarrow> cstring \<Rightarrow> 16 word \<Rightarrow> cstring + server_addr list" where
  "get_addresses resolve w0 default_port =
     (if w0 = [] then Inr []
      else
        (let wlen = length w0; star = (List.last w0 = CHR ''*'');
             wild_port = (star \<and> (wlen < 2 \<or> w0 ! (wlen - 2) = CHR '':''));
             w = (if star \<and> \<not> wlen < 2 \<and> w0 ! (wlen - 2) = CHR '':'' then take (wlen - 2) w0 else w0)
         in case parse_addr_port w of
              None \<Rightarrow> Inl ''The address or port is invalid''
            | Some (None, scope_id, port0) \<Rightarrow> Inl ''Missing address for VirtualHost''
            | Some (Some host, Some scope_id, port0) \<Rightarrow> Inl ''Scope ids are not supported''
            | Some (Some host, None, port0) \<Rightarrow>
                (let port = (if port0 = 0 \<and> \<not> wild_port then default_port else port0);
                     recs = map (\<lambda>a. \<lparr>host_addr = a, host_port = port, virthost = host\<rparr>)
                 in if host = ''*'' then
                      (case resolve (Some AF_INET) ''0.0.0.0'' port of
                         None \<Rightarrow> Inl ''Could not resolve address '0.0.0.0' -- check resolver configuration.''
                       | Some as \<Rightarrow> Inr (recs as))
                    else if strcaseeq host ''_default_'' \<or> host = ''255.255.255.255'' then
                      (case resolve (Some AF_INET) ''255.255.255.255'' port of
                         None \<Rightarrow> Inl ''Could not resolve address '255.255.255.255' -- check resolver configuration.''
                       | Some as \<Rightarrow> Inr (recs as))
                    else
                      (case resolve None host port of None \<Rightarrow> Inr [] | Some as \<Rightarrow> Inr (recs as)))))"

text \<open>The loop over the words; at an error what has been read so far stays.\<close>

function vhost_addrs_loop ::
  "(family option \<Rightarrow> cstring \<Rightarrow> 16 word \<Rightarrow> sockaddr list option) \<Rightarrow> 16 word \<Rightarrow> cstring \<Rightarrow> server_addr list \<Rightarrow>
     cstring option \<times> server_addr list" where
  "vhost_addrs_loop resolve port hostname addrs =
     (if hostname = [] then (None, addrs)
      else
        (case get_addresses resolve (fst (getword_conf hostname)) port of
           Inl err \<Rightarrow> (Some err, addrs)
         | Inr as \<Rightarrow> vhost_addrs_loop resolve port (snd (getword_conf hostname)) (addrs @ as)))"
  by pat_completeness auto

termination vhost_addrs_loop
  by (relation "measure (\<lambda>(_, _, h, _). length h)") (auto intro: getword_conf_decreases)

definition parse_vhost_addrs ::
  "(family option \<Rightarrow> cstring \<Rightarrow> 16 word \<Rightarrow> sockaddr list option) \<Rightarrow> cstring \<Rightarrow> server_rec \<Rightarrow> cstring option \<times> server_rec" where
  "parse_vhost_addrs resolve hostname s =
     (case vhost_addrs_loop resolve (s_port s) hostname [] of
        (Some err, addrs) \<Rightarrow> (Some err, s\<lparr>s_addrs := addrs\<rparr>)
      | (None, addrs) \<Rightarrow>
          (None, s\<lparr>s_addrs := addrs,
                   s_port := (if addrs \<noteq> [] \<and> host_port (hd addrs) \<noteq> 0 then host_port (hd addrs) else s_port s)\<rparr>))"

definition set_name_virtual_host ::
  "(family option \<Rightarrow> cstring \<Rightarrow> 16 word \<Rightarrow> sockaddr list option) \<Rightarrow> 16 word \<Rightarrow> cstring \<Rightarrow> vhosts \<Rightarrow> cstring option \<times> vhosts" where
  "set_name_virtual_host resolve port arg v =
     (case get_addresses resolve arg port of
        Inl err \<Rightarrow> (Some err, v)
      | Inr as \<Rightarrow> (None, v\<lparr>name_vhost_list := name_vhost_list v @ as\<rparr>))"

section \<open>The tables\<close>

definition hash_inaddr :: "u32 \<Rightarrow> nat" where
  "hash_inaddr key0 =
     (let key = xor key0 (drop_bit 16 key0) in unat (xor (drop_bit 8 key) key) mod IPHASH_TABLE_SIZE)"

definition hash_addr :: "sockaddr \<Rightarrow> nat" where
  "hash_addr sa = hash_inaddr (be32 (drop (length (ipaddr sa) - 4) (ipaddr sa)))"

fun find_pos :: "('a \<Rightarrow> bool) \<Rightarrow> 'a list \<Rightarrow> nat option" where
  "find_pos P [] = None"
| "find_pos P (x # xs) = (if P x then Some 0 else map_option Suc (find_pos P xs))"

definition addr_matches :: "sockaddr \<Rightarrow> ipaddr_chain \<Rightarrow> bool" where
  "addr_matches sa trav =
     (let cur = host_addr (ic_sar trav)
      in (sa_port cur = 0 \<or> sa_port sa = 0 \<or> sa_port cur = sa_port sa) \<and> sockaddr_equal cur sa)"

definition find_ipaddr :: "vhosts \<Rightarrow> sockaddr \<Rightarrow> (nat \<times> nat) option" where
  "find_ipaddr v sa =
     (let bucket = hash_addr sa in map_option (Pair bucket) (find_pos (addr_matches sa) (iphash_table v ! bucket)))"

definition find_default_server :: "vhosts \<Rightarrow> 16 word \<Rightarrow> nat option" where
  "find_default_server v port =
     find_pos (\<lambda>trav. host_port (ic_sar trav) = 0 \<or> host_port (ic_sar trav) = port) (default_list v)"

definition new_ipaddr_chain :: "nat option \<Rightarrow> server_addr \<Rightarrow> ipaddr_chain" where
  "new_ipaddr_chain s sar = \<lparr>ic_sar = sar, ic_server = s, ic_names = []\<rparr>"

text \<open>\<open>add_name_vhost_config\<close>: \<open>None\<close> when it returns 0.\<close>

definition add_name_vhost_config :: "nat \<Rightarrow> server_addr \<Rightarrow> ipaddr_chain \<Rightarrow> ipaddr_chain option" where
  "add_name_vhost_config s sar ic =
     (if ic_names ic \<noteq> [] \<or> ic_server ic = None
      then Some (ic\<lparr>ic_names := (sar, s) # ic_names ic, ic_server := Some s\<rparr>) else None)"

definition remove_unused_name_vhosts :: "ipaddr_chain list \<Rightarrow> ipaddr_chain list" where
  "remove_unused_name_vhosts ics = filter (\<lambda>ic. ic_server ic \<noteq> None) ics"

definition inaddr_any :: "sockaddr \<Rightarrow> bool" where
  "inaddr_any sa \<longleftrightarrow> list_all (\<lambda>b. b = 0) (ipaddr sa)"

definition default_vhost_addr :: "sockaddr \<Rightarrow> bool" where
  "default_vhost_addr sa \<longleftrightarrow> sa_family sa = AF_INET \<and> ipaddr sa = [0xff, 0xff, 0xff, 0xff]"

text \<open>
  The loops of \<open>ap_fini_vhost_config\<close>. \<open>tails\<close> are the places in the chains to which \<open>iphash_table_tail\<close> points.
\<close>

definition insert_at :: "nat \<Rightarrow> 'a \<Rightarrow> 'a list \<Rightarrow> 'a list" where
  "insert_at t x xs = take t xs @ x # drop t xs"

definition add_name_vhost :: "server_addr \<Rightarrow> vhosts \<times> nat list \<Rightarrow> vhosts \<times> nat list" where
  "add_name_vhost sar st =
     (case st of (v, tails) \<Rightarrow>
        (let bucket = hash_addr (host_addr sar); ic = new_ipaddr_chain None sar
         in if \<not> inaddr_any (host_addr sar) then
              (v\<lparr>iphash_table := (iphash_table v)[bucket := insert_at (tails ! bucket) ic (iphash_table v ! bucket)]\<rparr>,
               tails[bucket := tails ! bucket + 1])
            else (v\<lparr>default_list := ic # default_list v\<rparr>, tails)))"

definition is_default_addr :: "server_addr \<Rightarrow> bool" where
  "is_default_addr sar \<longleftrightarrow> default_vhost_addr (host_addr sar) \<or> inaddr_any (host_addr sar)"

definition add_vhost_addr :: "nat list \<Rightarrow> nat \<Rightarrow> server_addr \<Rightarrow> vhosts \<Rightarrow> vhosts" where
  "add_vhost_addr tails s sar v =
     (if is_default_addr sar then
        (let alone = v\<lparr>default_list := new_ipaddr_chain (Some s) sar # default_list v\<rparr>
         in case find_default_server v (host_port sar) of
              None \<Rightarrow> alone
            | Some i \<Rightarrow>
                (case add_name_vhost_config s sar (default_list v ! i) of
                   Some ic \<Rightarrow> v\<lparr>default_list := (default_list v)[i := ic]\<rparr>
                 | None \<Rightarrow> alone))
      else
        (case find_ipaddr v (host_addr sar) of
           None \<Rightarrow>
             (let bucket = hash_addr (host_addr sar)
              in v\<lparr>iphash_table := (iphash_table v)
                    [bucket := insert_at (tails ! bucket) (new_ipaddr_chain (Some s) sar) (iphash_table v ! bucket)]\<rparr>)
         | Some (b, i) \<Rightarrow>
             (let ic = iphash_table v ! b ! i;
                  ic1 = (case add_name_vhost_config s sar ic of Some ic1 \<Rightarrow> ic1 | None \<Rightarrow> ic\<lparr>ic_sar := sar, ic_server := Some s\<rparr>)
              in v\<lparr>iphash_table := (iphash_table v)[b := (iphash_table v ! b)[i := ic1]]\<rparr>)))"

text \<open>The name of a server that has none; \<open>nameinfo\<close> is \<open>apr_getnameinfo\<close>.\<close>

definition name_server :: "(sockaddr \<Rightarrow> cstring option) \<Rightarrow> server_rec \<Rightarrow> server_rec \<Rightarrow> server_rec" where
  "name_server nameinfo main_s s =
     (if server_hostname s \<noteq> None then s
      else if list_ex is_default_addr (s_addrs s) then s\<lparr>server_hostname := server_hostname main_s\<rparr>
      else
        (case s_addrs s of
           [] \<Rightarrow> s\<lparr>server_hostname := Some ''bogus_host_without_forward_dns''\<rparr>
         | a # as \<Rightarrow>
             (case nameinfo (host_addr a) of
                Some hostname \<Rightarrow> s\<lparr>server_hostname := Some hostname\<rparr>
              | None \<Rightarrow> s\<lparr>server_hostname := Some ''bogus_host_without_reverse_dns''\<rparr>)))"

definition add_vhost ::
  "(sockaddr \<Rightarrow> cstring option) \<Rightarrow> nat list \<Rightarrow> nat \<Rightarrow> nat \<Rightarrow> (nat \<Rightarrow> server_rec) \<times> vhosts \<Rightarrow> (nat \<Rightarrow> server_rec) \<times> vhosts" where
  "add_vhost nameinfo tails main_s s st =
     (case st of (sv, v) \<Rightarrow>
        (sv(s := name_server nameinfo (sv main_s) (sv s)), fold (add_vhost_addr tails s) (s_addrs (sv s)) v))"

text \<open>\<open>vs\<close> are the servers of the list \<open>main_s->next\<close>, \<open>local_host\<close> is \<open>ap_get_local_host\<close>.\<close>

definition fini_vhost_config ::
  "(sockaddr \<Rightarrow> cstring option) \<Rightarrow> cstring \<Rightarrow> nat \<Rightarrow> nat list \<Rightarrow> (nat \<Rightarrow> server_rec) \<times> vhosts \<Rightarrow> (nat \<Rightarrow> server_rec) \<times> vhosts" where
  "fini_vhost_config nameinfo local_host main_s vs st =
     (case st of (sv, v) \<Rightarrow>
        (let sv1 = (if server_hostname (sv main_s) = None then sv(main_s := (sv main_s)\<lparr>server_hostname := Some local_host\<rparr>) else sv)
         in case fold add_name_vhost (name_vhost_list v) (v, replicate IPHASH_TABLE_SIZE 0) of
              (v1, tails) \<Rightarrow>
                (case fold (add_vhost nameinfo tails main_s) vs (sv1, v1) of
                   (sv2, v2) \<Rightarrow>
                     (sv2, v2\<lparr>iphash_table := map remove_unused_name_vhosts (iphash_table v2),
                              default_list := remove_unused_name_vhosts (default_list v2)\<rparr>))))"

section \<open>The server of a connection\<close>

definition update_vhost_given_ip :: "vhosts \<Rightarrow> conn \<Rightarrow> conn" where
  "update_vhost_given_ip v c =
     (let use = (\<lambda>trav. c\<lparr>vhost_lookup_data := ic_names trav, base_server := the (ic_server trav)\<rparr>)
      in case find_ipaddr v (local_addr c) of
           Some (b, i) \<Rightarrow> use (iphash_table v ! b ! i)
         | None \<Rightarrow>
             (case find_default_server v (sa_port (local_addr c)) of
                Some i \<Rightarrow> use (default_list v ! i)
              | None \<Rightarrow> c\<lparr>vhost_lookup_data := []\<rparr>))"

section \<open>The server of a request\<close>

text \<open>The loop of \<open>fix_hostname\<close> over the characters: \<open>None\<close> is the jump to \<open>bad\<close>.\<close>

fun scan_hostname :: "cstring \<Rightarrow> cstring option" where
  "scan_hostname [] = Some []"
| "scan_hostname (c # dst) =
     (if c_islower c then map_option ((#) c) (scan_hostname dst)
      else if c = CHR ''.'' then (if cget dst 0 = CHR ''.'' then None else map_option ((#) c) (scan_hostname dst))
      else if c_isupper c then map_option ((#) (c_tolower c)) (scan_hostname dst)
      else if c = CHR ''/'' \<or> c = BSLASH then None
      else map_option ((#) c) (scan_hostname dst))"

definition fix_hostname :: "req \<Rightarrow> req" where
  "fix_hostname r =
     (case q_hostname r of
        None \<Rightarrow> r
      | Some name \<Rightarrow>
          if list_all c_isdigit name then r
          else
            (case parse_addr_port name of
               Some (Some host, None, port) \<Rightarrow>
                 (let r1 = (if port \<noteq> 0 then r\<lparr>q_parsed_uri := (q_parsed_uri r)\<lparr>u_port := port, u_port_str := Some (fmt_nat (unat port))\<rparr>\<rparr>
                            else r)
                  in if cget name 0 = CHR ''['' then r1\<lparr>q_hostname := Some host\<rparr>
                     else
                       (case scan_hostname host of
                          None \<Rightarrow> r1\<lparr>q_status := HTTP_BAD_REQUEST\<rparr>
                        | Some h \<Rightarrow> r1\<lparr>q_hostname := Some (if h \<noteq> [] \<and> List.last h = CHR ''.'' then butlast h else h)\<rparr>))
             | _ \<Rightarrow> r\<lparr>q_status := HTTP_BAD_REQUEST\<rparr>))"

text \<open>The server has a name after \<open>ap_fini_vhost_config\<close>.\<close>

definition matches_aliases :: "server_rec \<Rightarrow> cstring \<Rightarrow> bool" where
  "matches_aliases s host \<longleftrightarrow>
     (case server_hostname s of Some name \<Rightarrow> strcaseeq host name | None \<Rightarrow> False) \<or>
     list_ex (\<lambda>name. case name of Some n \<Rightarrow> strcaseeq host n | None \<Rightarrow> False) (s_names s) \<or>
     list_ex (\<lambda>name. case name of Some n \<Rightarrow> strcasecmp_match host n = 0 | None \<Rightarrow> False) (s_wild_names s)"

definition port_matches :: "16 word \<Rightarrow> server_addr \<Rightarrow> bool" where
  "port_matches port sar \<longleftrightarrow> host_port sar = 0 \<or> port = host_port sar"

definition matches_request_vhost :: "(nat \<Rightarrow> server_rec) \<Rightarrow> req \<Rightarrow> cstring \<Rightarrow> 16 word \<Rightarrow> bool" where
  "matches_request_vhost sv r host port =
     (let s = sv (q_server r)
      in if list_ex (\<lambda>sar. port_matches port sar \<and> strcaseeq host (virthost sar)) (s_addrs s) then True
         else if port \<noteq> s_port s then False
         else matches_aliases s host)"

fun hostalias_loop :: "(nat \<Rightarrow> server_rec) \<Rightarrow> 16 word \<Rightarrow> cstring \<Rightarrow> nat option \<Rightarrow> name_chain \<Rightarrow> nat option" where
  "hostalias_loop sv port host last_s [] = None"
| "hostalias_loop sv port host last_s ((sar, s) # src) =
     (if \<not> port_matches port sar then hostalias_loop sv port host last_s src
      else if strcaseeq host (virthost sar) then Some s
      else if last_s = Some s then hostalias_loop sv port host last_s src
      else if matches_aliases (sv s) host then Some s
      else hostalias_loop sv port host (Some s) src)"

definition path_matches :: "cstring \<Rightarrow> cstring \<Rightarrow> bool" where
  "path_matches uri path \<longleftrightarrow> strneq uri path (length path) \<and>
     (path \<noteq> [] \<and> List.last path = CHR ''/'' \<or> cget uri (length path) = CHR ''/'' \<or> cget uri (length path) = NUL)"

fun serverpath_loop :: "(nat \<Rightarrow> server_rec) \<Rightarrow> 16 word \<Rightarrow> cstring \<Rightarrow> nat option \<Rightarrow> name_chain \<Rightarrow> nat option" where
  "serverpath_loop sv port uri last_s [] = None"
| "serverpath_loop sv port uri last_s ((sar, s) # src) =
     (if \<not> port_matches port sar then serverpath_loop sv port uri last_s src
      else if last_s = Some s then serverpath_loop sv port uri last_s src
      else if (case s_path (sv s) of Some path \<Rightarrow> path_matches uri path | None \<Rightarrow> False) then Some s
      else serverpath_loop sv port uri (Some s) src)"

definition use_server :: "nat option \<Rightarrow> req \<Rightarrow> req" where
  "use_server found r = (case found of Some s \<Rightarrow> r\<lparr>q_server := s\<rparr> | None \<Rightarrow> r)"

definition check_hostalias :: "(nat \<Rightarrow> server_rec) \<Rightarrow> conn \<Rightarrow> req \<Rightarrow> req" where
  "check_hostalias sv c r =
     use_server (hostalias_loop sv (sa_port (local_addr c)) (the (q_hostname r)) None (vhost_lookup_data c)) r"

definition check_serverpath :: "(nat \<Rightarrow> server_rec) \<Rightarrow> conn \<Rightarrow> req \<Rightarrow> req" where
  "check_serverpath sv c r =
     use_server (serverpath_loop sv (sa_port (local_addr c)) (q_uri r) None (vhost_lookup_data c)) r"

definition update_vhost_from_headers :: "(nat \<Rightarrow> server_rec) \<Rightarrow> conn \<Rightarrow> req \<Rightarrow> req" where
  "update_vhost_from_headers sv c r =
     (let r1 = (if q_hostname r = None then r\<lparr>q_hostname := table_get (q_headers_in r) (Some ''Host'')\<rparr> else r);
          r2 = (if q_hostname r1 \<noteq> None then fix_hostname r1 else r1)
      in if q_hostname r1 \<noteq> None \<and> q_status r2 \<noteq> HTTP_OK then r2
         else if vhost_lookup_data c \<noteq> [] then
           (if q_hostname r2 \<noteq> None then check_hostalias sv c r2 else check_serverpath sv c r2)
         else r2)"

text \<open>The callbacks of \<open>ap_vhost_iterate_given_conn\<close>, with their state.\<close>

fun iterate_loop :: "(nat \<Rightarrow> 'b \<Rightarrow> int \<times> 'b) \<Rightarrow> 16 word \<Rightarrow> nat option \<Rightarrow> int \<Rightarrow> name_chain \<Rightarrow> 'b \<Rightarrow> int \<times> 'b" where
  "iterate_loop func_cb port last_s rv [] baton = (rv, baton)"
| "iterate_loop func_cb port last_s rv ((sar, s) # src) baton =
     (if \<not> port_matches port sar then iterate_loop func_cb port last_s rv src baton
      else if last_s = Some s then iterate_loop func_cb port last_s rv src baton
      else
        (case func_cb s baton of (rv1, baton1) \<Rightarrow>
           if rv1 \<noteq> 0 then (rv1, baton1) else iterate_loop func_cb port (Some s) rv1 src baton1))"

definition vhost_iterate_given_conn :: "conn \<Rightarrow> (nat \<Rightarrow> 'b \<Rightarrow> int \<times> 'b) \<Rightarrow> 'b \<Rightarrow> int \<times> 'b" where
  "vhost_iterate_given_conn c func_cb baton =
     (if vhost_lookup_data c \<noteq> [] then iterate_loop func_cb (sa_port (local_addr c)) None 0 (vhost_lookup_data c) baton
      else func_cb (base_server c) baton)"


section \<open>The hash of the addresses\<close>

text \<open>The hash folds the last four bytes into one, so the byte order of the machine does not matter.\<close>

lemma hash_bytes: "hash_inaddr (be32 [a, b, c, d]) = unat (xor (xor a b) (xor c d))"
proof -
  let ?k0 = "be32 [a, b, c, d]"
  let ?k = "xor ?k0 (drop_bit 16 ?k0)"
  have "take_bit 8 (xor (drop_bit 8 ?k) ?k) = (ucast (xor (xor a b) (xor c d)) :: u32)"
  proof (rule bit_eqI)
    fix n assume "possible_bit TYPE(32 word) n"
    then have n: "n < 32" by simp
    show "bit (take_bit 8 (xor (drop_bit 8 ?k) ?k)) n = bit (ucast (xor (xor a b) (xor c d)) :: u32) n"
    proof (cases "n < 8")
      case True
      have B: "bit (be32 [a, b, c, d]) m = (if m < 8 then bit d m else if m < 16 then bit c (m - 8) else if m < 24 then bit b (m - 16) else bit a (m - 24))"
        if "m < 32" for m
        using that by (auto simp: be32_def bit_or_iff bit_push_bit_iff bit_ucast_iff dest: bit_imp_le_length)
      show ?thesis using True
        by (simp add: bit_take_bit_iff bit_xor_iff bit_drop_bit_eq bit_ucast_iff B) blast
    next
      case False
      then show ?thesis unfolding bit_take_bit_iff bit_ucast_iff by (auto dest: bit_imp_le_length)
    qed
  qed
  then have "unat (take_bit 8 (xor (drop_bit 8 ?k) ?k)) = unat (xor (xor a b) (xor c d))"
    by (simp only: unsigned_ucast_eq) (simp add: take_bit_nat_eq_self unsigned_less [THEN order_less_trans])
  then show ?thesis by (simp add: hash_inaddr_def IPHASH_TABLE_SIZE_def Let_def take_bit_eq_mod unat_mod)
qed

lemma iphash_less [simp]: "hash_addr sa < IPHASH_TABLE_SIZE"
  by (simp add: hash_addr_def hash_inaddr_def IPHASH_TABLE_SIZE_def Let_def)

lemma equal_hash: "addr_ok a \<Longrightarrow> addr_ok b \<Longrightarrow> sockaddr_equal a b \<Longrightarrow> hash_addr a = hash_addr b"
proof -
  have m: "hash_addr a = hash_addr b" if "addr_ok a" "addr_ok b" "V4MAPPED_EQUAL a b" for a b
    using that by (simp add: V4MAPPED_EQUAL_def addr_ok_def hash_addr_def)
  assume "addr_ok a" "addr_ok b" "sockaddr_equal a b"
  then show ?thesis using m [of a b] m [of b a] by (auto simp: sockaddr_equal_def hash_addr_def)
qed

section \<open>The tables without the hash\<close>

text \<open>
  The reference: one list of addresses, NameVirtualHosts in front of the others, \<open>t\<close> the place where virtual
  hosts go in, and the list of defaults.
\<close>

definition lin_add_name :: "server_addr \<Rightarrow> ipaddr_chain list \<times> ipaddr_chain list \<times> nat \<Rightarrow> ipaddr_chain list \<times> ipaddr_chain list \<times> nat" where
  "lin_add_name sar st =
     (case st of (L, dl, t) \<Rightarrow>
        if \<not> inaddr_any (host_addr sar) then (insert_at t (new_ipaddr_chain None sar) L, dl, t + 1)
        else (L, new_ipaddr_chain None sar # dl, t))"

definition lin_join :: "nat \<Rightarrow> server_addr \<Rightarrow> ipaddr_chain \<Rightarrow> ipaddr_chain" where
  "lin_join s sar ic = (case add_name_vhost_config s sar ic of Some ic1 \<Rightarrow> ic1 | None \<Rightarrow> ic\<lparr>ic_sar := sar, ic_server := Some s\<rparr>)"

definition lin_add_addr :: "nat \<Rightarrow> nat \<Rightarrow> server_addr \<Rightarrow> ipaddr_chain list \<times> ipaddr_chain list \<Rightarrow> ipaddr_chain list \<times> ipaddr_chain list" where
  "lin_add_addr t s sar st =
     (case st of (L, dl) \<Rightarrow>
        if is_default_addr sar then
          (L, case find_pos (\<lambda>trav. host_port (ic_sar trav) = 0 \<or> host_port (ic_sar trav) = host_port sar) dl of
                None \<Rightarrow> new_ipaddr_chain (Some s) sar # dl
              | Some i \<Rightarrow>
                  (case add_name_vhost_config s sar (dl ! i) of
                     Some ic \<Rightarrow> dl[i := ic] | None \<Rightarrow> new_ipaddr_chain (Some s) sar # dl))
        else
          (case find_pos (addr_matches (host_addr sar)) L of
             None \<Rightarrow> insert_at t (new_ipaddr_chain (Some s) sar) L
           | Some i \<Rightarrow> L[i := lin_join s sar (L ! i)], dl))"

definition lin_config :: "(nat \<Rightarrow> server_addr list) \<Rightarrow> server_addr list \<Rightarrow> nat list \<Rightarrow> ipaddr_chain list \<times> ipaddr_chain list" where
  "lin_config addrs names vs =
     (case fold lin_add_name names ([], [], 0) of
        (L, dl, t) \<Rightarrow>
          (case fold (\<lambda>s. fold (lin_add_addr t s) (addrs s)) vs (L, dl) of
             (L1, dl1) \<Rightarrow> (remove_unused_name_vhosts L1, remove_unused_name_vhosts dl1)))"

definition lin_given_ip :: "ipaddr_chain list \<times> ipaddr_chain list \<Rightarrow> conn \<Rightarrow> conn" where
  "lin_given_ip st c =
     (let use = (\<lambda>trav. c\<lparr>vhost_lookup_data := ic_names trav, base_server := the (ic_server trav)\<rparr>);
          port = sa_port (local_addr c)
      in case find (addr_matches (local_addr c)) (fst st) of
           Some trav \<Rightarrow> use trav
         | None \<Rightarrow>
             (case find (\<lambda>trav. host_port (ic_sar trav) = 0 \<or> host_port (ic_sar trav) = port) (snd st) of
                Some trav \<Rightarrow> use trav
              | None \<Rightarrow> c\<lparr>vhost_lookup_data := []\<rparr>))"

text \<open>Positions in a filtered list.\<close>

lemma find_pos_find: "find P xs = map_option ((!) xs) (find_pos P xs)"
  by (induction xs) (auto simp: option.map_comp comp_def)

lemma find_pos_less: "find_pos P xs = Some i \<Longrightarrow> i < length xs \<and> P (xs ! i)"
  by (induction xs arbitrary: i) (auto split: if_splits)

lemma find_pos_filter:
  "(\<And>x. x \<in> set xs \<Longrightarrow> P x \<Longrightarrow> Q x) \<Longrightarrow>
    find_pos P (filter Q xs) = map_option (\<lambda>i. length (filter Q (take i xs))) (find_pos P xs)"
  by (induction xs) (auto simp: option.map_comp comp_def)

lemma nth_filter: "i < length xs \<Longrightarrow> Q (xs ! i) \<Longrightarrow> filter Q xs ! length (filter Q (take i xs)) = xs ! i"
proof -
  assume i: "i < length xs" "Q (xs ! i)"
  have "filter Q xs = filter Q (take i xs) @ filter Q (xs ! i # drop (Suc i) xs)"
    using i(1) by (metis filter_append id_take_nth_drop)
  then show ?thesis using i by simp
qed

lemma filter_update:
  assumes "i < length xs" "Q (xs ! i) = Q y"
  shows "filter Q (xs[i := y]) = (if Q y then (filter Q xs)[length (filter Q (take i xs)) := y] else filter Q xs)"
proof -
  have "filter Q xs = filter Q (take i xs) @ filter Q (xs ! i # drop (Suc i) xs)"
    using assms(1) by (metis filter_append id_take_nth_drop)
  moreover have "filter Q (xs[i := y]) = filter Q (take i xs) @ filter Q (y # drop (Suc i) xs)"
    using assms(1) by (simp add: upd_conv_take_nth_drop)
  ultimately show ?thesis using assms(2) by simp
qed

lemma filter_insert:
  "filter Q (insert_at t x xs) = (if Q x then insert_at (length (filter Q (take t xs))) x (filter Q xs) else filter Q xs)"
proof -
  have "filter Q xs = filter Q (take t xs) @ filter Q (drop t xs)" by (metis append_take_drop_id filter_append)
  then show ?thesis by (simp add: insert_at_def)
qed


section \<open>The hash table is the list\<close>

definition in_bucket :: "nat \<Rightarrow> ipaddr_chain \<Rightarrow> bool" where
  "in_bucket b ic \<longleftrightarrow> hash_addr (host_addr (ic_sar ic)) = b"

definition lin_rel :: "vhosts \<Rightarrow> nat list \<Rightarrow> ipaddr_chain list \<Rightarrow> ipaddr_chain list \<Rightarrow> nat \<Rightarrow> bool" where
  "lin_rel v tails L dl t \<longleftrightarrow> default_list v = dl \<and> length (iphash_table v) = IPHASH_TABLE_SIZE \<and> length tails = IPHASH_TABLE_SIZE \<and>
     t \<le> length L \<and> (\<forall>ic\<in>set L. addr_ok (host_addr (ic_sar ic))) \<and>
     (\<forall>b<IPHASH_TABLE_SIZE. iphash_table v ! b = filter (in_bucket b) L \<and> tails ! b = length (filter (in_bucket b) (take t L)))"

lemma new_chain_simps [simp]: "ic_sar (new_ipaddr_chain s sar) = sar" "ic_server (new_ipaddr_chain s sar) = s"
  by (simp_all add: new_ipaddr_chain_def)

lemma insert_at_set [simp]: "set (insert_at t x xs) = insert x (set xs)"
  unfolding insert_at_def by (metis Un_insert_right append_take_drop_id list.simps(15) set_append)

lemma insert_at_take: "t \<le> length xs \<Longrightarrow> take t (insert_at t x xs) = take t xs" "t \<le> length xs \<Longrightarrow> take (Suc t) (insert_at t x xs) = take t xs @ [x]"
  "t \<le> length xs \<Longrightarrow> length (insert_at t x xs) = Suc (length xs)"
  by (simp_all add: insert_at_def)

lemma rel_add_name:
  assumes R: "lin_rel v tails L dl t" and ok: "addr_ok (host_addr sar)"
  shows "case (add_name_vhost sar (v, tails), lin_add_name sar (L, dl, t)) of ((v', tails'), (L', dl', t')) \<Rightarrow> lin_rel v' tails' L' dl' t'"
proof -
  let ?b = "hash_addr (host_addr sar)"
  have r: "\<And>b. b < IPHASH_TABLE_SIZE \<Longrightarrow> iphash_table v ! b = filter (in_bucket b) L" "\<And>b. b < IPHASH_TABLE_SIZE \<Longrightarrow> tails ! b = length (filter (in_bucket b) (take t L))"
    "t \<le> length L" "length (iphash_table v) = IPHASH_TABLE_SIZE" "length tails = IPHASH_TABLE_SIZE" using R by (simp_all add: lin_rel_def)
  show ?thesis
  proof (cases "inaddr_any (host_addr sar)")
    case True
    then show ?thesis using R by (simp add: add_name_vhost_def lin_add_name_def lin_rel_def Let_def)
  next
    case False
    have "(iphash_table v)[?b := insert_at (tails ! ?b) (new_ipaddr_chain None sar) (iphash_table v ! ?b)] ! b =
        filter (in_bucket b) (insert_at t (new_ipaddr_chain None sar) L)" if "b < IPHASH_TABLE_SIZE" for b
      using r that by (auto simp: filter_insert in_bucket_def nth_list_update)
    moreover have "tails[?b := tails ! ?b + 1] ! b = length (filter (in_bucket b) (take (t + 1) (insert_at t (new_ipaddr_chain None sar) L)))"
      if "b < IPHASH_TABLE_SIZE" for b
      using r that by (auto simp: insert_at_take in_bucket_def nth_list_update)
    ultimately show ?thesis using False R ok r(3-5)
      by (simp add: add_name_vhost_def lin_add_name_def lin_rel_def Let_def insert_at_take)
  qed
qed

lemma rel_find:
  assumes R: "lin_rel v tails L dl t" and ok: "addr_ok sa"
  shows "find_ipaddr v sa =
    map_option (\<lambda>i. (hash_addr sa, length (filter (in_bucket (hash_addr sa)) (take i L)))) (find_pos (addr_matches sa) L)"
    and "find_pos (addr_matches sa) L = Some i \<Longrightarrow> i < length L \<and> in_bucket (hash_addr sa) (L ! i) \<and>
      iphash_table v ! hash_addr sa ! length (filter (in_bucket (hash_addr sa)) (take i L)) = L ! i"
proof -
  have m: "in_bucket (hash_addr sa) ic" if "ic \<in> set L" "addr_matches sa ic" for ic
    using that R ok equal_hash [of "host_addr (ic_sar ic)" sa] by (auto simp: lin_rel_def in_bucket_def addr_matches_def Let_def)
  show "find_ipaddr v sa = map_option (\<lambda>i. (hash_addr sa, length (filter (in_bucket (hash_addr sa)) (take i L)))) (find_pos (addr_matches sa) L)"
    using R find_pos_filter [of L "addr_matches sa" "in_bucket (hash_addr sa)"] m
    by (simp add: find_ipaddr_def lin_rel_def option.map_comp comp_def Let_def)
  assume i: "find_pos (addr_matches sa) L = Some i"
  then have "i < length L" "addr_matches sa (L ! i)" using find_pos_less by blast+
  then show "i < length L \<and> in_bucket (hash_addr sa) (L ! i) \<and>
      iphash_table v ! hash_addr sa ! length (filter (in_bucket (hash_addr sa)) (take i L)) = L ! i"
    using R m [of "L ! i"] nth_filter [of i L "in_bucket (hash_addr sa)"] by (simp add: lin_rel_def)
qed

lemma rel_add_addr:
  assumes R: "lin_rel v tails L dl t" and ok: "addr_ok (host_addr sar)"
  shows "case lin_add_addr t s sar (L, dl) of (L', dl') \<Rightarrow> lin_rel (add_vhost_addr tails s sar v) tails L' dl' t"
proof (cases "is_default_addr sar")
  case True
  then show ?thesis using R
    by (auto simp: add_vhost_addr_def lin_add_addr_def lin_rel_def find_default_server_def Let_def split: option.split)
next
  case False
  let ?b = "hash_addr (host_addr sar)" let ?Q = "in_bucket ?b"
  have r: "\<And>b. b < IPHASH_TABLE_SIZE \<Longrightarrow> iphash_table v ! b = filter (in_bucket b) L" "\<And>b. b < IPHASH_TABLE_SIZE \<Longrightarrow> tails ! b = length (filter (in_bucket b) (take t L))"
    "t \<le> length L" "length (iphash_table v) = IPHASH_TABLE_SIZE" using R by (simp_all add: lin_rel_def)
  show ?thesis
  proof (cases "find_pos (addr_matches (host_addr sar)) L")
    case None
    let ?ic = "new_ipaddr_chain (Some s) sar"
    have "(iphash_table v)[?b := insert_at (tails ! ?b) ?ic (iphash_table v ! ?b)] ! b = filter (in_bucket b) (insert_at t ?ic L)"
      if "b < IPHASH_TABLE_SIZE" for b
      using r that by (auto simp: filter_insert in_bucket_def nth_list_update)
    then show ?thesis using False None R ok rel_find(1) [OF R ok] r(3)
      by (simp add: add_vhost_addr_def lin_add_addr_def lin_rel_def Let_def insert_at_take)
  next
    case (Some i)
    note F = rel_find(2) [OF R ok Some]
    let ?ic = "lin_join s sar (L ! i)" let ?j = "length (filter ?Q (take i L))"
    have hash: "in_bucket ?b ?ic" using F by (auto simp: lin_join_def add_name_vhost_config_def in_bucket_def)
    have ok1: "addr_ok (host_addr (ic_sar ?ic))" using F R ok nth_mem [of i L] by (auto simp: lin_join_def add_name_vhost_config_def lin_rel_def)
    have "(iphash_table v)[?b := (iphash_table v ! ?b)[?j := ?ic]] ! b = filter (in_bucket b) (L[i := ?ic])" if "b < IPHASH_TABLE_SIZE" for b
    proof (cases "b = ?b")
      case True
      then show ?thesis using r that F hash filter_update [of i L ?Q ?ic] by simp
    next
      case False
      then have "\<not> in_bucket b (L ! i)" "\<not> in_bucket b ?ic" using F hash by (auto simp: in_bucket_def)
      then show ?thesis using False r that F filter_update [of i L "in_bucket b" ?ic] by simp
    qed
    moreover have "length (filter (in_bucket b) (take t (L[i := ?ic]))) = length (filter (in_bucket b) (take t L))" for b
    proof (cases "i < t")
      case True
      have "in_bucket b (take t L ! i) = in_bucket b ?ic" using F hash True by (auto simp: in_bucket_def)
      then show ?thesis using True r(3) filter_update [of i "take t L" "in_bucket b" ?ic] by (simp add: take_update_swap)
    next
      case False
      then show ?thesis by simp
    qed
    moreover have "\<forall>ic\<in>set (L[i := ?ic]). addr_ok (host_addr (ic_sar ic))"
      using R ok1 set_update_subset_insert [of L i ?ic] by (auto simp: lin_rel_def)
    moreover have "add_vhost_addr tails s sar v = v\<lparr>iphash_table := (iphash_table v)[?b := (iphash_table v ! ?b)[?j := ?ic]]\<rparr>"
    proof -
      have "iphash_table v ! ?b ! ?j = L ! i" using F by blast
      then show ?thesis using False Some rel_find(1) [OF R ok]
        by (simp add: add_vhost_addr_def lin_join_def Let_def cong: option.case_cong)
    qed
    ultimately show ?thesis using False Some R by (simp add: lin_add_addr_def lin_rel_def)
  qed
qed


lemma rel_names:
  assumes "lin_rel v tails L dl t" "\<forall>sar\<in>set names. addr_ok (host_addr sar)"
  shows "case (fold add_name_vhost names (v, tails), fold lin_add_name names (L, dl, t)) of
    ((v', tails'), (L', dl', t')) \<Rightarrow> lin_rel v' tails' L' dl' t'"
  using assms
proof (induction names arbitrary: v tails L dl t)
  case (Cons sar names)
  obtain v1 tails1 L1 dl1 t1 where s: "add_name_vhost sar (v, tails) = (v1, tails1)" "lin_add_name sar (L, dl, t) = (L1, dl1, t1)"
    by (metis prod_cases3 surj_pair)
  then show ?case using rel_add_name [OF Cons.prems(1), of sar] Cons.prems(2) Cons.IH [of v1 tails1 L1 dl1 t1] by simp
qed simp

lemma rel_addrs:
  assumes "lin_rel v tails L dl t" "\<forall>sar\<in>set as. addr_ok (host_addr sar)"
  shows "case fold (lin_add_addr t s) as (L, dl) of (L', dl') \<Rightarrow> lin_rel (fold (add_vhost_addr tails s) as v) tails L' dl' t"
  using assms
proof (induction as arbitrary: v L dl)
  case (Cons sar as)
  obtain L1 dl1 where s: "lin_add_addr t s sar (L, dl) = (L1, dl1)" by fastforce
  then show ?case using rel_add_addr [OF Cons.prems(1), of sar s] Cons.prems(2) Cons.IH [of "add_vhost_addr tails s sar v" L1 dl1] by simp
qed simp

lemma named_addrs [simp]: "s_addrs (name_server nameinfo m s) = s_addrs s"
  by (simp add: name_server_def split: list.split option.split)

lemma rel_vhosts:
  assumes "lin_rel v tails L dl t" "\<forall>s. \<forall>sar\<in>set (s_addrs (sv s)). addr_ok (host_addr sar)"
  shows "case fold (\<lambda>s. fold (lin_add_addr t s) (s_addrs (sv s))) vs (L, dl) of
    (L', dl') \<Rightarrow> lin_rel (snd (fold (add_vhost nameinfo tails m) vs (sv, v))) tails L' dl' t"
  using assms
proof (induction vs arbitrary: v L dl sv)
  case (Cons s vs)
  obtain L1 dl1 where s: "fold (lin_add_addr t s) (s_addrs (sv s)) (L, dl) = (L1, dl1)" by fastforce
  let ?sv1 = "sv(s := name_server nameinfo (sv m) (sv s))"
  have a: "s_addrs (?sv1 x) = s_addrs (sv x)" for x by simp
  have R1: "lin_rel (fold (add_vhost_addr tails s) (s_addrs (sv s)) v) tails L1 dl1 t"
    using rel_addrs [OF Cons.prems(1), of "s_addrs (sv s)" s] Cons.prems(2) s by simp
  show ?case using Cons.IH [OF R1, of ?sv1] Cons.prems(2) s unfolding a by (simp add: add_vhost_def del: fun_upd_apply)
qed simp

lemma rel_init: "lin_rel (init_vhost_config\<lparr>name_vhost_list := names\<rparr>) (replicate IPHASH_TABLE_SIZE 0) [] [] 0"
  by (simp add: lin_rel_def init_vhost_config_def)

text \<open>Taking out the addresses that no server uses.\<close>


lemma rel_remove:
  assumes "lin_rel v tails L dl t"
  shows "lin_rel (v\<lparr>iphash_table := map remove_unused_name_vhosts (iphash_table v), default_list := remove_unused_name_vhosts (default_list v)\<rparr>)
    (replicate IPHASH_TABLE_SIZE 0) (remove_unused_name_vhosts L) (remove_unused_name_vhosts dl) 0"
  using assms by (auto simp: lin_rel_def remove_unused_name_vhosts_def conj_commute)

lemma rel_given:
  assumes R: "lin_rel v tails L dl t" and ok: "addr_ok (local_addr c)"
  shows "update_vhost_given_ip v c = lin_given_ip (L, dl) c"
proof (cases "find_pos (addr_matches (local_addr c)) L")
  case None
  then show ?thesis using rel_find(1) [OF R ok] R
    by (simp add: update_vhost_given_ip_def lin_given_ip_def find_pos_find find_default_server_def lin_rel_def Let_def split: option.split)
next
  case (Some i)
  then show ?thesis using rel_find [OF R ok] by (simp add: update_vhost_given_ip_def lin_given_ip_def find_pos_find Let_def)
qed

definition addrs_ok :: "server_addr list \<Rightarrow> bool" where
  "addrs_ok as \<longleftrightarrow> list_all (\<lambda>sar. addr_ok (host_addr sar)) as"

text \<open>C6. The tables that \<open>ap_fini_vhost_config\<close> compiles are right: the choice of the server for a connection through
  the hash table of addresses, with its tails and its chains of names, is the choice through one list in the order
  of the configuration, whatever the hash function puts together, IPv4-mapped addresses among them.\<close>

theorem connection_server:
  assumes "addrs_ok names" "\<And>s. addrs_ok (s_addrs (sv s))" "addr_ok (local_addr c)"
  shows "update_vhost_given_ip (snd (fini_vhost_config nameinfo local_host m vs (sv, init_vhost_config\<lparr>name_vhost_list := names\<rparr>))) c =
    lin_given_ip (lin_config (\<lambda>s. s_addrs (sv s)) names vs) c"
proof -
  let ?v0 = "init_vhost_config\<lparr>name_vhost_list := names\<rparr>" let ?t0 = "replicate IPHASH_TABLE_SIZE 0"
  define sv1 where "sv1 = (if server_hostname (sv m) = None then sv(m := (sv m)\<lparr>server_hostname := Some local_host\<rparr>) else sv)"
  have a: "s_addrs (sv1 s) = s_addrs (sv s)" for s by (simp add: sv1_def)
  obtain v1 tails L dl t where n: "fold add_name_vhost names (?v0, ?t0) = (v1, tails)" "fold lin_add_name names ([], [], 0) = (L, dl, t)"
    by (metis prod_cases3 surj_pair)
  obtain sv2 v2 where f: "fold (add_vhost nameinfo tails m) vs (sv1, v1) = (sv2, v2)" by fastforce
  obtain L1 dl1 where l: "fold (\<lambda>s. fold (lin_add_addr t s) (s_addrs (sv s))) vs (L, dl) = (L1, dl1)" by fastforce
  have "lin_rel v1 tails L dl t" using rel_names [OF rel_init, of names names] assms(1) n by (simp add: addrs_ok_def list_all_iff)
  then have "lin_rel v2 tails L1 dl1 t"
    using rel_vhosts [where v = v1 and tails = tails and L = L and dl = dl and t = t and sv = sv1 and vs = vs and nameinfo = nameinfo and m = m] assms(2) f l by (simp add: a addrs_ok_def list_all_iff)
  from rel_given [OF rel_remove [OF this] assms(3)] show ?thesis
    using n f l by (simp add: fini_vhost_config_def lin_config_def init_vhost_config_def sv1_def [symmetric])
qed


section \<open>The server of a request\<close>

lemma hostalias_find:
  "(\<And>s0. last_s = Some s0 \<Longrightarrow> \<not> matches_aliases (sv s0) host) \<Longrightarrow>
    hostalias_loop sv port host last_s src =
      map_option snd (find (\<lambda>(sar, s). port_matches port sar \<and> (strcaseeq host (virthost sar) \<or> matches_aliases (sv s) host)) src)"
  by (induction sv port host last_s src rule: hostalias_loop.induct) auto

lemma serverpath_find:
  "(\<And>s0. last_s = Some s0 \<Longrightarrow> \<not> (case s_path (sv s0) of Some path \<Rightarrow> path_matches uri path | None \<Rightarrow> False)) \<Longrightarrow>
    serverpath_loop sv port uri last_s src =
      map_option snd (find (\<lambda>(sar, s). port_matches port sar \<and> (case s_path (sv s) of Some path \<Rightarrow> path_matches uri path | None \<Rightarrow> False)) src)"
  by (induction sv port uri last_s src rule: serverpath_loop.induct) auto

text \<open>C21. The server of a request with a host is the first in the chain of its address, with a right port, whose
  address or a name of which is that host; the loop that skips the repeated entries of a server misses none.\<close>

theorem request_server:
  assumes "q_hostname r = Some host"
  shows "check_hostalias sv c r =
    (case find (\<lambda>(sar, s). port_matches (sa_port (local_addr c)) sar \<and> (strcaseeq host (virthost sar) \<or> matches_aliases (sv s) host))
        (vhost_lookup_data c) of
       Some (sar, s) \<Rightarrow> r\<lparr>q_server := s\<rparr> | None \<Rightarrow> r)"
  using assms hostalias_find [of None sv host "sa_port (local_addr c)" "vhost_lookup_data c"]
  by (auto simp: check_hostalias_def use_server_def split: option.split)

section \<open>The host of a request\<close>

fun no_dotdot :: "cstring \<Rightarrow> bool" where
  "no_dotdot [] \<longleftrightarrow> True"
| "no_dotdot (c # s) \<longleftrightarrow> \<not> (c = CHR ''.'' \<and> cget s 0 = CHR ''.'') \<and> no_dotdot s"

definition safe_hostname :: "cstring \<Rightarrow> bool" where
  "safe_hostname h \<longleftrightarrow> CHR ''/'' \<notin> set h \<and> BSLASH \<notin> set h \<and> no_dotdot h"

lemma no_dotdot_append: "no_dotdot (a @ b) \<Longrightarrow> no_dotdot a \<and> no_dotdot b"
proof (induction a)
  case (Cons c a)
  then show ?case by (cases a) auto
qed simp

lemma no_dotdot_split: "(\<And>a b. s \<noteq> a @ ''..'' @ b) \<Longrightarrow> no_dotdot s"
proof (induction s)
  case (Cons c s)
  have "s \<noteq> a @ ''..'' @ b" for a b using Cons.prems [of "c # a" b] by simp
  moreover have "\<not> (c = CHR ''.'' \<and> cget s 0 = CHR ''.'')" using Cons.prems [of "[]" "tl s"] by (cases s) auto
  ultimately show ?case using Cons.IH by simp
qed simp

lemma lower_of_upper: "c_isupper d \<Longrightarrow> c_islower (c_tolower d)"
  by (auto simp: c_tolower_def c_isupper_def c_islower_def ccode_def)

lemma scan_hostname_safe: "scan_hostname s = Some h \<Longrightarrow> safe_hostname h \<and> (cget h 0 = CHR ''.'' \<longrightarrow> cget s 0 = CHR ''.'')"
proof (induction s arbitrary: h)
  case Nil
  then show ?case by (simp add: safe_hostname_def)
next
  case (Cons c s)
  have p: "c_islower d \<Longrightarrow> d \<noteq> CHR ''/'' \<and> d \<noteq> BSLASH \<and> d \<noteq> CHR ''.''" for d
    by (auto simp: c_islower_def ccode_def)
  obtain h' where h': "scan_hostname s = Some h'" using Cons.prems by (auto split: if_splits)
  from Cons.IH [OF h'] have ih: "safe_hostname h'" "cget h' 0 = CHR ''.'' \<Longrightarrow> cget s 0 = CHR ''.''" by blast+
  have "h = c # h' \<and> c \<noteq> CHR ''/'' \<and> c \<noteq> BSLASH \<and> (c = CHR ''.'' \<longrightarrow> cget s 0 \<noteq> CHR ''.'') \<or> c_isupper c \<and> h = c_tolower c # h'"
    using Cons.prems h' p [of c] by (auto split: if_splits)
  then show ?case using ih p [of "c_tolower c"] lower_of_upper [of c] unfolding safe_hostname_def by auto
qed

lemma pton6_loop_safe:
  "pton6_loop src curtok tmp colonp saw val = Some q \<Longrightarrow> \<exists>pre. curtok = pre @ src \<Longrightarrow>
    list_all (\<lambda>c. c_isxdigit c \<or> c = CHR '':'' \<or> c = CHR ''.'') src \<and> no_dotdot src"
proof (induction src curtok tmp colonp saw val rule: pton6_loop.induct)
  case (2 ch src curtok tmp colonp saw val)
  have x: "c_isxdigit d \<Longrightarrow> d \<noteq> CHR ''.''" for d by (auto simp: c_isxdigit_def ccode_def)
  show ?case
  proof (cases "c_isxdigit ch \<or> ch = CHR '':''")
    case True
    obtain pre where "curtok = pre @ ch # src" using "2.prems"(2) by blast
    then have "\<exists>pre. curtok = pre @ src" by (metis append.assoc append_Cons append_Nil)
    then have "list_all (\<lambda>c. c_isxdigit c \<or> c = CHR '':'' \<or> c = CHR ''.'') src \<and> no_dotdot src"
      using 2 True by (auto simp: Let_def split: if_splits)
    then show ?thesis using True x [of ch] by auto
  next
    case False
    obtain pre where pre: "curtok = pre @ ch # src" using "2.prems"(2) by blast
    from False "2.prems"(1) have c: "ch = CHR ''.''" "inet_pton4 curtok \<noteq> None" by (auto split: if_splits option.splits)
    then obtain q where "pton4_loop curtok False 0 [] 0 = Some q" by (auto simp: inet_pton4_def)
    from pton4_loop_chars [OF this] have "list_all (\<lambda>c. c_isdigit c \<or> c = CHR ''.'') curtok" "no_dotdot curtok"
      using no_dotdot_split by blast+
    then show ?thesis using pre no_dotdot_append [of pre "ch # src"]
      by (auto simp: list_all_iff c_isxdigit_def c_isdigit_def)
  qed
qed simp

lemma inet_pton6_chars:
  "inet_pton6 s \<noteq> None \<Longrightarrow> list_all (\<lambda>c. c_isxdigit c \<or> c = CHR '':'' \<or> c = CHR ''.'') s \<and> no_dotdot s"
proof -
  assume s: "inet_pton6 s \<noteq> None"
  define t where "t = (if cget s 0 = CHR '':'' then tl s else s)"
  have "pton6_loop t t [] None False 0 \<noteq> None" using s by (auto simp: inet_pton6_def t_def Let_def split: if_splits option.splits)
  then obtain q where "pton6_loop t t [] None False 0 = Some q" by blast
  from pton6_loop_safe [OF this] have t: "list_all (\<lambda>c. c_isxdigit c \<or> c = CHR '':'' \<or> c = CHR ''.'') t" "no_dotdot t" by auto
  have "s = t \<or> s = CHR '':'' # t" by (cases s) (auto simp: t_def)
  then show ?thesis using t by auto
qed

lemma inet_pton6_safe: "inet_pton6 s \<noteq> None \<Longrightarrow> safe_hostname s"
proof -
  assume "inet_pton6 s \<noteq> None"
  moreover have "\<not> c_isxdigit (CHR ''/'')" "\<not> c_isxdigit BSLASH" by (simp_all add: c_isxdigit_def c_isdigit_def ccode_def)
  ultimately show ?thesis using inet_pton6_chars [of s] by (auto simp: safe_hostname_def list_all_iff)
qed

text \<open>In brackets the host is a numeric address.\<close>

lemma bracket_parse_host: "parse_host str port0 = Some (Some host, None, port) \<Longrightarrow> cget str 0 = CHR ''['' \<Longrightarrow> inet_pton6 host \<noteq> None"
  by (auto simp: parse_host_def Let_def split: option.splits if_splits)

lemma bracket_host:
  assumes "parse_addr_port name = Some (Some host, None, port)" "cget name 0 = CHR ''[''"
  shows "inet_pton6 host \<noteq> None"
proof -
  let ?ahead = "rev (dropWhile c_isdigit (rev name))"
  have n: "name = ?ahead @ rev (takeWhile c_isdigit (rev name))"
    by (metis rev_append rev_rev_ident takeWhile_dropWhile_id)
  have a: "?ahead \<noteq> []" using assms(1) by (auto simp: parse_addr_port_def Let_def simp del: rev_is_Nil_conv dropWhile_eq_Nil_conv split: if_splits)
  have front: "cget (ah @ ds) 0 = cget ah 0" "length ah \<noteq> 1 \<Longrightarrow> cget (butlast ah) 0 = cget ah 0" if "ah \<noteq> []" for ah ds
    using that by (cases ah; cases "tl ah"; simp)+
  have "cget ?ahead 0 = CHR ''[''" using front(1) [OF a] n assms(2) by metis
  then have "cget (butlast ?ahead) 0 = CHR ''[''" if "length ?ahead \<noteq> 1" using front(2) [OF a that] by simp
  moreover have "parse_host name 0 = Some (Some host, None, port) \<or>
      length ?ahead \<noteq> 1 \<and> (\<exists>p. parse_host (butlast ?ahead) p = Some (Some host, None, port))"
    using assms(1) a unfolding parse_addr_port_def Let_def by (auto split: if_splits simp del: rev_is_Nil_conv dropWhile_eq_Nil_conv)
  ultimately show ?thesis using bracket_parse_host assms(2) by blast
qed

lemma fix_hostname_safe:
  assumes "q_hostname r = Some name" "q_status (fix_hostname r) = HTTP_OK"
  shows "\<exists>h. q_hostname (fix_hostname r) = Some h \<and> safe_hostname h"
proof (cases "list_all c_isdigit name")
  case True
  have d: "c_isdigit d \<Longrightarrow> d \<noteq> CHR ''/'' \<and> d \<noteq> BSLASH \<and> d \<noteq> CHR ''.''" for d by (auto simp: c_isdigit_def ccode_def)
  have "no_dotdot name" using True d by (induction name) auto
  then show ?thesis using True assms(1) d by (auto simp: fix_hostname_def safe_hostname_def list_all_iff)
next
  case False
  have bad: "HTTP_BAD_REQUEST \<noteq> HTTP_OK" by (simp add: HTTP_OK_def)
  obtain host port where p: "parse_addr_port name = Some (Some host, None, port)"
    using assms False bad by (auto simp: fix_hostname_def Let_def split: option.splits)
  show ?thesis
  proof (cases "cget name 0 = CHR ''[''")
    case True
    then show ?thesis using assms False p inet_pton6_safe [OF bracket_host [OF p]] by (auto simp: fix_hostname_def Let_def)
  next
    case br: False
    obtain h where h: "scan_hostname host = Some h"
      using assms False p br bad by (auto simp: fix_hostname_def Let_def split: option.splits)
    have "safe_hostname h" using scan_hostname_safe [OF h] by blast
    moreover from this have "safe_hostname (butlast h)" if "h \<noteq> []"
      using that no_dotdot_append [of "butlast h" "[List.last h]"] by (auto simp: safe_hostname_def dest: in_set_butlastD)
    ultimately show ?thesis using assms(1) False p br h by (auto simp: fix_hostname_def Let_def)
  qed
qed

lemma fix_hostname_keeps: "q_hostname (fix_hostname r) = None \<longleftrightarrow> q_hostname r = None"
  "q_headers_in (fix_hostname r) = q_headers_in r" "q_proto_num (fix_hostname r) = q_proto_num r"
  by (simp_all add: fix_hostname_def Let_def split: option.split)

lemma use_server_keeps [simp]: "q_hostname (use_server f r) = q_hostname r" "q_headers_in (use_server f r) = q_headers_in r"
  "q_proto_num (use_server f r) = q_proto_num r" "q_status (use_server f r) = q_status r"
  by (simp_all add: use_server_def split: option.split)

lemma vhost_keeps_reading: "keeps_reading (update_vhost_from_headers sv c)"
  by (auto simp: keeps_reading_def update_vhost_from_headers_def check_hostalias_def check_serverpath_def fix_hostname_keeps Let_def)

lemma vhost_hostname:
  assumes "q_status (update_vhost_from_headers sv c r) = HTTP_OK" "q_hostname (update_vhost_from_headers sv c r) = Some h"
  shows "safe_hostname h"
proof -
  define r1 where "r1 = (if q_hostname r = None then r\<lparr>q_hostname := table_get (q_headers_in r) (Some ''Host'')\<rparr> else r)"
  have u: "q_hostname (update_vhost_from_headers sv c r) = q_hostname (if q_hostname r1 \<noteq> None then fix_hostname r1 else r1)"
    "q_status (update_vhost_from_headers sv c r) = q_status (if q_hostname r1 \<noteq> None then fix_hostname r1 else r1)"
    by (simp_all add: update_vhost_from_headers_def r1_def [symmetric] Let_def check_hostalias_def check_serverpath_def)
  then obtain name where "q_hostname r1 = Some name" using assms(2) by (cases "q_hostname r1") auto
  from fix_hostname_safe [OF this] show ?thesis using u assms \<open>q_hostname r1 = Some name\<close> by auto
qed

text \<open>C7. The host of a request that \<open>ap_read_request\<close> accepts, from the URI or the Host field, whatever the client
  sent, names no path: it has neither slash nor backslash nor two dots in a row, so that it can be a part of the name of a file.\<close>

theorem accepted_hostname:
  assumes "read_request get srv (update_vhost_from_headers sv c) post_read any net = Some (GotRequest r, net1)"
    and "\<And>r. q_hostname (snd (post_read r)) = q_hostname r" "q_hostname r = Some h"
  shows "CHR ''/'' \<notin> set h \<and> BSLASH \<notin> set h \<and> no_dotdot h"
proof -
  obtain r0 where c: "check_request (update_vhost_from_headers sv c) post_read r0 = GotRequest r"
    using assms(1) by (auto simp: read_request_def split: option.splits prod.splits if_splits)
  define r1 where "r1 = update_vhost_from_headers sv c r0"
  obtain a r3 where p: "post_read r1 = (a, r3)" by (cases "post_read r1")
  have l: "\<not> lacks_host r1" "q_status r1 = HTTP_OK"
    using c by (auto simp: check_request_def r1_def [symmetric] HTTP_OK_def Let_def split: if_splits)
  have "q_hostname r = q_hostname r3"
    using c p l by (auto simp: check_request_def r1_def [symmetric] Let_def split: if_splits option.splits)
  then have "q_hostname r1 = Some h" using assms(2) [of r1] assms(3) p by simp
  then show ?thesis using vhost_hostname l(2) unfolding r1_def safe_hostname_def by blast
qed

section \<open>Examples\<close>

definition sample_addr :: sockaddr where
  "sample_addr = \<lparr>sa_family = AF_INET, sa_port = 80, ipaddr = [10, 0, 0, 1]\<rparr>"

definition sample_server :: "cstring \<Rightarrow> server_rec" where
  "sample_server name = \<lparr>server_hostname = Some name, s_port = 80,
     s_addrs = [\<lparr>host_addr = sample_addr, host_port = 80, virthost = ''10.0.0.1''\<rparr>], s_path = None, s_names = [], s_wild_names = []\<rparr>"

definition sample_servers :: "nat \<Rightarrow> server_rec" where
  "sample_servers n = (if n = 1 then sample_server ''a.org'' else if n = 2 then sample_server ''b.org'' else (sample_server ''m.org'')\<lparr>s_addrs := []\<rparr>)"

definition sample_names :: "server_addr list" where
  "sample_names = s_addrs (sample_server [])"

text \<open>A client that has come in over an IPv6 socket.\<close>

definition sample_conn :: conn where
  "sample_conn = \<lparr>local_addr = \<lparr>sa_family = AF_INET6, sa_port = 80, ipaddr = [0, 0, 0, 0, 0, 0, 0, 0, 0, 0, 0xff, 0xff, 10, 0, 0, 1]\<rparr>,
     vhost_lookup_data = [], base_server = 0\<rparr>"

theorem connection_server_witness:
  "update_vhost_given_ip (snd (fini_vhost_config (\<lambda>_. None) ''h'' 0 [1, 2] (sample_servers, init_vhost_config\<lparr>name_vhost_list := sample_names\<rparr>))) sample_conn =
    sample_conn\<lparr>vhost_lookup_data := [(hd sample_names, 2), (hd sample_names, 1)], base_server := 2\<rparr>"
proof -
  have ok: "addrs_ok sample_names" "\<And>s. addrs_ok (s_addrs (sample_servers s))" "addr_ok (local_addr sample_conn)"
    by (auto simp: addrs_ok_def addr_ok_def sample_names_def sample_servers_def sample_server_def sample_addr_def sample_conn_def)
  have "lin_given_ip (lin_config (\<lambda>s. s_addrs (sample_servers s)) sample_names [1, 2]) sample_conn =
      sample_conn\<lparr>vhost_lookup_data := [(hd sample_names, 2), (hd sample_names, 1)], base_server := 2\<rparr>" by code_simp
  with connection_server [OF ok, where nameinfo = "\<lambda>_. None" and local_host = "''h''" and m = 0 and vs = "[1, 2]"] show ?thesis by simp
qed

theorem request_server_witness:
  "check_hostalias sample_servers (sample_conn\<lparr>vhost_lookup_data := [(hd sample_names, 2), (hd sample_names, 1)]\<rparr>)
     ((new_req sample_srv (\<lambda>_. 0))\<lparr>q_hostname := Some ''A.org''\<rparr>) = (new_req sample_srv (\<lambda>_. 0))\<lparr>q_hostname := Some ''A.org'', q_server := 1\<rparr>"
proof -
  let ?sn = "hd sample_names"
  have "find (\<lambda>(sar, s). port_matches (sa_port (local_addr sample_conn)) sar \<and> (strcaseeq ''A.org'' (virthost sar) \<or> matches_aliases (sample_servers s) ''A.org''))
      [(?sn, 2), (?sn, 1)] = Some (?sn, 1)" by code_simp
  then show ?thesis
    using request_server [of "(new_req sample_srv (\<lambda>_. 0))\<lparr>q_hostname := Some ''A.org''\<rparr>" "''A.org''" sample_servers
        "sample_conn\<lparr>vhost_lookup_data := [(?sn, 2), (?sn, 1)]\<rparr>"] by simp
qed

theorem accepted_hostname_witness:
  "\<exists>r net'. read_request (core_input_filter NUL) sample_srv (update_vhost_from_headers sample_servers sample_conn) (Pair 0) (\<lambda>_. 0) pipeline_net =
      Some (GotRequest r, net') \<and> q_hostname r = Some ''h'' \<and> CHR ''/'' \<notin> set ''h''"
proof -
  let ?vhost = "update_vhost_from_headers sample_servers sample_conn"
  from sample_read [of ?vhost] obtain r net' where r:
    "read_request (core_input_filter NUL) sample_srv ?vhost (Pair 0) (\<lambda>_. 0) pipeline_net = Some (check_request ?vhost (Pair 0) r, net')"
    "q_status r = HTTP_OK" "q_hostname r = None"
    and f: "table_get (q_headers_in r) (Some ''Host'') = Some ''h''" "table_get (q_headers_in r) (Some ''Expect'') = None" by blast
  let ?r = "r\<lparr>q_hostname := Some ''h''\<rparr>"
  have p: "parse_addr_port ''h'' = Some (Some ''h'', None, 0)" "scan_hostname ''h'' = Some ''h''" "\<not> list_all c_isdigit ''h''" by code_simp+
  have "fix_hostname ?r = ?r" unfolding fix_hostname_def using p by simp
  then have "?vhost r = ?r" using r(3) f by (simp add: update_vhost_from_headers_def sample_conn_def Let_def)
  then have "check_request ?vhost (Pair 0) r = GotRequest ?r"
    using r(2) f by (simp add: check_request_def lacks_host_def)
  then have g: "read_request (core_input_filter NUL) sample_srv ?vhost (Pair 0) (\<lambda>_. 0) pipeline_net = Some (GotRequest ?r, net')"
    using r(1) by simp
  from accepted_hostname [OF g, of "''h''"] show ?thesis using g by fastforce
qed

end
