(* ===== verification/Authz_Host.thy ===== *)
theory Authz_Host
  imports Vhost Http_Method
begin

text \<open>
  Access by host, \<open>modules/aaa/mod_authz_host.c\<close>: the directives Order, Allow and Deny, and the check of a request
  against them. The name of the client comes from \<open>ap_get_remote_host\<close> of \<open>server/core.c\<close>, which keeps what it has
  learnt in the connection; the resolver is a parameter. The message of the log is left out.
\<close>

section \<open>State\<close>

datatype allowdeny_type = T_ENV cstring | T_NENV cstring | T_ALL | T_IP ipsubnet | T_HOST cstring | T_FAIL

record allowdeny =
  limited :: "64 word"
  ad_type :: allowdeny_type

datatype access_order = DENY_THEN_ALLOW | ALLOW_THEN_DENY | MUTUAL_FAILURE

record authz_host_dir_conf =
  access_orders :: "access_order list"
  allows :: "allowdeny list"
  denys :: "allowdeny list"

definition METHODS :: nat where "METHODS = 64"

definition create_authz_host_dir_config :: authz_host_dir_conf where
  "create_authz_host_dir_config = \<lparr>access_orders = replicate METHODS DENY_THEN_ALLOW, allows = [], denys = []\<rparr>"

text \<open>The part of the connection about the client.\<close>

record client =
  remote_addr :: sockaddr
  remote_ip :: cstring
  remote_host :: "cstring option"
  double_reverse :: int

section \<open>Directives\<close>

definition order_cmd :: "64 word \<Rightarrow> cstring \<Rightarrow> authz_host_dir_conf \<Rightarrow> cstring + authz_host_dir_conf" where
  "order_cmd cmd_limited arg d =
     (let set_orders = (\<lambda>o1. Inr (d\<lparr>access_orders := map (\<lambda>i. if bit cmd_limited i then o1 else access_orders d ! i) [0..<METHODS]\<rparr>))
      in if strcaseeq arg ''allow,deny'' then set_orders ALLOW_THEN_DENY
         else if strcaseeq arg ''deny,allow'' then set_orders DENY_THEN_ALLOW
         else if strcaseeq arg ''mutual-failure'' then set_orders MUTUAL_FAILURE
         else Inl ''unknown order'')"

text \<open>
  What comes behind \<open>from\<close>. At an error the configuration is given up; \<open>strerror\<close> is the text of an error.
\<close>

definition entry_of :: "(ip_error \<Rightarrow> cstring) \<Rightarrow> cstring \<Rightarrow> cstring + allowdeny_type" where
  "entry_of strerror where_c =
     (if strncaseeq where_c ''env=!'' 5 then Inr (T_NENV (drop 5 where_c))
      else if strncaseeq where_c ''env='' 4 then Inr (T_ENV (drop 4 where_c))
      else if strcaseeq where_c ''all'' then Inr T_ALL
      else
        (case strchr where_c (CHR ''/'') of
           Some s \<Rightarrow>
             (case ipsubnet_create (take s where_c) (Some (drop (s + 1) where_c)) of
                Inr ip \<Rightarrow> Inr (T_IP ip)
              | Inl rv \<Rightarrow> Inl (if rv = EINVAL then ''An IP address was expected'' else strerror rv))
         | None \<Rightarrow>
             (case ipsubnet_create where_c None of
                Inr ip \<Rightarrow> Inr (T_IP ip)
              | Inl rv \<Rightarrow> if rv = EINVAL then Inr (T_HOST where_c) else Inl (strerror rv))))"

definition allow_cmd ::
  "(ip_error \<Rightarrow> cstring) \<Rightarrow> bool \<Rightarrow> 64 word \<Rightarrow> cstring \<Rightarrow> cstring \<Rightarrow> authz_host_dir_conf \<Rightarrow> cstring + authz_host_dir_conf" where
  "allow_cmd strerror its_an_allow cmd_limited from_c where_c d =
     (if \<not> strcaseeq from_c ''from'' then Inl (''allow and deny must be followed by '' @ [CHR 0x27] @ ''from'' @ [CHR 0x27])
      else
        (case entry_of strerror where_c of
           Inl err \<Rightarrow> Inl err
         | Inr t \<Rightarrow>
             (let a = \<lparr>limited = cmd_limited, ad_type = t\<rparr>
              in Inr (if its_an_allow then d\<lparr>allows := allows d @ [a]\<rparr> else d\<lparr>denys := denys d @ [a]\<rparr>))))"

section \<open>The name of the client\<close>

definition do_double_reverse :: "(cstring \<Rightarrow> sockaddr list option) \<Rightarrow> client \<Rightarrow> client" where
  "do_double_reverse lookup c =
     (if double_reverse c \<noteq> 0 then c
      else
        (case remote_host c of
           None \<Rightarrow> c\<lparr>double_reverse := - 1\<rparr>
         | Some name \<Rightarrow>
             if name = [] then c\<lparr>double_reverse := - 1\<rparr>
             else
               (case lookup name of
                  Some sas \<Rightarrow> if list_ex (\<lambda>sa. sockaddr_equal sa (remote_addr c)) sas then c\<lparr>double_reverse := 1\<rparr>
                              else c\<lparr>double_reverse := - 1\<rparr>
                | None \<Rightarrow> c\<lparr>double_reverse := - 1\<rparr>)))"

datatype hostname_lookup = HOSTNAME_LOOKUP_OFF | HOSTNAME_LOOKUP_ON | HOSTNAME_LOOKUP_DOUBLE

datatype remote_type = REMOTE_HOST | REMOTE_NAME | REMOTE_NOLOOKUP | REMOTE_DOUBLE_REV

text \<open>The name looked up for the first time; empty when there is none.\<close>

definition learn_remote_host ::
  "(sockaddr \<Rightarrow> cstring option) \<Rightarrow> (cstring \<Rightarrow> sockaddr list option) \<Rightarrow> hostname_lookup \<Rightarrow> client \<Rightarrow> client" where
  "learn_remote_host getnameinfo lookup lookups c =
     (let c0 =
            (case getnameinfo (remote_addr c) of
               None \<Rightarrow> c
             | Some name \<Rightarrow>
                 (let ca = c\<lparr>remote_host := Some (map c_tolower name)\<rparr>
                  in if lookups = HOSTNAME_LOOKUP_DOUBLE then
                       (let cb = do_double_reverse lookup ca
                        in if double_reverse cb \<noteq> 1 then cb\<lparr>remote_host := None\<rparr> else cb)
                     else ca))
      in if remote_host c0 = None then c0\<lparr>remote_host := Some []\<rparr> else c0)"

text \<open>The result is the name or the address, and whether it is the address.\<close>

definition get_remote_host ::
  "(sockaddr \<Rightarrow> cstring option) \<Rightarrow> (cstring \<Rightarrow> sockaddr list option) \<Rightarrow> hostname_lookup \<Rightarrow> remote_type \<Rightarrow> client \<Rightarrow>
     cstring option \<times> bool \<times> client" where
  "get_remote_host getnameinfo lookup lookups ty c =
     (let c1 =
            (if ty \<noteq> REMOTE_NOLOOKUP \<and> remote_host c = None \<and> (ty = REMOTE_DOUBLE_REV \<or> lookups \<noteq> HOSTNAME_LOOKUP_OFF)
             then learn_remote_host getnameinfo lookup lookups c else c);
          c2 = (if ty = REMOTE_DOUBLE_REV then do_double_reverse lookup c1 else c1)
      in if ty = REMOTE_DOUBLE_REV \<and> double_reverse c2 = - 1 then (None, False, c2)
         else
           (case remote_host c2 of
              Some (ch # name) \<Rightarrow> (Some (ch # name), False, c2)
            | _ \<Rightarrow> if ty = REMOTE_HOST \<or> ty = REMOTE_DOUBLE_REV then (None, False, c2) else (Some (remote_ip c2), True, c2)))"

section \<open>The check\<close>

definition in_domain :: "cstring \<Rightarrow> cstring \<Rightarrow> bool" where
  "in_domain domain what =
     (let dl = length domain; wl = length what
      in if dl \<le> wl then
           (if \<not> strcaseeq domain (drop (wl - dl) what) then False
            else if wl = dl then True
            else cget domain 0 = CHR ''.'' \<or> what ! (wl - dl - 1) = CHR ''.'')
         else False)"

text \<open>The loop of \<open>find_allowdeny\<close>; \<open>gothost\<close> and the name it goes with, as in the code.\<close>

fun find_loop ::
  "(client \<Rightarrow> cstring option \<times> bool \<times> client) \<Rightarrow> (cstring \<Rightarrow> bool) \<Rightarrow> nat \<Rightarrow> allowdeny list \<Rightarrow> nat \<Rightarrow> cstring option \<Rightarrow> client \<Rightarrow>
     bool \<times> client" where
  "find_loop remote env m [] gothost remotehost c = (False, c)"
| "find_loop remote env m (ap # aps) gothost remotehost c =
     (if \<not> bit (limited ap) m then find_loop remote env m aps gothost remotehost c
      else
        (case ad_type ap of
           T_ENV var \<Rightarrow> if env var then (True, c) else find_loop remote env m aps gothost remotehost c
         | T_NENV var \<Rightarrow> if \<not> env var then (True, c) else find_loop remote env m aps gothost remotehost c
         | T_ALL \<Rightarrow> (True, c)
         | T_IP ip \<Rightarrow> if ipsubnet_test ip (remote_addr c) then (True, c) else find_loop remote env m aps gothost remotehost c
         | T_HOST domain \<Rightarrow>
             (case (if gothost = 0 then
                      (case remote c of
                         (name, is_ip, c1) \<Rightarrow> (if name = None \<or> is_ip then 1 else 2, name, c1))
                    else (gothost, remotehost, c)) of
                (gothost1, remotehost1, c1) \<Rightarrow>
                  if gothost1 = 2 \<and> in_domain domain (the remotehost1) then (True, c1)
                  else find_loop remote env m aps gothost1 remotehost1 c1)
         | T_FAIL \<Rightarrow> find_loop remote env m aps gothost remotehost c))"

definition find_allowdeny ::
  "(client \<Rightarrow> cstring option \<times> bool \<times> client) \<Rightarrow> (cstring \<Rightarrow> bool) \<Rightarrow> nat \<Rightarrow> allowdeny list \<Rightarrow> client \<Rightarrow> bool \<times> client" where
  "find_allowdeny remote env m a c = find_loop remote env m a 0 None c"

definition HTTP_FORBIDDEN :: int where "HTTP_FORBIDDEN = 403"

text \<open>
  \<open>check_dir_access\<close>: the status, 0 for OK, and the client. \<open>env\<close> tells the variables of \<open>subprocess_env\<close>,
  \<open>remote\<close> is \<open>get_remote_host\<close> for a double reverse lookup.
\<close>

definition check_dir_access ::
  "(client \<Rightarrow> cstring option \<times> bool \<times> client) \<Rightarrow> (cstring \<Rightarrow> bool) \<Rightarrow> nat \<Rightarrow> authz_host_dir_conf \<Rightarrow> client \<Rightarrow> int \<times> client" where
  "check_dir_access remote env m a c =
     (let fnd = find_allowdeny remote env m
      in case access_orders a ! m of
           ALLOW_THEN_DENY \<Rightarrow>
             (case fnd (allows a) c of
                (f1, c1) \<Rightarrow>
                  (let ret = (if f1 then 0 else HTTP_FORBIDDEN)
                   in case fnd (denys a) c1 of (f2, c2) \<Rightarrow> (if f2 then HTTP_FORBIDDEN else ret, c2)))
         | DENY_THEN_ALLOW \<Rightarrow>
             (case fnd (denys a) c of
                (f1, c1) \<Rightarrow>
                  (let ret = (if f1 then HTTP_FORBIDDEN else 0)
                   in case fnd (allows a) c1 of (f2, c2) \<Rightarrow> (if f2 then 0 else ret, c2)))
         | MUTUAL_FAILURE \<Rightarrow>
             (case fnd (allows a) c of
                (f1, c1) \<Rightarrow>
                  if f1 then (case fnd (denys a) c1 of (f2, c2) \<Rightarrow> (if f2 then HTTP_FORBIDDEN else 0, c2))
                  else (HTTP_FORBIDDEN, c1)))"

section \<open>Names learnt once\<close>

abbreviation client_host where "client_host getnameinfo lookup lookups \<equiv> get_remote_host getnameinfo lookup lookups REMOTE_DOUBLE_REV"

lemma reverse_keeps [simp]: "remote_addr (do_double_reverse lookup c) = remote_addr c" "remote_ip (do_double_reverse lookup c) = remote_ip c"
  "remote_host (do_double_reverse lookup c) = remote_host c"
  by (simp_all add: do_double_reverse_def split: option.split)

lemma reverse_known: "double_reverse (do_double_reverse lookup c) \<noteq> 0" "double_reverse c \<noteq> 0 \<Longrightarrow> do_double_reverse lookup c = c"
  by (auto simp: do_double_reverse_def split: option.split)

definition found_name :: "client \<Rightarrow> cstring option" where
  "found_name c = (if double_reverse c = - 1 then None else case remote_host c of Some (ch # name) \<Rightarrow> Some (ch # name) | _ \<Rightarrow> None)"

lemma client_host_after:
  assumes "client_host getnameinfo lookup lookups c = (name, is_ip, c1)"
  shows "remote_host c1 \<noteq> None \<and> double_reverse c1 \<noteq> 0 \<and> remote_addr c1 = remote_addr c \<and> name = found_name c1 \<and> \<not> is_ip"
proof -
  define c2 where "c2 = (if remote_host c = None then learn_remote_host getnameinfo lookup lookups c else c)"
  have c2: "remote_host c2 \<noteq> None" "remote_addr c2 = remote_addr c"
    by (simp_all add: c2_def learn_remote_host_def Let_def split: option.split)
  then obtain n where n: "remote_host c2 = Some n" by blast
  let ?c3 = "do_double_reverse lookup c2"
  have "client_host getnameinfo lookup lookups c = (found_name ?c3, False, ?c3)"
    using n by (cases n) (simp_all add: get_remote_host_def c2_def [symmetric] Let_def found_name_def)
  then show ?thesis using assms c2 reverse_known(1) [of lookup c2] by auto
qed

text \<open>A second call finds what the first has left in the connection.\<close>

lemma client_host_known:
  assumes "remote_host c \<noteq> None" "double_reverse c \<noteq> 0"
  shows "client_host getnameinfo lookup lookups c = (found_name c, False, c)"
  using assms by (auto simp: get_remote_host_def Let_def reverse_known(2) found_name_def split: option.split list.split)

lemma client_host_again:
  "client_host getnameinfo lookup lookups c = (name, is_ip, c1) \<Longrightarrow> client_host getnameinfo lookup lookups c1 = (name, is_ip, c1)"
  using client_host_after client_host_known by metis

section \<open>The decision\<close>

text \<open>What an entry says of a request, for the name \<open>host\<close> of the client, if it has one.\<close>

definition entry_holds :: "(cstring \<Rightarrow> bool) \<Rightarrow> sockaddr \<Rightarrow> cstring option \<Rightarrow> nat \<Rightarrow> allowdeny \<Rightarrow> bool" where
  "entry_holds env addr host m ap \<longleftrightarrow> bit (limited ap) m \<and>
     (case ad_type ap of
        T_ENV var \<Rightarrow> env var | T_NENV var \<Rightarrow> \<not> env var | T_ALL \<Rightarrow> True | T_IP ip \<Rightarrow> ipsubnet_test ip addr
      | T_HOST domain \<Rightarrow> (case host of Some name \<Rightarrow> in_domain domain name | None \<Rightarrow> False) | T_FAIL \<Rightarrow> False)"

definition order_grants :: "access_order \<Rightarrow> bool \<Rightarrow> bool \<Rightarrow> bool" where
  "order_grants o1 allowed denied \<longleftrightarrow>
     (case o1 of DENY_THEN_ALLOW \<Rightarrow> allowed \<or> \<not> denied | _ \<Rightarrow> allowed \<and> \<not> denied)"

definition same_client :: "(client \<Rightarrow> cstring option \<times> bool \<times> client) \<Rightarrow> cstring option \<Rightarrow> client \<Rightarrow> client \<Rightarrow> bool" where
  "same_client remote host c c1 \<longleftrightarrow> remote_addr c1 = remote_addr c \<and> fst (remote c1) = host"

lemma find_loop_holds:
  assumes "\<And>c name is_ip c1. remote c = (name, is_ip, c1) \<Longrightarrow> remote c1 = (name, is_ip, c1) \<and> remote_addr c1 = remote_addr c \<and> \<not> is_ip"
    and "gothost = 0 \<or> gothost = (if remotehost = None then 1 else 2) \<and> remotehost = fst (remote c)"
    and "find_loop remote env m aps gothost remotehost c = (f, c1)"
  shows "f = list_ex (entry_holds env (remote_addr c) (fst (remote c)) m) aps \<and> remote_addr c1 = remote_addr c \<and> fst (remote c1) = fst (remote c)"
  using assms(2,3)
proof (induction aps arbitrary: gothost remotehost c)
  case (Cons ap aps)
  show ?case
  proof (cases "bit (limited ap) m \<and> (\<exists>domain. ad_type ap = T_HOST domain)")
    case False
    then show ?thesis using Cons.IH [OF Cons.prems(1)] Cons.prems by (auto simp: entry_holds_def split: allowdeny_type.splits if_splits)
  next
    case True
    then obtain domain where d: "bit (limited ap) m" "ad_type ap = T_HOST domain" by blast
    obtain name is_ip c2 where r: "remote c = (name, is_ip, c2)" by (cases "remote c")
    note a = assms(1) [OF r]
    define g where "g = (if gothost = 0 then (if name = None \<or> is_ip then 1 else 2, name, c2) else (gothost, remotehost, c))"
    obtain g1 h1 c3 where g: "g = (g1, h1, c3)" by (cases g)
    have s: "h1 = name" "g1 = (if name = None then 1 else (2::nat))" "remote_addr c3 = remote_addr c" "fst (remote c3) = name"
      using g r a Cons.prems(1) by (auto simp: g_def split: if_splits)
    have l: "find_loop remote env m (ap # aps) gothost remotehost c =
        (if g1 = 2 \<and> in_domain domain (the h1) then (True, c3) else find_loop remote env m aps g1 h1 c3)"
      using d g unfolding g_def by (cases "gothost = 0") (auto simp: r)
    show ?thesis using Cons.IH [of g1 h1 c3] Cons.prems(2) s d r unfolding l by (auto simp: entry_holds_def split: if_splits)
  qed
qed simp

lemma decision:
  "fst (check_dir_access (client_host getnameinfo lookup lookups) env m a c) =
    (let holds = list_ex (entry_holds env (remote_addr c) (fst (client_host getnameinfo lookup lookups c)) m)
     in if order_grants (access_orders a ! m) (holds (allows a)) (holds (denys a)) then 0 else HTTP_FORBIDDEN)"
proof -
  let ?remote = "client_host getnameinfo lookup lookups"
  have k: "?remote c1 = (name, is_ip, c1) \<and> remote_addr c1 = remote_addr c \<and> \<not> is_ip" if "?remote c = (name, is_ip, c1)" for c name is_ip c1
    using client_host_again client_host_after that by blast
  note L = find_loop_holds [of ?remote 0 None _ env m, OF k, simplified]
  have f: "\<exists>c1. find_allowdeny ?remote env m aps c = (list_ex (entry_holds env (remote_addr c) (fst (?remote c)) m) aps, c1) \<and>
      remote_addr c1 = remote_addr c \<and> fst (?remote c1) = fst (?remote c)" for aps c
  proof -
    obtain b c1 where l: "find_loop ?remote env m aps 0 None c = (b, c1)" by fastforce
    show ?thesis using L [OF l] l by (auto simp: find_allowdeny_def)
  qed
  obtain d1 c1 where d: "find_allowdeny ?remote env m (denys a) c = (d1, c1)" "d1 = list_ex (entry_holds env (remote_addr c) (fst (?remote c)) m) (denys a)"
    "remote_addr c1 = remote_addr c" "fst (?remote c1) = fst (?remote c)" using f [of "denys a" c] by auto
  obtain a1 c2 where al: "find_allowdeny ?remote env m (allows a) c = (a1, c2)" "a1 = list_ex (entry_holds env (remote_addr c) (fst (?remote c)) m) (allows a)"
    "remote_addr c2 = remote_addr c" "fst (?remote c2) = fst (?remote c)" using f [of "allows a" c] by auto
  obtain c3 where a2: "find_allowdeny ?remote env m (allows a) c1 = (a1, c3)" using f [of "allows a" c1] d(3,4) al(2) by auto
  obtain c4 where d2: "find_allowdeny ?remote env m (denys a) c2 = (d1, c4)" using f [of "denys a" c2] al(3,4) d(2) by auto
  show ?thesis using d(1) al(1) a2 d2 unfolding d(2) [symmetric] al(2) [symmetric] Let_def
    by (cases "access_orders a ! m") (auto simp: check_dir_access_def order_grants_def Let_def HTTP_FORBIDDEN_def)
qed


text \<open>C9. The decision is the one the directives state: with Order Deny,Allow a request is let in when some Allow or no Deny
  applies to it, else when some Allow and no Deny does, where an entry applies by method, variable, address or name. What the
  loops learn of the client's name on the way, and keep, does not change it.\<close>

theorem access_decision:
  "fst (check_dir_access (client_host getnameinfo lookup lookups) env m a c) =
    (let holds = list_ex (entry_holds env (remote_addr c) (fst (client_host getnameinfo lookup lookups c)) m)
     in if order_grants (access_orders a ! m) (holds (allows a)) (holds (denys a)) then 0 else HTTP_FORBIDDEN)"
  by (rule decision)

text \<open>
  A name leads back when the reverse entry of the address gives it and its own entry holds the
  address. \<open>name_state\<close> is what a connection holds of its client's name after any lookups.
\<close>

definition leads_back :: "(sockaddr \<Rightarrow> cstring option) \<Rightarrow> (cstring \<Rightarrow> sockaddr list option) \<Rightarrow> sockaddr \<Rightarrow> cstring \<Rightarrow> bool" where
  "leads_back getnameinfo lookup a name \<longleftrightarrow>
     name \<noteq> [] \<and> map_option (map c_tolower) (getnameinfo a) = Some name \<and>
     (case lookup name of Some sas \<Rightarrow> list_ex (\<lambda>sa. sockaddr_equal sa a) sas | None \<Rightarrow> False)"

definition name_state :: "(sockaddr \<Rightarrow> cstring option) \<Rightarrow> (cstring \<Rightarrow> sockaddr list option) \<Rightarrow> sockaddr \<Rightarrow> client \<Rightarrow> bool" where
  "name_state getnameinfo lookup a c \<longleftrightarrow> remote_addr c = a \<and>
     (case remote_host c of
        None \<Rightarrow> double_reverse c = 0
      | Some n \<Rightarrow>
          (if map_option (map c_tolower) (getnameinfo a) = Some n
           then double_reverse c = 0 \<or> double_reverse c = (if leads_back getnameinfo lookup a n then 1 else - 1)
           else n = [] \<and> (\<forall>name. \<not> leads_back getnameinfo lookup a name) \<and> (double_reverse c = 0 \<or> double_reverse c = - 1)))"

lemma reverse_answer:
  assumes "double_reverse c = 0" "remote_host c = Some n" "map_option (map c_tolower) (getnameinfo (remote_addr c)) = Some n"
  shows "double_reverse (do_double_reverse lookup c) = (if leads_back getnameinfo lookup (remote_addr c) n then 1 else - 1)"
  using assms by (auto simp: do_double_reverse_def leads_back_def split: option.split)

lemma reverse_state:
  assumes "name_state getnameinfo lookup a c"
  shows "remote_host c \<noteq> None \<Longrightarrow> name_state getnameinfo lookup a (do_double_reverse lookup c)"
proof (cases "double_reverse c = 0")
  case True
  assume "remote_host c \<noteq> None"
  then obtain n where n: "remote_host c = Some n" by blast
  show ?thesis
  proof (cases "map_option (map c_tolower) (getnameinfo a) = Some n")
    case t: True
    then show ?thesis using reverse_answer [OF True n, of getnameinfo lookup] assms n by (simp add: name_state_def)
  next
    case False
    then have "n = []" using assms n by (simp add: name_state_def)
    then have "double_reverse (do_double_reverse lookup c) = - 1" using True n by (simp add: do_double_reverse_def)
    then show ?thesis using False assms n by (simp add: name_state_def)
  qed
qed (use assms reverse_known(2) in simp)

lemma learn_state:
  assumes "name_state getnameinfo lookup a c" "remote_host c = None"
  shows "name_state getnameinfo lookup a (learn_remote_host getnameinfo lookup lookups c)"
proof -
  have c: "remote_addr c = a" "double_reverse c = 0" using assms by (simp_all add: name_state_def)
  show ?thesis
  proof (cases "getnameinfo a")
    case None
    then show ?thesis using c assms(2) by (simp add: learn_remote_host_def name_state_def leads_back_def)
  next
    case (Some name)
    define n where "n = map c_tolower name"
    have r: "double_reverse (do_double_reverse lookup (c\<lparr>remote_host := Some n\<rparr>)) = (if leads_back getnameinfo lookup a n then 1 else - 1)"
      using reverse_answer [of "c\<lparr>remote_host := Some n\<rparr>" n getnameinfo lookup] c Some by (simp add: n_def)
    have no: "\<not> leads_back getnameinfo lookup a n \<Longrightarrow> \<not> leads_back getnameinfo lookup a m" for m
      using Some by (auto simp: leads_back_def n_def)
    have "\<not> leads_back getnameinfo lookup a []" by (simp add: leads_back_def)
    then show ?thesis using c r no Some
      by (cases "n = []") (simp_all add: learn_remote_host_def Let_def name_state_def n_def [symmetric])
  qed
qed

lemma lookup_state:
  assumes "name_state getnameinfo lookup a c"
  shows "name_state getnameinfo lookup a (snd (snd (get_remote_host getnameinfo lookup lookups ty c)))"
proof -
  define c1 where "c1 = (if ty \<noteq> REMOTE_NOLOOKUP \<and> remote_host c = None \<and> (ty = REMOTE_DOUBLE_REV \<or> lookups \<noteq> HOSTNAME_LOOKUP_OFF)
      then learn_remote_host getnameinfo lookup lookups c else c)"
  have c1: "name_state getnameinfo lookup a c1" using assms learn_state by (simp add: c1_def)
  have "ty = REMOTE_DOUBLE_REV \<Longrightarrow> remote_host c1 \<noteq> None"
    by (simp add: c1_def learn_remote_host_def Let_def split: option.split)
  then have "name_state getnameinfo lookup a (if ty = REMOTE_DOUBLE_REV then do_double_reverse lookup c1 else c1)"
    using reverse_state [OF c1] c1 by simp
  moreover have "snd (snd (get_remote_host getnameinfo lookup lookups ty c)) = (if ty = REMOTE_DOUBLE_REV then do_double_reverse lookup c1 else c1)"
    by (simp add: get_remote_host_def c1_def [symmetric] Let_def split: option.split list.split)
  ultimately show ?thesis by simp
qed

text \<open>The connection after any calls of \<open>ap_get_remote_host\<close>, each from a directory with its own \<open>HostnameLookups\<close>.\<close>

definition after_lookups ::
  "(sockaddr \<Rightarrow> cstring option) \<Rightarrow> (cstring \<Rightarrow> sockaddr list option) \<Rightarrow> (hostname_lookup \<times> remote_type) list \<Rightarrow> client \<Rightarrow> client" where
  "after_lookups getnameinfo lookup calls c =
     foldl (\<lambda>c (lookups, ty). snd (snd (get_remote_host getnameinfo lookup lookups ty c))) c calls"

lemma after_lookups_state:
  "name_state getnameinfo lookup a c \<Longrightarrow> name_state getnameinfo lookup a (after_lookups getnameinfo lookup calls c)"
  unfolding after_lookups_def by (induction calls arbitrary: c) (auto simp: lookup_state)

lemma state_name:
  assumes "name_state getnameinfo lookup a c"
  shows "fst (client_host getnameinfo lookup lookups c) = Some name \<longleftrightarrow> leads_back getnameinfo lookup a name"
proof -
  obtain nm is_ip c1 where r: "client_host getnameinfo lookup lookups c = (nm, is_ip, c1)" by (cases "client_host getnameinfo lookup lookups c")
  note k = client_host_after [OF r]
  have s: "name_state getnameinfo lookup a c1" using lookup_state [OF assms, of lookups REMOTE_DOUBLE_REV] r by simp
  obtain n where n: "remote_host c1 = Some n" using k by blast
  have un: "leads_back getnameinfo lookup a name \<Longrightarrow> map_option (map c_tolower) (getnameinfo a) = Some name \<and> name \<noteq> []"
    by (simp add: leads_back_def)
  show ?thesis
    using k s n un by (auto simp: name_state_def found_name_def r split: list.splits if_splits)
qed

text \<open>C20. A name counts for the client only when it also leads back to its address: whatever lookups have been
  made on the connection before, by whatever directories with whatever \<open>HostnameLookups\<close>, the name that the rules of
  \<open>Allow\<close> and \<open>Deny\<close> see is the one of the reverse entry, and only if its own entry holds the address.\<close>

theorem name_leads_back:
  assumes "remote_host c0 = None" "double_reverse c0 = 0" "c = after_lookups getnameinfo lookup calls c0"
  shows "fst (client_host getnameinfo lookup lookups c) = Some name \<longleftrightarrow>
    name \<noteq> [] \<and> map_option (map c_tolower) (getnameinfo (remote_addr c0)) = Some name \<and>
    (case lookup name of Some sas \<Rightarrow> list_ex (\<lambda>sa. sockaddr_equal sa (remote_addr c0)) sas | None \<Rightarrow> False)"
proof -
  have "name_state getnameinfo lookup (remote_addr c0) c0" using assms(1,2) by (simp add: name_state_def)
  then have "name_state getnameinfo lookup (remote_addr c0) c" unfolding assms(3) by (rule after_lookups_state)
  from state_name [OF this] show ?thesis unfolding leads_back_def .
qed

text \<open>A domain matches the name of a host when it is the whole name or a whole suffix of it, behind a dot, in upper
  or lower case: \<open>good.com\<close> matches \<open>www.good.com\<close> and not \<open>nogood.com\<close>.\<close>

theorem in_domain_correct:
  "in_domain domain what \<longleftrightarrow>
    (\<exists>x d. what = x @ d \<and> strcaseeq domain d \<and> (x = [] \<or> List.last x = CHR ''.'' \<or> cget domain 0 = CHR ''.''))"
proof
  let ?k = "length what - length domain"
  assume i: "in_domain domain what"
  then have "length domain \<le> length what" "strcaseeq domain (drop ?k what)" by (auto simp: in_domain_def Let_def split: if_splits)
  moreover have "take ?k what = [] \<or> List.last (take ?k what) = CHR ''.'' \<or> cget domain 0 = CHR ''.''"
    using i by (cases "?k = 0") (auto simp: in_domain_def Let_def last_conv_nth split: if_splits)
  ultimately show "\<exists>x d. what = x @ d \<and> strcaseeq domain d \<and> (x = [] \<or> List.last x = CHR ''.'' \<or> cget domain 0 = CHR ''.'')"
    by (metis append_take_drop_id)
next
  assume "\<exists>x d. what = x @ d \<and> strcaseeq domain d \<and> (x = [] \<or> List.last x = CHR ''.'' \<or> cget domain 0 = CHR ''.'')"
  then obtain x d where w: "what = x @ d" "strcaseeq domain d" "x = [] \<or> List.last x = CHR ''.'' \<or> cget domain 0 = CHR ''.''" by blast
  have "length domain = length d" using w(2) by (metis length_map strcaseeq_def)
  then show "in_domain domain what" using w by (auto simp: in_domain_def Let_def last_conv_nth nth_append)
qed

section \<open>A rule on a subnet\<close>

lemma text_addr_chars: "text_addr s \<noteq> [] \<Longrightarrow> CHR ''='' \<notin> set s"
proof -
  assume a: "text_addr s \<noteq> []"
  have n: "\<not> c_isxdigit (CHR ''='')" "\<not> c_isdigit (CHR ''='')" by (simp_all add: c_isxdigit_def c_isdigit_def ccode_def)
  show ?thesis
  proof (cases "inet_pton6 s = None")
    case True
    then obtain q where "pton4_loop s False 0 [] 0 = Some q" using a by (auto simp: text_addr_def inet_pton4_def split: option.splits)
    from pton4_loop_chars [OF this] show ?thesis using n by (auto simp: list_all_iff)
  next
    case False
    then show ?thesis using inet_pton6_chars [of s] n by (auto simp: list_all_iff)
  qed
qed

lemma tolower_fixed: "c_tolower c = CHR ''='' \<Longrightarrow> c = CHR ''=''"
proof -
  assume c: "c_tolower c = CHR ''=''"
  have "\<not> c_islower (CHR ''='')" by (simp add: c_islower_def ccode_def)
  then have "\<not> c_isupper c" using lower_of_upper [of c] c by auto
  then show ?thesis using c by (simp add: c_tolower_def)
qed

lemma tolower_slash: "c_tolower (CHR ''/'') = CHR ''/''" "c_tolower (CHR ''a'') = CHR ''a''" "c_tolower (CHR ''l'') = CHR ''l''"
  by (simp_all add: c_tolower_def c_isupper_def ccode_def)

lemma not_env4: "CHR ''='' \<notin> set s \<Longrightarrow> map c_tolower (take 4 (s @ CHR ''/'' # t)) \<noteq> ''env=''"
proof
  assume s: "CHR ''='' \<notin> set s" "map c_tolower (take 4 (s @ CHR ''/'' # t)) = ''env=''"
  show False
  proof (cases "length s \<ge> 4")
    case True
    then have "c_tolower (s ! 3) = CHR ''=''" using arg_cong [OF s(2), of "\<lambda>x. x ! 3"] by (simp add: nth_append)
    then show False using s(1) True tolower_fixed [of "s ! 3"] nth_mem [of 3 s] by auto
  next
    case False
    then have "c_tolower (CHR ''/'') \<in> set (map c_tolower (take 4 (s @ CHR ''/'' # t)))" by (simp add: take_Cons')
    then show False unfolding s(2) by (simp add: tolower_slash)
  qed
qed

lemma not_env: "CHR ''='' \<notin> set s \<Longrightarrow> \<not> strncaseeq (s @ CHR ''/'' # t) ''env='' 4 \<and> \<not> strncaseeq (s @ CHR ''/'' # t) ''env=!'' 5"
proof -
  assume s: "CHR ''='' \<notin> set s"
  let ?w = "s @ CHR ''/'' # t"
  have t: "map c_tolower (take 4 ?w) = take 4 (map c_tolower (take 5 ?w))" by (simp only: take_map take_take) simp
  have l: "map c_tolower (take 4 ''env='') = ''env=''" "take 4 (map c_tolower (take 5 ''env=!'')) = ''env=''" by code_simp+
  then show ?thesis using not_env4 [OF s, of t] t unfolding strncaseeq_take by metis
qed

text \<open>C8. The directives on a subnet do what they say: after \<open>Order allow,deny\<close> and \<open>Allow from s/k\<close> in an empty
  configuration, exactly the clients whose first bits are those of the address are let in.\<close>

theorem allow_from_subnet:
  assumes "order_cmd (- 1) ''Allow,Deny'' create_authz_host_dir_config = Inr d0"
    and "allow_cmd strerror True (- 1) ''from'' (s @ CHR ''/'' # fmt_nat k) d0 = Inr d"
    and "CHR ''/'' \<notin> set s" "0 < k" "k \<le> 8 * length (text_addr s)"
    and "addr_ok (remote_addr c)" "length (plain_addr (remote_addr c)) = length (text_addr s)" "m < METHODS"
  shows "fst (check_dir_access (client_host getnameinfo lookup lookups) env m d c) =
    (if \<forall>i<k. addr_bit (plain_addr (remote_addr c)) i = addr_bit (text_addr s) i then 0 else HTTP_FORBIDDEN)"
proof -
  let ?w = "s @ CHR ''/'' # fmt_nat k"
  have eq: "CHR ''='' \<notin> set s" using assms(4,5) text_addr_chars [of s] by (cases "text_addr s") auto
  have e: "\<not> strncaseeq ?w ''env='' 4" "\<not> strncaseeq ?w ''env=!'' 5" using not_env [OF eq] by blast+
  have al: "\<not> strcaseeq ?w ''all''"
  proof
    assume "strcaseeq ?w ''all''"
    then have "c_tolower (CHR ''/'') \<in> set (map c_tolower ''all'')" unfolding strcaseeq_def by (metis in_set_conv_decomp map_append list.simps(9))
    then show False by (simp add: tolower_slash)
  qed
  have c: "strchr ?w (CHR ''/'') = Some (length s)" using assms(3) strchr_first by blast
  obtain sub where sub: "ipsubnet_create s (Some (fmt_nat k)) = Inr sub" "entry_of strerror ?w = Inr (T_IP sub)"
    using assms(2) e al c by (auto simp: allow_cmd_def entry_of_def split: sum.splits if_splits)
  have d: "access_orders d ! m = ALLOW_THEN_DENY" "allows d = [\<lparr>limited = - 1, ad_type = T_IP sub\<rparr>]" "denys d = []"
  proof -
    have "strcaseeq ''Allow,Deny'' ''allow,deny''" "strcaseeq ''from'' ''from''" by code_simp+
    then show "access_orders d ! m = ALLOW_THEN_DENY" "allows d = [\<lparr>limited = - 1, ad_type = T_IP sub\<rparr>]" "denys d = []"
      using assms(1,2,8) sub by (auto simp: order_cmd_def create_authz_host_dir_config_def allow_cmd_def METHODS_def Let_def)
  qed
  have h: "entry_holds env (remote_addr c) host m \<lparr>limited = - 1, ad_type = T_IP sub\<rparr> =
      (\<forall>i<k. addr_bit (plain_addr (remote_addr c)) i = addr_bit (text_addr s) i)" for host
    using subnet_bits [OF sub(1) assms(4-7)] assms(8) by (simp add: entry_holds_def METHODS_def)
  show ?thesis unfolding decision by (simp add: d h order_grants_def Let_def)
qed

section \<open>Examples\<close>

definition sample_client :: client where
  "sample_client = \<lparr>remote_addr = \<lparr>sa_family = AF_INET, sa_port = 1024, ipaddr = [10, 1, 2, 3]\<rparr>, remote_ip = ''10.1.2.3'',
     remote_host = None, double_reverse = 0\<rparr>"

theorem name_leads_back_witness:
  "fst (client_host (\<lambda>_. Some ''Good.com'') (\<lambda>_. Some [sample_addr]) HOSTNAME_LOOKUP_OFF
      (after_lookups (\<lambda>_. Some ''Good.com'') (\<lambda>_. Some [sample_addr]) [(HOSTNAME_LOOKUP_ON, REMOTE_NAME)] sample_client))
    \<noteq> Some ''good.com'' \<and>
   fst (client_host (\<lambda>_. Some ''Good.com'') (\<lambda>_. Some [sample_addr, remote_addr sample_client]) HOSTNAME_LOOKUP_OFF
      (after_lookups (\<lambda>_. Some ''Good.com'') (\<lambda>_. Some [sample_addr, remote_addr sample_client])
        [(HOSTNAME_LOOKUP_ON, REMOTE_NAME)] sample_client)) = Some ''good.com''"
proof -
  have s: "remote_host sample_client = None" "double_reverse sample_client = 0"
    by (simp_all add: sample_client_def)
  note N = name_leads_back [OF s refl, where getnameinfo = "\<lambda>_. Some ''Good.com''" and name = "''good.com''"]
  have "map c_tolower ''Good.com'' = ''good.com''" "\<not> sockaddr_equal sample_addr (remote_addr sample_client)"
    "sockaddr_equal (remote_addr sample_client) (remote_addr sample_client)" by code_simp+
  then show ?thesis using N [of "\<lambda>_. Some [sample_addr]"] N [of "\<lambda>_. Some [sample_addr, remote_addr sample_client]"] by simp
qed

theorem allow_from_subnet_witness:
  "\<exists>d0 d. order_cmd (- 1) ''Allow,Deny'' create_authz_host_dir_config = Inr d0 \<and>
    allow_cmd (\<lambda>_. []) True (- 1) ''from'' ''10.1.0.0/16'' d0 = Inr d \<and>
    fst (check_dir_access (client_host (\<lambda>_. None) (\<lambda>_. None) HOSTNAME_LOOKUP_OFF) (\<lambda>_. False) 0 d sample_client) = 0"
proof -
  have n: "fmt_nat 16 = ''16''" using sample_subnets by simp
  obtain sub where c: "ipsubnet_create ''10.1.0.0'' (Some (fmt_nat 16)) = Inr sub" using sample_create(1) by blast
  have e: "\<not> strncaseeq ''10.1.0.0/16'' ''env=!'' 5" "\<not> strncaseeq ''10.1.0.0/16'' ''env='' 4" "\<not> strcaseeq ''10.1.0.0/16'' ''all''"
    "strchr ''10.1.0.0/16'' (CHR ''/'') = Some 8" "strcaseeq ''from'' ''from''" "strcaseeq ''Allow,Deny'' ''allow,deny''" by code_simp+
  obtain d0 where d0: "order_cmd (- 1) ''Allow,Deny'' create_authz_host_dir_config = Inr d0" using e by (simp add: order_cmd_def Let_def)
  have "entry_of (\<lambda>_. []) ''10.1.0.0/16'' = Inr (T_IP sub)" using e c n by (simp add: entry_of_def)
  then obtain d where d: "allow_cmd (\<lambda>_. []) True (- 1) ''from'' (''10.1.0.0'' @ CHR ''/'' # fmt_nat 16) d0 = Inr d"
    using e n by (simp add: allow_cmd_def Let_def)
  have t: "text_addr ''10.1.0.0'' = [10, 1, 0, 0]" using sample_subnets by (simp add: text_addr_def)
  have "fst (check_dir_access (client_host (\<lambda>_. None) (\<lambda>_. None) HOSTNAME_LOOKUP_OFF) (\<lambda>_. False) 0 d sample_client) = 0"
    using allow_from_subnet [OF d0 d, of sample_client 0] t first_two_bytes by (simp add: addr_ok_def plain_addr_def sample_client_def METHODS_def)
  then show ?thesis using d0 d n by auto
qed

end
