(* ===== verification/Apr_Base64.thy ===== *)
theory Apr_Base64
  imports Prelude
begin

text \<open>
  Base64, \<open>srclib/apr-util/encoding/apr_base64.c\<close>, in the ASCII build. A buffer of bytes is a list of 8-bit words;
  the length of a text is taken to fit into an \<open>int\<close>.
\<close>

type_synonym u8 = "8 word"

definition bytes_of :: "cstring \<Rightarrow> u8 list" where
  "bytes_of s = map (\<lambda>c. of_nat (ccode c)) s"

definition chars_of :: "u8 list \<Rightarrow> cstring" where
  "chars_of bs = map (\<lambda>b. char_of (unat b)) bs"

lemma chars_bytes [simp]: "chars_of (bytes_of s) = s"
  by (induction s) (simp_all add: chars_of_def bytes_of_def unat_of_nat)

section \<open>Tables\<close>

definition basis_64 :: cstring where
  "basis_64 = ''ABCDEFGHIJKLMNOPQRSTUVWXYZabcdefghijklmnopqrstuvwxyz0123456789+/''"

definition pr2six_table :: "u8 list" where
  "pr2six_table = replicate 43 64 @ [62, 64, 64, 64, 63] @ map of_nat [52..<62] @ replicate 7 64 @
     map of_nat [0..<26] @ replicate 6 64 @ map of_nat [26..<52] @ replicate 133 64"

definition pr2six :: "char \<Rightarrow> u8" where
  "pr2six c = pr2six_table ! ccode c"

section \<open>Encoding\<close>

definition basis :: "u8 \<Rightarrow> char" where
  "basis i = basis_64 ! unat i"

fun base64_encode_binary :: "u8 list \<Rightarrow> cstring" where
  "base64_encode_binary [] = []"
| "base64_encode_binary [a] =
     [basis (and (drop_bit 2 a) 0x3F), basis (push_bit 4 (and a 3)), CHR ''='', CHR ''='']"
| "base64_encode_binary [a, b] =
     [basis (and (drop_bit 2 a) 0x3F), basis (or (push_bit 4 (and a 3)) (drop_bit 4 (and b 0xF0))),
      basis (push_bit 2 (and b 0xF)), CHR ''='']"
| "base64_encode_binary (a # b # c # bs) =
     basis (and (drop_bit 2 a) 0x3F) # basis (or (push_bit 4 (and a 3)) (drop_bit 4 (and b 0xF0))) #
     basis (or (push_bit 2 (and b 0xF)) (drop_bit 6 (and c 0xC0))) # basis (and c 0x3F) # base64_encode_binary bs"

text \<open>The size of the buffer, with the terminator.\<close>

definition base64_encode_len :: "nat \<Rightarrow> nat" where
  "base64_encode_len len = (len + 2) div 3 * 4 + 1"

section \<open>Decoding\<close>

definition base64_prefix :: "cstring \<Rightarrow> cstring" where
  "base64_prefix bufcoded = takeWhile (\<lambda>c. pr2six c \<le> 63) bufcoded"

definition base64_decode_len :: "cstring \<Rightarrow> int" where
  "base64_decode_len bufcoded = (int (length (base64_prefix bufcoded)) + 3) div 4 * 3 + 1"

definition six1 :: "cstring \<Rightarrow> u8" where "six1 s = or (push_bit 2 (pr2six (s ! 0))) (drop_bit 4 (pr2six (s ! 1)))"
definition six2 :: "cstring \<Rightarrow> u8" where "six2 s = or (push_bit 4 (pr2six (s ! 1))) (drop_bit 2 (pr2six (s ! 2)))"
definition six3 :: "cstring \<Rightarrow> u8" where "six3 s = or (push_bit 6 (pr2six (s ! 2))) (pr2six (s ! 3))"

text \<open>The loop over groups of four, and what is written for the last group; the string is what is still to read.\<close>

function decode_loop :: "cstring \<Rightarrow> u8 list" where
  "decode_loop bufin =
     (if length bufin > 4 then six1 bufin # six2 bufin # six3 bufin # decode_loop (drop 4 bufin)
      else (if length bufin > 1 then [six1 bufin] else []) @ (if length bufin > 2 then [six2 bufin] else []) @
           (if length bufin > 3 then [six3 bufin] else []))"
  by pat_completeness auto

termination decode_loop
  by (relation "measure length") auto

declare decode_loop.simps [simp del]

text \<open>What the loop leaves of \<open>nprbytes\<close>.\<close>

fun decode_rest :: "nat \<Rightarrow> nat" where
  "decode_rest nprbytes = (if nprbytes > 4 then decode_rest (nprbytes - 4) else nprbytes)"

declare decode_rest.simps [simp del]

text \<open>The number of bytes the function returns, and the bytes it has written.\<close>

definition base64_decode_binary :: "cstring \<Rightarrow> int \<times> u8 list" where
  "base64_decode_binary bufcoded =
     (let p = base64_prefix bufcoded; nprbytes = length p;
          nbytesdecoded = (int nprbytes + 3) div 4 * 3
      in (nbytesdecoded - and (4 - int (decode_rest nprbytes)) 3, decode_loop p))"

text \<open>\<open>apr_base64_decode\<close> and \<open>ap_pbase64decode\<close>, which terminate the buffer.\<close>

definition base64_decode :: "cstring \<Rightarrow> cstring" where
  "base64_decode bufcoded = (case base64_decode_binary bufcoded of (len, bs) \<Rightarrow> chars_of (take (nat len) bs))"

section \<open>Sizes\<close>

lemma encode_length: "length (base64_encode_binary bs) + 1 = base64_encode_len (length bs)"
proof (induction bs rule: base64_encode_binary.induct)
  case (4 a b c bs)
  have "(length (a # b # c # bs) + 2) div 3 = (length bs + 2) div 3 + 1" by simp
  then show ?case using 4 by (simp add: base64_encode_len_def)
qed (simp_all add: base64_encode_len_def)

lemma and3: "and (x :: int) 3 = x mod 4"
  using take_bit_eq_mask [of 2 x] by (simp add: take_bit_eq_mod mask_eq_exp_minus_1)

lemma decode_loop_length:
  "int (length (decode_loop p)) = (int (length p) + 3) div 4 * 3 - (4 - int (decode_rest (length p))) mod 4"
proof (induction p rule: decode_loop.induct)
  case (1 p)
  show ?case
  proof (cases "length p > 4")
    case True
    have l: "length (decode_loop p) = length (decode_loop (drop 4 p)) + 3" "decode_rest (length p) = decode_rest (length (drop 4 p))"
      using True by (simp_all add: decode_loop.simps [of p] decode_rest.simps [of "length p"])
    have "(int (length p) + 3) div 4 = (int (length (drop 4 p)) + 3) div 4 + 1"
      using True by (simp add: of_nat_diff)
    then show ?thesis using 1 True l by simp
  next
    case False
    then have "length p = 0 \<or> length p = 1 \<or> length p = 2 \<or> length p = 3 \<or> length p = 4" by linarith
    then show ?thesis unfolding decode_loop.simps [of p] decode_rest.simps [of "length p"] by (elim disjE) simp_all
  qed
qed

lemma decode_count: "fst (base64_decode_binary s) = int (length (snd (base64_decode_binary s)))"
  using decode_loop_length [of "base64_prefix s"] by (simp add: base64_decode_binary_def Let_def and3)

lemma decode_fits: "fst (base64_decode_binary s) < base64_decode_len s"
  by (simp add: base64_decode_binary_def base64_decode_len_def Let_def and3)

section \<open>Round trip\<close>

lemma pr2six_basis: "i < 64 \<Longrightarrow> pr2six (basis i) = i"
proof -
  assume "i < 64"
  then have u: "unat i < 64" by (simp add: word_less_nat_alt)
  have "\<forall>n\<in>set [0..<64]. pr2six (basis_64 ! n) = of_nat n" by code_simp
  then have "pr2six (basis_64 ! unat i) = of_nat (unat i)" using u by simp
  then show ?thesis by (simp add: basis_def)
qed

lemma basis_64_length: "length basis_64 = 64"
  by (simp add: basis_64_def)

lemma basis_in: "i < 64 \<Longrightarrow> basis i \<in> set basis_64"
  unfolding basis_def by (rule nth_mem) (simp add: basis_64_length word_less_nat_alt)

lemma pr2six_equals: "\<not> pr2six (CHR ''='') \<le> 63"
  by code_simp

lemma byte_eqI: "(\<And>n. n \<in> set [0, 1, 2, 3, 4, 5, 6, 7] \<Longrightarrow> bit (a :: u8) n = bit b n) \<Longrightarrow> a = b"
proof (rule bit_word_eqI)
  fix n assume "\<And>n. n \<in> set [0, 1, 2, 3, 4, 5, 6, 7] \<Longrightarrow> bit a n = bit b n" "n < LENGTH(8)"
  then show "bit a n = bit b n" by (auto simp: numeral_eq_Suc less_Suc_eq)
qed

lemma below_64: "\<not> bit (x :: u8) 6 \<Longrightarrow> \<not> bit x 7 \<Longrightarrow> x < 64"
proof -
  assume "\<not> bit x 6" "\<not> bit x 7"
  then have "and x 0x3F = x" by (intro byte_eqI) (auto simp: bit_simps)
  moreover have "and x 0x3F \<le> 0x3F" by (rule word_and_le1)
  ultimately have "x \<le> 0x3F" by simp
  then show ?thesis by (simp add: word_le_nat_alt word_less_nat_alt)
qed

lemma six_roundtrip:
  fixes a b c :: u8
  shows "or (push_bit 2 (and (drop_bit 2 a) 0x3F)) (drop_bit 4 (or (push_bit 4 (and a 3)) (drop_bit 4 (and b 0xF0)))) = a"
    and "or (push_bit 2 (and (drop_bit 2 a) 0x3F)) (drop_bit 4 (push_bit 4 (and a 3))) = a"
    and "or (push_bit 4 (or (push_bit 4 (and a 3)) (drop_bit 4 (and b 0xF0)))) (drop_bit 2 (or (push_bit 2 (and b 0xF)) (drop_bit 6 (and c 0xC0)))) = b"
    and "or (push_bit 4 (or (push_bit 4 (and a 3)) (drop_bit 4 (and b 0xF0)))) (drop_bit 2 (push_bit 2 (and b 0xF))) = b"
    and "or (push_bit 6 (or (push_bit 2 (and b 0xF)) (drop_bit 6 (and c 0xC0)))) (and c 0x3F) = c"
  by (rule byte_eqI, (auto simp: bit_simps; simp add: numeral_eq_Suc) [1])+

lemma six_less:
  fixes a b c :: u8
  shows "and a 0x3F < 64" "or (push_bit 4 (and a 3)) (drop_bit 4 (and b 0xF0)) < 64" "push_bit 4 (and a 3) < 64"
    "push_bit 2 (and b 0xF) < 64" "or (push_bit 2 (and b 0xF)) (drop_bit 6 (and c 0xC0)) < 64"
  by (rule below_64; simp add: bit_simps)+

lemma decode_group:
  "\<lbrakk>a < 64; b < 64; c < 64; d < 64\<rbrakk> \<Longrightarrow> decode_loop (basis a # basis b # basis c # basis d # p) =
    or (push_bit 2 a) (drop_bit 4 b) # or (push_bit 4 b) (drop_bit 2 c) # or (push_bit 6 c) d # decode_loop p"
  by (cases p) (simp_all add: decode_loop.simps six1_def six2_def six3_def pr2six_basis)

lemma decode_loop_Nil [simp]: "decode_loop [] = []"
  by (simp add: decode_loop.simps)

definition ends_code :: "cstring \<Rightarrow> bool" where
  "ends_code t \<longleftrightarrow> (t = [] \<or> \<not> pr2six (hd t) \<le> 63)"

lemma prefix_basis: "a < 64 \<Longrightarrow> base64_prefix (basis a # s) = basis a # base64_prefix s"
  by (simp add: base64_prefix_def pr2six_basis word_le_nat_alt word_less_nat_alt)

lemma prefix_stop: "ends_code t \<Longrightarrow> base64_prefix t = []" "base64_prefix (CHR ''='' # s) = []"
  using pr2six_equals by (auto simp: base64_prefix_def ends_code_def takeWhile_eq_Nil_iff)

lemma decode_encode_loop:
  "ends_code t \<Longrightarrow> decode_loop (base64_prefix (base64_encode_binary bs @ t)) = bs"
proof (induction bs rule: base64_encode_binary.induct)
  case 1
  then show ?case by (simp add: prefix_stop)
next
  case (2 a)
  define x y where "x = and (drop_bit 2 a) 0x3F" and "y = push_bit 4 (and a 3)"
  then have "x < 64" "y < 64" "or (push_bit 2 x) (drop_bit 4 y) = a" "base64_encode_binary [a] = [basis x, basis y, CHR ''='', CHR ''='']"
    by (simp_all only: six_less six_roundtrip base64_encode_binary.simps)
  then show ?case by (simp add: prefix_basis prefix_stop decode_loop.simps six1_def pr2six_basis)
next
  case (3 a b)
  define x y z where "x = and (drop_bit 2 a) 0x3F" and "y = or (push_bit 4 (and a 3)) (drop_bit 4 (and b 0xF0))" and "z = push_bit 2 (and b 0xF)"
  then have "x < 64" "y < 64" "z < 64" "or (push_bit 2 x) (drop_bit 4 y) = a" "or (push_bit 4 y) (drop_bit 2 z) = b"
    "base64_encode_binary [a, b] = [basis x, basis y, basis z, CHR ''='']"
    by (simp_all only: six_less six_roundtrip base64_encode_binary.simps)
  then show ?case by (simp add: prefix_basis prefix_stop decode_loop.simps six1_def six2_def pr2six_basis)
next
  case (4 a b c bs)
  define w x y z where "w = and (drop_bit 2 a) 0x3F" and "x = or (push_bit 4 (and a 3)) (drop_bit 4 (and b 0xF0))"
    and "y = or (push_bit 2 (and b 0xF)) (drop_bit 6 (and c 0xC0))" and "z = and c 0x3F"
  then have "w < 64" "x < 64" "y < 64" "z < 64" "or (push_bit 2 w) (drop_bit 4 x) = a" "or (push_bit 4 x) (drop_bit 2 y) = b" "or (push_bit 6 y) z = c"
    "base64_encode_binary (a # b # c # bs) = basis w # basis x # basis y # basis z # base64_encode_binary bs"
    by (simp_all only: six_less six_roundtrip base64_encode_binary.simps)
  then show ?case using 4 by (simp add: prefix_basis decode_group)
qed

text \<open>Decoding undoes encoding for every string of bytes, whatever follows that is no base64 character; the number returned is that
  of the bytes written, which stays below \<open>apr_base64_decode_len\<close>.\<close>

theorem base64_roundtrip:
  assumes "ends_code t"
  shows "base64_decode_binary (base64_encode_binary bs @ t) = (int (length bs), bs)"
proof -
  have s: "snd (base64_decode_binary (base64_encode_binary bs @ t)) = bs"
    using decode_encode_loop [OF assms] by (simp add: base64_decode_binary_def Let_def)
  then show ?thesis using decode_count [of "base64_encode_binary bs @ t"] by (simp add: prod_eq_iff)
qed

theorem base64_roundtrip_witness:
  "base64_decode_binary (base64_encode_binary [0xff, 0, 0x80, 0x7f] @ '' x'') = (4, [0xff, 0, 0x80, 0x7f])"
proof -
  have "ends_code '' x''" by code_simp
  from base64_roundtrip [OF this, of "[0xff, 0, 0x80, 0x7f]"] show ?thesis by simp
qed

lemma base64_decode_encode: "ends_code t \<Longrightarrow> base64_decode (base64_encode_binary (bytes_of s) @ t) = s"
  using decode_encode_loop [of t "bytes_of s"] decode_count [of "base64_encode_binary (bytes_of s) @ t"]
  by (simp add: base64_decode_def base64_decode_binary_def Let_def)

end
