(* ===== verification/Auth_Basic.thy ===== *)
theory Auth_Basic
  imports Http_Request Util_Word Apr_Base64
begin

text \<open>
  Basic authentication: \<open>modules/aaa/mod_auth_basic.c\<close>, and \<open>ap_get_basic_auth_pw\<close> and the functions that note a
  failure of \<open>server/protocol.c\<close>. The type and the name of the realm, \<open>ap_auth_type\<close> and \<open>ap_auth_name\<close>, are
  arguments; the providers are functions. What is written to the log is left out.
\<close>

section \<open>State\<close>

text \<open>More of the \<open>request_rec\<close>.\<close>

record areq = req +
  ar_proxyreq :: int
  ar_user :: "cstring option"
  ar_ap_auth_type :: "cstring option"
  ar_err_headers_out :: table
  ar_notes :: table
  ar_request_time :: nat

datatype authn_status = AUTH_DENIED | AUTH_GRANTED | AUTH_USER_FOUND | AUTH_USER_NOT_FOUND | AUTH_GENERAL_ERROR

type_synonym check_password = "areq \<Rightarrow> cstring \<Rightarrow> cstring \<Rightarrow> authn_status \<times> areq"

record authn_provider =
  check_password :: "check_password option"

text \<open>A provider of the list with its name.\<close>

record auth_basic_config =
  ab_providers :: "(cstring \<times> check_password) list"
  ab_authoritative :: bool

definition PROXYREQ_PROXY :: int where "PROXYREQ_PROXY = 1"
definition DECLINED :: int where "DECLINED = - 1"
definition HTTP_UNAUTHORIZED :: int where "HTTP_UNAUTHORIZED = 401"
definition HTTP_INTERNAL_SERVER_ERROR :: int where "HTTP_INTERNAL_SERVER_ERROR = 500"

definition create_auth_basic_dir_config :: auth_basic_config where
  "create_auth_basic_dir_config = \<lparr>ab_providers = [], ab_authoritative = True\<rparr>"

text \<open>\<open>registered\<close> is \<open>ap_lookup_provider\<close> for the group authn and the version 0.\<close>

definition add_authn_provider ::
  "(cstring \<Rightarrow> authn_provider option) \<Rightarrow> cstring \<Rightarrow> auth_basic_config \<Rightarrow> cstring + auth_basic_config" where
  "add_authn_provider registered arg conf =
     (case registered arg of
        None \<Rightarrow> Inl (''Unknown Authn provider: '' @ arg)
      | Some p \<Rightarrow>
          (case check_password p of
             None \<Rightarrow> Inl (''The '' @ [SQUOTE] @ arg @ [SQUOTE] @ '' Authn provider doesn'' @ [SQUOTE] @ ''t support Basic Authentication'')
           | Some check \<Rightarrow> Inr (conf\<lparr>ab_providers := ab_providers conf @ [(arg, check)]\<rparr>)))"

section \<open>Noting a failure\<close>

definition authenticate_field :: "areq \<Rightarrow> cstring" where
  "authenticate_field r = (if ar_proxyreq r = PROXYREQ_PROXY then ''Proxy-Authenticate'' else ''WWW-Authenticate'')"

text \<open>\<open>apr_pstrcat\<close> stops at the name of the realm when there is none.\<close>

definition basic_challenge :: "cstring option \<Rightarrow> cstring" where
  "basic_challenge auth_name =
     ''Basic realm='' @ [DQUOTE] @ (case auth_name of Some name \<Rightarrow> name @ [DQUOTE] | None \<Rightarrow> [])"

definition note_basic_auth_failure :: "cstring option \<Rightarrow> areq \<Rightarrow> areq" where
  "note_basic_auth_failure auth_name r =
     r\<lparr>ar_err_headers_out := table_setn (ar_err_headers_out r) (authenticate_field r) (basic_challenge auth_name)\<rparr>"

definition ap_note_digest_auth_failure :: "cstring option \<Rightarrow> areq \<Rightarrow> areq" where
  "ap_note_digest_auth_failure auth_name r =
     r\<lparr>ar_err_headers_out := table_setn (ar_err_headers_out r) (authenticate_field r)
         (''Digest realm='' @ [DQUOTE] @ (case auth_name of Some name \<Rightarrow> name | None \<Rightarrow> ''(null)'') @ [DQUOTE] @ '', nonce='' @
          [DQUOTE] @ fmt_hex (ar_request_time r) @ [DQUOTE])\<rparr>"

text \<open>\<open>ap_note_auth_failure\<close> and \<open>ap_note_basic_auth_failure\<close> call each other at most once.\<close>

definition ap_note_auth_failure :: "cstring option \<Rightarrow> cstring option \<Rightarrow> areq \<Rightarrow> areq" where
  "ap_note_auth_failure auth_type auth_name r =
     (case auth_type of
        None \<Rightarrow> r
      | Some ty \<Rightarrow>
          if strcaseeq ty ''Basic'' then note_basic_auth_failure auth_name r
          else if strcaseeq ty ''Digest'' then ap_note_digest_auth_failure auth_name r
          else r)"

definition ap_note_basic_auth_failure :: "cstring option \<Rightarrow> cstring option \<Rightarrow> areq \<Rightarrow> areq" where
  "ap_note_basic_auth_failure auth_type auth_name r =
     (if (case auth_type of None \<Rightarrow> True | Some ty \<Rightarrow> \<not> strcaseeq ty ''Basic'') then ap_note_auth_failure auth_type auth_name r
      else note_basic_auth_failure auth_name r)"

section \<open>What the client sent\<close>

definition auth_line_of :: "areq \<Rightarrow> cstring option" where
  "auth_line_of r = table_get (q_headers_in r)
     (Some (if ar_proxyreq r = PROXYREQ_PROXY then ''Proxy-Authorization'' else ''Authorization''))"

text \<open>The decoded line is a C string: it ends at the first NUL.\<close>

definition split_credentials :: "cstring \<Rightarrow> cstring \<times> cstring" where
  "split_credentials auth_line = getword_nulls (c_string (base64_decode auth_line)) (CHR '':'')"

definition get_basic_auth :: "cstring option \<Rightarrow> areq \<Rightarrow> int \<times> (cstring \<times> cstring) option \<times> areq" where
  "get_basic_auth auth_name r =
     (case auth_line_of r of
        None \<Rightarrow> (HTTP_UNAUTHORIZED, None, note_basic_auth_failure auth_name r)
      | Some auth_line \<Rightarrow>
          (case getword auth_line (CHR '' '') of
             (word, line) \<Rightarrow>
               if \<not> strcaseeq word ''Basic'' then (HTTP_UNAUTHORIZED, None, note_basic_auth_failure auth_name r)
               else
                 (case split_credentials (dropWhile c_isspace line) of
                    (user, pw) \<Rightarrow> (OK, Some (user, pw), r\<lparr>ar_user := Some user\<rparr>))))"

text \<open>\<open>ap_get_basic_auth_pw\<close> of the core.\<close>

definition ap_get_basic_auth_pw :: "cstring option \<Rightarrow> cstring option \<Rightarrow> areq \<Rightarrow> int \<times> cstring option \<times> areq" where
  "ap_get_basic_auth_pw auth_type auth_name r =
     (if (case auth_type of None \<Rightarrow> True | Some ty \<Rightarrow> \<not> strcaseeq ty ''Basic'') then (DECLINED, None, r)
      else if auth_name = None then (HTTP_INTERNAL_SERVER_ERROR, None, r)
      else
        (case auth_line_of r of
           None \<Rightarrow> (HTTP_UNAUTHORIZED, None, ap_note_basic_auth_failure auth_type auth_name r)
         | Some auth_line \<Rightarrow>
             (case getword auth_line (CHR '' '') of
                (word, line) \<Rightarrow>
                  if \<not> strcaseeq word ''Basic'' then (HTTP_UNAUTHORIZED, None, ap_note_basic_auth_failure auth_type auth_name r)
                  else
                    (case split_credentials (dropWhile (\<lambda>c. c = CHR '' '' \<or> c = TAB) line) of
                       (user, pw) \<Rightarrow> (OK, Some pw, r\<lparr>ar_user := Some user, ar_ap_auth_type := Some ''Basic''\<rparr>)))))"

section \<open>The check\<close>

definition AUTHN_PROVIDER_NAME_NOTE :: cstring where "AUTHN_PROVIDER_NAME_NOTE = ''authn_provider_name''"
definition AUTHN_DEFAULT_PROVIDER :: cstring where "AUTHN_DEFAULT_PROVIDER = ''file''"

definition ask_provider :: "cstring \<Rightarrow> check_password \<Rightarrow> cstring \<Rightarrow> cstring \<Rightarrow> areq \<Rightarrow> authn_status \<times> areq" where
  "ask_provider name check user pw r =
     (case check (r\<lparr>ar_notes := table_setn (ar_notes r) AUTHN_PROVIDER_NAME_NOTE name\<rparr>) user pw of
        (res, r1) \<Rightarrow> (res, r1\<lparr>ar_notes := table_unset (ar_notes r1) AUTHN_PROVIDER_NAME_NOTE\<rparr>))"

text \<open>The loop over a list of providers that is not empty.\<close>

fun provider_loop :: "(cstring \<times> check_password) list \<Rightarrow> cstring \<Rightarrow> cstring \<Rightarrow> areq \<Rightarrow> authn_status \<times> areq" where
  "provider_loop [] user pw r = (AUTH_USER_NOT_FOUND, r)"
| "provider_loop ((name, check) # ps) user pw r =
     (case ask_provider name check user pw r of
        (res, r1) \<Rightarrow> if res \<noteq> AUTH_USER_NOT_FOUND \<or> ps = [] then (res, r1) else provider_loop ps user pw r1)"

definition check_providers ::
  "(cstring \<Rightarrow> authn_provider option) \<Rightarrow> auth_basic_config \<Rightarrow> cstring \<Rightarrow> cstring \<Rightarrow> areq \<Rightarrow> authn_status \<times> areq" where
  "check_providers registered conf user pw r =
     (if ab_providers conf = [] then
        (case Option.bind (registered AUTHN_DEFAULT_PROVIDER) check_password of
           None \<Rightarrow> (AUTH_GENERAL_ERROR, r)
         | Some check \<Rightarrow> ask_provider AUTHN_DEFAULT_PROVIDER check user pw r)
      else provider_loop (ab_providers conf) user pw r)"

definition auth_return_code :: "authn_status \<Rightarrow> int" where
  "auth_return_code res =
     (case res of AUTH_DENIED \<Rightarrow> HTTP_UNAUTHORIZED | AUTH_USER_NOT_FOUND \<Rightarrow> HTTP_UNAUTHORIZED | _ \<Rightarrow> HTTP_INTERNAL_SERVER_ERROR)"

definition authenticate_basic_user ::
  "(cstring \<Rightarrow> authn_provider option) \<Rightarrow> cstring option \<Rightarrow> cstring option \<Rightarrow> auth_basic_config \<Rightarrow> areq \<Rightarrow> int \<times> areq" where
  "authenticate_basic_user registered auth_type auth_name conf r =
     (if (case auth_type of None \<Rightarrow> True | Some ty \<Rightarrow> \<not> strcaseeq ty ''Basic'') then (DECLINED, r)
      else if auth_name = None then (HTTP_INTERNAL_SERVER_ERROR, r)
      else
        (case get_basic_auth auth_name (r\<lparr>ar_ap_auth_type := Some ''Basic''\<rparr>) of
           (res, None, r1) \<Rightarrow> (res, r1)
         | (res, Some (user, pw), r1) \<Rightarrow>
             (case check_providers registered conf user pw r1 of
                (auth_result, r2) \<Rightarrow>
                  if auth_result = AUTH_GRANTED then (OK, r2)
                  else if \<not> ab_authoritative conf \<and> auth_result \<noteq> AUTH_DENIED then (DECLINED, r2)
                  else (auth_return_code auth_result,
                        if auth_return_code auth_result = HTTP_UNAUTHORIZED then note_basic_auth_failure auth_name r2 else r2))))"

section \<open>What the server makes of what the client sends\<close>

text \<open>The header field a client writes.\<close>

definition basic_line :: "cstring \<Rightarrow> cstring \<Rightarrow> cstring" where
  "basic_line user pw = ''Basic '' @ base64_encode_binary (bytes_of (user @ CHR '':'' # pw))"

lemma dropWhile_none: "(\<And>x. x \<in> set s \<Longrightarrow> \<not> P x) \<Longrightarrow> dropWhile P s = s"
  by (cases s) auto

lemma strchr_append: "c \<notin> set a \<Longrightarrow> strchr (a @ c # b) c = Some (length a)"
  by (induction a) auto

lemma encode_plain: "list_all (\<lambda>c. \<not> c_isspace c) (base64_encode_binary bs)"
proof -
  have b: "\<not> c_isspace (basis i)" if "i < 64" for i
  proof -
    have "\<forall>c\<in>set basis_64. \<not> c_isspace c" by code_simp
    then show ?thesis using basis_in [OF that] by blast
  qed
  have e: "\<not> c_isspace (CHR ''='')" by code_simp
  note six = six_less [THEN b]
  show ?thesis by (induction bs rule: base64_encode_binary.induct) (simp_all only: base64_encode_binary.simps list.pred_inject e six simp_thms not_False_eq_True)
qed

lemma read_basic_line:
  assumes "nul_free user" "nul_free pw" "CHR '':'' \<notin> set user"
  shows "getword (basic_line user pw) (CHR '' '') = (''Basic'', base64_encode_binary (bytes_of (user @ CHR '':'' # pw)))"
    and "split_credentials (base64_encode_binary (bytes_of (user @ CHR '':'' # pw))) = (user, pw)"
proof -
  let ?code = "base64_encode_binary (bytes_of (user @ CHR '':'' # pw))"
  have n: "nul_free (user @ CHR '':'' # pw)" using assms by simp
  have b: "getword (''Basic'' @ CHR '' '' # ?code) (CHR '' '') = (''Basic'', dropWhile (\<lambda>c. c = CHR '' '') ?code)"
    by (simp add: getword_def Let_def)
  have "dropWhile (\<lambda>c. c = CHR '' '') ?code = ?code"
    using encode_plain [of "bytes_of (user @ CHR '':'' # pw)"] by (intro dropWhile_none) (auto simp: list_all_iff c_isspace_def)
  then show "getword (basic_line user pw) (CHR '' '') = (''Basic'', ?code)" using b by (simp add: basic_line_def)
  show "split_credentials ?code = (user, pw)"
    using base64_decode_encode [of "[]" "user @ CHR '':'' # pw"] n strchr_append [OF assms(3), of pw]
    by (simp add: split_credentials_def getword_nulls_def ends_code_def)
qed

lemma basic_credentials_read:
  assumes "auth_line_of r = Some (basic_line user pw)" "nul_free user" "nul_free pw" "CHR '':'' \<notin> set user"
  shows "get_basic_auth auth_name r = (OK, Some (user, pw), r\<lparr>ar_user := Some user\<rparr>)"
proof -
  let ?code = "base64_encode_binary (bytes_of (user @ CHR '':'' # pw))"
  have "dropWhile c_isspace ?code = ?code"
    using encode_plain [of "bytes_of (user @ CHR '':'' # pw)"] by (intro dropWhile_none) (auto simp: list_all_iff)
  moreover have "strcaseeq ''Basic'' ''Basic''" by (simp add: strcaseeq_def)
  ultimately show ?thesis using assms read_basic_line [OF assms(2-4)] by (simp add: get_basic_auth_def)
qed

text \<open>User and password arrive as the client wrote them: from a field with the base64 text of \<open>user:password\<close> both
  readers, that of the module and that of the core, take the same user, which has no colon, and the same password, which may have some.\<close>

theorem basic_credentials:
  assumes "auth_line_of r = Some (basic_line user pw)" "nul_free user" "nul_free pw" "CHR '':'' \<notin> set user" "auth_name \<noteq> None"
  shows "get_basic_auth auth_name r = (OK, Some (user, pw), r\<lparr>ar_user := Some user\<rparr>) \<and>
    ap_get_basic_auth_pw (Some ''basic'') auth_name r = (OK, Some pw, r\<lparr>ar_user := Some user, ar_ap_auth_type := Some ''Basic''\<rparr>)"
proof -
  let ?code = "base64_encode_binary (bytes_of (user @ CHR '':'' # pw))"
  have "c_isspace (CHR '' '')" "c_isspace TAB" by code_simp+
  then have "dropWhile (\<lambda>c. c = CHR '' '' \<or> c = TAB) ?code = ?code"
    using encode_plain [of "bytes_of (user @ CHR '':'' # pw)"] by (intro dropWhile_none) (auto simp: list_all_iff)
  moreover have "strcaseeq ''Basic'' ''Basic''" "strcaseeq ''basic'' ''Basic''" by code_simp+
  ultimately have "ap_get_basic_auth_pw (Some ''basic'') auth_name r = (OK, Some pw, r\<lparr>ar_user := Some user, ar_ap_auth_type := Some ''Basic''\<rparr>)"
    using assms(1,5) read_basic_line [OF assms(2-4)] by (simp add: ap_get_basic_auth_pw_def)
  then show ?thesis using basic_credentials_read [OF assms(1-4)] by blast
qed

section \<open>Who is let in\<close>

text \<open>The providers that are asked.\<close>

definition asked_providers :: "(cstring \<Rightarrow> authn_provider option) \<Rightarrow> auth_basic_config \<Rightarrow> (cstring \<times> check_password) list" where
  "asked_providers registered conf =
     (if ab_providers conf \<noteq> [] then ab_providers conf
      else case Option.bind (registered AUTHN_DEFAULT_PROVIDER) check_password of
        None \<Rightarrow> [] | Some check \<Rightarrow> [(AUTHN_DEFAULT_PROVIDER, check)])"

lemma ask_status: "fst (ask_provider name check user pw r) = fst (check (r\<lparr>ar_notes := table_setn (ar_notes r) AUTHN_PROVIDER_NAME_NOTE name\<rparr>) user pw)"
  by (simp add: ask_provider_def split: prod.split)

lemma loop_granted:
  "fst (provider_loop ps user pw r) = AUTH_GRANTED \<Longrightarrow> \<exists>name check r1. (name, check) \<in> set ps \<and> fst (check r1 user pw) = AUTH_GRANTED"
proof (induction ps user pw r rule: provider_loop.induct)
  case (2 name check ps user pw r)
  obtain res r1 where a: "ask_provider name check user pw r = (res, r1)" by fastforce
  show ?case
  proof (cases "res \<noteq> AUTH_USER_NOT_FOUND \<or> ps = []")
    case True
    then have "res = AUTH_GRANTED" using "2.prems" a by simp
    then show ?thesis using a ask_status [of name check user pw r] by (metis fst_conv list.set_intros(1))
  next
    case False
    then show ?thesis using 2 a by fastforce
  qed
qed simp

text \<open>The credentials a request carries.\<close>

definition credentials_of :: "areq \<Rightarrow> (cstring \<times> cstring) option" where
  "credentials_of r =
     (case auth_line_of r of
        None \<Rightarrow> None
      | Some line \<Rightarrow>
          if strcaseeq (fst (getword line (CHR '' ''))) ''Basic''
          then Some (split_credentials (dropWhile c_isspace (snd (getword line (CHR '' ''))))) else None)"

lemma get_basic_auth_cases:
  "get_basic_auth auth_name r =
    (case credentials_of r of
       None \<Rightarrow> (HTTP_UNAUTHORIZED, None, note_basic_auth_failure auth_name r)
     | Some (user, pw) \<Rightarrow> (OK, Some (user, pw), r\<lparr>ar_user := Some user\<rparr>))"
  by (simp add: get_basic_auth_def credentials_of_def split: option.split prod.split)

lemma check_granted:
  assumes "fst (check_providers registered conf user pw r) = AUTH_GRANTED"
  shows "\<exists>name check r1. (name, check) \<in> set (asked_providers registered conf) \<and> fst (check r1 user pw) = AUTH_GRANTED"
proof (cases "ab_providers conf = []")
  case True
  then show ?thesis using assms ask_status by (fastforce simp: check_providers_def asked_providers_def split: option.splits)
next
  case False
  then show ?thesis using assms loop_granted [of "ab_providers conf" user pw r] by (simp add: check_providers_def asked_providers_def)
qed

lemma authenticated:
  assumes "fst (authenticate_basic_user registered auth_type auth_name conf r) = OK"
  shows "\<exists>user pw name check r1. credentials_of r = Some (user, pw) \<and>
    (name, check) \<in> set (asked_providers registered conf) \<and> fst (check r1 user pw) = AUTH_GRANTED"
proof -
  let ?r = "r\<lparr>ar_ap_auth_type := Some ''Basic''\<rparr>"
  have c: "credentials_of ?r = credentials_of r" by (simp add: credentials_of_def auth_line_of_def)
  have n: "DECLINED \<noteq> OK" "HTTP_INTERNAL_SERVER_ERROR \<noteq> OK" "HTTP_UNAUTHORIZED \<noteq> OK"
    by (simp_all add: DECLINED_def HTTP_INTERNAL_SERVER_ERROR_def HTTP_UNAUTHORIZED_def OK_def)
  have code: "auth_return_code res \<noteq> OK" for res using n by (simp add: auth_return_code_def split: authn_status.split)
  obtain user pw where cr: "credentials_of r = Some (user, pw)"
    using assms n by (cases "credentials_of r") (auto simp: authenticate_basic_user_def get_basic_auth_cases c split: if_splits)
  obtain res r2 where p: "check_providers registered conf user pw (?r\<lparr>ar_user := Some user\<rparr>) = (res, r2)" by fastforce
  have "res = AUTH_GRANTED" using assms n code cr p by (auto simp: authenticate_basic_user_def get_basic_auth_cases c split: if_splits)
  then show ?thesis using check_granted [of registered conf user pw] p cr by (metis fst_conv)
qed

text \<open>A request passes Basic authentication only when it carries credentials and one of the providers that the configuration
  names, or the default when it names none, has granted access to exactly this user and password.\<close>

theorem basic_auth_granted:
  assumes "fst (authenticate_basic_user registered auth_type auth_name conf r) = OK"
  shows "\<exists>user pw name check r1. credentials_of r = Some (user, pw) \<and>
    (name, check) \<in> set (asked_providers registered conf) \<and> fst (check r1 user pw) = AUTH_GRANTED"
  using assms by (rule authenticated)

text \<open>What a provider leaves alone.\<close>

definition keeps_headers :: "check_password \<Rightarrow> bool" where
  "keeps_headers check \<longleftrightarrow> (\<forall>r user pw. ar_err_headers_out (snd (check r user pw)) = ar_err_headers_out r \<and>
     ar_proxyreq (snd (check r user pw)) = ar_proxyreq r)"

lemma ask_keeps:
  "keeps_headers check \<Longrightarrow> ar_err_headers_out (snd (ask_provider name check user pw r)) = ar_err_headers_out r \<and>
    ar_proxyreq (snd (ask_provider name check user pw r)) = ar_proxyreq r"
  unfolding ask_provider_def keeps_headers_def by (simp add: case_prod_beta)

lemma loop_keeps:
  "\<forall>(name, check)\<in>set ps. keeps_headers check \<Longrightarrow> ar_err_headers_out (snd (provider_loop ps user pw r)) = ar_err_headers_out r \<and>
    ar_proxyreq (snd (provider_loop ps user pw r)) = ar_proxyreq r"
proof (induction ps user pw r rule: provider_loop.induct)
  case (2 name check ps user pw r)
  then show ?case using ask_keeps [of check name user pw r] by (cases "ask_provider name check user pw r") auto
qed simp

lemma check_keeps:
  "\<forall>(name, check)\<in>set (asked_providers registered conf). keeps_headers check \<Longrightarrow>
    ar_err_headers_out (snd (check_providers registered conf user pw r)) = ar_err_headers_out r \<and>
    ar_proxyreq (snd (check_providers registered conf user pw r)) = ar_proxyreq r"
  using loop_keeps [of "ab_providers conf" user pw r] ask_keeps
  by (auto simp: check_providers_def asked_providers_def split: option.splits if_splits)

lemma authenticate_field_nul_free: "nul_free (authenticate_field r)"
  by (simp add: authenticate_field_def)

lemma noted: "headers_ok (ar_err_headers_out r) \<Longrightarrow>
    table_get (ar_err_headers_out (note_basic_auth_failure auth_name r)) (Some (authenticate_field r)) = Some (basic_challenge auth_name)"
  using headers.get_set [of "ar_err_headers_out r" "authenticate_field r"]
  by (simp add: note_basic_auth_failure_def same_texts authenticate_field_nul_free strcaseeq_def)

text \<open>Whoever is refused with 401 is told how to log in: the error headers then hold the challenge with the name of the realm,
  in the field for proxies when the request is for the proxy.\<close>

theorem unauthorized_challenged:
  assumes "fst (authenticate_basic_user registered auth_type auth_name conf r) = HTTP_UNAUTHORIZED"
    and "\<forall>(name, check)\<in>set (asked_providers registered conf). keeps_headers check" "headers_ok (ar_err_headers_out r)"
  shows "table_get (ar_err_headers_out (snd (authenticate_basic_user registered auth_type auth_name conf r))) (Some (authenticate_field r)) =
    Some (basic_challenge auth_name)"
proof -
  let ?r = "r\<lparr>ar_ap_auth_type := Some ''Basic''\<rparr>"
  have n: "DECLINED \<noteq> HTTP_UNAUTHORIZED" "HTTP_INTERNAL_SERVER_ERROR \<noteq> HTTP_UNAUTHORIZED" "OK \<noteq> HTTP_UNAUTHORIZED"
    by (simp_all add: DECLINED_def HTTP_INTERNAL_SERVER_ERROR_def HTTP_UNAUTHORIZED_def OK_def)
  have f: "authenticate_field r1 = authenticate_field r" if "ar_proxyreq r1 = ar_proxyreq r" for r1 using that by (simp add: authenticate_field_def)
  show ?thesis
  proof (cases "credentials_of ?r")
    case None
    then show ?thesis using assms(1,3) n noted [of ?r auth_name] f [of ?r]
      by (auto simp: authenticate_basic_user_def get_basic_auth_cases split: if_splits)
  next
    case (Some up)
    obtain user pw where up: "up = (user, pw)" by (cases up)
    let ?r1 = "?r\<lparr>ar_user := Some user\<rparr>"
    obtain res r2 where p: "check_providers registered conf user pw ?r1 = (res, r2)" by fastforce
    then have k: "ar_err_headers_out r2 = ar_err_headers_out r" "ar_proxyreq r2 = ar_proxyreq r" using check_keeps [OF assms(2), of user pw ?r1] by simp_all
    then show ?thesis using assms(1,3) n noted [of r2 auth_name] f [of r2] Some up p
      by (auto simp: authenticate_basic_user_def get_basic_auth_cases split: if_splits)
  qed
qed

section \<open>Examples\<close>

lemma empty_headers: "headers_ok (table_make any)"
  using table_make_ok [of any] by (simp add: headers_ok_def entries_def table_make_def)

definition sample_areq :: "cstring \<Rightarrow> cstring \<Rightarrow> areq" where
  "sample_areq user pw = req.extend ((new_req sample_srv (\<lambda>_. 0))\<lparr>q_headers_in := table_set (table_make (\<lambda>_. 0)) ''Authorization'' (basic_line user pw)\<rparr>)
     (areq.fields 0 None None (table_make (\<lambda>_. 0)) (table_make (\<lambda>_. 0)) 0)"

lemma areq_fields: "ar_proxyreq (sample_areq user pw) = 0" "ar_err_headers_out (sample_areq user pw) = table_make (\<lambda>_. 0)"
  "q_headers_in (sample_areq user pw) = table_set (table_make (\<lambda>_. 0)) ''Authorization'' (basic_line user pw)"
  by (simp_all add: sample_areq_def req.defs areq.defs)

lemma sample_line: "auth_line_of (sample_areq user pw) = Some (basic_line user pw)"
proof -
  have "nul_free ''Authorization''" by simp
  then show ?thesis using headers.get_set [OF empty_headers, of "''Authorization''"]
    by (simp add: auth_line_of_def areq_fields PROXYREQ_PROXY_def strcaseeq_def)
qed

theorem basic_credentials_witness:
  "get_basic_auth (Some ''realm'') (sample_areq ''Aladdin'' ''open:sesame'') =
    (OK, Some (''Aladdin'', ''open:sesame''), (sample_areq ''Aladdin'' ''open:sesame'')\<lparr>ar_user := Some ''Aladdin''\<rparr>)"
proof -
  have "nul_free ''Aladdin''" "nul_free ''open:sesame''" "CHR '':'' \<notin> set ''Aladdin''" "Some ''realm'' \<noteq> None" by simp_all
  from basic_credentials [OF sample_line this] show ?thesis by simp
qed

definition sample_check :: "authn_status \<Rightarrow> check_password" where
  "sample_check res r user pw = (res, r)"

lemma sample_credentials: "credentials_of (sample_areq ''Aladdin'' pw) = Some (''Aladdin'', pw)" if "nul_free pw"
proof -
  have "nul_free ''Aladdin''" "CHR '':'' \<notin> set ''Aladdin''" by simp_all
  from basic_credentials_read [OF sample_line this(1) that this(2), of None] show ?thesis
    by (simp add: get_basic_auth_cases HTTP_UNAUTHORIZED_def split: option.splits prod.splits)
qed

definition sample_auth :: "authn_status \<Rightarrow> int \<times> areq" where
  "sample_auth res = authenticate_basic_user (\<lambda>_. None) (Some ''Basic'') (Some ''realm'')
     \<lparr>ab_providers = [(''file'', sample_check res)], ab_authoritative = True\<rparr> (sample_areq ''Aladdin'' ''sesame'')"

lemma sample_auth_code: "fst (sample_auth res) = (if res = AUTH_GRANTED then OK else auth_return_code res)"
proof -
  have "strcaseeq ''Basic'' ''Basic''" by code_simp
  moreover have "credentials_of ((sample_areq ''Aladdin'' ''sesame'')\<lparr>ar_ap_auth_type := Some ''Basic''\<rparr>) = Some (''Aladdin'', ''sesame'')"
    using sample_credentials [of "''sesame''"] by (simp add: credentials_of_def auth_line_of_def)
  ultimately show ?thesis
    by (simp add: sample_auth_def authenticate_basic_user_def get_basic_auth_cases check_providers_def ask_provider_def sample_check_def)
qed

theorem basic_auth_granted_witness:
  "fst (sample_auth AUTH_GRANTED) = OK \<and>
    (\<exists>user pw name check r1. credentials_of (sample_areq ''Aladdin'' ''sesame'') = Some (user, pw) \<and>
      (name, check) \<in> set [(''file'', sample_check AUTH_GRANTED)] \<and> fst (check r1 user pw) = AUTH_GRANTED)"
proof -
  have g: "fst (sample_auth AUTH_GRANTED) = OK" by (simp add: sample_auth_code)
  from basic_auth_granted [OF g [unfolded sample_auth_def]] g show ?thesis by (simp add: asked_providers_def)
qed

theorem unauthorized_challenged_witness:
  "fst (sample_auth AUTH_DENIED) = HTTP_UNAUTHORIZED \<and>
    table_get (ar_err_headers_out (snd (sample_auth AUTH_DENIED))) (Some ''WWW-Authenticate'') = Some (''Basic realm='' @ [DQUOTE] @ ''realm'' @ [DQUOTE])"
proof -
  have g: "fst (sample_auth AUTH_DENIED) = HTTP_UNAUTHORIZED" by (simp add: sample_auth_code auth_return_code_def)
  have "headers_ok (ar_err_headers_out (sample_areq ''Aladdin'' ''sesame''))" by (simp add: areq_fields empty_headers)
  from unauthorized_challenged [OF g [unfolded sample_auth_def] _ this] g show ?thesis
    by (simp add: asked_providers_def keeps_headers_def sample_check_def sample_auth_def [symmetric] authenticate_field_def areq_fields
        PROXYREQ_PROXY_def basic_challenge_def)
qed

end
