(* ===== verification/Apr_Hash.thy ===== *)
theory Apr_Hash
  imports Cache_Hash
begin

text \<open>
  The hash table of the runtime, \<open>srclib/apr/tables/apr_hash.c\<close>. A chain is the list of its entries; a key is the
  bytes that \<open>klen\<close> counts, for \<open>APR_HASH_KEY_STRING\<close> those before the NUL. The number of entries is
  taken to fit into 32 bits. Pools, and the checks of \<open>APR_POOL_DEBUG\<close>, are left out.
\<close>

section \<open>State\<close>

record 'v apr_hash_entry =
  e_hash :: u32
  e_key :: cstring
  e_val :: 'v

record 'v apr_hash =
  ht_array :: "'v apr_hash_entry list list"
  ht_count :: nat
  ht_max :: nat
  ht_hash_func :: "cstring \<Rightarrow> u32"
  ht_free :: "'v apr_hash_entry list"

definition INITIAL_MAX :: nat where "INITIAL_MAX = 15"

definition hashfunc_default :: "cstring \<Rightarrow> u32" where
  "hashfunc_default key = foldl (\<lambda>hash p. hash * 33 + of_nat (ccode p)) 0 key"

definition alloc_array :: "nat \<Rightarrow> 'v apr_hash_entry list list" where
  "alloc_array m = replicate (m + 1) []"

definition apr_hash_make :: "'v apr_hash" where
  "apr_hash_make = \<lparr>ht_array = alloc_array INITIAL_MAX, ht_count = 0, ht_max = INITIAL_MAX, ht_hash_func = hashfunc_default, ht_free = []\<rparr>"

definition apr_hash_make_custom :: "(cstring \<Rightarrow> u32) \<Rightarrow> 'v apr_hash" where
  "apr_hash_make_custom hash_func = apr_hash_make\<lparr>ht_hash_func := hash_func\<rparr>"

section \<open>Iteration\<close>

text \<open>The index: the entry, the rest of its chain, and the number of the next chain.\<close>

record 'v ht_index =
  hx_this :: "'v apr_hash_entry option"
  hx_next :: "'v apr_hash_entry list"
  hx_index :: nat

function next_chain :: "'v apr_hash \<Rightarrow> nat \<Rightarrow> 'v ht_index option" where
  "next_chain ht i =
     (if i > ht_max ht then None
      else (case ht_array ht ! i of
              [] \<Rightarrow> next_chain ht (i + 1)
            | e # rest \<Rightarrow> Some \<lparr>hx_this = Some e, hx_next = rest, hx_index = i + 1\<rparr>))"
  by pat_completeness auto

termination next_chain
  by (relation "measure (\<lambda>(ht, i). ht_max ht + 1 - i)") auto

declare next_chain.simps [simp del]

definition apr_hash_next :: "'v apr_hash \<Rightarrow> 'v ht_index \<Rightarrow> 'v ht_index option" where
  "apr_hash_next ht hi =
     (case hx_next hi of
        e # rest \<Rightarrow> Some (hi\<lparr>hx_this := Some e, hx_next := rest\<rparr>)
      | [] \<Rightarrow> next_chain ht (hx_index hi))"

definition apr_hash_first :: "'v apr_hash \<Rightarrow> 'v ht_index option" where
  "apr_hash_first ht = apr_hash_next ht \<lparr>hx_this = None, hx_next = [], hx_index = 0\<rparr>"

section \<open>Entries\<close>

definition chain_of :: "nat \<Rightarrow> u32 \<Rightarrow> nat" where
  "chain_of m hash = and (unat hash) m"

definition push_entry :: "nat \<Rightarrow> 'v apr_hash_entry list list \<Rightarrow> 'v apr_hash_entry \<Rightarrow> 'v apr_hash_entry list list" where
  "push_entry m arr e = (let i = chain_of m (e_hash e) in arr[i := e # arr ! i])"

text \<open>The loop of \<open>expand_array\<close> goes through the entries in the order of the iteration.\<close>

definition expand_array :: "'v apr_hash \<Rightarrow> 'v apr_hash" where
  "expand_array ht =
     (let new_max = ht_max ht * 2 + 1
      in ht\<lparr>ht_array := foldl (push_entry new_max) (alloc_array new_max) (concat (ht_array ht)), ht_max := new_max\<rparr>)"

definition entry_is :: "u32 \<Rightarrow> cstring \<Rightarrow> 'v apr_hash_entry \<Rightarrow> bool" where
  "entry_is hash key e \<longleftrightarrow> e_hash e = hash \<and> length (e_key e) = length key \<and> e_key e = key"

text \<open>Chain and position where \<open>find_entry\<close> stops; at the end of the chain it adds an entry when there is a value.\<close>

definition apr_find_entry :: "'v apr_hash \<Rightarrow> cstring \<Rightarrow> 'v option \<Rightarrow> (nat \<times> nat) \<times> 'v apr_hash" where
  "apr_find_entry ht key v =
     (let hash = ht_hash_func ht key; b = chain_of (ht_max ht) hash; chain = ht_array ht ! b;
          i = scan_chain (entry_is hash key) chain
      in if i < length chain then ((b, i), ht)
         else (case v of
                 None \<Rightarrow> ((b, i), ht)
               | Some x \<Rightarrow> ((b, i), ht\<lparr>ht_array := (ht_array ht)[b := chain @ [\<lparr>e_hash = hash, e_key = key, e_val = x\<rparr>]],
                                      ht_count := ht_count ht + 1, ht_free := tl (ht_free ht)\<rparr>)))"

definition apr_hash_get :: "'v apr_hash \<Rightarrow> cstring \<Rightarrow> 'v option" where
  "apr_hash_get ht key =
     (case apr_find_entry ht key None of
        ((b, i), _) \<Rightarrow> if i < length (ht_array ht ! b) then Some (e_val (ht_array ht ! b ! i)) else None)"

definition apr_hash_set :: "'v apr_hash \<Rightarrow> cstring \<Rightarrow> 'v option \<Rightarrow> 'v apr_hash" where
  "apr_hash_set ht0 key v =
     (case apr_find_entry ht0 key v of
        ((b, i), ht) \<Rightarrow>
          (let chain = ht_array ht ! b
           in if i < length chain then
                (case v of
                   None \<Rightarrow> ht\<lparr>ht_array := (ht_array ht)[b := take i chain @ drop (i + 1) chain],
                              ht_free := chain ! i # ht_free ht, ht_count := ht_count ht - 1\<rparr>
                 | Some x \<Rightarrow>
                     (let ht1 = ht\<lparr>ht_array := (ht_array ht)[b := chain[i := (chain ! i)\<lparr>e_val := x\<rparr>]]\<rparr>
                      in if ht_count ht1 > ht_max ht1 then expand_array ht1 else ht1))
              else ht))"

section \<open>Whole tables\<close>

definition apr_hash_copy :: "'v apr_hash \<Rightarrow> 'v apr_hash" where
  "apr_hash_copy orig = orig\<lparr>ht_array := map (map (\<lambda>e. e)) (ht_array orig), ht_free := []\<rparr>"

definition apr_hash_clear :: "'v apr_hash \<Rightarrow> 'v apr_hash" where
  "apr_hash_clear ht = foldl (\<lambda>h e. apr_hash_set h (e_key e) None) ht (concat (ht_array ht))"

definition apr_hash_count :: "'v apr_hash \<Rightarrow> nat" where
  "apr_hash_count ht = ht_count ht"

definition same_bytes :: "cstring \<Rightarrow> 'v apr_hash_entry \<Rightarrow> bool" where
  "same_bytes key e \<longleftrightarrow> length (e_key e) = length key \<and> e_key e = key"

text \<open>One entry of the overlay; \<open>merger\<close> gets the value of the overlay and that of the base.\<close>

definition merge_entry :: "(cstring \<Rightarrow> 'v \<Rightarrow> 'v \<Rightarrow> 'v) option \<Rightarrow> 'v apr_hash \<Rightarrow> 'v apr_hash_entry \<Rightarrow> 'v apr_hash" where
  "merge_entry merger res it =
     (let i = chain_of (ht_max res) (e_hash it); chain = ht_array res ! i; j = scan_chain (same_bytes (e_key it)) chain
      in if j < length chain then
           (let ent = chain ! j;
                x = (case merger of Some f \<Rightarrow> f (e_key it) (e_val it) (e_val ent) | None \<Rightarrow> e_val it)
            in res\<lparr>ht_array := (ht_array res)[i := chain[j := ent\<lparr>e_val := x\<rparr>]]\<rparr>)
         else res\<lparr>ht_array := (ht_array res)[i := it # chain], ht_count := ht_count res + 1\<rparr>)"

definition apr_hash_merge :: "'v apr_hash \<Rightarrow> 'v apr_hash \<Rightarrow> (cstring \<Rightarrow> 'v \<Rightarrow> 'v \<Rightarrow> 'v) option \<Rightarrow> 'v apr_hash" where
  "apr_hash_merge overlay base merger =
     (let m0 = (if ht_max overlay > ht_max base then ht_max overlay else ht_max base);
          m = (if ht_count base + ht_count overlay > m0 then m0 * 2 + 1 else m0);
          res = \<lparr>ht_array = foldl (push_entry m) (alloc_array m) (concat (ht_array base)), ht_count = ht_count base,
                 ht_max = m, ht_hash_func = ht_hash_func base, ht_free = []\<rparr>
      in foldl (merge_entry merger) res (concat (ht_array overlay)))"

definition apr_hash_overlay :: "'v apr_hash \<Rightarrow> 'v apr_hash \<Rightarrow> 'v apr_hash" where
  "apr_hash_overlay overlay base = apr_hash_merge overlay base None"

text \<open>\<open>apr_hash_do\<close>: the callback, with its state, ends the loop by 0.\<close>

fun do_loop :: "('s \<Rightarrow> cstring \<Rightarrow> 'v \<Rightarrow> int \<times> 's) \<Rightarrow> 's \<Rightarrow> 'v apr_hash_entry list \<Rightarrow> int \<times> 's" where
  "do_loop f s [] = (1, s)"
| "do_loop f s (e # es) = (case f s (e_key e) (e_val e) of (rv, s1) \<Rightarrow> if rv = 0 then (0, s1) else do_loop f s1 es)"

definition apr_hash_do :: "('s \<Rightarrow> cstring \<Rightarrow> 'v \<Rightarrow> int \<times> 's) \<Rightarrow> 's \<Rightarrow> 'v apr_hash \<Rightarrow> int \<times> 's" where
  "apr_hash_do f s ht = do_loop f s (concat (ht_array ht))"

section \<open>Chains\<close>

lemma chain_of_mod: "chain_of (2 ^ n - 1) h = unat h mod 2 ^ n"
proof -
  have "mask n = (2 ^ n - 1 :: nat)" by (rule mask_eq_exp_minus_1)
  then show ?thesis unfolding chain_of_def by (metis take_bit_eq_mask take_bit_eq_mod)
qed

text \<open>A table of \<open>2 ^ n\<close> chains: every entry is in its chain, and no key is twice in it.\<close>

definition arr_ok :: "(cstring \<Rightarrow> u32) \<Rightarrow> nat \<Rightarrow> 'v apr_hash_entry list list \<Rightarrow> bool" where
  "arr_ok h m arr \<longleftrightarrow> length arr = m + 1 \<and> (\<exists>n. m + 1 = 2 ^ n) \<and>
     (\<forall>b\<le>m. distinct (map e_key (arr ! b)) \<and> (\<forall>e\<in>set (arr ! b). e_hash e = h (e_key e) \<and> chain_of m (h (e_key e)) = b))"

definition apr_hash_ok :: "'v apr_hash \<Rightarrow> bool" where
  "apr_hash_ok ht \<longleftrightarrow> arr_ok (ht_hash_func ht) (ht_max ht) (ht_array ht) \<and> ht_count ht = length (concat (ht_array ht))"

definition kv :: "'v apr_hash_entry \<Rightarrow> cstring \<times> 'v" where
  "kv e = (e_key e, e_val e)"

definition arr_map :: "'v apr_hash_entry list list \<Rightarrow> cstring \<Rightarrow> 'v option" where
  "arr_map arr = map_of (map kv (concat arr))"

definition apr_hash_abs :: "'v apr_hash \<Rightarrow> cstring \<Rightarrow> 'v option" where
  "apr_hash_abs ht = arr_map (ht_array ht)"

lemma arr_okD:
  assumes "arr_ok h m arr"
  shows "length arr = m + 1" "b \<le> m \<Longrightarrow> distinct (map e_key (arr ! b))" "b \<le> m \<Longrightarrow> e \<in> set (arr ! b) \<Longrightarrow> e_hash e = h (e_key e) \<and> chain_of m (h (e_key e)) = b"
  using assms by (auto simp: arr_ok_def)

lemma chain_of_le: "arr_ok h m arr \<Longrightarrow> chain_of m x \<le> m"
proof -
  assume "arr_ok h m arr"
  then obtain n where "m + 1 = 2 ^ n" by (auto simp: arr_ok_def)
  then have "m = 2 ^ n - 1" by simp
  then show ?thesis using chain_of_mod [of n x] by (simp add: less_eq_Suc_le [symmetric] le_diff_conv2 Suc_le_eq)
qed

lemma in_concat: "e \<in> set (concat xs) \<longleftrightarrow> (\<exists>i<length xs. e \<in> set (xs ! i))"
  unfolding set_concat by (metis UN_E UN_I in_set_conv_nth nth_mem)

lemma fst_kv: "map fst (map kv es) = map e_key es"
  by (simp add: kv_def)

lemma chain_keys:
  assumes "arr_ok h m arr" "b \<le> m"
  shows "map_of (map kv (arr ! b)) k = Some v \<longleftrightarrow> (\<exists>e\<in>set (arr ! b). e_key e = k \<and> e_val e = v)"
  using arr_okD(2) [OF assms] by (subst map_of_eq_Some_iff) (auto simp: kv_def comp_def)

lemma concat_keys:
  assumes "arr_ok h m arr"
  shows "distinct (map e_key (concat arr))"
proof -
  have d: "distinct (map e_key (concat xs))"
    if "\<forall>b<length xs. distinct (map e_key (xs ! b)) \<and> (\<forall>e\<in>set (xs ! b). chain_of m (h (e_key e)) = b)" for xs :: "'a apr_hash_entry list list"
    using that
  proof (induction xs rule: rev_induct)
    case (snoc x xs)
    have "\<forall>b<length xs. distinct (map e_key (xs ! b)) \<and> (\<forall>e\<in>set (xs ! b). chain_of m (h (e_key e)) = b)"
      using snoc.prems by (auto simp: nth_append split: if_splits)
    then have ih: "distinct (map e_key (concat xs))" "\<forall>e\<in>set (concat xs). chain_of m (h (e_key e)) < length xs"
      using snoc.IH by (auto simp only: in_concat)
    have x: "distinct (map e_key x)" "\<forall>e\<in>set x. chain_of m (h (e_key e)) = length xs"
      using snoc.prems [THEN spec, of "length xs"] by auto
    have "e_key ` set (concat xs) \<inter> e_key ` set x = {}" using ih(2) x(2) by fastforce
    then show ?case using ih(1) x(1) by simp
  qed simp
  show ?thesis using assms by (intro d) (auto simp: arr_ok_def)
qed

lemma arr_map_Some:
  assumes "arr_ok h m arr"
  shows "arr_map arr k = Some v \<longleftrightarrow> (\<exists>e\<in>set (concat arr). e_key e = k \<and> e_val e = v)"
  unfolding arr_map_def using concat_keys [OF assms] by (subst map_of_eq_Some_iff) (auto simp: kv_def comp_def image_iff)

lemma arr_map_chain:
  assumes "arr_ok h m arr"
  shows "arr_map arr k = map_of (map kv (arr ! chain_of m (h k))) k"
proof -
  let ?b = "chain_of m (h k)"
  have b: "?b \<le> m" by (rule chain_of_le [OF assms])
  have "(\<exists>e\<in>set (concat arr). e_key e = k \<and> e_val e = v) \<longleftrightarrow> (\<exists>e\<in>set (arr ! ?b). e_key e = k \<and> e_val e = v)" for v
  proof
    assume "\<exists>e\<in>set (concat arr). e_key e = k \<and> e_val e = v"
    then obtain e c where "c \<le> m" "e \<in> set (arr ! c)" "e_key e = k" "e_val e = v"
      using arr_okD(1) [OF assms] by (auto simp only: in_concat Suc_eq_plus1 [symmetric] less_Suc_eq_le)
    then show "\<exists>e\<in>set (arr ! ?b). e_key e = k \<and> e_val e = v" using arr_okD(3) [OF assms, of c e] by auto
  next
    assume "\<exists>e\<in>set (arr ! ?b). e_key e = k \<and> e_val e = v"
    then show "\<exists>e\<in>set (concat arr). e_key e = k \<and> e_val e = v" using b arr_okD(1) [OF assms] in_concat [of _ arr] by (metis Suc_eq_plus1 less_Suc_eq_le)
  qed
  then have "arr_map arr k = Some v \<longleftrightarrow> map_of (map kv (arr ! ?b)) k = Some v" for v
    using arr_map_Some [OF assms] chain_keys [OF assms b] by simp
  then show ?thesis by (metis not_Some_eq)
qed

lemma arr_update:
  assumes "arr_ok h m arr" "b \<le> m" "distinct (map e_key c)" "\<forall>e\<in>set c. e_hash e = h (e_key e) \<and> chain_of m (h (e_key e)) = b"
  shows "arr_ok h m (arr[b := c])"
    and "arr_map (arr[b := c]) k = (if chain_of m (h k) = b then map_of (map kv c) k else arr_map arr k)"
    and "length (concat (arr[b := c])) + length (arr ! b) = length (concat arr) + length c"
proof -
  have l: "length arr = m + 1" using assms(1) by (rule arr_okD)
  show ok: "arr_ok h m (arr[b := c])" using assms by (auto simp: arr_ok_def nth_list_update)
  show "arr_map (arr[b := c]) k = (if chain_of m (h k) = b then map_of (map kv c) k else arr_map arr k)"
    using assms(2) l by (simp add: arr_map_chain [OF ok] arr_map_chain [OF assms(1)] nth_list_update)
  have "concat arr = concat (take b arr) @ arr ! b @ concat (drop (Suc b) arr)"
    using assms(2) l by (metis Suc_eq_plus1 concat.simps(2) concat_append id_take_nth_drop le_imp_less_Suc)
  moreover have "concat (arr[b := c]) = concat (take b arr) @ c @ concat (drop (Suc b) arr)"
    using assms(2) l by (simp add: upd_conv_take_nth_drop)
  ultimately show "length (concat (arr[b := c])) + length (arr ! b) = length (concat arr) + length c" by simp
qed

section \<open>Growing\<close>

lemma push_all:
  "b < length arr \<Longrightarrow> foldl (push_entry m) arr es ! b = rev (filter (\<lambda>e. chain_of m (e_hash e) = b) es) @ arr ! b"
  "length (foldl (push_entry m) arr es) = length arr"
  by (induction es arbitrary: arr) (auto simp: push_entry_def Let_def nth_list_update)

lemma alloc_nth: "b \<le> m \<Longrightarrow> alloc_array m ! b = []" "length (alloc_array m) = m + 1"
  by (simp_all add: alloc_array_def del: replicate_Suc)

lemma grown:
  fixes arr :: "'v apr_hash_entry list list"
  assumes "arr_ok h m arr" "m' + 1 = 2 ^ n"
  defines "arr' \<equiv> foldl (push_entry m') (alloc_array m') (concat arr)"
  shows "arr_ok h m' arr'" "arr_map arr' = arr_map arr" "length (concat arr') = length (concat arr)"
proof -
  have c: "e_hash e = h (e_key e)" if e: "e \<in> set (concat arr)" for e
  proof -
    obtain i where "i < length arr" "e \<in> set (arr ! i)" using e unfolding in_concat by blast
    then show ?thesis using arr_okD(1) [OF assms(1)] arr_okD(3) [OF assms(1), of i e] by simp
  qed
  have c': "e_hash e = h (e_key e)" if "x \<in> set arr" "e \<in> set x" for x e using c that by auto
  have "m' = 2 ^ n - 1" using assms(2) by simp
  then have le: "chain_of m' x \<le> m'" for x using chain_of_mod [of n x] by (simp add: le_diff_conv2 Suc_le_eq less_eq_Suc_le [symmetric])
  have l: "length arr' = m' + 1" by (simp add: arr'_def push_all(2) alloc_nth)
  have nth: "arr' ! b = rev (filter (\<lambda>e. chain_of m' (e_hash e) = b) (concat arr))" if "b \<le> m'" for b
    using that push_all(1) [of b "alloc_array m' :: 'v apr_hash_entry list list" m' "concat arr"] by (simp add: arr'_def alloc_nth)
  show ok: "arr_ok h m' arr'"
    unfolding arr_ok_def using l nth assms(2) c' concat_keys [OF assms(1)] by (auto simp: rev_map [symmetric] distinct_map_filter)
  have s: "set (concat arr') = set (concat arr)"
  proof -
    have "e \<in> set (concat arr') \<longleftrightarrow> e \<in> set (concat arr)" for e
      unfolding in_concat [of e arr'] using l nth le [of "e_hash e"] by (auto simp add: less_Suc_eq_le simp del: set_concat)
    then show ?thesis by blast
  qed
  have "arr_map arr' k = Some v \<longleftrightarrow> arr_map arr k = Some v" for k v
    by (simp only: arr_map_Some [OF ok] arr_map_Some [OF assms(1)] s)
  then show "arr_map arr' = arr_map arr" by (metis (no_types) ext not_Some_eq)
  have "distinct (concat arr')" "distinct (concat arr)"
    using concat_keys [OF ok] concat_keys [OF assms(1)] distinct_map by blast+
  then show "length (concat arr') = length (concat arr)" using s by (metis distinct_card)
qed

section \<open>Looking up and setting\<close>

lemma scan_chain_cong: "(\<And>x. x \<in> set xs \<Longrightarrow> P x = Q x) \<Longrightarrow> scan_chain P xs = scan_chain Q xs"
  by (induction xs) auto

abbreviation at_key :: "cstring \<Rightarrow> 'v apr_hash_entry list \<Rightarrow> nat" where
  "at_key key xs \<equiv> scan_chain (\<lambda>e. e_key e = key) xs"

lemma chain_lookup: "map_of (map kv xs) key = (if at_key key xs < length xs then Some (e_val (xs ! at_key key xs)) else None)"
  by (induction xs) (auto simp: kv_def)

lemma chain_replace:
  "at_key key xs < length xs \<Longrightarrow> map_of (map kv (xs[at_key key xs := (xs ! at_key key xs)\<lparr>e_val := x\<rparr>])) = (map_of (map kv xs))(key \<mapsto> x)"
  by (induction xs) (auto simp: kv_def fun_eq_iff)

lemma chain_replace_keys: "map e_key (xs[i := (xs ! i)\<lparr>e_val := x\<rparr>]) = map e_key xs"
  by (induction xs arbitrary: i) (auto split: nat.split)

lemma chain_delete:
  "distinct (map e_key xs) \<Longrightarrow> at_key key xs < length xs \<Longrightarrow>
    map_of (map kv (take (at_key key xs) xs @ drop (at_key key xs + 1) xs)) = (map_of (map kv xs))(key := None)"
proof (induction xs)
  case (Cons e xs)
  have kv: "kv e = (e_key e, e_val e)" by (simp add: kv_def)
  show ?case
  proof (cases "e_key e = key")
    case True
    then have "map_of (map kv xs) key = None" using Cons.prems(1) by (auto simp: map_of_eq_None_iff kv_def image_iff)
    then show ?thesis using True by (auto simp: kv fun_eq_iff)
  next
    case False
    then show ?thesis using Cons by (auto simp: kv fun_eq_iff)
  qed
qed simp

lemma chain_add: "\<not> at_key key xs < length xs \<Longrightarrow> map_of (map kv (xs @ [\<lparr>e_hash = g, e_key = key, e_val = x\<rparr>])) = (map_of (map kv xs))(key \<mapsto> x)"
  by (induction xs) (auto simp: kv_def fun_eq_iff split: if_splits)

lemma find_at_key:
  assumes "apr_hash_ok ht"
  shows "scan_chain (entry_is (ht_hash_func ht key) key) (ht_array ht ! chain_of (ht_max ht) (ht_hash_func ht key)) =
    at_key key (ht_array ht ! chain_of (ht_max ht) (ht_hash_func ht key))"
proof (rule scan_chain_cong)
  have ok: "arr_ok (ht_hash_func ht) (ht_max ht) (ht_array ht)" using assms by (simp add: apr_hash_ok_def)
  fix e assume "e \<in> set (ht_array ht ! chain_of (ht_max ht) (ht_hash_func ht key))"
  then show "entry_is (ht_hash_func ht key) key e = (e_key e = key)"
    using arr_okD(3) [OF ok chain_of_le [OF ok], of e] by (auto simp: entry_is_def)
qed

lemma apr_hash_get_abs: "apr_hash_ok ht \<Longrightarrow> apr_hash_get ht key = apr_hash_abs ht key"
  using find_at_key [of ht key] arr_map_chain [of "ht_hash_func ht" "ht_max ht" "ht_array ht" key]
    chain_lookup [of "ht_array ht ! chain_of (ht_max ht) (ht_hash_func ht key)" key]
  by (simp add: apr_hash_get_def apr_find_entry_def apr_hash_abs_def apr_hash_ok_def Let_def)

lemma expand_ok:
  assumes "apr_hash_ok ht"
  shows "apr_hash_ok (expand_array ht)" "apr_hash_abs (expand_array ht) = apr_hash_abs ht"
proof -
  have ok: "arr_ok (ht_hash_func ht) (ht_max ht) (ht_array ht)" "ht_count ht = length (concat (ht_array ht))" using assms by (simp_all add: apr_hash_ok_def)
  obtain n where "ht_max ht + 1 = 2 ^ n" using ok(1) by (auto simp: arr_ok_def)
  then have "ht_max ht * 2 + 1 + 1 = 2 ^ Suc n" by simp
  note G = grown [OF ok(1) this]
  show "apr_hash_ok (expand_array ht)" "apr_hash_abs (expand_array ht) = apr_hash_abs ht"
    using G ok(2) by (simp_all add: apr_hash_ok_def apr_hash_abs_def expand_array_def Let_def)
qed

lemma apr_hash_set_ok:
  assumes "apr_hash_ok ht"
  shows "apr_hash_ok (apr_hash_set ht key v)" "apr_hash_abs (apr_hash_set ht key v) = (apr_hash_abs ht)(key := v)"
proof -
  let ?h = "ht_hash_func ht" let ?m = "ht_max ht" let ?arr = "ht_array ht"
  let ?b = "chain_of ?m (?h key)" let ?chain = "?arr ! ?b" let ?i = "at_key key ?chain"
  have ok: "arr_ok ?h ?m ?arr" "ht_count ht = length (concat ?arr)" using assms by (simp_all add: apr_hash_ok_def)
  have b: "?b \<le> ?m" by (rule chain_of_le [OF ok(1)])
  note d = arr_okD(2) [OF ok(1) b] and e = arr_okD(3) [OF ok(1) b]
  note F = find_at_key [OF assms, of key]
  have "apr_hash_ok (apr_hash_set ht key v) \<and> apr_hash_abs (apr_hash_set ht key v) = (apr_hash_abs ht)(key := v)"
  proof (cases v)
    case None
    show ?thesis
    proof (cases "?i < length ?chain")
      case True
      let ?c = "take ?i ?chain @ drop (?i + 1) ?chain"
      have dc: "distinct (map e_key ?c)"
        using d set_take_disj_set_drop_if_distinct [OF d, of ?i "?i + 1"] by (auto simp: take_map drop_map distinct_map_filter simp flip: take_map drop_map)
      have ec: "\<forall>e\<in>set ?c. e_hash e = ?h (e_key e) \<and> chain_of ?m (?h (e_key e)) = ?b" using e by (auto dest: in_set_takeD in_set_dropD)
      note U = arr_update [OF ok(1) b dc ec]
      have "length ?c + 1 = length ?chain" using True by simp
      then show ?thesis using None True F ok U(1,3) U(2) chain_delete [OF d True] arr_map_chain [OF ok(1)]
        by (auto simp: apr_hash_set_def apr_find_entry_def apr_hash_ok_def apr_hash_abs_def Let_def fun_eq_iff)
    next
      case False
      then have "apr_hash_abs ht key = None" using arr_map_chain [OF ok(1), of key] chain_lookup [of ?chain key] by (simp add: apr_hash_abs_def)
      then show ?thesis using None False F assms by (auto simp: apr_hash_set_def apr_find_entry_def Let_def fun_eq_iff)
    qed
  next
    case (Some x)
    have grow: "apr_hash_ok (if ht_count h1 > ht_max h1 then expand_array h1 else h1) \<and>
        apr_hash_abs (if ht_count h1 > ht_max h1 then expand_array h1 else h1) = (apr_hash_abs ht)(key := v)"
      if "apr_hash_ok h1" "apr_hash_abs h1 = (apr_hash_abs ht)(key := v)" for h1 using that by (auto simp: expand_ok)
    show ?thesis
    proof (cases "?i < length ?chain")
      case True
      let ?c = "?chain[?i := (?chain ! ?i)\<lparr>e_val := x\<rparr>]"
      have dc: "distinct (map e_key ?c)" using d by (simp add: chain_replace_keys)
      have ec: "\<forall>e\<in>set ?c. e_hash e = ?h (e_key e) \<and> chain_of ?m (?h (e_key e)) = ?b"
        using e True set_update_subset_insert [of ?chain ?i] nth_mem [OF True] by (fastforce dest: subsetD)
      note U = arr_update [OF ok(1) b dc ec]
      let ?h1 = "ht\<lparr>ht_array := ?arr[?b := ?c]\<rparr>"
      have "apr_hash_ok ?h1" using U(1,3) ok(2) by (simp add: apr_hash_ok_def)
      moreover have "apr_hash_abs ?h1 = (apr_hash_abs ht)(key := v)"
        using U(2) chain_replace [OF True] arr_map_chain [OF ok(1)] Some by (auto simp: apr_hash_abs_def fun_eq_iff)
      moreover have "apr_hash_set ht key v = (if ht_count ?h1 > ht_max ?h1 then expand_array ?h1 else ?h1)"
        using True F Some by (simp add: apr_hash_set_def apr_find_entry_def Let_def)
      ultimately show ?thesis using grow [of ?h1] by simp
    next
      case False
      then have i: "?i = length ?chain" using scan_chain_le [of "\<lambda>e. e_key e = key" ?chain] by simp
      let ?n = "\<lparr>e_hash = ?h key, e_key = key, e_val = x\<rparr>" let ?c = "?chain @ [?n]"
      have "key \<notin> e_key ` set ?chain" using False scan_chain_less [of "\<lambda>e. e_key e = key" ?chain] by auto
      then have dc: "distinct (map e_key ?c)" using d by simp
      have ec: "\<forall>e\<in>set ?c. e_hash e = ?h (e_key e) \<and> chain_of ?m (?h (e_key e)) = ?b" using e by auto
      note U = arr_update [OF ok(1) b dc ec]
      let ?h1 = "ht\<lparr>ht_array := ?arr[?b := ?c], ht_count := ht_count ht + 1, ht_free := tl (ht_free ht)\<rparr>"
      have "apr_hash_ok ?h1" using U(1,3) ok(2) by (simp add: apr_hash_ok_def)
      moreover have "apr_hash_abs ?h1 = (apr_hash_abs ht)(key := v)"
        using U(2) chain_add [OF False] arr_map_chain [OF ok(1)] Some by (auto simp: apr_hash_abs_def fun_eq_iff)
      moreover have "apr_hash_set ht key v = (if ht_count ?h1 > ht_max ?h1 then expand_array ?h1 else ?h1)"
      proof -
        have "?arr[?b := ?c] ! ?b = ?c" using b arr_okD(1) [OF ok(1)] by simp
        then show ?thesis using False F Some i
          by (simp add: apr_hash_set_def apr_find_entry_def Let_def) (rule impI, rule arg_cong [where f = expand_array], cases ht, simp)
      qed
      ultimately show ?thesis using grow [of ?h1] by simp
    qed
  qed
  then show "apr_hash_ok (apr_hash_set ht key v)" "apr_hash_abs (apr_hash_set ht key v) = (apr_hash_abs ht)(key := v)" by blast+
qed

section \<open>Merging\<close>

definition combine :: "(cstring \<Rightarrow> 'v \<Rightarrow> 'v \<Rightarrow> 'v) option \<Rightarrow> cstring \<Rightarrow> 'v \<Rightarrow> 'v option \<Rightarrow> 'v" where
  "combine merger k v old = (case old of None \<Rightarrow> v | Some b \<Rightarrow> (case merger of Some f \<Rightarrow> f k v b | None \<Rightarrow> v))"

lemma chain_push: "map_of (map kv (it # xs)) = (map_of (map kv xs))(e_key it \<mapsto> e_val it)"
  by (simp add: kv_def)

lemma merge_entry_ok:
  assumes "apr_hash_ok ht" "e_hash it = ht_hash_func ht (e_key it)"
  shows "apr_hash_ok (merge_entry merger ht it)" "ht_hash_func (merge_entry merger ht it) = ht_hash_func ht"
    and "apr_hash_abs (merge_entry merger ht it) = (apr_hash_abs ht)(e_key it \<mapsto> combine merger (e_key it) (e_val it) (apr_hash_abs ht (e_key it)))"
proof -
  let ?h = "ht_hash_func ht" let ?m = "ht_max ht" let ?arr = "ht_array ht" let ?key = "e_key it"
  let ?b = "chain_of ?m (?h ?key)" let ?chain = "?arr ! ?b" let ?i = "at_key ?key ?chain"
  have ok: "arr_ok ?h ?m ?arr" "ht_count ht = length (concat ?arr)" using assms by (simp_all add: apr_hash_ok_def)
  have b: "?b \<le> ?m" by (rule chain_of_le [OF ok(1)])
  note d = arr_okD(2) [OF ok(1) b] and e = arr_okD(3) [OF ok(1) b]
  have F: "scan_chain (same_bytes ?key) ?chain = ?i" by (rule scan_chain_cong) (auto simp: same_bytes_def)
  have A: "apr_hash_abs ht ?key = (if ?i < length ?chain then Some (e_val (?chain ! ?i)) else None)"
    using arr_map_chain [OF ok(1), of ?key] chain_lookup [of ?chain ?key] by (simp add: apr_hash_abs_def)
  show "ht_hash_func (merge_entry merger ht it) = ht_hash_func ht" by (simp add: merge_entry_def Let_def)
  have "apr_hash_ok (merge_entry merger ht it) \<and>
      apr_hash_abs (merge_entry merger ht it) = (apr_hash_abs ht)(?key \<mapsto> combine merger ?key (e_val it) (apr_hash_abs ht ?key))"
  proof (cases "?i < length ?chain")
    case True
    let ?x = "combine merger ?key (e_val it) (apr_hash_abs ht ?key)"
    let ?c = "?chain[?i := (?chain ! ?i)\<lparr>e_val := ?x\<rparr>]"
    have dc: "distinct (map e_key ?c)" using d by (simp add: chain_replace_keys)
    have ec: "\<forall>e\<in>set ?c. e_hash e = ?h (e_key e) \<and> chain_of ?m (?h (e_key e)) = ?b"
      using e True set_update_subset_insert [of ?chain ?i] nth_mem [OF True] by (fastforce dest: subsetD)
    note U = arr_update [OF ok(1) b dc ec]
    have m: "merge_entry merger ht it = ht\<lparr>ht_array := ?arr[?b := ?c]\<rparr>"
      using True A assms(2) F by (simp add: merge_entry_def Let_def combine_def)
    show ?thesis unfolding m using U ok(2) chain_replace [OF True] arr_map_chain [OF ok(1)]
      by (auto simp: apr_hash_ok_def apr_hash_abs_def fun_eq_iff)
  next
    case False
    let ?c = "it # ?chain"
    have "?key \<notin> e_key ` set ?chain" using False scan_chain_less [of "\<lambda>e. e_key e = ?key" ?chain] by auto
    then have dc: "distinct (map e_key ?c)" using d by simp
    have ec: "\<forall>e\<in>set ?c. e_hash e = ?h (e_key e) \<and> chain_of ?m (?h (e_key e)) = ?b" using e assms(2) by auto
    note U = arr_update [OF ok(1) b dc ec]
    have m: "merge_entry merger ht it = ht\<lparr>ht_array := ?arr[?b := ?c], ht_count := ht_count ht + 1\<rparr>"
      using False assms(2) F by (simp add: merge_entry_def Let_def)
    show ?thesis unfolding m using U ok(2) A False chain_push [of it ?chain] arr_map_chain [OF ok(1)]
      by (auto simp: apr_hash_ok_def apr_hash_abs_def fun_eq_iff combine_def)
  qed
  then show "apr_hash_ok (merge_entry merger ht it)"
    "apr_hash_abs (merge_entry merger ht it) = (apr_hash_abs ht)(e_key it \<mapsto> combine merger (e_key it) (e_val it) (apr_hash_abs ht (e_key it)))" by blast+
qed

lemma merge_loop_ok:
  assumes "apr_hash_ok ht" "distinct (map e_key es)" "\<forall>e\<in>set es. e_hash e = ht_hash_func ht (e_key e)"
  shows "apr_hash_ok (foldl (merge_entry merger) ht es) \<and>
    apr_hash_abs (foldl (merge_entry merger) ht es) k =
      (case map_of (map kv es) k of None \<Rightarrow> apr_hash_abs ht k | Some v \<Rightarrow> Some (combine merger k v (apr_hash_abs ht k)))"
  using assms
proof (induction es arbitrary: ht)
  case (Cons e es)
  have he: "e_hash e = ht_hash_func ht (e_key e)" using Cons.prems by simp
  note M = merge_entry_ok [OF Cons.prems(1) he, of merger]
  have n: "map_of (map kv es) (e_key e) = None" using Cons.prems(2) by (auto simp: map_of_eq_None_iff kv_def image_iff)
  have "\<forall>e'\<in>set es. e_hash e' = ht_hash_func (merge_entry merger ht e) (e_key e')" "distinct (map e_key es)" using Cons.prems M(2) by simp_all
  note I = Cons.IH [OF M(1) this(2,1)]
  have kv: "kv e = (e_key e, e_val e)" by (simp add: kv_def)
  show ?case using I M(3) n kv by (cases "k = e_key e"; cases "map_of (map kv es) k") auto
qed simp

text \<open>Merging two tables gives the table of the merged maps: keys of one table keep their value, keys of both get what the merger,
  called once, makes of the two values, or the value of the overlay.\<close>

theorem apr_hash_merge_correct:
  assumes "apr_hash_ok overlay" "apr_hash_ok base" "ht_hash_func overlay = ht_hash_func base"
  shows "apr_hash_ok (apr_hash_merge overlay base merger) \<and>
    apr_hash_abs (apr_hash_merge overlay base merger) k =
      (case apr_hash_abs overlay k of None \<Rightarrow> apr_hash_abs base k
       | Some v \<Rightarrow> Some (combine merger k v (apr_hash_abs base k)))"
proof -
  have ok: "arr_ok (ht_hash_func base) (ht_max overlay) (ht_array overlay)" "arr_ok (ht_hash_func base) (ht_max base) (ht_array base)"
    "ht_count base = length (concat (ht_array base))" using assms by (simp_all add: apr_hash_ok_def)
  define m0 where "m0 = (if ht_max overlay > ht_max base then ht_max overlay else ht_max base)"
  define m where "m = (if ht_count base + ht_count overlay > m0 then m0 * 2 + 1 else m0)"
  obtain n1 n2 where p: "ht_max overlay + 1 = 2 ^ n1" "ht_max base + 1 = 2 ^ n2" using ok(1,2) by (auto simp: arr_ok_def)
  have "\<exists>n. m + 1 = 2 ^ n"
  proof -
    have "\<exists>n. m0 + 1 = 2 ^ n" using p by (auto simp: m0_def)
    then obtain n where "m0 + 1 = 2 ^ n" by blast
    then have "m + 1 = 2 ^ n \<or> m + 1 = 2 ^ Suc n" by (auto simp: m_def)
    then show ?thesis by blast
  qed
  then obtain n where n: "m + 1 = 2 ^ n" by blast
  note G = grown [OF ok(2) n]
  let ?res = "\<lparr>ht_array = foldl (push_entry m) (alloc_array m) (concat (ht_array base)), ht_count = ht_count base, ht_max = m,
      ht_hash_func = ht_hash_func base, ht_free = []\<rparr>"
  have r: "apr_hash_ok ?res" "apr_hash_abs ?res = apr_hash_abs base" using G ok(3) by (simp_all add: apr_hash_ok_def apr_hash_abs_def)
  have "\<forall>e\<in>set (concat (ht_array overlay)). e_hash e = ht_hash_func ?res (e_key e)"
  proof
    fix e assume "e \<in> set (concat (ht_array overlay))"
    then obtain i where "i < length (ht_array overlay)" "e \<in> set (ht_array overlay ! i)" unfolding in_concat by blast
    then show "e_hash e = ht_hash_func ?res (e_key e)" using arr_okD(1) [OF ok(1)] arr_okD(3) [OF ok(1), of i e] by simp
  qed
  note L = merge_loop_ok [OF r(1) concat_keys [OF ok(1)] this, of merger k]
  have eq: "apr_hash_merge overlay base merger = foldl (merge_entry merger) ?res (concat (ht_array overlay))"
    by (simp only: apr_hash_merge_def Let_def m_def m0_def)
  show ?thesis using L unfolding r(2) eq apr_hash_abs_def [of overlay] arr_map_def .
qed

section \<open>The table as a map\<close>

lemma make_ok: "apr_hash_ok (apr_hash_make_custom h)" "apr_hash_abs (apr_hash_make_custom h) = (\<lambda>_. None)"
proof -
  have c: "concat (alloc_array m) = ([] :: 'v apr_hash_entry list)" for m by (simp add: alloc_array_def)
  have "arr_ok h INITIAL_MAX (alloc_array INITIAL_MAX :: 'v apr_hash_entry list list)"
    unfolding arr_ok_def by (simp add: alloc_nth INITIAL_MAX_def) (rule exI [of _ 4], simp)
  then show "apr_hash_ok (apr_hash_make_custom h :: 'v apr_hash)" "apr_hash_abs (apr_hash_make_custom h :: 'v apr_hash) = (\<lambda>_. None)"
    by (simp_all add: apr_hash_ok_def apr_hash_make_custom_def apr_hash_make_def apr_hash_abs_def arr_map_def c fun_eq_iff)
qed

interpretation apr_map: string_map apr_hash_ok apr_hash_abs apr_hash_get "\<lambda>ht k v. (v, apr_hash_set ht k v)"
  by unfold_locales (simp_all add: apr_hash_get_abs apr_hash_set_ok)

lemma set_func: "ht_hash_func (apr_hash_set ht k v) = ht_hash_func ht"
  by (simp add: apr_hash_set_def apr_find_entry_def expand_array_def Let_def split: option.split)

text \<open>A sequence of calls of \<open>apr_hash_set\<close>.\<close>

definition set_all :: "(cstring \<times> 'v option) list \<Rightarrow> 'v apr_hash \<Rightarrow> 'v apr_hash" where
  "set_all kvs ht = fold (\<lambda>(k, v) ht. apr_hash_set ht k v) kvs ht"

definition upd_all :: "(cstring \<times> 'v option) list \<Rightarrow> (cstring \<Rightarrow> 'v option) \<Rightarrow> cstring \<Rightarrow> 'v option" where
  "upd_all kvs f = fold (\<lambda>(k, v) f. f(k := v)) kvs f"

lemma set_all_abs: "apr_hash_ok ht \<Longrightarrow> apr_hash_ok (set_all kvs ht) \<and> apr_hash_abs (set_all kvs ht) = upd_all kvs (apr_hash_abs ht)"
  by (induction kvs arbitrary: ht) (auto simp: set_all_def upd_all_def apr_hash_set_ok)

text \<open>C40. Whatever is set and deleted, in a table with any hash function that grows on the way, \<open>apr_hash_get\<close> returns what was
  last set for the key, and \<open>apr_hash_count\<close> the number of keys with a value.\<close>

theorem apr_hash_is_map:
  "apr_hash_get (set_all kvs (apr_hash_make_custom h)) k = upd_all kvs (\<lambda>_. None) k \<and>
   apr_hash_count (set_all kvs (apr_hash_make_custom h)) = card {k. upd_all kvs (\<lambda>_. None) k \<noteq> None}"
proof -
  let ?ht = "set_all kvs (apr_hash_make_custom h)"
  have ok: "apr_hash_ok ?ht" "apr_hash_abs ?ht = upd_all kvs (\<lambda>_. None)"
    using set_all_abs [OF make_ok(1) [of h], of kvs] by (auto simp: make_ok(2))
  then have a: "arr_ok (ht_hash_func ?ht) (ht_max ?ht) (ht_array ?ht)" by (simp add: apr_hash_ok_def)
  have "{k. upd_all kvs (\<lambda>_. None) k \<noteq> None} = e_key ` set (concat (ht_array ?ht))"
    unfolding ok(2) [symmetric] apr_hash_abs_def using arr_map_Some [OF a] by (auto simp: image_iff simp del: set_concat; metis not_None_eq)
  moreover have "card (e_key ` set (concat (ht_array ?ht))) = length (concat (ht_array ?ht))"
    using concat_keys [OF a] distinct_card [of "map e_key (concat (ht_array ?ht))"] by simp
  ultimately show ?thesis using ok apr_hash_get_abs [OF ok(1), of k] by (simp add: apr_hash_ok_def apr_hash_count_def)
qed

section \<open>Iteration\<close>

text \<open>What the iteration has still to visit.\<close>

definition to_visit :: "'v apr_hash \<Rightarrow> 'v ht_index \<Rightarrow> 'v apr_hash_entry list" where
  "to_visit ht hi = hx_next hi @ concat (drop (hx_index hi) (ht_array ht))"

lemma next_chain_visit:
  "length (ht_array ht) = ht_max ht + 1 \<Longrightarrow>
    (case next_chain ht i of
       None \<Rightarrow> concat (drop i (ht_array ht)) = []
     | Some hi \<Rightarrow> \<exists>e. hx_this hi = Some e \<and> concat (drop i (ht_array ht)) = e # to_visit ht hi)"
proof (induction ht i rule: next_chain.induct)
  case (1 ht i)
  show ?case
  proof (cases "i > ht_max ht")
    case True
    then show ?thesis using "1.prems" by (simp add: next_chain.simps)
  next
    case False
    then have d: "drop i (ht_array ht) = ht_array ht ! i # drop (Suc i) (ht_array ht)" using "1.prems" by (simp add: Cons_nth_drop_Suc)
    show ?thesis
    proof (cases "ht_array ht ! i")
      case Nil
      then have c: "concat (drop i (ht_array ht)) = concat (drop (i + 1) (ht_array ht))" by (subst d) simp
      have n: "next_chain ht i = next_chain ht (i + 1)" using False Nil by (simp add: next_chain.simps [of ht i])
      show ?thesis unfolding c n using 1(1) [OF False Nil] "1.prems" by blast
    next
      case (Cons e rest)
      then show ?thesis using False d by (simp add: next_chain.simps [of ht i] to_visit_def)
    qed
  qed
qed

lemma hash_next_visit:
  "length (ht_array ht) = ht_max ht + 1 \<Longrightarrow>
    (case apr_hash_next ht hi of None \<Rightarrow> to_visit ht hi = [] | Some hi' \<Rightarrow> \<exists>e. hx_this hi' = Some e \<and> to_visit ht hi = e # to_visit ht hi')"
  using next_chain_visit [of ht "hx_index hi"] by (cases "hx_next hi") (auto simp: apr_hash_next_def to_visit_def split: option.splits)

text \<open>The entries a loop over \<open>apr_hash_first\<close> and \<open>apr_hash_next\<close> sees, in at most \<open>n\<close> rounds.\<close>

fun visited :: "nat \<Rightarrow> 'v apr_hash \<Rightarrow> 'v ht_index option \<Rightarrow> 'v apr_hash_entry list" where
  "visited 0 ht hi = []"
| "visited (Suc n) ht None = []"
| "visited (Suc n) ht (Some hi) = the (hx_this hi) # visited n ht (apr_hash_next ht hi)"

lemma visited_all:
  "length (ht_array ht) = ht_max ht + 1 \<Longrightarrow> length (to_visit ht hi) < n \<Longrightarrow> visited n ht (apr_hash_next ht hi) = to_visit ht hi"
proof (induction n arbitrary: hi)
  case (Suc n)
  then show ?case using hash_next_visit [OF Suc.prems(1), of hi] by (cases "apr_hash_next ht hi") auto
qed simp

text \<open>A loop from \<open>apr_hash_first\<close> by \<open>apr_hash_next\<close> ends and visits every key that has a value exactly once.\<close>

theorem iteration_complete:
  assumes "apr_hash_ok ht" "ht_count ht < n"
  shows "distinct (map e_key (visited n ht (apr_hash_first ht))) \<and>
    map_of (map kv (visited n ht (apr_hash_first ht))) = apr_hash_abs ht"
proof -
  have a: "arr_ok (ht_hash_func ht) (ht_max ht) (ht_array ht)" "ht_count ht = length (concat (ht_array ht))" using assms by (simp_all add: apr_hash_ok_def)
  have "visited n ht (apr_hash_first ht) = concat (ht_array ht)"
    unfolding apr_hash_first_def using visited_all [OF arr_okD(1) [OF a(1)], of "\<lparr>hx_this = None, hx_next = [], hx_index = 0\<rparr>" n] assms(2) a(2)
    by (simp add: to_visit_def)
  then show ?thesis using concat_keys [OF a(1)] by (simp add: apr_hash_abs_def arr_map_def)
qed

section \<open>Load\<close>

lemma set_load:
  assumes "apr_hash_ok ht" "ht_count ht \<le> ht_max ht"
  shows "ht_count (apr_hash_set ht key v) \<le> ht_max (apr_hash_set ht key v)"
proof -
  have ok: "arr_ok (ht_hash_func ht) (ht_max ht) (ht_array ht)" using assms by (simp add: apr_hash_ok_def)
  let ?b = "chain_of (ht_max ht) (ht_hash_func ht key)"
  have "?b < length (ht_array ht)" using chain_of_le [OF ok, of "ht_hash_func ht key"] arr_okD(1) [OF ok] by simp
  moreover have "scan_chain (entry_is (ht_hash_func ht key) key) (ht_array ht ! ?b) \<le> length (ht_array ht ! ?b)" by (rule scan_chain_le)
  ultimately show ?thesis using assms(2)
    by (auto simp: apr_hash_set_def apr_find_entry_def expand_array_def Let_def nth_list_update split: option.split)
qed

text \<open>The chains stay short: there are never more entries than the largest index of the array, in a table filled
  by any calls of \<open>apr_hash_set\<close>, so that the load is below 1.\<close>

theorem load_bounded:
  "ht_count (set_all kvs (apr_hash_make_custom h)) \<le> ht_max (set_all kvs (apr_hash_make_custom h))"
proof -
  have "apr_hash_ok ht \<Longrightarrow> ht_count ht \<le> ht_max ht \<Longrightarrow> ht_count (set_all kvs ht) \<le> ht_max (set_all kvs ht)" for ht :: "'a apr_hash"
    by (induction kvs arbitrary: ht) (auto simp: set_all_def apr_hash_set_ok set_load)
  moreover have "ht_count (apr_hash_make_custom h) \<le> ht_max (apr_hash_make_custom h)" by (simp add: apr_hash_make_custom_def apr_hash_make_def)
  ultimately show ?thesis using make_ok(1) by blast
qed

section \<open>Clearing and copying\<close>

lemma clear_loop: "apr_hash_ok ht \<Longrightarrow> apr_hash_ok (foldl (\<lambda>h e. apr_hash_set h (e_key e) None) ht es) \<and>
    apr_hash_abs (foldl (\<lambda>h e. apr_hash_set h (e_key e) None) ht es) = (\<lambda>k. if k \<in> e_key ` set es then None else apr_hash_abs ht k)"
  by (induction es arbitrary: ht) (auto simp: apr_hash_set_ok fun_eq_iff)

lemma apr_hash_clear_empty:
  assumes "apr_hash_ok ht"
  shows "apr_hash_ok (apr_hash_clear ht) \<and> apr_hash_abs (apr_hash_clear ht) = (\<lambda>_. None)"
proof -
  have "arr_ok (ht_hash_func ht) (ht_max ht) (ht_array ht)" using assms by (simp add: apr_hash_ok_def)
  from arr_map_Some [OF this] have "apr_hash_abs ht k = None" if "k \<notin> e_key ` set (concat (ht_array ht))" for k
    using that unfolding apr_hash_abs_def by (metis image_eqI not_None_eq)
  then show ?thesis using clear_loop [OF assms, of "concat (ht_array ht)"] unfolding apr_hash_clear_def by (auto simp: fun_eq_iff)
qed

lemma apr_hash_copy_same: "apr_hash_ok ht \<Longrightarrow> apr_hash_ok (apr_hash_copy ht) \<and> apr_hash_abs (apr_hash_copy ht) = apr_hash_abs ht"
  by (simp add: apr_hash_copy_def apr_hash_ok_def apr_hash_abs_def)

section \<open>Examples\<close>

definition sample_hash :: "nat apr_hash" where
  "sample_hash = set_all [(''a'', Some 1), (''b'', Some 2)] (apr_hash_make_custom hashfunc_default)"

lemma sample_hash_ok: "apr_hash_ok sample_hash" "apr_hash_abs sample_hash = [''a'' \<mapsto> 1, ''b'' \<mapsto> 2]"
  unfolding sample_hash_def using set_all_abs [OF make_ok(1), of "[(''a'', Some (1 :: nat)), (''b'', Some 2)]" hashfunc_default]
  by (auto simp: make_ok(2) upd_all_def)

theorem apr_hash_merge_correct_witness:
  "apr_hash_abs (apr_hash_merge sample_hash sample_hash (Some (\<lambda>k v b. v + b))) ''b'' = Some 4"
  using apr_hash_merge_correct [OF sample_hash_ok(1) sample_hash_ok(1) refl, of "Some (\<lambda>k v b. v + b)" "''b''"]
  by (simp add: sample_hash_ok(2) combine_def)

theorem iteration_complete_witness:
  "map_of (map kv (visited 3 sample_hash (apr_hash_first sample_hash))) = [''a'' \<mapsto> 1, ''b'' \<mapsto> 2]"
proof -
  have "ht_count sample_hash < 3" by code_simp
  from iteration_complete [OF sample_hash_ok(1) this] show ?thesis by (simp add: sample_hash_ok(2))
qed

end
