(* ===== verification/Apr_Date.thy ===== *)
theory Apr_Date
  imports Libc "HOL-Library.Signed_Division"
begin

text \<open>
  Dates: the exploded time of \<open>srclib/apr/time/unix/time.c\<close>, the texts \<open>srclib/apr/time/unix/timestr.c\<close> writes, and
  the parsers of \<open>srclib/apr-util/misc/apr_date.c\<close>. Times are microseconds since 1970, integers without bounds. The
  calendar of \<open>gmtime_r\<close> is written out; the local time is an argument.
\<close>

type_synonym apr_time = int

section \<open>Exploded time\<close>

record apr_time_exp =
  tm_usec :: int
  tm_sec :: int
  tm_min :: int
  tm_hour :: int
  tm_mday :: int
  tm_mon :: int
  tm_year :: int
  tm_wday :: int
  tm_yday :: int
  tm_isdst :: int
  tm_gmtoff :: int

definition APR_USEC_PER_SEC :: int where "APR_USEC_PER_SEC = 1000000"

text \<open>\<open>gmtime_r\<close>: years are counted from 1900, months from 0.\<close>

definition leap_year :: "int \<Rightarrow> bool" where
  "leap_year y \<longleftrightarrow> (y + 1900) mod 4 = 0 \<and> ((y + 1900) mod 100 \<noteq> 0 \<or> (y + 1900) mod 400 = 0)"

definition year_days :: "int \<Rightarrow> int" where
  "year_days y = (if leap_year y then 366 else 365)"

definition month_days :: "int \<Rightarrow> int \<Rightarrow> int" where
  "month_days y m = (if m = 1 then (if leap_year y then 29 else 28) else if m = 3 \<or> m = 5 \<or> m = 8 \<or> m = 10 then 30 else 31)"

function gm_year :: "int \<Rightarrow> int \<Rightarrow> int \<times> int" where
  "gm_year y d =
     (if d < 0 then gm_year (y - 1) (d + year_days (y - 1))
      else if d < year_days y then (y, d) else gm_year (y + 1) (d - year_days y))"
  by pat_completeness auto

termination gm_year
  by (relation "measure (\<lambda>(y, d). if d < 0 then nat (- d) + 2 else nat d div 365)") (auto simp: year_days_def)

function gm_month :: "int \<Rightarrow> int \<Rightarrow> int \<Rightarrow> int \<times> int" where
  "gm_month y m d = (if d < month_days y m \<or> m \<ge> 11 then (m, d) else gm_month y (m + 1) (d - month_days y m))"
  by pat_completeness auto

termination gm_month
  by (relation "measure (\<lambda>(y, m, d). nat (11 - m))") auto

declare gm_year.simps [simp del] gm_month.simps [simp del]

definition gmtime_r :: "int \<Rightarrow> apr_time_exp" where
  "gmtime_r tt =
     (let days = tt div 86400; secs = tt mod 86400 in
      case gm_year 70 days of (y, yd) \<Rightarrow>
      case gm_month y 0 yd of (m, d) \<Rightarrow>
        \<lparr>tm_usec = 0, tm_sec = secs mod 60, tm_min = secs div 60 mod 60, tm_hour = secs div 3600, tm_mday = d + 1, tm_mon = m,
         tm_year = y, tm_wday = (days + 4) mod 7, tm_yday = yd, tm_isdst = 0, tm_gmtoff = 0\<rparr>)"

definition explode_time :: "(int \<Rightarrow> apr_time_exp) \<Rightarrow> apr_time \<Rightarrow> int \<Rightarrow> apr_time_exp" where
  "explode_time tm t offset = (tm (t sdiv APR_USEC_PER_SEC + offset))\<lparr>tm_usec := t smod APR_USEC_PER_SEC\<rparr>"

definition apr_time_exp_tz :: "apr_time \<Rightarrow> int \<Rightarrow> apr_time_exp" where
  "apr_time_exp_tz t offs = (explode_time gmtime_r t offs)\<lparr>tm_gmtoff := offs\<rparr>"

definition apr_time_exp_gmt :: "apr_time \<Rightarrow> apr_time_exp" where
  "apr_time_exp_gmt t = apr_time_exp_tz t 0"

definition apr_time_exp_lt :: "(int \<Rightarrow> apr_time_exp) \<Rightarrow> apr_time \<Rightarrow> apr_time_exp" where
  "apr_time_exp_lt localtime_r t = explode_time localtime_r t 0"

text \<open>The way back; \<open>None\<close> is \<open>APR_EBADDATE\<close>.\<close>

definition dayoffset :: "int list" where
  "dayoffset = [306, 337, 0, 31, 61, 92, 122, 153, 184, 214, 245, 275]"

definition day_number :: "int \<Rightarrow> int \<Rightarrow> int \<Rightarrow> int" where
  "day_number y mon mday =
     (let year = (if mon < 2 then y - 1 else y)
      in year * 365 + year sdiv 4 - year sdiv 100 + (year sdiv 100 + 3) sdiv 4 + (dayoffset ! nat mon + mday - 1) - 25508)"

definition apr_time_exp_get :: "apr_time_exp \<Rightarrow> apr_time option" where
  "apr_time_exp_get xt =
     (let secs = ((day_number (tm_year xt) (tm_mon xt) (tm_mday xt) * 24 + tm_hour xt) * 60 + tm_min xt) * 60 + tm_sec xt
      in if secs < 0 then None else Some (secs * APR_USEC_PER_SEC + tm_usec xt))"

definition apr_time_exp_gmt_get :: "apr_time_exp \<Rightarrow> apr_time option" where
  "apr_time_exp_gmt_get xt = map_option (\<lambda>t. t - tm_gmtoff xt * APR_USEC_PER_SEC) (apr_time_exp_get xt)"

section \<open>Writing a date\<close>

definition apr_month_snames :: "cstring list" where
  "apr_month_snames = [''Jan'', ''Feb'', ''Mar'', ''Apr'', ''May'', ''Jun'', ''Jul'', ''Aug'', ''Sep'', ''Oct'', ''Nov'', ''Dec'']"

definition apr_day_snames :: "cstring list" where
  "apr_day_snames = [''Sun'', ''Mon'', ''Tue'', ''Wed'', ''Thu'', ''Fri'', ''Sat'']"

definition dchar :: "int \<Rightarrow> char" where
  "dchar n = char_of (nat ((n + 48) mod 256))"

definition two_digits :: "int \<Rightarrow> cstring" where
  "two_digits n = [dchar (n sdiv 10), dchar (n smod 10)]"

definition four_digits :: "int \<Rightarrow> cstring" where
  "four_digits n = [dchar (n sdiv 1000), dchar (n smod 1000 sdiv 100), dchar (n smod 100 sdiv 10), dchar (n smod 10)]"

definition time_text :: "apr_time_exp \<Rightarrow> cstring" where
  "time_text xt = two_digits (tm_hour xt) @ '':'' @ two_digits (tm_min xt) @ '':'' @ two_digits (tm_sec xt)"

definition apr_rfc822_date :: "apr_time \<Rightarrow> cstring" where
  "apr_rfc822_date t =
     (let xt = apr_time_exp_gmt t
      in apr_day_snames ! nat (tm_wday xt) @ '', '' @ two_digits (tm_mday xt) @ '' '' @ apr_month_snames ! nat (tm_mon xt) @ '' '' @
         four_digits (1900 + tm_year xt) @ '' '' @ time_text xt @ '' GMT'')"

definition apr_ctime :: "(int \<Rightarrow> apr_time_exp) \<Rightarrow> apr_time \<Rightarrow> cstring" where
  "apr_ctime localtime_r t =
     (let xt = apr_time_exp_lt localtime_r t
      in apr_day_snames ! nat (tm_wday xt) @ '' '' @ apr_month_snames ! nat (tm_mon xt) @ '' '' @ two_digits (tm_mday xt) @ '' '' @
         time_text xt @ '' '' @ four_digits (1900 + tm_year xt))"

section \<open>Parsing a date\<close>

text \<open>The index runs to 256 at most.\<close>

fun checkmask_loop :: "nat \<Rightarrow> cstring \<Rightarrow> cstring \<Rightarrow> bool" where
  "checkmask_loop 0 data ms = False"
| "checkmask_loop (Suc n) data [] = (cget data 0 = NUL)"
| "checkmask_loop (Suc n) data (m # ms) =
     (let d = cget data 0 in
      if m = CHR ''*'' then True
      else (if m = CHR ''@'' then c_isupper d
            else if m = CHR ''$'' then c_islower d
            else if m = CHR ''#'' then c_isdigit d
            else if m = CHR ''&'' then c_isxdigit d
            else if m = CHR ''~'' then d = CHR '' '' \<or> c_isdigit d
            else m = d) \<and> checkmask_loop n (tl data) ms)"

definition apr_date_checkmask :: "cstring \<Rightarrow> cstring \<Rightarrow> bool" where
  "apr_date_checkmask data ms = checkmask_loop 256 data ms"

definition dig :: "cstring \<Rightarrow> nat \<Rightarrow> int" where
  "dig s i = int (ccode (cget s i)) - 48"

text \<open>What is read by one of the formats.\<close>

record date_parts =
  dp_year :: int
  dp_mday :: int
  dp_monstr :: cstring
  dp_hour :: int
  dp_min :: int
  dp_sec :: int
  dp_gmtstr :: "cstring option"

definition year4 :: "cstring \<Rightarrow> nat \<Rightarrow> int option" where
  "year4 date i =
     (let y = (dig date i * 10 + dig date (i + 1) - 19) * 100
      in if y < 0 then None else Some (y + (dig date (i + 2) * 10 + dig date (i + 3))))"

definition year2 :: "cstring \<Rightarrow> nat \<Rightarrow> int" where
  "year2 date i = (let y = dig date i * 10 + dig date (i + 1) in if y < 70 then y + 100 else y)"

definition day2 :: "cstring \<Rightarrow> nat \<Rightarrow> int" where
  "day2 date i = dig date i * 10 + dig date (i + 1)"

definition parts :: "cstring \<Rightarrow> int \<Rightarrow> int \<Rightarrow> nat \<Rightarrow> nat \<Rightarrow> nat option \<Rightarrow> date_parts" where
  "parts date year mday mon tim gmt =
     \<lparr>dp_year = year, dp_mday = mday, dp_monstr = drop mon date, dp_hour = dig date tim * 10 + dig date (tim + 1),
      dp_min = dig date (tim + 3) * 10 + dig date (tim + 4), dp_sec = dig date (tim + 6) * 10 + dig date (tim + 7),
      dp_gmtstr = map_option (\<lambda>g. drop g date) gmt\<rparr>"

text \<open>The four formats of both parsers; \<open>other\<close> is what is tried when none of them fits.\<close>

definition common_formats :: "cstring \<Rightarrow> date_parts option \<Rightarrow> date_parts option" where
  "common_formats date other =
     (if apr_date_checkmask date ''## @$$ #### ##:##:## *'' then map_option (\<lambda>y. parts date y (day2 date 0) 3 12 (Some 21)) (year4 date 7)
      else if apr_date_checkmask date ''##-@$$-## ##:##:## *'' then Some (parts date (year2 date 7) (day2 date 0) 3 10 (Some 19))
      else if apr_date_checkmask date ''@$$ ~# ##:##:## ####*''
        then map_option (\<lambda>y. parts date y ((if cget date 4 = CHR '' '' then 0 else dig date 4 * 10) + dig date 5) 0 7 None) (year4 date 16)
      else if apr_date_checkmask date ''# @$$ #### ##:##:## *'' then map_option (\<lambda>y. parts date y (dig date 0) 2 11 (Some 20)) (year4 date 6)
      else other)"

definition rfc_formats :: "cstring \<Rightarrow> date_parts option" where
  "rfc_formats date =
     (if apr_date_checkmask date ''## @$$ ## ##:##:## *'' then Some (parts date (year2 date 7) (day2 date 0) 3 10 (Some 19))
      else if apr_date_checkmask date '' # @$$ ## ##:##:## *'' then Some (parts date (year2 date 7) (dig date 1) 3 10 (Some 19))
      else if apr_date_checkmask date ''# @$$ ## ##:##:## *'' then Some (parts date (year2 date 6) (dig date 0) 2 9 (Some 18))
      else if apr_date_checkmask date ''## @$$ ## ##:## *'' then Some ((parts date (year2 date 7) (day2 date 0) 3 10 None)\<lparr>dp_sec := 0\<rparr>)
      else if apr_date_checkmask date ''# @$$ ## ##:## *'' then Some ((parts date (year2 date 6) (dig date 0) 2 9 None)\<lparr>dp_sec := 0\<rparr>)
      else if apr_date_checkmask date ''## @$$ ## #:##:## *''
        then Some ((parts date (year2 date 7) (day2 date 0) 3 9 (Some 18))\<lparr>dp_hour := dig date 10\<rparr>)
      else if apr_date_checkmask date ''# @$$ ## #:##:## *''
        then Some ((parts date (year2 date 6) (dig date 0) 2 8 (Some 17))\<lparr>dp_hour := dig date 9\<rparr>)
      else if apr_date_checkmask date '' # @$$ #### ##:##:## *'' then map_option (\<lambda>y. parts date y (dig date 1) 3 12 (Some 21)) (year4 date 7)
      else if apr_date_checkmask date ''##-@$$-#### ##:##:## *'' then map_option (\<lambda>y. parts date y (day2 date 0) 3 12 (Some 21)) (year4 date 7)
      else None)"

definition mint_of :: "cstring \<Rightarrow> int" where
  "mint_of s = or (or (push_bit 16 (int (ccode (cget s 0)))) (push_bit 8 (int (ccode (cget s 1))))) (int (ccode (cget s 2)))"

definition months :: "int list" where
  "months = map mint_of apr_month_snames"

fun find_month :: "int \<Rightarrow> int \<Rightarrow> int list \<Rightarrow> int" where
  "find_month mint mon [] = mon"
| "find_month mint mon (x # xs) = (if mint = x then mon else find_month mint (mon + 1) xs)"

definition check_parts :: "date_parts \<Rightarrow> apr_time_exp option" where
  "check_parts p =
     (let mon = find_month (mint_of (dp_monstr p)) 0 months in
      if dp_mday p \<le> 0 \<or> dp_mday p > 31 then None
      else if dp_hour p > 23 \<or> dp_min p > 59 \<or> dp_sec p > 61 then None
      else if mon = 12 then None
      else if dp_mday p = 31 \<and> (mon = 3 \<or> mon = 5 \<or> mon = 8 \<or> mon = 10) then None
      else if mon = 1 \<and> (dp_mday p > 29 \<or> dp_mday p = 29 \<and>
                (and (dp_year p) 3 \<noteq> 0 \<or> dp_year p smod 100 = 0 \<and> dp_year p smod 400 \<noteq> 100)) then None
      else Some \<lparr>tm_usec = 0, tm_sec = dp_sec p, tm_min = dp_min p, tm_hour = dp_hour p, tm_mday = dp_mday p, tm_mon = mon,
                 tm_year = dp_year p, tm_wday = 0, tm_yday = 0, tm_isdst = 0, tm_gmtoff = 0\<rparr>)"

definition APR_DATE_BAD :: apr_time where "APR_DATE_BAD = 0"

text \<open>The text behind the weekday.\<close>

definition skip_weekday :: "cstring \<Rightarrow> cstring option" where
  "skip_weekday s =
     (let date = dropWhile c_isspace s
      in if date = [] then None else map_option (\<lambda>i. drop (i + 1) date) (strchr date (CHR '' '')))"

definition apr_date_parse_http :: "cstring option \<Rightarrow> apr_time" where
  "apr_date_parse_http s =
     (case Option.bind (Option.bind (Option.bind (Option.bind s skip_weekday) (\<lambda>date. common_formats date None)) check_parts) apr_time_exp_get of
        None \<Rightarrow> APR_DATE_BAD | Some t \<Rightarrow> t)"

text \<open>\<open>atoi\<close> of a zone, and its offset in seconds.\<close>

definition zone_offset :: "cstring option \<Rightarrow> int" where
  "zone_offset gmtstr =
     (case gmtstr of
        None \<Rightarrow> 0
      | Some g \<Rightarrow>
          (let offset = fst (strtoll (tl g)); secs = offset sdiv 100 * 60 * 60 + offset smod 100 * 60
           in if cget g 0 = CHR ''-'' then - secs else if cget g 0 = CHR ''+'' then secs else 0))"

definition apr_date_parse_rfc :: "cstring option \<Rightarrow> apr_time" where
  "apr_date_parse_rfc s =
     (case s of
        None \<Rightarrow> APR_DATE_BAD
      | Some d \<Rightarrow>
          (case if c_isdigit (cget d 0) then Some d else skip_weekday d of
             None \<Rightarrow> APR_DATE_BAD
           | Some date \<Rightarrow>
               (case common_formats date (rfc_formats date) of
                  None \<Rightarrow> APR_DATE_BAD
                | Some p \<Rightarrow>
                    (case Option.bind (map_option (\<lambda>xt. xt\<lparr>tm_gmtoff := zone_offset (dp_gmtstr p)\<rparr>) (check_parts p)) apr_time_exp_gmt_get of
                       None \<Rightarrow> APR_DATE_BAD | Some t \<Rightarrow> t))))"

section \<open>The calendar\<close>

lemma sdiv_pos: "0 \<le> a \<Longrightarrow> 0 < b \<Longrightarrow> a sdiv b = a div (b :: int)"
  by (cases "a = 0") (simp_all add: signed_divide_int_def)

lemma smod_pos: "0 \<le> a \<Longrightarrow> 0 < b \<Longrightarrow> a smod b = a mod (b :: int)"
  by (simp add: signed_modulo_int_def signed_divide_int_def minus_div_mult_eq_mod [symmetric] sdiv_pos)
    (cases "a = 0"; simp)

lemma div_next: "0 < k \<Longrightarrow> (y + 1) div k = y div k + (if (y + 1) mod k = 0 then 1 else 0 :: int)"
proof -
  assume k: "0 < k"
  define q r where "q = (y + 1) div k" and "r = (y + 1) mod k"
  have y: "y = k * q + (r - 1)" using div_mult_mod_eq [of "y + 1" k] by (simp add: q_def r_def algebra_simps)
  have r: "0 \<le> r" "r < k" using k by (simp_all add: r_def)
  show ?thesis
  proof (cases "r = 0")
    case True
    then have "y = k * (q - 1) + (k - 1)" using y by (simp add: algebra_simps)
    then have "y div k = q - 1" by (rule int_div_pos_eq [of _ _ _ "k - 1"]) (use k in simp_all)
    then show ?thesis using True by (simp add: q_def [symmetric] r_def [symmetric])
  next
    case False
    from y have "y div k = q" by (rule int_div_pos_eq [of _ _ _ "r - 1"]) (use r False in simp_all)
    then show ?thesis using False by (simp add: q_def [symmetric] r_def [symmetric])
  qed
qed

definition leap_days :: "int \<Rightarrow> int" where
  "leap_days y = y div 4 - y div 100 + (y div 100 + 3) div 4"

lemma leap_days_step: "leap_days (y + 1) = leap_days y + (if leap_year (y + 1) then 1 else 0)"
proof -
  have m4: "(y + 1 + 1900) mod 4 = (y + 1) mod 4" and m100: "(y + 1 + 1900) mod 100 = (y + 1) mod 100"
    using mod_mult_self2 [of "y + 1" 4 475] mod_mult_self2 [of "y + 1" 100 19] by simp_all
  have c4: "(y + 1) mod 4 = 0" if "(y + 1) mod 100 = 0"
    using that mod_mod_cancel [of 4 100 "y + 1"] by simp
  show ?thesis
  proof (cases "(y + 1) mod 100 = 0")
    case True
    define c where "c = (y + 1) div 100"
    have y: "y + 1 = 100 * c" using True div_mult_mod_eq [of "y + 1" 100] by (simp add: c_def)
    have s: "(y + 1) div 100 = y div 100 + 1" using True div_next [of 100 y] by simp
    have e: "y + 1 + 1900 = 100 * (c + 19)" using y by simp
    have "100 * (c + 19) mod 400 = 100 * ((c + 19) mod 4)" using mult_mod_right [of 100 "c + 19" 4] by simp
    then have "(y + 1 + 1900) mod 400 = 100 * ((c + 19) mod 4)" unfolding e .
    moreover have "(c + 19) mod 4 = (c + 3) mod 4" using mod_mult_self2 [of "c + 3" 4 4] by (simp add: add.commute)
    ultimately have b: "(y + 1 + 1900) mod 400 = 100 * ((c + 3) mod 4)" by simp
    have l: "leap_year (y + 1) \<longleftrightarrow> (c + 3) mod 4 = 0"
      unfolding leap_year_def m4 m100 b c4 [OF True] True by simp
    have "(c + 3) div 4 = (c - 1 + 3) div 4 + (if (c + 3) mod 4 = 0 then 1 else 0)" using div_next [of 4 "c - 1 + 3"] by (simp add: add.commute)
    moreover have "c - 1 = y div 100" using s c_def by simp
    ultimately show ?thesis using div_next [of 4 y] c4 [OF True] s l c_def by (simp add: leap_days_def)
  next
    case False
    then have "(y + 1) div 100 = y div 100" using div_next [of 100 y] by simp
    moreover have "leap_year (y + 1) \<longleftrightarrow> (y + 1) mod 4 = 0" using False m4 m100 by (simp add: leap_year_def)
    ultimately show ?thesis using div_next [of 4 y] by (simp add: leap_days_def)
  qed
qed

lemma day_number_div:
  "1 \<le> y \<Longrightarrow> day_number y mon mday =
     (let year = (if mon < 2 then y - 1 else y) in year * 365 + leap_days year + dayoffset ! nat mon + mday - 25509)"
  by (simp add: day_number_def leap_days_def sdiv_pos Let_def)

lemma day_number_mday: "day_number y m (d + 1) = day_number y m 1 + d"
  by (simp add: day_number_def Let_def)

lemma year_step: "1 \<le> y \<Longrightarrow> day_number (y + 1) 0 1 = day_number y 0 1 + year_days y"
  using leap_days_step [of "y - 1"] by (simp add: day_number_div year_days_def algebra_simps)

lemma month_cases: "0 \<le> m \<Longrightarrow> m \<le> 11 \<Longrightarrow> (\<And>n. n \<in> set [0, 1, 2, 3, 4, 5, 6, 7, 8, 9, 10, 11] \<Longrightarrow> P n) \<Longrightarrow> P (m :: int)"
proof -
  assume "0 \<le> m" "m \<le> 11" and P: "\<And>n. n \<in> set [0, 1, 2, 3, 4, 5, 6, 7, 8, 9, 10, 11] \<Longrightarrow> P n"
  then have "m = 0 \<or> m = 1 \<or> m = 2 \<or> m = 3 \<or> m = 4 \<or> m = 5 \<or> m = 6 \<or> m = 7 \<or> m = 8 \<or> m = 9 \<or> m = 10 \<or> m = 11" by arith
  then show "P m" by (intro P) simp
qed

lemma month_step: "1 \<le> y \<Longrightarrow> 0 \<le> m \<Longrightarrow> m \<le> 10 \<Longrightarrow> day_number y (m + 1) 1 = day_number y m 1 + month_days y m"
proof -
  assume y: "1 \<le> y" and m: "0 \<le> m" "m \<le> 10"
  have s: "n \<le> 10 \<longrightarrow> day_number y (n + 1) 1 = day_number y n 1 + month_days y n" if "n \<in> set [0, 1, 2, 3, 4, 5, 6, 7, 8, 9, 10, 11]" for n
    using that leap_days_step [of "y - 1"] y by (auto simp: day_number_div month_days_def dayoffset_def)
  have "m \<le> 10 \<longrightarrow> day_number y (m + 1) 1 = day_number y m 1 + month_days y m"
    by (rule month_cases [of m]) (use m in simp, use m in simp, rule s)
  then show ?thesis using m by blast
qed

lemma month_days_pos: "28 \<le> month_days y m" "month_days y m \<le> 31"
  by (simp_all add: month_days_def)

lemma gm_year_day:
  assumes "1 \<le> y" "0 \<le> d" "gm_year y d = (y1, d1)"
  shows "y \<le> y1 \<and> 0 \<le> d1 \<and> d1 < year_days y1 \<and> day_number y1 0 1 + d1 = day_number y 0 1 + d"
  using assms
proof (induction y d rule: gm_year.induct)
  case (1 y d)
  show ?case
  proof (cases "d < year_days y")
    case True
    then show ?thesis using "1.prems" by (simp add: gm_year.simps [of y d])
  next
    case False
    have "gm_year (y + 1) (d - year_days y) = (y1, d1)" using False "1.prems" by (simp add: gm_year.simps [of y d])
    then show ?thesis using "1.IH"(2) False "1.prems" year_step [of y] by fastforce
  qed
qed

lemma gm_month_day:
  assumes "1 \<le> y" "0 \<le> m" "m \<le> 11" "0 \<le> d" "day_number y m 1 + d < day_number y 11 1 + 31" "gm_month y m d = (m1, d1)"
  shows "0 \<le> m1 \<and> m1 \<le> 11 \<and> 0 \<le> d1 \<and> d1 < month_days y m1 \<and> day_number y m1 1 + d1 = day_number y m 1 + d"
  using assms
proof (induction y m d rule: gm_month.induct)
  case (1 y m d)
  show ?case
  proof (cases "d < month_days y m \<or> m \<ge> 11")
    case True
    moreover have "m \<ge> 11 \<Longrightarrow> m = 11 \<and> d < month_days y m" using "1.prems" by (simp add: month_days_def)
    ultimately show ?thesis using "1.prems" by (auto simp add: gm_month.simps [of y m d])
  next
    case False
    have "gm_month y (m + 1) (d - month_days y m) = (m1, d1)" using False "1.prems" by (simp add: gm_month.simps [of y m d])
    then show ?thesis using "1.IH" False "1.prems" month_step [of y m] by fastforce
  qed
qed

text \<open>Times as the calendar has them.\<close>

definition calendar_time :: "apr_time_exp \<Rightarrow> bool" where
  "calendar_time xt \<longleftrightarrow> 70 \<le> tm_year xt \<and> 0 \<le> tm_mon xt \<and> tm_mon xt \<le> 11 \<and> 1 \<le> tm_mday xt \<and> tm_mday xt \<le> month_days (tm_year xt) (tm_mon xt) \<and>
     0 \<le> tm_hour xt \<and> tm_hour xt \<le> 23 \<and> 0 \<le> tm_min xt \<and> tm_min xt \<le> 59 \<and> 0 \<le> tm_sec xt \<and> tm_sec xt \<le> 59 \<and>
     0 \<le> tm_wday xt \<and> tm_wday xt \<le> 6"

definition seconds_of :: "apr_time_exp \<Rightarrow> int" where
  "seconds_of xt = day_number (tm_year xt) (tm_mon xt) (tm_mday xt) * 86400 + tm_hour xt * 3600 + tm_min xt * 60 + tm_sec xt"

lemma mod_le: "0 < k \<Longrightarrow> a mod k \<le> k - (1 :: int)"
  using pos_mod_bound [of k a] by simp

lemma gmtime_calendar: "0 \<le> tt \<Longrightarrow> calendar_time (gmtime_r tt) \<and> seconds_of (gmtime_r tt) = tt"
proof -
  assume tt: "0 \<le> tt"
  define days secs where "days = tt div 86400" and "secs = tt mod 86400"
  have d: "0 \<le> days" "0 \<le> secs" "secs < 86400" "tt = days * 86400 + secs" using tt by (simp_all add: days_def secs_def pos_imp_zdiv_nonneg_iff)
  have e: "day_number 70 0 1 = 0" by code_simp
  obtain y yd where y: "gm_year 70 days = (y, yd)" by fastforce
  then have yy: "70 \<le> y" "0 \<le> yd" "yd < year_days y" "day_number y 0 1 + yd = days" using gm_year_day [OF _ _ y] d e by auto
  obtain m dd where m: "gm_month y 0 yd = (m, dd)" by fastforce
  have "day_number y 11 1 + 31 = day_number y 0 1 + year_days y"
    using yy(1) year_step [of y] by (simp add: day_number_div dayoffset_def)
  then have mm: "0 \<le> m" "m \<le> 11" "0 \<le> dd" "dd < month_days y m" "day_number y m 1 + dd = days"
    using gm_month_day [OF _ _ _ _ _ m] yy by auto
  have h: "secs div 3600 * 3600 + secs div 60 mod 60 * 60 + secs mod 60 = secs"
  proof -
    have "secs div 60 * 60 + secs mod 60 = secs" "secs div 60 div 60 * 60 + secs div 60 mod 60 = secs div 60" by (rule div_mult_mod_eq)+
    moreover have "secs div 3600 = secs div 60 div 60" using zdiv_zmult2_eq [of 60 secs 60] by simp
    ultimately show ?thesis by linarith
  qed
  have h2: "0 \<le> secs div 3600" "secs div 3600 \<le> 23" using d by linarith+
  have h3: "secs mod 60 \<le> 59" "secs div 60 mod 60 \<le> 59" "(days + 4) mod 7 \<le> 6"
    using mod_le [of 60 secs] mod_le [of 60 "secs div 60"] mod_le [of 7 "days + 4"] by simp_all
  define hh mi ss wd where "hh = secs div 3600" and "mi = secs div 60 mod 60" and "ss = secs mod 60" and "wd = (days + 4) mod 7"
  have b: "hh * 3600 + mi * 60 + ss = secs" "0 \<le> hh" "hh \<le> 23" "0 \<le> mi" "mi \<le> 59" "0 \<le> ss" "ss \<le> 59" "0 \<le> wd" "wd \<le> 6"
    unfolding hh_def mi_def ss_def wd_def by (rule h h2 h3 pos_mod_sign zero_less_numeral)+
  have g: "gmtime_r tt = \<lparr>tm_usec = 0, tm_sec = ss, tm_min = mi, tm_hour = hh, tm_mday = dd + 1, tm_mon = m,
         tm_year = y, tm_wday = wd, tm_yday = yd, tm_isdst = 0, tm_gmtoff = 0\<rparr>"
    by (simp only: gmtime_r_def Let_def days_def [symmetric] secs_def [symmetric] y m prod.case hh_def mi_def ss_def wd_def)
  have "day_number y m (dd + 1) = days" using day_number_mday [of y m dd] mm(5) by simp
  then have "seconds_of (gmtime_r tt) = tt" using b(1) d(4) unfolding g seconds_of_def by simp
  moreover have "calendar_time (gmtime_r tt)" using yy(1) mm b unfolding g calendar_time_def by simp
  ultimately show ?thesis by blast
qed

text \<open>Exploding a time and counting back gives the time, for every time from 1970 on.\<close>

lemma exp_gmt_fields:
  assumes "0 \<le> t"
  defines "xt \<equiv> apr_time_exp_gmt t"
  shows "calendar_time xt" "seconds_of xt = t div 1000000" "tm_usec xt = t mod 1000000" "tm_gmtoff xt = 0"
proof -
  let ?g = "gmtime_r (t div 1000000)"
  have e: "xt = ?g\<lparr>tm_usec := t mod 1000000, tm_gmtoff := 0\<rparr>"
    using assms(1) by (simp add: xt_def apr_time_exp_gmt_def apr_time_exp_tz_def explode_time_def APR_USEC_PER_SEC_def sdiv_pos smod_pos)
  have "calendar_time ?g \<and> seconds_of ?g = t div 1000000" using assms(1) by (intro gmtime_calendar) (simp add: pos_imp_zdiv_nonneg_iff)
  then show "calendar_time xt" "seconds_of xt = t div 1000000" "tm_usec xt = t mod 1000000" "tm_gmtoff xt = 0"
    by (simp_all add: e calendar_time_def seconds_of_def)
qed

lemma exp_get_seconds: "apr_time_exp_get xt = (if seconds_of xt < 0 then None else Some (seconds_of xt * 1000000 + tm_usec xt))"
proof -
  have "((day_number (tm_year xt) (tm_mon xt) (tm_mday xt) * 24 + tm_hour xt) * 60 + tm_min xt) * 60 + tm_sec xt = seconds_of xt"
    by (simp add: seconds_of_def algebra_simps)
  then show ?thesis by (simp add: apr_time_exp_get_def Let_def APR_USEC_PER_SEC_def)
qed

text \<open>Counting back undoes exploding: \<open>apr_time_exp_get\<close> gives every time from 1970 on back from the fields
  \<open>apr_time_exp_gmt\<close> fills in, for any year.\<close>

theorem exploded_time_back:
  assumes "0 \<le> t"
  shows "apr_time_exp_get (apr_time_exp_gmt t) = Some t \<and> apr_time_exp_gmt_get (apr_time_exp_gmt t) = Some t"
proof -
  have "0 \<le> t div 1000000" using assms by (simp add: pos_imp_zdiv_nonneg_iff)
  then have "apr_time_exp_get (apr_time_exp_gmt t) = Some (t div 1000000 * 1000000 + t mod 1000000)"
    using exp_gmt_fields [OF assms] by (simp add: exp_get_seconds)
  then show ?thesis using exp_gmt_fields(4) [OF assms] by (simp add: apr_time_exp_gmt_get_def)
qed

section \<open>The parsers know the calendar\<close>

lemma mint_sum: "mint_of s = 65536 * int (ccode (cget s 0)) + 256 * int (ccode (cget s 1)) + int (ccode (cget s 2))"
proof -
  define a b c where "a = int (ccode (cget s 0))" and "b = int (ccode (cget s 1))" and "c = int (ccode (cget s 2))"
  have r: "0 \<le> b" "b < 256" "0 \<le> c" "c < 256" using ccode_less [of "cget s 1"] ccode_less [of "cget s 2"] by (auto simp: b_def c_def simp del: ccode_less)
  have "or (push_bit 16 a) (push_bit 8 b) = push_bit 8 (or (push_bit 8 a) b)" by (simp add: push_bit_or)
  also have "or (push_bit 8 a) b = concat_bit 8 b a" using r by (simp add: concat_bit_def or.commute take_bit_int_eq_self)
  also have "or (push_bit 8 (concat_bit 8 b a)) c = concat_bit 8 c (concat_bit 8 b a)" using r by (simp add: concat_bit_def or.commute take_bit_int_eq_self)
  finally have "mint_of s = concat_bit 8 c (concat_bit 8 b a)" by (simp add: mint_of_def a_def b_def c_def)
  also have "\<dots> = 65536 * a + 256 * b + c" using r by (simp add: concat_bit_eq take_bit_int_eq_self push_bit_eq_mult)
  finally show ?thesis by (simp add: a_def b_def c_def)
qed

lemma base_256: "\<lbrakk>256 * x + int c = 256 * y + int d; c < 256; d < 256\<rbrakk> \<Longrightarrow> x = y \<and> c = d"
proof -
  assume e: "256 * x + int c = 256 * y + int d" and b: "c < 256" "d < 256"
  then have "x = y" by linarith
  then show ?thesis using e by simp
qed

lemma mint_inject: "mint_of s = mint_of s1 \<longleftrightarrow> cget s 0 = cget s1 0 \<and> cget s 1 = cget s1 1 \<and> cget s 2 = cget s1 2"
proof
  assume "mint_of s = mint_of s1"
  then have "256 * (256 * int (ccode (cget s 0)) + int (ccode (cget s 1))) + int (ccode (cget s 2)) =
    256 * (256 * int (ccode (cget s1 0)) + int (ccode (cget s1 1))) + int (ccode (cget s1 2))" unfolding mint_sum by simp
  from base_256 [OF this]
  have e: "256 * int (ccode (cget s 0)) + int (ccode (cget s 1)) = 256 * int (ccode (cget s1 0)) + int (ccode (cget s1 1))" "cget s 2 = cget s1 2"
    by simp_all
  from base_256 [OF e(1)] show "cget s 0 = cget s1 0 \<and> cget s 1 = cget s1 1 \<and> cget s 2 = cget s1 2" using e(2) by simp
qed (simp add: mint_of_def)

definition month_text :: "int \<Rightarrow> cstring \<Rightarrow> bool" where
  "month_text m s \<longleftrightarrow> take 3 s = apr_month_snames ! nat m"

lemma cget_three: "length w = 3 \<Longrightarrow> nul_free w \<Longrightarrow>
    take 3 s = w \<longleftrightarrow> cget s 0 = cget w 0 \<and> cget s 1 = cget w 1 \<and> cget s 2 = cget w 2"
proof -
  assume "length w = 3" "nul_free w"
  then obtain a b c where w: "w = [a, b, c]" "a \<noteq> NUL" "b \<noteq> NUL" "c \<noteq> NUL" by (auto simp: numeral_eq_Suc length_Suc_conv)
  show ?thesis
  proof (cases "length s \<ge> 3")
    case True
    then obtain x y z t where "s = x # y # z # t" by (metis Suc_le_length_iff numeral_3_eq_3)
    then show ?thesis using w by (simp add: numeral_eq_Suc)
  next
    case False
    then have "s = [] \<or> (\<exists>x. s = [x]) \<or> (\<exists>x y. s = [x, y])" by (cases s; cases "tl s"; cases "tl (tl s)") auto
    then show ?thesis using w by (auto simp: numeral_eq_Suc)
  qed
qed

lemma month_names: "\<forall>w\<in>set apr_month_snames. length w = 3 \<and> nul_free w" "length apr_month_snames = 12" "distinct apr_month_snames"
  by code_simp+

lemma mint_month: "w \<in> set apr_month_snames \<Longrightarrow> mint_of s = mint_of w \<longleftrightarrow> take 3 s = w"
  using month_names(1) by (simp add: mint_inject cget_three)

lemma find_month_scan: "find_month (mint_of s) m (map mint_of ws) = m + int (length (takeWhile (\<lambda>w. mint_of s \<noteq> mint_of w) ws))"
  by (induction ws arbitrary: m) simp_all

lemma find_month_eq:
  "find_month (mint_of s) 0 months = int (length (takeWhile (\<lambda>w. take 3 s \<noteq> w) apr_month_snames))"
proof -
  have "takeWhile (\<lambda>w. mint_of s \<noteq> mint_of w) apr_month_snames = takeWhile (\<lambda>w. take 3 s \<noteq> w) apr_month_snames"
    by (rule takeWhile_cong) (simp_all add: mint_month)
  then show ?thesis by (simp add: months_def find_month_scan)
qed

lemma takeWhile_distinct: "distinct ws \<Longrightarrow> i < length ws \<Longrightarrow> length (takeWhile (\<lambda>w. ws ! i \<noteq> w) ws) = i"
proof (induction ws arbitrary: i)
  case (Cons w ws)
  then show ?case by (cases i) auto
qed simp

lemma find_month_name: "0 \<le> m \<Longrightarrow> m \<le> 11 \<Longrightarrow> month_text m s \<Longrightarrow> find_month (mint_of s) 0 months = m"
  using takeWhile_distinct [OF month_names(3), of "nat m"] month_names(2) by (simp add: find_month_eq month_text_def)

lemma find_month_cases:
  "(\<exists>m. 0 \<le> m \<and> m \<le> 11 \<and> find_month (mint_of s) 0 months = m \<and> month_text m s) \<or>
   find_month (mint_of s) 0 months = 12 \<and> (\<nexists>m. 0 \<le> m \<and> m \<le> 11 \<and> month_text m s)"
proof -
  let ?n = "length (takeWhile (\<lambda>w. take 3 s \<noteq> w) apr_month_snames)"
  have l: "?n \<le> 12" using length_takeWhile_le [of "\<lambda>w. take 3 s \<noteq> w" apr_month_snames] month_names(2) by simp
  show ?thesis
  proof (cases "?n < 12")
    case True
    then have "month_text (int ?n) s" using nth_length_takeWhile [of "\<lambda>w. take 3 s \<noteq> w" apr_month_snames] month_names(2) by (simp add: month_text_def)
    then show ?thesis using True by (intro disjI1 exI [of _ "int ?n"]) (simp add: find_month_eq)
  next
    case False
    then have "find_month (mint_of s) 0 months = 12" using l by (simp add: find_month_eq)
    then show ?thesis using find_month_name [of _ s] by auto
  qed
qed

lemma leap_test: "0 \<le> y \<Longrightarrow> (and y 3 \<noteq> 0 \<or> y smod 100 = 0 \<and> y smod 400 \<noteq> 100) \<longleftrightarrow> \<not> leap_year y"
proof -
  assume y: "0 \<le> y"
  have "and y 3 = y mod 4" using take_bit_eq_mask [of 2 y] by (simp add: take_bit_eq_mod mask_eq_exp_minus_1)
  moreover have "(y + 1900) mod 4 = y mod 4" "(y + 1900) mod 100 = y mod 100"
    using mod_mult_self2 [of y 4 475] mod_mult_self2 [of y 100 19] by simp_all
  moreover have "(y + 1900) mod 400 = 0 \<longleftrightarrow> y mod 400 = 100"
  proof -
    define r where "r = y mod 400"
    have b: "0 \<le> r" "r < 400" by (simp_all add: r_def)
    have "(y + 1900) mod 400 = (r + 300) mod 400" using mod_add_eq [of y 400 1900] by (simp add: r_def)
    also have "\<dots> = (if r < 100 then r + 300 else r - 100)" 
    proof (cases "r < 100")
      case False
      have "(r + 300) mod 400 = (r - 100) mod 400" using mod_add_self2 [of "r - 100" 400] by (simp add: add.commute)
      then show ?thesis using b False by simp
    qed (use b in simp)
    finally show ?thesis using b unfolding r_def [symmetric] by (simp split: if_splits)
  qed
  ultimately show ?thesis using y by (auto simp: leap_year_def smod_pos)
qed

text \<open>The reference: the fields are a date of the Gregorian calendar, whose month is named.\<close>

definition real_date :: "date_parts \<Rightarrow> int \<Rightarrow> bool" where
  "real_date p m \<longleftrightarrow> 0 \<le> m \<and> m \<le> 11 \<and> month_text m (dp_monstr p) \<and> 1 \<le> dp_mday p \<and> dp_mday p \<le> month_days (dp_year p) m \<and>
     dp_hour p \<le> 23 \<and> dp_min p \<le> 59 \<and> dp_sec p \<le> 61"

lemma day_checks:
  "1 \<le> d \<and> d \<le> month_days y m \<longleftrightarrow> \<not> (d \<le> 0 \<or> d > 31) \<and> \<not> (d = 31 \<and> (m = 3 \<or> m = 5 \<or> m = 8 \<or> m = 10)) \<and>
    \<not> (m = 1 \<and> (d > 29 \<or> d = 29 \<and> \<not> leap_year y))"
proof -
  consider "m = 1" | "m = 3 \<or> m = 5 \<or> m = 8 \<or> m = 10" | "m \<noteq> 1" "\<not> (m = 3 \<or> m = 5 \<or> m = 8 \<or> m = 10)" by blast
  then show ?thesis
  proof cases
    case 1
    then show ?thesis by (cases "leap_year y"; simp add: month_days_def; linarith)
  next
    case 2
    then have "month_days y m = 30" by (auto simp: month_days_def)
    then show ?thesis using 2 by auto
  next
    case 3
    then have "month_days y m = 31" by (simp add: month_days_def)
    then show ?thesis using 3 by auto
  qed
qed

lemma if_Some: "((if c then Some x else None) = Some y) = (c \<and> y = x)"
  by auto

lemma conj_shuffle: "(a \<and> b) = (q1 \<and> q2 \<and> q3) \<Longrightarrow> r = s \<Longrightarrow> (a \<and> b \<and> r) = (q1 \<and> s \<and> q2 \<and> q3)"
  by blast

lemma if_chain:
  "(if a then None else if b then None else if False then None else if c then None else if e then None else Some x) =
   (if \<not> a \<and> \<not> b \<and> \<not> c \<and> \<not> e then Some x else None)"
  by simp

text \<open>The checks on the day, with the test for leap years, let through the dates of the calendar.\<close>

lemma check_parts_real:
  assumes "0 \<le> dp_year p"
  shows "check_parts p = Some xt \<longleftrightarrow> (\<exists>m. real_date p m \<and>
    xt = \<lparr>tm_usec = 0, tm_sec = dp_sec p, tm_min = dp_min p, tm_hour = dp_hour p, tm_mday = dp_mday p, tm_mon = m,
          tm_year = dp_year p, tm_wday = 0, tm_yday = 0, tm_isdst = 0, tm_gmtoff = 0\<rparr>)"
proof (cases "find_month (mint_of (dp_monstr p)) 0 months = 12")
  case True
  then have "\<nexists>m. 0 \<le> m \<and> m \<le> 11 \<and> month_text m (dp_monstr p)" using find_month_cases [of "dp_monstr p"] by auto
  then show ?thesis using True by (auto simp: check_parts_def real_date_def Let_def)
next
  case False
  then obtain m where m: "0 \<le> m" "m \<le> 11" "find_month (mint_of (dp_monstr p)) 0 months = m" "month_text m (dp_monstr p)"
    using find_month_cases [of "dp_monstr p"] by auto
  have u: "m1 = m" if "0 \<le> m1" "m1 \<le> 11" "month_text m1 (dp_monstr p)" for m1 using find_month_name [OF that] m(3) by simp
  let ?R = "\<lambda>m. \<lparr>tm_usec = 0, tm_sec = dp_sec p, tm_min = dp_min p, tm_hour = dp_hour p, tm_mday = dp_mday p, tm_mon = m,
          tm_year = dp_year p, tm_wday = 0, tm_yday = 0, tm_isdst = 0, tm_gmtoff = 0\<rparr>"
  let ?c = "1 \<le> dp_mday p \<and> dp_mday p \<le> month_days (dp_year p) m \<and> dp_hour p \<le> 23 \<and> dp_min p \<le> 59 \<and> dp_sec p \<le> 61"
  have "real_date p m1 \<longleftrightarrow> m1 = m \<and> ?c" for m1
    unfolding real_date_def using m(1,2,4) u [of m1] by blast
  then have rhs: "(\<exists>m1. real_date p m1 \<and> xt = ?R m1) \<longleftrightarrow> ?c \<and> xt = ?R m" by blast
  have d: "?c \<longleftrightarrow> \<not> (dp_mday p \<le> 0 \<or> dp_mday p > 31) \<and> \<not> (dp_hour p > 23 \<or> dp_min p > 59 \<or> dp_sec p > 61) \<and>
    \<not> (dp_mday p = 31 \<and> (m = 3 \<or> m = 5 \<or> m = 8 \<or> m = 10)) \<and>
    \<not> (m = 1 \<and> (dp_mday p > 29 \<or> dp_mday p = 29 \<and> \<not> leap_year (dp_year p)))"
  proof -
    have "dp_hour p \<le> 23 \<and> dp_min p \<le> 59 \<and> dp_sec p \<le> 61 \<longleftrightarrow> \<not> (dp_hour p > 23 \<or> dp_min p > 59 \<or> dp_sec p > 61)" by auto
    then show ?thesis by (rule conj_shuffle [OF day_checks])
  qed
  have n: "(m = 12) = False" using m(2) by simp
  have "check_parts p = (if ?c then Some (?R m) else None)"
    unfolding check_parts_def Let_def m(3) leap_test [OF assms] d n by (simp only: if_chain)
  then show ?thesis unfolding rhs by (simp only: if_Some)
qed

lemma checkmask_digit:
  "\<lbrakk>checkmask_loop n data ms; i < length ms; CHR ''*'' \<notin> set (take (Suc i) ms); ms ! i = CHR ''#''\<rbrakk> \<Longrightarrow> c_isdigit (cget data i)"
proof (induction n data ms arbitrary: i rule: checkmask_loop.induct)
  case (3 n data m ms)
  show ?case
  proof (cases i)
    case 0
    then show ?thesis using "3.prems" by (simp add: Let_def)
  next
    case (Suc k)
    have "c_isdigit (cget (tl data) k)" using "3.IH" "3.prems" Suc by (auto simp: Let_def)
    then show ?thesis using Suc by (cases data) auto
  qed
qed simp_all

lemma mask_digit: "\<lbrakk>apr_date_checkmask date ms; i < length ms; CHR ''*'' \<notin> set (take (Suc i) ms); ms ! i = CHR ''#''\<rbrakk> \<Longrightarrow> 0 \<le> dig date i"
  unfolding apr_date_checkmask_def by (drule (3) checkmask_digit) (simp add: dig_def c_isdigit_def)

lemma parts_simps [simp]:
  "dp_year (parts date y d mon tim gmt) = y" "dp_mday (parts date y d mon tim gmt) = d" "dp_monstr (parts date y d mon tim gmt) = drop mon date"
  "dp_hour (parts date y d mon tim gmt) = dig date tim * 10 + dig date (tim + 1)"
  "dp_min (parts date y d mon tim gmt) = dig date (tim + 3) * 10 + dig date (tim + 4)"
  "dp_sec (parts date y d mon tim gmt) = dig date (tim + 6) * 10 + dig date (tim + 7)"
  "dp_gmtstr (parts date y d mon tim gmt) = map_option (\<lambda>g. drop g date) gmt"
  by (simp_all add: parts_def)

lemma year4_pos: "\<lbrakk>year4 date i = Some y; 0 \<le> dig date (i + 2); 0 \<le> dig date (i + 3)\<rbrakk> \<Longrightarrow> 0 \<le> y"
  by (auto simp: year4_def Let_def split: if_splits)

lemma year2_pos: "0 \<le> dig date i \<Longrightarrow> 0 \<le> dig date (i + 1) \<Longrightarrow> 0 \<le> year2 date i"
  by (simp add: year2_def Let_def)

lemma common_formats_other: "common_formats date None = Some p \<Longrightarrow> common_formats date other = Some p"
  by (auto simp: common_formats_def split: if_splits)

lemma common_formats_year:
  assumes "common_formats date None = Some p"
  shows "0 \<le> dp_year p"
proof -
  have m1: "apr_date_checkmask date ''## @$$ #### ##:##:## *'' \<Longrightarrow> 0 \<le> dig date 9 \<and> 0 \<le> dig date 10"
    by (rule conjI; erule mask_digit; simp)
  have m2: "apr_date_checkmask date ''##-@$$-## ##:##:## *'' \<Longrightarrow> 0 \<le> dig date 7 \<and> 0 \<le> dig date 8"
    by (rule conjI; erule mask_digit; simp)
  have m3: "apr_date_checkmask date ''@$$ ~# ##:##:## ####*'' \<Longrightarrow> 0 \<le> dig date 18 \<and> 0 \<le> dig date 19"
    by (rule conjI; erule mask_digit; simp)
  have m4: "apr_date_checkmask date ''# @$$ #### ##:##:## *'' \<Longrightarrow> 0 \<le> dig date 8 \<and> 0 \<le> dig date 9"
    by (rule conjI; erule mask_digit; simp)
  show ?thesis
    using assms year4_pos [of date 7] year4_pos [of date 16] year4_pos [of date 6] year2_pos [of date 7] m1 m2 m3 m4
    unfolding common_formats_def by (auto split: if_splits)
qed

definition date_value :: "date_parts \<Rightarrow> int \<Rightarrow> int" where
  "date_value p m = (day_number (dp_year p) m (dp_mday p) * 86400 + dp_hour p * 3600 + dp_min p * 60 + dp_sec p) * 1000000"

lemma parsed_time:
  assumes "0 \<le> dp_year p"
  shows "Option.bind (check_parts p) apr_time_exp_get = Some t \<longleftrightarrow> (\<exists>m. real_date p m \<and> 0 \<le> date_value p m \<and> t = date_value p m)"
proof -
  let ?R = "\<lambda>m. \<lparr>tm_usec = 0, tm_sec = dp_sec p, tm_min = dp_min p, tm_hour = dp_hour p, tm_mday = dp_mday p, tm_mon = m,
          tm_year = dp_year p, tm_wday = 0, tm_yday = 0, tm_isdst = 0, tm_gmtoff = 0\<rparr>"
  have g: "apr_time_exp_get (?R m) = Some t \<longleftrightarrow> 0 \<le> date_value p m \<and> t = date_value p m" for m
    by (auto simp: exp_get_seconds seconds_of_def date_value_def)
  show ?thesis unfolding bind_eq_Some_conv check_parts_real [OF assms] using g by blast
qed

text \<open>\<open>apr_date_parse_http\<close> returns a time only for a date of the Gregorian calendar, not before 1970, in one of its formats, and
  then the microseconds to that date: leap years are known, a day that its month does not have is refused.\<close>

theorem parsed_dates_are_real:
  assumes "t \<noteq> APR_DATE_BAD"
  shows "apr_date_parse_http (Some s) = t \<longleftrightarrow>
    (\<exists>date p m. skip_weekday s = Some date \<and> common_formats date None = Some p \<and> real_date p m \<and> 0 < t \<and> t = date_value p m)"
proof -
  have "apr_date_parse_http (Some s) = t \<longleftrightarrow>
      (\<exists>date p. skip_weekday s = Some date \<and> common_formats date None = Some p \<and> Option.bind (check_parts p) apr_time_exp_get = Some t)"
    using assms by (auto simp: apr_date_parse_http_def bind_eq_Some_conv split: option.splits)
  also have "\<dots> \<longleftrightarrow> (\<exists>date p m. skip_weekday s = Some date \<and> common_formats date None = Some p \<and> real_date p m \<and> 0 \<le> date_value p m \<and> t = date_value p m)"
    using common_formats_year parsed_time by blast
  finally show ?thesis using assms unfolding APR_DATE_BAD_def by (metis less_le)
qed

section \<open>Written dates are read back\<close>

lemma dchar_digit: "0 \<le> n \<Longrightarrow> n \<le> 9 \<Longrightarrow> c_isdigit (dchar n) \<and> int (ccode (dchar n)) - 48 = n"
proof -
  assume n: "0 \<le> n" "n \<le> 9"
  then have "nat ((n + 48) mod 256) = nat n + 48" by simp
  then show ?thesis using n by (simp add: dchar_def c_isdigit_def)
qed

lemma two_digits_read:
  assumes "0 \<le> n" "n \<le> 99"
  obtains a b where "two_digits n = [a, b]" "c_isdigit a" "c_isdigit b" "(int (ccode a) - 48) * 10 + (int (ccode b) - 48) = n"
proof -
  have "n sdiv 10 = n div 10" "n smod 10 = n mod 10" "0 \<le> n div 10" "n div 10 \<le> 9" "n mod 10 \<le> 9" "0 \<le> n mod 10" "n div 10 * 10 + n mod 10 = n"
    using assms mod_le [of 10 n] by (simp_all add: sdiv_pos smod_pos; linarith)+
  then show thesis using that [of "dchar (n div 10)" "dchar (n mod 10)"] dchar_digit [of "n div 10"] dchar_digit [of "n mod 10"]
    by (simp add: two_digits_def)
qed

lemma four_digits_read:
  assumes "1900 \<le> n" "n \<le> 9999"
  obtains a b c d where "four_digits n = [a, b, c, d]" "c_isdigit a" "c_isdigit b" "c_isdigit c" "c_isdigit d"
    "0 \<le> ((int (ccode a) - 48) * 10 + (int (ccode b) - 48) - 19) * 100"
    "((int (ccode a) - 48) * 10 + (int (ccode b) - 48) - 19) * 100 + ((int (ccode c) - 48) * 10 + (int (ccode d) - 48)) = n - 1900"
proof -
  define a b c d where "a = n div 1000" and "b = n mod 1000 div 100" and "c = n mod 100 div 10" and "d = n mod 10"
  have s: "four_digits n = [dchar a, dchar b, dchar c, dchar d]"
    using assms by (simp add: four_digits_def a_def b_def c_def d_def sdiv_pos smod_pos)
  have r: "0 \<le> a" "a \<le> 9" "0 \<le> b" "b \<le> 9" "0 \<le> c" "c \<le> 9" "0 \<le> d" "d \<le> 9"
    using assms mod_le [of 1000 n] mod_le [of 100 n] mod_le [of 10 n] pos_mod_sign [of 1000 n] pos_mod_sign [of 100 n] pos_mod_sign [of 10 n]
    unfolding a_def b_def c_def d_def by linarith+
  have e: "n = 1000 * a + 100 * b + 10 * c + d"
  proof -
    have "n mod 1000 mod 100 = n mod 100" "n mod 100 mod 10 = n mod 10" by (simp_all add: mod_mod_cancel)
    moreover have "n div 1000 * 1000 + n mod 1000 = n" "n mod 1000 div 100 * 100 + n mod 1000 mod 100 = n mod 1000"
      "n mod 100 div 10 * 10 + n mod 100 mod 10 = n mod 100" by (rule div_mult_mod_eq)+
    ultimately show ?thesis unfolding a_def b_def c_def d_def by linarith
  qed
  have "19 \<le> 10 * a + b" using assms(1) e r by linarith
  then show thesis
    using that [OF s] dchar_digit [OF r(1,2)] dchar_digit [OF r(3,4)] dchar_digit [OF r(5,6)] dchar_digit [OF r(7,8)] assms(1) e by simp
qed

lemma name_chars:
  "w \<in> set (apr_month_snames @ apr_day_snames) \<Longrightarrow> \<exists>a b c. w = [a, b, c] \<and> c_isupper a \<and> c_islower b \<and> c_islower c"
proof -
  assume w: "w \<in> set (apr_month_snames @ apr_day_snames)"
  have "\<forall>w\<in>set (apr_month_snames @ apr_day_snames). length w = 3 \<and> c_isupper (w ! 0) \<and> c_islower (w ! 1) \<and> c_islower (w ! 2)" by code_simp
  then have "length w = 3 \<and> c_isupper (w ! 0) \<and> c_islower (w ! 1) \<and> c_islower (w ! 2)" using w by blast
  then show ?thesis by (auto simp: numeral_eq_Suc length_Suc_conv)
qed

lemma letter_facts:
  "c_isupper a \<Longrightarrow> \<not> c_isspace a \<and> a \<noteq> CHR '' '' \<and> \<not> c_isdigit a" "c_islower a \<Longrightarrow> \<not> c_isspace a \<and> a \<noteq> CHR '' '' \<and> \<not> c_isdigit a"
  by (auto simp: c_isupper_def c_islower_def c_isspace_def c_isdigit_def ccode_def)

text \<open>The fields of a time as the parser is to find them.\<close>

lemma parts_of_time:
  assumes "calendar_time xt" "dp_year p = tm_year xt" "dp_mday p = tm_mday xt" "month_text (tm_mon xt) (dp_monstr p)"
    "dp_hour p = tm_hour xt" "dp_min p = tm_min xt" "dp_sec p = tm_sec xt"
  shows "real_date p (tm_mon xt)" "date_value p (tm_mon xt) = seconds_of xt * 1000000" "0 \<le> dp_year p"
  using assms by (simp_all add: calendar_time_def real_date_def date_value_def seconds_of_def)

lemma skip_name:
  assumes "c_isupper a" "c_islower b" "c_islower c"
  shows "skip_weekday (a # b # c # CHR '','' # CHR '' '' # rest) = Some rest" "skip_weekday (a # b # c # CHR '' '' # rest) = Some rest"
  using letter_facts assms by (simp_all add: skip_weekday_def Let_def numeral_eq_Suc)


lemma month_texts: "0 \<le> m \<Longrightarrow> m \<le> 11 \<Longrightarrow> apr_month_snames ! nat m \<in> set apr_month_snames"
  by (rule nth_mem) (simp add: month_names(2))

lemma day_texts: "0 \<le> d \<Longrightarrow> d \<le> 6 \<Longrightarrow> apr_day_snames ! nat d \<in> set apr_day_snames"
  by (rule nth_mem) (simp add: apr_day_snames_def)

lemma written_parses:
  assumes "skip_weekday s = Some date" "common_formats date None = Some p" "real_date p m" "date_value p m = t" "0 \<le> dp_year p" "0 \<le> t"
  shows "apr_date_parse_http (Some s) = t"
proof -
  have "Option.bind (check_parts p) apr_time_exp_get = Some t" using assms(3-6) parsed_time by blast
  then show ?thesis using assms(1,2) by (simp add: apr_date_parse_http_def)
qed

lemma written_time:
  assumes "skip_weekday s = Some date" "common_formats date None = Some p" "calendar_time xt" "dp_year p = tm_year xt" "dp_mday p = tm_mday xt"
    "month_text (tm_mon xt) (dp_monstr p)" "dp_hour p = tm_hour xt" "dp_min p = tm_min xt" "dp_sec p = tm_sec xt" "seconds_of xt = t div 1000000" "0 \<le> t"
  shows "apr_date_parse_http (Some s) = t div 1000000 * 1000000"
proof -
  note q = parts_of_time [OF assms(3-9)]
  have n: "0 \<le> t div 1000000 * 1000000" using assms(11) by (simp add: pos_imp_zdiv_nonneg_iff)
  show ?thesis by (rule written_parses [OF assms(1,2) q(1) _ q(3) n]) (simp only: q(2) assms(10))
qed

lemma rfc_agrees:
  assumes "apr_date_parse_http (Some s) = t" "t \<noteq> APR_DATE_BAD" "\<not> c_isdigit (cget s 0)"
    "skip_weekday s = Some date" "common_formats date None = Some p"
  shows "apr_date_parse_rfc (Some s) = t - zone_offset (dp_gmtstr p) * 1000000"
proof -
  have "Option.bind (check_parts p) apr_time_exp_get = Some t"
    using assms by (auto simp: apr_date_parse_http_def split: option.splits)
  then obtain xt where x: "check_parts p = Some xt" "apr_time_exp_get xt = Some t" by (auto simp: bind_eq_Some_conv)
  have "apr_time_exp_get (xt\<lparr>tm_gmtoff := zone_offset (dp_gmtstr p)\<rparr>) = apr_time_exp_get xt" by (simp add: apr_time_exp_get_def Let_def)
  then have "apr_time_exp_get (xt\<lparr>tm_gmtoff := zone_offset (dp_gmtstr p)\<rparr>) = Some t" using x(2) by simp
  then show ?thesis using assms(3,4) x(1) common_formats_other [OF assms(5)]
    by (simp add: apr_date_parse_rfc_def apr_time_exp_gmt_get_def APR_USEC_PER_SEC_def)
qed

lemma days_mono:
  assumes "1 \<le> y" "y \<le> z"
  shows "day_number y 0 1 \<le> day_number z 0 1"
  using assms(2)
proof (induction rule: int_ge_induct)
  case (step z)
  then show ?case using assms(1) year_step [of z] by (simp add: year_days_def split: if_splits)
qed simp_all

lemma months_mono:
  assumes "1 \<le> y" "0 \<le> m" "m \<le> 11"
  shows "day_number y 0 1 \<le> day_number y m 1"
  using assms(2,3)
proof (induction rule: int_ge_induct)
  case (step m)
  then show ?case using assms(1) month_step [of y m] month_days_pos(1) [of y m] by simp
qed simp_all

lemma year_bound: "calendar_time xt \<Longrightarrow> seconds_of xt < 253402300800 \<Longrightarrow> tm_year xt \<le> 8099"
proof (rule ccontr)
  assume c: "calendar_time xt" "seconds_of xt < 253402300800" and y: "\<not> tm_year xt \<le> 8099"
  have f: "0 \<le> tm_mon xt" "tm_mon xt \<le> 11" "1 \<le> tm_mday xt" "0 \<le> tm_hour xt" "0 \<le> tm_min xt" "0 \<le> tm_sec xt" using c(1) by (simp_all add: calendar_time_def)
  have e: "day_number 8100 0 1 = 2932897" by code_simp
  have "day_number 8100 0 1 \<le> day_number (tm_year xt) 0 1" using y by (intro days_mono) auto
  also have "\<dots> \<le> day_number (tm_year xt) (tm_mon xt) 1" by (rule months_mono) (use f y in auto)
  also have "\<dots> \<le> day_number (tm_year xt) (tm_mon xt) (tm_mday xt)" using f(3) by (simp add: day_number_def Let_def)
  finally show False using c(2) e f by (simp add: seconds_of_def)
qed

text \<open>The text behind the weekday, in the two formats the server writes.\<close>

lemma rfc1123_formats:
  fixes rest :: cstring
  assumes "c_isdigit d1" "c_isdigit d2" "c_isupper u" "c_islower v" "c_islower w" "c_isdigit y1" "c_isdigit y2" "c_isdigit y3" "c_isdigit y4"
    "c_isdigit h1" "c_isdigit h2" "c_isdigit m1" "c_isdigit m2" "c_isdigit s1" "c_isdigit s2"
  defines "date \<equiv> [d1, d2, CHR '' '', u, v, w, CHR '' '', y1, y2, y3, y4, CHR '' '', h1, h2, CHR '':'', m1, m2, CHR '':'', s1, s2] @ CHR '' '' # rest"
  shows "common_formats date other = map_option (\<lambda>y. parts date y (day2 date 0) 3 12 (Some 21)) (year4 date 7)"
proof -
  have "apr_date_checkmask date ''## @$$ #### ##:##:## *''"
    using assms(1-15) by (simp add: date_def apr_date_checkmask_def numeral_eq_Suc)
  then show ?thesis by (simp add: common_formats_def)
qed

lemma asctime_formats:
  fixes rest :: cstring
  assumes "c_isdigit d1" "c_isdigit d2" "c_isupper u" "c_islower v" "c_islower w" "c_isdigit y1" "c_isdigit y2" "c_isdigit y3" "c_isdigit y4"
    "c_isdigit h1" "c_isdigit h2" "c_isdigit m1" "c_isdigit m2" "c_isdigit s1" "c_isdigit s2"
  defines "date \<equiv> [u, v, w, CHR '' '', d1, d2, CHR '' '', h1, h2, CHR '':'', m1, m2, CHR '':'', s1, s2, CHR '' '', y1, y2, y3, y4] @ rest"
  shows "common_formats date other = map_option (\<lambda>y. parts date y (day2 date 4) 0 7 None) (year4 date 16)"
proof -
  have c: "apr_date_checkmask date ''@$$ ~# ##:##:## ####*''"
    using assms(1-15) by (simp add: date_def apr_date_checkmask_def numeral_eq_Suc)
  have n: "\<not> c_isdigit (cget date 0)" using assms(3) letter_facts(1) by (simp add: date_def)
  have "\<not> apr_date_checkmask date (CHR ''#'' # ms)" for ms using n by (simp add: apr_date_checkmask_def numeral_eq_Suc)
  moreover have "cget date 4 = d1" by (simp add: date_def numeral_eq_Suc)
  moreover have "d1 \<noteq> CHR '' ''" using assms(1) by (auto simp: c_isdigit_def ccode_def)
  ultimately show ?thesis using c by (simp add: common_formats_def day2_def)
qed

text \<open>The characters of a time.\<close>

lemma time_chars:
  assumes c: "calendar_time xt" and "tm_year xt \<le> 8099"
  obtains d1 d2 h1 h2 m1 m2 s1 s2 y1 y2 y3 y4 u v w a b e where
    "two_digits (tm_mday xt) = [d1, d2]" "c_isdigit d1" "c_isdigit d2" "(int (ccode d1) - 48) * 10 + (int (ccode d2) - 48) = tm_mday xt"
    "two_digits (tm_hour xt) = [h1, h2]" "c_isdigit h1" "c_isdigit h2" "(int (ccode h1) - 48) * 10 + (int (ccode h2) - 48) = tm_hour xt"
    "two_digits (tm_min xt) = [m1, m2]" "c_isdigit m1" "c_isdigit m2" "(int (ccode m1) - 48) * 10 + (int (ccode m2) - 48) = tm_min xt"
    "two_digits (tm_sec xt) = [s1, s2]" "c_isdigit s1" "c_isdigit s2" "(int (ccode s1) - 48) * 10 + (int (ccode s2) - 48) = tm_sec xt"
    "four_digits (1900 + tm_year xt) = [y1, y2, y3, y4]" "c_isdigit y1" "c_isdigit y2" "c_isdigit y3" "c_isdigit y4"
    "0 \<le> ((int (ccode y1) - 48) * 10 + (int (ccode y2) - 48) - 19) * 100"
    "((int (ccode y1) - 48) * 10 + (int (ccode y2) - 48) - 19) * 100 + ((int (ccode y3) - 48) * 10 + (int (ccode y4) - 48)) = 1900 + tm_year xt - 1900"
    "apr_month_snames ! nat (tm_mon xt) = [u, v, w]" "c_isupper u" "c_islower v" "c_islower w"
    "apr_day_snames ! nat (tm_wday xt) = [a, b, e]" "c_isupper a" "c_islower b" "c_islower e"
proof -
  have f: "1900 \<le> 1900 + tm_year xt" "1900 + tm_year xt \<le> 9999" "0 \<le> tm_mon xt" "tm_mon xt \<le> 11" "0 \<le> tm_wday xt" "tm_wday xt \<le> 6"
    using assms by (simp_all add: calendar_time_def)
  have r: "0 \<le> tm_mday xt" "tm_mday xt \<le> 99" "0 \<le> tm_hour xt" "tm_hour xt \<le> 99" "0 \<le> tm_min xt" "tm_min xt \<le> 99" "0 \<le> tm_sec xt" "tm_sec xt \<le> 99"
    using c month_days_pos(2) [of "tm_year xt" "tm_mon xt"] by (simp_all add: calendar_time_def)
  obtain u v w where n: "apr_month_snames ! nat (tm_mon xt) = [u, v, w]" "c_isupper u" "c_islower v" "c_islower w"
    using name_chars [of "apr_month_snames ! nat (tm_mon xt)"] month_texts [OF f(3,4)] by (metis Un_iff set_append)
  obtain a b e where wd: "apr_day_snames ! nat (tm_wday xt) = [a, b, e]" "c_isupper a" "c_islower b" "c_islower e"
    using name_chars [of "apr_day_snames ! nat (tm_wday xt)"] day_texts [OF f(5,6)] by (metis Un_iff set_append)
  show thesis
    by (rule two_digits_read [OF r(1,2)], rule two_digits_read [OF r(3,4)], rule two_digits_read [OF r(5,6)], rule two_digits_read [OF r(7,8)],
        rule four_digits_read [OF f(1,2)], rule that) (assumption | rule n wd)+
qed

text \<open>The texts of a time, and that they are read back.\<close>

definition rfc1123_text :: "apr_time_exp \<Rightarrow> cstring" where
  "rfc1123_text xt = apr_day_snames ! nat (tm_wday xt) @ '', '' @ two_digits (tm_mday xt) @ '' '' @ apr_month_snames ! nat (tm_mon xt) @ '' '' @
     four_digits (1900 + tm_year xt) @ '' '' @ time_text xt @ '' GMT''"

definition asctime_text :: "apr_time_exp \<Rightarrow> cstring" where
  "asctime_text xt = apr_day_snames ! nat (tm_wday xt) @ '' '' @ apr_month_snames ! nat (tm_mon xt) @ '' '' @ two_digits (tm_mday xt) @ '' '' @
     time_text xt @ '' '' @ four_digits (1900 + tm_year xt)"

lemma rfc1123_read:
  assumes c: "calendar_time xt" "tm_year xt \<le> 8099" and t: "seconds_of xt = t div 1000000" "0 \<le> t"
  shows "apr_date_parse_http (Some (rfc1123_text xt)) = t div 1000000 * 1000000"
proof (rule time_chars [OF c])
  fix d1 d2 h1 h2 m1 m2 s1 s2 y1 y2 y3 y4 u v w a b e
  assume d: "two_digits (tm_mday xt) = [d1, d2]" "c_isdigit d1" "c_isdigit d2" "(int (ccode d1) - 48) * 10 + (int (ccode d2) - 48) = tm_mday xt"
    and h: "two_digits (tm_hour xt) = [h1, h2]" "c_isdigit h1" "c_isdigit h2" "(int (ccode h1) - 48) * 10 + (int (ccode h2) - 48) = tm_hour xt"
    and m: "two_digits (tm_min xt) = [m1, m2]" "c_isdigit m1" "c_isdigit m2" "(int (ccode m1) - 48) * 10 + (int (ccode m2) - 48) = tm_min xt"
    and s: "two_digits (tm_sec xt) = [s1, s2]" "c_isdigit s1" "c_isdigit s2" "(int (ccode s1) - 48) * 10 + (int (ccode s2) - 48) = tm_sec xt"
    and y: "four_digits (1900 + tm_year xt) = [y1, y2, y3, y4]" "c_isdigit y1" "c_isdigit y2" "c_isdigit y3" "c_isdigit y4"
      "0 \<le> ((int (ccode y1) - 48) * 10 + (int (ccode y2) - 48) - 19) * 100"
      "((int (ccode y1) - 48) * 10 + (int (ccode y2) - 48) - 19) * 100 + ((int (ccode y3) - 48) * 10 + (int (ccode y4) - 48)) = 1900 + tm_year xt - 1900"
    and n: "apr_month_snames ! nat (tm_mon xt) = [u, v, w]" "c_isupper u" "c_islower v" "c_islower w"
    and wd: "apr_day_snames ! nat (tm_wday xt) = [a, b, e]" "c_isupper a" "c_islower b" "c_islower e"
  define date where "date = [d1, d2, CHR '' '', u, v, w, CHR '' '', y1, y2, y3, y4, CHR '' '', h1, h2, CHR '':'', m1, m2, CHR '':'', s1, s2] @ CHR '' '' # ''GMT''"
  define p where "p = parts date (tm_year xt) (day2 date 0) 3 12 (Some 21)"
  have t1: "rfc1123_text xt = a # b # e # CHR '','' # CHR '' '' # date" by (simp add: rfc1123_text_def time_text_def d h m s y n wd date_def)
  have y4: "year4 date 7 = Some (tm_year xt)" using y(6,7) by (simp add: year4_def date_def dig_def numeral_eq_Suc Let_def)
  have p: "common_formats date None = Some p"
    using rfc1123_formats [OF d(2,3) n(2-4) y(2-5) h(2,3) m(2,3) s(2,3), of "''GMT''" None] y4 unfolding p_def date_def by simp
  have q: "dp_mday p = tm_mday xt" "month_text (tm_mon xt) (dp_monstr p)" "dp_hour p = tm_hour xt" "dp_min p = tm_min xt" "dp_sec p = tm_sec xt"
    using d(4) h(4) m(4) s(4) n(1) by (simp_all add: p_def day2_def dig_def date_def month_text_def numeral_eq_Suc)
  show ?thesis unfolding t1 by (rule written_time [OF skip_name(1) [OF wd(2-4)] p c(1) _ q t]) (simp add: p_def)
qed

lemma asctime_read:
  assumes c: "calendar_time xt" "tm_year xt \<le> 8099" and t: "seconds_of xt = t div 1000000" "0 \<le> t"
  shows "apr_date_parse_http (Some (asctime_text xt)) = t div 1000000 * 1000000"
proof (rule time_chars [OF c])
  fix d1 d2 h1 h2 m1 m2 s1 s2 y1 y2 y3 y4 u v w a b e
  assume d: "two_digits (tm_mday xt) = [d1, d2]" "c_isdigit d1" "c_isdigit d2" "(int (ccode d1) - 48) * 10 + (int (ccode d2) - 48) = tm_mday xt"
    and h: "two_digits (tm_hour xt) = [h1, h2]" "c_isdigit h1" "c_isdigit h2" "(int (ccode h1) - 48) * 10 + (int (ccode h2) - 48) = tm_hour xt"
    and m: "two_digits (tm_min xt) = [m1, m2]" "c_isdigit m1" "c_isdigit m2" "(int (ccode m1) - 48) * 10 + (int (ccode m2) - 48) = tm_min xt"
    and s: "two_digits (tm_sec xt) = [s1, s2]" "c_isdigit s1" "c_isdigit s2" "(int (ccode s1) - 48) * 10 + (int (ccode s2) - 48) = tm_sec xt"
    and y: "four_digits (1900 + tm_year xt) = [y1, y2, y3, y4]" "c_isdigit y1" "c_isdigit y2" "c_isdigit y3" "c_isdigit y4"
      "0 \<le> ((int (ccode y1) - 48) * 10 + (int (ccode y2) - 48) - 19) * 100"
      "((int (ccode y1) - 48) * 10 + (int (ccode y2) - 48) - 19) * 100 + ((int (ccode y3) - 48) * 10 + (int (ccode y4) - 48)) = 1900 + tm_year xt - 1900"
    and n: "apr_month_snames ! nat (tm_mon xt) = [u, v, w]" "c_isupper u" "c_islower v" "c_islower w"
    and wd: "apr_day_snames ! nat (tm_wday xt) = [a, b, e]" "c_isupper a" "c_islower b" "c_islower e"
  define date where "date = [u, v, w, CHR '' '', d1, d2, CHR '' '', h1, h2, CHR '':'', m1, m2, CHR '':'', s1, s2, CHR '' '', y1, y2, y3, y4] @ []"
  define p where "p = parts date (tm_year xt) (day2 date 4) 0 7 None"
  have t1: "asctime_text xt = a # b # e # CHR '' '' # date" by (simp add: asctime_text_def time_text_def d h m s y n wd date_def)
  have y4: "year4 date 16 = Some (tm_year xt)" using y(6,7) by (simp add: year4_def date_def dig_def numeral_eq_Suc Let_def)
  have p: "common_formats date None = Some p"
    using asctime_formats [OF d(2,3) n(2-4) y(2-5) h(2,3) m(2,3) s(2,3), of "[]" None] y4 unfolding p_def date_def by simp
  have q: "dp_mday p = tm_mday xt" "month_text (tm_mon xt) (dp_monstr p)" "dp_hour p = tm_hour xt" "dp_min p = tm_min xt" "dp_sec p = tm_sec xt"
    using d(4) h(4) m(4) s(4) n(1) by (simp_all add: p_def day2_def dig_def date_def month_text_def numeral_eq_Suc)
  show ?thesis unfolding t1 by (rule written_time [OF skip_name(2) [OF wd(2-4)] p c(1) _ q t]) (simp add: p_def)
qed

text \<open>C28. What the server writes it reads: for every time from 1970 to the end of the year 9999 the texts of \<open>apr_rfc822_date\<close> and, where the
  local time is GMT, of \<open>apr_ctime\<close> are parsed to that time without its microseconds.\<close>

theorem written_date_parses:
  assumes "0 \<le> t" "t < 253402300800000000"
  shows "apr_date_parse_http (Some (apr_rfc822_date t)) = t div 1000000 * 1000000 \<and>
    apr_date_parse_http (Some (apr_ctime gmtime_r t)) = t div 1000000 * 1000000"
proof -
  define xt where "xt = apr_time_exp_gmt t"
  have c: "calendar_time xt" "seconds_of xt = t div 1000000" using exp_gmt_fields [OF assms(1)] by (simp_all add: xt_def)
  have y: "tm_year xt \<le> 8099" using year_bound [OF c(1)] c(2) assms(2) by simp
  have t1: "apr_rfc822_date t = rfc1123_text xt" by (simp add: apr_rfc822_date_def rfc1123_text_def xt_def Let_def)
  have t2: "apr_ctime gmtime_r t = asctime_text xt"
    by (simp add: apr_ctime_def asctime_text_def xt_def Let_def apr_time_exp_gmt_def apr_time_exp_tz_def apr_time_exp_lt_def time_text_def)
  show ?thesis unfolding t1 t2 by (intro conjI rfc1123_read asctime_read) (rule c y assms(1))+
qed

text \<open>The lenient parser agrees with the strict one: for a text that does not begin with a digit and that \<open>apr_date_parse_http\<close> accepts,
  \<open>apr_date_parse_rfc\<close> returns the same time less the offset of its zone.\<close>

theorem parsers_agree:
  assumes "apr_date_parse_http (Some s) \<noteq> APR_DATE_BAD" "\<not> c_isdigit (cget s 0)"
  shows "\<exists>date p. skip_weekday s = Some date \<and> common_formats date None = Some p \<and>
    apr_date_parse_rfc (Some s) = apr_date_parse_http (Some s) - zone_offset (dp_gmtstr p) * 1000000"
proof -
  obtain date p where "skip_weekday s = Some date" "common_formats date None = Some p"
    using assms(1) by (auto simp: apr_date_parse_http_def bind_eq_Some_conv split: option.splits)
  then show ?thesis using rfc_agrees [OF refl assms] by blast
qed

section \<open>Examples\<close>

theorem exploded_time_back_witness: "apr_time_exp_get (apr_time_exp_gmt 951825599000123) = Some 951825599000123"
  using exploded_time_back [of 951825599000123] by simp

theorem parsed_dates_are_real_witness:
  "apr_date_parse_http (Some ''Tue, 29 Feb 2000 11:59:59 GMT'') = 951825599000000 \<and>
   (\<exists>date p m. skip_weekday ''Tue, 29 Feb 2000 11:59:59 GMT'' = Some date \<and> common_formats date None = Some p \<and> real_date p m)"
proof -
  have "apr_date_parse_http (Some ''Tue, 29 Feb 2000 11:59:59 GMT'') = 951825599000000" by code_simp
  moreover have "951825599000000 \<noteq> APR_DATE_BAD" by (simp add: APR_DATE_BAD_def)
  ultimately show ?thesis using parsed_dates_are_real [of 951825599000000 "''Tue, 29 Feb 2000 11:59:59 GMT''"] by blast
qed

theorem written_date_parses_witness:
  "apr_rfc822_date 951825599000123 = ''Tue, 29 Feb 2000 11:59:59 GMT'' \<and>
   apr_date_parse_http (Some ''Tue, 29 Feb 2000 11:59:59 GMT'') = 951825599000000"
proof -
  have t: "apr_rfc822_date 951825599000123 = ''Tue, 29 Feb 2000 11:59:59 GMT''" by code_simp
  then show ?thesis using written_date_parses [of 951825599000123] by simp
qed

theorem parsers_agree_witness:
  "\<exists>date p. skip_weekday ''Sun, 06 Nov 1994 08:49:37 +0100'' = Some date \<and> common_formats date None = Some p \<and>
    apr_date_parse_rfc (Some ''Sun, 06 Nov 1994 08:49:37 +0100'') = 784111777000000 - zone_offset (dp_gmtstr p) * 1000000"
proof -
  have t: "apr_date_parse_http (Some ''Sun, 06 Nov 1994 08:49:37 +0100'') = 784111777000000" by code_simp
  have "\<not> c_isdigit (cget ''Sun, 06 Nov 1994 08:49:37 +0100'' 0)" by code_simp
  with parsers_agree [of "''Sun, 06 Nov 1994 08:49:37 +0100''"] show ?thesis unfolding t by (simp add: APR_DATE_BAD_def)
qed

text \<open>A day that February does not have is refused, and the second 61 is not.\<close>

lemma no_leap_day_2100: "apr_date_parse_http (Some ''Thu, 29 Feb 2100 00:00:00 GMT'') = APR_DATE_BAD"
  by code_simp

lemma leap_second_accepted: "apr_date_parse_http (Some ''Fri, 31 Dec 1999 23:59:61 GMT'') = apr_date_parse_http (Some ''Sat, 01 Jan 2000 00:00:01 GMT'')"
  by code_simp

end
