(* ===== verification/Apr_Filepath.thy ===== *)
theory Apr_Filepath
  imports Util_Path
begin

text \<open>
  Merging of file paths on Unix, \<open>srclib/apr/file_io/unix/filepath.c\<close> and \<open>filepath_util.c\<close>. The buffer of the
  result is the list of the characters written so far. The working directory, as \<open>getcwd\<close> gives it, and
  \<open>APR_PATH_MAX\<close> are arguments.
\<close>

section \<open>Merging\<close>

datatype path_error = APR_EABOVEROOT | APR_EABSOLUTE | APR_ERELATIVE | APR_ENAMETOOLONG | APR_ERRNO nat

definition APR_FILEPATH_NOTABOVEROOT :: int where "APR_FILEPATH_NOTABOVEROOT = 0x01"
definition APR_FILEPATH_SECUREROOTTEST :: int where "APR_FILEPATH_SECUREROOTTEST = 0x02"
definition APR_FILEPATH_SECUREROOT :: int where "APR_FILEPATH_SECUREROOT = 0x03"
definition APR_FILEPATH_NOTRELATIVE :: int where "APR_FILEPATH_NOTRELATIVE = 0x04"
definition APR_FILEPATH_NOTABSOLUTE :: int where "APR_FILEPATH_NOTABSOLUTE = 0x08"
definition APR_FILEPATH_TRUENAME :: int where "APR_FILEPATH_TRUENAME = 0x20"

definition has_flag :: "int \<Rightarrow> int \<Rightarrow> bool" where
  "has_flag flags f \<longleftrightarrow> and flags f \<noteq> 0"

text \<open>\<open>apr_filepath_root\<close>: the root and what is behind it.\<close>

definition filepath_root :: "cstring \<Rightarrow> path_error + cstring \<times> cstring" where
  "filepath_root inpath =
     (if cget inpath 0 = CHR ''/'' then Inr (''/'', dropWhile (\<lambda>c. c = CHR ''/'') (tl inpath)) else Inl APR_ERELATIVE)"

text \<open>The last segment is cropped; the path is not empty.\<close>

function crop :: "cstring \<Rightarrow> cstring" where
  "crop path = (let p = butlast path in if p = [] \<or> List.last p = CHR ''/'' then p else crop p)"
  by pat_completeness auto

termination crop
proof (relation "measure length", goal_cases)
  case (2 path p)
  then show ?case by (cases path) auto
qed simp

declare crop.simps [simp del]

definition backpathed :: "cstring \<Rightarrow> bool" where
  "backpathed path \<longleftrightarrow> path = [] \<or> length path = 3 \<and> path = ''../'' \<or> length path > 3 \<and> drop (length path - 4) path = ''/../''"

text \<open>The test whether the path is above where it started.\<close>

definition back_up :: "bool \<Rightarrow> cstring \<Rightarrow> nat \<Rightarrow> path_error + cstring \<times> nat" where
  "back_up secure path keptlen =
     (if length path < keptlen then (if secure then Inl APR_EABOVEROOT else Inr (path, length path)) else Inr (path, keptlen))"

definition back_segment :: "bool \<Rightarrow> bool \<Rightarrow> cstring \<Rightarrow> nat \<Rightarrow> path_error + cstring \<times> nat" where
  "back_segment secure slash path keptlen =
     (if length path = 1 \<and> path ! 0 = CHR ''/'' then (if secure then Inl APR_EABOVEROOT else back_up secure path 0)
      else if backpathed path then
        (if secure then Inl APR_EABOVEROOT else back_up secure (path @ (if slash then ''../'' else ''..'')) keptlen)
      else back_up secure (crop path) keptlen)"

definition merge_segment :: "bool \<Rightarrow> bool \<Rightarrow> cstring \<Rightarrow> cstring \<Rightarrow> nat \<Rightarrow> path_error + cstring \<times> nat" where
  "merge_segment secure slash seg path keptlen =
     (if seg = [] \<or> seg = ''.'' then Inr (path, keptlen)
      else if seg = ''..'' then back_segment secure slash path keptlen
      else Inr (path @ seg @ (if slash then ''/'' else []), keptlen))"

function merge_loop :: "bool \<Rightarrow> cstring \<Rightarrow> cstring \<Rightarrow> nat \<Rightarrow> path_error + cstring \<times> nat" where
  "merge_loop secure addpath path keptlen =
     (if addpath = [] then Inr (path, keptlen)
      else (let seg = takeWhile (\<lambda>c. c \<noteq> CHR ''/'') addpath; next = dropWhile (\<lambda>c. c \<noteq> CHR ''/'') addpath
            in case merge_segment secure (next \<noteq> []) seg path keptlen of
                 Inl e \<Rightarrow> Inl e
               | Inr (p, k) \<Rightarrow> merge_loop secure (tl next) p k))"
  by pat_completeness auto

termination merge_loop
proof (relation "measure (\<lambda>(secure, addpath, path, keptlen). length addpath)", goal_cases)
  case (2 secure addpath path keptlen x y z p k)
  then show ?case using length_dropWhile_le [of "\<lambda>c. c \<noteq> CHR ''/''" addpath] by (cases addpath) (auto simp: less_Suc_eq_le)
qed simp

declare merge_loop.simps [simp del]

text \<open>The checks in front of the loop: the root that is used, \<open>None\<close> for the working directory.\<close>

definition merge_root :: "int \<Rightarrow> cstring option \<Rightarrow> cstring \<Rightarrow> path_error + cstring option" where
  "merge_root flags rootpath addpath =
     (if cget addpath 0 = CHR ''/'' then
        (if has_flag flags APR_FILEPATH_SECUREROOTTEST then Inl APR_EABOVEROOT
         else if has_flag flags APR_FILEPATH_NOTABSOLUTE then Inl APR_EABSOLUTE
         else Inr (if rootpath = None \<and> \<not> has_flag flags APR_FILEPATH_NOTABOVEROOT then Some [] else rootpath))
      else if has_flag flags APR_FILEPATH_NOTABSOLUTE then
        (case rootpath of
           None \<Rightarrow> Inr (Some [])
         | Some root \<Rightarrow> if cget root 0 = CHR ''/'' then Inl APR_EABSOLUTE else Inr rootpath)
      else Inr rootpath)"

definition slash_terminated :: "cstring \<Rightarrow> cstring" where
  "slash_terminated root = (if root \<noteq> [] \<and> List.last root \<noteq> CHR ''/'' then root @ ''/'' else root)"

text \<open>The start of the path, the length that is kept of the root, and what is added.\<close>

definition merge_start :: "int \<Rightarrow> cstring \<Rightarrow> cstring \<Rightarrow> path_error + cstring \<times> nat \<times> cstring" where
  "merge_start flags root addpath =
     (if cget addpath 0 = CHR ''/'' then Inr (''/'', 0, dropWhile (\<lambda>c. c = CHR ''/'') addpath)
      else if cget root 0 \<noteq> CHR ''/'' \<and> has_flag flags APR_FILEPATH_NOTRELATIVE then Inl APR_ERELATIVE
      else Inr (slash_terminated root, length (slash_terminated root), addpath))"

definition above_root :: "int \<Rightarrow> cstring \<Rightarrow> cstring \<Rightarrow> nat \<Rightarrow> bool" where
  "above_root flags root path keptlen \<longleftrightarrow>
     has_flag flags APR_FILEPATH_NOTABOVEROOT \<and> keptlen < length root \<and>
     (\<not> strneq root path (length root) \<or>
      root ! (length root - 1) \<noteq> CHR ''/'' \<and> cget path (length root) \<noteq> NUL \<and> cget path (length root) \<noteq> CHR ''/'')"

definition filepath_merge ::
  "nat \<Rightarrow> path_error + cstring \<Rightarrow> cstring option \<Rightarrow> cstring option \<Rightarrow> int \<Rightarrow> path_error + cstring" where
  "filepath_merge path_max cwd rootpath addpath flags =
     (let add = (case addpath of None \<Rightarrow> [] | Some a \<Rightarrow> a) in
      case merge_root flags rootpath add of
        Inl e \<Rightarrow> Inl e
      | Inr r \<Rightarrow>
          (case (case r of Some root \<Rightarrow> Inr root | None \<Rightarrow> cwd) of
             Inl e \<Rightarrow> Inl e
           | Inr root \<Rightarrow>
               if length root + length add + 4 > path_max then Inl APR_ENAMETOOLONG
               else (case merge_start flags root add of
                       Inl e \<Rightarrow> Inl e
                     | Inr (path, keptlen, a) \<Rightarrow>
                         (case merge_loop (has_flag flags APR_FILEPATH_SECUREROOTTEST) a path keptlen of
                            Inl e \<Rightarrow> Inl e
                          | Inr (p, k) \<Rightarrow> if above_root flags root p k then Inl APR_EABOVEROOT else Inr p))))"

section \<open>Lists of paths\<close>

text \<open>\<open>apr_strtok\<close> skips separators, so no part is empty.\<close>

function list_split :: "char \<Rightarrow> cstring \<Rightarrow> cstring list" where
  "list_split separator liststr =
     (let s = dropWhile (\<lambda>c. c = separator) liststr
      in if s = [] then [] else takeWhile (\<lambda>c. c \<noteq> separator) s # list_split separator (tl (dropWhile (\<lambda>c. c \<noteq> separator) s)))"
  by pat_completeness auto

termination list_split
proof (relation "measure (\<lambda>(separator, liststr). length liststr)", goal_cases)
  case (2 separator liststr s)
  have "0 < length s" using 2(2) by simp
  moreover have "length (dropWhile (\<lambda>c. c \<noteq> separator) s) \<le> length s" "length s \<le> length liststr" unfolding 2(1) by (rule length_dropWhile_le)+
  ultimately have "length (dropWhile (\<lambda>c. c \<noteq> separator) s) - 1 < length liststr" by linarith
  then show ?case by simp
qed simp

declare list_split.simps [simp del]

text \<open>Parts that are empty are skipped; the separator stands in front of every other part that is not the first of the array.\<close>

fun merge_parts :: "nat \<Rightarrow> char \<Rightarrow> cstring list \<Rightarrow> cstring" where
  "merge_parts i separator [] = []"
| "merge_parts i separator (part # ps) =
     (if part = [] then [] else (if i > 0 then [separator] else []) @ part) @ merge_parts (i + 1) separator ps"

definition list_merge :: "char \<Rightarrow> cstring list \<Rightarrow> cstring option" where
  "list_merge separator pathelts =
     (if sum_list (map length pathelts) = 0 then None else Some (merge_parts 0 separator pathelts))"

section \<open>Segments\<close>

definition dirs :: "cstring list \<Rightarrow> cstring" where
  "dirs st = concat (map (\<lambda>s. s @ ''/'') st)"

text \<open>A name: no empty segment, not the directory itself, not its parent.\<close>

definition is_name :: "cstring \<Rightarrow> bool" where
  "is_name s \<longleftrightarrow> s \<noteq> [] \<and> s \<noteq> ''.'' \<and> s \<noteq> ''..'' \<and> CHR ''/'' \<notin> set s"

text \<open>The reference: walking down and up from the directory one is in, never above the start.\<close>

fun walk :: "cstring list \<Rightarrow> cstring list \<Rightarrow> cstring list option" where
  "walk st [] = Some st"
| "walk st (s # ss) =
     (if s = [] \<or> s = ''.'' then walk st ss
      else if s = ''..'' then (if st = [] then None else walk (butlast st) ss)
      else walk (st @ [s]) ss)"

lemma dirs_simps [simp]: "dirs [] = []" "dirs (s # st) = s @ CHR ''/'' # dirs st" "dirs (st @ ss) = dirs st @ dirs ss"
  by (simp_all add: dirs_def)

lemma segments_slash: "CHR ''/'' \<notin> set w \<Longrightarrow> path_segs (w @ CHR ''/'' # s) = w # path_segs s"
  by (simp add: path_segs_slash path_segs_single)

lemma segments_no_slash: "s \<in> set (path_segs t) \<Longrightarrow> CHR ''/'' \<notin> set s"
proof (induction t arbitrary: s)
  case (Cons c t)
  obtain w ws where t: "path_segs t = w # ws" using path_segs_ne by (cases "path_segs t") blast+
  then show ?case using Cons by (auto split: if_splits)
qed simp

lemma segments_step:
  assumes "s \<noteq> []"
  defines "w \<equiv> takeWhile (\<lambda>c. c \<noteq> CHR ''/'') s" and "nx \<equiv> dropWhile (\<lambda>c. c \<noteq> CHR ''/'') s"
  shows "path_segs s = (if nx = [] then [w] else w # path_segs (tl nx))" "CHR ''/'' \<notin> set w"
proof -
  show w: "CHR ''/'' \<notin> set w" by (auto simp: w_def dest: set_takeWhileD)
  have s: "s = w @ nx" by (simp add: w_def nx_def)
  show "path_segs s = (if nx = [] then [w] else w # path_segs (tl nx))"
  proof (cases nx)
    case Nil
    then show ?thesis using s w path_segs_single by simp
  next
    case (Cons c t)
    then have "c = CHR ''/''" using hd_dropWhile [of "\<lambda>c. c \<noteq> CHR ''/''" s] by (simp add: nx_def)
    then show ?thesis using s w segments_slash Cons by simp
  qed
qed

section \<open>Cropping\<close>

definition is_base :: "cstring \<Rightarrow> bool" where
  "is_base b \<longleftrightarrow> b = [] \<or> List.last b = CHR ''/''"

lemma slash_terminated_base: "is_base (slash_terminated root)"
  by (simp add: is_base_def slash_terminated_def)

lemma base_dirs: "is_base b \<Longrightarrow> is_base (b @ dirs st)"
  by (induction st rule: rev_induct) (simp_all add: is_base_def)

lemma crop_text: "CHR ''/'' \<notin> set w \<Longrightarrow> is_base b \<Longrightarrow> crop (b @ w @ [c]) = b"
proof (induction w arbitrary: c rule: rev_induct)
  case Nil
  then show ?case by (simp add: crop.simps [of "b @ [c]"] is_base_def)
next
  case (snoc x w)
  then have "crop (b @ w @ [x]) = b" by simp
  have "butlast (b @ (w @ [x]) @ [c]) = b @ w @ [x]" by (simp add: butlast_append)
  then show ?case using snoc.prems \<open>crop (b @ w @ [x]) = b\<close> by (subst crop.simps) (auto simp: Let_def)
qed

lemma crop_dirs: "CHR ''/'' \<notin> set s \<Longrightarrow> is_base b \<Longrightarrow> crop (b @ dirs (st @ [s])) = b @ dirs st"
  using crop_text [of s "b @ dirs st" "CHR ''/''"] base_dirs [of b st] by simp

lemma crop_shorter: "path \<noteq> [] \<Longrightarrow> length (crop path) < length path"
proof (induction path rule: crop.induct)
  case (1 path)
  then have "length (butlast path) < length path" by (cases path) auto
  with 1 show ?case by (subst crop.simps) (auto simp: Let_def)
qed

lemma crop_prefix: "path \<noteq> [] \<Longrightarrow> \<exists>t. path = crop path @ t"
proof (induction path rule: crop.induct)
  case (1 path)
  have e: "path = butlast path @ [List.last path]" using 1(2) by simp
  show ?case
  proof (cases "butlast path = [] \<or> List.last (butlast path) = CHR ''/''")
    case True
    then show ?thesis using e by (subst crop.simps) (auto simp: Let_def)
  next
    case False
    then obtain t where "butlast path = crop (butlast path) @ t" using 1 by auto
    then have "path = crop (butlast path) @ t @ [List.last path]" using e by (metis append_assoc)
    then show ?thesis using False by (subst crop.simps) (simp add: Let_def, blast)
  qed
qed

lemma crop_base: "path \<noteq> [] \<Longrightarrow> is_base (crop path)"
proof (induction path rule: crop.induct)
  case (1 path)
  then show ?case by (subst crop.simps) (auto simp: Let_def is_base_def)
qed

text \<open>Behind a name nothing looks like a way back.\<close>

lemma name_not_back:
  assumes "is_base b" "is_name s"
  shows "\<not> backpathed (b @ s @ ''/'')" "b @ s @ ''/'' \<noteq> ''/''"
proof -
  show "b @ s @ ''/'' \<noteq> ''/''" using assms(2) by (auto simp: is_name_def append_eq_Cons_conv)
  have a: False if "t @ ''/../'' = b @ s @ ''/''" for t
  proof -
    from that have e: "b @ s = t @ ''/..''" by simp
    have n: "s \<noteq> ''..''" "s \<noteq> ''.''" "s \<noteq> []" "CHR ''/'' \<notin> set s" using assms(2) by (auto simp: is_name_def)
    obtain s1 where s1: "s = s1 @ ''.''" "b @ s1 = t @ ''/.''" using e n(3) by (cases s rule: rev_cases) auto
    obtain s2 where s2: "s1 = s2 @ ''.''" "b @ s2 = t @ ''/''" using s1 n(2) by (cases s1 rule: rev_cases) auto
    show False using s1 s2 n by (cases s2 rule: rev_cases) auto
  qed
  have "b @ s @ ''/'' \<noteq> ''../''"
  proof
    assume "b @ s @ ''/'' = ''../''"
    then have e: "b @ s = ''..''" by simp
    then have "b = [] \<or> b = ''.'' \<or> b = ''..''" by (auto simp: append_eq_Cons_conv)
    then show False using e assms by (auto simp: is_base_def is_name_def)
  qed
  moreover have "drop (length (b @ s @ ''/'') - 4) (b @ s @ ''/'') \<noteq> ''/../''"
    using a [of "take (length (b @ s @ ''/'') - 4) (b @ s @ ''/'')"] by (metis append_take_drop_id)
  ultimately show "\<not> backpathed (b @ s @ ''/'')" unfolding backpathed_def by simp
qed

section \<open>The secure merge\<close>

lemma one_char: "length p = 1 \<and> p ! 0 = c \<Longrightarrow> p = [c]"
  by (cases p) auto

lemma merge_walk_segment:
  assumes "is_base b" "list_all is_name st" "CHR ''/'' \<notin> set w"
  shows "merge_segment True slash w (b @ dirs st) (length b) =
    (if w = [] \<or> w = ''.'' then Inr (b @ dirs st, length b)
     else if w = ''..'' then (if st = [] then Inl APR_EABOVEROOT else Inr (b @ dirs (butlast st), length b))
     else Inr (b @ dirs st @ w @ (if slash then ''/'' else []), length b))"
proof (cases "w = ''..''")
  case True
  show ?thesis
  proof (cases st rule: rev_cases)
    case Nil
    have "length (crop b) < length b" if "b \<noteq> []" using that by (rule crop_shorter)
    then show ?thesis using True Nil by (auto simp: merge_segment_def back_segment_def back_up_def backpathed_def)
  next
    case (snoc st1 s)
    have n: "is_name s" "CHR ''/'' \<notin> set s" using assms(2) snoc by (auto simp: is_name_def)
    have b1: "is_base (b @ dirs st1)" using assms(1) by (rule base_dirs)
    have "\<not> backpathed (b @ dirs st)" "b @ dirs st \<noteq> ''/''" using name_not_back [OF b1 n(1)] snoc by simp_all
    moreover from this(2) have "\<not> (length (b @ dirs st) = 1 \<and> (b @ dirs st) ! 0 = CHR ''/'')" using one_char [of "b @ dirs st" "CHR ''/''"] by metis
    moreover have "crop (b @ dirs st) = b @ dirs st1" using crop_dirs [OF n(2) assms(1)] snoc by simp
    ultimately show ?thesis using True snoc by (simp add: merge_segment_def back_segment_def back_up_def)
  qed
qed (simp add: merge_segment_def)

text \<open>The path behind the base: the directories walked to, and the last name without a slash.\<close>

definition walked :: "cstring list \<Rightarrow> cstring list \<Rightarrow> cstring" where
  "walked segs st = (if is_name (List.last segs) then butlast (dirs st) else dirs st)"

lemma walk_names: "list_all is_name st \<Longrightarrow> \<forall>s\<in>set ss. CHR ''/'' \<notin> set s \<Longrightarrow> walk st ss = Some st1 \<Longrightarrow> list_all is_name st1"
proof (induction st ss rule: walk.induct)
  case (2 st s ss)
  have b: "list_all is_name (butlast st)" using 2(4) by (auto simp: list_all_iff dest: in_set_butlastD)
  have "s \<noteq> [] \<Longrightarrow> s \<noteq> ''.'' \<Longrightarrow> s \<noteq> ''..'' \<Longrightarrow> is_name s" using 2(5) by (simp add: is_name_def)
  then show ?case using 2 b by (auto split: if_splits)
qed simp

lemma merge_loop_walk:
  assumes "is_base b" "list_all is_name st" "s \<noteq> []"
  shows "merge_loop True s (b @ dirs st) (length b) =
    (case walk st (path_segs s) of None \<Rightarrow> Inl APR_EABOVEROOT | Some st1 \<Rightarrow> Inr (b @ walked (path_segs s) st1, length b))"
  using assms(2,3)
proof (induction "length s" arbitrary: s st rule: less_induct)
  case less
  define w nx where "w = takeWhile (\<lambda>c. c \<noteq> CHR ''/'') s" and "nx = dropWhile (\<lambda>c. c \<noteq> CHR ''/'') s"
  note step = segments_step [OF less.prems(2), folded w_def nx_def]
  have m: "merge_loop True s (b @ dirs st) (length b) =
    (case merge_segment True (nx \<noteq> []) w (b @ dirs st) (length b) of Inl e \<Rightarrow> Inl e | Inr (p, k) \<Rightarrow> merge_loop True (tl nx) p k)"
    using less.prems(2) unfolding w_def nx_def by (subst merge_loop.simps) (simp add: Let_def)
  note seg = merge_walk_segment [OF assms(1) less.prems(1) step(2), of "nx \<noteq> []"]
  have bl: "list_all is_name (butlast st)" using less.prems(1) by (auto simp: list_all_iff dest: in_set_butlastD)
  have done': "merge_loop True [] p k = Inr (p, k)" for p k by (simp add: merge_loop.simps)
  show ?case
  proof (cases "tl nx = []")
    case True
    have e: "path_segs s = (if nx = [] then [w] else [w, []])" using step(1) True by simp
    show ?thesis unfolding m seg using True step(2) by (auto simp: e done' walked_def is_name_def butlast_append)
  next
    case False
    then have nx: "nx \<noteq> []" by auto
    have e: "path_segs s = w # path_segs (tl nx)" using step(1) nx by simp
    have l: "length (tl nx) < length s"
      using less.prems(2) length_dropWhile_le [of "\<lambda>c. c \<noteq> CHR ''/''" s] by (cases s) (auto simp: nx_def less_Suc_eq_le)
    have wk: "walked (w # path_segs (tl nx)) = walked (path_segs (tl nx))" by (rule ext) (simp add: walked_def)
    have n: "list_all is_name (st @ [w])" if "w \<noteq> []" "w \<noteq> ''.''" "w \<noteq> ''..''" using that less.prems(1) step(2) by (simp add: is_name_def)
    note ih = less.hyps [OF l _ False]
    consider "w = [] \<or> w = ''.''" | "w = ''..''" | "w \<noteq> []" "w \<noteq> ''.''" "w \<noteq> ''..''" by blast
    then show ?thesis
    proof cases
      case 1
      then show ?thesis unfolding m seg e wk using ih [OF less.prems(1)] by auto
    next
      case 2
      then show ?thesis unfolding m seg e wk using ih [OF bl] by simp
    next
      case 3
      then show ?thesis unfolding m seg e wk using ih [OF n [OF 3]] nx by simp
    qed
  qed
qed

text \<open>With \<open>APR_FILEPATH_SECUREROOT\<close> a relative path leads from the root down, or is refused: the merge is the walk from the root, and a
  walk above the root is the error.\<close>

lemma merge_secure:
  assumes "has_flag flags APR_FILEPATH_SECUREROOTTEST" "\<not> has_flag flags APR_FILEPATH_NOTABSOLUTE" "\<not> has_flag flags APR_FILEPATH_NOTRELATIVE"
    "cget add 0 \<noteq> CHR ''/''" "length root + length add + 4 \<le> path_max"
  shows "filepath_merge path_max cwd (Some root) (Some add) flags =
    (case walk [] (path_segs add) of
       None \<Rightarrow> Inl APR_EABOVEROOT
     | Some st \<Rightarrow> Inr (slash_terminated root @ (if add = [] then [] else walked (path_segs add) st)))"
proof -
  let ?b = "slash_terminated root"
  have k: "\<not> length ?b < length root" by (simp add: slash_terminated_def)
  have s: "merge_start flags root add = Inr (?b, length ?b, add)" using assms by (simp add: merge_start_def)
  have r: "merge_root flags (Some root) add = Inr (Some root)" using assms by (simp add: merge_root_def)
  have l: "\<not> length root + length add + 4 > path_max" using assms(5) by simp
  show ?thesis
  proof (cases "add = []")
    case True
    then show ?thesis using s r l k by (simp add: filepath_merge_def Let_def merge_loop.simps [of True "[]"] merge_loop.simps [of _ "[]"] above_root_def)
  next
    case False
    have "merge_loop True add ?b (length ?b) =
      (case walk [] (path_segs add) of None \<Rightarrow> Inl APR_EABOVEROOT | Some st1 \<Rightarrow> Inr (?b @ walked (path_segs add) st1, length ?b))"
      using merge_loop_walk [OF slash_terminated_base, of "[]" add root] False by simp
    then show ?thesis using False s r l k assms(1)
      by (simp add: filepath_merge_def Let_def above_root_def split: option.split)
  qed
qed

text \<open>What the walk leaves behind the base.\<close>

lemma walked_names:
  assumes "list_all is_name st" "st \<noteq> [] \<or> \<not> is_name (List.last segs)"
  shows "\<exists>names lst. walked segs st = dirs names @ lst \<and> list_all is_name names \<and> (lst = [] \<or> is_name lst)"
proof (cases "is_name (List.last segs)")
  case True
  then obtain st1 s where "st = st1 @ [s]" using assms(2) by (cases st rule: rev_cases) auto
  then have "walked segs st = dirs st1 @ s" "list_all is_name st1" "is_name s" using True assms(1) by (simp_all add: walked_def butlast_append)
  then show ?thesis by blast
next
  case False
  then show ?thesis using assms(1) by (intro exI [of _ st] exI [of _ "[]"]) (simp add: walked_def)
qed

lemma walk_last: "walk st ss = Some st1 \<Longrightarrow> ss \<noteq> [] \<Longrightarrow> is_name (List.last ss) \<Longrightarrow> st1 \<noteq> []"
proof (induction st ss rule: walk.induct)
  case (2 st s ss)
  show ?case
  proof (cases "ss = []")
    case True
    then show ?thesis using 2(4,6) by (auto simp: is_name_def)
  next
    case False
    then show ?thesis using 2 by (auto split: if_splits)
  qed
qed simp

lemma loop_below_base:
  assumes "is_base b" "merge_loop True s b (length b) = Inr (p, k)"
  shows "\<exists>names lst. p = b @ dirs names @ lst \<and> list_all is_name names \<and> (lst = [] \<or> is_name lst) \<and> k = length b"
proof (cases "s = []")
  case True
  then show ?thesis using assms(2) by (intro exI [of _ "[]"]) (auto simp: merge_loop.simps)
next
  case False
  then obtain st where st: "walk [] (path_segs s) = Some st" "p = b @ walked (path_segs s) st" "k = length b"
    using merge_loop_walk [OF assms(1), of "[]" s] assms(2) by (auto split: option.splits)
  have "list_all is_name st" using walk_names [OF _ _ st(1)] segments_no_slash [of _ s] by simp
  then show ?thesis using walked_names [of st "path_segs s"] walk_last [OF st(1)] st by auto
qed

lemma merge_below_root:
  assumes "has_flag flags APR_FILEPATH_SECUREROOTTEST" "filepath_merge path_max cwd (Some root) add flags = Inr path"
  shows "\<exists>names lst. path = slash_terminated root @ dirs names @ lst \<and> list_all is_name names \<and> (lst = [] \<or> is_name lst)"
proof -
  define a where "a = (case add of None \<Rightarrow> [] | Some a \<Rightarrow> a)"
  have c: "cget a 0 \<noteq> CHR ''/''" using assms by (auto simp: filepath_merge_def Let_def merge_root_def a_def [symmetric])
  have "merge_root flags (Some root) a = Inr (Some root)"
    using assms(2) c by (auto simp: filepath_merge_def Let_def merge_root_def a_def [symmetric] split: if_splits)
  then obtain k where "merge_loop True a (slash_terminated root) (length (slash_terminated root)) = Inr (path, k)"
    using assms c by (auto simp: filepath_merge_def Let_def merge_start_def a_def [symmetric] split: if_splits sum.splits)
  then show ?thesis using loop_below_base [OF slash_terminated_base] by blast
qed

text \<open>With \<open>APR_FILEPATH_SECUREROOT\<close> no path leads out of the root: what is merged is the root followed by names, none of them
  empty, the directory itself or its parent, whatever the path was.\<close>

theorem secure_merge_below_root:
  assumes "has_flag flags APR_FILEPATH_SECUREROOTTEST" "filepath_merge path_max cwd (Some root) add flags = Inr path"
  shows "\<exists>names lst. path = slash_terminated root @ dirs names @ lst \<and> list_all is_name names \<and> (lst = [] \<or> is_name lst)"
  using assms by (rule merge_below_root)

text \<open>The merge with \<open>APR_FILEPATH_SECUREROOT\<close> is the walk along the segments of the path: \<open>.\<close> and empty segments stay, \<open>..\<close> goes up,
  a name goes down; a walk above the root is the error \<open>APR_EABOVEROOT\<close> even when it comes back.\<close>

theorem secure_merge_walks:
  assumes "cget add 0 \<noteq> CHR ''/''" "length root + length add + 4 \<le> path_max"
  shows "filepath_merge path_max cwd (Some root) (Some add) (or APR_FILEPATH_TRUENAME APR_FILEPATH_SECUREROOT) =
    (case walk [] (path_segs add) of
       None \<Rightarrow> Inl APR_EABOVEROOT
     | Some st \<Rightarrow> Inr (slash_terminated root @ (if add = [] then [] else walked (path_segs add) st)))"
proof -
  let ?f = "or APR_FILEPATH_TRUENAME APR_FILEPATH_SECUREROOT"
  have "has_flag ?f APR_FILEPATH_SECUREROOTTEST" "\<not> has_flag ?f APR_FILEPATH_NOTABSOLUTE" "\<not> has_flag ?f APR_FILEPATH_NOTRELATIVE" by code_simp+
  then show ?thesis using assms by (rule merge_secure)
qed

section \<open>Not above the root\<close>

text \<open>What the loop keeps of the start: \<open>keptlen\<close> characters of it, up to a slash.\<close>

definition kept_ok :: "cstring \<Rightarrow> cstring \<Rightarrow> nat \<Rightarrow> bool" where
  "kept_ok b p k \<longleftrightarrow> k \<le> length b \<and> k \<le> length p \<and> take k p = take k b \<and> is_base (take k b)"

lemma kept_append: "kept_ok b p k \<Longrightarrow> kept_ok b (p @ t) k"
  by (simp add: kept_ok_def)

lemma kept_crop: "kept_ok b p k \<Longrightarrow> p \<noteq> [] \<Longrightarrow> kept_ok b (crop p) (min k (length (crop p)))"
proof -
  assume k: "kept_ok b p k" and "p \<noteq> []"
  then obtain t where t: "p = crop p @ t" using crop_prefix by blast
  let ?n = "min k (length (crop p))"
  have "take (length (crop p)) (take k p) = take (length (crop p)) (take k b)" using k by (simp only: kept_ok_def)
  then have "take ?n p = take ?n b" by (simp only: take_take min.commute)
  moreover have "take ?n p = take ?n (crop p)" by (subst t) simp
  moreover have "is_base (take ?n b)"
  proof (cases "k \<le> length (crop p)")
    case True
    then show ?thesis using k by (simp add: kept_ok_def min_def)
  next
    case False
    then have "take ?n b = crop p" using calculation by (simp add: min_def)
    then show ?thesis using crop_base [OF \<open>p \<noteq> []\<close>] by simp
  qed
  ultimately show ?thesis using k by (simp add: kept_ok_def min.coboundedI1)
qed

lemma back_up_kept: "back_up secure p k = Inr (p1, k1) \<Longrightarrow> p1 = p \<and> k1 = min k (length p)"
  by (auto simp: back_up_def split: if_splits)

lemma kept_segment:
  assumes "merge_segment secure slash seg p k = Inr (p1, k1)" "kept_ok b p k"
  shows "kept_ok b p1 k1"
proof -
  have bk: "kept_ok b p1 k1" if "back_segment secure slash p k = Inr (p1, k1)"
  proof (cases "length p = 1 \<and> p ! 0 = CHR ''/''")
    case True
    then have "p1 = p \<and> k1 = 0" using that back_up_kept [of secure p 0 p1 k1] by (auto simp: back_segment_def split: if_splits)
    then show ?thesis by (simp add: kept_ok_def is_base_def)
  next
    case False
    show ?thesis
    proof (cases "backpathed p")
      case True
      let ?t = "if slash then ''../'' else ''..''"
      have "back_up secure (p @ ?t) k = Inr (p1, k1)" using that unfolding back_segment_def if_not_P [OF False] if_P [OF True] by (cases secure) simp_all
      from back_up_kept [OF this] have "p1 = p @ ?t \<and> k1 = k" using assms(2) by (simp add: kept_ok_def min_def)
      then show ?thesis using kept_append [OF assms(2)] by simp
    next
      case nb: False
      then have "p \<noteq> []" by (auto simp: backpathed_def)
      moreover have "p1 = crop p \<and> k1 = min k (length (crop p))"
        using that False nb by (intro back_up_kept [of secure]) (auto simp: back_segment_def split: if_splits)
      ultimately show ?thesis using kept_crop [OF assms(2)] by simp
    qed
  qed
  show ?thesis using assms bk kept_append [OF assms(2)] by (auto simp: merge_segment_def split: if_splits)
qed

lemma kept_loop: "merge_loop secure s p k = Inr (p1, k1) \<Longrightarrow> kept_ok b p k \<Longrightarrow> kept_ok b p1 k1"
proof (induction "length s" arbitrary: s p k rule: less_induct)
  case less
  show ?case
  proof (cases "s = []")
    case True
    then show ?thesis using less.prems by (simp add: merge_loop.simps)
  next
    case False
    let ?w = "takeWhile (\<lambda>c. c \<noteq> CHR ''/'') s" and ?nx = "dropWhile (\<lambda>c. c \<noteq> CHR ''/'') s"
    have l: "length (tl ?nx) < length s"
      using False length_dropWhile_le [of "\<lambda>c. c \<noteq> CHR ''/''" s] by (cases s) (auto simp: less_Suc_eq_le)
    obtain p0 k0 where m: "merge_segment secure (?nx \<noteq> []) ?w p k = Inr (p0, k0)" "merge_loop secure (tl ?nx) p0 k0 = Inr (p1, k1)"
      using less.prems(1) False by (subst (asm) merge_loop.simps) (auto simp: Let_def split: sum.splits)
    show ?thesis using less.hyps [OF l m(2) kept_segment [OF m(1) less.prems(2)]] .
  qed
qed

lemma kept_whole:
  assumes "kept_ok (slash_terminated root) p k" "length root \<le> k" "root \<noteq> []"
  shows "take (length root) p = root \<and> (List.last root = CHR ''/'' \<or> cget p (length root) = CHR ''/'')"
proof -
  let ?b = "slash_terminated root"
  have "take (length root) (take k p) = take (length root) (take k ?b)" using assms(1) by (simp only: kept_ok_def)
  then have "take (length root) p = take (length root) ?b" using assms(2) by (simp only: take_take min.absorb1)
  also have "\<dots> = root" by (simp add: slash_terminated_def)
  finally have t: "take (length root) p = root" .
  show ?thesis
  proof (cases "List.last root = CHR ''/''")
    case False
    have "k \<noteq> length root"
    proof
      assume "k = length root"
      then have "take k ?b = root" by (simp add: slash_terminated_def)
      then show False using assms(1,3) False by (simp add: kept_ok_def is_base_def)
    qed
    then have k: "length root < k" using assms(2) by simp
    have "take k p ! length root = take k ?b ! length root" using assms(1) by (simp only: kept_ok_def)
    then have "p ! length root = ?b ! length root" "length root < length p" using k assms(1) by (simp_all add: kept_ok_def)
    then show ?thesis using t False assms(3) by (simp add: cget_def slash_terminated_def)
  qed (use t in simp)
qed

text \<open>With \<open>APR_FILEPATH_NOTABOVEROOT\<close> and an absolute root, whatever else is asked for, the merged path is the root or goes on behind it at
  a slash, though the path may have left it in between.\<close>

theorem merge_not_above_root:
  assumes "has_flag flags APR_FILEPATH_NOTABOVEROOT" "cget root 0 = CHR ''/''" "filepath_merge path_max cwd (Some root) add flags = Inr path"
  shows "take (length root) path = root \<and>
    (List.last root = CHR ''/'' \<or> cget path (length root) = NUL \<or> cget path (length root) = CHR ''/'')"
proof -
  define a where "a = (case add of None \<Rightarrow> [] | Some a \<Rightarrow> a)"
  have r: "root \<noteq> []" using assms(2) by auto
  have "merge_root flags (Some root) a = Inr (Some root)"
    using assms(1,3) by (auto simp: filepath_merge_def Let_def merge_root_def a_def [symmetric] split: if_splits)
  then obtain p0 k0 s k where s: "merge_start flags root a = Inr (p0, k0, s)"
    and l: "merge_loop (has_flag flags APR_FILEPATH_SECUREROOTTEST) s p0 k0 = Inr (path, k)" and ok: "\<not> above_root flags root path k"
    using assms(3) by (auto simp: filepath_merge_def Let_def a_def [symmetric] split: if_splits sum.splits)
  have "kept_ok (slash_terminated root) p0 k0"
    using s slash_terminated_base [of root] by (auto simp: merge_start_def kept_ok_def is_base_def split: if_splits)
  with l have k: "kept_ok (slash_terminated root) path k" by (rule kept_loop)
  show ?thesis
  proof (cases "length root \<le> k")
    case True
    then show ?thesis using kept_whole [OF k _ r] by blast
  next
    case False
    then have "strneq root path (length root)" "root ! (length root - 1) = CHR ''/'' \<or> cget path (length root) = NUL \<or> cget path (length root) = CHR ''/''"
      using ok assms(1) by (auto simp: above_root_def)
    then show ?thesis using r by (simp add: strneq_take last_conv_nth)
  qed
qed

text \<open>The result fits into the buffer.\<close>

lemma crop_length: "length (crop p) \<le> length p"
  using crop_shorter [of p] by (cases "p = []") (simp_all add: crop.simps [of "[]"])

lemma back_fits: "back_segment secure slash p k = Inr (p1, k1) \<Longrightarrow> length p1 \<le> length p + (if slash then 3 else 2)"
  using crop_length [of p] by (auto simp: back_segment_def dest!: back_up_kept split: if_splits)

lemma segment_fits:
  assumes "merge_segment secure slash seg p k = Inr (p1, k1)"
  shows "length p1 \<le> length p + length seg + (if slash then 1 else 0)"
proof (cases "seg = ''..''")
  case True
  then have "back_segment secure slash p k = Inr (p1, k1)" using assms by (simp add: merge_segment_def)
  from back_fits [OF this] show ?thesis using True by (auto split: if_splits)
next
  case False
  then show ?thesis using assms by (auto simp: merge_segment_def split: if_splits)
qed

lemma loop_fits: "merge_loop secure s p k = Inr (p1, k1) \<Longrightarrow> length p1 \<le> length p + length s"
proof (induction "length s" arbitrary: s p k rule: less_induct)
  case less
  show ?case
  proof (cases "s = []")
    case True
    then show ?thesis using less.prems by (simp add: merge_loop.simps)
  next
    case False
    let ?w = "takeWhile (\<lambda>c. c \<noteq> CHR ''/'') s" and ?nx = "dropWhile (\<lambda>c. c \<noteq> CHR ''/'') s"
    have l: "length (tl ?nx) < length s"
      using False length_dropWhile_le [of "\<lambda>c. c \<noteq> CHR ''/''" s] by (cases s) (auto simp: less_Suc_eq_le)
    obtain p0 k0 where m: "merge_segment secure (?nx \<noteq> []) ?w p k = Inr (p0, k0)" "merge_loop secure (tl ?nx) p0 k0 = Inr (p1, k1)"
      using less.prems(1) False by (subst (asm) merge_loop.simps) (auto simp: Let_def split: sum.splits)
    note p0 = segment_fits [OF m(1)]
    have "length s = length ?w + length ?nx" using length_append [of ?w ?nx] by (simp only: takeWhile_dropWhile_id)
    then show ?thesis using p0 less.hyps [OF l m(2)] by (cases ?nx) auto
  qed
qed

text \<open>The merged path with its terminator fits into the buffer that is allocated, \<open>rootlen + strlen(addpath) + 4\<close> bytes.\<close>

theorem merge_fits_buffer:
  assumes "filepath_merge path_max cwd (Some root) (Some add) flags = Inr path"
  shows "length path + 1 \<le> length root + length add + 4 \<and> length path < path_max"
proof -
  have r: "merge_root flags (Some root) add = Inr (Some root)"
    using assms by (auto simp: filepath_merge_def Let_def merge_root_def split: if_splits)
  obtain p0 k0 s k where s: "merge_start flags root add = Inr (p0, k0, s)" and m: "length root + length add + 4 \<le> path_max"
    and l: "merge_loop (has_flag flags APR_FILEPATH_SECUREROOTTEST) s p0 k0 = Inr (path, k)"
    using assms r by (auto simp: filepath_merge_def Let_def split: if_splits sum.splits)
  have "length p0 + length s \<le> length root + length add + 1"
    using s trans_le_add2 [OF length_dropWhile_le [of "\<lambda>c. c = CHR ''/''" add], of "length root"]
    by (auto simp: merge_start_def slash_terminated_def split: if_splits)
  then show ?thesis using loop_fits [OF l] m by simp
qed

text \<open>\<open>APR_FILEPATH_NOTABOVEROOT\<close> alone does not notice that the path goes above a root that is itself a way back.\<close>

lemma not_above_relative_root:
  "filepath_merge 96 cwd (Some ''..'') (Some ''../secret'') APR_FILEPATH_NOTABOVEROOT = Inr ''../../secret''"
  by code_simp

section \<open>Lists round trip\<close>

lemma list_split_sep [simp]: "list_split c (c # s) = list_split c s"
  by (simp add: list_split.simps [of c "c # s"] list_split.simps [of c s])

lemma list_split_part:
  assumes "c \<notin> set w" "w \<noteq> []" "rest = [] \<or> hd rest = c"
  shows "list_split c (w @ rest) = w # list_split c rest"
proof -
  have d: "dropWhile (\<lambda>x. x = c) (w @ rest) = w @ rest" using assms(1,2) by (cases w) auto
  have t: "takeWhile (\<lambda>x. x \<noteq> c) (w @ rest) = w" "dropWhile (\<lambda>x. x \<noteq> c) (w @ rest) = rest"
    using assms(1,3) by (induction w) (cases rest; auto)+
  have "list_split c (w @ rest) = w # list_split c (tl rest)"
    using assms(2) by (subst list_split.simps) (simp add: d t Let_def)
  moreover have "list_split c (tl rest) = list_split c rest" using assms(3) by (cases rest) simp_all
  ultimately show ?thesis by simp
qed

lemma list_split_merge:
  "\<forall>w\<in>set ps. w \<noteq> [] \<and> c \<notin> set w \<Longrightarrow> list_split c (merge_parts i c ps) = ps \<and> (i > 0 \<longrightarrow> merge_parts i c ps = [] \<or> hd (merge_parts i c ps) = c)"
proof (induction i c ps rule: merge_parts.induct)
  case (1 i c)
  then show ?case by (simp add: list_split.simps [of c "[]"])
next
  case (2 i c w ps)
  have "list_split c (w @ merge_parts (i + 1) c ps) = w # list_split c (merge_parts (i + 1) c ps)" using 2 by (intro list_split_part) auto
  then show ?case using 2 by auto
qed

text \<open>A list of paths merged by a separator that none of them holds, none of them empty, is split into the same paths.\<close>

theorem path_list_roundtrip:
  assumes "\<forall>w\<in>set ps. w \<noteq> [] \<and> c \<notin> set w" "ps \<noteq> []"
  shows "map_option (list_split c) (list_merge c ps) = Some ps"
proof -
  have "sum_list (map length ps) \<noteq> 0" using assms by (cases ps) auto
  then show ?thesis using list_split_merge [OF assms(1), of 0] by (simp add: list_merge_def)
qed

text \<open>An empty first part leaves its separator.\<close>

lemma list_merge_empty_part: "list_merge (CHR '':'') ['''', ''bin''] = Some '':bin''"
  by code_simp

section \<open>Examples\<close>

theorem secure_merge_below_root_witness:
  "\<exists>names lst. ''/srv/b/c'' = slash_terminated ''/srv'' @ dirs names @ lst \<and> list_all is_name names \<and> (lst = [] \<or> is_name lst)"
proof -
  have "has_flag APR_FILEPATH_SECUREROOT APR_FILEPATH_SECUREROOTTEST" by code_simp
  moreover have "filepath_merge 96 (Inl APR_EABOVEROOT) (Some ''/srv'') (Some ''a/.././b//c'') APR_FILEPATH_SECUREROOT = Inr ''/srv/b/c''" by code_simp
  ultimately show ?thesis by (rule secure_merge_below_root)
qed

theorem secure_merge_walks_witness:
  "filepath_merge 96 cwd (Some ''/srv'') (Some ''a/../../srv/x'') (or APR_FILEPATH_TRUENAME APR_FILEPATH_SECUREROOT) = Inl APR_EABOVEROOT"
proof -
  have "walk [] (path_segs ''a/../../srv/x'') = None" by code_simp
  then show ?thesis using secure_merge_walks [of "''a/../../srv/x''" "''/srv''" 96 cwd] by simp
qed

theorem merge_not_above_root_witness: "take 4 ''/srv/x'' = ''/srv''"
proof -
  have "has_flag APR_FILEPATH_NOTABOVEROOT APR_FILEPATH_NOTABOVEROOT" "cget ''/srv'' 0 = CHR ''/''" by code_simp+
  moreover have "filepath_merge 96 (Inl APR_EABOVEROOT) (Some ''/srv'') (Some ''../srv/x'') APR_FILEPATH_NOTABOVEROOT = Inr ''/srv/x''" by code_simp
  ultimately have "take (length ''/srv'') ''/srv/x'' = ''/srv''" using merge_not_above_root by blast
  then show ?thesis by simp
qed

theorem merge_fits_buffer_witness: "length ''/srv/x'' + 1 \<le> length ''/srv'' + length ''./x'' + 4"
proof -
  have "filepath_merge 96 (Inl APR_EABOVEROOT) (Some ''/srv'') (Some ''./x'') 0 = Inr ''/srv/x''" by code_simp
  from merge_fits_buffer [OF this] show ?thesis by blast
qed

theorem path_list_roundtrip_witness: "map_option (list_split (CHR '':'')) (list_merge (CHR '':'') [''/bin'', ''/usr/bin'']) = Some [''/bin'', ''/usr/bin'']"
  by (rule path_list_roundtrip) simp_all

end
