(* ===== verification/Process_Request.thy ===== *)
theory Process_Request
  imports Apr_Filepath Util_Escape Auth_Basic Authz_Host
begin

text \<open>
  The processing of a request up to its handler: \<open>ap_process_request_internal\<close> of \<open>server/request.c\<close> with the hooks it
  runs, the directives of \<open>server/core.c\<close> it obeys, and \<open>ap_core_translate\<close>. A configuration of a directory is a pointer,
  a number, and an argument gives what it points to. The walks over the sections of the configuration and the hooks of the
  modules are arguments too; Basic authentication and access by host are put in as the hooks they are. The log is left out.
\<close>

section \<open>Hooks\<close>

text \<open>\<open>AP_IMPLEMENT_HOOK_RUN_FIRST\<close> and \<open>AP_IMPLEMENT_HOOK_RUN_ALL\<close>.\<close>

fun run_first :: "('r \<Rightarrow> int \<times> 'r) list \<Rightarrow> 'r \<Rightarrow> int \<times> 'r" where
  "run_first [] r = (DECLINED, r)"
| "run_first (h # hs) r = (case h r of (rv, r1) \<Rightarrow> if rv \<noteq> DECLINED then (rv, r1) else run_first hs r1)"

fun run_all :: "('r \<Rightarrow> int \<times> 'r) list \<Rightarrow> 'r \<Rightarrow> int \<times> 'r" where
  "run_all [] r = (0, r)"
| "run_all (h # hs) r = (case h r of (rv, r1) \<Rightarrow> if rv \<noteq> 0 \<and> rv \<noteq> DECLINED then (rv, r1) else run_all hs r1)"

section \<open>State\<close>

datatype satisfy = SATISFY_ALL | SATISFY_ANY | SATISFY_NOSPEC

record require_line =
  rl_method_mask :: u64
  rl_requirement :: cstring

text \<open>The configuration of a directory: of the core, of \<open>mod_authz_host\<close> and of \<open>mod_auth_basic\<close>.\<close>

record dir_config =
  dc_allow_encoded_slashes :: bool
  dc_decode_encoded_slashes :: bool
  dc_satisfy :: "satisfy list"
  dc_auth_type :: "cstring option"
  dc_auth_name :: "cstring option"
  dc_requires :: "require_line list option"
  dc_authz_host :: authz_host_dir_conf
  dc_auth_basic :: auth_basic_config

text \<open>What is used of the request a subrequest or an internal redirect comes from.\<close>

record parent =
  pa_per_dir_config :: nat
  pa_user :: "cstring option"
  pa_auth_type :: "cstring option"

text \<open>The request; \<open>pr_uri_is_path\<close> tells whether \<open>uri\<close> and \<open>parsed_uri.path\<close> are the same string, as \<open>ap_parse_uri\<close> makes them.\<close>

record preq =
  pr_req :: areq
  pr_client :: client
  pr_uri_is_path :: bool
  pr_main :: "parent option"
  pr_prev :: "parent option"
  pr_filename :: "cstring option"
  pr_canonical_filename :: "cstring option"
  pr_per_dir_config :: nat
  pr_lookup_defaults :: nat

type_synonym hook = "preq \<Rightarrow> int \<times> preq"

record hooks =
  location_walk :: hook
  hook_translate_name :: "hook list"
  hook_map_to_storage :: "hook list"
  hook_header_parser :: "hook list"
  hook_access_checker :: "hook list"
  hook_check_user_id :: "hook list"
  hook_auth_checker :: "hook list"
  hook_type_checker :: "hook list"
  hook_fixups :: "hook list"

section \<open>Directives\<close>

definition method_index :: "preq \<Rightarrow> nat" where
  "method_index r = nat (q_method_number (pr_req r))"

definition ap_satisfies :: "dir_config \<Rightarrow> preq \<Rightarrow> satisfy" where
  "ap_satisfies d r = dc_satisfy d ! method_index r"

definition ap_some_auth_required :: "dir_config \<Rightarrow> preq \<Rightarrow> bool" where
  "ap_some_auth_required d r =
     (case dc_requires d of None \<Rightarrow> False | Some reqs \<Rightarrow> list_ex (\<lambda>l. bit (rl_method_mask l) (method_index r)) reqs)"

definition satisfy_cmd :: "u64 \<Rightarrow> cstring \<Rightarrow> dir_config \<Rightarrow> cstring + dir_config" where
  "satisfy_cmd cmd_limited arg d =
     (let set_all = (\<lambda>s. Inr (d\<lparr>dc_satisfy := map (\<lambda>i. if bit cmd_limited i then s else dc_satisfy d ! i) [0..<METHODS]\<rparr>))
      in if strcaseeq arg ''all'' then set_all SATISFY_ALL
         else if strcaseeq arg ''any'' then set_all SATISFY_ANY
         else Inl (''Satisfy either '' @ [SQUOTE] @ ''any'' @ [SQUOTE] @ '' or '' @ [SQUOTE] @ ''all'' @ [SQUOTE] @ ''.''))"

definition require_cmd :: "u64 \<Rightarrow> cstring \<Rightarrow> dir_config \<Rightarrow> dir_config" where
  "require_cmd cmd_limited arg d =
     d\<lparr>dc_requires := Some ((case dc_requires d of None \<Rightarrow> [] | Some reqs \<Rightarrow> reqs) @ [\<lparr>rl_method_mask = cmd_limited, rl_requirement = arg\<rparr>])\<rparr>"

section \<open>Processing\<close>

definition decl_die :: "int \<Rightarrow> int" where
  "decl_die status = (if status = DECLINED then HTTP_INTERNAL_SERVER_ERROR else status)"

definition set_path :: "cstring \<Rightarrow> preq \<Rightarrow> preq" where
  "set_path p r =
     r\<lparr>pr_req := (pr_req r)\<lparr>q_parsed_uri := (q_parsed_uri (pr_req r))\<lparr>u_path := Some p\<rparr>,
                              q_uri := (if pr_uri_is_path r then p else q_uri (pr_req r))\<rparr>\<rparr>"

definition unescape_path :: "(nat \<Rightarrow> dir_config) \<Rightarrow> preq \<Rightarrow> int \<times> preq" where
  "unescape_path conf r =
     (if ar_proxyreq (pr_req r) = 0 then
        (case u_path (q_parsed_uri (pr_req r)) of
           None \<Rightarrow> (0, r)
         | Some path \<Rightarrow>
             (let d = conf (pr_per_dir_config r) in
              case (if dc_allow_encoded_slashes d then unescape_url_keep2f_ex path (dc_decode_encoded_slashes d) else unescape_url path) of
                (status, p) \<Rightarrow> (status, set_path p r)))
      else (0, r))"

definition clean_uri :: "preq \<Rightarrow> preq" where
  "clean_uri r =
     (let u = getparents (q_uri (pr_req r))
      in if pr_uri_is_path r then set_path u r else r\<lparr>pr_req := (pr_req r)\<lparr>q_uri := u\<rparr>\<rparr>)"

text \<open>A phase returns a status, or goes on with \<open>None\<close>.\<close>

type_synonym phase = "int option \<times> preq"

definition and_then :: "phase \<Rightarrow> (preq \<Rightarrow> phase) \<Rightarrow> phase" where
  "and_then x f = (case x of (Some status, r) \<Rightarrow> (Some status, r) | (None, r) \<Rightarrow> f r)"

text \<open>A result other than 0 is returned as it is, or through \<open>decl_die\<close>.\<close>

definition nonzero :: "int \<times> preq \<Rightarrow> phase" where
  "nonzero x = (case x of (status, r) \<Rightarrow> (if status \<noteq> 0 then Some status else None, r))"

definition nonzero_die :: "int \<times> preq \<Rightarrow> phase" where
  "nonzero_die x = (case x of (status, r) \<Rightarrow> (if status \<noteq> 0 then Some (decl_die status) else None, r))"

text \<open>A check of the user, with the test for \<open>AuthType\<close> behind it.\<close>

definition user_check :: "(nat \<Rightarrow> dir_config) \<Rightarrow> hook list \<Rightarrow> preq \<Rightarrow> phase" where
  "user_check conf hs r =
     (case run_first hs r of
        (status, r1) \<Rightarrow>
          (if status \<noteq> 0 \<or> dc_auth_type (conf (pr_per_dir_config r1)) = None then Some (decl_die status) else None, r1))"

definition check_user :: "(nat \<Rightarrow> dir_config) \<Rightarrow> hooks \<Rightarrow> preq \<Rightarrow> phase" where
  "check_user conf hk r = and_then (user_check conf (hook_check_user_id hk) r) (user_check conf (hook_auth_checker hk))"

definition inherit_user :: "parent \<Rightarrow> preq \<Rightarrow> preq" where
  "inherit_user p r = r\<lparr>pr_req := (pr_req r)\<lparr>ar_user := pa_user p, ar_ap_auth_type := pa_auth_type p\<rparr>\<rparr>"

definition same_config :: "parent option \<Rightarrow> preq \<Rightarrow> bool" where
  "same_config p r \<longleftrightarrow> (case p of None \<Rightarrow> False | Some q \<Rightarrow> pa_per_dir_config q = pr_per_dir_config r)"

definition authorize :: "(nat \<Rightarrow> dir_config) \<Rightarrow> hooks \<Rightarrow> preq \<Rightarrow> phase" where
  "authorize conf hk r =
     (if same_config (pr_main r) r then (None, inherit_user (the (pr_main r)) r)
      else if same_config (pr_prev r) r then (None, inherit_user (the (pr_prev r)) r)
      else (case ap_satisfies (conf (pr_per_dir_config r)) r of
              SATISFY_ANY \<Rightarrow>
                (case run_all (hook_access_checker hk) r of
                   (status, r1) \<Rightarrow>
                     if status \<noteq> 0 then
                       (if \<not> ap_some_auth_required (conf (pr_per_dir_config r1)) r1 then (Some (decl_die status), r1)
                        else check_user conf hk r1)
                     else (None, r1))
            | _ \<Rightarrow>
                and_then (nonzero_die (run_all (hook_access_checker hk) r))
                  (\<lambda>r1. if ap_some_auth_required (conf (pr_per_dir_config r1)) r1 then check_user conf hk r1 else (None, r1))))"

definition translate :: "hooks \<Rightarrow> preq \<Rightarrow> phase" where
  "translate hk r = and_then (nonzero (location_walk hk r)) (\<lambda>r1. nonzero_die (run_first (hook_translate_name hk) r1))"

text \<open>What is done before access is checked.\<close>

definition prepare :: "(nat \<Rightarrow> dir_config) \<Rightarrow> hooks \<Rightarrow> preq \<Rightarrow> phase" where
  "prepare conf hk r0 =
     (let file_req = (pr_main r0 \<noteq> None \<and> pr_filename r0 \<noteq> None) in
      and_then (nonzero (unescape_path conf r0)) (\<lambda>r1.
      and_then (if file_req then (None, clean_uri r1) else translate hk (clean_uri r1)) (\<lambda>r2.
      and_then (nonzero (run_first (hook_map_to_storage hk) (r2\<lparr>pr_per_dir_config := pr_lookup_defaults r2\<rparr>))) (\<lambda>r3.
      and_then (nonzero (location_walk hk r3)) (\<lambda>r4.
      if pr_main r4 = None then nonzero (run_all (hook_header_parser hk) r4) else (None, r4))))))"

definition process_request_internal :: "(nat \<Rightarrow> dir_config) \<Rightarrow> hooks \<Rightarrow> preq \<Rightarrow> int \<times> preq" where
  "process_request_internal conf hk r0 =
     (case and_then (prepare conf hk r0) (\<lambda>r1.
           and_then (authorize conf hk r1) (\<lambda>r2.
           and_then (nonzero_die (run_first (hook_type_checker hk) r2)) (\<lambda>r3.
           nonzero (run_all (hook_fixups hk) r3)))) of
        (Some status, r) \<Rightarrow> (status, r)
      | (None, r) \<Rightarrow> (0, r))"

section \<open>Translation to a file name\<close>

text \<open>\<open>path\<close> and \<open>pathlen\<close> of the server are those of the directive \<open>ServerPath\<close>.\<close>

definition relative_path :: "cstring option \<Rightarrow> cstring \<Rightarrow> cstring" where
  "relative_path server_path uri =
     (case server_path of
        None \<Rightarrow> dropWhile (\<lambda>c. c = CHR ''/'') uri
      | Some sp \<Rightarrow>
          if strneq uri sp (length sp) \<and>
             (List.last sp = CHR ''/'' \<or> cget uri (length sp) = CHR ''/'' \<or> cget uri (length sp) = NUL)
          then dropWhile (\<lambda>c. c = CHR ''/'') (drop (length sp) uri)
          else dropWhile (\<lambda>c. c = CHR ''/'') uri)"

definition core_translate :: "nat \<Rightarrow> path_error + cstring \<Rightarrow> cstring option \<Rightarrow> cstring option \<Rightarrow> hook" where
  "core_translate path_max cwd server_path document_root r =
     (let uri = q_uri (pr_req r) in
      if ar_proxyreq (pr_req r) \<noteq> 0 then (HTTP_FORBIDDEN, r)
      else if cget uri 0 \<noteq> CHR ''/'' \<and> uri \<noteq> ''*'' then (HTTP_BAD_REQUEST, r)
      else (case filepath_merge path_max cwd document_root (Some (relative_path server_path uri))
                   (or APR_FILEPATH_TRUENAME APR_FILEPATH_SECUREROOT) of
              Inl e \<Rightarrow> (HTTP_FORBIDDEN, r)
            | Inr filename \<Rightarrow> (0, r\<lparr>pr_filename := Some filename, pr_canonical_filename := Some filename\<rparr>)))"

section \<open>The modules as hooks\<close>

definition authz_host_hook ::
  "(client \<Rightarrow> cstring option \<times> bool \<times> client) \<Rightarrow> (cstring \<Rightarrow> bool) \<Rightarrow> (nat \<Rightarrow> dir_config) \<Rightarrow> hook" where
  "authz_host_hook remote env conf r =
     (case check_dir_access remote env (method_index r) (dc_authz_host (conf (pr_per_dir_config r))) (pr_client r) of
        (status, c) \<Rightarrow> (status, r\<lparr>pr_client := c\<rparr>))"

definition auth_basic_hook :: "(cstring \<Rightarrow> authn_provider option) \<Rightarrow> (nat \<Rightarrow> dir_config) \<Rightarrow> hook" where
  "auth_basic_hook registered conf r =
     (let d = conf (pr_per_dir_config r) in
      case authenticate_basic_user registered (dc_auth_type d) (dc_auth_name d) (dc_auth_basic d) (pr_req r) of
        (status, q) \<Rightarrow> (status, r\<lparr>pr_req := q\<rparr>))"

section \<open>Which file a URI leads to\<close>

lemma walk_total: "''..'' \<notin> set ss \<Longrightarrow> walk st ss \<noteq> None"
  by (induction st ss rule: walk.induct) auto

lemma path_segs_drop: "set (path_segs (dropWhile (\<lambda>c. c = CHR ''/'') s)) \<subseteq> set (path_segs s)"
  by (induction s) auto

lemma path_segs_tail:
  "u = [] \<or> List.last u = CHR ''/'' \<or> hd s = CHR ''/'' \<Longrightarrow>
    set (path_segs (dropWhile (\<lambda>c. c = CHR ''/'') s)) \<subseteq> insert [] (set (path_segs (u @ s)))"
proof -
  assume "u = [] \<or> List.last u = CHR ''/'' \<or> hd s = CHR ''/''"
  then consider "u = []" | u1 where "u = u1 @ ''/''" | s1 where "s = CHR ''/'' # s1" | "s = []"
    by (cases u rule: rev_cases; cases s) auto
  then show ?thesis
  proof cases
    case 1
    then show ?thesis using path_segs_drop [of s] by auto
  next
    case 2
    then have "set (path_segs s) \<subseteq> set (path_segs (u @ s))" by (simp add: path_segs_slash)
    then show ?thesis using path_segs_drop [of s] by blast
  next
    case 3
    then have "set (path_segs s1) \<subseteq> set (path_segs (u @ s))" by (simp add: path_segs_slash)
    then show ?thesis using path_segs_drop [of s1] 3 by auto
  qed simp
qed

lemma relative_path_segs:
  assumes "server_path \<noteq> Some []" "nul_free uri"
  shows "set (path_segs (relative_path server_path uri)) \<subseteq> insert [] (set (path_segs uri))"
proof (cases server_path)
  case None
  then show ?thesis using path_segs_drop [of uri] by (auto simp: relative_path_def)
next
  case (Some sp)
  show ?thesis
  proof (cases "strneq uri sp (length sp) \<and> (List.last sp = CHR ''/'' \<or> cget uri (length sp) = CHR ''/'' \<or> cget uri (length sp) = NUL)")
    case True
    let ?s = "drop (length sp) uri"
    have u: "uri = sp @ ?s" using True by (metis append_take_drop_id strneq_take take_all_iff order_refl)
    show ?thesis
    proof (cases "?s")
      case Nil
      then show ?thesis using Some True by (simp add: relative_path_def)
    next
      case (Cons c t)
      then have g: "cget uri (length sp) = c" by (subst u) (simp add: cget_append)
      have "c \<noteq> NUL" using assms(2) Cons u by (metis nul_free_simps(2,3))
      then show ?thesis using g Some True Cons path_segs_tail [of sp ?s] u by (auto simp: relative_path_def)
    qed
  next
    case False
    then show ?thesis using Some path_segs_drop [of uri] by (auto simp: relative_path_def)
  qed
qed

lemma relative_path_start:
  "cget (relative_path server_path uri) 0 \<noteq> CHR ''/'' \<and> length (relative_path server_path uri) \<le> length uri"
proof -
  have "cget (dropWhile (\<lambda>c. c = CHR ''/'') s) 0 \<noteq> CHR ''/''" for s by (induction s) auto
  moreover have "length (dropWhile (\<lambda>c. c = CHR ''/'') s) \<le> length uri" if "length s \<le> length uri" for s
    using that length_dropWhile_le le_trans by blast
  ultimately show ?thesis by (auto simp: relative_path_def split: option.split)
qed

text \<open>No URI leads out of the document root. Once \<open>ap_getparents\<close> has cleaned the path, \<open>ap_core_translate\<close> never answers 403 for it: a path
  from the root is mapped to the document root followed by names, whatever \<open>ServerPath\<close> says, and any other but \<open>*\<close> is
  answered with 400.\<close>

theorem uri_stays_below_root:
  assumes "ar_proxyreq (pr_req r) = 0" "q_uri (pr_req r) = getparents u" "nul_free (getparents u)" "server_path \<noteq> Some []"
    and "length root + length (getparents u) + 4 \<le> path_max"
  shows "if cget (getparents u) 0 = CHR ''/'' \<or> getparents u = ''*''
    then \<exists>filename names lst. filename = slash_terminated root @ dirs names @ lst \<and> list_all is_name names \<and> (lst = [] \<or> is_name lst) \<and>
      core_translate path_max cwd server_path (Some root) r = (0, r\<lparr>pr_filename := Some filename, pr_canonical_filename := Some filename\<rparr>)
    else core_translate path_max cwd server_path (Some root) r = (HTTP_BAD_REQUEST, r)"
proof -
  let ?uri = "getparents u" and ?f = "or APR_FILEPATH_TRUENAME APR_FILEPATH_SECUREROOT"
  define path where "path = relative_path server_path ?uri"
  have fl: "has_flag ?f APR_FILEPATH_SECUREROOTTEST" "\<not> has_flag ?f APR_FILEPATH_NOTABSOLUTE" "\<not> has_flag ?f APR_FILEPATH_NOTRELATIVE" by code_simp+
  have p: "cget path 0 \<noteq> CHR ''/''" "length path \<le> length ?uri"
    unfolding path_def using relative_path_start by blast+
  have "''..'' \<notin> set (path_segs path)"
    using relative_path_segs [OF assms(4,3)] getparents_segs [of u] by (auto simp: path_def)
  then obtain st where st: "walk [] (path_segs path) = Some st" using walk_total by blast
  obtain filename where f: "filepath_merge path_max cwd (Some root) (Some path) ?f = Inr filename"
    using merge_secure [OF fl p(1)] assms(5) p(2) st by fastforce
  have below: "\<exists>names lst. filename = slash_terminated root @ dirs names @ lst \<and> list_all is_name names \<and> (lst = [] \<or> is_name lst)"
    by (rule merge_below_root [OF fl(1) f])
  have t: "core_translate path_max cwd server_path (Some root) r =
    (if cget ?uri 0 = CHR ''/'' \<or> ?uri = ''*'' then (0, r\<lparr>pr_filename := Some filename, pr_canonical_filename := Some filename\<rparr>) else (HTTP_BAD_REQUEST, r))"
    unfolding core_translate_def Let_def assms(2) path_def [symmetric] f using assms(1) by auto
  show ?thesis
  proof (cases "cget ?uri 0 = CHR ''/'' \<or> ?uri = ''*''")
    case True
    show ?thesis using below t unfolding if_P [OF True] by blast
  next
    case False
    show ?thesis using t unfolding if_not_P [OF False] .
  qed
qed

section \<open>Who is let in\<close>

lemma and_then_None: "and_then x f = (None, r) \<longleftrightarrow> (\<exists>r1. x = (None, r1) \<and> f r1 = (None, r))"
  by (auto simp: and_then_def split: prod.splits option.splits)

lemma and_then_Some: "and_then x f = (Some st, r) \<longleftrightarrow> x = (Some st, r) \<or> (\<exists>r1. x = (None, r1) \<and> f r1 = (Some st, r))"
  by (auto simp: and_then_def split: prod.splits option.splits)

lemma die_nonzero [simp]: "decl_die status = 0 \<longleftrightarrow> status = 0"
  by (simp add: decl_die_def HTTP_INTERNAL_SERVER_ERROR_def DECLINED_def)

lemma nonzero_Some: "nonzero x = (Some st, r) \<Longrightarrow> st \<noteq> 0" "nonzero_die x = (Some st, r) \<Longrightarrow> st \<noteq> 0"
  by (auto simp: nonzero_def nonzero_die_def split: prod.splits if_splits)

lemma nonzero_None: "nonzero x = (None, r) \<longleftrightarrow> x = (0, r)" "nonzero_die x = (None, r) \<longleftrightarrow> x = (0, r)"
  by (auto simp: nonzero_def nonzero_die_def split: prod.splits)

lemma prepare_Some: "prepare conf hk r = (Some st, r1) \<Longrightarrow> st \<noteq> 0"
  by (auto simp: prepare_def translate_def Let_def and_then_Some dest: nonzero_Some split: if_splits)

text \<open>What may follow from a status 0.\<close>

lemma process_OK:
  assumes "process_request_internal conf hk r = (0, r')"
  shows "\<exists>r1. prepare conf hk r = (None, r1) \<and> (\<exists>r2. authorize conf hk r1 = (None, r2) \<or> authorize conf hk r1 = (Some 0, r2))"
proof -
  let ?x = "and_then (prepare conf hk r) (\<lambda>r1. and_then (authorize conf hk r1) (\<lambda>r2.
      and_then (nonzero_die (run_first (hook_type_checker hk) r2)) (\<lambda>r3. nonzero (run_all (hook_fixups hk) r3))))"
  have "?x = (None, r') \<or> ?x = (Some 0, r')"
    using assms by (auto simp: process_request_internal_def split: prod.splits option.splits)
  then show ?thesis
    by (auto simp: and_then_None and_then_Some dest: prepare_Some nonzero_Some)
qed

lemma run_all_one: "run_all [h] r = (0, r1) \<Longrightarrow> fst (h r) = 0 \<or> fst (h r) = DECLINED"
  by (auto split: prod.splits if_splits)

lemma run_first_one: "run_first [h] r = h r"
  by (auto split: prod.split)

lemma user_check_cases: "user_check conf hs r = (st, r1) \<Longrightarrow> st = None \<or> st = Some 0 \<Longrightarrow> fst (run_first hs r) = 0"
  by (auto simp: user_check_def split: prod.splits if_splits)

lemma check_user_cases: "check_user conf hk r = (st, r1) \<Longrightarrow> st = None \<or> st = Some 0 \<Longrightarrow> fst (run_first (hook_check_user_id hk) r) = 0"
  using user_check_cases by (auto simp: check_user_def and_then_def split: prod.splits option.splits)

text \<open>What an earlier step leaves alone: the client, its credentials and its challenge, and the relation to other requests.\<close>

definition client_kept :: "preq \<Rightarrow> preq \<Rightarrow> bool" where
  "client_kept r1 r \<longleftrightarrow> pr_client r1 = pr_client r \<and> credentials_of (pr_req r1) = credentials_of (pr_req r) \<and>
     q_method_number (pr_req r1) = q_method_number (pr_req r) \<and> pr_main r1 = pr_main r \<and> pr_prev r1 = pr_prev r"

definition keeps_client :: "hook \<Rightarrow> bool" where
  "keeps_client h \<longleftrightarrow> (\<forall>r. client_kept (snd (h r)) r)"

lemma client_kept_trans: "client_kept r2 r1 \<Longrightarrow> client_kept r1 r \<Longrightarrow> client_kept r2 r"
  by (simp add: client_kept_def)

lemma credentials_path [simp]: "credentials_of (q\<lparr>q_parsed_uri := u, q_uri := v\<rparr>) = credentials_of q" "credentials_of (q\<lparr>q_uri := v\<rparr>) = credentials_of q"
    "credentials_of (q\<lparr>q_parsed_uri := u\<rparr>) = credentials_of q"
  by (simp_all add: credentials_of_def auth_line_of_def)

lemma unescape_client: "client_kept (snd (unescape_path conf r)) r"
  by (auto simp: unescape_path_def set_path_def client_kept_def Let_def split: option.split prod.split)

lemma clean_client: "client_kept (clean_uri r) r"
  by (simp add: clean_uri_def set_path_def client_kept_def Let_def)

lemma run_first_client: "list_all keeps_client hs \<Longrightarrow> client_kept (snd (run_first hs r)) r"
proof (induction hs r rule: run_first.induct)
  case (2 h hs r)
  obtain rv r1 where h: "h r = (rv, r1)" by fastforce
  then have "client_kept r1 r" using 2(2) by (simp add: keeps_client_def) (metis snd_conv)
  then show ?case using 2 h client_kept_trans by auto
qed (simp add: client_kept_def)

lemma run_all_client: "list_all keeps_client hs \<Longrightarrow> client_kept (snd (run_all hs r)) r"
proof (induction hs r rule: run_all.induct)
  case (2 h hs r)
  obtain rv r1 where h: "h r = (rv, r1)" by fastforce
  then have "client_kept r1 r" using 2(2) by (simp add: keeps_client_def) (metis snd_conv)
  then show ?case using 2 h client_kept_trans by auto
qed (simp add: client_kept_def)

definition quiet_hooks :: "hooks \<Rightarrow> bool" where
  "quiet_hooks hk \<longleftrightarrow> keeps_client (location_walk hk) \<and> list_all keeps_client (hook_translate_name hk) \<and>
     list_all keeps_client (hook_map_to_storage hk) \<and> list_all keeps_client (hook_header_parser hk)"

lemma translate_client: "quiet_hooks hk \<Longrightarrow> translate hk r = (None, r1) \<Longrightarrow> client_kept r1 r"
  unfolding quiet_hooks_def translate_def and_then_None nonzero_None
  by (metis keeps_client_def run_first_client client_kept_trans snd_conv)

lemma prepare_client:
  assumes "quiet_hooks hk" "prepare conf hk r0 = (None, r4)"
  shows "client_kept r4 r0"
proof -
  obtain r1 r2 r3 r5 where s: "unescape_path conf r0 = (0, r1)" "r2 = clean_uri r1 \<or> translate hk (clean_uri r1) = (None, r2)"
    "run_first (hook_map_to_storage hk) (r2\<lparr>pr_per_dir_config := pr_lookup_defaults r2\<rparr>) = (0, r3)" "location_walk hk r3 = (0, r5)"
    "r4 = r5 \<or> run_all (hook_header_parser hk) r5 = (0, r4)"
    using assms(2) by (auto simp: prepare_def Let_def and_then_None nonzero_None split: if_splits)
  have "client_kept r1 r0" using unescape_client [of conf r0] s(1) by simp
  moreover have "client_kept r2 r1" using s(2) clean_client translate_client [OF assms(1)] client_kept_trans by metis
  moreover have "client_kept r3 r2"
    using run_first_client [of "hook_map_to_storage hk" "r2\<lparr>pr_per_dir_config := pr_lookup_defaults r2\<rparr>"] assms(1) s(3)
    by (simp add: quiet_hooks_def client_kept_def)
  moreover have "client_kept r5 r3" using s(4) assms(1) by (metis quiet_hooks_def keeps_client_def snd_conv)
  moreover have "client_kept r4 r5"
    using s(5) run_all_client [of "hook_header_parser hk" r5] assms(1) by (auto simp: quiet_hooks_def client_kept_def)
  ultimately show ?thesis using client_kept_trans by metis
qed

text \<open>What the directives of a directory demand of a request.\<close>

definition host_allowed where
  "host_allowed getnameinfo lookup lookups env d r \<longleftrightarrow>
     (let a = dc_authz_host d; m = method_index r; c = pr_client r;
          holds = list_ex (entry_holds env (remote_addr c) (fst (client_host getnameinfo lookup lookups c)) m)
      in order_grants (access_orders a ! m) (holds (allows a)) (holds (denys a)))"

definition user_granted :: "(cstring \<Rightarrow> authn_provider option) \<Rightarrow> dir_config \<Rightarrow> preq \<Rightarrow> bool" where
  "user_granted registered d r \<longleftrightarrow>
     (\<exists>user pw name check q. credentials_of (pr_req r) = Some (user, pw) \<and>
        (name, check) \<in> set (asked_providers registered (dc_auth_basic d)) \<and> fst (check q user pw) = AUTH_GRANTED)"

definition satisfied where
  "satisfied getnameinfo lookup lookups env registered d r \<longleftrightarrow>
     (case ap_satisfies d r of
        SATISFY_ANY \<Rightarrow> host_allowed getnameinfo lookup lookups env d r \<or> ap_some_auth_required d r \<and> user_granted registered d r
      | _ \<Rightarrow> host_allowed getnameinfo lookup lookups env d r \<and> (ap_some_auth_required d r \<longrightarrow> user_granted registered d r))"

lemma host_hook_allows:
  assumes "authz_host_hook (client_host getnameinfo lookup lookups) env conf r = (st, r1)"
  shows "(st = 0 \<longleftrightarrow> host_allowed getnameinfo lookup lookups env (conf (pr_per_dir_config r)) r) \<and> (st = 0 \<or> st = HTTP_FORBIDDEN) \<and>
    pr_per_dir_config r1 = pr_per_dir_config r \<and> pr_req r1 = pr_req r"
  using assms decision [of getnameinfo lookup lookups env "method_index r" "dc_authz_host (conf (pr_per_dir_config r))" "pr_client r"]
  by (auto simp: authz_host_hook_def host_allowed_def Let_def HTTP_FORBIDDEN_def split: prod.splits if_splits)

lemma basic_hook_grants:
  assumes "fst (auth_basic_hook registered conf r) = 0"
  shows "user_granted registered (conf (pr_per_dir_config r)) r"
proof -
  let ?d = "conf (pr_per_dir_config r)"
  have "fst (authenticate_basic_user registered (dc_auth_type ?d) (dc_auth_name ?d) (dc_auth_basic ?d) (pr_req r)) = Http_Cond.OK"
    using assms by (auto simp: auth_basic_hook_def Let_def Http_Cond.OK_def split: prod.splits)
  from authenticated [OF this] show ?thesis unfolding user_granted_def .
qed

text \<open>A status 0 of the checks of a user says that Basic authentication granted the credentials.\<close>

lemma user_checked:
  assumes "hook_check_user_id hk = [auth_basic_hook registered conf]" "check_user conf hk r = (st, r1)" "st = None \<or> st = Some 0"
  shows "user_granted registered (conf (pr_per_dir_config r)) r"
  using check_user_cases [OF assms(2,3)] unfolding assms(1) run_first_one by (rule basic_hook_grants)

lemma authorize_satisfied:
  assumes "hook_check_user_id hk = [auth_basic_hook registered conf]"
    and "hook_access_checker hk = [authz_host_hook (client_host getnameinfo lookup lookups) env conf]"
    and "pr_main r = None" "pr_prev r = None" "authorize conf hk r = (st, r2)" "st = None \<or> st = Some 0"
  shows "satisfied getnameinfo lookup lookups env registered (conf (pr_per_dir_config r)) r"
proof -
  let ?h = "authz_host_hook (client_host getnameinfo lookup lookups) env conf" and ?d = "conf (pr_per_dir_config r)"
  obtain s r1 where h: "?h r = (s, r1)" by fastforce
  note a = host_hook_allows [OF h]
  have same: "pr_per_dir_config r1 = pr_per_dir_config r" "ap_some_auth_required d r1 = ap_some_auth_required d r"
    "user_granted registered d r1 = user_granted registered d r" for d
    using a by (simp_all add: ap_some_auth_required_def method_index_def user_granted_def split: option.split)
  have ra: "run_all [?h] r = (s, r1)"
    using a h by (auto simp: DECLINED_def HTTP_FORBIDDEN_def)
  have auth: "authorize conf hk r =
    (case ap_satisfies ?d r of
       SATISFY_ANY \<Rightarrow> if s \<noteq> 0 then (if \<not> ap_some_auth_required ?d r then (Some (decl_die s), r1) else check_user conf hk r1) else (None, r1)
     | _ \<Rightarrow> and_then (nonzero_die (s, r1)) (\<lambda>r1. if ap_some_auth_required (conf (pr_per_dir_config r1)) r1 then check_user conf hk r1 else (None, r1)))"
    unfolding authorize_def assms(2) ra using assms(3,4) same by (simp add: same_config_def split: satisfy.split)
  have granted: "user_granted registered ?d r" if "check_user conf hk r1 = (st, r2)"
    using user_checked [OF assms(1) that assms(6)] same by simp
  show ?thesis
    using assms(5,6) a granted same unfolding auth satisfied_def
    by (cases "ap_satisfies ?d r") (auto simp: and_then_def nonzero_die_def split: if_splits)
qed

lemma satisfied_same:
  assumes "client_kept r1 r"
  shows "satisfied getnameinfo lookup lookups env registered d r1 = satisfied getnameinfo lookup lookups env registered d r"
  using assms by (simp add: client_kept_def satisfied_def ap_satisfies_def ap_some_auth_required_def host_allowed_def user_granted_def
      method_index_def cong: satisfy.case_cong option.case_cong)

text \<open>A request of a client that goes on to its handler has met what the configuration demands of its URI. With access by
  host and Basic authentication in the hooks, \<open>ap_process_request_internal\<close> answers 0 to a main request only if, under the
  configuration the walks have chosen, its address is allowed by \<open>Order\<close>, \<open>Allow\<close> and \<open>Deny\<close> and, where a \<open>Require\<close> is for its
  method, a provider granted its credentials; with \<open>Satisfy any\<close> either is enough.\<close>

theorem satisfy_enforced:
  assumes "process_request_internal conf hk r = (0, r')" "quiet_hooks hk"
    and "hook_check_user_id hk = [auth_basic_hook registered conf]"
    and "hook_access_checker hk = [authz_host_hook (client_host getnameinfo lookup lookups) env conf]"
    and "pr_main r = None" "pr_prev r = None"
  shows "\<exists>r1. prepare conf hk r = (None, r1) \<and>
    satisfied getnameinfo lookup lookups env registered (conf (pr_per_dir_config r1)) r"
proof -
  obtain r1 st r2 where r1: "prepare conf hk r = (None, r1)" "authorize conf hk r1 = (st, r2)" "st = None \<or> st = Some 0"
    using process_OK [OF assms(1)] by blast
  note same = prepare_client [OF assms(2) r1(1)]
  have "pr_main r1 = None" "pr_prev r1 = None" using same assms(5,6) by (simp_all add: client_kept_def)
  from authorize_satisfied [OF assms(3,4) this r1(2,3)] show ?thesis
    using r1(1) satisfied_same [OF same] by auto
qed

text \<open>A directory with \<open>Require\<close> and without \<open>AuthType\<close> is open to whoever a module accepts in \<open>check_user_id\<close>: \<open>decl_die\<close> then gets the
  status 0 of that hook, and the request is answered 0 before the checkers of authorization, of the type and of the fixups were
  asked, whatever they are.\<close>

theorem no_auth_type_lets_in:
  assumes "prepare conf hk r0 = (None, r)" "pr_main r = None" "pr_prev r = None"
    and "ap_satisfies (conf (pr_per_dir_config r)) r \<noteq> SATISFY_ANY" "run_all (hook_access_checker hk) r = (0, ra)"
    and "ap_some_auth_required (conf (pr_per_dir_config ra)) ra" "run_first (hook_check_user_id hk) ra = (0, r1)"
    and "dc_auth_type (conf (pr_per_dir_config r1)) = None"
  shows "process_request_internal conf hk r0 = (0, r1)"
proof -
  have "authorize conf hk r = (Some 0, r1)"
    using assms(2-) by (cases "ap_satisfies (conf (pr_per_dir_config r)) r")
      (simp_all add: authorize_def same_config_def and_then_def nonzero_die_def check_user_def user_check_def decl_die_def DECLINED_def)
  then show ?thesis using assms(1) by (simp add: process_request_internal_def and_then_def)
qed

section \<open>Witnesses\<close>

text \<open>A directory for the users of Basic authentication, all hosts allowed.\<close>

definition sample_dir :: dir_config where
  "sample_dir =
     \<lparr>dc_allow_encoded_slashes = False, dc_decode_encoded_slashes = False, dc_satisfy = replicate METHODS SATISFY_NOSPEC,
      dc_auth_type = Some ''Basic'', dc_auth_name = Some ''realm'', dc_requires = Some [\<lparr>rl_method_mask = - 1, rl_requirement = ''valid-user''\<rparr>],
      dc_authz_host = create_authz_host_dir_config,
      dc_auth_basic = \<lparr>ab_providers = [(''file'', sample_check AUTH_GRANTED)], ab_authoritative = True\<rparr>\<rparr>"

definition go_on :: hook where
  "go_on r = (0, r)"

definition sample_hooks :: "(nat \<Rightarrow> dir_config) \<Rightarrow> hooks" where
  "sample_hooks conf =
     \<lparr>location_walk = go_on, hook_translate_name = [core_translate 96 (Inl APR_EABOVEROOT) None (Some ''/srv'')],
      hook_map_to_storage = [go_on], hook_header_parser = [],
      hook_access_checker = [authz_host_hook (client_host (\<lambda>_. None) (\<lambda>_. None) HOSTNAME_LOOKUP_OFF) (\<lambda>_. False) conf],
      hook_check_user_id = [auth_basic_hook (\<lambda>_. None) conf], hook_auth_checker = [go_on], hook_type_checker = [go_on],
      hook_fixups = []\<rparr>"

definition sample_preq :: "cstring \<Rightarrow> preq" where
  "sample_preq u =
     \<lparr>pr_req = (sample_areq ''Aladdin'' ''sesame'')\<lparr>q_parsed_uri := no_uri\<lparr>u_path := Some u\<rparr>, q_uri := u\<rparr>, pr_client = sample_client,
      pr_uri_is_path = True, pr_main = None, pr_prev = None, pr_filename = None, pr_canonical_filename = None,
      pr_per_dir_config = 0, pr_lookup_defaults = 0\<rparr>"

lemma core_translate_quiet: "keeps_client (core_translate path_max cwd server_path root)"
  by (auto simp: keeps_client_def core_translate_def client_kept_def Let_def split: sum.split)

lemma go_on_quiet: "keeps_client go_on"
  by (simp add: keeps_client_def go_on_def client_kept_def)

definition sample_file :: preq where
  "sample_file = (sample_preq ''/b'')\<lparr>pr_filename := Some ''/srv/b'', pr_canonical_filename := Some ''/srv/b''\<rparr>"

lemma sample_translate: "core_translate 96 (Inl APR_EABOVEROOT) None (Some ''/srv'') (sample_preq ''/b'') = (0, sample_file)"
proof -
  have "filepath_merge 96 (Inl APR_EABOVEROOT) (Some ''/srv'') (Some ''b'') (or APR_FILEPATH_TRUENAME APR_FILEPATH_SECUREROOT) = Inr ''/srv/b''"
    by code_simp
  then show ?thesis by (simp add: core_translate_def sample_preq_def sample_file_def areq_fields relative_path_def Let_def)
qed

lemma sample_prepared:
  assumes "\<not> dc_allow_encoded_slashes d" "location_walk hk = go_on" "hook_map_to_storage hk = [go_on]" "hook_header_parser hk = []"
    and "hook_translate_name hk = [core_translate 96 (Inl APR_EABOVEROOT) None (Some ''/srv'')]"
  shows "prepare (\<lambda>_. d) hk (sample_preq ''/b'') = (None, sample_file)"
proof -
  have u: "unescape_url ''/b'' = (0, ''/b'')" "getparents ''/b'' = ''/b''" by code_simp+
  have p: "unescape_path (\<lambda>_. d) (sample_preq ''/b'') = (0, sample_preq ''/b'')" "clean_uri (sample_preq ''/b'') = sample_preq ''/b''"
    using assms(1) u by (simp_all add: unescape_path_def clean_uri_def set_path_def sample_preq_def areq_fields Let_def)
  have f: "sample_file\<lparr>pr_per_dir_config := pr_lookup_defaults sample_file\<rparr> = sample_file" "pr_main sample_file = None" "pr_main (sample_preq ''/b'') = None"
    by (simp_all add: sample_file_def sample_preq_def)
  show ?thesis
    unfolding prepare_def translate_def assms p f run_first_one sample_translate
    by (simp add: p f and_then_def nonzero_def nonzero_die_def go_on_def DECLINED_def run_first_one sample_translate)
qed

lemma sample_auth_ok:
  assumes "credentials_of q = Some (''Aladdin'', ''sesame'')"
  shows "fst (auth_basic_hook (\<lambda>_. None) (\<lambda>_. sample_dir) (r\<lparr>pr_req := q\<rparr>)) = 0"
proof -
  have "strcaseeq ''Basic'' ''Basic''" by code_simp
  moreover have "credentials_of (q\<lparr>ar_ap_auth_type := Some ''Basic''\<rparr>) = Some (''Aladdin'', ''sesame'')"
    using assms by (simp add: credentials_of_def auth_line_of_def)
  ultimately show ?thesis
    by (simp add: auth_basic_hook_def sample_dir_def authenticate_basic_user_def get_basic_auth_cases check_providers_def ask_provider_def
        sample_check_def Http_Cond.OK_def)
qed
lemma sample_authorized:
  assumes "hook_access_checker hk = [authz_host_hook (client_host (\<lambda>_. None) (\<lambda>_. None) HOSTNAME_LOOKUP_OFF) (\<lambda>_. False) (\<lambda>_. sample_dir)]"
    and "hook_check_user_id hk = [auth_basic_hook (\<lambda>_. None) (\<lambda>_. sample_dir)]" "hook_auth_checker hk = [go_on]"
  shows "fst (authorize (\<lambda>_. sample_dir) hk sample_file) = None"
proof -
  let ?h = "authz_host_hook (client_host (\<lambda>_. None) (\<lambda>_. None) HOSTNAME_LOOKUP_OFF) (\<lambda>_. False) (\<lambda>_. sample_dir)"
  have m: "method_index sample_file = 0" "pr_main sample_file = None" "pr_prev sample_file = None"
    by (simp_all add: method_index_def sample_file_def sample_preq_def sample_areq_def req.defs areq.defs new_req_def)
  obtain st r1 where h: "?h sample_file = (st, r1)" by fastforce
  note a = host_hook_allows [OF h]
  have allowed: "host_allowed (\<lambda>_. None) (\<lambda>_. None) HOSTNAME_LOOKUP_OFF (\<lambda>_. False) sample_dir sample_file"
    by (simp add: host_allowed_def m sample_dir_def create_authz_host_dir_config_def METHODS_def order_grants_def)
  then have ra: "run_all [?h] sample_file = (0, r1)" and st: "st = 0" using a h by simp_all
  have req: "pr_req r1 = pr_req sample_file" using a by blast
  have "credentials_of (pr_req r1) = Some (''Aladdin'', ''sesame'')"
    using sample_credentials [of "''sesame''"] by (simp add: req sample_file_def sample_preq_def)
  from sample_auth_ok [OF this, of r1] have "fst (auth_basic_hook (\<lambda>_. None) (\<lambda>_. sample_dir) r1) = 0" by simp
  then obtain r2 where r2: "auth_basic_hook (\<lambda>_. None) (\<lambda>_. sample_dir) r1 = (0, r2)" by (metis prod.collapse)
  have s: "ap_satisfies sample_dir sample_file = SATISFY_NOSPEC" "dc_auth_type sample_dir = Some ''Basic''"
    by (simp_all add: ap_satisfies_def m sample_dir_def METHODS_def)
  show ?thesis
    unfolding authorize_def assms ra s
    by (simp add: same_config_def m and_then_def nonzero_die_def check_user_def user_check_def assms run_first_one r2 s go_on_def)
qed

theorem satisfy_enforced_witness:
  "fst (process_request_internal (\<lambda>_. sample_dir) (sample_hooks (\<lambda>_. sample_dir)) (sample_preq ''/b'')) = 0 \<and>
   satisfied (\<lambda>_. None) (\<lambda>_. None) HOSTNAME_LOOKUP_OFF (\<lambda>_. False) (\<lambda>_. None) sample_dir (sample_preq ''/b'')"
proof -
  let ?hk = "sample_hooks (\<lambda>_. sample_dir)" and ?r = "sample_preq ''/b''"
  have d: "\<not> dc_allow_encoded_slashes sample_dir" by (simp add: sample_dir_def)
  have p: "prepare (\<lambda>_. sample_dir) ?hk ?r = (None, sample_file)" by (rule sample_prepared [OF d]) (simp_all add: sample_hooks_def)
  have "fst (authorize (\<lambda>_. sample_dir) ?hk sample_file) = None" by (rule sample_authorized) (simp_all add: sample_hooks_def)
  then obtain r2 where a: "authorize (\<lambda>_. sample_dir) ?hk sample_file = (None, r2)" by (metis prod.collapse)
  have z: "process_request_internal (\<lambda>_. sample_dir) ?hk ?r = (0, r2)"
    unfolding process_request_internal_def p by (simp add: and_then_def a) (simp add: sample_hooks_def go_on_def nonzero_die_def nonzero_def run_first_one)
  have "quiet_hooks ?hk" by (simp add: quiet_hooks_def sample_hooks_def core_translate_quiet go_on_quiet)
  from satisfy_enforced [OF z this] show ?thesis using z by (auto simp: sample_hooks_def sample_preq_def)
qed

theorem no_auth_type_lets_in_witness:
  "process_request_internal (\<lambda>_. sample_dir\<lparr>dc_auth_type := None\<rparr>)
     ((sample_hooks (\<lambda>_. sample_dir))\<lparr>hook_access_checker := [], hook_check_user_id := [go_on], hook_auth_checker := [\<lambda>r. (HTTP_FORBIDDEN, r)]\<rparr>)
     (sample_preq ''/b'') = (0, sample_file)"
proof -
  let ?d = "sample_dir\<lparr>dc_auth_type := None\<rparr>" and ?r = "sample_preq ''/b''"
  let ?hk = "(sample_hooks (\<lambda>_. sample_dir))\<lparr>hook_access_checker := [], hook_check_user_id := [go_on], hook_auth_checker := [\<lambda>r. (HTTP_FORBIDDEN, r)]\<rparr>"
  have d: "\<not> dc_allow_encoded_slashes ?d" by (simp add: sample_dir_def)
  have p: "prepare (\<lambda>_. ?d) ?hk ?r = (None, sample_file)" by (rule sample_prepared [OF d]) (simp_all add: sample_hooks_def)
  have m: "method_index sample_file = 0" "pr_main sample_file = None" "pr_prev sample_file = None"
    by (simp_all add: method_index_def sample_file_def sample_preq_def sample_areq_def req.defs areq.defs new_req_def)
  show ?thesis
    by (rule no_auth_type_lets_in [OF p m(2,3), where ra = sample_file])
      (simp_all add: ap_satisfies_def ap_some_auth_required_def m sample_dir_def METHODS_def DECLINED_def go_on_def)
qed

theorem uri_stays_below_root_witness:
  "\<exists>filename names lst. filename = slash_terminated ''/srv'' @ dirs names @ lst \<and> list_all is_name names \<and> (lst = [] \<or> is_name lst) \<and>
    core_translate 96 (Inl APR_EABOVEROOT) None (Some ''/srv'') (sample_preq ''/b'') =
      (0, (sample_preq ''/b'')\<lparr>pr_filename := Some filename, pr_canonical_filename := Some filename\<rparr>)"
proof -
  have u: "getparents ''/a/../b'' = ''/b''" by code_simp
  have "ar_proxyreq (pr_req (sample_preq ''/b'')) = 0" "q_uri (pr_req (sample_preq ''/b'')) = getparents ''/a/../b''"
    by (simp_all add: sample_preq_def u areq_fields)
  from uri_stays_below_root [OF this, of None "''/srv''" 96 "Inl APR_EABOVEROOT"] show ?thesis unfolding u by simp
qed

end
