(* ===== verification/Spec2Isabelle.thy ===== *)
theory Spec2Isabelle
  imports Prelude Test_Char Util_Word Util_Escape Util_Match Util_Path Util_List
    Cache_Pqueue Cache_Hash Cache_Cache Mem_Cache Http_Method Http_Cond Http_Etag
    Libc Http_Range Apr_Brigade Core_Input Http_Chunk Http_Chunk_Out Worker_Mpm
    Apr_Uri Apr_Table Apr_Table_Sort Http_Getline Http_Request Apr_Inet Apr_Sockaddr Vhost Authz_Host Apr_Base64 Auth_Basic Apr_Hash Apr_Date Apr_Filepath Process_Request
begin

text \<open>
  A verification development for the HTTP server Apache httpd 2.2.21, the program this repository keeps
  (twice, file by file the same) under \<open>src/proj/qi/partB/httpd-2.2.21\<close> and \<open>src/qi/partB/httpd-2.2.21\<close>.
  File names below are relative to that directory; the build modelled is the one for Unix with ASCII
  and threads.

  \<^bold>\<open>The program.\<close> A child process of the worker MPM has a listener thread, which accepts connections,
  and worker threads, which serve them. A worker reads requests from the connection through a stack of
  input filters over a brigade of buckets, parses request line, URI and header fields into tables,
  finds and produces the content, from a file or a cache, and sends it through output filters that cut
  out byte ranges and write the chunked coding. The routines on strings of \<open>server/util.c\<close> serve all.

  \<^bold>\<open>The theories.\<close>
  \<^item> \<open>Prelude\<close>: C characters and strings, \<open>ctype\<close> and \<open>string.h\<close>, generic lemmas. \<open>Libc\<close>: reading and
    printing of numbers.
  \<^item> \<open>Test_Char\<close>: \<open>server/gen_test_char.c\<close>, the table of character classes the escapes use.
  \<^item> \<open>Util_Match\<close>, \<open>Util_Path\<close>, \<open>Util_Word\<close>, \<open>Util_List\<close>, \<open>Util_Escape\<close>: \<open>server/util.c\<close>, in the order
    wildcard matching and substitution, clean-up of paths, splitting into words, items and tokens of
    header fields, escaping and unescaping.
  \<^item> \<open>Cache_Pqueue\<close>, \<open>Cache_Hash\<close>, \<open>Cache_Cache\<close>, \<open>Mem_Cache\<close>: the memory cache, \<open>modules/cache\<close>: heap,
    hash table, the cache of bounded size over both, and the life cycle of cached objects under several
    requests at once, with reference counts and an explicit heap of objects.
  \<^item> \<open>Http_Method\<close>, \<open>Http_Cond\<close>, \<open>Http_Etag\<close>: \<open>modules/http/http_protocol.c\<close> and \<open>http_etag.c\<close>: methods,
    status lines, the keep-alive decision, conditional requests, entity tags. They read a header table
    as a map; \<open>Apr_Table_Sort\<close> says that the real tables are such maps.
  \<^item> \<open>Apr_Table\<close>, \<open>Apr_Table_Sort\<close>: \<open>srclib/apr/tables/apr_tables.c\<close>, the tables of header fields with their
    index, checksums, loops that move entries in place, and the mergesort.
  \<^item> \<open>Apr_Uri\<close>: \<open>srclib/apr-util/uri/apr_uri.c\<close>. \<open>Apr_Hash\<close>: \<open>srclib/apr/tables/apr_hash.c\<close>. \<open>Apr_Base64\<close>:
    \<open>srclib/apr-util/encoding/apr_base64.c\<close>. \<open>Apr_Date\<close>: \<open>srclib/apr-util/misc/apr_date.c\<close> and
    \<open>srclib/apr/time/unix\<close>. \<open>Apr_Filepath\<close>: \<open>srclib/apr/file_io/unix/filepath.c\<close> and \<open>filepath_util.c\<close>.
    \<open>Apr_Inet\<close>, \<open>Apr_Sockaddr\<close>: \<open>srclib/apr/network_io/unix\<close>, numeric addresses, address and port, subnets.
  \<^item> \<open>Apr_Brigade\<close>, \<open>Core_Input\<close>: buckets and brigades and \<open>ap_core_input_filter\<close> of \<open>server/core_filters.c\<close>.
  \<^item> \<open>Http_Chunk\<close>, \<open>Http_Chunk_Out\<close>: the chunked coding, \<open>modules/http/http_filters.c\<close> (reading) and
    \<open>chunk_filter.c\<close> (writing), and that each undoes the other. \<open>Http_Range\<close>: \<open>byterange_filter.c\<close>.
  \<^item> \<open>Http_Getline\<close>, \<open>Http_Request\<close>: \<open>server/protocol.c\<close>, reading lines through the core filter, folding them,
    the request line, the header fields, the checks and the answers of \<open>ap_read_request\<close>.
  \<^item> \<open>Vhost\<close>: \<open>server/vhost.c\<close>, the servers of an address and of a name, and the check of host names.
  \<^item> \<open>Authz_Host\<close>: \<open>modules/aaa/mod_authz_host.c\<close> with \<open>ap_get_remote_host\<close> of \<open>server/core.c\<close>. \<open>Auth_Basic\<close>:
    \<open>modules/aaa/mod_auth_basic.c\<close>. \<open>Process_Request\<close>: \<open>server/request.c\<close>, what happens to a request up to its
    handler, with both as hooks, and \<open>ap_core_translate\<close>.
  \<^item> \<open>Worker_Queue\<close>, \<open>Worker_Pools\<close>, \<open>Worker_Mpm\<close>: \<open>server/mpm/worker/fdqueue.c\<close> with the loops of
    \<open>worker.c\<close> that call it, as a step relation over threads, one atomic action at a step.

  \<^bold>\<open>State and data.\<close> A struct is a record, an enum a datatype. A C string is the list of its bytes before
  the terminator, a pointer into it an index or the suffix. Machine integers are words where their width
  matters (sizes of the cache, checksums, chunk sizes, ports, entity tags) and numbers elsewhere.
  A table is the list of its entries with its index; a brigade the list of its buckets, and a socket bucket
  the list of what the socket will answer, data, would block, time-out or failure. A pointer to a shared
  object of the memory cache is an address into a heap, so that use after free can be stated. Errors are
  values: a status, an option or a pair of both. Pools are not modelled: allocation succeeds.

  \<^bold>\<open>Interfaces.\<close> The locale \<open>byte_source\<close> is what a filter may rely on in the filter below; the core filter
  is an interpretation, and the client lemmas of \<open>ap_http_filter\<close> are proved in it. \<open>header_table\<close> states a
  table of headers by the values of its keys; \<open>apr_table_t\<close> is an interpretation. The cache states what it
  needs of the removal algorithm as a locale with the two algorithms of \<open>mod_mem_cache.c\<close> as
  interpretations. \<open>string_map\<close> states a hash table as a finite map; the tables of the cache and of the runtime
  are interpretations.

  \<^bold>\<open>The lemmas.\<close> For each component: an invariant and that every operation keeps it; what each operation
  returns on every branch; that loops end (every loop is a total function, except those that wait for the
  network, where a bound on the calls is part of the theorem); and, where a pair of operations belongs
  together, the round trip. For the threads: invariants by rule induction over the step relation, in
  one invariant per resource (counts, mutexes, signals, pools, connections), and liveness as the
  existence of a continuation in which no thread wakes up unsignalled and no shutdown begins. For the
  memory cache: exact reference counts in every state that is reached while \<open>remove_url\<close> is called
  only for objects in the cache, and the use after free that is reached without this condition.

  \<^bold>\<open>Bounds and fuel.\<close> Loops on strings and arrays are structural or carry a measure. Reading a whole body
  calls the filter at most once more than it has bytes. The runs that refute a property (a lost connection,
  a stranded listener) are concrete schedules that are evaluated.

  \<^bold>\<open>Assumptions on the environment.\<close> Mutex operations succeed; a condition variable may wake up without a
  signal; name lookups and the content of files are parameters, and so are, where other components call
  them, the parser of dates, the walks over the sections of the configuration and the trailers of a
  chunked body.

  \<^bold>\<open>Not modelled.\<close> The other MPMs and the scoreboard; the configuration tree, the walks over its sections, the
  registration of filters and the modules that only set up hooks; the regular expressions of pcre and the XML parser expat, which the source carries as third-party
  libraries; TLS, the proxies and DAV; the rest of the portable runtime (pools, threads, files, sockets),
  whose effects are the operating system's; support programs, and the course material around the server.
\<close>

end
